(* ===== verification/Nowhere_Prelude.thy ===== *)
theory Nowhere_Prelude
  imports Main "HOL-Library.Word" "HOL-Library.AList"
begin

unbundle bit_operations_syntax

section \<open>Prelude: machine types, errors, byte streams, big-endian integers\<close>

text \<open>
  What every component shares: the fixed-width integers of Go as words, error values, the
  readers and writers of package \<^verbatim>\<open>io\<close>, the fixed-width integers of package
  \<^verbatim>\<open>encoding/binary\<close>, and the two interfaces that several components implement:
  a stream codec (what is written is what is read) and an operation set that keeps an
  invariant.
\<close>

type_synonym byte = "8 word"
type_synonym u16 = "16 word"
type_synonym u32 = "32 word"
type_synonym u64 = "64 word"

text \<open>Nanoseconds: a \<^verbatim>\<open>time.Time\<close> is an instant, a \<^verbatim>\<open>time.Duration\<close> a difference.\<close>

type_synonym time = int

named_theorems codec_simps \<open>unfolding equations of the wire codecs\<close>
named_theorems bytes_simps \<open>facts on fixed-width integers as bytes\<close>

subsection \<open>Errors\<close>

text \<open>
  \<^verbatim>\<open>errors.New s\<close> is \<open>New s\<close>, \<^verbatim>\<open>fmt.Errorf\<close> with integer arguments is
  \<open>Errorf\<close>, with \<^verbatim>\<open>%w\<close> is \<open>Wrapped\<close>; the sentinels of package \<^verbatim>\<open>io\<close> have
  constructors of their own. A Go result \<^verbatim>\<open>(T, error)\<close> is \<open>error + 'a\<close>; a lone
  \<^verbatim>\<open>error\<close> is \<open>error option\<close> with \<open>None\<close> for \<^verbatim>\<open>nil\<close>.
\<close>

datatype error =
    New string
  | Errorf string "int list"
  | Wrapped string error
  | EOF
  | ErrUnexpectedEOF
  | ErrShortWrite
  | ErrNoProgress

fun errors_Is :: "error \<Rightarrow> error \<Rightarrow> bool" where
  "errors_Is (Wrapped s e) t = (Wrapped s e = t \<or> errors_Is e t)"
| "errors_Is e t = (e = t)"

text \<open>A call that can panic (an index out of range): \<open>Ret\<close> is an ordinary return.\<close>

datatype 'a go = Ret 'a | Panic

definition go_bind :: "'a go \<Rightarrow> ('a \<Rightarrow> 'b go) \<Rightarrow> 'b go" where
  "go_bind x f = (case x of Ret v \<Rightarrow> f v | Panic \<Rightarrow> Panic)"

lemma go_bind_simps [simp]: "go_bind (Ret v) f = f v" "go_bind Panic f = Panic"
  by (simp_all add: go_bind_def)

subsection \<open>Readers\<close>

text \<open>
  A reader is the bytes it will still deliver and the error it reports after them
  (\<^verbatim>\<open>io.EOF\<close> for a cleanly closed stream).
\<close>

record reader =
  rd_buf :: "byte list"
  rd_err :: error

definition rd_Read :: "nat \<Rightarrow> reader \<Rightarrow> byte list \<times> error option \<times> reader" where
  "rd_Read k r =
     (if k = 0 then ([], None, r)
      else if rd_buf r = [] then ([], Some (rd_err r), r)
      else (take k (rd_buf r), None, r\<lparr>rd_buf := drop k (rd_buf r)\<rparr>))"

text \<open>
  \<^verbatim>\<open>io.ReadFull\<close>: all \<open>k\<close> bytes, or the reader's error; \<^verbatim>\<open>io.EOF\<close> after some of
  them is \<^verbatim>\<open>io.ErrUnexpectedEOF\<close>.
\<close>

definition ReadFull :: "nat \<Rightarrow> reader \<Rightarrow> error + byte list \<times> reader" where
  "ReadFull k r =
     (if k \<le> length (rd_buf r) then Inr (take k (rd_buf r), r\<lparr>rd_buf := drop k (rd_buf r)\<rparr>)
      else if rd_buf r \<noteq> [] \<and> rd_err r = EOF then Inl ErrUnexpectedEOF
      else Inl (rd_err r))"

definition prepend :: "byte list \<Rightarrow> reader \<Rightarrow> reader" where
  "prepend bs r = r\<lparr>rd_buf := bs @ rd_buf r\<rparr>"

definition closed_stream :: "byte list \<Rightarrow> reader" where
  "closed_stream bs = \<lparr>rd_buf = bs, rd_err = EOF\<rparr>"

lemma ReadFull_prepend [simp]:
  "length bs = k \<Longrightarrow> ReadFull k (prepend bs r) = Inr (bs, r)"
  by (simp add: ReadFull_def prepend_def)

lemma ReadFull_prepend_append [simp]:
  "length bs = k \<Longrightarrow> ReadFull k (prepend (bs @ cs) r) = Inr (bs, prepend cs r)"
  by (simp add: ReadFull_def prepend_def)

lemma ReadFull_prepend_Cons [simp]:
  "ReadFull (Suc 0) (prepend (b # cs) r) = Inr ([b], prepend cs r)"
  using ReadFull_prepend_append [of "[b]" "Suc 0" cs r] by simp

lemma prepend_Nil [simp]: "prepend [] r = r"
  by (simp add: prepend_def)

lemma prepend_append: "prepend (bs @ cs) r = prepend bs (prepend cs r)"
  by (simp add: prepend_def)

lemma ReadFull_Inr:
  "ReadFull k r = Inr (bs, r') \<longleftrightarrow> length bs = k \<and> r = prepend bs r'"
proof
  assume "ReadFull k r = Inr (bs, r')"
  then have "k \<le> length (rd_buf r)" "bs = take k (rd_buf r)" "r' = r\<lparr>rd_buf := drop k (rd_buf r)\<rparr>"
    by (auto simp: ReadFull_def split: if_splits)
  then show "length bs = k \<and> r = prepend bs r'"
    by (simp add: prepend_def)
qed auto

lemma ReadFull_1_Inr:
  "ReadFull (Suc 0) r = Inr (bs, r') \<longleftrightarrow> (\<exists>b. bs = [b] \<and> r = prepend [b] r')"
  by (auto simp: ReadFull_Inr length_Suc_conv)

lemma rd_Read_prepend [simp]:
  "rd_Read (Suc 0) (prepend (b # bs) r) = ([b], None, prepend bs r)"
  by (simp add: rd_Read_def prepend_def)

subsection \<open>Writers\<close>

text \<open>
  A writer is what it has accepted so far and a plan for its next calls: the count and the
  error each returns. Once the plan is used up every call accepts all it is given, so
  \<open>wr_plan = []\<close> is a writer that never fails.
\<close>

record writer =
  wr_out :: "byte list"
  wr_plan :: "(int \<times> error option) list"

definition wr_Write :: "byte list \<Rightarrow> writer \<Rightarrow> int \<times> error option \<times> writer" where
  "wr_Write p w =
     (case wr_plan w of
        [] \<Rightarrow> (int (length p), None, w\<lparr>wr_out := wr_out w @ p\<rparr>)
      | (n, e) # rest \<Rightarrow> (n, e, w\<lparr>wr_out := wr_out w @ take (nat n) p, wr_plan := rest\<rparr>))"

lemma wr_Write_ok [simp]:
  "wr_plan w = [] \<Longrightarrow> wr_Write p w = (int (length p), None, w\<lparr>wr_out := wr_out w @ p\<rparr>)"
  by (simp add: wr_Write_def)

subsection \<open>Big-endian integers\<close>

lemma unat_lt: "unat (w :: 'a::len word) < 2 ^ LENGTH('a)"
  by (rule unsigned_less)

lemma unat_of_nat_byte [simp]: "n < 256 \<Longrightarrow> unat (word_of_nat n :: byte) = n"
  by (simp add: unat_of_nat take_bit_eq_mod)

lemma unat_byte_lt: "unat (b :: byte) < 256"
  using unat_lt [of b] by simp

fun nat_be :: "nat \<Rightarrow> nat \<Rightarrow> byte list" where
  "nat_be 0 v = []"
| "nat_be (Suc n) v = nat_be n (v div 256) @ [word_of_nat (v mod 256)]"

text \<open>For evaluating encoders at concrete values.\<close>

lemma nat_be_eval:
  "nat_be 2 v = [word_of_nat (v div 256 mod 256), word_of_nat (v mod 256)]"
  "nat_be 4 v = [word_of_nat (v div 16777216 mod 256), word_of_nat (v div 65536 mod 256),
     word_of_nat (v div 256 mod 256), word_of_nat (v mod 256)]"
proof -
  have n: "(2 :: nat) = Suc (Suc 0)" "(4 :: nat) = Suc (Suc (Suc (Suc 0)))" by simp_all
  have d: "v div 256 div 256 = v div 65536" "v div 65536 div 256 = v div 16777216"
    by (simp_all add: div_mult2_eq [symmetric])
  show "nat_be 2 v = [word_of_nat (v div 256 mod 256), word_of_nat (v mod 256)]"
    unfolding n(1) nat_be.simps by simp
  show "nat_be 4 v = [word_of_nat (v div 16777216 mod 256), word_of_nat (v div 65536 mod 256),
     word_of_nat (v div 256 mod 256), word_of_nat (v mod 256)]"
    unfolding n(2) nat_be.simps d by simp
qed

definition be_nat :: "byte list \<Rightarrow> nat" where
  "be_nat bs = foldl (\<lambda>a b. a * 256 + unat b) 0 bs"

lemma length_nat_be [simp]: "length (nat_be n v) = n"
  by (induction n v rule: nat_be.induct) auto

lemma nat_be_eq_Nil [simp]: "nat_be n v = [] \<longleftrightarrow> n = 0"
  by (metis length_0_conv length_nat_be)

lemma be_nat_Nil [simp]: "be_nat [] = 0"
  by (simp add: be_nat_def)

lemma be_nat_snoc [simp]: "be_nat (bs @ [b]) = be_nat bs * 256 + unat b"
  by (simp add: be_nat_def)

lemma be_nat_bound: "be_nat bs < 256 ^ length bs"
proof (induction bs rule: rev_induct)
  case (snoc b bs)
  have "unat b < 256" using unsigned_less [of b] by simp
  with snoc show ?case by simp
qed simp

lemma be_nat_nat_be [bytes_simps]: "be_nat (nat_be n v) = v mod 256 ^ n"
proof (induction n v rule: nat_be.induct)
  case (2 n v)
  have "v mod (256 * 256 ^ n) = 256 * (v div 256 mod 256 ^ n) + v mod 256"
    by (rule mod_mult2_eq)
  with 2 show ?case by (simp add: unat_of_nat take_bit_eq_mod)
qed simp

lemma nat_be_be_nat [bytes_simps]: "nat_be (length bs) (be_nat bs) = bs"
proof (induction bs rule: rev_induct)
  case (snoc b bs)
  have b: "unat b < 256" using unsigned_less [of b] by simp
  then have "(be_nat bs * 256 + unat b) div 256 = be_nat bs"
    and "(be_nat bs * 256 + unat b) mod 256 = unat b" by simp_all
  with snoc show ?case by simp
qed simp

lemma nat_be_inj: "length bs = n \<Longrightarrow> nat_be n (be_nat bs) = bs"
  using nat_be_be_nat by blast

text \<open>\<^verbatim>\<open>binary.BigEndian.PutUintN\<close> and \<^verbatim>\<open>UintN\<close>.\<close>

definition PutUint16 :: "u16 \<Rightarrow> byte list" where
  "PutUint16 v = nat_be 2 (unat v)"

definition PutUint32 :: "u32 \<Rightarrow> byte list" where
  "PutUint32 v = nat_be 4 (unat v)"

definition PutUint64 :: "u64 \<Rightarrow> byte list" where
  "PutUint64 v = nat_be 8 (unat v)"

definition Uint16 :: "byte list \<Rightarrow> u16" where
  "Uint16 bs = word_of_nat (be_nat (take 2 bs))"

definition Uint32 :: "byte list \<Rightarrow> u32" where
  "Uint32 bs = word_of_nat (be_nat (take 4 bs))"

definition Uint64 :: "byte list \<Rightarrow> u64" where
  "Uint64 bs = word_of_nat (be_nat (take 8 bs))"

lemma length_PutUint [simp]:
  "length (PutUint16 v) = 2" "length (PutUint32 w) = 4" "length (PutUint64 x) = 8"
  by (simp_all add: PutUint16_def PutUint32_def PutUint64_def)

lemma PutUint_not_Nil [simp]: "PutUint16 v \<noteq> []" "PutUint32 w \<noteq> []" "PutUint64 x \<noteq> []"
  by (simp_all add: PutUint16_def PutUint32_def PutUint64_def)

lemma Uint16_Put [simp]: "Uint16 (PutUint16 v @ bs) = v" "Uint16 (PutUint16 v) = v"
proof -
  have "unat v < 2 ^ 16" using unsigned_less [of v] by simp
  then show "Uint16 (PutUint16 v @ bs) = v" "Uint16 (PutUint16 v) = v"
    by (simp_all add: Uint16_def PutUint16_def be_nat_nat_be)
qed

lemma Uint32_Put [simp]: "Uint32 (PutUint32 v @ bs) = v" "Uint32 (PutUint32 v) = v"
proof -
  have "unat v < 2 ^ 32" using unsigned_less [of v] by simp
  then show "Uint32 (PutUint32 v @ bs) = v" "Uint32 (PutUint32 v) = v"
    by (simp_all add: Uint32_def PutUint32_def be_nat_nat_be)
qed

lemma Uint64_Put [simp]: "Uint64 (PutUint64 v @ bs) = v" "Uint64 (PutUint64 v) = v"
proof -
  have "unat v < 2 ^ 64" using unsigned_less [of v] by simp
  then show "Uint64 (PutUint64 v @ bs) = v" "Uint64 (PutUint64 v) = v"
    by (simp_all add: Uint64_def PutUint64_def be_nat_nat_be)
qed

lemma Put_Uint16 [bytes_simps]: "length bs = 2 \<Longrightarrow> PutUint16 (Uint16 bs) = bs"
  using be_nat_bound [of bs]
  by (simp add: Uint16_def PutUint16_def unat_of_nat take_bit_eq_mod nat_be_inj)

lemma Put_Uint32 [bytes_simps]: "length bs = 4 \<Longrightarrow> PutUint32 (Uint32 bs) = bs"
  using be_nat_bound [of bs]
  by (simp add: Uint32_def PutUint32_def unat_of_nat take_bit_eq_mod nat_be_inj)

lemma Put_Uint64 [bytes_simps]: "length bs = 8 \<Longrightarrow> PutUint64 (Uint64 bs) = bs"
  using be_nat_bound [of bs]
  by (simp add: Uint64_def PutUint64_def unat_of_nat take_bit_eq_mod nat_be_inj)

subsection \<open>Stream codecs\<close>

text \<open>
  The interface of every framed message: an encoder that may refuse a value, and a reader
  that takes one message off a stream. The promise is that a message written is the
  message read, and that what follows it on the stream is untouched.
\<close>

fun write_all :: "('a \<Rightarrow> error + byte list) \<Rightarrow> 'a list \<Rightarrow> error + byte list" where
  "write_all enc [] = Inr []"
| "write_all enc (x # xs) =
     (case enc x of
        Inl e \<Rightarrow> Inl e
      | Inr bs \<Rightarrow> (case write_all enc xs of Inl e \<Rightarrow> Inl e | Inr cs \<Rightarrow> Inr (bs @ cs)))"

fun read_n :: "(reader \<Rightarrow> error + 'a \<times> reader) \<Rightarrow> nat \<Rightarrow> reader \<Rightarrow> error + 'a list \<times> reader" where
  "read_n rd 0 r = Inr ([], r)"
| "read_n rd (Suc n) r =
     (case rd r of
        Inl e \<Rightarrow> Inl e
      | Inr (x, r') \<Rightarrow>
          (case read_n rd n r' of Inl e \<Rightarrow> Inl e | Inr (xs, r'') \<Rightarrow> Inr (x # xs, r'')))"

locale stream_codec =
  fixes valid :: "'a \<Rightarrow> bool"
    and enc :: "'a \<Rightarrow> error + byte list"
    and rd :: "reader \<Rightarrow> error + 'a \<times> reader"
  assumes rd_enc: "valid x \<Longrightarrow> enc x = Inr bs \<Longrightarrow> rd (prepend bs r) = Inr (x, r)"
begin

lemma read_n_write_all:
  "\<forall>x \<in> set xs. valid x \<Longrightarrow> write_all enc xs = Inr bs \<Longrightarrow>
   read_n rd (length xs) (prepend bs r) = Inr (xs, r)"
proof (induction xs arbitrary: bs)
  case (Cons x xs)
  then obtain b1 b2 where e: "enc x = Inr b1" "write_all enc xs = Inr b2" "bs = b1 @ b2"
    by (auto split: sum.splits)
  from Cons.prems(1) e(2) have "read_n rd (length xs) (prepend b2 r) = Inr (xs, r)"
    by (intro Cons.IH) auto
  moreover have "rd (prepend b1 (prepend b2 r)) = Inr (x, prepend b2 r)"
    using Cons.prems(1) e(1) by (intro rd_enc) auto
  ultimately show ?case using e by (simp add: prepend_append)
qed simp

lemma enc_prefix_free:
  "valid x \<Longrightarrow> valid y \<Longrightarrow> enc x = Inr bs \<Longrightarrow> enc y = Inr (bs @ cs) \<Longrightarrow> x = y \<and> cs = []"
  using rd_enc [of x bs "prepend cs (closed_stream [])"]
    rd_enc [of y "bs @ cs" "closed_stream []"]
  by (simp add: prepend_append prepend_def closed_stream_def)

end

subsection \<open>Operations that keep an invariant\<close>

text \<open>
  A stateful component: its start states, its operations as labelled steps and what every
  operation keeps. A run is a sequence of operations.
\<close>

fun run :: "('s \<Rightarrow> 'op \<Rightarrow> 's) \<Rightarrow> 's \<Rightarrow> 'op list \<Rightarrow> 's" where
  "run step s [] = s"
| "run step s (a # as) = run step (step s a) as"

lemma run_append: "run step s (as @ bs) = run step (run step s as) bs"
  by (induction as arbitrary: s) auto

locale invariant_machine =
  fixes start :: "'s \<Rightarrow> bool"
    and step :: "'s \<Rightarrow> 'op \<Rightarrow> 's"
    and inv :: "'s \<Rightarrow> bool"
  assumes start_inv: "start s \<Longrightarrow> inv s"
    and step_inv: "inv s \<Longrightarrow> inv (step s a)"
begin

lemma run_keeps: "inv s \<Longrightarrow> inv (run step s as)"
  by (induction as arbitrary: s) (auto simp: step_inv)

lemma reachable_inv: "start s \<Longrightarrow> inv (run step s as)"
  by (simp add: run_keeps start_inv)

end

subsection \<open>Lists\<close>

lemma take_drop_slice: "take n (drop m xs) @ drop (m + n) xs = drop m xs"
  by (metis add.commute append_take_drop_id drop_drop)

lemma length_concat_sum: "length (concat xss) = sum_list (map length xss)"
  by (induction xss) auto

lemma concat_update_Nil:
  "i < length xss \<Longrightarrow> xss ! i = [] \<Longrightarrow>
   length (concat (xss[i := ys])) = length (concat xss) + length ys"
proof (induction xss arbitrary: i)
  case (Cons x xss)
  then show ?case by (cases i) auto
qed simp

subsection \<open>Tables\<close>

text \<open>
  A Go map that is iterated over is an association list with distinct keys; assignment is
  \<open>AList.update\<close> and \<^verbatim>\<open>delete\<close> is \<open>AList.delete\<close>. The sum of a weight over the values
  is what byte and credit counters count.
\<close>

definition al_sum :: "('v \<Rightarrow> int) \<Rightarrow> ('k \<times> 'v) list \<Rightarrow> int" where
  "al_sum w xs = (\<Sum>p \<leftarrow> xs. w (snd p))"

lemma al_sum_simps [simp]:
  "al_sum w [] = 0" "al_sum w (x # xs) = w (snd x) + al_sum w xs"
  "al_sum w (xs @ ys) = al_sum w xs + al_sum w ys"
  by (simp_all add: al_sum_def)

lemma al_sum_nonneg: "(\<And>v. 0 \<le> w v) \<Longrightarrow> 0 \<le> al_sum w xs"
  unfolding al_sum_def by (rule sum_list_nonneg) auto

lemma al_sum_delete:
  "distinct (map fst xs) \<Longrightarrow> map_of xs k = Some v \<Longrightarrow>
   al_sum w (AList.delete k xs) = al_sum w xs - w v"
  by (induction xs) auto

lemma al_sum_update:
  "distinct (map fst xs) \<Longrightarrow>
   al_sum w (AList.update k v xs) =
     al_sum w xs - (case map_of xs k of None \<Rightarrow> 0 | Some v0 \<Rightarrow> w v0) + w v"
  by (induction xs) auto

lemma al_sum_member:
  "(\<And>v. 0 \<le> w v) \<Longrightarrow> map_of xs k = Some v \<Longrightarrow> w v \<le> al_sum w xs"
proof (induction xs)
  case (Cons x xs)
  then show ?case using al_sum_nonneg [of w xs] by (auto split: if_splits)
    (metis Cons.prems(1) add_increasing)
qed simp

lemma set_al_delete: "set (AList.delete k xs) = {p \<in> set xs. fst p \<noteq> k}"
  by (induction xs) auto

lemma set_al_update: "set (AList.update k v xs) \<subseteq> insert (k, v) (set xs)"
  by (induction xs) auto

lemma length_al_update:
  "length (AList.update k v xs) = (if map_of xs k = None then Suc (length xs) else length xs)"
  by (induction xs) auto

lemma length_al_delete_less: "map_of xs k \<noteq> None \<Longrightarrow> length (AList.delete k xs) < length xs"
proof (induction xs)
  case (Cons x xs)
  then show ?case
    using AList.length_delete_le [of k xs] by (auto split: if_splits simp: less_Suc_eq_le)
qed simp

lemma length_al_delete:
  "distinct (map fst xs) \<Longrightarrow>
   length (AList.delete k xs) = (if map_of xs k = None then length xs else length xs - 1)"
proof (induction xs)
  case (Cons x xs)
  have "map_of xs k \<noteq> None \<Longrightarrow> 0 < length xs" by (cases xs) auto
  moreover have "k = fst x \<Longrightarrow> map_of xs k = None"
    using Cons.prems by (simp add: map_of_eq_None_iff)
  ultimately show ?case using Cons by auto
qed simp

lemma delete_absent: "map_of xs k = None \<Longrightarrow> AList.delete k xs = xs"
  by (induction xs) (auto split: if_splits)

lemma map_of_al_delete: "map_of (AList.delete k xs) k' = (if k' = k then None else map_of xs k')"
  by (simp add: AList.delete_conv')

lemma map_of_al_update: "map_of (AList.update k v xs) k' = (if k' = k then Some v else map_of xs k')"
  by (simp add: AList.update_conv')

lemma map_of_is_Some: "distinct (map fst xs) \<Longrightarrow> (k, v) \<in> set xs \<longleftrightarrow> map_of xs k = Some v"
  by (auto dest: map_of_SomeD)

lemmas al_lookup = map_of_al_delete map_of_al_update
lemmas al_distinct = AList.distinct_update AList.distinct_delete

end
