(* ===== verification/Wire3_Flow.thy ===== *)
theory Wire3_Flow
  imports Nowhere_Prelude
begin

section \<open>nw3 wire: flow starts, setup and registration results, UDP flow ids\<close>

text \<open>
  \<^verbatim>\<open>wire/flow.go\<close> and \<^verbatim>\<open>wire/result.go\<close>: the one-byte messages of a flow and the
  derivation of a UDP flow identifier from a QUIC stream identifier.
\<close>

subsection \<open>FlowStart\<close>

definition MaxFlowID :: u32 where
  "MaxFlowID = 2 ^ 30 - 1"

lemma MaxFlowID_value: "MaxFlowID = 0x3fffffff"
  by (simp add: MaxFlowID_def)

lemma unat_MaxFlowID [simp]: "unat MaxFlowID = 1073741823"
  by (simp add: MaxFlowID_def)

type_synonym FlowKind = byte

definition FlowTCP :: FlowKind where "FlowTCP = 0"
definition FlowUDP :: FlowKind where "FlowUDP = 1"

definition ParseFlowStart :: "byte \<Rightarrow> error + FlowKind" where
  "ParseFlowStart b = (if b AND 1 = 0 then Inr FlowTCP else Inr FlowUDP)"

text \<open>The flag of the result is Go's \<^verbatim>\<open>ok\<close>: false for a stream that ends before the byte.\<close>

definition ReadFlowStart :: "reader \<Rightarrow> error + (FlowKind \<times> bool) \<times> reader" where
  "ReadFlowStart r =
     (let (b, err, r') = rd_Read 1 r in
      if length b = 0 then
        (let err = (case err of None \<Rightarrow> EOF | Some e \<Rightarrow> e) in
         if errors_Is err EOF then Inr ((0, False), r') else Inl err)
      else
        (case ParseFlowStart (b ! 0) of
           Inl e \<Rightarrow> Inl e
         | Inr kind \<Rightarrow> Inr ((kind, True), r')))"

definition EncodeFlowStart :: "FlowKind \<Rightarrow> error + byte list" where
  "EncodeFlowStart kind =
     (if kind \<noteq> FlowTCP \<and> kind \<noteq> FlowUDP
      then Inl (New ''nw3: invalid FlowStart reserved bits'')
      else Inr [kind])"

text \<open>\<open>WriteFlowStart\<close> is the encoding handed to one \<^verbatim>\<open>Write\<close>.\<close>

definition WriteFlowStart :: "writer \<Rightarrow> FlowKind \<Rightarrow> error option \<times> writer" where
  "WriteFlowStart w kind =
     (case EncodeFlowStart kind of
        Inl e \<Rightarrow> (Some e, w)
      | Inr bs \<Rightarrow> (let (n, err, w') = wr_Write bs w in (err, w')))"

definition UDPFlowID :: "u64 \<Rightarrow> bool \<Rightarrow> error + u32" where
  "UDPFlowID streamID serverInitiated =
     (if streamID AND 2 \<noteq> 0 \<or> (streamID AND 1 \<noteq> 0) \<noteq> serverInitiated
      then Inl (New ''nw3: invalid business stream direction'')
      else
        (let id = drop_bit 2 streamID + 1 in
         if id = 0 \<or> id > ucast MaxFlowID
         then Inl (New ''nw3: business stream id exhausted'')
         else Inr (ucast id)))"

subsection \<open>Setup and registration results\<close>

type_synonym SetupResult = byte

definition SetupReady :: SetupResult where "SetupReady = 0"
definition SetupInvalidRequest :: SetupResult where "SetupInvalidRequest = 1"
definition SetupFlowLimit :: SetupResult where "SetupFlowLimit = 2"
definition SetupDialFailed :: SetupResult where "SetupDialFailed = 3"
definition SetupInternalError :: SetupResult where "SetupInternalError = 4"

type_synonym RegistrationResult = byte

definition RegistrationAccepted :: RegistrationResult where "RegistrationAccepted = 0"
definition RegistrationBusy :: RegistrationResult where "RegistrationBusy = 1"

definition ParseSetupResult :: "byte \<Rightarrow> error + SetupResult" where
  "ParseSetupResult b =
     (if b > SetupInternalError then Inl (New ''nw3: invalid setup result'') else Inr b)"

definition ReadSetupResult :: "reader \<Rightarrow> error + SetupResult \<times> reader" where
  "ReadSetupResult r =
     (case ReadFull 1 r of
        Inl e \<Rightarrow> Inl e
      | Inr (b, r') \<Rightarrow>
          (case ParseSetupResult (b ! 0) of Inl e \<Rightarrow> Inl e | Inr v \<Rightarrow> Inr (v, r')))"

definition WriteSetupResult :: "writer \<Rightarrow> SetupResult \<Rightarrow> error option \<times> writer" where
  "WriteSetupResult w result =
     (case ParseSetupResult result of
        Inl e \<Rightarrow> (Some e, w)
      | Inr _ \<Rightarrow> (let (n, err, w') = wr_Write [result] w in (err, w')))"

definition ParseRegistrationResult :: "byte \<Rightarrow> error + RegistrationResult" where
  "ParseRegistrationResult b =
     (if b = RegistrationAccepted \<or> b = RegistrationBusy then Inr b
      else Inl (New ''nw3: invalid registration result''))"

definition WriteRegistrationResult ::
  "writer \<Rightarrow> RegistrationResult \<Rightarrow> error option \<times> writer" where
  "WriteRegistrationResult w result =
     (case ParseRegistrationResult result of
        Inl e \<Rightarrow> (Some e, w)
      | Inr _ \<Rightarrow> (let (n, err, w') = wr_Write [result] w in (err, w')))"

definition ReadRegistrationResult :: "reader \<Rightarrow> error + RegistrationResult \<times> reader" where
  "ReadRegistrationResult r =
     (case ReadFull 1 r of
        Inl e \<Rightarrow> Inl e
      | Inr (b, r') \<Rightarrow>
          (case ParseRegistrationResult (b ! 0) of Inl e \<Rightarrow> Inl e | Inr v \<Rightarrow> Inr (v, r')))"

definition SetupResult_Error :: "SetupResult \<Rightarrow> string" where
  "SetupResult_Error r =
     (if r = SetupReady then ''ready''
      else if r = SetupInvalidRequest then ''invalid request''
      else if r = SetupFlowLimit then ''flow limit''
      else if r = SetupDialFailed then ''dial failed''
      else if r = SetupInternalError then ''internal error''
      else ''invalid setup result'')"

lemmas setup_defs = SetupReady_def SetupInvalidRequest_def SetupFlowLimit_def
  SetupDialFailed_def SetupInternalError_def RegistrationAccepted_def RegistrationBusy_def
  FlowTCP_def FlowUDP_def

subsection \<open>Round trips\<close>

lemma ReadFlowStart_Cons:
  "ReadFlowStart (prepend (b # bs) r) =
     (case ParseFlowStart b of Inl e \<Rightarrow> Inl e | Inr k \<Rightarrow> Inr ((k, True), prepend bs r))"
  by (simp add: ReadFlowStart_def)

lemma ParseFlowStart_kind:
  "EncodeFlowStart k = Inr bs \<Longrightarrow> bs = [k] \<and> ParseFlowStart k = Inr k"
  by (auto simp: EncodeFlowStart_def ParseFlowStart_def setup_defs split: if_splits)

interpretation flow_start: stream_codec "\<lambda>(k, ok). ok" "\<lambda>(k, ok). EncodeFlowStart k" ReadFlowStart
proof unfold_locales
  fix x :: "FlowKind \<times> bool" and bs r
  obtain k ok where x: "x = (k, ok)" by (cases x)
  assume "case x of (k, ok) \<Rightarrow> ok" "(case x of (k, ok) \<Rightarrow> EncodeFlowStart k) = Inr bs"
  with x have "ok" "bs = [k]" "ParseFlowStart k = Inr k" by (auto dest: ParseFlowStart_kind)
  with x show "ReadFlowStart (prepend bs r) = Inr (x, r)" by (simp add: ReadFlowStart_Cons)
qed

interpretation setup_result: stream_codec "\<lambda>_. True"
  "\<lambda>v. case ParseSetupResult v of Inl e \<Rightarrow> Inl e | Inr _ \<Rightarrow> Inr [v]" ReadSetupResult
  by unfold_locales
    (auto simp: ReadSetupResult_def ParseSetupResult_def split: sum.splits if_splits)

interpretation registration_result: stream_codec "\<lambda>_. True"
  "\<lambda>v. case ParseRegistrationResult v of Inl e \<Rightarrow> Inl e | Inr _ \<Rightarrow> Inr [v]" ReadRegistrationResult
  by unfold_locales
    (auto simp: ReadRegistrationResult_def ParseRegistrationResult_def split: sum.splits if_splits)

subsection \<open>UDP flow identifiers\<close>

lemma UDPFlowID_value:
  assumes "UDPFlowID s d = Inr f"
  shows "unat f = unat s div 4 + 1" and "unat f \<le> 1073741823" and "s AND 2 = 0"
    and "(s AND 1 \<noteq> 0) = d"
proof -
  have div: "unat (drop_bit 2 s) = unat s div 4"
    by (simp add: drop_bit_eq_div unat_div)
  have lt: "unat s div 4 + 1 < 2 ^ 64" using unat_lt [of s] by simp
  then have id: "unat (drop_bit 2 s + 1) = unat s div 4 + 1"
    by (simp add: unat_word_ariths div)
  have g: "drop_bit 2 s + 1 \<le> ucast MaxFlowID" and f: "f = ucast (drop_bit 2 s + 1)"
    and "s AND 2 = 0" "(s AND 1 \<noteq> 0) = d"
    using assms by (auto simp: UDPFlowID_def Let_def not_less split: if_splits)
  then show "s AND 2 = 0" "(s AND 1 \<noteq> 0) = d" by auto
  have b: "unat s div 4 + 1 \<le> 1073741823"
    using g id by (simp add: word_le_nat_alt MaxFlowID_def)
  then show "unat f = unat s div 4 + 1" "unat f \<le> 1073741823"
    by (simp_all add: f unsigned_ucast_eq id take_bit_eq_mod)
qed

lemma unat_and_3: "unat (s :: u64) mod 4 = unat (s AND 3)"
proof -
  have "s AND 3 = take_bit 2 s" by (simp add: take_bit_eq_mask mask_eq_exp_minus_1)
  then show ?thesis by (simp add: take_bit_eq_mod unat_mod)
qed

lemma and_3_split: "(s :: u64) AND 3 = (s AND 2) OR (s AND 1)"
  by (simp flip: bit.conj_disj_distrib)

lemma UDPFlowID_inj:
  assumes "UDPFlowID s d = Inr f" "UDPFlowID t d = Inr f"
  shows "s = t"
proof -
  note a = UDPFlowID_value [OF assms(1)] and b = UDPFlowID_value [OF assms(2)]
  have "odd s = odd t" using a(4) b(4) by (simp add: and_one_eq odd_iff_mod_2_eq_one)
  then have "s AND 1 = t AND 1" by (simp add: and_one_eq mod_2_eq_odd)
  then have "unat s mod 4 = unat t mod 4"
    by (simp only: unat_and_3 and_3_split a(3) b(3))
  moreover have "unat s div 4 = unat t div 4" using a(1) b(1) by simp
  ultimately have "unat s = unat t" by (metis div_mult_mod_eq)
  then show ?thesis by (simp only: word_unat_eq_iff)
qed

end
