(* ===== verification/Wire3_Datagram.thy ===== *)
theory Wire3_Datagram
  imports Wire3_Flow
begin

section \<open>nw3 wire: QUIC datagram frames and UDP over TLS\<close>

text \<open>
  \<^verbatim>\<open>wire/datagram.go\<close>, first half: DATA, FRAGMENT and CLOSE frames of a UDP flow on QUIC
  datagrams, the fragmentation of a payload that exceeds the peer's datagram limit, and the
  length-prefixed packets of a UDP flow on a TLS stream. Slices are written as \<open>take\<close> and
  \<open>drop\<close> behind the length checks of the code.
\<close>

definition udpHeaderLen :: nat where "udpHeaderLen = 4"
definition udpFragmentHeaderLen :: nat where "udpFragmentHeaderLen = 12"
definition udpPacketMax :: nat where "udpPacketMax = 65535"

definition frameData :: byte where "frameData = 0"
definition frameFragment :: byte where "frameFragment = 1"
definition frameClose :: byte where "frameClose = 2"

lemmas udp_consts = udpHeaderLen_def udpFragmentHeaderLen_def udpPacketMax_def
  frameData_def frameFragment_def frameClose_def

record Datagram =
  d_Type :: byte
  d_FlowID :: u32
  d_Payload :: "byte list"
  d_PacketID :: u32
  d_Index :: byte
  d_Count :: byte
  d_Total :: u16

subsection \<open>Validation\<close>

definition validateFlow :: "u32 \<Rightarrow> error option" where
  "validateFlow fid =
     (if fid = 0 \<or> fid > MaxFlowID then Some (New ''nw3: flow id out of range'') else None)"

definition validateFragment :: "byte \<Rightarrow> byte \<Rightarrow> u16 \<Rightarrow> byte list \<Rightarrow> error option" where
  "validateFragment index count tot payload =
     (if count < 2 \<or> index \<ge> count \<or> tot = 0 \<or> tot < ucast count
      then Some (New ''nw3: invalid fragment metadata'')
      else if length payload = 0 \<or> int (length payload) + int (unat count) - 1 > int (unat tot)
      then Some (New ''nw3: invalid fragment payload length'')
      else None)"

subsection \<open>Encoding\<close>

text \<open>\<open>(uint32(type) << 30) | flowID\<close>, big-endian.\<close>

definition base_header :: "byte \<Rightarrow> u32 \<Rightarrow> byte list" where
  "base_header ftype flowID = PutUint32 (push_bit 30 (ucast ftype) OR flowID)"

definition EncodeData :: "u32 \<Rightarrow> byte list \<Rightarrow> error + byte list" where
  "EncodeData flowID payload =
     (case validateFlow flowID of
        Some e \<Rightarrow> Inl e
      | None \<Rightarrow>
          if length payload > udpPacketMax then Inl (New ''nw3: UDP payload too large'')
          else Inr (base_header frameData flowID @ payload))"

definition EncodeClose :: "u32 \<Rightarrow> error + byte list" where
  "EncodeClose flowID =
     (case validateFlow flowID of
        Some e \<Rightarrow> Inl e
      | None \<Rightarrow> Inr (base_header frameClose flowID))"

text \<open>
  One fragment of \<^verbatim>\<open>EncodePacket\<close>'s loop: bytes \<open>index * capacity\<close> up to the next
  multiple, or to the end of the payload.
\<close>

definition fragment_piece :: "byte list \<Rightarrow> nat \<Rightarrow> nat \<Rightarrow> byte list" where
  "fragment_piece payload capacity index =
     (let start = index * capacity;
          stop = start + capacity;
          stop = (if stop > length payload then length payload else stop)
      in take (stop - start) (drop start payload))"

definition fragment_frame :: "u32 \<Rightarrow> u32 \<Rightarrow> byte list \<Rightarrow> nat \<Rightarrow> nat \<Rightarrow> nat \<Rightarrow> byte list" where
  "fragment_frame flowID packetID payload capacity count index =
     base_header frameFragment flowID @ PutUint32 packetID @
     [word_of_nat index, word_of_nat count] @ PutUint16 (word_of_nat (length payload)) @
     fragment_piece payload capacity index"

fun EncodePacket_loop ::
  "u32 \<Rightarrow> u32 \<Rightarrow> byte list \<Rightarrow> nat \<Rightarrow> nat \<Rightarrow> nat list \<Rightarrow> byte list list \<Rightarrow> error + byte list list" where
  "EncodePacket_loop flowID packetID payload capacity count [] frames = Inr frames"
| "EncodePacket_loop flowID packetID payload capacity count (index # rest) frames =
     (let frame = fragment_frame flowID packetID payload capacity count index in
      case validateFragment (frame ! 8) (frame ! 9) (Uint16 (take 2 (drop 10 frame)))
             (fragment_piece payload capacity index) of
        Some e \<Rightarrow> Inl e
      | None \<Rightarrow>
          EncodePacket_loop flowID packetID payload capacity count rest (frames @ [frame]))"

definition EncodePacket :: "u32 \<Rightarrow> u32 \<Rightarrow> byte list \<Rightarrow> int \<Rightarrow> error + byte list list" where
  "EncodePacket flowID packetID payload maxDatagram =
     (case validateFlow flowID of
        Some e \<Rightarrow> Inl e
      | None \<Rightarrow>
          if length payload > udpPacketMax then Inl (New ''nw3: UDP payload too large'')
          else if maxDatagram < int udpHeaderLen
          then Inl (New ''nw3: DATAGRAM limit has no payload capacity'')
          else if int (length payload) \<le> maxDatagram - int udpHeaderLen
          then (case EncodeData flowID payload of Inl e \<Rightarrow> Inl e | Inr frame \<Rightarrow> Inr [frame])
          else if packetID = 0 then Inl (New ''nw3: zero packet id'')
          else
            (let capacity = maxDatagram - int udpFragmentHeaderLen in
             if capacity \<le> 0
             then Inl (New ''nw3: DATAGRAM limit has no fragment payload capacity'')
             else
               (let count = (length payload + nat capacity - 1) div nat capacity in
                if count < 2 \<or> count > 255 then Inl (New ''nw3: invalid fragment count'')
                else EncodePacket_loop flowID packetID payload (nat capacity) count [0..<count] [])))"

subsection \<open>Decoding\<close>

definition DecodeDatagram :: "byte list \<Rightarrow> error + Datagram" where
  "DecodeDatagram input =
     (if length input < udpHeaderLen then Inl (New ''nw3: short datagram header'')
      else
        (let base = Uint32 (take 4 input);
             frameType = ucast (drop_bit 30 base AND 0b11) :: byte;
             flowID = base AND MaxFlowID
         in
         case validateFlow flowID of
           Some e \<Rightarrow> Inl e
         | None \<Rightarrow>
             if frameType = frameData then
               (let payload = drop udpHeaderLen input in
                if length payload > udpPacketMax then Inl (New ''nw3: UDP payload too large'')
                else Inr \<lparr>d_Type = frameData, d_FlowID = flowID, d_Payload = payload,
                          d_PacketID = 0, d_Index = 0, d_Count = 0, d_Total = 0\<rparr>)
             else if frameType = frameClose then
               (if length input \<noteq> udpHeaderLen then Inl (New ''nw3: CLOSE payload'')
                else Inr \<lparr>d_Type = frameClose, d_FlowID = flowID, d_Payload = [],
                          d_PacketID = 0, d_Index = 0, d_Count = 0, d_Total = 0\<rparr>)
             else if frameType = frameFragment then
               (if length input < udpFragmentHeaderLen then Inl (New ''nw3: short fragment header'')
                else
                  (let payload = drop udpFragmentHeaderLen input;
                       d = \<lparr>d_Type = frameFragment, d_FlowID = flowID, d_Payload = payload,
                            d_PacketID = Uint32 (take 4 (drop 4 input)), d_Index = input ! 8,
                            d_Count = input ! 9, d_Total = Uint16 (take 2 (drop 10 input))\<rparr>
                   in
                   if d_PacketID d = 0 then Inl (New ''nw3: zero packet id'')
                   else (case validateFragment (d_Index d) (d_Count d) (d_Total d) payload of
                           Some e \<Rightarrow> Inl e
                         | None \<Rightarrow> Inr d)))
             else Inl (New ''nw3: invalid datagram type'')))"

subsection \<open>UDP over TLS\<close>

definition EncodeUoT :: "byte list \<Rightarrow> error + byte list" where
  "EncodeUoT payload =
     (if length payload > udpPacketMax then Inl (New ''nw3: UDP payload too large'')
      else Inr (PutUint16 (word_of_nat (length payload)) @ payload))"

text \<open>The header and the payload are two calls of \<^verbatim>\<open>Write\<close>; an error of the first ends it.\<close>

definition WriteUoT :: "writer \<Rightarrow> byte list \<Rightarrow> error option \<times> writer" where
  "WriteUoT w payload =
     (if length payload > udpPacketMax then (Some (New ''nw3: UDP payload too large''), w)
      else
        (case wr_Write (PutUint16 (word_of_nat (length payload))) w of
           (n, Some e, w') \<Rightarrow> (Some e, w')
         | (n, None, w') \<Rightarrow> (let (m, err, w'') = wr_Write payload w' in (err, w''))))"

definition ReadUoT :: "reader \<Rightarrow> error + byte list \<times> reader" where
  "ReadUoT r =
     (case ReadFull 2 r of
        Inl e \<Rightarrow> Inl e
      | Inr (hdr, r) \<Rightarrow>
          (let n = unat (Uint16 hdr) in
           if n = 0 then Inr ([], r)
           else
             (case ReadFull n r of
                Inl e \<Rightarrow> if errors_Is e EOF \<or> errors_Is e ErrUnexpectedEOF then Inl ErrUnexpectedEOF
                         else Inl e
              | Inr (buf, r) \<Rightarrow> Inr (buf, r))))"

lemma unat_of_nat_u16 [simp]: "n \<le> 65535 \<Longrightarrow> unat (word_of_nat n :: u16) = n"
  by (simp add: unat_of_nat take_bit_eq_mod)

interpretation uot: stream_codec "\<lambda>_. True" EncodeUoT ReadUoT
  by unfold_locales
    (auto simp: EncodeUoT_def ReadUoT_def udp_consts Let_def split: if_splits)

lemma WriteUoT_plain:
  "wr_plan w = [] \<Longrightarrow> EncodeUoT p = Inr bs \<Longrightarrow>
   WriteUoT w p = (None, w\<lparr>wr_out := wr_out w @ bs\<rparr>)"
  by (auto simp: WriteUoT_def EncodeUoT_def split: if_splits)

subsection \<open>Frame headers\<close>

lemma validateFlow_None: "validateFlow f = None \<longleftrightarrow> 0 < unat f \<and> unat f < 2 ^ 30"
  by (auto simp: validateFlow_def word_less_nat_alt unat_gt_0)

lemma drop_bit_flow: "validateFlow f = None \<Longrightarrow> drop_bit 30 f = 0"
  by (simp add: validateFlow_None word_unat_eq_iff drop_bit_eq_div unat_div)

lemma MaxFlowID_mask: "x AND MaxFlowID = take_bit 30 x"
  by (simp add: take_bit_eq_mask mask_eq_exp_minus_1 MaxFlowID_def)

lemma base_word:
  assumes "validateFlow f = None"
  shows "(push_bit 30 t OR f) AND MaxFlowID = f"
    and "drop_bit 30 (push_bit 30 t OR f) = drop_bit 30 (push_bit 30 t)"
proof -
  have "take_bit 30 f = f"
    using drop_bit_flow [OF assms] by (simp add: take_bit_eq_self_iff_drop_bit_eq_0)
  then show "(push_bit 30 t OR f) AND MaxFlowID = f"
    by (simp only: MaxFlowID_mask take_bit_or take_bit_push_bit) simp
  show "drop_bit 30 (push_bit 30 t OR f) = drop_bit 30 (push_bit 30 t)"
    by (simp add: drop_bit_or drop_bit_flow [OF assms])
qed

lemma length_base_header [simp]: "length (base_header t f) = 4"
  by (simp add: base_header_def)

lemma base_header_flow:
  "validateFlow f = None \<Longrightarrow> Uint32 (base_header t f) AND MaxFlowID = f"
  by (simp add: base_header_def base_word)

lemma base_header_type:
  assumes "validateFlow f = None" "t = frameData \<or> t = frameFragment \<or> t = frameClose"
  shows "ucast (drop_bit 30 (Uint32 (base_header t f)) AND 0b11) = t"
proof -
  have "drop_bit 30 (Uint32 (base_header t f)) = drop_bit 30 (push_bit 30 (ucast t))"
    using assms(1) by (simp add: base_header_def base_word drop_bit_flow)
  then show ?thesis using assms(2) by (auto simp: udp_consts)
qed

lemma frame_types: "frameClose \<noteq> frameData" "frameFragment \<noteq> frameData" "frameFragment \<noteq> frameClose"
  by (simp_all add: udp_consts)

lemmas base_header_simps = base_header_flow base_header_type

lemma EncodeData_Inr:
  "EncodeData f p = Inr bs \<longleftrightarrow>
     validateFlow f = None \<and> length p \<le> udpPacketMax \<and> bs = base_header frameData f @ p"
  by (auto simp: EncodeData_def split: option.splits)

lemma EncodeClose_Inr:
  "EncodeClose f = Inr bs \<longleftrightarrow> validateFlow f = None \<and> bs = base_header frameClose f"
  by (auto simp: EncodeClose_def split: option.splits)

lemma DecodeDatagram_Data:
  assumes "EncodeData f p = Inr bs"
  shows "DecodeDatagram bs = Inr \<lparr>d_Type = frameData, d_FlowID = f, d_Payload = p,
    d_PacketID = 0, d_Index = 0, d_Count = 0, d_Total = 0\<rparr>"
  using assms
  by (simp add: EncodeData_Inr DecodeDatagram_def udpHeaderLen_def base_header_simps)

lemma DecodeDatagram_Close:
  assumes "EncodeClose f = Inr bs"
  shows "DecodeDatagram bs = Inr \<lparr>d_Type = frameClose, d_FlowID = f, d_Payload = [],
    d_PacketID = 0, d_Index = 0, d_Count = 0, d_Total = 0\<rparr>"
  using assms
  by (simp add: EncodeClose_Inr DecodeDatagram_def udpHeaderLen_def base_header_simps frame_types)

subsection \<open>Fragmentation\<close>

abbreviation fragment_count :: "nat \<Rightarrow> nat \<Rightarrow> nat" where
  "fragment_count len cap \<equiv> (len + cap - 1) div cap"

lemma fragment_piece_take: "fragment_piece p cap i = take cap (drop (i * cap) p)"
  by (auto simp: fragment_piece_def Let_def)

lemma fragment_pieces_take:
  "concat (map (fragment_piece p cap) [0..<n]) = take (n * cap) p"
proof (induction n)
  case (Suc n)
  then show ?case
    by (simp add: fragment_piece_take add.commute [of cap] take_add del: mult_Suc add: mult_Suc)
qed simp

lemma fragment_count_bounds:
  assumes "0 < cap" "0 < len"
  shows "len \<le> fragment_count len cap * cap" "(fragment_count len cap - 1) * cap < len"
    "0 < fragment_count len cap"
proof -
  let ?c = "fragment_count len cap"
  have e: "?c * cap + (len + cap - 1) mod cap = len + cap - 1" by simp
  have "(len + cap - 1) mod cap \<le> cap - 1" using assms
    by (metis Suc_pred' less_Suc_eq_le mod_less_divisor)
  with e assms show "len \<le> ?c * cap" by linarith
  have "?c * cap \<le> len + cap - 1" using e by linarith
  then have "?c * cap - cap < len" using assms by linarith
  then show "(?c - 1) * cap < len" by (simp only: diff_mult_distrib nat_mult_1)
  show "0 < ?c" using assms by (simp add: div_greater_zero_iff)
qed

lemma concat_fragment_pieces:
  "0 < cap \<Longrightarrow> concat (map (fragment_piece p cap) [0..<fragment_count (length p) cap]) = p"
  using fragment_count_bounds(1) [of cap "length p"]
  by (cases "p = []") (simp_all add: fragment_pieces_take)

lemma fragment_piece_length:
  assumes "0 < cap" "i < fragment_count (length p) cap" "2 \<le> fragment_count (length p) cap"
  shows "0 < length (fragment_piece p cap i)" "length (fragment_piece p cap i) \<le> cap"
    "length (fragment_piece p cap i) + fragment_count (length p) cap - 1 \<le> length p"
proof -
  let ?c = "fragment_count (length p) cap" and ?l = "length (fragment_piece p cap i)"
  have "p \<noteq> []" using assms(1,2) by (cases p) auto
  then have b: "length p \<le> ?c * cap" "(?c - 1) * cap < length p"
    using fragment_count_bounds assms(1) by auto
  have l: "?l = min cap (length p - i * cap)" by (simp add: fragment_piece_take min.commute)
  have "i * cap \<le> (?c - 1) * cap" using assms(2) by (intro mult_le_mono1) simp
  with b(2) have "i * cap < length p" by linarith
  then show "0 < ?l" "?l \<le> cap" using l assms(1) by auto
  obtain k where k: "?c = Suc k" "0 < k" using assms(3) by (cases ?c) auto
  show "?l + ?c - 1 \<le> length p"
  proof (cases "i = k")
    case True
    have "k \<le> k * cap" using assms(1) by simp
    moreover have "k * cap < length p" using b(2) k(1) by simp
    moreover have "?l \<le> length p - k * cap" using l True by simp
    ultimately show ?thesis using k(1) by linarith
  next
    case False
    obtain c where c: "cap = Suc c" using assms(1) by (cases cap) auto
    obtain m where m: "k = Suc m" using k(2) by (cases k) auto
    have "cap + k \<le> k * cap + 1" by (simp add: c m)
    then show ?thesis using l k(1) b(2) by simp
  qed
qed

lemma fragment_frame_fields:
  "length (fragment_frame f pid p cap n i) = 12 + length (fragment_piece p cap i)"
  "fragment_frame f pid p cap n i ! 8 = word_of_nat i"
  "fragment_frame f pid p cap n i ! 9 = word_of_nat n"
  "take 4 (fragment_frame f pid p cap n i) = base_header frameFragment f"
  "take 4 (drop 4 (fragment_frame f pid p cap n i)) = PutUint32 pid"
  "take 2 (drop 10 (fragment_frame f pid p cap n i)) = PutUint16 (word_of_nat (length p))"
  "drop 12 (fragment_frame f pid p cap n i) = fragment_piece p cap i"
  by (simp_all add: fragment_frame_def nth_append)

lemma validateFragment_piece:
  assumes "0 < cap" "i < fragment_count (length p) cap" "2 \<le> fragment_count (length p) cap"
    "fragment_count (length p) cap \<le> 255" "length p \<le> 65535"
  shows "validateFragment (word_of_nat i) (word_of_nat (fragment_count (length p) cap))
    (word_of_nat (length p)) (fragment_piece p cap i) = None"
proof -
  let ?c = "fragment_count (length p) cap"
  note l = fragment_piece_length [OF assms(1-3)]
  have "?c \<le> length p" using l(1,3) by linarith
  moreover have "p \<noteq> []" using l(1) by (auto simp: fragment_piece_take)
  moreover have "unat (ucast (word_of_nat ?c :: byte) :: u16) = ?c"
    using assms(4) by (simp add: unsigned_ucast_eq take_bit_eq_mod)
  moreover have "int (length (fragment_piece p cap i)) + int ?c - 1 \<le> int (length p)"
    using l(3) by linarith
  ultimately show ?thesis
    using assms l(1)
    by (simp add: validateFragment_def word_less_nat_alt word_le_nat_alt word_unat_eq_iff)
qed

lemma EncodePacket_loop_map:
  assumes "\<And>i. i \<in> set is \<Longrightarrow>
    validateFragment (word_of_nat i) (word_of_nat n) (word_of_nat (length p)) (fragment_piece p cap i) = None"
  shows "EncodePacket_loop f pid p cap n is acc = Inr (acc @ map (fragment_frame f pid p cap n) is)"
  using assms
  by (induction "is" arbitrary: acc) (simp_all add: fragment_frame_fields Let_def)

lemma EncodePacket_loop_all:
  assumes "0 < cap" "2 \<le> fragment_count (length p) cap" "fragment_count (length p) cap \<le> 255"
    "length p \<le> 65535"
  shows "EncodePacket_loop f pid p cap (fragment_count (length p) cap)
      [0..<fragment_count (length p) cap] [] =
    Inr (map (fragment_frame f pid p cap (fragment_count (length p) cap))
      [0..<fragment_count (length p) cap])"
  using EncodePacket_loop_map [of "[0..<fragment_count (length p) cap]"] validateFragment_piece assms
  by fastforce

definition fragment_datagram :: "u32 \<Rightarrow> u32 \<Rightarrow> byte list \<Rightarrow> nat \<Rightarrow> nat \<Rightarrow> nat \<Rightarrow> Datagram" where
  "fragment_datagram f pid p cap n i =
     \<lparr>d_Type = frameFragment, d_FlowID = f, d_Payload = fragment_piece p cap i, d_PacketID = pid,
      d_Index = word_of_nat i, d_Count = word_of_nat n, d_Total = word_of_nat (length p)\<rparr>"

lemma DecodeDatagram_fragment:
  assumes "validateFlow f = None" "pid \<noteq> 0"
    "validateFragment (word_of_nat i) (word_of_nat n) (word_of_nat (length p)) (fragment_piece p cap i) = None"
  shows "DecodeDatagram (fragment_frame f pid p cap n i) = Inr (fragment_datagram f pid p cap n i)"
  using assms
  by (simp add: DecodeDatagram_def fragment_datagram_def Let_def fragment_frame_fields
      udpHeaderLen_def udpFragmentHeaderLen_def base_header_simps frame_types)

lemma EncodePacket_cases:
  assumes "EncodePacket f pid p mx = Inr frames"
  obtains (whole) bs where "EncodeData f p = Inr bs" "frames = [bs]" "int (length bs) \<le> mx"
  | (split) cap where "0 < cap" "mx = int cap + 12" "2 \<le> fragment_count (length p) cap"
      "fragment_count (length p) cap \<le> 255" "pid \<noteq> 0" "validateFlow f = None" "length p \<le> 65535"
      "frames = map (fragment_frame f pid p cap (fragment_count (length p) cap))
         [0..<fragment_count (length p) cap]"
proof -
  have v: "validateFlow f = None" "length p \<le> 65535"
    using assms by (auto simp: EncodePacket_def udp_consts split: option.splits if_splits)
  show thesis
  proof (cases "int (length p) \<le> mx - 4")
    case True
    then obtain bs where "EncodeData f p = Inr bs" "frames = [bs]"
      using assms v by (auto simp: EncodePacket_def udp_consts split: option.splits if_splits sum.splits)
    moreover from this True have "int (length bs) \<le> mx" by (simp add: EncodeData_Inr)
    ultimately show thesis by (rule whole)
  next
    case False
    define cap where "cap = nat (mx - 12)"
    have c: "pid \<noteq> 0" "mx - 12 > 0" "2 \<le> fragment_count (length p) cap"
      "fragment_count (length p) cap \<le> 255"
      and l: "EncodePacket_loop f pid p cap (fragment_count (length p) cap)
        [0..<fragment_count (length p) cap] [] = Inr frames"
      using assms v False
      by (auto simp: EncodePacket_def udp_consts cap_def Let_def split: if_splits)
    moreover have "frames = map (fragment_frame f pid p cap (fragment_count (length p) cap))
         [0..<fragment_count (length p) cap]"
      using l EncodePacket_loop_all [of cap p f pid] c v by (simp add: cap_def)
    moreover have "mx = int cap + 12" "0 < cap" using c by (auto simp: cap_def)
    ultimately show thesis using split v by blast
  qed
qed

lemma EncodePacket_complete:
  assumes "validateFlow f = None" "length p \<le> udpPacketMax" "int udpHeaderLen \<le> mx"
    and "int (length p) \<le> mx - int udpHeaderLen \<or>
      (pid \<noteq> 0 \<and> 0 < mx - int udpFragmentHeaderLen \<and>
       2 \<le> fragment_count (length p) (nat (mx - int udpFragmentHeaderLen)) \<and>
       fragment_count (length p) (nat (mx - int udpFragmentHeaderLen)) \<le> 255)"
  shows "\<exists>frames. EncodePacket f pid p mx = Inr frames"
proof (cases "int (length p) \<le> mx - int udpHeaderLen")
  case True
  with assms show ?thesis by (simp add: EncodePacket_def EncodeData_def)
next
  case False
  let ?cap = "nat (mx - int udpFragmentHeaderLen)"
  have "EncodePacket_loop f pid p ?cap (fragment_count (length p) ?cap)
      [0..<fragment_count (length p) ?cap] [] =
    Inr (map (fragment_frame f pid p ?cap (fragment_count (length p) ?cap))
      [0..<fragment_count (length p) ?cap])"
    using assms False
    by (intro EncodePacket_loop_all) (auto simp: udp_consts)
  with assms False show ?thesis by (simp add: EncodePacket_def Let_def)
qed

lemma EncodePacket_frames_fit:
  assumes "EncodePacket f pid p mx = Inr frames" "fr \<in> set frames"
  shows "int (length fr) \<le> mx"
  using assms(1)
proof (cases rule: EncodePacket_cases)
  case (split cap)
  with assms(2) obtain i where "i < fragment_count (length p) cap"
    "fr = fragment_frame f pid p cap (fragment_count (length p) cap) i" by auto
  with split fragment_piece_length(2) [of cap i p] show ?thesis
    by (simp add: fragment_frame_fields)
qed (use assms in auto)

lemma DecodeDatagram_valid:
  assumes "DecodeDatagram bs = Inr d"
  shows "validateFlow (d_FlowID d) = None"
    and "d_Type d = frameFragment \<Longrightarrow>
      d_PacketID d \<noteq> 0 \<and> validateFragment (d_Index d) (d_Count d) (d_Total d) (d_Payload d) = None"
    and "d_Type d \<in> {frameData, frameFragment, frameClose}"
    and "length (d_Payload d) \<le> udpPacketMax \<or> d_Type d = frameFragment"
  using assms frame_types
  by (auto simp: DecodeDatagram_def Let_def split: option.splits if_splits)

end
