(* ===== verification/Wire3_Reassembly.thy ===== *)
theory Wire3_Reassembly
  imports Wire3_Datagram
begin

section \<open>nw3 wire: the fragment reassembler\<close>

text \<open>
  \<^verbatim>\<open>wire/datagram.go\<close>, second half. The slot table is an association list with distinct
  keys: its order stands for Go's unspecified map iteration order, and no theorem assumes
  anything of it. A part that has not arrived is the empty list, as the code's nil slice:
  \<^verbatim>\<open>append([]byte(nil), p...)\<close> is nil exactly for an empty \<^verbatim>\<open>p\<close>.
\<close>

type_synonym reKey = "u32 \<times> u32"

record reSlot =
  rs_created :: time
  rs_count :: nat
  rs_total :: nat
  rs_parts :: "byte list list"
  rs_got :: nat
  rs_bytes :: nat

record Reassembler =
  re_maxSlots :: int
  re_maxBytes :: int
  re_ttl :: time
  re_slots :: "(reKey \<times> reSlot) list"
  re_reserved :: int

definition NewReassembler :: "int \<Rightarrow> int \<Rightarrow> time \<Rightarrow> Reassembler" where
  "NewReassembler slots maxBytes ttl =
     \<lparr>re_maxSlots = (if slots \<le> 0 then 64 else slots),
      re_maxBytes = (if maxBytes \<le> 0 then 4 * 2 ^ 20 else maxBytes),
      re_ttl = (if ttl \<le> 0 then 10 * 10 ^ 9 else ttl),
      re_slots = [],
      re_reserved = 0\<rparr>"

definition re_drop :: "Reassembler \<Rightarrow> reKey \<Rightarrow> Reassembler" where
  "re_drop r key =
     (case map_of (re_slots r) key of
        None \<Rightarrow> r
      | Some slot \<Rightarrow>
          (let reserved = re_reserved r - int (rs_total slot);
               reserved = (if reserved < 0 then 0 else reserved)
           in r\<lparr>re_reserved := reserved, re_slots := AList.delete key (re_slots r)\<rparr>))"

definition re_expire :: "Reassembler \<Rightarrow> time \<Rightarrow> Reassembler" where
  "re_expire r now =
     foldl (\<lambda>r (key, slot). if now - rs_created slot > re_ttl r then re_drop r key else r)
       r (re_slots r)"

fun oldest_slot :: "(reKey \<times> time) option \<Rightarrow> (reKey \<times> reSlot) list \<Rightarrow> (reKey \<times> time) option" where
  "oldest_slot best [] = best"
| "oldest_slot best ((key, slot) # rest) =
     oldest_slot
       (case best of
          None \<Rightarrow> Some (key, rs_created slot)
        | Some (k, w) \<Rightarrow>
            if rs_created slot < w then Some (key, rs_created slot) else best) rest"

definition re_evictOldest :: "Reassembler \<Rightarrow> Reassembler" where
  "re_evictOldest r =
     (case oldest_slot None (re_slots r) of
        None \<Rightarrow> r
      | Some (oldest, w) \<Rightarrow> re_drop r oldest)"

definition RemoveFlow :: "Reassembler \<Rightarrow> u32 \<Rightarrow> Reassembler" where
  "RemoveFlow r flow =
     (let r = foldl (\<lambda>r (key, slot).
                if fst key = flow
                then r\<lparr>re_reserved := re_reserved r - int (rs_total slot),
                       re_slots := AList.delete key (re_slots r)\<rparr>
                else r) r (re_slots r)
      in if re_reserved r < 0 then r\<lparr>re_reserved := 0\<rparr> else r)"

text \<open>The branch of \<^verbatim>\<open>Push\<close> for a key that has a slot.\<close>

definition Push_existing ::
  "Reassembler \<Rightarrow> reKey \<Rightarrow> reSlot \<Rightarrow> Datagram \<Rightarrow> Reassembler \<times> (error + byte list option) go" where
  "Push_existing r key slot d =
     (if rs_count slot \<noteq> unat (d_Count d) \<or> rs_total slot \<noteq> unat (d_Total d)
      then (re_drop r key, Ret (Inl (New ''nw3: fragment metadata conflict'')))
      else
        (let idx = unat (d_Index d) in
         if \<not> idx < length (rs_parts slot) then (r, Panic)
         else if rs_parts slot ! idx \<noteq> [] then
           (if rs_parts slot ! idx \<noteq> d_Payload d
            then (re_drop r key, Ret (Inl (New ''nw3: conflicting fragment'')))
            else (r, Ret (Inr None)))
         else if rs_bytes slot + length (d_Payload d) > rs_total slot
         then (re_drop r key, Ret (Inl (New ''nw3: fragment length overflow'')))
         else
           (let slot' = slot\<lparr>rs_parts := (rs_parts slot)[idx := d_Payload d],
                             rs_got := rs_got slot + 1,
                             rs_bytes := rs_bytes slot + length (d_Payload d)\<rparr>;
                r' = r\<lparr>re_slots := AList.update key slot' (re_slots r)\<rparr>
            in
            if rs_got slot' < rs_count slot' then (r', Ret (Inr None))
            else if rs_bytes slot' \<noteq> rs_total slot'
            then (re_drop r' key, Ret (Inl (New ''nw3: incomplete fragment length'')))
            else (re_drop r' key, Ret (Inr (Some (concat (rs_parts slot'))))))))"

text \<open>The branch of \<^verbatim>\<open>Push\<close> that opens a slot.\<close>

definition Push_new ::
  "Reassembler \<Rightarrow> reKey \<Rightarrow> Datagram \<Rightarrow> time \<Rightarrow> Reassembler \<times> (error + byte list option) go" where
  "Push_new r key d now =
     (let need = unat (d_Total d);
          r = (if int (length (re_slots r)) \<ge> re_maxSlots r then re_evictOldest r else r)
      in
      if re_reserved r + int need > re_maxBytes r
      then (r, Ret (Inl (New ''nw3: reassembly byte limit'')))
      else
        (let parts = replicate (unat (d_Count d)) [];
             idx = unat (d_Index d)
         in
         if idx \<ge> length parts then (r, Ret (Inl (New ''nw3: invalid fragment metadata'')))
         else
           (let slot = \<lparr>rs_created = now, rs_count = unat (d_Count d), rs_total = need,
                        rs_parts = parts[idx := d_Payload d], rs_got = 1,
                        rs_bytes = length (d_Payload d)\<rparr>
            in
            if rs_count slot = 1 then (r, Ret (Inl (New ''nw3: invalid fragment metadata'')))
            else (r\<lparr>re_slots := AList.update key slot (re_slots r), re_reserved := re_reserved r + int need\<rparr>,
                  Ret (Inr None)))))"

definition Push ::
  "Reassembler \<Rightarrow> Datagram \<Rightarrow> time \<Rightarrow> Reassembler \<times> (error + byte list option) go" where
  "Push r d now =
     (if d_Type d \<noteq> frameFragment then (r, Ret (Inl (New ''nw3: not a fragment'')))
      else
        (let r = re_expire r now;
             key = (d_FlowID d, d_PacketID d)
         in
         case map_of (re_slots r) key of
           Some slot \<Rightarrow> Push_existing r key slot d
         | None \<Rightarrow> Push_new r key d now))"

subsection \<open>The invariant\<close>

text \<open>
  A slot holds fewer parts than it waits for, and the counters are what they count. The
  table is within its slot bound, and \<open>reserved\<close> is the sum of the declared totals, within
  the byte bound.
\<close>

definition parts_present :: "byte list list \<Rightarrow> nat" where
  "parts_present ps = length (filter (\<lambda>p. p \<noteq> []) ps)"

definition slot_inv :: "reSlot \<Rightarrow> bool" where
  "slot_inv s \<longleftrightarrow>
     length (rs_parts s) = rs_count s \<and> rs_got s = parts_present (rs_parts s) \<and>
     rs_got s < rs_count s \<and>
     rs_bytes s = length (concat (rs_parts s)) \<and> rs_bytes s \<le> rs_total s"

abbreviation reserved_sum :: "(reKey \<times> reSlot) list \<Rightarrow> int" where
  "reserved_sum \<equiv> al_sum (\<lambda>s. int (rs_total s))"

definition re_inv :: "Reassembler \<Rightarrow> bool" where
  "re_inv r \<longleftrightarrow>
     distinct (map fst (re_slots r)) \<and>
     (\<forall>(k, s) \<in> set (re_slots r). slot_inv s) \<and>
     re_reserved r = reserved_sum (re_slots r) \<and> re_reserved r \<le> re_maxBytes r \<and>
     int (length (re_slots r)) \<le> re_maxSlots r \<and> 0 < re_maxSlots r"

lemma reserved_sum_nonneg: "0 \<le> reserved_sum xs"
  by (rule al_sum_nonneg) simp

subsection \<open>Every operation keeps it\<close>

lemma re_inv_drop:
  assumes "re_inv r" shows "re_inv (re_drop r key)"
proof (cases "map_of (re_slots r) key")
  case None
  with assms show ?thesis by (simp add: re_drop_def)
next
  case (Some s)
  have "reserved_sum (AList.delete key (re_slots r)) = re_reserved r - int (rs_total s)"
    using assms Some by (simp add: re_inv_def al_sum_delete)
  with assms Some show ?thesis
    using reserved_sum_nonneg [of "AList.delete key (re_slots r)"]
      AList.length_delete_le [of key "re_slots r"]
    by (auto simp: re_drop_def re_inv_def Let_def al_distinct set_al_delete)
qed

lemma re_drop_frame [simp]:
  "re_maxSlots (re_drop r k) = re_maxSlots r" "re_maxBytes (re_drop r k) = re_maxBytes r"
  "re_ttl (re_drop r k) = re_ttl r"
  by (simp_all add: re_drop_def Let_def split: option.splits)

lemma map_of_re_drop:
  "map_of (re_slots (re_drop r key)) k = (if k = key then None else map_of (re_slots r) k)"
  by (auto simp: re_drop_def Let_def al_lookup split: option.splits)

lemma re_drop_reserved:
  "re_inv r \<Longrightarrow> re_reserved (re_drop r key) \<le> re_reserved r"
  using reserved_sum_nonneg [of "re_slots r"]
  by (auto simp: re_drop_def re_inv_def Let_def split: option.splits)

lemma re_drop_length: "length (re_slots (re_drop r key)) \<le> length (re_slots r)"
  by (auto simp: re_drop_def Let_def AList.length_delete_le split: option.splits)

text \<open>What any sequence of drops keeps.\<close>

definition shrinks :: "Reassembler \<Rightarrow> Reassembler \<Rightarrow> bool" where
  "shrinks r r' \<longleftrightarrow>
     (re_inv r \<longrightarrow> re_inv r' \<and> re_reserved r' \<le> re_reserved r) \<and>
     length (re_slots r') \<le> length (re_slots r) \<and>
     re_maxSlots r' = re_maxSlots r \<and> re_maxBytes r' = re_maxBytes r \<and> re_ttl r' = re_ttl r \<and>
     (\<forall>k. map_of (re_slots r) k = None \<longrightarrow> map_of (re_slots r') k = None)"

lemma shrinks_refl [simp]: "shrinks r r"
  by (simp add: shrinks_def)

lemma shrinks_trans: "shrinks r s \<Longrightarrow> shrinks s t \<Longrightarrow> shrinks r t"
  by (auto simp: shrinks_def)

lemma shrinks_drop [simp]: "shrinks r (re_drop r key)"
  by (simp add: shrinks_def re_inv_drop re_drop_reserved re_drop_length map_of_re_drop)

abbreviation expire_step :: "time \<Rightarrow> Reassembler \<Rightarrow> reKey \<times> reSlot \<Rightarrow> Reassembler" where
  "expire_step now \<equiv> \<lambda>r (key, slot). if now - rs_created slot > re_ttl r then re_drop r key else r"

lemma shrinks_expire [simp]: "shrinks r (re_expire r now)"
proof -
  have "shrinks r (foldl (expire_step now) r xs)" for xs
  proof (induction xs rule: rev_induct)
    case (snoc x xs)
    then show ?case by (cases x) (auto intro: shrinks_trans)
  qed simp
  then show ?thesis by (simp add: re_expire_def)
qed

lemma expire_fold_lookup:
  "map_of (re_slots (foldl (expire_step now) r xs)) k =
     (if \<exists>s. (k, s) \<in> set xs \<and> now - rs_created s > re_ttl r then None else map_of (re_slots r) k)"
proof (induction xs arbitrary: r)
  case (Cons x xs)
  then show ?case by (cases x) (auto simp: map_of_re_drop)
qed simp

lemma re_expire_lookup:
  "re_inv r \<Longrightarrow>
   map_of (re_slots (re_expire r now)) k =
     (case map_of (re_slots r) k of
        None \<Rightarrow> None
      | Some s \<Rightarrow> if now - rs_created s > re_ttl r then None else Some s)"
  unfolding re_expire_def expire_fold_lookup
  by (auto simp: re_inv_def map_of_eq_None_iff split: option.splits dest: map_of_SomeD)
     (metis map_of_is_SomeI option.inject)

lemma oldest_slot_min:
  "oldest_slot best xs = Some (k, w) \<Longrightarrow>
   (best = Some (k, w) \<or> (\<exists>s. (k, s) \<in> set xs \<and> rs_created s = w)) \<and>
   (\<forall>(k', s') \<in> set xs. w \<le> rs_created s') \<and> (\<forall>k' w'. best = Some (k', w') \<longrightarrow> w \<le> w')"
proof (induction best xs rule: oldest_slot.induct)
  case (2 best key slot rest)
  note IH = "2.IH" [OF "2.prems" [unfolded oldest_slot.simps]]
  show ?case
  proof (cases best)
    case None
    with IH show ?thesis by fastforce
  next
    case (Some b)
    with IH show ?thesis by (cases b) (fastforce split: if_splits)
  qed
qed auto

lemma oldest_slot_None: "oldest_slot best xs = None \<longleftrightarrow> best = None \<and> xs = []"
  by (induction best xs rule: oldest_slot.induct) (auto split: option.splits prod.splits)

lemma shrinks_evictOldest [simp]: "shrinks r (re_evictOldest r)"
  by (auto simp: re_evictOldest_def split: option.splits)

lemma re_evictOldest_length:
  assumes "re_slots r \<noteq> []"
  shows "length (re_slots (re_evictOldest r)) < length (re_slots r)"
proof -
  from assms obtain k w where o: "oldest_slot None (re_slots r) = Some (k, w)"
    using oldest_slot_None [of None "re_slots r"] by fastforce
  then have "map_of (re_slots r) k \<noteq> None"
    using oldest_slot_min [OF o] by (auto simp: map_of_eq_None_iff rev_image_eqI)
  with o show ?thesis
    by (auto simp: re_evictOldest_def re_drop_def Let_def length_al_delete_less)
qed

abbreviation remove_step :: "u32 \<Rightarrow> Reassembler \<Rightarrow> reKey \<times> reSlot \<Rightarrow> Reassembler" where
  "remove_step flow \<equiv> \<lambda>r (key, slot).
     if fst key = flow
     then r\<lparr>re_reserved := re_reserved r - int (rs_total slot),
            re_slots := AList.delete key (re_slots r)\<rparr>
     else r"

lemma remove_fold:
  assumes "re_inv r" "set xs \<subseteq> set (re_slots r)" "distinct (map fst xs)"
  shows "re_inv (foldl (remove_step flow) r xs)"
  using assms
proof (induction xs arbitrary: r)
  case (Cons x xs)
  obtain key slot where x: "x = (key, slot)" by (cases x)
  show ?case
  proof (cases "fst key = flow")
    case True
    have "map_of (re_slots r) key = Some slot"
      using Cons.prems x by (auto simp: re_inv_def intro: map_of_is_SomeI)
    then have "remove_step flow r x = re_drop r key"
      using Cons.prems(1) True x al_sum_delete [of "re_slots r" key slot "\<lambda>s. int (rs_total s)"]
        reserved_sum_nonneg [of "AList.delete key (re_slots r)"]
      by (simp add: re_drop_def re_inv_def)
    moreover have "set xs \<subseteq> set (re_slots (re_drop r key))"
      using Cons.prems(2,3) x
      by (force simp: re_drop_def Let_def set_al_delete split: option.splits)
    ultimately show ?thesis
      using Cons re_inv_drop by simp
  qed (use Cons x in auto)
qed simp

lemma re_inv_RemoveFlow: "re_inv r \<Longrightarrow> re_inv (RemoveFlow r flow)"
proof -
  assume "re_inv r"
  then have "re_inv (foldl (remove_step flow) r (re_slots r))"
    by (intro remove_fold) (auto simp: re_inv_def)
  then show ?thesis
    using reserved_sum_nonneg [of "re_slots (foldl (remove_step flow) r (re_slots r))"]
    by (simp add: RemoveFlow_def Let_def re_inv_def)
qed

lemma re_inv_NewReassembler: "re_inv (NewReassembler slots maxBytes ttl)"
  by (simp add: NewReassembler_def re_inv_def)

subsection \<open>Pushing a decoded fragment\<close>

text \<open>What \<open>DecodeDatagram\<close> guarantees of a fragment (\<open>DecodeDatagram_valid\<close>).\<close>

definition fragment_ok :: "Datagram \<Rightarrow> bool" where
  "fragment_ok d \<longleftrightarrow>
     d_Type d = frameFragment \<and>
     validateFragment (d_Index d) (d_Count d) (d_Total d) (d_Payload d) = None"

lemma fragment_ok_bounds:
  assumes "fragment_ok d"
  shows "unat (d_Index d) < unat (d_Count d)" "2 \<le> unat (d_Count d)" "d_Payload d \<noteq> []"
    "length (d_Payload d) \<le> unat (d_Total d)"
proof -
  have n: "\<not> d_Count d < 2" "d_Index d < d_Count d" "d_Payload d \<noteq> []"
    "int (length (d_Payload d)) + int (unat (d_Count d)) - 1 \<le> int (unat (d_Total d))"
    using assms by (auto simp: fragment_ok_def validateFragment_def not_le split: if_splits)
  then show c: "unat (d_Index d) < unat (d_Count d)" "2 \<le> unat (d_Count d)" "d_Payload d \<noteq> []"
    by (simp_all add: word_less_nat_alt)
  show "length (d_Payload d) \<le> unat (d_Total d)" using n(4) c(2) by linarith
qed

lemma parts_present_update:
  "i < length ps \<Longrightarrow> ps ! i = [] \<Longrightarrow> p \<noteq> [] \<Longrightarrow>
   parts_present (ps[i := p]) = Suc (parts_present ps)"
proof (induction ps arbitrary: i)
  case (Cons a ps)
  then show ?case by (cases i) (auto simp: parts_present_def)
qed simp

lemma parts_present_replicate:
  "i < n \<Longrightarrow> p \<noteq> [] \<Longrightarrow> parts_present ((replicate n [])[i := p]) = 1"
  by (subst parts_present_update) (auto simp: parts_present_def)

lemma re_drop_set:
  "map_of (re_slots r) key = Some s \<Longrightarrow> rs_total s' = rs_total s \<Longrightarrow>
   re_drop (r\<lparr>re_slots := AList.update key s' (re_slots r)\<rparr>) key = re_drop r key"
  by (simp add: re_drop_def al_lookup AList.delete_update_same)

lemma re_inv_update:
  assumes "re_inv r" "map_of (re_slots r) key = Some s" "slot_inv s'" "rs_total s' = rs_total s"
  shows "re_inv (r\<lparr>re_slots := AList.update key s' (re_slots r)\<rparr>)"
proof -
  have "reserved_sum (AList.update key s' (re_slots r)) = reserved_sum (re_slots r)"
    using assms by (simp add: al_sum_update re_inv_def)
  moreover have "\<forall>(k, s) \<in> set (AList.update key s' (re_slots r)). slot_inv s"
    using set_al_update [of key s' "re_slots r"] assms by (auto simp: re_inv_def)
  ultimately show ?thesis
    using assms by (simp add: re_inv_def length_al_update al_distinct)
qed

lemma slot_inv_of: "re_inv r \<Longrightarrow> map_of (re_slots r) key = Some s \<Longrightarrow> slot_inv s"
  by (auto simp: re_inv_def dest!: map_of_SomeD)

text \<open>
  Every way a push into an existing slot can end: the table keeps its invariant, nothing
  panics, and a completed payload has the declared total length.
\<close>

lemma Push_existing_inv:
  assumes "re_inv r" "map_of (re_slots r) key = Some s" "fragment_ok d"
    "Push_existing r key s d = (r', res)"
  shows "re_inv r' \<and> res \<noteq> Panic \<and>
    (\<forall>out. res = Ret (Inr (Some out)) \<longrightarrow> length out = unat (d_Total d))"
proof -
  let ?i = "unat (d_Index d)"
  note si = slot_inv_of [OF assms(1,2)]
  note b = fragment_ok_bounds [OF assms(3)]
  define s' where "s' = s\<lparr>rs_parts := (rs_parts s)[?i := d_Payload d], rs_got := rs_got s + 1,
    rs_bytes := rs_bytes s + length (d_Payload d)\<rparr>"
  note d = re_inv_drop [OF assms(1), of key]
  note p = assms(4) [unfolded Push_existing_def Let_def, folded s'_def]
  show ?thesis
  proof (cases "rs_count s \<noteq> unat (d_Count d) \<or> rs_total s \<noteq> unat (d_Total d) \<or>
      rs_parts s ! ?i \<noteq> [] \<or> rs_total s < rs_bytes s + length (d_Payload d)")
    case True
    with p d assms(1) b si show ?thesis by (auto simp: slot_inv_def split: if_splits)
  next
    case False
    with si b have i: "?i < length (rs_parts s)" by (simp add: slot_inv_def)
    have s'_inv: "rs_got s' < rs_count s' \<Longrightarrow> slot_inv s'"
      and bytes: "rs_bytes s' = length (concat (rs_parts s'))"
      using si False i b parts_present_update [of ?i "rs_parts s" "d_Payload d"]
        concat_update_Nil [of ?i "rs_parts s" "d_Payload d"]
      by (auto simp: slot_inv_def s'_def)
    have r': "re_drop (r\<lparr>re_slots := AList.update key s' (re_slots r)\<rparr>) key = re_drop r key"
      using assms(2) by (intro re_drop_set) (auto simp: s'_def)
    have "rs_got s' < rs_count s' \<Longrightarrow> re_inv (r\<lparr>re_slots := AList.update key s' (re_slots r)\<rparr>)"
      using assms(1,2) s'_inv by (intro re_inv_update) (auto simp: s'_def)
    moreover have "rs_total s' = unat (d_Total d)" using False by (simp add: s'_def)
    ultimately show ?thesis
      using p False i d r' bytes by (auto split: if_splits)
  qed
qed

lemma re_evict_room:
  assumes "re_inv r"
  defines "q \<equiv> (if int (length (re_slots r)) \<ge> re_maxSlots r then re_evictOldest r else r)"
  shows "re_inv q" "shrinks r q" "int (length (re_slots q)) < re_maxSlots q"
proof -
  show sh: "shrinks r q" by (simp add: q_def)
  then show "re_inv q" using assms(1) by (simp add: shrinks_def)
  show "int (length (re_slots q)) < re_maxSlots q"
  proof (cases "int (length (re_slots r)) \<ge> re_maxSlots r")
    case True
    then have "re_slots r \<noteq> []" using assms(1) by (auto simp: re_inv_def)
    from re_evictOldest_length [OF this] True sh assms(1) show ?thesis
      by (simp add: q_def shrinks_def re_inv_def)
  qed (simp add: q_def)
qed

lemma Push_new_inv:
  assumes "re_inv r" "map_of (re_slots r) key = None" "fragment_ok d"
    "Push_new r key d now = (r', res)"
  shows "re_inv r' \<and> res \<noteq> Panic \<and> res \<noteq> Ret (Inr (Some out))"
proof -
  note b = fragment_ok_bounds [OF assms(3)]
  define q where "q = (if int (length (re_slots r)) \<ge> re_maxSlots r then re_evictOldest r else r)"
  define s where "s = \<lparr>rs_created = now, rs_count = unat (d_Count d), rs_total = unat (d_Total d),
    rs_parts = (replicate (unat (d_Count d)) [])[unat (d_Index d) := d_Payload d], rs_got = 1,
    rs_bytes = length (d_Payload d)\<rparr>"
  note q = re_evict_room [OF assms(1), folded q_def]
  have k: "map_of (re_slots q) key = None" using q(2) assms(2) unfolding shrinks_def by blast
  have "concat (replicate n []) = ([] :: byte list)" for n by (induction n) auto
  then have "slot_inv s"
    using b concat_update_Nil [of "unat (d_Index d)" "replicate (unat (d_Count d)) []" "d_Payload d"]
    by (simp add: slot_inv_def s_def parts_present_replicate)
  then have "re_reserved q + int (unat (d_Total d)) \<le> re_maxBytes q \<Longrightarrow>
      re_inv (q\<lparr>re_slots := AList.update key s (re_slots q),
        re_reserved := re_reserved q + int (unat (d_Total d))\<rparr>)"
    using q k set_al_update [of key s "re_slots q"]
    by (auto simp: re_inv_def al_sum_update length_al_update al_distinct s_def)
  with assms(4) b q(1) show ?thesis
    unfolding Push_new_def Let_def q_def [symmetric] s_def [symmetric]
    by (auto split: if_splits simp: s_def)
qed

lemma Push_inv:
  assumes "re_inv r" "fragment_ok d" "Push r d now = (r', res)"
  shows "re_inv r' \<and> res \<noteq> Panic \<and>
    (\<forall>out. res = Ret (Inr (Some out)) \<longrightarrow> length out = unat (d_Total d))"
proof -
  have i: "re_inv (re_expire r now)"
    using shrinks_expire [of r now] assms(1) by (simp add: shrinks_def)
  show ?thesis
  proof (cases "map_of (re_slots (re_expire r now)) (d_FlowID d, d_PacketID d)")
    case None
    with assms show ?thesis
      using Push_new_inv [OF i None assms(2)] by (simp add: Push_def Let_def fragment_ok_def)
  next
    case (Some s)
    with assms show ?thesis
      using Push_existing_inv [OF i Some assms(2)] by (simp add: Push_def Let_def fragment_ok_def)
  qed
qed

subsection \<open>The reassembler as a machine\<close>

text \<open>
  The calls a receiver makes: a datagram as it comes off the network, decoded and then
  pushed when it is a fragment, and the removal of a flow.
\<close>

definition deliver ::
  "Reassembler \<Rightarrow> byte list \<Rightarrow> time \<Rightarrow> Reassembler \<times> (error + byte list option) go" where
  "deliver r frame now =
     (case DecodeDatagram frame of
        Inl e \<Rightarrow> (r, Ret (Inl e))
      | Inr d \<Rightarrow> Push r d now)"

datatype re_op = Frame "byte list" time | Remove u32

primrec re_step :: "Reassembler \<Rightarrow> re_op \<Rightarrow> Reassembler" where
  "re_step r (Frame bs now) = fst (deliver r bs now)"
| "re_step r (Remove flow) = RemoveFlow r flow"

lemma deliver_inv:
  assumes "re_inv r" "deliver r bs now = (r', res)"
  shows "re_inv r' \<and> res \<noteq> Panic \<and> (\<forall>out. res = Ret (Inr (Some out)) \<longrightarrow> length out \<le> udpPacketMax)"
proof (cases "DecodeDatagram bs")
  case (Inl e)
  with assms show ?thesis by (auto simp: deliver_def)
next
  case (Inr d)
  then have p: "Push r d now = (r', res)" using assms by (simp add: deliver_def)
  show ?thesis
  proof (cases "d_Type d = frameFragment")
    case True
    then have "fragment_ok d" using DecodeDatagram_valid(2) [OF Inr] by (simp add: fragment_ok_def)
    moreover have "unat (d_Total d) \<le> udpPacketMax" 
      using unat_lt [of "d_Total d"] by (simp add: udpPacketMax_def)
    ultimately show ?thesis using Push_inv [OF assms(1) _ p] by auto
  next
    case False
    with p assms(1) show ?thesis by (auto simp: Push_def)
  qed
qed

interpretation reassembler: invariant_machine
  "\<lambda>r. \<exists>slots maxBytes ttl. r = NewReassembler slots maxBytes ttl" re_step re_inv
proof unfold_locales
  fix r a assume i: "re_inv r"
  show "re_inv (re_step r a)"
  proof (cases a)
    case (Frame bs now)
    then show ?thesis
      using deliver_inv [OF i, of bs now] by (cases "deliver r bs now") simp
  qed (simp add: i re_inv_RemoveFlow)
qed (auto simp: re_inv_NewReassembler)

subsection \<open>Delivery\<close>

text \<open>
  A packet in flight: its slot was opened at \<open>t0\<close> and holds the fragments whose index is in
  \<open>S\<close>, and nothing else.
\<close>

definition slot_holds :: "byte list \<Rightarrow> nat \<Rightarrow> nat \<Rightarrow> time \<Rightarrow> nat set \<Rightarrow> reSlot \<Rightarrow> bool" where
  "slot_holds p cap n t0 S s \<longleftrightarrow>
     rs_created s = t0 \<and> rs_count s = n \<and> rs_total s = length p \<and>
     rs_parts s = map (\<lambda>i. if i \<in> S then fragment_piece p cap i else []) [0..<n]"

definition in_flight ::
  "u32 \<Rightarrow> u32 \<Rightarrow> byte list \<Rightarrow> nat \<Rightarrow> nat \<Rightarrow> time \<Rightarrow> time \<Rightarrow> nat set \<Rightarrow> Reassembler \<Rightarrow> bool" where
  "in_flight f pid p cap n t0 ttl S r \<longleftrightarrow>
     re_inv r \<and> re_ttl r = ttl \<and>
     (\<exists>s. map_of (re_slots r) (f, pid) = Some s \<and> slot_holds p cap n t0 S s)"

lemma parts_update:
  "i < n \<Longrightarrow> (map (\<lambda>j. if j \<in> S then g j else []) [0..<n])[i := g i] =
     map (\<lambda>j. if j \<in> insert i S then g j else []) [0..<n]"
  by (rule nth_equalityI) (auto simp: nth_list_update)

lemma parts_present_map:
  assumes "S \<subseteq> {0..<n}" "\<And>j. j < n \<Longrightarrow> g j \<noteq> []"
  shows "parts_present (map (\<lambda>j. if j \<in> S then g j else []) [0..<n]) = card S"
proof -
  have "filter (\<lambda>j. (if j \<in> S then g j else []) \<noteq> []) [0..<n] = filter (\<lambda>j. j \<in> S) [0..<n]"
    using assms by (intro filter_cong) auto
  then have "parts_present (map (\<lambda>j. if j \<in> S then g j else []) [0..<n]) =
      length (filter (\<lambda>j. j \<in> S) [0..<n])"
    unfolding parts_present_def filter_map comp_def length_map by simp
  also have "\<dots> = card (set (filter (\<lambda>j. j \<in> S) [0..<n]))"
    by (simp only: distinct_card distinct_filter distinct_upt)
  also have "set (filter (\<lambda>j. j \<in> S) [0..<n]) = S" using assms(1) by auto
  finally show ?thesis .
qed

lemma parts_length_le:
  "length (concat (map (\<lambda>j. if j \<in> S then g j else []) xs)) \<le> length (concat (map g xs))"
  by (induction xs) auto


text \<open>The hypotheses of the step lemmas: a packet that \<open>EncodePacket\<close> splits.\<close>

definition splittable :: "byte list \<Rightarrow> nat \<Rightarrow> nat \<Rightarrow> bool" where
  "splittable p cap n \<longleftrightarrow>
     0 < cap \<and> n = fragment_count (length p) cap \<and> 2 \<le> n \<and> n \<le> 255 \<and> length p \<le> 65535"

lemma splittable_fragment:
  assumes "splittable p cap n" "i < n"
  shows "fragment_ok (fragment_datagram f pid p cap n i)" "fragment_piece p cap i \<noteq> []"
    "unat (word_of_nat i :: byte) = i" "unat (word_of_nat n :: byte) = n"
    "unat (word_of_nat (length p) :: u16) = length p"
    "concat (map (fragment_piece p cap) [0..<n]) = p"
  using assms validateFragment_piece [of cap i p] fragment_piece_length(1) [of cap i p]
    concat_fragment_pieces [of cap p]
  by (auto simp: splittable_def fragment_ok_def fragment_datagram_def)

lemma in_flight_expire:
  assumes "in_flight f pid p cap n t0 ttl S r" "now - t0 \<le> ttl"
  shows "in_flight f pid p cap n t0 ttl S (re_expire r now)"
  using assms shrinks_expire [of r now]
  by (auto simp: in_flight_def re_expire_lookup slot_holds_def shrinks_def)

lemma Push_in_flight:
  assumes "splittable p cap n" "in_flight f pid p cap n t0 ttl S r" "now - t0 \<le> ttl" "i < n"
    "S \<subseteq> {0..<n}"
  shows "\<exists>r'. Push r (fragment_datagram f pid p cap n i) now =
      (r', Ret (Inr (if insert i S = {0..<n} then Some p else None))) \<and>
      (insert i S \<noteq> {0..<n} \<longrightarrow> in_flight f pid p cap n t0 ttl (insert i S) r')"
proof -
  let ?d = "fragment_datagram f pid p cap n i" and ?g = "fragment_piece p cap"
  let ?q = "re_expire r now" and ?key = "(f, pid)"
  note fl = in_flight_expire [OF assms(2,3)]
  note fr = splittable_fragment [OF assms(1,4)]
  have ne: "\<And>j. j < n \<Longrightarrow> ?g j \<noteq> []" using splittable_fragment(2) [OF assms(1)] by blast
  obtain s where s: "map_of (re_slots ?q) ?key = Some s" "slot_holds p cap n t0 S s"
    and inv: "re_inv ?q" and ttl: "re_ttl ?q = ttl"
    using fl by (auto simp: in_flight_def)
  note h = s(2) [unfolded slot_holds_def]
  have c: "rs_count s = n" "rs_total s = length p" "length (rs_parts s) = n" using h by simp_all
  have sinv: "slot_inv s" using slot_inv_of [OF inv s(1)] .
  have P: "Push r ?d now = Push_existing ?q ?key s ?d"
    using s(1) by (simp add: Push_def fragment_datagram_def Let_def)
  have nth: "rs_parts s ! i = (if i \<in> S then ?g i else [])" using h assms(4) by simp
  have got: "rs_got s = card S" "card S < n"
    using sinv h parts_present_map [OF assms(5), of ?g] ne by (auto simp: slot_inv_def)
  show ?thesis
  proof (cases "i \<in> S")
    case True
    with got(2) have "insert i S \<noteq> {0..<n}" by (auto simp: insert_absorb)
    with True h fr nth assms(4) fl P show ?thesis
      by (auto simp: Push_existing_def fragment_datagram_def Let_def insert_absorb)
  next
    case False
    define s' where "s' = s\<lparr>rs_parts := (rs_parts s)[i := ?g i], rs_got := rs_got s + 1,
      rs_bytes := rs_bytes s + length (?g i)\<rparr>"
    let ?r' = "?q\<lparr>re_slots := AList.update ?key s' (re_slots ?q)\<rparr>"
    have fin: "finite S" using assms(5) finite_subset by blast
    have parts: "rs_parts s' = map (\<lambda>j. if j \<in> insert i S then ?g j else []) [0..<n]"
      using parts_update [OF assms(4), of S ?g] h by (simp add: s'_def)
    have got': "rs_got s' = card (insert i S)" using got False fin by (simp add: s'_def)
    have bytes: "rs_bytes s' = length (concat (rs_parts s'))"
      using sinv h assms(4) nth False concat_update_Nil [of i "rs_parts s" "?g i"]
      by (simp add: s'_def slot_inv_def)
    then have le: "rs_bytes s' \<le> length p"
      using parts_length_le [of "insert i S" ?g "[0..<n]"] parts fr(6) by simp
    have full: "insert i S = {0..<n} \<longleftrightarrow> \<not> card (insert i S) < n"
    proof
      assume "\<not> card (insert i S) < n"
      then have "card {0..<n} \<le> card (insert i S)" by simp
      then show "insert i S = {0..<n}"
        using assms(4,5) by (intro card_seteq) auto
    qed (metis card_atLeastLessThan diff_zero less_irrefl)
    have push: "Push_existing ?q ?key s ?d =
        (if rs_got s' < n then (?r', Ret (Inr None))
         else if rs_bytes s' \<noteq> length p
         then (re_drop ?r' ?key, Ret (Inl (New ''nw3: incomplete fragment length'')))
         else (re_drop ?r' ?key, Ret (Inr (Some (concat (rs_parts s'))))))"
      using c fr(3-5) assms(4) nth False le
      unfolding Push_existing_def Let_def fragment_datagram_def by (simp add: s'_def)
    show ?thesis
    proof (cases "insert i S = {0..<n}")
      case True
      have "rs_parts s' = map ?g [0..<n]" unfolding parts True by (rule map_cong) auto
      then have "concat (rs_parts s') = p" using fr(6) by simp
      with True P push full got' bytes show ?thesis by auto
    next
      case False
      then have lt: "rs_got s' < n" using full got' by simp
      have "slot_inv s'"
        using h lt parts got' bytes le ne assms(4,5) parts_present_map [of "insert i S" n ?g]
        by (simp add: slot_inv_def s'_def)
      then have "re_inv ?r'" using inv s(1) by (intro re_inv_update) (auto simp: s'_def)
      moreover have "slot_holds p cap n t0 (insert i S) s'"
        using h parts by (simp add: slot_holds_def s'_def)
      ultimately have "in_flight f pid p cap n t0 ttl (insert i S) ?r'"
        using ttl by (simp add: in_flight_def al_lookup)
      with False P push lt show ?thesis by auto
    qed
  qed
qed

lemma Push_opens:
  assumes "splittable p cap n" "re_inv r" "map_of (re_slots r) (f, pid) = None" "i < n"
    "re_reserved r + int (length p) \<le> re_maxBytes r"
  shows "\<exists>r'. Push r (fragment_datagram f pid p cap n i) t0 = (r', Ret (Inr None)) \<and>
      in_flight f pid p cap n t0 (re_ttl r) {i} r'"
proof -
  let ?d = "fragment_datagram f pid p cap n i" and ?key = "(f, pid)"
  let ?e = "re_expire r t0"
  define q where "q = (if int (length (re_slots ?e)) \<ge> re_maxSlots ?e then re_evictOldest ?e else ?e)"
  define s where "s = \<lparr>rs_created = t0, rs_count = n, rs_total = length p,
    rs_parts = (replicate n [])[i := fragment_piece p cap i], rs_got = 1,
    rs_bytes = length (fragment_piece p cap i)\<rparr>"
  note fr = splittable_fragment [OF assms(1,4)]
  have ie: "re_inv ?e" using shrinks_expire [of r t0] assms(2) by (simp add: shrinks_def)
  note q = re_evict_room [OF ie, folded q_def]
  have sh: "shrinks r q" using shrinks_trans shrinks_expire q(2) by blast
  then have room: "re_reserved q + int (length p) \<le> re_maxBytes q" "re_ttl q = re_ttl r"
    using assms(2,5) by (auto simp: shrinks_def)
  have ke: "map_of (re_slots ?e) ?key = None"
    using shrinks_expire [of r t0] assms(3) unfolding shrinks_def by blast
  let ?r' = "q\<lparr>re_slots := AList.update ?key s (re_slots q), re_reserved := re_reserved q + int (length p)\<rparr>"
  have "2 \<le> n" using assms(1) by (simp add: splittable_def)
  then have new: "Push_new ?e ?key ?d t0 = (?r', Ret (Inr None))"
    using room fr(3-5) assms(4)
    unfolding Push_new_def Let_def q_def [symmetric] s_def fragment_datagram_def by simp
  then have "re_inv ?r'" using Push_new_inv [OF ie ke fr(1)] by blast
  moreover have "rs_parts s = map (\<lambda>j. if j \<in> {i} then fragment_piece p cap j else []) [0..<n]"
    using assms(4) by (intro nth_equalityI) (auto simp: s_def nth_list_update)
  ultimately have "in_flight f pid p cap n t0 (re_ttl r) {i} ?r'"
    using room(2) by (auto simp: in_flight_def al_lookup slot_holds_def s_def)
  moreover have "Push r ?d t0 = (?r', Ret (Inr None))"
    using ke new by (simp add: Push_def Let_def fragment_datagram_def)
  ultimately show ?thesis by blast
qed

text \<open>A sequence of arrivals: index of the fragment and instant.\<close>

fun deliver_all ::
  "Reassembler \<Rightarrow> (byte list \<times> time) list \<Rightarrow> Reassembler \<times> (error + byte list option) go list" where
  "deliver_all r [] = (r, [])"
| "deliver_all r ((bs, now) # rest) =
     (let (r', res) = deliver r bs now;
          (r'', ress) = deliver_all r' rest
      in (r'', res # ress))"

lemma deliver_all_append:
  "deliver_all r (xs @ ys) =
     (let (r', as) = deliver_all r xs; (r'', bs) = deliver_all r' ys in (r'', as @ bs))"
  by (induction r xs rule: deliver_all.induct) (auto simp: Let_def split: prod.splits)

lemma deliver_fragment:
  assumes "splittable p cap n" "validateFlow f = None" "pid \<noteq> 0" "i < n"
  shows "deliver r (fragment_frame f pid p cap n i) now = Push r (fragment_datagram f pid p cap n i) now"
proof -
  have "fragment_ok (fragment_datagram f pid p cap n i)"
    using splittable_fragment(1) [OF assms(1,4)] .
  then have "DecodeDatagram (fragment_frame f pid p cap n i) = Inr (fragment_datagram f pid p cap n i)"
    using assms by (intro DecodeDatagram_fragment) (auto simp: fragment_ok_def fragment_datagram_def)
  then show ?thesis by (simp add: deliver_def)
qed

lemma deliver_all_in_flight:
  assumes "splittable p cap n" "validateFlow f = None" "pid \<noteq> 0"
    "in_flight f pid p cap n t0 ttl S r" "S \<subseteq> {0..<n}"
    "\<forall>(i, t) \<in> set xs. i < n \<and> t - t0 \<le> ttl" "S \<union> fst ` set xs \<noteq> {0..<n}"
  shows "\<exists>r'. deliver_all r (map (\<lambda>(i, t). (fragment_frame f pid p cap n i, t)) xs) =
      (r', replicate (length xs) (Ret (Inr None))) \<and>
      in_flight f pid p cap n t0 ttl (S \<union> fst ` set xs) r'"
  using assms(4-)
proof (induction xs arbitrary: S r)
  case (Cons x xs)
  obtain i t where x: "x = (i, t)" by (cases x)
  then have i: "i < n" "t - t0 \<le> ttl" using Cons.prems(3) by auto
  have sub: "insert i S \<subseteq> {0..<n}" "fst ` set xs \<subseteq> {0..<n}"
    using Cons.prems(2,3) i by auto
  then have "insert i S \<noteq> {0..<n}" using Cons.prems(4) x by auto
  then obtain r1 where r1: "Push r (fragment_datagram f pid p cap n i) t = (r1, Ret (Inr None))"
    "in_flight f pid p cap n t0 ttl (insert i S) r1"
    using Push_in_flight [OF assms(1) Cons.prems(1) i(2,1) Cons.prems(2)] by auto
  have "insert i S \<union> fst ` set xs \<noteq> {0..<n}" using Cons.prems(4) x by simp
  then obtain r' where "deliver_all r1 (map (\<lambda>(i, t). (fragment_frame f pid p cap n i, t)) xs) =
      (r', replicate (length xs) (Ret (Inr None)))"
    "in_flight f pid p cap n t0 ttl (insert i S \<union> fst ` set xs) r'"
    using Cons.IH [OF r1(2) sub(1)] Cons.prems(3) by auto
  with x r1(1) show ?case by (simp add: deliver_fragment [OF assms(1-3) i(1)])
qed simp

lemma deliver_all_fragments:
  assumes "splittable p cap n" "validateFlow f = None" "pid \<noteq> 0"
    "re_inv r" "map_of (re_slots r) (f, pid) = None"
    "re_reserved r + int (length p) \<le> re_maxBytes r"
    "\<forall>(i, t) \<in> set (xs @ [y]). i < n \<and> t - snd (hd (xs @ [y])) \<le> re_ttl r"
    "fst ` set xs \<noteq> {0..<n}" "fst ` set (xs @ [y]) = {0..<n}"
  shows "\<exists>r'. deliver_all r (map (\<lambda>(i, t). (fragment_frame f pid p cap n i, t)) (xs @ [y])) =
      (r', replicate (length xs) (Ret (Inr None)) @ [Ret (Inr (Some p))])"
proof -
  have n: "2 \<le> n" using assms(1) by (simp add: splittable_def)
  have "xs \<noteq> []"
  proof
    assume "xs = []"
    with assms(9) have "{fst y} = {0..<n}" by simp
    then have "card {0..<n} = 1" by (metis is_singletonI is_singleton_altdef)
    with n show False by simp
  qed
  then obtain x xs' where x: "xs = x # xs'" by (cases xs) auto
  obtain i t where it: "x = (i, t)" by (cases x)
  obtain j u where ju: "y = (j, u)" by (cases y)
  have b: "i < n" "j < n" "u - t \<le> re_ttl r" using assms(7) x it ju by auto
  obtain r1 where r1: "Push r (fragment_datagram f pid p cap n i) t = (r1, Ret (Inr None))"
    "in_flight f pid p cap n t (re_ttl r) {i} r1"
    using Push_opens [OF assms(1,4,5) b(1) assms(6)] by blast
  let ?S = "{i} \<union> fst ` set xs'"
  have S: "?S = fst ` set xs" "?S \<subseteq> {0..<n}" using assms(7) x it by auto
  obtain r2 where r2: "deliver_all r1 (map (\<lambda>(i, t). (fragment_frame f pid p cap n i, t)) xs') =
      (r2, replicate (length xs') (Ret (Inr None)))" "in_flight f pid p cap n t (re_ttl r) ?S r2"
    using deliver_all_in_flight [OF assms(1-3) r1(2), of xs'] assms(7,8) S x it b(1) by auto
  have "insert j ?S = {0..<n}" using assms(9) x it ju by auto
  then obtain r3 where r3: "Push r2 (fragment_datagram f pid p cap n j) u = (r3, Ret (Inr (Some p)))"
    using Push_in_flight [OF assms(1) r2(2) b(3,2) S(2)] by auto
  show ?thesis
    using r1(1) r2(1) r3 x it ju b by (simp add: deliver_all_append deliver_fragment [OF assms(1-3)])
qed

end
