(* ===== verification/Net_Addr.thy ===== *)
theory Net_Addr
  imports Nowhere_Prelude
begin

section \<open>Addresses and domain names\<close>

text \<open>
  What the targets of both protocol versions use of package \<^verbatim>\<open>net/netip\<close>, and the
  reference definition of a domain name in ASCII wire form that the two hand-written
  validation loops are proved to decide.
\<close>

subsection \<open>netip.Addr\<close>

text \<open>The zero value, an IPv4 address, or an IPv6 address with its zone (\<open>[]\<close>: none).\<close>

datatype addr = NoAddr | IPv4 u32 | IPv6 "128 word" "byte list"

fun IsValid :: "addr \<Rightarrow> bool" where
  "IsValid NoAddr = False"
| "IsValid a = True"

fun Is4 :: "addr \<Rightarrow> bool" where
  "Is4 (IPv4 _) = True"
| "Is4 _ = False"

text \<open>\<^verbatim>\<open>Is4In6\<close>: the prefix \<^verbatim>\<open>::ffff:0:0/96\<close>.\<close>

fun Is4In6 :: "addr \<Rightarrow> bool" where
  "Is4In6 (IPv6 a z) = (drop_bit 32 a = 0xffff)"
| "Is4In6 _ = False"

fun WithZone :: "addr \<Rightarrow> bool" where
  "WithZone (IPv6 a z) = (z \<noteq> [])"
| "WithZone _ = False"

text \<open>
  \<^verbatim>\<open>As4\<close> panics on the zero value and on IPv6 outside \<^verbatim>\<open>Is4In6\<close>; \<^verbatim>\<open>As16\<close> maps
  IPv4 into \<^verbatim>\<open>::ffff:0:0/96\<close>. The code calls them under \<^verbatim>\<open>Is4\<close> and
  \<^verbatim>\<open>IsValid\<close> only.
\<close>

fun As4 :: "addr \<Rightarrow> byte list" where
  "As4 (IPv4 a) = nat_be 4 (unat a)"
| "As4 (IPv6 a z) = nat_be 4 (unat a mod 2 ^ 32)"
| "As4 NoAddr = []"

fun As16 :: "addr \<Rightarrow> byte list" where
  "As16 NoAddr = nat_be 16 0"
| "As16 (IPv4 a) = nat_be 16 (0xffff * 2 ^ 32 + unat a)"
| "As16 (IPv6 a z) = nat_be 16 (unat a)"

definition AddrFrom4 :: "byte list \<Rightarrow> addr" where
  "AddrFrom4 bs = IPv4 (word_of_nat (be_nat bs))"

definition AddrFrom16 :: "byte list \<Rightarrow> addr" where
  "AddrFrom16 bs = IPv6 (word_of_nat (be_nat bs)) []"

definition AddrFromSlice :: "byte list \<Rightarrow> addr \<times> bool" where
  "AddrFromSlice bs =
     (if length bs = 4 then (AddrFrom4 bs, True)
      else if length bs = 16 then (AddrFrom16 bs, True)
      else (NoAddr, False))"

lemma AddrFrom_simps [simp]:
  "IsValid (AddrFrom4 bs)" "IsValid (AddrFrom16 bs)" "Is4 (AddrFrom4 bs)"
  "\<not> Is4 (AddrFrom16 bs)" "\<not> Is4In6 (AddrFrom4 bs)"
  "\<not> WithZone (AddrFrom4 bs)" "\<not> WithZone (AddrFrom16 bs)"
  by (simp_all add: AddrFrom4_def AddrFrom16_def)

lemma AddrFromSlice_4 [simp]: "length bs = 4 \<Longrightarrow> AddrFromSlice bs = (AddrFrom4 bs, True)"
  by (simp add: AddrFromSlice_def)

lemma AddrFromSlice_16 [simp]: "length bs = 16 \<Longrightarrow> AddrFromSlice bs = (AddrFrom16 bs, True)"
  by (simp add: AddrFromSlice_def)

lemma length_As4 [simp]: "Is4 a \<Longrightarrow> length (As4 a) = 4"
  by (cases a) auto

lemma length_As16 [simp]: "length (As16 a) = 16"
  by (cases a) auto

lemma AddrFrom4_As4 [simp]: "Is4 a \<Longrightarrow> AddrFrom4 (As4 a) = a"
proof (cases a)
  case (IPv4 w)
  have "unat w < 2 ^ 32" using unsigned_less [of w] by simp
  with IPv4 show ?thesis by (simp add: AddrFrom4_def be_nat_nat_be)
qed auto

lemma AddrFrom16_As16 [simp]:
  "IsValid a \<Longrightarrow> \<not> Is4 a \<Longrightarrow> \<not> WithZone a \<Longrightarrow> AddrFrom16 (As16 a) = a"
proof (cases a)
  case (IPv6 w z)
  assume "\<not> WithZone a"
  moreover have "unat w < 2 ^ 128" using unsigned_less [of w] by simp
  ultimately show ?thesis using IPv6 by (simp add: AddrFrom16_def be_nat_nat_be)
qed auto

lemma As4_AddrFrom4 [simp]: "length bs = 4 \<Longrightarrow> As4 (AddrFrom4 bs) = bs"
  using be_nat_bound [of bs] by (simp add: AddrFrom4_def unat_of_nat take_bit_eq_mod nat_be_inj)

lemma As16_AddrFrom16 [simp]: "length bs = 16 \<Longrightarrow> As16 (AddrFrom16 bs) = bs"
  using be_nat_bound [of bs] by (simp add: AddrFrom16_def unat_of_nat take_bit_eq_mod nat_be_inj)

subsection \<open>Domain names: the reference definition\<close>

text \<open>
  The labels of a name are what its dots (byte 46) separate. A name is accepted when it
  has 1 to 253 bytes and every label has 1 to 63 bytes, all letters, digits or hyphens,
  with no hyphen at either end.
\<close>

fun labels :: "byte list \<Rightarrow> byte list list" where
  "labels [] = [[]]"
| "labels (c # cs) =
     (if c = 46 then [] # labels cs
      else (case labels cs of [] \<Rightarrow> [[c]] | l # ls \<Rightarrow> (c # l) # ls))"

definition ldh :: "byte \<Rightarrow> bool" where
  "ldh c \<longleftrightarrow> (48 \<le> c \<and> c \<le> 57) \<or> (97 \<le> c \<and> c \<le> 122) \<or> (65 \<le> c \<and> c \<le> 90) \<or> c = 45"

definition label_ok :: "byte list \<Rightarrow> bool" where
  "label_ok l \<longleftrightarrow> l \<noteq> [] \<and> length l \<le> 63 \<and> hd l \<noteq> 45 \<and> last l \<noteq> 45 \<and> list_all ldh l"

definition domain_ok :: "byte list \<Rightarrow> bool" where
  "domain_ok h \<longleftrightarrow> h \<noteq> [] \<and> length h \<le> 253 \<and> list_all label_ok (labels h)"

lemma labels_not_Nil [simp]: "labels h \<noteq> []"
  by (cases h) (auto split: list.splits)

lemma labels_append_dot:
  "46 \<notin> set l \<Longrightarrow> labels (l @ 46 # h) = l # labels h"
  by (induction l) auto

lemma labels_no_dot: "46 \<notin> set l \<Longrightarrow> labels l = [l]"
  by (induction l) auto

lemma ldh_ascii: "ldh c \<Longrightarrow> c < 128"
  by (auto simp: ldh_def word_le_nat_alt word_less_nat_alt)

lemma labels_bytes: "c \<in> set h \<Longrightarrow> c \<noteq> 46 \<Longrightarrow> \<exists>l \<in> set (labels h). c \<in> set l"
proof (induction h)
  case (Cons a h)
  then show ?case by (fastforce split: list.splits)
qed simp

lemma domain_ok_ascii: "list_all label_ok (labels h) \<Longrightarrow> c \<in> set h \<Longrightarrow> c < 128"
proof (cases "c = 46")
  case False
  assume ok: "list_all label_ok (labels h)" and "c \<in> set h"
  with False obtain l where "l \<in> set (labels h)" "c \<in> set l" using labels_bytes by blast
  with ok show ?thesis by (auto simp: list_all_iff label_ok_def intro: ldh_ascii)
qed simp

text \<open>
  One step of a scan: the bytes from \<open>start\<close> to \<open>i\<close> hold no dot, so the next label of
  the rest of the name is either still being read or ends at \<open>i\<close>.
\<close>

definition scanned :: "byte list \<Rightarrow> nat \<Rightarrow> nat \<Rightarrow> bool" where
  "scanned h start i \<longleftrightarrow>
     start \<le> i \<and> i \<le> length h \<and> 46 \<notin> set (take (i - start) (drop start h))"

lemma scanned_start [simp]: "scanned h 0 0"
  by (simp add: scanned_def)

lemma scanned_restart: "i < length h \<Longrightarrow> scanned h (Suc i) (Suc i)"
  by (simp add: scanned_def)

lemma scanned_step:
  "scanned h start i \<Longrightarrow> i < length h \<Longrightarrow> h ! i \<noteq> 46 \<Longrightarrow> scanned h start (Suc i)"
proof -
  assume s: "scanned h start i" and i: "i < length h" and c: "h ! i \<noteq> 46"
  have "take (Suc i - start) (drop start h) = take (i - start) (drop start h) @ [h ! i]"
    using s i by (auto simp: scanned_def Suc_diff_le take_Suc_conv_app_nth)
  with s i c show ?thesis by (auto simp: scanned_def)
qed

lemma labels_at_end:
  "scanned h start (length h) \<Longrightarrow>
   labels (drop start h) = [take (length h - start) (drop start h)]"
  by (simp add: scanned_def labels_no_dot)

lemma labels_at_dot:
  assumes "scanned h start i" "i < length h" "h ! i = 46"
  shows "labels (drop start h) = take (i - start) (drop start h) # labels (drop (Suc i) h)"
proof -
  have "drop start h = take (i - start) (drop start h) @ 46 # drop (Suc i) h"
    using assms by (metis append_take_drop_id drop_drop Cons_nth_drop_Suc le_add_diff_inverse2
        scanned_def)
  moreover have "46 \<notin> set (take (i - start) (drop start h))"
    using assms by (simp add: scanned_def)
  ultimately show ?thesis by (metis labels_append_dot)
qed

end
