(* ===== verification/Wire3_Target.thy ===== *)
theory Wire3_Target
  imports Net_Addr Wire3_Flow
begin

section \<open>nw3 wire: targets and flow requests\<close>

text \<open>
  \<^verbatim>\<open>wire/target.go\<close>: the destination of a flow, its validation, and its encoding behind
  a FlowStart byte. Left out: \<^verbatim>\<open>HostPort\<close> and \<^verbatim>\<open>String\<close>, which only format a target
  for a dialer.
\<close>

subsection \<open>Domain names\<close>

definition domainLenMax :: nat where
  "domainLenMax = 253"

text \<open>The loop over \<^verbatim>\<open>i\<close> of \<^verbatim>\<open>validateDomain\<close>; \<open>start\<close> is where the current label begins.\<close>

function validateDomain_loop :: "byte list \<Rightarrow> nat \<Rightarrow> nat \<Rightarrow> error option" where
  "validateDomain_loop host start i =
     (if length host < i then None
      else if i \<noteq> length host \<and> host ! i \<noteq> 46 then validateDomain_loop host start (Suc i)
      else
        (let label = take (i - start) (drop start host) in
         if length label = 0 \<or> length label > 63
         then Some (New ''nw3: invalid DNS label length'')
         else if label ! 0 = 45 \<or> label ! (length label - 1) = 45
         then Some (New ''nw3: DNS label begins or ends with hyphen'')
         else if list_ex (\<lambda>c. (c < 48 \<or> c > 57) \<and> (c < 97 \<or> c > 122) \<and> (c < 65 \<or> c > 90) \<and> c \<noteq> 45) label
         then Some (New ''nw3: invalid DNS label bytes'')
         else validateDomain_loop host (Suc i) (Suc i)))"
  by pat_completeness auto
termination
  by (relation "measure (\<lambda>(host, start, i). Suc (length host) - i)") auto

declare validateDomain_loop.simps [simp del]

definition validateDomain :: "byte list \<Rightarrow> error option" where
  "validateDomain host =
     (if length host = 0 \<or> length host > domainLenMax
      then Some (New ''nw3: invalid domain length'')
      else if list_ex (\<lambda>c. c > 127) host then Some (New ''nw3: domain is not ASCII'')
      else validateDomain_loop host 0 0)"

subsection \<open>Targets\<close>

record Target =
  Addr :: addr
  Host :: "byte list"
  Port :: u16

definition NewIPTarget :: "addr \<Rightarrow> u16 \<Rightarrow> error + Target" where
  "NewIPTarget a port =
     (if \<not> IsValid a \<or> Is4In6 a \<or> port = 0 then Inl (New ''nw3: invalid ip target'')
      else Inr \<lparr>Addr = a, Host = [], Port = port\<rparr>)"

definition NewDomainTarget :: "byte list \<Rightarrow> u16 \<Rightarrow> error + Target" where
  "NewDomainTarget host port =
     (if validateDomain host \<noteq> None \<or> port = 0 then Inl (New ''nw3: invalid domain target'')
      else Inr \<lparr>Addr = NoAddr, Host = host, Port = port\<rparr>)"

definition Target_IsIP :: "Target \<Rightarrow> bool" where
  "Target_IsIP t = IsValid (Addr t)"

definition Target_validate :: "Target \<Rightarrow> error option" where
  "Target_validate t =
     (if Port t = 0 then Some (New ''nw3: zero target port'')
      else if IsValid (Addr t) then
        (if Host t \<noteq> [] \<or> Is4In6 (Addr t) then Some (New ''nw3: invalid ip target'') else None)
      else validateDomain (Host t))"

definition AppendTarget :: "byte list \<Rightarrow> Target \<Rightarrow> error + byte list" where
  "AppendTarget dst t =
     (case Target_validate t of
        Some e \<Rightarrow> Inl e
      | None \<Rightarrow>
          (let dst =
             (if Is4 (Addr t) then dst @ [0x01] @ As4 (Addr t)
              else if IsValid (Addr t) then dst @ [0x04] @ As16 (Addr t)
              else dst @ [0x03, word_of_nat (length (Host t))] @ Host t)
           in Inr (dst @ PutUint16 (Port t))))"

definition ReadTarget :: "reader \<Rightarrow> error + Target \<times> reader" where
  "ReadTarget r =
     (case ReadFull 1 r of
        Inl e \<Rightarrow> Inl e
      | Inr (atyp, r) \<Rightarrow>
          if atyp ! 0 = 0x01 then
            (case ReadFull 6 r of
               Inl e \<Rightarrow> Inl e
             | Inr (buf, r) \<Rightarrow>
                 (let (a, ok) = AddrFromSlice (take 4 buf) in
                  if \<not> ok then Inl (New ''nw3: invalid ipv4 target'')
                  else (case NewIPTarget a (Uint16 (drop 4 buf)) of
                          Inl e \<Rightarrow> Inl e | Inr t \<Rightarrow> Inr (t, r))))
          else if atyp ! 0 = 0x04 then
            (case ReadFull 18 r of
               Inl e \<Rightarrow> Inl e
             | Inr (buf, r) \<Rightarrow>
                 (let (a, ok) = AddrFromSlice (take 16 buf) in
                  if \<not> ok then Inl (New ''nw3: invalid ipv6 target'')
                  else (case NewIPTarget a (Uint16 (drop 16 buf)) of
                          Inl e \<Rightarrow> Inl e | Inr t \<Rightarrow> Inr (t, r))))
          else if atyp ! 0 = 0x03 then
            (case ReadFull 1 r of
               Inl e \<Rightarrow> Inl e
             | Inr (nbuf, r) \<Rightarrow>
                 (let n = unat (nbuf ! 0) in
                  if n = 0 \<or> n > domainLenMax then Inl (New ''nw3: invalid domain length'')
                  else (case ReadFull (n + 2) r of
                          Inl e \<Rightarrow> Inl e
                        | Inr (buf, r) \<Rightarrow>
                            (case NewDomainTarget (take n buf) (Uint16 (drop n buf)) of
                               Inl e \<Rightarrow> Inl e | Inr t \<Rightarrow> Inr (t, r)))))
          else Inl (Errorf ''nw3: unknown address type %d'' [uint (atyp ! 0)]))"

text \<open>The two writes of \<^verbatim>\<open>WriteFlowRequest\<close>: the FlowStart byte, then the target.\<close>

definition WriteFlowRequest :: "writer \<Rightarrow> FlowKind \<Rightarrow> Target \<Rightarrow> error option \<times> writer" where
  "WriteFlowRequest w kind target =
     (case WriteFlowStart w kind of
        (Some e, w') \<Rightarrow> (Some e, w')
      | (None, w') \<Rightarrow>
          (case AppendTarget [] target of
             Inl e \<Rightarrow> (Some e, w')
           | Inr buf \<Rightarrow> (let (n, err, w'') = wr_Write buf w' in (err, w''))))"

definition ReadFlowRequest :: "reader \<Rightarrow> error + (FlowKind \<times> Target \<times> bool) \<times> reader" where
  "ReadFlowRequest r =
     (case ReadFlowStart r of
        Inl e \<Rightarrow> Inl e
      | Inr ((kind, ok), r) \<Rightarrow>
          if \<not> ok then Inr ((0, \<lparr>Addr = NoAddr, Host = [], Port = 0\<rparr>, ok), r)
          else
            (case ReadTarget r of
               Inl e \<Rightarrow> Inl e
             | Inr (target, r) \<Rightarrow> Inr ((kind, target, True), r)))"

subsection \<open>The validation loop decides the reference definition\<close>

lemma label_checks:
  "length l \<noteq> 0 \<Longrightarrow>
   (label_ok l \<longleftrightarrow> length l \<le> 63 \<and> \<not> (l ! 0 = 45 \<or> l ! (length l - 1) = 45) \<and>
      \<not> list_ex (\<lambda>c. (c < 48 \<or> c > 57) \<and> (c < 97 \<or> c > 122) \<and> (c < 65 \<or> c > 90) \<and> c \<noteq> 45) l)"
  by (auto simp: label_ok_def hd_conv_nth last_conv_nth list_all_iff list_ex_iff ldh_def not_less)

lemma validateDomain_loop_labels:
  "scanned h start i \<Longrightarrow>
   validateDomain_loop h start i = None \<longleftrightarrow> list_all label_ok (labels (drop start h))"
proof (induction h start i rule: validateDomain_loop.induct)
  case (1 h start i)
  let ?l = "take (i - start) (drop start h)"
  from "1.prems" have le: "i \<le> length h" by (simp add: scanned_def)
  consider (scan) "i < length h" "h ! i \<noteq> 46" | (dot) "i < length h" "h ! i = 46" | (fin) "i = length h"
    using le by fastforce
  then show ?case
  proof cases
    case scan
    with 1 show ?thesis
      by (subst validateDomain_loop.simps) (simp add: scanned_step)
  next
    case dot
    have "validateDomain_loop h start i = None \<longleftrightarrow>
        label_ok ?l \<and> validateDomain_loop h (Suc i) (Suc i) = None"
      using dot label_checks [of ?l]
      by (subst validateDomain_loop.simps) (auto simp: Let_def label_ok_def)
    moreover have "label_ok ?l \<Longrightarrow>
        validateDomain_loop h (Suc i) (Suc i) = None \<longleftrightarrow> list_all label_ok (labels (drop (Suc i) h))"
      using dot label_checks [of ?l]
      by (intro "1.IH"(2)) (auto simp: scanned_restart label_ok_def)
    ultimately show ?thesis
      using labels_at_dot [OF "1.prems" dot] by auto
  next
    case fin
    have "validateDomain_loop h (Suc i) (Suc i) = None"
      using fin by (subst validateDomain_loop.simps) simp
    then have "validateDomain_loop h start i = None \<longleftrightarrow> label_ok ?l"
      using fin label_checks [of ?l]
      by (subst validateDomain_loop.simps) (auto simp: Let_def label_ok_def)
    then show ?thesis
      using labels_at_end [of h start] "1.prems" fin by simp
  qed
qed

lemma validateDomain_domain_ok: "validateDomain host = None \<longleftrightarrow> domain_ok host"
proof -
  have "list_all label_ok (labels host) \<Longrightarrow> \<not> list_ex (\<lambda>c. c > 127) host"
    using domain_ok_ascii [of host]
    by (fastforce simp: list_ex_iff word_less_nat_alt)
  then show ?thesis
    using validateDomain_loop_labels [of host 0 0]
    by (auto simp: validateDomain_def domain_ok_def domainLenMax_def)
qed

subsection \<open>Round trips\<close>

definition strip_zone :: "addr \<Rightarrow> addr" where
  "strip_zone a = (case a of IPv6 w z \<Rightarrow> IPv6 w [] | _ \<Rightarrow> a)"

lemma strip_zone_simps [simp]:
  "IsValid (strip_zone a) = IsValid a" "Is4 (strip_zone a) = Is4 a"
  "Is4In6 (strip_zone a) = Is4In6 a" "\<not> WithZone (strip_zone a)"
  "As4 (strip_zone a) = As4 a" "As16 (strip_zone a) = As16 a"
  "\<not> WithZone a \<Longrightarrow> strip_zone a = a" "Is4 a \<Longrightarrow> strip_zone a = a"
  by (cases a; simp add: strip_zone_def)+

lemma Target_validate_cases:
  assumes "Target_validate t = None"
  obtains (v4) "Is4 (Addr t)" "Host t = []" "Port t \<noteq> 0"
  | (v6) "IsValid (Addr t)" "\<not> Is4 (Addr t)" "\<not> Is4In6 (Addr t)" "Host t = []" "Port t \<noteq> 0"
  | (domain) "Addr t = NoAddr" "validateDomain (Host t) = None" "Port t \<noteq> 0"
  using assms by (cases "Addr t") (auto simp: Target_validate_def split: if_splits)

lemma ReadTarget_AppendTarget:
  assumes "AppendTarget [] t = Inr bs"
  shows "ReadTarget (prepend bs r) = Inr (t\<lparr>Addr := strip_zone (Addr t)\<rparr>, r)"
proof -
  from assms have "Target_validate t = None"
    by (simp add: AppendTarget_def split: option.splits)
  then show ?thesis
  proof (cases rule: Target_validate_cases)
    case v4
    then have "bs = 0x01 # (As4 (Addr t) @ PutUint16 (Port t))"
      using assms by (simp add: AppendTarget_def split: option.splits)
    with v4 show ?thesis
      by (cases t) (auto simp: ReadTarget_def NewIPTarget_def elim: Is4.elims)
  next
    case v6
    then have "bs = 0x04 # (As16 (Addr t) @ PutUint16 (Port t))"
      using assms by (simp add: AppendTarget_def split: option.splits)
    moreover have "AddrFrom16 (As16 (Addr t)) = strip_zone (Addr t)"
      using v6 AddrFrom16_As16 [of "strip_zone (Addr t)"] by simp
    ultimately show ?thesis using v6
      by (cases t) (simp add: ReadTarget_def NewIPTarget_def)
  next
    case domain
    then have h: "0 < length (Host t)" "length (Host t) \<le> 253"
      by (auto simp: validateDomain_domain_ok domain_ok_def)
    have "bs = 0x03 # word_of_nat (length (Host t)) # (Host t @ PutUint16 (Port t))"
      using assms domain by (simp add: AppendTarget_def split: option.splits)
    with domain h show ?thesis
      by (cases t)
        (simp add: ReadTarget_def NewDomainTarget_def domainLenMax_def Let_def strip_zone_def)
  qed
qed

interpretation target: stream_codec "\<lambda>t. \<not> WithZone (Addr t)" "AppendTarget []" ReadTarget
  by unfold_locales (simp add: ReadTarget_AppendTarget)

lemma ReadTarget_canonical:
  assumes "ReadTarget r = Inr (t, r')"
  shows "\<exists>bs. AppendTarget [] t = Inr bs \<and> r = prepend bs r' \<and> Target_validate t = None"
proof -
  from assms obtain atyp r1 where 1: "ReadFull 1 r = Inr (atyp, r1)"
    by (auto simp: ReadTarget_def split: sum.splits)
  then obtain a where a: "atyp = [a]" "r = prepend [a] r1"
    by (auto simp: ReadFull_1_Inr)
  note u = assms [unfolded ReadTarget_def 1 a(1)]
  consider "a = 0x01" | "a = 0x04" | "a = 0x03" using u by (auto split: if_splits)
  then show ?thesis
  proof cases
    case 1
    then obtain buf where b: "length buf = 6" "r1 = prepend buf r'"
      and n: "NewIPTarget (AddrFrom4 (take 4 buf)) (Uint16 (drop 4 buf)) = Inr t"
      using u by (auto simp: ReadFull_Inr split: sum.splits)
    moreover have "PutUint16 (Uint16 (drop 4 buf)) = drop 4 buf" using b by (simp add: Put_Uint16)
    ultimately show ?thesis using 1 a
      by (auto simp: NewIPTarget_def AppendTarget_def Target_validate_def
          simp flip: prepend_append split: if_splits)
  next
    case 2
    then obtain buf where b: "length buf = 18" "r1 = prepend buf r'"
      and n: "NewIPTarget (AddrFrom16 (take 16 buf)) (Uint16 (drop 16 buf)) = Inr t"
      using u by (auto simp: ReadFull_Inr split: sum.splits)
    moreover have "PutUint16 (Uint16 (drop 16 buf)) = drop 16 buf" using b by (simp add: Put_Uint16)
    ultimately show ?thesis using 2 a
      by (auto simp: NewIPTarget_def AppendTarget_def Target_validate_def
          simp flip: prepend_append split: if_splits)
  next
    case 3
    then obtain nbuf r2 where "ReadFull 1 r1 = Inr (nbuf, r2)"
      using u by (auto split: sum.splits)
    moreover from this obtain nb where nb: "nbuf = [nb]" "r1 = prepend [nb] r2"
      by (auto simp: ReadFull_1_Inr)
    ultimately obtain buf where b: "length buf = unat nb + 2" "r2 = prepend buf r'"
      and nz: "unat nb \<noteq> 0"
      and n: "NewDomainTarget (take (unat nb) buf) (Uint16 (drop (unat nb) buf)) = Inr t"
      using u 3 by (auto simp: ReadFull_Inr Let_def split: sum.splits if_splits)
    moreover have "PutUint16 (Uint16 (drop (unat nb) buf)) = drop (unat nb) buf"
      using b by (simp add: Put_Uint16)
    ultimately show ?thesis using 3 a nb nz
      by (auto simp: NewDomainTarget_def AppendTarget_def Target_validate_def min_def
          simp flip: prepend_append split: if_splits)
  qed
qed

text \<open>Reading and writing in one statement.\<close>

lemma ReadTarget_iff:
  "ReadTarget r = Inr (t, r') \<longleftrightarrow>
     strip_zone (Addr t) = Addr t \<and> (\<exists>bs. AppendTarget [] t = Inr bs \<and> r = prepend bs r')"
proof
  assume a: "ReadTarget r = Inr (t, r')"
  then obtain bs where b: "AppendTarget [] t = Inr bs" "r = prepend bs r'" using ReadTarget_canonical by blast
  have "t = t\<lparr>Addr := strip_zone (Addr t)\<rparr>" using a ReadTarget_AppendTarget [OF b(1), of r'] b(2) by simp
  then have "Addr t = strip_zone (Addr t)" by (cases t) simp
  then show "strip_zone (Addr t) = Addr t \<and> (\<exists>bs. AppendTarget [] t = Inr bs \<and> r = prepend bs r')"
    using b by auto
next
  assume "strip_zone (Addr t) = Addr t \<and> (\<exists>bs. AppendTarget [] t = Inr bs \<and> r = prepend bs r')"
  then show "ReadTarget r = Inr (t, r')" using ReadTarget_AppendTarget [of t _ r'] by (cases t) auto
qed

lemma AppendTarget_total:
  "case Target_validate t of
     Some e \<Rightarrow> AppendTarget [] t = Inl e
   | None \<Rightarrow> \<exists>bs. AppendTarget [] t = Inr bs \<and> AppendTarget [] (t\<lparr>Addr := strip_zone (Addr t)\<rparr>) = Inr bs"
proof (cases "Target_validate t")
  case (Some e)
  then show ?thesis by (simp add: AppendTarget_def)
next
  case None
  then obtain bs where b: "AppendTarget [] t = Inr bs" by (simp add: AppendTarget_def Let_def)
  let ?r = "closed_stream []"
  obtain bs' where "AppendTarget [] (t\<lparr>Addr := strip_zone (Addr t)\<rparr>) = Inr bs'" "prepend bs ?r = prepend bs' ?r"
    using ReadTarget_canonical [OF ReadTarget_AppendTarget [OF b, of ?r]] by blast
  then show ?thesis using None b by (simp add: prepend_def closed_stream_def)
qed

end
