(* ===== verification/Sha256.thy ===== *)
theory Sha256
  imports Nowhere_Prelude
begin

section \<open>SHA-256 and HMAC of the Go standard library\<close>

text \<open>
  \<^verbatim>\<open>crypto/sha256\<close> and \<^verbatim>\<open>crypto/hmac\<close> (FIPS 180-4, RFC 2104) as functions on byte
  lists, so that everything derived from them is an executable definition. The proofs use
  only that the results have 32 bytes: no property of the development rests on a
  cryptographic assumption.
\<close>

text \<open>The round constants, in decimal.\<close>

definition sha256_K :: "u32 list" where
  "sha256_K =
    [1116352408, 1899447441, 3049323471, 3921009573, 961987163, 1508970993, 2453635748,
     2870763221, 3624381080, 310598401, 607225278, 1426881987, 1925078388, 2162078206,
     2614888103, 3248222580, 3835390401, 4022224774, 264347078, 604807628, 770255983,
     1249150122, 1555081692, 1996064986, 2554220882, 2821834349, 2952996808, 3210313671,
     3336571891, 3584528711, 113926993, 338241895, 666307205, 773529912, 1294757372,
     1396182291, 1695183700, 1986661051, 2177026350, 2456956037, 2730485921, 2820302411,
     3259730800, 3345764771, 3516065817, 3600352804, 4094571909, 275423344, 430227734,
     506948616, 659060556, 883997877, 958139571, 1322822218, 1537002063, 1747873779,
     1955562222, 2024104815, 2227730452, 2361852424, 2428436474, 2756734187, 3204031479,
     3329325298]"

record sha_state =
  sh_a :: u32
  sh_b :: u32
  sh_c :: u32
  sh_d :: u32
  sh_e :: u32
  sh_f :: u32
  sh_g :: u32
  sh_h :: u32

definition sha256_init :: sha_state where
  "sha256_init =
     \<lparr>sh_a = 1779033703, sh_b = 3144134277, sh_c = 1013904242, sh_d = 2773480762,
      sh_e = 1359893119, sh_f = 2600822924, sh_g = 528734635, sh_h = 1541459225\<rparr>"

definition sha256_pad :: "byte list \<Rightarrow> byte list" where
  "sha256_pad m =
     m @ [0x80] @ replicate ((119 - length m mod 64) mod 64) 0 @ PutUint64 (word_of_nat (8 * length m))"

fun sha256_schedule :: "nat \<Rightarrow> u32 list \<Rightarrow> u32 list" where
  "sha256_schedule 0 w = w"
| "sha256_schedule (Suc n) w =
     (let t = length w;
          v1 = w ! (t - 2);
          s1 = word_rotr 17 v1 XOR word_rotr 19 v1 XOR drop_bit 10 v1;
          v2 = w ! (t - 15);
          s0 = word_rotr 7 v2 XOR word_rotr 18 v2 XOR drop_bit 3 v2
      in sha256_schedule n (w @ [s1 + w ! (t - 7) + s0 + w ! (t - 16)]))"

definition sha256_round :: "sha_state \<Rightarrow> u32 \<times> u32 \<Rightarrow> sha_state" where
  "sha256_round s kw =
     (let a = sh_a s; b = sh_b s; c = sh_c s; e = sh_e s;
          t1 = sh_h s + (word_rotr 6 e XOR word_rotr 11 e XOR word_rotr 25 e) +
               ((e AND sh_f s) XOR (NOT e AND sh_g s)) + fst kw + snd kw;
          t2 = (word_rotr 2 a XOR word_rotr 13 a XOR word_rotr 22 a) +
               ((a AND b) XOR (a AND c) XOR (b AND c))
      in \<lparr>sh_a = t1 + t2, sh_b = a, sh_c = b, sh_d = c, sh_e = sh_d s + t1,
          sh_f = e, sh_g = sh_f s, sh_h = sh_g s\<rparr>)"

fun words_be :: "byte list \<Rightarrow> u32 list" where
  "words_be (a # b # c # d # rest) = Uint32 [a, b, c, d] # words_be rest"
| "words_be _ = []"

definition sha256_block :: "sha_state \<Rightarrow> byte list \<Rightarrow> sha_state" where
  "sha256_block s blk =
     (let w = sha256_schedule 48 (words_be blk);
          r = foldl sha256_round s (zip sha256_K w)
      in \<lparr>sh_a = sh_a s + sh_a r, sh_b = sh_b s + sh_b r, sh_c = sh_c s + sh_c r, sh_d = sh_d s + sh_d r,
          sh_e = sh_e s + sh_e r, sh_f = sh_f s + sh_f r, sh_g = sh_g s + sh_g r, sh_h = sh_h s + sh_h r\<rparr>)"

function sha256_blocks :: "sha_state \<Rightarrow> byte list \<Rightarrow> sha_state" where
  "sha256_blocks s m =
     (if m = [] then s else sha256_blocks (sha256_block s (take 64 m)) (drop 64 m))"
  by auto
termination by (relation "measure (\<lambda>(s, m). length m)") auto

declare sha256_blocks.simps [simp del]

definition Sum256 :: "byte list \<Rightarrow> byte list" where
  "Sum256 m =
     (let s = sha256_blocks sha256_init (sha256_pad m)
      in PutUint32 (sh_a s) @ PutUint32 (sh_b s) @ PutUint32 (sh_c s) @ PutUint32 (sh_d s) @
         PutUint32 (sh_e s) @ PutUint32 (sh_f s) @ PutUint32 (sh_g s) @ PutUint32 (sh_h s))"

definition hmac_Sum :: "byte list \<Rightarrow> byte list \<Rightarrow> byte list" where
  "hmac_Sum key m =
     (let k = (if length key > 64 then Sum256 key else key);
          k = k @ replicate (64 - length k) 0
      in Sum256 (map (\<lambda>b. b XOR 0x5c) k @ Sum256 (map (\<lambda>b. b XOR 0x36) k @ m)))"

lemma length_Sum256 [simp]: "length (Sum256 m) = 32"
  by (simp add: Sum256_def Let_def)

lemma length_hmac_Sum [simp]: "length (hmac_Sum key m) = 32"
  by (simp add: hmac_Sum_def Let_def)

text \<open>The bytes of a Go string literal.\<close>

definition bytes_of :: "string \<Rightarrow> byte list" where
  "bytes_of s = map (\<lambda>c. word_of_nat (of_char c)) s"

lemma length_bytes_of [simp]: "length (bytes_of s) = length s"
  by (simp add: bytes_of_def)

end
