(* ===== verification/Hkdf.thy ===== *)
theory Hkdf
  imports Sha256
begin

section \<open>internal/hkdf: HKDF-SHA256\<close>

text \<open>
  \<^verbatim>\<open>internal/hkdf/hkdf.go\<close>. The output slice of \<^verbatim>\<open>ExpandSHA256\<close> is its result, a list of
  the length the caller asked for; the counter is the byte the code keeps. The reference is
  the chain of blocks of RFC 5869.
\<close>

definition HashLen :: nat where "HashLen = 32"

definition ExtractSHA256 :: "byte list \<Rightarrow> byte list \<Rightarrow> byte list" where
  "ExtractSHA256 salt ikm =
     (let salt = (if length salt = 0 then replicate HashLen 0 else salt) in hmac_Sum salt ikm)"

function Expand_loop ::
  "byte list \<Rightarrow> byte list \<Rightarrow> byte list \<Rightarrow> byte \<Rightarrow> nat \<Rightarrow> nat \<Rightarrow> byte list" where
  "Expand_loop prk info prev counter i n =
     (if i < n
      then
        (let block = hmac_Sum prk (prev @ info @ [counter])
         in take (n - i) block @ Expand_loop prk info block (counter + 1) (i + HashLen) n)
      else [])"
  by auto
termination by (relation "measure (\<lambda>(prk, info, prev, counter, i, n). n - i)") (auto simp: HashLen_def)

declare Expand_loop.simps [simp del]

definition ExpandSHA256 :: "byte list \<Rightarrow> byte list \<Rightarrow> nat \<Rightarrow> byte list go" where
  "ExpandSHA256 prk info n =
     (if n = 0 then Ret []
      else if n > 255 * HashLen then Panic
      else Ret (Expand_loop prk info [] 1 0 n))"

subsection \<open>The blocks of RFC 5869\<close>

fun hkdf_T :: "byte list \<Rightarrow> byte list \<Rightarrow> nat \<Rightarrow> byte list" where
  "hkdf_T prk info 0 = []"
| "hkdf_T prk info (Suc i) = hmac_Sum prk (hkdf_T prk info i @ info @ [word_of_nat (Suc i)])"

definition hkdf_expand :: "byte list \<Rightarrow> byte list \<Rightarrow> nat \<Rightarrow> byte list" where
  "hkdf_expand prk info n =
     take n (concat (map (hkdf_T prk info) [1..<Suc ((n + HashLen - 1) div HashLen)]))"

lemma length_hkdf_T [simp]: "length (hkdf_T prk info (Suc i)) = 32"
  by simp

lemma Expand_loop_blocks:
  "Expand_loop prk info (hkdf_T prk info k) (word_of_nat (Suc k)) (k * 32) (k * 32 + m) =
     take m (concat (map (hkdf_T prk info) [Suc k..<Suc (k + (m + 31) div 32)]))"
proof (induction m arbitrary: k rule: less_induct)
  case (less m)
  show ?case
  proof (cases "m = 0")
    case True
    then show ?thesis by (simp add: Expand_loop.simps)
  next
    case False
    let ?T = "hkdf_T prk info (Suc k)"
    have c: "(word_of_nat (Suc k) :: byte) + 1 = word_of_nat (Suc (Suc k))" by simp
    have l: "Expand_loop prk info (hkdf_T prk info k) (word_of_nat (Suc k)) (k * 32) (k * 32 + m) =
        take m ?T @ Expand_loop prk info ?T (word_of_nat (Suc (Suc k))) (Suc k * 32) (k * 32 + m)"
      using False by (subst Expand_loop.simps) (simp add: Let_def HashLen_def add.commute)
    have up: "[Suc k..<Suc (k + (m + 31) div 32)] = Suc k # [Suc (Suc k)..<Suc (k + (m + 31) div 32)]"
      using False by (subst upt_conv_Cons) auto
    show ?thesis
    proof (cases "m \<le> 32")
      case True
      with False have "(m + 31) div 32 = 1" by auto
      moreover have "Expand_loop prk info ?T c' (Suc k * 32) (k * 32 + m) = []" for c'
        using True by (subst Expand_loop.simps) simp
      ultimately show ?thesis using l True by simp
    next
      case False
      then have d: "k * 32 + m = Suc k * 32 + (m - 32)" "(m + 31) div 32 = Suc ((m - 32 + 31) div 32)"
        by auto
      have "Expand_loop prk info ?T (word_of_nat (Suc (Suc k))) (Suc k * 32) (k * 32 + m) =
          take (m - 32) (concat (map (hkdf_T prk info) [Suc (Suc k)..<Suc (k + (m + 31) div 32)]))"
        unfolding d using less.IH [of "m - 32" "Suc k"] False by simp
      with l False show ?thesis unfolding up by simp
    qed
  qed
qed

lemma ExpandSHA256_hkdf_expand:
  "ExpandSHA256 prk info n = (if n \<le> 8160 then Ret (hkdf_expand prk info n) else Panic)"
  using Expand_loop_blocks [of prk info 0 n]
  by (simp add: ExpandSHA256_def hkdf_expand_def HashLen_def add.commute)

text \<open>The one-block case: the shape the authentication keys are derived in.\<close>

lemma hkdf_expand_one_block: "hkdf_expand prk info 32 = hmac_Sum prk (info @ [1])"
  by (simp add: hkdf_expand_def HashLen_def)

end
