(* ===== verification/Wire3_Auth.thy ===== *)
theory Wire3_Auth
  imports Hkdf
begin

section \<open>nw3 wire: shared-key authentication\<close>

text \<open>
  \<^verbatim>\<open>wire/auth.go\<close>. Roles and transports are the bytes of the code; a credentials pointer
  that may be nil is an option.
\<close>

definition ExporterLen :: nat where "ExporterLen = 32"
definition AuthFrameLen :: nat where "AuthFrameLen = 16"
definition MaxSharedKeyLen :: nat where "MaxSharedKeyLen = 255"

definition AuthTLS :: byte where "AuthTLS = 1"
definition AuthQUIC :: byte where "AuthQUIC = 2"
definition RoleVector :: byte where "RoleVector = 1"
definition RoleEgress :: byte where "RoleEgress = 2"

record Credentials =
  cr_vector :: "byte list"
  cr_egress :: "byte list"

definition hmacSHA256 :: "byte list \<Rightarrow> byte list \<Rightarrow> byte list" where
  "hmacSHA256 key dat = take 32 (hmac_Sum key dat)"

definition deriveRole :: "byte list \<Rightarrow> string \<Rightarrow> byte list" where
  "deriveRole sharedKey info =
     (let salt = Sum256 (bytes_of ''nowhere/nw3/auth-root'');
          root = hmacSHA256 salt sharedKey;
          input = bytes_of info @ [0x01]
      in hmacSHA256 root input)"

definition NewCredentialsBytes :: "byte list \<Rightarrow> error + Credentials" where
  "NewCredentialsBytes sharedKey =
     (if length sharedKey = 0 then Inl (New ''nw3: missing shared key'')
      else if length sharedKey > MaxSharedKeyLen
      then Inl (New ''nw3: shared key exceeds 255 bytes'')
      else Inr \<lparr>cr_vector = deriveRole sharedKey ''vector-authentication'',
                cr_egress = deriveRole sharedKey ''egress-authentication''\<rparr>)"

definition NewCredentials :: "byte list \<Rightarrow> error + Credentials" where
  "NewCredentials sharedKey = NewCredentialsBytes sharedKey"

fun lowercaseHex :: "byte list \<Rightarrow> bool" where
  "lowercaseHex [] = True"
| "lowercaseHex (c # s) =
     (if (c < 48 \<or> c > 57) \<and> (c < 97 \<or> c > 102) then False else lowercaseHex s)"

definition ValidateServiceKey :: "byte list \<Rightarrow> error option" where
  "ValidateServiceKey key =
     (if length key \<noteq> 32 \<or> \<not> lowercaseHex key
      then Some (New ''nw3: shared key must be exactly 32 lowercase hexadecimal characters'')
      else None)"

definition RoleKey :: "Credentials option \<Rightarrow> byte \<Rightarrow> error + byte list" where
  "RoleKey c role =
     (case c of
        None \<Rightarrow> Inl (New ''nw3: missing credentials'')
      | Some c \<Rightarrow>
          if role = RoleVector then Inr (cr_vector c)
          else if role = RoleEgress then Inr (cr_egress c)
          else Inl (New ''nw3: invalid role''))"

definition AuthTransport_validate :: "byte \<Rightarrow> error option" where
  "AuthTransport_validate t =
     (if t = AuthTLS \<or> t = AuthQUIC then None else Some (New ''nw3: invalid auth transport''))"

definition EncodeAuthFrame :: "byte list \<Rightarrow> byte \<Rightarrow> byte list \<Rightarrow> error + byte list" where
  "EncodeAuthFrame key transport exporter =
     (case AuthTransport_validate transport of
        Some e \<Rightarrow> Inl e
      | None \<Rightarrow>
          (let input = transport # exporter;
               sum = hmacSHA256 key input
           in Inr (take AuthFrameLen sum)))"

text \<open>\<^verbatim>\<open>subtle.ConstantTimeCompare\<close> is 1 exactly on equal slices.\<close>

definition ValidateAuthFrame ::
  "byte list \<Rightarrow> Credentials option \<Rightarrow> byte \<Rightarrow> byte list \<Rightarrow> error + byte" where
  "ValidateAuthFrame frame creds transport exporter =
     (case creds of
        None \<Rightarrow> Inl (New ''nw3: missing credentials'')
      | Some c \<Rightarrow>
          (case AuthTransport_validate transport of
             Some e \<Rightarrow> Inl e
           | None \<Rightarrow>
               if length frame \<noteq> AuthFrameLen
               then Inl (New ''nw3: invalid authentication frame length'')
               else
                 (case EncodeAuthFrame (cr_vector c) transport exporter of
                    Inl e \<Rightarrow> Inl e
                  | Inr vector \<Rightarrow>
                      (case EncodeAuthFrame (cr_egress c) transport exporter of
                         Inl e \<Rightarrow> Inl e
                       | Inr egress \<Rightarrow>
                           (let isVector = (frame = vector);
                                isEgress = (frame = egress)
                            in if isVector \<and> \<not> isEgress then Inr RoleVector
                               else if \<not> isVector \<and> isEgress then Inr RoleEgress
                               else Inl (New ''nw3: invalid authentication tag or role''))))))"

definition ReadAuthFrame ::
  "reader \<Rightarrow> Credentials option \<Rightarrow> byte \<Rightarrow> byte list \<Rightarrow> error + byte \<times> reader" where
  "ReadAuthFrame r creds transport exporter =
     (case ReadFull AuthFrameLen r of
        Inl e \<Rightarrow> Inl e
      | Inr (frame, r) \<Rightarrow>
          (case ValidateAuthFrame frame creds transport exporter of
             Inl e \<Rightarrow> Inl e
           | Inr role \<Rightarrow> Inr (role, r)))"

definition WriteAuthFrame ::
  "writer \<Rightarrow> Credentials option \<Rightarrow> byte \<Rightarrow> byte \<Rightarrow> byte list \<Rightarrow> error option \<times> writer" where
  "WriteAuthFrame w creds role transport exporter =
     (case creds of
        None \<Rightarrow> (Some (New ''nw3: missing credentials''), w)
      | Some c \<Rightarrow>
          (let auth = (\<lambda>key.
                 case EncodeAuthFrame key transport exporter of
                   Inl e \<Rightarrow> (Some e, w)
                 | Inr frame \<Rightarrow> (let (n, err, w') = wr_Write frame w in (err, w')))
           in if role = RoleVector then auth (cr_vector c)
              else if role = RoleEgress then auth (cr_egress c)
              else (Some (New ''nw3: invalid role''), w)))"

subsection \<open>Key derivation is HKDF\<close>

lemma length_hmacSHA256 [simp]: "length (hmacSHA256 k m) = 32"
  by (simp add: hmacSHA256_def)

lemma hmacSHA256_hmac_Sum [simp]: "hmacSHA256 k m = hmac_Sum k m"
  by (simp add: hmacSHA256_def)

lemma deriveRole_HKDF:
  "ExpandSHA256 (ExtractSHA256 (Sum256 (bytes_of ''nowhere/nw3/auth-root'')) sharedKey)
     (bytes_of info) 32 = Ret (deriveRole sharedKey info)"
  by (simp add: ExpandSHA256_hkdf_expand hkdf_expand_one_block deriveRole_def ExtractSHA256_def
      flip: length_greater_0_conv)

subsection \<open>Tags\<close>

abbreviation auth_tag :: "byte list \<Rightarrow> byte \<Rightarrow> byte list \<Rightarrow> byte list" where
  "auth_tag key transport exporter \<equiv> take 16 (hmac_Sum key (transport # exporter))"

lemma EncodeAuthFrame_eq:
  "EncodeAuthFrame key t ex =
     (if t = AuthTLS \<or> t = AuthQUIC then Inr (auth_tag key t ex)
      else Inl (New ''nw3: invalid auth transport''))"
  by (simp add: EncodeAuthFrame_def AuthTransport_validate_def AuthFrameLen_def Let_def)

text \<open>A frame is accepted for a role exactly when it is that role's tag and not the other's.\<close>

lemma ValidateAuthFrame_role:
  "ValidateAuthFrame frame (Some c) t ex = Inr role \<longleftrightarrow>
     (t = AuthTLS \<or> t = AuthQUIC) \<and>
     auth_tag (cr_vector c) t ex \<noteq> auth_tag (cr_egress c) t ex \<and>
     (role = RoleVector \<and> frame = auth_tag (cr_vector c) t ex \<or>
      role = RoleEgress \<and> frame = auth_tag (cr_egress c) t ex)"
proof -
  define v e where ve: "v = auth_tag (cr_vector c) t ex" "e = auth_tag (cr_egress c) t ex"
  have l: "length v = 16" "length e = 16" by (simp_all add: ve)
  have "ValidateAuthFrame frame (Some c) t ex =
      (if t \<noteq> AuthTLS \<and> t \<noteq> AuthQUIC then Inl (New ''nw3: invalid auth transport'')
       else if length frame \<noteq> 16 then Inl (New ''nw3: invalid authentication frame length'')
       else if frame = v \<and> frame \<noteq> e then Inr RoleVector
       else if frame \<noteq> v \<and> frame = e then Inr RoleEgress
       else Inl (New ''nw3: invalid authentication tag or role''))"
    by (simp add: ValidateAuthFrame_def EncodeAuthFrame_eq AuthTransport_validate_def
        AuthFrameLen_def ve Let_def)
  then show ?thesis
    unfolding ve [symmetric] using l by (auto simp: RoleVector_def RoleEgress_def)
qed

lemma ValidateAuthFrame_tag:
  "t = AuthTLS \<or> t = AuthQUIC \<Longrightarrow> frame = auth_tag (cr_vector c) t ex \<or> frame = auth_tag (cr_egress c) t ex \<Longrightarrow>
   ValidateAuthFrame frame (Some c) t ex =
     (if auth_tag (cr_vector c) t ex = auth_tag (cr_egress c) t ex
      then Inl (New ''nw3: invalid authentication tag or role'')
      else if frame = auth_tag (cr_vector c) t ex then Inr RoleVector else Inr RoleEgress)"
proof -
  define v e where ve: "v = auth_tag (cr_vector c) t ex" "e = auth_tag (cr_egress c) t ex"
  have l: "length v = 16" "length e = 16" by (simp_all add: ve)
  assume t: "t = AuthTLS \<or> t = AuthQUIC"
    and "frame = auth_tag (cr_vector c) t ex \<or> frame = auth_tag (cr_egress c) t ex"
  then have f: "frame = v \<or> frame = e" by (simp only: ve)
  have "EncodeAuthFrame (cr_vector c) t ex = Inr v" "EncodeAuthFrame (cr_egress c) t ex = Inr e"
    using t by (simp_all add: EncodeAuthFrame_eq ve)
  with t f l show ?thesis
    unfolding ve [symmetric] ValidateAuthFrame_def
    by (auto simp: AuthTransport_validate_def AuthFrameLen_def Let_def)
qed

lemma WriteAuthFrame_eq:
  "wr_plan w = [] \<Longrightarrow> t = AuthTLS \<or> t = AuthQUIC \<Longrightarrow> RoleKey (Some c) role = Inr key \<Longrightarrow>
   WriteAuthFrame w (Some c) role t ex = (None, w\<lparr>wr_out := wr_out w @ auth_tag key t ex\<rparr>)"
  by (auto simp: WriteAuthFrame_def RoleKey_def EncodeAuthFrame_eq Let_def split: if_splits)

lemma ReadAuthFrame_tag:
  assumes "length tag = 16"
  shows "ReadAuthFrame (prepend tag r) creds t ex =
    (case ValidateAuthFrame tag creds t ex of Inl e \<Rightarrow> Inl e | Inr role \<Rightarrow> Inr (role, r))"
  using assms by (simp add: ReadAuthFrame_def AuthFrameLen_def)

lemma lowercaseHex_all: "lowercaseHex s \<longleftrightarrow> (\<forall>c \<in> set s. c \<in> {48..57} \<union> {97..102})"
  by (induction s) (auto simp: not_less)

end
