(* ===== verification/Morph_Packing.thy ===== *)
theory Morph_Packing
  imports Nowhere_Prelude
begin

section \<open>morph: packing a payload into low seven bits\<close>

text \<open>
  \<^verbatim>\<open>writePayload\<close> and \<^verbatim>\<open>readPayload\<close> of \<^verbatim>\<open>morph/prelude.go\<close>: 28 payload bytes travel in the
  low seven bits of the last 32 prelude bytes. Both loops keep a 16-bit accumulator whose
  upper bits are stale; the proofs read it modulo the number of valid bits. Both sides are
  shown to keep the value of the bit string, so that they are inverse.
\<close>

definition preludeLen :: nat where "preludeLen = 64"
definition payloadLen :: nat where "payloadLen = 28"

function writePayload_inner ::
  "u16 \<Rightarrow> nat \<Rightarrow> nat \<Rightarrow> byte list \<Rightarrow> nat \<times> nat \<times> byte list" where
  "writePayload_inner acc bits index prelude =
     (if bits \<ge> 7
      then
        (let bits = bits - 7
         in writePayload_inner acc bits (index + 1)
              (prelude[32 + index := (prelude ! (32 + index) AND 0x80) OR ucast (drop_bit bits acc AND 0x7f)]))
      else (bits, index, prelude))"
  by auto
termination by (relation "measure (\<lambda>(acc, bits, index, prelude). bits)") auto

declare writePayload_inner.simps [simp del]

fun writePayload_loop :: "u16 \<Rightarrow> nat \<Rightarrow> nat \<Rightarrow> byte list \<Rightarrow> byte list \<Rightarrow> byte list" where
  "writePayload_loop acc bits index prelude [] = prelude"
| "writePayload_loop acc bits index prelude (b # rest) =
     (let acc = push_bit 8 acc OR ucast b;
          (bits, index, prelude) = writePayload_inner acc (bits + 8) index prelude
      in writePayload_loop acc bits index prelude rest)"

definition writePayload :: "byte list \<Rightarrow> byte list \<Rightarrow> byte list" where
  "writePayload prelude payload = writePayload_loop 0 0 0 prelude payload"

fun readPayload_loop :: "u16 \<Rightarrow> nat \<Rightarrow> nat \<Rightarrow> byte list \<Rightarrow> byte list \<Rightarrow> byte list" where
  "readPayload_loop acc bits index payload [] = payload"
| "readPayload_loop acc bits index payload (b # rest) =
     (let acc = push_bit 7 acc OR ucast (b AND 0x7f);
          bits = bits + 7
      in if bits \<ge> 8
         then
           (let bits = bits - 8
            in readPayload_loop acc bits (index + 1) (payload[index := ucast (drop_bit bits acc)]) rest)
         else readPayload_loop acc bits index payload rest)"

definition readPayload :: "byte list \<Rightarrow> byte list" where
  "readPayload prelude = readPayload_loop 0 0 0 (replicate payloadLen 0) (drop 32 prelude)"

subsection \<open>The accumulator\<close>

lemma unat_shift_in:
  fixes acc :: u16
  assumes "unat x < 2 ^ n" "n < 16"
  shows "unat (push_bit n acc OR x) = (unat acc * 2 ^ n + unat x) mod 65536"
proof -
  have "\<not> bit (push_bit n acc) i \<or> \<not> bit x i" for i
  proof (cases "i < n")
    case False
    have "take_bit n (unat x) = unat x" using assms(1) by (simp add: take_bit_nat_eq_self_iff)
    then have "\<not> bit (unat x) i" using False by (metis bit_take_bit_iff)
    then show ?thesis by (simp add: bit_unsigned_iff)
  qed (simp add: bit_push_bit_iff)
  then have "push_bit n acc OR x = push_bit n acc + x" by (simp add: disjunctive_add)
  also have "\<dots> = word_of_nat (unat acc * 2 ^ n + unat x)" by (simp add: push_bit_eq_mult)
  finally have e: "push_bit n acc OR x = word_of_nat (unat acc * 2 ^ n + unat x)" .
  show ?thesis unfolding e unat_of_nat take_bit_eq_mod by simp
qed

lemma shift_in_valid:
  fixes acc :: u16
  assumes "unat x < 2 ^ n" "n < 16" "k + n \<le> 16"
  shows "unat (push_bit n acc OR x) mod 2 ^ (k + n) = (unat acc mod 2 ^ k) * 2 ^ n + unat x"
proof -
  have "(2 :: nat) ^ (k + n) dvd 2 ^ 16" using assms(3) by (rule le_imp_power_dvd)
  then have d: "(2 :: nat) ^ (k + n) dvd 65536" by simp
  have "unat (push_bit n acc OR x) mod 2 ^ (k + n) = (unat acc * 2 ^ n + unat x) mod 2 ^ (k + n)"
    using unat_shift_in [OF assms(1,2)] d by (simp add: mod_mod_cancel)
  also have "\<dots> = (2 ^ n * unat acc + unat x) mod (2 ^ n * 2 ^ k)"
    by (simp add: power_add mult.commute)
  also have "\<dots> = 2 ^ n * (unat acc mod 2 ^ k) + unat x"
    using assms(1) by (subst mod_mult2_eq) simp
  finally show ?thesis by (simp add: mult.commute)
qed

lemma unat_ucast_u16 [simp]: "unat (ucast (b :: byte) :: u16) = unat b"
  using unat_byte_lt [of b] by (simp add: unsigned_ucast_eq take_bit_eq_mod)

lemma and_7f: "(w :: 'a::len word) AND 0x7f = take_bit 7 w"
  by (simp add: take_bit_eq_mask mask_eq_exp_minus_1)

lemma unat_take_bit: "unat (take_bit n (w :: 'a::len word)) = unat w mod 2 ^ n"
  unfolding unsigned_take_bit_eq by (simp add: take_bit_eq_mod)

subsection \<open>The loops as lists of symbols\<close>

definition sym7 :: "u16 \<Rightarrow> nat \<Rightarrow> nat" where
  "sym7 acc bits = (unat acc div 2 ^ bits) mod 128"

fun pack :: "u16 \<Rightarrow> nat \<Rightarrow> byte list \<Rightarrow> nat list" where
  "pack acc bits [] = []"
| "pack acc bits (b # rest) =
     (let acc = push_bit 8 acc OR ucast b
      in if bits = 6 then sym7 acc 7 # sym7 acc 0 # pack acc 0 rest
         else sym7 acc (bits + 1) # pack acc (bits + 1) rest)"

fun unpack :: "u16 \<Rightarrow> nat \<Rightarrow> nat list \<Rightarrow> nat list" where
  "unpack acc bits [] = []"
| "unpack acc bits (s # rest) =
     (let acc = push_bit 7 acc OR word_of_nat s
      in if bits \<ge> 1 then (unat acc div 2 ^ (bits - 1)) mod 256 # unpack acc (bits - 1) rest
         else unpack acc 7 rest)"

definition digits :: "nat \<Rightarrow> nat \<Rightarrow> nat list \<Rightarrow> nat" where
  "digits B a ds = foldl (\<lambda>a d. a * B + d) a ds"

lemma digits_simps [simp]: "digits B a [] = a" "digits B a (d # ds) = digits B (a * B + d) ds"
  by (simp_all add: digits_def)

lemma be_nat_digits: "be_nat bs = digits 256 0 (map unat bs)"
  by (simp add: be_nat_def digits_def foldl_map)

lemma split_top: "(x :: nat) mod 2 ^ (k + j) = (x div 2 ^ k) mod 2 ^ j * 2 ^ k + x mod 2 ^ k"
  unfolding power_add mod_mult2_eq [of x] by (simp add: mult.commute)

lemma pack_value:
  assumes "bits < 7" "(bits + 8 * length bs) mod 7 = 0"
  shows "digits 128 S (pack acc bits bs) = digits 256 (S * 2 ^ bits + unat acc mod 2 ^ bits) (map unat bs)"
  using assms
proof (induction bs arbitrary: S acc bits)
  case Nil
  then show ?case by simp
next
  case (Cons b bs)
  let ?a = "push_bit 8 acc OR ucast b :: u16" and ?V = "S * 2 ^ bits + unat acc mod 2 ^ bits"
  have V: "unat ?a mod 2 ^ (bits + 8) = unat acc mod 2 ^ bits * 256 + unat b"
    using shift_in_valid [of "ucast b :: u16" 8 bits acc] Cons.prems(1) unat_byte_lt [of b] by simp
  show ?case
  proof (cases "bits = 6")
    case True
    have "unat ?a mod 2 ^ 14 = sym7 ?a 7 * 128 + sym7 ?a 0"
      using split_top [of "unat ?a" 7 7] by (simp add: sym7_def)
    with V True have "(S * 128 + sym7 ?a 7) * 128 + sym7 ?a 0 = ?V * 256 + unat b" by simp
    moreover have "(0 + 8 * length bs) mod 7 = 0" using Cons.prems(2) True by (simp add: mod_simps) presburger
    moreover have "digits 128 S (pack acc bits (b # bs)) =
        digits 128 ((S * 128 + sym7 ?a 7) * 128 + sym7 ?a 0) (pack ?a 0 bs)"
      using True by (simp add: Let_def)
    ultimately show ?thesis
      using Cons.IH [of 0 "(S * 128 + sym7 ?a 7) * 128 + sym7 ?a 0" ?a] by simp
  next
    case False
    have "unat ?a mod 2 ^ (bits + 1 + 7) = sym7 ?a (bits + 1) * 2 ^ (bits + 1) + unat ?a mod 2 ^ (bits + 1)"
      by (subst split_top) (simp add: sym7_def)
    with V have e: "(S * 128 + sym7 ?a (bits + 1)) * 2 ^ (bits + 1) + unat ?a mod 2 ^ (bits + 1) =
        ?V * 256 + unat b"
      by (simp add: algebra_simps power_add)
    have "(bits + 1 + 8 * length bs) mod 7 = 0" using Cons.prems(2) by (simp add: mod_simps) presburger
    with Cons.IH [of "bits + 1" "S * 128 + sym7 ?a (bits + 1)" ?a] e False Cons.prems(1)
    show ?thesis by (simp add: Let_def)
  qed
qed

lemma unpack_value:
  assumes "bits < 8" "(bits + 7 * length ss) mod 8 = 0" "\<forall>s \<in> set ss. s < 128"
  shows "digits 256 R (unpack acc bits ss) = digits 128 (R * 2 ^ bits + unat acc mod 2 ^ bits) ss"
  using assms
proof (induction ss arbitrary: R acc bits)
  case Nil
  then show ?case by simp
next
  case (Cons s ss)
  let ?a = "push_bit 7 acc OR word_of_nat s :: u16" and ?V = "R * 2 ^ bits + unat acc mod 2 ^ bits"
  have s: "unat (word_of_nat s :: u16) = s"
    using Cons.prems(3) by (simp add: unat_of_nat take_bit_eq_mod)
  have V: "unat ?a mod 2 ^ (bits + 7) = unat acc mod 2 ^ bits * 128 + s"
    using shift_in_valid [of "word_of_nat s :: u16" 7 bits acc] Cons.prems(1,3) s by simp
  show ?case
  proof (cases "bits \<ge> 1")
    case True
    then obtain k where k: "bits = Suc k" by (cases bits) auto
    let ?d = "(unat ?a div 2 ^ k) mod 256"
    have "unat ?a mod 2 ^ (k + 8) = ?d * 2 ^ k + unat ?a mod 2 ^ k" by (subst split_top) simp
    with V k have e: "(R * 256 + ?d) * 2 ^ k + unat ?a mod 2 ^ k = ?V * 128 + s"
      by (simp add: algebra_simps power_add)
    have "(k + 7 * length ss) mod 8 = 0" using Cons.prems(2) k by simp
    with Cons.IH [of k "R * 256 + ?d" ?a] e k Cons.prems(1,3) show ?thesis by (simp add: Let_def)
  next
    case False
    then have "bits = 0" by simp
    moreover have "(7 + 7 * length ss) mod 8 = 0" using Cons.prems(2) \<open>bits = 0\<close> by simp
    ultimately show ?thesis
      using Cons.IH [of 7 R ?a] V Cons.prems(3) by (simp add: Let_def)
  qed
qed

lemma length_pack: "bits < 7 \<Longrightarrow> length (pack acc bits bs) = (bits + 8 * length bs) div 7"
  by (induction acc bits bs rule: pack.induct) (auto simp: Let_def)

lemma pack_small: "\<forall>s \<in> set (pack acc bits bs). s < 128"
  by (induction acc bits bs rule: pack.induct) (auto simp: Let_def sym7_def)

lemma length_unpack: "bits < 8 \<Longrightarrow> length (unpack acc bits ss) = (bits + 7 * length ss) div 8"
  by (induction acc bits ss rule: unpack.induct) (auto simp: Let_def)

subsection \<open>The loops store and collect those symbols\<close>

fun store7 :: "byte list \<Rightarrow> nat \<Rightarrow> nat list \<Rightarrow> byte list" where
  "store7 p i [] = p"
| "store7 p i (s # ss) = store7 (p[32 + i := (p ! (32 + i) AND 0x80) OR word_of_nat s]) (i + 1) ss"

fun overlay :: "byte list \<Rightarrow> nat \<Rightarrow> nat list \<Rightarrow> byte list" where
  "overlay p i [] = p"
| "overlay p i (d # ds) = overlay (p[i := word_of_nat d]) (i + 1) ds"

lemma unat_drop_bit: "unat (drop_bit k (w :: 'a::len word)) = unat w div 2 ^ k"
  unfolding unat_drop_bit_eq by (rule drop_bit_eq_div)

lemma ucast_word_of_nat: "(ucast (w :: 'a::len word) :: 'b::len word) = word_of_nat (unat w)"
  by (simp add: word_unat_eq_iff unsigned_ucast_eq unat_of_nat)

lemma sym7_word: "ucast (drop_bit k acc AND 0x7f) = (word_of_nat (sym7 acc k) :: byte)"
  unfolding ucast_word_of_nat and_7f unat_take_bit unat_drop_bit by (simp add: sym7_def)

lemma writePayload_inner_short:
  "bits < 6 \<Longrightarrow> writePayload_inner a (bits + 8) i p =
     (bits + 1, i + 1, p[32 + i := (p ! (32 + i) AND 0x80) OR word_of_nat (sym7 a (bits + 1))])"
  by (subst writePayload_inner.simps, subst writePayload_inner.simps) (simp add: Let_def flip: sym7_word)

lemma writePayload_inner_long:
  "writePayload_inner a 14 i p =
     (0, i + 2, let p = p[32 + i := (p ! (32 + i) AND 0x80) OR word_of_nat (sym7 a 7)]
                in p[33 + i := (p ! (33 + i) AND 0x80) OR word_of_nat (sym7 a 0)])"
  by (subst writePayload_inner.simps, subst writePayload_inner.simps, subst writePayload_inner.simps)
    (simp add: Let_def flip: sym7_word)

lemma writePayload_loop_store:
  "bits < 7 \<Longrightarrow> writePayload_loop acc bits i p bs = store7 p i (pack acc bits bs)"
proof (induction bs arbitrary: acc bits i p)
  case (Cons b bs)
  define a where "a = (push_bit 8 acc OR ucast b :: u16)"
  show ?case
  proof (cases "bits = 6")
    case True
    then show ?thesis
      using Cons.IH [of 0 a] writePayload_inner_long [of a]
      by (simp add: Let_def flip: a_def)
  next
    case False
    then show ?thesis
      using Cons writePayload_inner_short [of bits a] by (simp add: Let_def flip: a_def)
  qed
qed simp

lemma readPayload_loop_overlay:
  "bits < 8 \<Longrightarrow>
   readPayload_loop acc bits i p bs = overlay p i (unpack acc bits (map (\<lambda>b. unat b mod 128) bs))"
proof (induction bs arbitrary: acc bits i p)
  case (Cons b bs)
  define a where "a = (push_bit 7 acc OR ucast (b AND 0x7f) :: u16)"
  have a': "push_bit 7 acc OR word_of_nat (unat b mod 128) = a"
    unfolding a_def ucast_word_of_nat and_7f unat_take_bit by simp
  have d: "(ucast (drop_bit k a) :: byte) = word_of_nat (unat a div 2 ^ k mod 256)" for k
    unfolding ucast_word_of_nat unat_drop_bit
    by (simp add: word_unat_eq_iff unat_of_nat take_bit_eq_mod)
  show ?case
    using Cons by (cases "bits = 0") (simp_all add: Let_def a' d flip: a_def)
qed simp

lemma length_store7 [simp]: "length (store7 p i ss) = length p"
  by (induction p i ss rule: store7.induct) auto

lemma overlay_append:
  "length ds + i \<le> length p \<Longrightarrow>
   overlay p i ds = take i p @ map word_of_nat ds @ drop (i + length ds) p"
proof (induction ds arbitrary: i p)
  case (Cons d ds)
  then have "overlay (p[i := word_of_nat d]) (i + 1) ds =
      take (i + 1) (p[i := word_of_nat d]) @ map word_of_nat ds @ drop (i + 1 + length ds) (p[i := word_of_nat d])"
    by (intro Cons.IH) simp
  moreover have "take (i + 1) (p[i := word_of_nat d]) = take i p @ [word_of_nat d]"
    using Cons.prems by (simp add: take_Suc_conv_app_nth)
  ultimately show ?case by simp
qed simp

lemma store7_nth:
  assumes "\<forall>s \<in> set ss. s < 128" "i + length ss + 32 \<le> length p" "j < length p"
  shows "store7 p i ss ! j =
    (if 32 + i \<le> j \<and> j < 32 + i + length ss
     then (p ! j AND 0x80) OR word_of_nat (ss ! (j - (32 + i))) else p ! j)"
  using assms
proof (induction ss arbitrary: i p)
  case (Cons s ss)
  let ?p = "p[32 + i := (p ! (32 + i) AND 0x80) OR word_of_nat s]"
  have "store7 ?p (i + 1) ss ! j =
      (if 32 + (i + 1) \<le> j \<and> j < 32 + (i + 1) + length ss
       then (?p ! j AND 0x80) OR word_of_nat (ss ! (j - (32 + (i + 1)))) else ?p ! j)"
    using Cons.prems by (intro Cons.IH) auto
  then show ?case using Cons.prems by (auto simp: nth_list_update nth_Cons' Suc_diff_Suc)
qed auto

subsection \<open>The round trip\<close>

lemma low7_or:
  "s < 128 \<Longrightarrow> unat ((b AND 0x80) OR (word_of_nat s :: byte)) mod 128 = s"
  "s < 128 \<Longrightarrow> ((b AND 0x80) OR (word_of_nat s :: byte)) AND 0x80 = b AND 0x80"
proof -
  assume s: "s < 128"
  let ?s = "word_of_nat s :: byte"
  have u: "unat ?s = s" using s by simp
  have t: "take_bit 7 ?s = ?s" unfolding word_unat_eq_iff unat_take_bit using u s by simp
  have "take_bit 7 ((b AND 0x80) OR ?s) = ?s"
    by (simp only: take_bit_or take_bit_and t) (simp add: take_bit_eq_mod)
  then have "unat ((b AND 0x80) OR ?s) mod 2 ^ 7 = s" unfolding unat_take_bit [symmetric] using u by simp
  then show "unat ((b AND 0x80) OR ?s) mod 128 = s" by simp
  have "\<not> bit ?s 7" using bit_take_bit_iff [of 7 ?s 7] by (simp only: t) simp
  then have "?s AND 2 ^ 7 = 0" by (simp only: and_exp_eq_0_iff_not_bit) simp
  then have "?s AND 0x80 = 0" by simp
  then show "((b AND 0x80) OR ?s) AND 0x80 = b AND 0x80"
    by (simp add: and.assoc bit.conj_disj_distrib2)
qed

lemma writePayload_store: "writePayload prelude payload = store7 prelude 0 (pack 0 0 payload)"
  by (simp add: writePayload_def writePayload_loop_store)

lemma length_writePayload [simp]: "length (writePayload prelude payload) = length prelude"
  by (simp add: writePayload_store)

lemma writePayload_preserves:
  assumes "length prelude = 64" "length payload = 28"
  shows "take 32 (writePayload prelude payload) = take 32 prelude"
    and "map (\<lambda>b. b AND 0x80) (writePayload prelude payload) = map (\<lambda>b. b AND 0x80) prelude"
    and "map (\<lambda>b. unat b mod 128) (drop 32 (writePayload prelude payload)) = pack 0 0 payload"
proof -
  let ?ss = "pack 0 0 payload"
  have l: "length ?ss = 32" using assms(2) by (simp add: length_pack)
  have nth: "writePayload prelude payload ! j =
      (if 32 \<le> j then (prelude ! j AND 0x80) OR word_of_nat (?ss ! (j - 32)) else prelude ! j)"
    if "j < 64" for j
    unfolding writePayload_store
    using store7_nth [of ?ss 0 prelude j] pack_small [of 0 0 payload] l assms(1) that by simp
  have small: "?ss ! j < 128" if "j < 32" for j
    using pack_small [of 0 0 payload] l that by (simp add: nth_mem)
  show "take 32 (writePayload prelude payload) = take 32 prelude"
    using assms(1) nth by (intro nth_equalityI) auto
  show "map (\<lambda>b. b AND 0x80) (writePayload prelude payload) = map (\<lambda>b. b AND 0x80) prelude"
    using assms(1) nth low7_or(2) [OF small] by (intro nth_equalityI) auto
  show "map (\<lambda>b. unat b mod 128) (drop 32 (writePayload prelude payload)) = ?ss"
    using assms(1) l nth low7_or(1) [OF small] by (intro nth_equalityI) auto
qed

lemma unpack_pack:
  assumes "length payload = 28"
  shows "map word_of_nat (unpack 0 0 (pack 0 0 payload)) = payload"
proof -
  let ?ds = "unpack 0 0 (pack 0 0 payload)"
  have l: "length (pack 0 0 payload) = 32" using assms by (simp add: length_pack)
  then have n: "length ?ds = 28" by (simp add: length_unpack)
  have "digits 256 0 ?ds = digits 128 0 (pack 0 0 payload)"
    using unpack_value [of 0 "pack 0 0 payload" 0 0] pack_small [of 0 0 payload] l by simp
  also have "\<dots> = be_nat payload"
    using pack_value [of 0 payload 0 0] assms by (simp add: be_nat_digits)
  finally have v: "digits 256 0 ?ds = be_nat payload" .
  have "\<forall>d \<in> set (unpack acc bits ss). d < 256" for acc bits ss
    by (induction acc bits ss rule: unpack.induct) (auto simp: Let_def)
  then have "map unat (map word_of_nat ?ds :: byte list) = ?ds"
    by (simp add: map_idI comp_def)
  then have "be_nat (map word_of_nat ?ds) = be_nat payload" using v by (simp only: be_nat_digits)
  then show ?thesis using n assms nat_be_inj [of _ 28] by (metis length_map)
qed

lemma readPayload_unpack:
  assumes "length prelude = 64"
  shows "readPayload prelude = map word_of_nat (unpack 0 0 (map (\<lambda>b. unat b mod 128) (drop 32 prelude)))"
proof -
  let ?ds = "unpack 0 0 (map (\<lambda>b. unat b mod 128) (drop 32 prelude))"
  have "length ?ds = 28" using assms by (simp add: length_unpack)
  then show ?thesis
    using overlay_append [of ?ds 0 "replicate 28 0"]
    by (simp add: readPayload_def readPayload_loop_overlay payloadLen_def)
qed

lemma readPayload_writePayload:
  "length prelude = 64 \<Longrightarrow> length payload = 28 \<Longrightarrow>
   readPayload (writePayload prelude payload) = payload"
  by (simp add: readPayload_unpack writePayload_preserves(3) unpack_pack)

text \<open>The other direction: a prelude is determined by its first half, its high bits and its payload.\<close>

lemma digits_inj:
  "length xs = length ys \<Longrightarrow> \<forall>d \<in> set xs. d < B \<Longrightarrow> \<forall>d \<in> set ys. d < B \<Longrightarrow>
   digits B 0 xs = digits B 0 ys \<Longrightarrow> xs = ys"
proof (induction xs arbitrary: ys rule: rev_induct)
  case (snoc x xs)
  then obtain y ys' where y: "ys = ys' @ [y]" by (cases ys rule: rev_cases) auto
  have e: "digits B 0 xs * B + x = digits B 0 ys' * B + y" "x < B" "y < B"
    using snoc.prems y by (auto simp: digits_def)
  have dm: "(a * B + z) mod B = z" "(a * B + z) div B = a" if "z < B" for a z using that by simp_all
  have "x = y" "digits B 0 xs = digits B 0 ys'"
    using dm [OF e(2), of "digits B 0 xs"] dm [OF e(3), of "digits B 0 ys'"] unfolding e(1) by auto
  then show ?case using snoc y by auto
qed simp

lemma pack_unpack:
  assumes "length ss = 32" "\<forall>s \<in> set ss. s < 128"
  shows "pack 0 0 (map word_of_nat (unpack 0 0 ss)) = ss"
proof -
  let ?bs = "map word_of_nat (unpack 0 0 ss) :: byte list"
  have n: "length ?bs = 28" using assms(1) by (simp add: length_unpack)
  have "\<forall>d \<in> set (unpack acc bits ss). d < 256" for acc bits ss
    by (induction acc bits ss rule: unpack.induct) (auto simp: Let_def)
  then have m: "map unat ?bs = unpack 0 0 ss" by (simp add: map_idI comp_def)
  have "digits 128 0 (pack 0 0 ?bs) = digits 256 0 (map unat ?bs)"
    using pack_value [of 0 ?bs 0 0] n by simp
  also have "\<dots> = digits 128 0 ss"
    using unpack_value [of 0 ss 0 0] assms by (simp only: m) simp
  finally show ?thesis
    using n assms pack_small by (intro digits_inj [of _ _ 128]) (auto simp: length_pack)
qed

lemma high_low7: "(b AND 0x80) OR word_of_nat (unat b mod 128) = (b :: byte)"
proof -
  have "word_of_nat (unat b mod 128) = b AND 0x7f"
    unfolding and_7f word_unat_eq_iff unat_take_bit by simp
  then have "(b AND 0x80) OR word_of_nat (unat b mod 128) = b AND (0x80 OR 0x7f)"
    by (simp only: bit.conj_disj_distrib)
  also have "(0x80 OR 0x7f :: byte) = - 1" by simp
  finally show ?thesis by simp
qed

lemma writePayload_readPayload:
  assumes "length prelude = 64"
  shows "writePayload prelude (readPayload prelude) = prelude"
proof -
  let ?ss = "map (\<lambda>b. unat b mod 128) (drop 32 prelude)"
  have "pack 0 0 (readPayload prelude) = ?ss"
    unfolding readPayload_unpack [OF assms] using assms by (intro pack_unpack) auto
  then have "writePayload prelude (readPayload prelude) = store7 prelude 0 ?ss"
    by (simp add: writePayload_store)
  also have "\<dots> = prelude"
    using assms store7_nth [of ?ss 0 prelude] by (intro nth_equalityI) (auto simp: high_low7)
  finally show ?thesis .
qed

lemma length_readPayload [simp]: "length prelude = 64 \<Longrightarrow> length (readPayload prelude) = 28"
  by (simp add: readPayload_unpack length_unpack)

end
