(* ===== verification/Morph_Replay.thy ===== *)
theory Morph_Replay
  imports Nowhere_Prelude
begin

section \<open>morph: the replay window\<close>

text \<open>
  \<^verbatim>\<open>morph/replay.go\<close>. A registry keeps up to 16384 identities in a ring in insertion order,
  and for each a window of the last 1024 counters as a bitmap of sixteen words. The abstract
  view of an entry is the set of counters it refuses, of the ring the list of its identities.
\<close>

definition maxCounter :: u64 where "maxCounter = 2 ^ 48 - 1"
definition replayCapacity :: nat where "replayCapacity = 16384"
definition replayWindow :: nat where "replayWindow = 1024"

record replayEntry =
  re_highest :: u64
  re_bitmap :: "u64 list"

record replayRegistry =
  rr_entries :: "(u64 \<times> replayEntry) list"
  rr_order :: "u64 list"
  rr_start :: nat
  rr_count :: nat

definition newReplayRegistry :: replayRegistry where
  "newReplayRegistry =
     \<lparr>rr_entries = [], rr_order = replicate replayCapacity 0, rr_start = 0, rr_count = 0\<rparr>"

definition counterValid :: "u64 \<Rightarrow> bool" where
  "counterValid counter \<longleftrightarrow> counter \<ge> 1 \<and> counter \<le> maxCounter"

text \<open>
  \<open>distance\<close> is a difference of 64-bit words; a distance of the window or more is refused
  before the bitmap is read.
\<close>

definition entry_accepts :: "replayEntry \<Rightarrow> u64 \<Rightarrow> bool" where
  "entry_accepts e counter =
     (if counter > re_highest e then True
      else
        (let distance = unat (re_highest e - counter)
         in distance < replayWindow \<and>
            re_bitmap e ! (distance div 64) AND push_bit (distance mod 64) 1 = 0))"

text \<open>The new word at \<open>index\<close> when the window moves by \<open>words\<close> words and \<open>bits\<close> bits.\<close>

definition shift_word :: "u64 list \<Rightarrow> nat \<Rightarrow> nat \<Rightarrow> nat \<Rightarrow> u64" where
  "shift_word bm words bits index =
     (if index \<ge> words
      then
        (let v = push_bit bits (bm ! (index - words))
         in if bits \<noteq> 0 \<and> index > words
            then v OR drop_bit (64 - bits) (bm ! (index - words - 1)) else v)
      else 0)"

text \<open>The loop runs from the top word down and stores in place.\<close>

definition shift_loop :: "u64 list \<Rightarrow> nat \<Rightarrow> nat \<Rightarrow> u64 list" where
  "shift_loop bm words bits =
     foldl (\<lambda>bm index. bm[index := shift_word bm words bits index]) bm (rev [0..<length bm])"

definition entry_mark :: "replayEntry \<Rightarrow> u64 \<Rightarrow> replayEntry" where
  "entry_mark e counter =
     (let e = (if counter > re_highest e
               then
                 (let distance = unat (counter - re_highest e);
                      bm = (if distance \<ge> replayWindow then map (\<lambda>_. 0) (re_bitmap e)
                            else shift_loop (re_bitmap e) (distance div 64) (distance mod 64))
                  in \<lparr>re_highest = counter, re_bitmap = bm\<rparr>)
               else e);
          distance = unat (re_highest e - counter);
          i = distance div 64
      in e\<lparr>re_bitmap := (re_bitmap e)[i := re_bitmap e ! i OR push_bit (distance mod 64) 1]\<rparr>)"

definition registry_precheck :: "replayRegistry \<Rightarrow> u64 \<Rightarrow> u64 \<Rightarrow> bool" where
  "registry_precheck r identity counter =
     (if \<not> counterValid counter then False
      else (case map_of (rr_entries r) identity of
              None \<Rightarrow> True
            | Some entry \<Rightarrow> entry_accepts entry counter))"

definition registry_evict :: "replayRegistry \<Rightarrow> replayRegistry" where
  "registry_evict r =
     (if rr_count r = replayCapacity
      then r\<lparr>rr_entries := AList.delete (rr_order r ! rr_start r) (rr_entries r),
             rr_start := (rr_start r + 1) mod replayCapacity, rr_count := rr_count r - 1\<rparr>
      else r)"

definition registry_commit :: "replayRegistry \<Rightarrow> u64 \<Rightarrow> u64 \<Rightarrow> replayRegistry \<times> bool" where
  "registry_commit r identity counter =
     (if \<not> counterValid counter then (r, False)
      else (case map_of (rr_entries r) identity of
              Some entry \<Rightarrow>
                if \<not> entry_accepts entry counter then (r, False)
                else (r\<lparr>rr_entries := AList.update identity (entry_mark entry counter) (rr_entries r)\<rparr>, True)
            | None \<Rightarrow>
                (let r = registry_evict r;
                     entry = \<lparr>re_highest = counter, re_bitmap = (replicate (replayWindow div 64) 0)[0 := 1]\<rparr>
                 in (r\<lparr>rr_entries := AList.update identity entry (rr_entries r),
                       rr_order := (rr_order r)[(rr_start r + rr_count r) mod replayCapacity := identity],
                       rr_count := rr_count r + 1\<rparr>, True))))"

subsection \<open>The bitmap as a window of bits\<close>

definition win_bit :: "u64 list \<Rightarrow> nat \<Rightarrow> bool" where
  "win_bit bm i = bit (bm ! (i div 64)) (i mod 64)"

lemma shift_word_cong:
  "(\<And>j. j \<le> index \<Longrightarrow> bm ! j = bm' ! j) \<Longrightarrow> shift_word bm w b index = shift_word bm' w b index"
  by (simp add: shift_word_def Let_def)

lemma shift_loop_prefix:
  "n \<le> length bm \<Longrightarrow> j < length bm \<Longrightarrow>
   foldl (\<lambda>bm index. bm[index := shift_word bm w b index]) bm (rev [0..<n]) ! j =
     (if j < n then shift_word bm w b j else bm ! j)"
proof (induction n arbitrary: bm)
  case (Suc n)
  let ?bm = "bm[n := shift_word bm w b n]"
  have "shift_word ?bm w b j = shift_word bm w b j" if "j < n"
    using that by (intro shift_word_cong) auto
  moreover have "foldl (\<lambda>bm index. bm[index := shift_word bm w b index]) ?bm (rev [0..<n]) ! j =
      (if j < n then shift_word ?bm w b j else ?bm ! j)"
    using Suc.prems by (intro Suc.IH) auto
  ultimately show ?case using Suc.prems by (auto simp: nth_list_update less_Suc_eq)
qed simp

lemma length_shift_loop [simp]: "length (shift_loop bm w b) = length bm"
proof -
  have "length (foldl (\<lambda>bm index. bm[index := shift_word bm w b index]) bm xs) = length bm" for xs
    by (induction xs arbitrary: bm) auto
  then show ?thesis by (simp add: shift_loop_def)
qed

lemma shift_loop_nth: "j < length bm \<Longrightarrow> shift_loop bm w b ! j = shift_word bm w b j"
  unfolding shift_loop_def by (subst shift_loop_prefix) auto

lemma win_bit_shift:
  assumes "length bm = 16" "i < 1024"
  shows "win_bit (shift_loop bm (d div 64) (d mod 64)) i \<longleftrightarrow> d \<le> i \<and> win_bit bm (i - d)"
proof -
  define w b q r where wb: "w = d div 64" "b = d mod 64" "q = i div 64" "r = i mod 64"
  have b: "b < 64" "r < 64" and d: "d = 64 * w + b" "i = 64 * q + r" by (simp_all add: wb)
  have q: "q < 16" using assms(2) by (simp add: wb)
  have lhs: "win_bit (shift_loop bm w b) i = bit (shift_word bm w b q) r"
    using assms q by (simp add: win_bit_def shift_loop_nth flip: wb(3,4))
  consider (below) "q < w" | (here) "w \<le> q" "b \<le> r" | (borrow) "w < q" "r < b" | (edge) "q = w" "r < b"
    by linarith
  then show ?thesis
  proof cases
    case below
    then have "\<not> d \<le> i" using b d by linarith
    with below lhs show ?thesis by (simp add: shift_word_def flip: wb(1,2))
  next
    case here
    then have e: "i - d = 64 * (q - w) + (r - b)" using d by (simp add: algebra_simps)
    have "(i - d) div 64 = q - w" "(i - d) mod 64 = r - b" unfolding e using b by simp_all
    moreover have "\<not> bit (drop_bit (64 - b) v) r" for v :: u64
      using here(2) b bit_imp_le_length [of v "64 + r - b"] by (auto simp: bit_drop_bit_eq)
    moreover have "d \<le> i" using here d by (simp add: add_mono)
    ultimately show ?thesis
      using here lhs b
      by (simp add: shift_word_def win_bit_def Let_def bit_or_iff bit_push_bit_iff flip: wb(1,2))
  next
    case borrow
    define m where "m = 64 + r - b"
    obtain k where k: "q = Suc (w + k)" using borrow(1) less_imp_Suc_add by blast
    have e: "i - d = 64 * k + m" "m < 64" using d b borrow by (simp_all add: k m_def)
    then have "(i - d) div 64 = q - w - 1" "(i - d) mod 64 = 64 + r - b"
      unfolding m_def [symmetric] by (simp_all add: k)
    moreover have "d \<le> i" using borrow d b by linarith
    ultimately show ?thesis
      using borrow lhs b
      by (simp add: shift_word_def win_bit_def Let_def bit_or_iff bit_push_bit_iff bit_drop_bit_eq
          add.commute flip: wb(1,2))
  next
    case edge
    then have "\<not> d \<le> i" using d by linarith
    with edge lhs show ?thesis
      by (simp add: shift_word_def bit_push_bit_iff flip: wb(1,2))
  qed
qed

subsection \<open>An entry refines the set of counters it refuses\<close>

definition spent :: "replayEntry \<Rightarrow> nat set" where
  "spent e = {c. c \<le> unat (re_highest e) \<and>
     (1024 \<le> unat (re_highest e) - c \<or> win_bit (re_bitmap e) (unat (re_highest e) - c))}"

definition entry_inv :: "replayEntry \<Rightarrow> bool" where
  "entry_inv e \<longleftrightarrow> length (re_bitmap e) = 16"

lemma entry_accepts_spent: "entry_accepts e c \<longleftrightarrow> unat c \<notin> spent e"
proof (cases "c > re_highest e")
  case True
  then show ?thesis by (simp add: entry_accepts_def spent_def word_less_nat_alt)
next
  case False
  then have "unat (re_highest e - c) = unat (re_highest e) - unat c" "unat c \<le> unat (re_highest e)"
    by (simp_all add: unat_sub not_less word_le_nat_alt)
  with False show ?thesis
    by (auto simp: entry_accepts_def spent_def replayWindow_def Let_def and_exp_eq_0_iff_not_bit win_bit_def)
qed

lemma win_bit_set:
  assumes "length bm = 16" "d < 1024" "i < 1024"
  shows "win_bit (bm[d div 64 := bm ! (d div 64) OR push_bit (d mod 64) 1]) i \<longleftrightarrow> i = d \<or> win_bit bm i"
proof -
  have "i = d \<longleftrightarrow> i div 64 = d div 64 \<and> i mod 64 = d mod 64"
    by (metis div_mult_mod_eq)
  moreover have "d div 64 < 16" "i div 64 < 16" using assms by simp_all
  moreover have "bit (push_bit (d mod 64) 1 :: u64) (i mod 64) \<longleftrightarrow> i mod 64 = d mod 64"
    by (auto simp: push_bit_of_1 bit_exp_iff)
  ultimately show ?thesis
    using assms(1) by (auto simp: win_bit_def nth_list_update bit_or_iff)
qed

lemma win_bit_zero: "length bm = 16 \<Longrightarrow> i < 1024 \<Longrightarrow> \<not> win_bit (map (\<lambda>_. 0) bm) i"
  by (simp add: win_bit_def)

text \<open>The entry after the window has moved, before the counter itself is marked.\<close>

lemma entry_move:
  assumes "entry_inv e" "c > re_highest e"
  defines "d \<equiv> unat (c - re_highest e)"
  defines "bm \<equiv> (if d \<ge> replayWindow then map (\<lambda>_. 0) (re_bitmap e)
                 else shift_loop (re_bitmap e) (d div 64) (d mod 64))"
  shows "length bm = 16"
    and "spent \<lparr>re_highest = c, re_bitmap = bm\<rparr> = spent e \<union> {k. k + 1024 \<le> unat c}"
proof -
  have h: "unat (re_highest e) < unat c" "d = unat c - unat (re_highest e)"
    using assms(2) by (simp_all add: d_def word_less_nat_alt unat_sub word_le_nat_alt)
  show "length bm = 16" using assms(1) by (simp add: bm_def entry_inv_def)
  have bit: "win_bit bm i \<longleftrightarrow> d < 1024 \<and> d \<le> i \<and> win_bit (re_bitmap e) (i - d)" if "i < 1024" for i
    using that assms(1) win_bit_zero [of "re_bitmap e" i] win_bit_shift [of "re_bitmap e" i d]
    by (auto simp: bm_def replayWindow_def entry_inv_def)
  show "spent \<lparr>re_highest = c, re_bitmap = bm\<rparr> = spent e \<union> {k. k + 1024 \<le> unat c}"
  proof (rule set_eqI)
    fix k
    show "k \<in> spent \<lparr>re_highest = c, re_bitmap = bm\<rparr> \<longleftrightarrow> k \<in> spent e \<union> {k. k + 1024 \<le> unat c}"
    proof (cases "k + 1024 \<le> unat c \<or> unat c < k")
      case True
      with h show ?thesis by (auto simp: spent_def)
    next
      case False
      then have i: "unat c - k < 1024" by linarith
      have "unat c - k - d = unat (re_highest e) - k" "d \<le> unat c - k \<longleftrightarrow> k \<le> unat (re_highest e)"
        using h False by linarith+
      with bit [OF i] False h i show ?thesis by (auto simp: spent_def)
    qed
  qed
qed

lemma entry_set:
  assumes "entry_inv e" "c \<le> re_highest e" "unat (re_highest e) < unat c + 1024"
  defines "d \<equiv> unat (re_highest e - c)"
  shows "spent (e\<lparr>re_bitmap := (re_bitmap e)[d div 64 := re_bitmap e ! (d div 64) OR push_bit (d mod 64) 1]\<rparr>)
    = insert (unat c) (spent e)"
proof -
  have d: "d = unat (re_highest e) - unat c" "unat c \<le> unat (re_highest e)" "d < 1024"
    using assms(2,3) by (simp_all add: d_def unat_sub word_le_nat_alt less_diff_conv2 add.commute)
  show ?thesis
  proof (rule set_eqI)
    fix k
    show "k \<in> spent (e\<lparr>re_bitmap := (re_bitmap e)[d div 64 := re_bitmap e ! (d div 64) OR push_bit (d mod 64) 1]\<rparr>)
        \<longleftrightarrow> k \<in> insert (unat c) (spent e)"
    proof (cases "k \<le> unat (re_highest e) \<and> unat (re_highest e) - k < 1024")
      case True
      have "unat (re_highest e) - k = d \<longleftrightarrow> k = unat c" using d True by linarith
      with True show ?thesis
        using win_bit_set [of "re_bitmap e" d "unat (re_highest e) - k"] assms(1) d(3)
        by (auto simp: spent_def entry_inv_def)
    next
      case False
      with d show ?thesis by (auto simp: spent_def)
    qed
  qed
qed

lemma entry_mark_spent:
  assumes "entry_inv e" "entry_accepts e c"
  shows "entry_inv (entry_mark e c)"
    and "spent (entry_mark e c) = insert (unat c) (spent e) \<union> {k. k + 1024 \<le> unat c}"
proof -
  show "entry_inv (entry_mark e c)"
    using assms(1) entry_move(1) [OF assms(1), of c] by (simp add: entry_mark_def entry_inv_def Let_def)
  show "spent (entry_mark e c) = insert (unat c) (spent e) \<union> {k. k + 1024 \<le> unat c}"
  proof (cases "c > re_highest e")
    case True
    let ?d = "unat (c - re_highest e)"
    let ?e = "\<lparr>re_highest = c, re_bitmap = (if ?d \<ge> replayWindow then map (\<lambda>_. 0) (re_bitmap e)
                 else shift_loop (re_bitmap e) (?d div 64) (?d mod 64))\<rparr>"
    have "entry_inv ?e" using entry_move(1) [OF assms(1) True] by (simp add: entry_inv_def)
    from entry_set [OF this, of c] entry_move(2) [OF assms(1) True] True
    show ?thesis by (simp add: entry_mark_def Let_def)
  next
    case False
    then have le: "c \<le> re_highest e" by simp
    then have "unat (re_highest e) < unat c + 1024"
      using assms(2) by (auto simp: entry_accepts_spent spent_def word_le_nat_alt)
    moreover from this le have "{k. k + 1024 \<le> unat c} \<subseteq> spent e"
      by (auto simp: spent_def word_le_nat_alt)
    ultimately show ?thesis
      using entry_set [OF assms(1) le] False by (auto simp: entry_mark_def Let_def)
  qed
qed

subsection \<open>The ring refines the list of identities in insertion order\<close>

definition ring :: "replayRegistry \<Rightarrow> u64 list" where
  "ring r = map (\<lambda>j. rr_order r ! ((rr_start r + j) mod replayCapacity)) [0..<rr_count r]"

definition registry_inv :: "replayRegistry \<Rightarrow> bool" where
  "registry_inv r \<longleftrightarrow>
     length (rr_order r) = replayCapacity \<and> rr_start r < replayCapacity \<and>
     rr_count r \<le> replayCapacity \<and> distinct (ring r) \<and>
     distinct (map fst (rr_entries r)) \<and> fst ` set (rr_entries r) = set (ring r) \<and>
     list_all (\<lambda>p. entry_inv (snd p)) (rr_entries r)"

lemma length_ring [simp]: "length (ring r) = rr_count r"
  by (simp add: ring_def)

lemma ring_index_inj:
  "s < (cap :: nat) \<Longrightarrow> j < cap \<Longrightarrow> k < cap \<Longrightarrow> (s + j) mod cap = (s + k) mod cap \<longleftrightarrow> j = k"
  by (auto simp: mod_if split: if_splits)

lemma ring_push:
  assumes "length (rr_order r) = replayCapacity" "rr_start r < replayCapacity" "rr_count r < replayCapacity"
  shows "ring (r\<lparr>rr_entries := es,
      rr_order := (rr_order r)[(rr_start r + rr_count r) mod replayCapacity := x],
      rr_count := rr_count r + 1\<rparr>) = ring r @ [x]"
proof -
  let ?n = "rr_count r"
  have "(rr_start r + ?n) mod replayCapacity \<noteq> (rr_start r + j) mod replayCapacity" if "j < ?n" for j
    using that assms ring_index_inj [of "rr_start r" replayCapacity j ?n] by auto
  moreover have "(rr_start r + ?n) mod replayCapacity < length (rr_order r)"
    using assms by (simp add: replayCapacity_def)
  ultimately show ?thesis by (simp add: ring_def)
qed

lemma ring_pop:
  assumes "rr_count r = Suc n" "rr_start r < replayCapacity"
  shows "ring r = rr_order r ! rr_start r # ring (r\<lparr>rr_entries := es,
      rr_start := (rr_start r + 1) mod replayCapacity, rr_count := rr_count r - 1\<rparr>)"
proof -
  have "[0..<Suc n] = 0 # map Suc [0..<n]" by (metis map_Suc_upt upt_conv_Cons zero_less_Suc)
  moreover have "((rr_start r + 1) mod replayCapacity + j) mod replayCapacity =
      (rr_start r + Suc j) mod replayCapacity" for j
    by (simp add: mod_simps)
  ultimately show ?thesis using assms by (simp add: ring_def comp_def)
qed

lemma registry_evict_ring:
  assumes "registry_inv r"
  shows "registry_inv (registry_evict r)" "rr_count (registry_evict r) < replayCapacity"
    "ring (registry_evict r) = (if rr_count r = replayCapacity then tl (ring r) else ring r)"
    "map_of (rr_entries r) k = None \<Longrightarrow> map_of (rr_entries (registry_evict r)) k = None"
    "map_of (rr_entries (registry_evict r)) k = Some e \<Longrightarrow> map_of (rr_entries r) k = Some e"
proof -
  note inv = assms [unfolded registry_inv_def]
  have all: "registry_inv (registry_evict r) \<and> rr_count (registry_evict r) < replayCapacity \<and>
    ring (registry_evict r) = (if rr_count r = replayCapacity then tl (ring r) else ring r)"
  proof (cases "rr_count r = replayCapacity")
    case True
    let ?o = "rr_order r ! rr_start r"
    have c: "rr_count r = Suc 16383" using True by (simp add: replayCapacity_def)
    define q where "q = registry_evict r"
    have q: "q = r\<lparr>rr_entries := AList.delete ?o (rr_entries r),
        rr_start := (rr_start r + 1) mod replayCapacity, rr_count := rr_count r - 1\<rparr>"
      using True by (simp add: q_def registry_evict_def)
    have ring: "ring r = ?o # ring q" unfolding q using ring_pop c inv by blast
    have "fst ` set (AList.delete ?o (rr_entries r)) = fst ` set (rr_entries r) - {?o}"
      by (auto simp: set_al_delete)
    moreover have "set (ring r) - {?o} = set (ring q)" using ring inv by auto
    moreover have "list_all (\<lambda>p. entry_inv (snd p)) (AList.delete ?o (rr_entries r))"
      using inv by (auto simp: list_all_iff set_al_delete)
    ultimately have "registry_inv q"
      using inv ring c by (simp add: registry_inv_def q al_distinct replayCapacity_def)
    with ring True show ?thesis by (simp add: q_def [symmetric]) (simp add: q replayCapacity_def)
  next
    case False
    with assms inv show ?thesis by (simp add: registry_evict_def)
  qed
  then show "registry_inv (registry_evict r)" "rr_count (registry_evict r) < replayCapacity"
    "ring (registry_evict r) = (if rr_count r = replayCapacity then tl (ring r) else ring r)" by blast+
  show "map_of (rr_entries r) k = None \<Longrightarrow> map_of (rr_entries (registry_evict r)) k = None"
    "map_of (rr_entries (registry_evict r)) k = Some e \<Longrightarrow> map_of (rr_entries r) k = Some e"
    by (auto simp: registry_evict_def al_lookup split: if_splits)
qed

definition fresh_entry :: "u64 \<Rightarrow> replayEntry" where
  "fresh_entry c = \<lparr>re_highest = c, re_bitmap = (replicate (replayWindow div 64) 0)[0 := 1]\<rparr>"

lemma fresh_entry: "entry_inv (fresh_entry c)" "unat c \<in> spent (fresh_entry c)"
  by (simp_all add: fresh_entry_def entry_inv_def spent_def win_bit_def replayWindow_def)

text \<open>Every way a commit can end.\<close>

lemma registry_commit_cases:
  obtains (refused) "registry_commit r k c = (r, False)"
      "counterValid c \<Longrightarrow> \<exists>e. map_of (rr_entries r) k = Some e \<and> unat c \<in> spent e"
  | (known) e where "map_of (rr_entries r) k = Some e" "entry_accepts e c" "counterValid c"
      "registry_commit r k c =
        (r\<lparr>rr_entries := AList.update k (entry_mark e c) (rr_entries r)\<rparr>, True)"
  | (new) q where "map_of (rr_entries r) k = None" "q = registry_evict r" "counterValid c"
      "registry_commit r k c =
        (q\<lparr>rr_entries := AList.update k (fresh_entry c) (rr_entries q),
           rr_order := (rr_order q)[(rr_start q + rr_count q) mod replayCapacity := k],
           rr_count := rr_count q + 1\<rparr>, True)"
  unfolding registry_commit_def Let_def fresh_entry_def
  by (cases "counterValid c"; cases "map_of (rr_entries r) k") (auto simp: entry_accepts_spent split: if_splits)

lemma registry_commit_inv:
  assumes "registry_inv r"
  shows "registry_inv (fst (registry_commit r k c))"
proof (cases rule: registry_commit_cases [of r k c])
  case refused
  with assms show ?thesis by simp
next
  case (known e)
  note inv = assms [unfolded registry_inv_def]
  have "entry_inv e" using inv known(1) by (auto simp: list_all_iff dest!: map_of_SomeD)
  then have "entry_inv (entry_mark e c)" using known(2) by (simp add: entry_mark_spent)
  moreover have "k \<in> fst ` set (rr_entries r)" using known(1) by (force dest: map_of_SomeD)
  ultimately show ?thesis
    using inv known(4) set_al_update [of k "entry_mark e c" "rr_entries r"]
    by (auto simp: registry_inv_def ring_def list_all_iff al_distinct dom_update insert_absorb)
next
  case (new q)
  let ?r = "q\<lparr>rr_entries := AList.update k (fresh_entry c) (rr_entries q),
           rr_order := (rr_order q)[(rr_start q + rr_count q) mod replayCapacity := k],
           rr_count := rr_count q + 1\<rparr>"
  note ev = registry_evict_ring [OF assms, folded new(2)]
  note inv = ev(1) [unfolded registry_inv_def]
  have ring: "ring ?r = ring q @ [k]" using ring_push inv ev(2) by blast
  have "map_of (rr_entries q) k = None" using ev(4) new(1) by blast
  then have "k \<notin> set (ring q)" using inv by (simp add: map_of_eq_None_iff)
  moreover have "fst ` set (AList.update k (fresh_entry c) (rr_entries q)) = insert k (set (ring q))"
    using inv by (simp add: dom_update)
  moreover have "list_all (\<lambda>p. entry_inv (snd p)) (AList.update k (fresh_entry c) (rr_entries q))"
    using inv set_al_update [of k "fresh_entry c" "rr_entries q"] fresh_entry(1)
    by (auto simp: list_all_iff)
  ultimately have "registry_inv ?r"
    using inv ev(2) ring by (simp add: registry_inv_def al_distinct)
  with new(4) show ?thesis by simp
qed

lemma registry_commit_ring:
  assumes "registry_inv r"
  shows "ring (fst (registry_commit r k c)) =
    (if \<not> counterValid c \<or> k \<in> set (ring r) then ring r
     else (if rr_count r = replayCapacity then tl (ring r) else ring r) @ [k])"
proof (cases rule: registry_commit_cases [of r k c])
  case refused
  then have "counterValid c \<Longrightarrow> k \<in> set (ring r)"
    using assms by (force simp: registry_inv_def dest!: map_of_SomeD)
  with refused(1) show ?thesis by auto
next
  case (known e)
  then have "k \<in> set (ring r)" using assms by (force simp: registry_inv_def dest!: map_of_SomeD)
  with known(4) show ?thesis by (simp add: ring_def)
next
  case (new q)
  note ev = registry_evict_ring [OF assms, folded new(2)]
  have "k \<notin> set (ring r)" using new(1) assms by (simp add: registry_inv_def map_of_eq_None_iff)
  moreover have "ring (fst (registry_commit r k c)) = ring q @ [k]"
    using ring_push [of q] ev(1,2) by (simp add: new(4) registry_inv_def)
  ultimately show ?thesis using new(3) ev(3) by simp
qed

lemma registry_inv_new: "registry_inv newReplayRegistry"
  by (simp add: newReplayRegistry_def registry_inv_def ring_def replayCapacity_def)

definition registry_step :: "replayRegistry \<Rightarrow> u64 \<times> u64 \<Rightarrow> replayRegistry" where
  "registry_step r op = fst (registry_commit r (fst op) (snd op))"

interpretation replay: invariant_machine "\<lambda>r. r = newReplayRegistry" registry_step registry_inv
  by unfold_locales (auto simp: registry_inv_new registry_step_def registry_commit_inv)

subsection \<open>A counter is accepted once\<close>

lemma commit_spends:
  assumes "registry_inv r" "registry_commit r k c = (r', True)"
  shows "\<exists>e. map_of (rr_entries r') k = Some e \<and> unat c \<in> spent e"
proof (cases rule: registry_commit_cases [of r k c])
  case (known e)
  have "entry_inv e" using assms(1) known(1)
    by (auto simp: registry_inv_def list_all_iff dest!: map_of_SomeD)
  with known assms(2) show ?thesis by (auto simp: al_lookup entry_mark_spent)
next
  case (new q)
  with assms(2) fresh_entry(2) show ?thesis by (auto simp: al_lookup)
qed (use assms(2) in auto)

lemma step_keeps_spent:
  assumes "registry_inv r" "map_of (rr_entries r) k = Some e"
    "map_of (rr_entries (registry_step r op)) k = Some e'"
  shows "spent e \<subseteq> spent e'"
proof (cases rule: registry_commit_cases [of r "fst op" "snd op"])
  case refused
  with assms show ?thesis by (simp add: registry_step_def)
next
  case (known e1)
  have "entry_inv e" using assms(1,2) by (auto simp: registry_inv_def list_all_iff dest!: map_of_SomeD)
  with known assms(2,3) show ?thesis
    by (auto simp: registry_step_def al_lookup entry_mark_spent split: if_splits)
next
  case (new q)
  then have "k \<noteq> fst op" using assms(2) by auto
  with assms(3) new have "map_of (rr_entries q) k = Some e'" by (simp add: registry_step_def al_lookup)
  then show ?thesis using registry_evict_ring(5) [OF assms(1)] new(2) assms(2) by auto
qed

lemma run_keeps_spent:
  assumes "registry_inv r" "map_of (rr_entries r) k = Some e" "x \<in> spent e"
    "\<And>n. n \<le> length ops \<Longrightarrow> map_of (rr_entries (run registry_step r (take n ops))) k \<noteq> None"
  shows "\<exists>e'. map_of (rr_entries (run registry_step r ops)) k = Some e' \<and> x \<in> spent e'"
  using assms
proof (induction ops arbitrary: r e)
  case (Cons op ops)
  let ?r = "registry_step r op"
  obtain e1 where e1: "map_of (rr_entries ?r) k = Some e1" using Cons.prems(4) [of 1] by auto
  have "x \<in> spent e1" using step_keeps_spent [OF Cons.prems(1,2) e1] Cons.prems(3) by blast
  moreover have "map_of (rr_entries (run registry_step ?r (take n ops))) k \<noteq> None"
    if "n \<le> length ops" for n
    using Cons.prems(4) [of "Suc n"] that by simp
  ultimately show ?case using Cons.IH [of ?r e1] e1 Cons.prems(1) replay.step_inv by simp
qed simp

lemma registry_refuses_spent:
  "map_of (rr_entries r) k = Some e \<Longrightarrow> unat c \<in> spent e \<Longrightarrow>
   registry_commit r k c = (r, False) \<and> \<not> registry_precheck r k c"
  by (simp add: registry_commit_def registry_precheck_def entry_accepts_spent)

end
