(* ===== verification/Morph_Prelude.thy ===== *)
theory Morph_Prelude
  imports Morph_Packing Morph_Replay Sha256
begin

section \<open>morph: keys, identities and the authenticated prelude\<close>

text \<open>
  \<^verbatim>\<open>morph/prelude.go\<close> and the key derivation of \<^verbatim>\<open>morph/morph.go\<close>. The entropy source is a
  reader. The prelude state is a record: \<open>ps_once\<close> is what \<^verbatim>\<open>idOnce\<close> ran, if it ran. The
  compare-and-swap loop of \<^verbatim>\<open>allocate\<close> is one atomic step, as its successful round is.
\<close>

definition nonceLen :: nat where "nonceLen = 12"
definition tagLen :: nat where "tagLen = 14"

definition errIdentityRandom :: error where
  "errIdentityRandom = New ''nw3: morph tcp identity randomness unavailable''"
definition errCounterExhausted :: error where
  "errCounterExhausted = New ''nw3: morph tcp prelude counter exhausted''"
definition ErrPreludeRejected :: error where
  "ErrPreludeRejected = New ''nw3: morph tcp prelude rejected''"
definition ErrClientHello :: error where
  "ErrClientHello = New ''nw3: morph tcp client hello rejected''"
definition errPreludeState :: error where
  "errPreludeState = New ''nw3: morph tcp client state missing''"

definition morph_hmacSHA256 :: "byte list \<Rightarrow> byte list \<Rightarrow> byte list" where
  "morph_hmacSHA256 key dat = take 32 (hmac_Sum key dat)"

definition expand :: "byte list \<Rightarrow> string \<Rightarrow> byte list" where
  "expand root info = morph_hmacSHA256 root (bytes_of info @ [0x01])"

record preludeState =
  ps_authKey :: "byte list"
  ps_maskKey :: "byte list"
  ps_once :: "(error + u64) option"
  ps_ctr :: u64
  ps_replay :: "replayRegistry option"

definition newPreludeState :: "byte list \<Rightarrow> preludeState" where
  "newPreludeState root =
     \<lparr>ps_authKey = expand root ''tcp prelude auth'', ps_maskKey = expand root ''tcp prelude mask'',
      ps_once = None, ps_ctr = 0, ps_replay = None\<rparr>"

record Keys =
  TCPC2S :: "byte list"
  TCPS2C :: "byte list"
  UDPC2S :: "byte list"
  UDPS2C :: "byte list"
  k_state :: "preludeState option"

definition Derive :: "byte list \<Rightarrow> Keys" where
  "Derive sharedKey =
     (let root = morph_hmacSHA256 (bytes_of ''nowhere/nw3/morph'') sharedKey
      in \<lparr>TCPC2S = expand root ''tcp c2s'', TCPS2C = expand root ''tcp s2c'',
          UDPC2S = expand root ''udp c2s'', UDPS2C = expand root ''udp s2c'',
          k_state = Some (newPreludeState root)\<rparr>)"

text \<open>The registry of the state, made on first use.\<close>

definition ps_registry :: "preludeState \<Rightarrow> replayRegistry \<times> preludeState" where
  "ps_registry s =
     (case ps_replay s of
        Some r \<Rightarrow> (r, s)
      | None \<Rightarrow> (newReplayRegistry, s\<lparr>ps_replay := Some newReplayRegistry\<rparr>))"

definition allocate ::
  "preludeState \<Rightarrow> reader \<Rightarrow> (error + u64 \<times> u64) \<times> preludeState \<times> reader" where
  "allocate s entropy =
     (let (once, entropy) =
            (case ps_once s of
               Some v \<Rightarrow> (v, entropy)
             | None \<Rightarrow>
                 (case ReadFull 8 entropy of
                    Inl e \<Rightarrow> (Inl errIdentityRandom, entropy)
                  | Inr (raw, entropy) \<Rightarrow> (Inr (Uint64 raw), entropy)));
          s = s\<lparr>ps_once := Some once\<rparr>
      in case once of
           Inl e \<Rightarrow> (Inl e, s, entropy)
         | Inr pid \<Rightarrow>
             (let previous = ps_ctr s
              in if previous \<ge> maxCounter then (Inl errCounterExhausted, s, entropy)
                 else (Inr (pid, previous + 1), s\<lparr>ps_ctr := previous + 1\<rparr>, entropy)))"

text \<open>
  \<^verbatim>\<open>authInput\<close>: nonce, first half of the prelude, the high bits of the second half, and
  fourteen zero bytes to be filled in.
\<close>

definition authInput :: "byte list \<Rightarrow> byte list \<Rightarrow> byte list" where
  "authInput prelude nonce =
     foldl (\<lambda>input (index, b).
         input[44 + index div 8 :=
           input ! (44 + index div 8) OR push_bit (7 - index mod 8) (drop_bit 7 b)])
       (take nonceLen nonce @ take 32 prelude @ replicate 18 0)
       (enumerate 0 (drop 32 prelude))"

definition xor_mask :: "byte list \<Rightarrow> byte list \<Rightarrow> byte list" where
  "xor_mask payload mk = map (\<lambda>i. payload ! i XOR mk ! i) [0..<length payload]"

definition encodePrelude ::
  "preludeState \<Rightarrow> byte list \<Rightarrow> byte list \<Rightarrow> u64 \<Rightarrow> u64 \<Rightarrow> byte list" where
  "encodePrelude state prelude nonce identity counter =
     (let input = authInput prelude nonce;
          input = take 48 input @ PutUint64 identity @ drop 2 (PutUint64 counter);
          tag = morph_hmacSHA256 (ps_authKey state) input;
          mk = morph_hmacSHA256 (ps_maskKey state) (take 48 input);
          payload = take 14 (drop 48 input) @ take tagLen tag
      in writePayload prelude (xor_mask payload mk))"

definition decodePrelude ::
  "preludeState \<Rightarrow> byte list \<Rightarrow> byte list \<Rightarrow> u64 \<times> u64 \<times> bool" where
  "decodePrelude state prelude nonce =
     (let input = authInput prelude nonce;
          mk = morph_hmacSHA256 (ps_maskKey state) (take 48 input);
          payload = xor_mask (readPayload prelude) mk;
          input = take 48 input @ take 14 payload;
          tag = morph_hmacSHA256 (ps_authKey state) input
      in if take tagLen tag \<noteq> drop 14 payload then (0, 0, False)
         else
           (let identity = Uint64 (take 8 payload);
                counterBytes = [0, 0] @ take 6 (drop 8 payload)
            in (identity, Uint64 counterBytes, True)))"

definition EncodeTCPPrelude ::
  "Keys \<Rightarrow> byte list \<Rightarrow> byte list \<Rightarrow> u64 \<Rightarrow> u64 \<Rightarrow> error + byte list" where
  "EncodeTCPPrelude keys prelude nonce identity counter =
     (case k_state keys of
        None \<Rightarrow> Inl errPreludeState
      | Some st \<Rightarrow>
          if length prelude \<noteq> preludeLen \<or> length nonce \<noteq> nonceLen then Inl errPreludeState
          else Inr (encodePrelude st prelude nonce identity counter))"

definition DecodeTCPPrelude :: "Keys \<Rightarrow> byte list \<Rightarrow> byte list \<Rightarrow> u64 \<times> u64 \<times> bool" where
  "DecodeTCPPrelude keys prelude nonce =
     (case k_state keys of
        None \<Rightarrow> (0, 0, False)
      | Some st \<Rightarrow>
          if length prelude \<noteq> preludeLen \<or> length nonce \<noteq> nonceLen then (0, 0, False)
          else decodePrelude st prelude nonce)"

subsection \<open>What the tag covers survives the payload\<close>

lemma length_morph_hmac [simp]: "length (morph_hmacSHA256 k m) = 32"
  by (simp add: morph_hmacSHA256_def)

lemma length_authInput:
  "length prelude = 64 \<Longrightarrow> length nonce = 12 \<Longrightarrow> length (authInput prelude nonce) = 62"
proof -
  have "length (foldl (\<lambda>input (index, b). input[f index := g input index b]) xs ys) = length xs"
    for f and g :: "byte list \<Rightarrow> nat \<Rightarrow> byte \<Rightarrow> byte" and xs :: "byte list" and ys :: "(nat \<times> byte) list"
    by (induction ys arbitrary: xs) auto
  then show "length prelude = 64 \<Longrightarrow> length nonce = 12 \<Longrightarrow> ?thesis"
    by (simp add: authInput_def nonceLen_def)
qed

lemma drop_bit_7_high: "drop_bit 7 (b AND 0x80 :: byte) = drop_bit 7 b"
proof -
  have "drop_bit 7 (b AND 0x80 :: byte) = drop_bit 7 b AND 1" by (simp add: drop_bit_and)
  also have "\<dots> = take_bit 1 (drop_bit 7 b)" by (simp add: take_bit_eq_mask and.commute)
  also have "\<dots> = drop_bit 7 (take_bit 8 b)" by (simp add: drop_bit_take_bit)
  also have "take_bit 8 b = b" using take_bit_length_eq [of b] by simp
  finally show ?thesis .
qed

text \<open>The loop reads only the high bits.\<close>

definition auth_loop :: "byte list \<Rightarrow> byte list \<Rightarrow> nat \<Rightarrow> byte list" where
  "auth_loop xs hs n =
     foldl (\<lambda>input (index, h). input[44 + index div 8 := input ! (44 + index div 8) OR push_bit (7 - index mod 8) h])
       xs (enumerate n hs)"

lemma authInput_high:
  "authInput prelude nonce =
     auth_loop (take nonceLen nonce @ take 32 prelude @ replicate 18 0) (map (drop_bit 7) (drop 32 prelude)) 0"
proof -
  have "foldl (\<lambda>input (index, b). input[44 + index div 8 :=
           input ! (44 + index div 8) OR push_bit (7 - index mod 8) (drop_bit 7 b)]) xs (enumerate n bs) =
        auth_loop xs (map (drop_bit 7) bs) n" for xs n and bs :: "byte list"
    by (induction bs arbitrary: xs n) (simp_all add: auth_loop_def)
  then show ?thesis by (simp add: authInput_def)
qed

lemma authInput_writePayload:
  assumes "length prelude = 64" "length payload = 28"
  shows "authInput (writePayload prelude payload) nonce = authInput prelude nonce"
proof -
  note w = writePayload_preserves [OF assms]
  have "map (drop_bit 7) (writePayload prelude payload) = map (drop_bit 7) prelude"
    using arg_cong [OF w(2), of "map (drop_bit 7)"] by (simp only: map_map comp_def drop_bit_7_high)
  then have "map (drop_bit 7) (drop 32 (writePayload prelude payload)) = map (drop_bit 7) (drop 32 prelude)"
    by (metis drop_map)
  with w(1) show ?thesis by (simp add: authInput_high)
qed

lemma length_xor_mask [simp]: "length (xor_mask p m) = length p"
  by (simp add: xor_mask_def)

lemma xor_mask_involution: "xor_mask (xor_mask p m) m = p"
  by (rule nth_equalityI) (simp_all add: xor_mask_def xor.assoc)

subsection \<open>Round trips\<close>

lemma nat_be_append: "nat_be (m + n) v = nat_be m (v div 256 ^ n) @ nat_be n v"
  by (induction n arbitrary: v) (simp_all add: div_mult2_eq)

lemma counter_bytes:
  assumes "unat c < 2 ^ 48"
  shows "[0, 0] @ drop 2 (PutUint64 c) = PutUint64 c"
proof -
  have "PutUint64 c = nat_be 2 0 @ nat_be 6 (unat c)"
    using nat_be_append [of 2 6 "unat c"] assms by (simp add: PutUint64_def)
  then show ?thesis by (simp add: nat_be_eval)
qed

lemma unat_maxCounter [simp]: "unat maxCounter = 2 ^ 48 - 1"
  by (simp add: maxCounter_def)

lemma decodePrelude_encodePrelude:
  assumes "length prelude = 64" "length nonce = 12" "c \<le> maxCounter"
  shows "decodePrelude st (encodePrelude st prelude nonce k c) nonce = (k, c, True)"
proof -
  let ?i = "take 48 (authInput prelude nonce)"
  define idc where "idc = PutUint64 k @ drop 2 (PutUint64 c)"
  define tag where "tag = take 14 (morph_hmacSHA256 (ps_authKey st) (?i @ idc))"
  define mk where "mk = morph_hmacSHA256 (ps_maskKey st) ?i"
  have l: "length idc = 14" "length tag = 14" "length ?i = 48"
    using assms length_authInput by (simp_all add: idc_def tag_def)
  let ?p = "xor_mask (idc @ tag) mk"
  have enc: "encodePrelude st prelude nonce k c = writePayload prelude ?p"
    using l by (simp add: encodePrelude_def Let_def idc_def tag_def mk_def tagLen_def numeral_2_eq_2)
  have a: "authInput (writePayload prelude ?p) nonce = authInput prelude nonce"
    using assms l by (intro authInput_writePayload) auto
  have r: "readPayload (writePayload prelude ?p) = ?p"
    using assms l by (intro readPayload_writePayload) auto
  have "unat c < 2 ^ 48" using assms(3) by (simp add: word_le_nat_alt)
  then have cnt: "[0, 0] @ take 6 (drop 8 idc) = PutUint64 c"
    using counter_bytes [of c] by (simp add: idc_def)
  have parts: "take 14 (idc @ tag) = idc" "drop 14 (idc @ tag) = tag" "take 8 (idc @ tag) = PutUint64 k"
    "take 6 (drop 8 (idc @ tag)) = take 6 (drop 8 idc)"
    using l by (simp_all add: idc_def)
  show ?thesis
    unfolding enc decodePrelude_def a r Let_def mk_def [symmetric] xor_mask_involution parts cnt
      tagLen_def tag_def [symmetric]
    by simp
qed

lemma encodePrelude_frame:
  assumes "length prelude = 64" "length nonce = 12"
  shows "length (encodePrelude st prelude nonce k c) = 64"
    and "take 32 (encodePrelude st prelude nonce k c) = take 32 prelude"
    and "map (\<lambda>b. b AND 0x80) (encodePrelude st prelude nonce k c) = map (\<lambda>b. b AND 0x80) prelude"
  using assms length_authInput [OF assms] writePayload_preserves(1,2) [OF assms(1)]
  by (simp_all add: encodePrelude_def Let_def tagLen_def)

text \<open>A prelude that is accepted is what the encoder makes of it: nothing else passes.\<close>

lemma encodePrelude_decodePrelude:
  assumes "length prelude = 64" "length nonce = 12" "decodePrelude st prelude nonce = (k, c, True)"
  shows "encodePrelude st prelude nonce k c = prelude" and "c \<le> maxCounter"
proof -
  let ?i = "take 48 (authInput prelude nonce)"
  define mk where "mk = morph_hmacSHA256 (ps_maskKey st) ?i"
  define p where "p = xor_mask (readPayload prelude) mk"
  have l: "length p = 28" "length ?i = 48" using assms length_authInput by (simp_all add: p_def)
  have t: "take 14 (morph_hmacSHA256 (ps_authKey st) (?i @ take 14 p)) = drop 14 p"
    and k: "k = Uint64 (take 8 p)" and c: "c = Uint64 ([0, 0] @ take 6 (drop 8 p))"
    using assms(3) unfolding decodePrelude_def Let_def mk_def [symmetric] p_def [symmetric]
    by (auto simp: tagLen_def split: if_splits)
  have "PutUint64 k = take 8 p" using l k by (simp add: Put_Uint64)
  moreover have pc: "PutUint64 c = [0, 0] @ take 6 (drop 8 p)" unfolding c using l by (intro Put_Uint64) simp
  moreover have "take 8 p @ take 6 (drop 8 p) = take 14 p" using take_add [of 8 6 p] by simp
  ultimately have "PutUint64 k @ drop 2 (PutUint64 c) = take 14 p" by simp
  then have "encodePrelude st prelude nonce k c = writePayload prelude (xor_mask (take 14 p @ drop 14 p) mk)"
    using l t by (simp add: encodePrelude_def Let_def mk_def tagLen_def)
  then show "encodePrelude st prelude nonce k c = prelude"
    by (simp add: p_def xor_mask_involution writePayload_readPayload assms(1))
  have "be_nat ([0, 0] @ take 6 (drop 8 p)) = be_nat (take 6 (drop 8 p))" by (simp add: be_nat_def)
  then have "be_nat (PutUint64 c) < 2 ^ 48"
    using be_nat_bound [of "take 6 (drop 8 p)"] l by (simp add: pc)
  moreover have "be_nat (PutUint64 c) = unat c"
    using unat_lt [of c] by (simp add: PutUint64_def be_nat_nat_be)
  ultimately show "c \<le> maxCounter" by (simp add: word_le_nat_alt)
qed

text \<open>The same at the level of the package's own test interface.\<close>

lemma EncodeTCPPrelude_decodes:
  "case EncodeTCPPrelude keys prelude nonce k c of
     Inl e \<Rightarrow> \<not> (k_state keys \<noteq> None \<and> length prelude = 64 \<and> length nonce = 12)
   | Inr p \<Rightarrow>
       (if c \<le> maxCounter then DecodeTCPPrelude keys p nonce = (k, c, True) else True) \<and>
       take 32 p = take 32 prelude \<and> map (\<lambda>b. b AND 0x80) p = map (\<lambda>b. b AND 0x80) prelude"
  using decodePrelude_encodePrelude [of prelude nonce c] encodePrelude_frame [of prelude nonce]
  by (auto simp: DecodeTCPPrelude_def EncodeTCPPrelude_def preludeLen_def nonceLen_def split: option.splits)

lemma DecodeTCPPrelude_canonical:
  "case DecodeTCPPrelude keys prelude nonce of
     (k, c, ok) \<Rightarrow>
       if ok then EncodeTCPPrelude keys prelude nonce k c = Inr prelude \<and> c \<le> maxCounter else True"
  using encodePrelude_decodePrelude [of prelude nonce]
  by (auto simp: DecodeTCPPrelude_def EncodeTCPPrelude_def preludeLen_def nonceLen_def split: option.splits)

end
