(* ===== verification/Morph_Hello.thy ===== *)
theory Morph_Hello
  imports Nowhere_Prelude
begin

section \<open>morph: structure of a ClientHello\<close>

text \<open>
  \<^verbatim>\<open>clientHelloWellFormed\<close> of \<^verbatim>\<open>morph/prehello.go\<close>, with every index and slice expression
  checked: an access out of range is \<open>Panic\<close>. The reference is the grammar of the message,
  stated on its parts.
\<close>

text \<open>\<^verbatim>\<open>b[i]\<close> and \<^verbatim>\<open>b[n:]\<close>.\<close>

definition index_at :: "byte list \<Rightarrow> nat \<Rightarrow> byte go" where
  "index_at b i = (if i < length b then Ret (b ! i) else Panic)"

definition slice_from :: "byte list \<Rightarrow> nat \<Rightarrow> byte list go" where
  "slice_from b n = (if n \<le> length b then Ret (drop n b) else Panic)"

definition tlsRecordHeader :: nat where "tlsRecordHeader = 5"
definition tlsHandshake :: byte where "tlsHandshake = 22"
definition tlsClientHello :: byte where "tlsClientHello = 1"
definition tlsMaxCipher :: nat where "tlsMaxCipher = 16384 + 2048"
definition tlsMaxHandshake :: nat where "tlsMaxHandshake = 65536"
definition tlsMaxRecords :: nat where "tlsMaxRecords = 64"

text \<open>The loop over the extensions; \<open>seen\<close> is the set of types met so far.\<close>

function extensions_loop :: "u16 list \<Rightarrow> byte list \<Rightarrow> bool go" where
  "extensions_loop seen body =
     (if body = [] then Ret True
      else if length body < 4 then Ret False
      else
        (let extType = Uint16 (take 2 body);
             size = unat (Uint16 (take 2 (drop 2 body)));
             body = drop 4 body
         in if extType \<in> set seen \<or> length body < size then Ret False
            else extensions_loop (extType # seen) (drop size body)))"
  by auto
termination by (relation "measure (\<lambda>(seen, body). length body)") auto

declare extensions_loop.simps [simp del]

text \<open>The function in the order it reads: extensions, compression, suites, session, message.\<close>

definition hello_tail :: "byte list \<Rightarrow> bool go" where
  "hello_tail body =
     (if length body = 0 then Ret True
      else if length body < 2 then Ret False
      else
        go_bind (index_at body 0) (\<lambda>e0.
        go_bind (index_at body 1) (\<lambda>e1.
        go_bind (slice_from body 2) (\<lambda>body.
        if unat e0 * 256 + unat e1 \<noteq> length body then Ret False
        else extensions_loop [] body))))"

definition hello_compression :: "byte list \<Rightarrow> bool go" where
  "hello_compression body =
     go_bind (index_at body 0) (\<lambda>compLen.
     go_bind (slice_from body 1) (\<lambda>body.
     if unat compLen < 1 \<or> length body < unat compLen then Ret False
     else go_bind (slice_from body (unat compLen)) hello_tail))"

definition hello_suites :: "byte list \<Rightarrow> bool go" where
  "hello_suites body =
     go_bind (index_at body 0) (\<lambda>s0.
     go_bind (index_at body 1) (\<lambda>s1.
     go_bind (slice_from body 2) (\<lambda>body.
     let suiteLen = unat s0 * 256 + unat s1
     in if suiteLen < 2 \<or> suiteLen mod 2 \<noteq> 0 \<or> length body < suiteLen + 1 then Ret False
        else go_bind (slice_from body suiteLen) hello_compression)))"

definition hello_session :: "byte list \<Rightarrow> bool go" where
  "hello_session body =
     go_bind (slice_from body 34) (\<lambda>body.
     go_bind (index_at body 0) (\<lambda>sessionLen.
     go_bind (slice_from body 1) (\<lambda>body.
     if unat sessionLen > 32 \<or> length body < unat sessionLen + 2 then Ret False
     else go_bind (slice_from body (unat sessionLen)) hello_suites)))"

definition message_len :: "byte list \<Rightarrow> nat" where
  "message_len m = unat (m ! 1) * 65536 + unat (m ! 2) * 256 + unat (m ! 3)"

definition clientHelloWellFormed :: "byte list \<Rightarrow> bool go" where
  "clientHelloWellFormed message =
     (if length message < 4 \<or> message ! 0 \<noteq> tlsClientHello then Ret False
      else if message_len message \<noteq> length message - 4 then Ret False
      else
        (let body = drop 4 message
         in if length body < 35 then Ret False else hello_session body))"

subsection \<open>The grammar\<close>

text \<open>An extension: its type and its data, with a two-byte length.\<close>

definition ext_bytes :: "u16 \<times> byte list \<Rightarrow> byte list" where
  "ext_bytes e = PutUint16 (fst e) @ PutUint16 (word_of_nat (length (snd e))) @ snd e"

definition exts_ok :: "(u16 \<times> byte list) list \<Rightarrow> bool" where
  "exts_ok es \<longleftrightarrow> distinct (map fst es) \<and> list_all (\<lambda>e. length (snd e) < 65536) es"

definition is_extensions :: "byte list \<Rightarrow> bool" where
  "is_extensions body \<longleftrightarrow> (\<exists>es. exts_ok es \<and> body = concat (map ext_bytes es))"

lemma extensions_loop_ext:
  assumes "length (snd e) < 65536"
  shows "extensions_loop seen (ext_bytes e @ rest) =
    (if fst e \<in> set seen then Ret False else extensions_loop (fst e # seen) rest)"
  using assms by (subst extensions_loop.simps)
    (auto simp: ext_bytes_def Let_def unat_of_nat take_bit_eq_mod numeral_2_eq_2 [symmetric])

lemma extensions_loop_complete:
  "exts_ok es \<Longrightarrow> set seen \<inter> fst ` set es = {} \<Longrightarrow>
   extensions_loop seen (concat (map ext_bytes es)) = Ret True"
proof (induction es arbitrary: seen)
  case Nil
  then show ?case by (simp add: extensions_loop.simps)
next
  case (Cons e es)
  then show ?case by (simp add: extensions_loop_ext exts_ok_def)
qed

lemma extensions_loop_sound:
  "extensions_loop seen body = Ret True \<Longrightarrow>
   \<exists>es. exts_ok es \<and> set seen \<inter> fst ` set es = {} \<and> body = concat (map ext_bytes es)"
proof (induction seen body rule: extensions_loop.induct)
  case (1 seen body)
  show ?case
  proof (cases "body = []")
    case True
    then show ?thesis by (intro exI [of _ "[]"]) (simp add: exts_ok_def)
  next
    case False
    let ?t = "Uint16 (take 2 body)" and ?n = "unat (Uint16 (take 2 (drop 2 body)))"
    let ?b = "drop 4 body"
    from "1.prems" False have c: "4 \<le> length body" "?t \<notin> set seen" "?n \<le> length ?b"
      "extensions_loop (?t # seen) (drop ?n ?b) = Ret True"
      by (subst (asm) extensions_loop.simps; auto simp: Let_def split: if_splits)+
    then obtain es where es: "exts_ok es" "set (?t # seen) \<inter> fst ` set es = {}"
      "drop ?n ?b = concat (map ext_bytes es)"
      using "1.IH" [OF False _ refl refl refl] by auto
    let ?e = "(?t, take ?n ?b)"
    have n: "length (take ?n ?b) = ?n" using c(3) by simp
    have "ext_bytes ?e = take 2 body @ take 2 (drop 2 body) @ take ?n ?b"
      using c(1) n by (simp add: ext_bytes_def Put_Uint16)
    then have "body = concat (map ext_bytes (?e # es))"
      using es(3) by (simp del: drop_drop) (metis append_take_drop_id drop_drop numeral_Bit0)
    moreover have "exts_ok (?e # es)"
      using es(1,2) n unat_lt [of "Uint16 (take 2 (drop 2 body))"] by (auto simp: exts_ok_def)
    moreover have "set seen \<inter> fst ` set (?e # es) = {}" using es(2) c(2) by auto
    ultimately show ?thesis by blast
  qed
qed

lemma extensions_loop_grammar:
  "extensions_loop [] body = Ret (is_extensions body)"
proof -
  have "extensions_loop seen body \<noteq> Panic" for seen body
    by (induction seen body rule: extensions_loop.induct)
      (subst extensions_loop.simps, auto simp: Let_def)
  then obtain b where b: "extensions_loop [] body = Ret b" by (cases "extensions_loop [] body") auto
  have "b \<longleftrightarrow> is_extensions body"
    using extensions_loop_sound [of "[]" body] extensions_loop_complete [of _ "[]"] b
    by (auto simp: is_extensions_def)
  with b show ?thesis by simp
qed

definition tail_ok :: "byte list \<Rightarrow> bool" where
  "tail_ok t \<longleftrightarrow> t = [] \<or>
     (\<exists>es. exts_ok es \<and> length (concat (map ext_bytes es)) < 65536 \<and>
        t = nat_be 2 (length (concat (map ext_bytes es))) @ concat (map ext_bytes es))"

definition compression_ok :: "byte list \<Rightarrow> bool" where
  "compression_ok b \<longleftrightarrow>
     (\<exists>comps t. b = nat_be 1 (length comps) @ comps @ t \<and> 1 \<le> length comps \<and> length comps < 256 \<and> tail_ok t)"

definition suites_ok :: "byte list \<Rightarrow> bool" where
  "suites_ok b \<longleftrightarrow>
     (\<exists>suites t. b = nat_be 2 (length suites) @ suites @ t \<and> 2 \<le> length suites \<and>
        length suites < 65536 \<and> even (length suites) \<and> compression_ok t)"

definition session_ok :: "byte list \<Rightarrow> bool" where
  "session_ok b \<longleftrightarrow>
     (\<exists>fixed session t. b = fixed @ nat_be 1 (length session) @ session @ t \<and> length fixed = 34 \<and>
        length session \<le> 32 \<and> suites_ok t)"

definition client_hello :: "byte list \<Rightarrow> bool" where
  "client_hello m \<longleftrightarrow>
     (\<exists>body. m = 1 # nat_be 3 (length body) @ body \<and> length body < 2 ^ 24 \<and> session_ok body)"

text \<open>
  A field with a big-endian length in front: cutting it off by the decoded length is the same
  as there being such a field.
\<close>

lemma length_field:
  assumes "k \<le> length b"
  shows "(\<exists>x t. b = nat_be k (length x) @ x @ t \<and> length x < 256 ^ k \<and> P x t) \<longleftrightarrow>
    be_nat (take k b) + k \<le> length b \<and>
    P (take (be_nat (take k b)) (drop k b)) (drop (k + be_nat (take k b)) b)"
proof
  assume "\<exists>x t. b = nat_be k (length x) @ x @ t \<and> length x < 256 ^ k \<and> P x t"
  then obtain x t where x: "b = nat_be k (length x) @ x @ t" "length x < 256 ^ k" "P x t" by blast
  then have "be_nat (take k b) = length x" by (simp add: be_nat_nat_be)
  with x show "be_nat (take k b) + k \<le> length b \<and>
      P (take (be_nat (take k b)) (drop k b)) (drop (k + be_nat (take k b)) b)" by simp
next
  let ?n = "be_nat (take k b)"
  assume a: "?n + k \<le> length b \<and> P (take ?n (drop k b)) (drop (k + ?n) b)"
  have l: "length (take k b) = k" using assms by simp
  have "nat_be k ?n = take k b" using nat_be_inj [OF l] .
  moreover have "length (take ?n (drop k b)) = ?n" using a assms by (auto simp: min_def)
  moreover have "?n < 256 ^ k" using be_nat_bound [of "take k b"] l by simp
  moreover have "b = take k b @ take ?n (drop k b) @ drop (k + ?n) b"
    by (metis append_take_drop_id drop_drop add.commute)
  ultimately show "\<exists>x t. b = nat_be k (length x) @ x @ t \<and> length x < 256 ^ k \<and> P x t"
    using a by metis
qed

lemma be_nat_take_Suc:
  "n < length b \<Longrightarrow> be_nat (take (Suc n) b) = be_nat (take n b) * 256 + unat (b ! n)"
  by (simp add: take_Suc_conv_app_nth)

lemma be_nat_take:
  "1 \<le> length b \<Longrightarrow> be_nat (take 1 b) = unat (b ! 0)"
  "2 \<le> length b \<Longrightarrow> be_nat (take 2 b) = unat (b ! 0) * 256 + unat (b ! 1)"
  "3 \<le> length b \<Longrightarrow> be_nat (take 3 b) = unat (b ! 0) * 65536 + unat (b ! 1) * 256 + unat (b ! 2)"
proof -
  show 1: "be_nat (take 1 b) = unat (b ! 0)" if "1 \<le> length b"
    using that be_nat_take_Suc [of 0 b] by (cases b) auto
  show 2: "be_nat (take 2 b) = unat (b ! 0) * 256 + unat (b ! 1)" if "2 \<le> length b"
    using that 1 be_nat_take_Suc [of 1 b] by (simp add: numeral_2_eq_2)
  show "be_nat (take 3 b) = unat (b ! 0) * 65536 + unat (b ! 1) * 256 + unat (b ! 2)" if "3 \<le> length b"
    using that 2 be_nat_take_Suc [of 2 b] by (simp add: algebra_simps)
qed

subsection \<open>The parser decides the grammar\<close>

lemma hello_tail_grammar: "hello_tail t = Ret (tail_ok t)"
proof (cases "length t < 2")
  case True
  have "tail_ok t \<longleftrightarrow> t = []" using True by (auto simp: tail_ok_def)
  with True show ?thesis by (auto simp: hello_tail_def)
next
  case False
  then have "tail_ok t \<longleftrightarrow> (\<exists>x u. t = nat_be 2 (length x) @ x @ u \<and> length x < 256 ^ 2 \<and> u = [] \<and> is_extensions x)"
    by (auto simp: tail_ok_def is_extensions_def)
  also have "\<dots> \<longleftrightarrow> be_nat (take 2 t) = length t - 2 \<and> is_extensions (drop 2 t)"
    using length_field [of 2 t "\<lambda>x u. u = [] \<and> is_extensions x"] False by auto
  finally show ?thesis
    using False be_nat_take(2) [of t]
    by (auto simp: hello_tail_def index_at_def slice_from_def extensions_loop_grammar)
qed

lemma hello_compression_grammar:
  assumes "1 \<le> length b"
  shows "hello_compression b = Ret (compression_ok b)"
proof -
  have "compression_ok b \<longleftrightarrow>
      (\<exists>x u. b = nat_be 1 (length x) @ x @ u \<and> length x < 256 ^ 1 \<and> 1 \<le> length x \<and> tail_ok u)"
    by (auto simp: compression_ok_def)
  also have "\<dots> \<longleftrightarrow> unat (b ! 0) + 1 \<le> length b \<and> 1 \<le> unat (b ! 0) \<and> tail_ok (drop (1 + unat (b ! 0)) b)"
    using length_field [of 1 b "\<lambda>x u. 1 \<le> length x \<and> tail_ok u"] assms be_nat_take(1) [of b] by auto
  finally show ?thesis
    using assms by (auto simp: hello_compression_def index_at_def slice_from_def hello_tail_grammar)
qed

lemma hello_suites_grammar:
  assumes "2 \<le> length b"
  shows "hello_suites b = Ret (suites_ok b)"
proof -
  have "b \<noteq> []" using assms by auto
  note assms = assms this
  let ?n = "unat (b ! 0) * 256 + unat (b ! 1)"
  have comp: "compression_ok t \<Longrightarrow> 1 \<le> length t" for t by (auto simp: compression_ok_def)
  have "suites_ok b \<longleftrightarrow> (\<exists>x u. b = nat_be 2 (length x) @ x @ u \<and> length x < 256 ^ 2 \<and>
      2 \<le> length x \<and> even (length x) \<and> compression_ok u)"
    by (auto simp: suites_ok_def)
  also have "\<dots> \<longleftrightarrow> ?n + 2 \<le> length b \<and> 2 \<le> ?n \<and> even ?n \<and> compression_ok (drop (2 + ?n) b)"
    using length_field [of 2 b "\<lambda>x u. 2 \<le> length x \<and> even (length x) \<and> compression_ok u"] assms
      be_nat_take(2) [of b] by auto
  finally have g: "suites_ok b \<longleftrightarrow>
      ?n + 2 \<le> length b \<and> 2 \<le> ?n \<and> even ?n \<and> compression_ok (drop (2 + ?n) b)" .
  show ?thesis
  proof (cases "?n < 2 \<or> ?n mod 2 \<noteq> 0 \<or> length b - 2 < ?n + 1")
    case True
    then have "\<not> suites_ok b"
      using g comp [of "drop (2 + ?n) b"] assms by (auto simp: even_iff_mod_2_eq_zero)
    with True assms show ?thesis by (simp add: hello_suites_def index_at_def slice_from_def Let_def)
  next
    case False
    then have "hello_compression (drop (2 + ?n) b) = Ret (compression_ok (drop (2 + ?n) b))"
      using assms by (intro hello_compression_grammar) auto
    moreover have "suites_ok b \<longleftrightarrow> compression_ok (drop (2 + ?n) b)"
      using False g assms by (auto simp: even_iff_mod_2_eq_zero)
    ultimately show ?thesis
      using False assms by (simp add: hello_suites_def index_at_def slice_from_def Let_def add.commute)
  qed
qed

lemma hello_session_grammar:
  assumes "35 \<le> length body"
  shows "hello_session body = Ret (session_ok body)"
proof -
  define b where "b = drop 34 body"
  have l: "1 \<le> length b" "b \<noteq> []" using assms by (auto simp: b_def)
  have suites: "suites_ok t \<Longrightarrow> 2 \<le> length t" for t by (auto simp: suites_ok_def)
  have "session_ok body \<longleftrightarrow> (\<exists>x u. b = nat_be 1 (length x) @ x @ u \<and> length x < 256 ^ 1 \<and>
      length x \<le> 32 \<and> suites_ok u)" (is "_ \<longleftrightarrow> ?r")
  proof
    assume ?r
    then obtain x u where "b = nat_be 1 (length x) @ x @ u" "length x \<le> 32" "suites_ok u" by blast
    moreover have "body = take 34 body @ b" "length (take 34 body) = 34" using assms by (simp_all add: b_def)
    ultimately show "session_ok body" unfolding session_ok_def by metis
  next
    assume "session_ok body"
    then obtain fixed x u where "body = fixed @ nat_be 1 (length x) @ x @ u" "length fixed = 34"
      "length x \<le> 32" "suites_ok u"
      unfolding session_ok_def by blast
    then have "b = nat_be 1 (length x) @ x @ u \<and> length x < 256 ^ 1 \<and> length x \<le> 32 \<and> suites_ok u"
      by (simp add: b_def)
    then show ?r by blast
  qed
  also have "\<dots> \<longleftrightarrow> unat (b ! 0) + 1 \<le> length b \<and> unat (b ! 0) \<le> 32 \<and> suites_ok (drop (1 + unat (b ! 0)) b)"
    using length_field [of 1 b "\<lambda>x u. length x \<le> 32 \<and> suites_ok u"] l be_nat_take(1) [of b] by auto
  finally have g: "session_ok body \<longleftrightarrow>
      unat (b ! 0) + 1 \<le> length b \<and> unat (b ! 0) \<le> 32 \<and> suites_ok (drop (1 + unat (b ! 0)) b)" .
  have h: "hello_session body =
      (if unat (b ! 0) > 32 \<or> length b - 1 < unat (b ! 0) + 2 then Ret False
       else hello_suites (drop (1 + unat (b ! 0)) b))"
    using assms l unfolding hello_session_def b_def [symmetric]
    by (simp add: index_at_def slice_from_def b_def [symmetric] add.commute)
  show ?thesis
  proof (cases "unat (b ! 0) > 32 \<or> length b - 1 < unat (b ! 0) + 2")
    case True
    then show ?thesis using g h suites [of "drop (1 + unat (b ! 0)) b"] by auto
  next
    case False
    then have "hello_suites (drop (1 + unat (b ! 0)) b) = Ret (suites_ok (drop (1 + unat (b ! 0)) b))"
      by (intro hello_suites_grammar) auto
    with False g h show ?thesis by auto
  qed
qed

lemma session_ok_length: "session_ok body \<Longrightarrow> 35 \<le> length body"
  by (auto simp: session_ok_def)

lemma clientHelloWellFormed_grammar: "clientHelloWellFormed m = Ret (client_hello m)"
proof (cases "length m < 4 \<or> m ! 0 \<noteq> 1")
  case True
  then have "\<not> client_hello m" by (auto simp: client_hello_def)
  with True show ?thesis by (auto simp: clientHelloWellFormed_def tlsClientHello_def)
next
  case False
  then obtain b where m: "m = 1 # b" and l: "3 \<le> length b" by (cases m) auto
  have n: "message_len m = be_nat (take 3 b)"
    using be_nat_take(3) [OF l] by (simp add: message_len_def m)
  have "client_hello m \<longleftrightarrow>
      (\<exists>x u. b = nat_be 3 (length x) @ x @ u \<and> length x < 256 ^ 3 \<and> u = [] \<and> session_ok x)"
    by (auto simp: client_hello_def m)
  also have "\<dots> \<longleftrightarrow> be_nat (take 3 b) = length b - 3 \<and> session_ok (drop 3 b)"
    using length_field [of 3 b "\<lambda>x u. u = [] \<and> session_ok x"] l by auto
  finally have g: "client_hello m \<longleftrightarrow> message_len m = length m - 4 \<and> session_ok (drop 4 m)"
    using n by (simp add: m)
  have d: "35 \<le> length (drop 4 m) \<Longrightarrow> hello_session (drop 4 m) = Ret (session_ok (drop 4 m))"
    by (rule hello_session_grammar)
  show ?thesis
    using False g d session_ok_length [of "drop 4 m"]
    by (auto simp: clientHelloWellFormed_def tlsClientHello_def Let_def not_less)
qed

end
