(* ===== verification/Chacha20.thy ===== *)
theory Chacha20
  imports Nowhere_Prelude
begin

section \<open>internal/chacha20: ChaCha20 at a byte offset\<close>

text \<open>
  \<^verbatim>\<open>internal/chacha20/chacha20.go\<close>. The sixteen local words of \<^verbatim>\<open>block64\<close> are a list of
  sixteen words; keys and nonces are byte lists of 32 and 12 bytes. The interface the rest of
  the program relies on is a keystream cipher: byte \<open>i\<close> of the stream is masked with byte \<open>i\<close>
  of one fixed keystream, however the stream is cut into calls.
\<close>

definition KeySize :: nat where "KeySize = 32"
definition NonceSize :: nat where "NonceSize = 12"
definition blockSize :: nat where "blockSize = 64"

definition sigma :: "u32 list" where
  "sigma = [0x61707865, 0x3320646e, 0x79622d32, 0x6b206574]"

definition le_Uint32 :: "byte list \<Rightarrow> u32" where
  "le_Uint32 bs = Uint32 (rev (take 4 bs))"

definition le_PutUint32 :: "u32 \<Rightarrow> byte list" where
  "le_PutUint32 v = rev (PutUint32 v)"

definition quarter :: "u32 \<Rightarrow> u32 \<Rightarrow> u32 \<Rightarrow> u32 \<Rightarrow> u32 \<times> u32 \<times> u32 \<times> u32" where
  "quarter a b c d =
     (let a = a + b;
          d = d XOR a;
          d = push_bit 16 d OR drop_bit 16 d;
          c = c + d;
          b = b XOR c;
          b = push_bit 12 b OR drop_bit 20 b;
          a = a + b;
          d = d XOR a;
          d = push_bit 8 d OR drop_bit 24 d;
          c = c + d;
          b = b XOR c;
          b = push_bit 7 b OR drop_bit 25 b
      in (a, b, c, d))"

definition quarter_at :: "u32 list \<Rightarrow> nat \<times> nat \<times> nat \<times> nat \<Rightarrow> u32 list" where
  "quarter_at x is =
     (let (i, j, k, l) = is;
          (a, b, c, d) = quarter (x ! i) (x ! j) (x ! k) (x ! l)
      in x[i := a, j := b, k := c, l := d])"

definition double_round :: "u32 list \<Rightarrow> u32 list" where
  "double_round x =
     foldl quarter_at x
       [(0, 4, 8, 12), (1, 5, 9, 13), (2, 6, 10, 14), (3, 7, 11, 15),
        (0, 5, 10, 15), (1, 6, 11, 12), (2, 7, 8, 13), (3, 4, 9, 14)]"

definition block_state :: "byte list \<Rightarrow> byte list \<Rightarrow> u32 \<Rightarrow> u32 list" where
  "block_state key nonce counter =
     sigma @ map (\<lambda>i. le_Uint32 (drop (4 * i) key)) [0..<8] @ [counter] @
     map (\<lambda>i. le_Uint32 (drop (4 * i) nonce)) [0..<3]"

definition block64 :: "byte list \<Rightarrow> byte list \<Rightarrow> u32 \<Rightarrow> byte list" where
  "block64 key nonce counter =
     (let s = block_state key nonce counter;
          x = (double_round ^^ 10) s
      in concat (map2 (\<lambda>a b. le_PutUint32 (a + b)) x s))"

text \<open>
  The loop of \<^verbatim>\<open>XORKeyStreamAt\<close>: the bytes it stores from the front of \<^verbatim>\<open>dst\<close>. \<open>skip\<close> is a
  remainder modulo \<open>blockSize\<close> in the first round and 0 in the others, so the test on it only
  makes the recursion total.
\<close>

function XORKeyStream_loop :: "byte list \<Rightarrow> byte list \<Rightarrow> byte list \<Rightarrow> u32 \<Rightarrow> nat \<Rightarrow> byte list" where
  "XORKeyStream_loop src key nonce counter skip =
     (if src = [] \<or> blockSize \<le> skip then []
      else
        (let block = block64 key nonce counter;
             tk = blockSize - skip;
             tk = (if tk > length src then length src else tk)
         in map (\<lambda>i. src ! i XOR block ! (skip + i)) [0..<tk] @
            XORKeyStream_loop (drop tk src) key nonce (counter + 1) 0))"
  by auto
termination by (relation "measure (\<lambda>(src, _). length src)") (auto simp: Let_def)

declare XORKeyStream_loop.simps [simp del]

definition XORKeyStreamAt :: "byte list \<Rightarrow> byte list \<Rightarrow> byte list \<Rightarrow> byte list \<Rightarrow> u64 \<Rightarrow> byte list" where
  "XORKeyStreamAt dst src key nonce offset =
     (let src = (if length dst < length src then take (length dst) src else src);
          counter = ucast (offset div word_of_nat blockSize) :: u32;
          skip = unat (offset mod word_of_nat blockSize);
          out = XORKeyStream_loop src key nonce counter skip
      in out @ drop (length out) dst)"

subsection \<open>The quarter round is the one of RFC 8439\<close>

lemma rotl_shifts:
  fixes w :: u32
  assumes "n \<le> 32"
  shows "push_bit n w OR drop_bit (32 - n) w = word_rotl n w"
proof (rule bit_word_eqI)
  fix i assume "i < LENGTH(32)"
  then show "bit (push_bit n w OR drop_bit (32 - n) w) i = bit (word_rotl n w) i"
    using assms
    by (auto simp: bit_or_iff bit_push_bit_iff bit_drop_bit_eq bit_word_rotl_iff
        bit_imp_le_length not_le mod_if add.commute [of i 32] dest: bit_imp_le_length)
qed

definition rfc8439_quarter :: "u32 \<Rightarrow> u32 \<Rightarrow> u32 \<Rightarrow> u32 \<Rightarrow> u32 \<times> u32 \<times> u32 \<times> u32" where
  "rfc8439_quarter a b c d =
     (let a1 = a + b; d1 = word_rotl 16 (d XOR a1);
          c1 = c + d1; b1 = word_rotl 12 (b XOR c1);
          a2 = a1 + b1; d2 = word_rotl 8 (d1 XOR a2);
          c2 = c1 + d2; b2 = word_rotl 7 (b1 XOR c2)
      in (a2, b2, c2, d2))"

lemma quarter_rfc8439: "quarter a b c d = rfc8439_quarter a b c d"
  using rotl_shifts [of 16] rotl_shifts [of 12] rotl_shifts [of 8] rotl_shifts [of 7]
  by (simp add: quarter_def rfc8439_quarter_def Let_def)

subsection \<open>Sizes\<close>

lemma length_quarter_at [simp]: "length (quarter_at x is) = length x"
  by (simp add: quarter_at_def split_beta Let_def)

lemma length_double_round [simp]: "length (double_round x) = length x"
  by (simp add: double_round_def)

lemma length_rounds [simp]: "length ((double_round ^^ n) x) = length x"
  by (induction n) auto

lemma length_block_state [simp]: "length (block_state key nonce counter) = 16"
  by (simp add: block_state_def sigma_def)

lemma length_block64 [simp]: "length (block64 key nonce counter) = 64"
proof -
  have "length (concat (map2 (\<lambda>a b. le_PutUint32 (a + b)) xs ys)) = 4 * length xs"
    if "length xs = length ys" for xs ys
    using that by (induction xs ys rule: list_induct2) (auto simp: le_PutUint32_def)
  then show ?thesis by (simp add: block64_def Let_def)
qed

subsection \<open>Keystream ciphers\<close>

text \<open>Byte \<open>i\<close> of the keystream, and masking a chunk that starts at byte \<open>off\<close>.\<close>

definition keystream :: "byte list \<Rightarrow> byte list \<Rightarrow> nat \<Rightarrow> byte" where
  "keystream key nonce i = block64 key nonce (word_of_nat (i div 64)) ! (i mod 64)"

fun mask_chunks :: "(nat \<Rightarrow> byte list \<Rightarrow> byte list) \<Rightarrow> nat \<Rightarrow> byte list list \<Rightarrow> byte list list" where
  "mask_chunks f off [] = []"
| "mask_chunks f off (c # cs) = f off c # mask_chunks f (off + length c) cs"

locale keystream_cipher =
  fixes ks :: "nat \<Rightarrow> byte"
    and mask :: "nat \<Rightarrow> byte list \<Rightarrow> byte list"
  assumes mask_nth: "mask off src = map (\<lambda>i. src ! i XOR ks (off + i)) [0..<length src]"
begin

lemma mask_length [simp]: "length (mask off src) = length src"
  by (simp add: mask_nth)

lemma mask_involution: "mask off (mask off src) = src"
  by (rule nth_equalityI) (simp_all add: mask_nth xor.assoc)

lemma mask_append: "mask off (xs @ ys) = mask off xs @ mask (off + length xs) ys"
  by (rule nth_equalityI) (auto simp: mask_nth nth_append add.assoc)

lemma mask_Nil [simp]: "mask off [] = []"
  by (simp add: mask_nth)

text \<open>Masking a stream chunk by chunk is masking it whole.\<close>

lemma concat_mask_chunks: "concat (mask_chunks mask off cs) = mask off (concat cs)"
  by (induction cs arbitrary: off) (simp_all add: mask_append)

lemma rechunk:
  "concat cs = concat (mask_chunks mask off ds) \<Longrightarrow> concat (mask_chunks mask off cs) = concat ds"
  by (simp add: concat_mask_chunks mask_involution)

end

lemma keystream_step:
  "skip < 64 \<Longrightarrow> i < 64 - skip \<Longrightarrow>
   block64 key nonce (word_of_nat c) ! (skip + i) = keystream key nonce (64 * c + skip + i)"
proof -
  assume "skip < 64" "i < 64 - skip"
  then have "(64 * c + skip + i) div 64 = c" "(64 * c + skip + i) mod 64 = skip + i"
    by (simp_all add: add.assoc)
  then show ?thesis by (simp add: keystream_def)
qed

lemma XORKeyStream_loop_keystream:
  "skip < 64 \<Longrightarrow>
   XORKeyStream_loop src key nonce (word_of_nat c) skip =
     map (\<lambda>i. src ! i XOR keystream key nonce (64 * c + skip + i)) [0..<length src]"
proof (induction "length src" arbitrary: src c skip rule: less_induct)
  case less
  show ?case
  proof (cases "src = []")
    case True
    then show ?thesis by (simp add: XORKeyStream_loop.simps)
  next
    case False
    define tk where "tk = (if 64 - skip > length src then length src else 64 - skip)"
    have tk: "tk \<le> length src" "tk \<le> 64 - skip" "0 < tk" using False less.prems by (auto simp: tk_def)
    have head: "map (\<lambda>i. src ! i XOR block64 key nonce (word_of_nat c) ! (skip + i)) [0..<tk] =
        map (\<lambda>i. src ! i XOR keystream key nonce (64 * c + skip + i)) [0..<tk]"
      using keystream_step [OF less.prems] tk by (intro map_cong) auto
    have "XORKeyStream_loop (drop tk src) key nonce (word_of_nat (Suc c)) 0 =
        map (\<lambda>i. drop tk src ! i XOR keystream key nonce (64 * Suc c + 0 + i)) [0..<length (drop tk src)]"
      using tk False by (intro less.hyps) auto
    also have "\<dots> = map (\<lambda>i. src ! i XOR keystream key nonce (64 * c + skip + i)) [tk..<length src]"
    proof (cases "tk = length src")
      case False
      then have "tk = 64 - skip" by (auto simp: tk_def split: if_splits)
      with less.prems tk show ?thesis
        by (intro nth_equalityI) (auto simp: algebra_simps)
    qed simp
    finally have tail: "XORKeyStream_loop (drop tk src) key nonce (word_of_nat (Suc c)) 0 =
        map (\<lambda>i. src ! i XOR keystream key nonce (64 * c + skip + i)) [tk..<length src]" .
    have "[0..<length src] = [0..<tk] @ [tk..<length src]"
      using tk(1) by (metis le_add_diff_inverse upt_add_eq_append zero_le)
    then show ?thesis
      using False less.prems head tail
      by (subst XORKeyStream_loop.simps)
        (simp add: Let_def blockSize_def tk_def [symmetric] add.commute [of 1])
  qed
qed

lemma XORKeyStreamAt_keystream:
  assumes "length src \<le> length dst"
  shows "XORKeyStreamAt dst src key nonce offset =
    map (\<lambda>i. src ! i XOR keystream key nonce (unat offset + i)) [0..<length src] @ drop (length src) dst"
proof -
  let ?c = "unat offset div 64" and ?s = "unat offset mod 64"
  have c: "(ucast (offset div word_of_nat blockSize) :: u32) = word_of_nat ?c"
    by (simp add: blockSize_def word_unat_eq_iff unsigned_ucast_eq unat_of_nat unat_div take_bit_eq_mod)
  have s: "unat (offset mod word_of_nat blockSize) = ?s"
    by (simp add: blockSize_def unat_mod)
  show ?thesis
    using assms XORKeyStream_loop_keystream [of ?s src key nonce ?c]
    by (simp add: XORKeyStreamAt_def c s Let_def)
qed

definition xor_at :: "byte list \<Rightarrow> byte list \<Rightarrow> nat \<Rightarrow> byte list \<Rightarrow> byte list" where
  "xor_at key nonce off src =
     map (\<lambda>i. src ! i XOR keystream key nonce (off + i)) [0..<length src]"

interpretation chacha: keystream_cipher "keystream key nonce" "xor_at key nonce" for key nonce
  by unfold_locales (simp add: xor_at_def)

text \<open>In place, as every caller uses it.\<close>

lemma XORKeyStreamAt_in_place: "XORKeyStreamAt p p key nonce off = xor_at key nonce (unat off) p"
  by (simp add: XORKeyStreamAt_keystream xor_at_def)

end
