(* ===== verification/Morph_Conn.thy ===== *)
theory Morph_Conn
  imports Morph_Prelude Morph_Hello Chacha20
begin

section \<open>morph: masked connections and datagrams\<close>

text \<open>
  \<^verbatim>\<open>morph/morph.go\<close> and the reading half of \<^verbatim>\<open>morph/prehello.go\<close>. A connection is a record:
  the socket's reader and writer, the two stream offsets, the pending prefix and what the
  bootstrap left. The entropy source is a reader, the environment variable an option. Locks
  are left out: each operation is one step.
\<close>

definition udpPreludeLen :: nat where "udpPreludeLen = 12"
definition streamLimit :: u64 where "streamLimit = 2 ^ 38 - 64"

type_synonym preludePolicy = byte

definition preludeFade :: preludePolicy where "preludeFade = 0"
definition preludeFull8 :: preludePolicy where "preludeFull8 = 1"
definition preludeLow7 :: preludePolicy where "preludeLow7 = 2"

definition errPolicy :: error where
  "errPolicy = New ''NOW_MORPH_TCP_PRELUDE must be fade, full8 or low7''"

definition preludePolicyFromEnv :: "string option \<Rightarrow> error + preludePolicy" where
  "preludePolicyFromEnv env =
     (case env of
        None \<Rightarrow> Inr preludeFade
      | Some v \<Rightarrow>
          if v = ''fade'' then Inr preludeFade
          else if v = ''full8'' then Inr preludeFull8
          else if v = ''low7'' then Inr preludeLow7
          else Inl errPolicy)"

subsection \<open>Sampling\<close>

text \<open>Each round that rejects its byte reads one more, so the loop ends with the entropy.\<close>

function sampleBelow :: "byte \<Rightarrow> byte \<Rightarrow> reader \<Rightarrow> error + byte \<times> reader" where
  "sampleBelow b upper r =
     (if upper = 0 then Inl (New ''nw3: empty Morph sample range'')
      else if unat b \<ge> 256 - 256 mod unat upper
      then (case ReadFull 1 r of
              Inl e \<Rightarrow> Inl e
            | Inr (next, r') \<Rightarrow> sampleBelow (next ! 0) upper r')
      else Inr (b mod upper, r))"
  by auto
termination by (relation "measure (\<lambda>(b, upper, r). length (rd_buf r))")
  (auto simp: ReadFull_Inr prepend_def)

declare sampleBelow.simps [simp del]

fun printable_loop :: "byte list \<Rightarrow> nat list \<Rightarrow> reader \<Rightarrow> error + byte list \<times> reader" where
  "printable_loop p [] r = Inr (p, r)"
| "printable_loop p (i # is) r =
     (case sampleBelow (p ! i) 95 r of
        Inl e \<Rightarrow> Inl e
      | Inr (printable, r) \<Rightarrow> printable_loop (p[i := 0x20 + printable]) is r)"

definition low7_range :: "byte list \<Rightarrow> nat list \<Rightarrow> byte list" where
  "low7_range p is = foldl (\<lambda>p i. p[i := p ! i AND 0x7f]) p is"

definition generatePreludeWith :: "preludePolicy \<Rightarrow> reader \<Rightarrow> error + byte list \<times> reader" where
  "generatePreludeWith policy r =
     (case ReadFull preludeLen r of
        Inl e \<Rightarrow> Inl e
      | Inr (prelude, r) \<Rightarrow>
          if policy = preludeFade then
            (case ReadFull 2 r of
               Inl e \<Rightarrow> Inl e
             | Inr (boundaries, r) \<Rightarrow>
                 (case sampleBelow (boundaries ! 0) 5 r of
                    Inl e \<Rightarrow> Inl e
                  | Inr (aSample, r) \<Rightarrow>
                      (case sampleBelow (boundaries ! 1) 17 r of
                         Inl e \<Rightarrow> Inl e
                       | Inr (bSample, r) \<Rightarrow>
                           (let a = 8 + unat aSample;
                                b = 16 + unat bSample
                            in case printable_loop prelude [0..<a] r of
                                 Inl e \<Rightarrow> Inl e
                               | Inr (prelude, r) \<Rightarrow> Inr (low7_range prelude [a..<b], r)))))
          else if policy = preludeFull8 then Inr (prelude, r)
          else if policy = preludeLow7 then Inr (low7_range prelude [0..<preludeLen], r)
          else Inl errPolicy)"

definition generateUDPPreludeWith :: "string \<Rightarrow> reader \<Rightarrow> error + byte list \<times> reader" where
  "generateUDPPreludeWith policy r =
     (case ReadFull udpPreludeLen r of
        Inl e \<Rightarrow> Inl e
      | Inr (out, r) \<Rightarrow>
          if policy = ''full8'' then Inr (out, r)
          else if policy = ''low7'' then Inr (low7_range out [0..<udpPreludeLen], r)
          else if policy = ''fade'' then
            (case printable_loop out [0..<2] r of
               Inl e \<Rightarrow> Inl e
             | Inr (out, r) \<Rightarrow> Inr (low7_range out [2..<10], r))
          else Inl (New ''NOW_MORPH_UDP_PRELUDE must be fade, full8 or low7''))"

subsection \<open>Stream connections\<close>

record tcpConn =
  tc_in :: reader
  tc_out :: writer
  tc_linger :: "int option"
  tc_lingerErr :: "error option"
  tc_readKey :: "byte list"
  tc_writeKey :: "byte list"
  tc_nonce :: "byte list"
  tc_readOff :: u64
  tc_writeOff :: u64
  tc_writePref :: "byte list"
  tc_server :: bool
  tc_state :: "preludeState option"
  tc_pending :: "byte list"
  tc_bootstrapped :: bool
  tc_bootErr :: "error option"
  tc_silent :: "error option"

definition plain_conn :: "reader \<Rightarrow> writer \<Rightarrow> tcpConn" where
  "plain_conn i out =
     \<lparr>tc_in = i, tc_out = out, tc_linger = None, tc_lingerErr = None, tc_readKey = [], tc_writeKey = [],
      tc_nonce = replicate nonceLen 0, tc_readOff = 0, tc_writeOff = 0, tc_writePref = [],
      tc_server = False, tc_state = None, tc_pending = [], tc_bootstrapped = False,
      tc_bootErr = None, tc_silent = None\<rparr>"

text \<open>The result carries the keys, whose counter is spent even when a later step fails.\<close>

definition WrapTCPClient ::
  "reader \<Rightarrow> writer \<Rightarrow> Keys \<Rightarrow> string option \<Rightarrow> reader \<Rightarrow> (error + tcpConn) \<times> Keys \<times> reader" where
  "WrapTCPClient i out keys env entropy =
     (case k_state keys of
        None \<Rightarrow> (Inl errPreludeState, keys, entropy)
      | Some st \<Rightarrow>
          (case allocate st entropy of
             (Inl e, st, entropy) \<Rightarrow> (Inl e, keys\<lparr>k_state := Some st\<rparr>, entropy)
           | (Inr (identity, counter), st, entropy) \<Rightarrow>
               (let keys = keys\<lparr>k_state := Some st\<rparr>
                in case preludePolicyFromEnv env of
                     Inl e \<Rightarrow> (Inl e, keys, entropy)
                   | Inr policy \<Rightarrow>
                       (case generatePreludeWith policy entropy of
                          Inl e \<Rightarrow> (Inl e, keys, entropy)
                        | Inr (prelude, entropy) \<Rightarrow>
                            (case ReadFull nonceLen entropy of
                               Inl e \<Rightarrow> (Inl e, keys, entropy)
                             | Inr (nonce, entropy) \<Rightarrow>
                                 (Inr ((plain_conn i out)\<lparr>
                                    tc_readKey := TCPS2C keys, tc_writeKey := TCPC2S keys,
                                    tc_nonce := nonce,
                                    tc_writePref := encodePrelude st prelude nonce identity counter @ nonce\<rparr>),
                                  keys, entropy))))))"

definition WrapTCPServer :: "reader \<Rightarrow> writer \<Rightarrow> Keys \<Rightarrow> tcpConn" where
  "WrapTCPServer i out keys =
     (plain_conn i out)\<lparr>tc_readKey := TCPC2S keys, tc_writeKey := TCPS2C keys,
        tc_server := True, tc_state := k_state keys\<rparr>"

definition setLinger :: "tcpConn \<Rightarrow> int \<Rightarrow> error option \<times> tcpConn" where
  "setLinger c seconds =
     (case tc_lingerErr c of
        Some e \<Rightarrow> (Some e, c)
      | None \<Rightarrow> (None, c\<lparr>tc_linger := Some seconds\<rparr>))"

text \<open>The two readings of the clock are arguments.\<close>

definition ReleaseAuthenticated :: "tcpConn \<Rightarrow> time \<Rightarrow> time \<Rightarrow> time \<Rightarrow> error option \<times> tcpConn" where
  "ReleaseAuthenticated c deadline now1 now2 =
     (let expired = New ''nw3: morph tcp authentication deadline expired''
      in if \<not> tc_server c then (None, c)
         else if \<not> deadline > now1 then (Some expired, snd (setLinger c 0))
         else
           (case setLinger c (-1) of
              (Some e, c) \<Rightarrow> (Some e, c)
            | (None, c) \<Rightarrow>
                if \<not> deadline > now2 then (Some expired, snd (setLinger c 0)) else (None, c)))"

definition checkLimit :: "u64 \<Rightarrow> int \<Rightarrow> error option" where
  "checkLimit offset n =
     (if n < 0 \<or> offset + word_of_int n > streamLimit
      then Some (New ''nw3: Morph TCP keystream exhausted'') else None)"

text \<open>
  \<^verbatim>\<open>readPlainUntil\<close>: its loop runs at most once, because \<^verbatim>\<open>io.ReadFull\<close> either fills the
  whole missing part or fails.
\<close>

definition readPlainUntil :: "tcpConn \<Rightarrow> byte list \<Rightarrow> nat \<Rightarrow> (error + byte list) \<times> tcpConn" where
  "readPlainUntil c buf n =
     (if length buf < n
      then
        (case checkLimit (tc_readOff c) (int (n - length buf)) of
           Some e \<Rightarrow> (Inl e, c)
         | None \<Rightarrow>
             (case ReadFull (n - length buf) (tc_in c) of
                Inl e \<Rightarrow>
                  (Inl (if errors_Is e ErrUnexpectedEOF \<or> errors_Is e EOF then ErrClientHello else e), c)
              | Inr (next, i) \<Rightarrow>
                  (let next = XORKeyStreamAt next next (tc_readKey c) (tc_nonce c) (tc_readOff c)
                   in (Inr (buf @ next),
                       c\<lparr>tc_in := i, tc_readOff := tc_readOff c + word_of_nat (length next)\<rparr>))))
      else (Inr buf, c))"

text \<open>
  One round of the loop of \<^verbatim>\<open>readClientHello\<close>: a whole record is read and appended to the
  handshake. \<open>messageLen\<close> is \<open>None\<close> for the code's \<^verbatim>\<open>-1\<close>; \<open>first\<close> is \<^verbatim>\<open>records == 0\<close>.
\<close>

type_synonym hello_state = "byte list \<times> byte list \<times> nat option \<times> nat"

definition hello_header_bad :: "bool \<Rightarrow> byte list \<Rightarrow> bool" where
  "hello_header_bad first header \<longleftrightarrow>
     first \<and> (header ! 0 = 0x80 \<or> header ! 0 \<noteq> tlsHandshake \<or> Uint16 (take 2 (drop 1 header)) \<ge> 0x1000) \<or>
     header ! 0 \<noteq> tlsHandshake \<or> unat (Uint16 (take 2 (drop 3 header))) > tlsMaxCipher"

definition hello_append :: "byte list \<Rightarrow> byte list \<Rightarrow> nat option \<Rightarrow> nat \<Rightarrow> error + hello_state" where
  "hello_append buf handshake messageLen tot =
     (if length handshake \<ge> 4 \<and> messageLen = None
      then
        (if handshake ! 0 \<noteq> tlsClientHello \<or> message_len handshake > tlsMaxHandshake then Inl ErrClientHello
         else Inr (buf, handshake, Some (message_len handshake), tot))
      else Inr (buf, handshake, messageLen, tot))"

definition hello_record :: "bool \<Rightarrow> tcpConn \<Rightarrow> hello_state \<Rightarrow> (error + hello_state) \<times> tcpConn" where
  "hello_record first c st =
     (let (buf, handshake, messageLen, consumed) = st
      in case readPlainUntil c buf (consumed + tlsRecordHeader) of
           (Inl e, c) \<Rightarrow> (Inl e, c)
         | (Inr buf, c) \<Rightarrow>
             (let header = take tlsRecordHeader (drop consumed buf);
                  recordLen = unat (Uint16 (take 2 (drop 3 header)));
                  tot = consumed + tlsRecordHeader + recordLen
              in if hello_header_bad first header then (Inl ErrClientHello, c)
                 else if tot > tlsMaxHandshake + tlsMaxRecords * tlsRecordHeader then (Inl ErrClientHello, c)
                 else
                   (case readPlainUntil c buf tot of
                      (Inl e, c) \<Rightarrow> (Inl e, c)
                    | (Inr buf, c) \<Rightarrow>
                        (hello_append buf
                           (handshake @ take recordLen (drop (consumed + tlsRecordHeader) buf)) messageLen tot,
                         c))))"

definition hello_complete :: "hello_state \<Rightarrow> bool" where
  "hello_complete st =
     (case st of (buf, handshake, messageLen, consumed) \<Rightarrow>
        (case messageLen of None \<Rightarrow> False | Some m \<Rightarrow> length handshake \<ge> 4 + m))"

text \<open>
  The loop with \<open>n\<close> records left to read. The structural check never panics
  (\<open>clientHelloWellFormed_grammar\<close>).
\<close>

primrec readClientHello_loop :: "nat \<Rightarrow> tcpConn \<Rightarrow> hello_state \<Rightarrow> (error + byte list) \<times> tcpConn" where
  "readClientHello_loop 0 c st = (Inl ErrClientHello, c)"
| "readClientHello_loop (Suc n) c st =
     (if hello_complete st then (Inl ErrClientHello, c)
      else
        (case hello_record (Suc n = tlsMaxRecords) c st of
           (Inl e, c) \<Rightarrow> (Inl e, c)
         | (Inr st, c) \<Rightarrow>
             if hello_complete st
             then
               (case st of (buf, handshake, messageLen, consumed) \<Rightarrow>
                  if clientHelloWellFormed (take (4 + the messageLen) handshake) \<noteq> Ret True
                  then (Inl ErrClientHello, c) else (Inr buf, c))
             else readClientHello_loop n c st))"

definition readClientHello :: "tcpConn \<Rightarrow> (error + byte list) \<times> tcpConn" where
  "readClientHello c = readClientHello_loop tlsMaxRecords c ([], [], None, 0)"

text \<open>
  Between the check of the counter and its commit the bootstrap waits for the ClientHello;
  \<open>others\<close> are the commits of other connections in that time.
\<close>

definition bootstrapOnce :: "(u64 \<times> u64) list \<Rightarrow> tcpConn \<Rightarrow> error option \<times> tcpConn" where
  "bootstrapOnce others c =
     (case tc_state c of
        None \<Rightarrow> (Some errPreludeState, c)
      | Some st \<Rightarrow>
          (case setLinger c 0 of
             (Some e, c) \<Rightarrow> (Some e, c)
           | (None, c) \<Rightarrow>
               (case ReadFull (preludeLen + nonceLen) (tc_in c) of
                  Inl e \<Rightarrow> (Some e, c)
                | Inr (head, i) \<Rightarrow>
                    (let prelude = take preludeLen head;
                         nonce = drop preludeLen head;
                         c = c\<lparr>tc_in := i, tc_nonce := nonce\<rparr>;
                         (identity, counter, matched) = decodePrelude st prelude nonce
                     in if \<not> matched \<or> \<not> counterValid counter then (Some ErrPreludeRejected, c)
                        else
                          (let (reg, st) = ps_registry st;
                               c = c\<lparr>tc_state := Some st\<rparr>
                           in if \<not> registry_precheck reg identity counter then (Some ErrPreludeRejected, c)
                              else
                                (case readClientHello c of
                                   (Inl e, c) \<Rightarrow> (Some e, c)
                                 | (Inr pending, c) \<Rightarrow>
                                     (let (reg, ok) = registry_commit (run registry_step reg others) identity counter;
                                          c = c\<lparr>tc_state := Some (st\<lparr>ps_replay := Some reg\<rparr>)\<rparr>
                                      in if \<not> ok then (Some ErrPreludeRejected, c)
                                         else (None, c\<lparr>tc_pending := pending\<rparr>))))))))"

definition bootstrap :: "(u64 \<times> u64) list \<Rightarrow> tcpConn \<Rightarrow> error option \<times> tcpConn" where
  "bootstrap others c =
     (case tc_bootErr c of
        Some e \<Rightarrow> (Some e, c)
      | None \<Rightarrow>
          if tc_bootstrapped c then (None, c)
          else
            (case bootstrapOnce others c of
               (Some e, c) \<Rightarrow> (Some e, c\<lparr>tc_bootErr := Some e\<rparr>)
             | (None, c) \<Rightarrow> (None, c\<lparr>tc_bootstrapped := True\<rparr>)))"

text \<open>The part of \<^verbatim>\<open>Read\<close> that reads the socket.\<close>

definition Read_conn :: "tcpConn \<Rightarrow> nat \<Rightarrow> byte list \<times> error option \<times> tcpConn" where
  "Read_conn c k =
     (if k = 0 then ([], None, c)
      else
        (case checkLimit (tc_readOff c) (int k) of
           Some e \<Rightarrow> ([], Some e, c)
         | None \<Rightarrow>
             (let (bs, err, i) = rd_Read k (tc_in c);
                  c = c\<lparr>tc_in := i\<rparr>
              in if bs \<noteq> []
                 then (XORKeyStreamAt bs bs (tc_readKey c) (tc_nonce c) (tc_readOff c), err,
                       c\<lparr>tc_readOff := tc_readOff c + word_of_nat (length bs)\<rparr>)
                 else (bs, err, c))))"

definition tcpConn_Read ::
  "(u64 \<times> u64) list \<Rightarrow> tcpConn \<Rightarrow> nat \<Rightarrow> byte list \<times> error option \<times> tcpConn" where
  "tcpConn_Read others c k =
     (if tc_server c
      then
        (case bootstrap others c of
           (Some e, c) \<Rightarrow>
             ([], Some e,
              if errors_Is e ErrPreludeRejected \<or> errors_Is e ErrClientHello
              then c\<lparr>tc_silent := Some e\<rparr> else c)
         | (None, c) \<Rightarrow>
             if tc_pending c \<noteq> []
             then (take k (tc_pending c), None, c\<lparr>tc_pending := drop k (tc_pending c)\<rparr>)
             else Read_conn c k)
      else Read_conn c k)"

text \<open>The first part of \<^verbatim>\<open>Write\<close>: the prelude and the nonce go out before any data.\<close>

definition write_pref :: "tcpConn \<Rightarrow> error option \<times> tcpConn" where
  "write_pref c =
     (if tc_writePref c \<noteq> []
      then
        (let (n, err, w) = wr_Write (tc_writePref c) (tc_out c);
             c = c\<lparr>tc_out := w, tc_writePref := drop (nat n) (tc_writePref c)\<rparr>
         in if err \<noteq> None \<or> tc_writePref c \<noteq> []
            then (Some (case err of None \<Rightarrow> ErrShortWrite | Some e \<Rightarrow> e), c)
            else (None, c))
      else (None, c))"

definition tcpConn_Write :: "tcpConn \<Rightarrow> byte list \<Rightarrow> int \<times> error option \<times> tcpConn" where
  "tcpConn_Write c p =
     (case write_pref c of
        (Some e, c) \<Rightarrow> (0, Some e, c)
      | (None, c) \<Rightarrow>
          if p = [] then (0, None, c)
          else
            (case checkLimit (tc_writeOff c) (int (length p)) of
               Some e \<Rightarrow> (0, Some e, c)
             | None \<Rightarrow>
                 (let buf = XORKeyStreamAt p p (tc_writeKey c) (tc_nonce c) (tc_writeOff c);
                      (n, err, w) = wr_Write buf (tc_out c)
                  in (n, err, c\<lparr>tc_out := w, tc_writeOff := tc_writeOff c + word_of_int n\<rparr>))))"

subsection \<open>Datagrams\<close>

definition quinnVersions :: "u32 list" where
  "quinnVersions = [0x00000001, 0xff00001d, 0xff00001e, 0xff00001f, 0xff000020, 0xff000021, 0xff000022]"

definition supportedQUICPacket :: "byte list \<Rightarrow> bool" where
  "supportedQUICPacket packet =
     (if length packet = 0 then False
      else if packet ! 0 AND 0x80 = 0 then True
      else if length packet < 5 then False
      else Uint32 (take 4 (drop 1 packet)) \<in> set quinnVersions)"

definition maskDatagram :: "byte list \<Rightarrow> byte list \<Rightarrow> reader \<Rightarrow> error + byte list \<times> reader" where
  "maskDatagram p key rnd =
     (case ReadFull nonceLen rnd of
        Inl e \<Rightarrow> Inl e
      | Inr (nonce, rnd) \<Rightarrow>
          (let body = replicate (length p) 0;
               body = (if length p > 0 then XORKeyStreamAt body p key nonce 0 else body)
           in Inr (nonce @ body, rnd)))"

text \<open>The result is what is copied into a buffer of \<open>k\<close> bytes, and Go's \<^verbatim>\<open>ok\<close>.\<close>

definition unmaskDatagram :: "nat \<Rightarrow> byte list \<Rightarrow> byte list \<Rightarrow> bool \<Rightarrow> byte list \<times> bool" where
  "unmaskDatagram k wire key server =
     (if length wire \<le> nonceLen then ([], False)
      else
        (let nonce = take nonceLen wire;
             payload = drop nonceLen wire;
             payload = XORKeyStreamAt payload payload key nonce 0
         in if server \<and> \<not> supportedQUICPacket payload then ([], False)
            else (take k payload, True)))"

text \<open>A packet socket: what was sent, a plan for the next sends, and what is still to arrive.\<close>

record packetConn =
  pc_sent :: "byte list list"
  pc_plan :: "(int \<times> error option) list"
  pc_in :: "byte list list"
  pc_inErr :: error
  pc_txKey :: "byte list"
  pc_rxKey :: "byte list"
  pc_server :: bool
  pc_prelude :: "byte list"

definition sock_WriteTo :: "packetConn \<Rightarrow> byte list \<Rightarrow> int \<times> error option \<times> packetConn" where
  "sock_WriteTo c p =
     (case pc_plan c of
        [] \<Rightarrow> (int (length p), None, c\<lparr>pc_sent := pc_sent c @ [p]\<rparr>)
      | (n, e) # rest \<Rightarrow>
          (n, e, c\<lparr>pc_plan := rest, pc_sent := (if n < int (length p) then pc_sent c else pc_sent c @ [p])\<rparr>))"

definition WrapPacketConn ::
  "packetConn \<Rightarrow> Keys \<Rightarrow> bool \<Rightarrow> (error + string) \<Rightarrow> reader \<Rightarrow> error + packetConn \<times> reader" where
  "WrapPacketConn pc keys client udpPolicy entropy =
     (let (tx, rx) = (if client then (UDPC2S keys, UDPS2C keys) else (UDPS2C keys, UDPC2S keys));
          c = pc\<lparr>pc_txKey := tx, pc_rxKey := rx, pc_server := \<not> client, pc_prelude := []\<rparr>
      in if client
         then
           (case udpPolicy of
              Inl e \<Rightarrow> Inl e
            | Inr policy \<Rightarrow>
                (case generateUDPPreludeWith policy entropy of
                   Inl e \<Rightarrow> Inl e
                 | Inr (prelude, entropy) \<Rightarrow> Inr (c\<lparr>pc_prelude := prelude\<rparr>, entropy)))
         else Inr (c, entropy))"

definition writeMasked :: "packetConn \<Rightarrow> byte list \<Rightarrow> reader \<Rightarrow> int \<times> error option \<times> packetConn \<times> reader" where
  "writeMasked c p rnd =
     (case maskDatagram p (pc_txKey c) rnd of
        Inl e \<Rightarrow> (0, Some e, c, rnd)
      | Inr (wire, rnd) \<Rightarrow>
          (case sock_WriteTo c wire of
             (n, err, c) \<Rightarrow>
               if n < int nonceLen then (0, err, c, rnd) else (n - int nonceLen, err, c, rnd)))"

definition packetConn_WriteTo :: "packetConn \<Rightarrow> byte list \<Rightarrow> reader \<Rightarrow> int \<times> error option \<times> packetConn \<times> reader" where
  "packetConn_WriteTo c p rnd =
     (let prelude = pc_prelude c;
          c = c\<lparr>pc_prelude := []\<rparr>
      in if length prelude > 0
         then
           (case sock_WriteTo c prelude of
              (n, err, c) \<Rightarrow>
                if n < int (length prelude)
                then (0, Some (case err of None \<Rightarrow> ErrShortWrite | Some e \<Rightarrow> e), c\<lparr>pc_prelude := prelude\<rparr>, rnd)
                else writeMasked c p rnd)
         else writeMasked c p rnd)"

fun ReadFrom_loop :: "nat \<Rightarrow> byte list list \<Rightarrow> byte list \<Rightarrow> bool \<Rightarrow> (byte list \<times> byte list list) option" where
  "ReadFrom_loop k [] key server = None"
| "ReadFrom_loop k (d # rest) key server =
     (let (bs, ok) = unmaskDatagram k (take (nonceLen + k) d) key server
      in if \<not> ok then ReadFrom_loop k rest key server else Some (bs, rest))"

definition packetConn_ReadFrom :: "packetConn \<Rightarrow> nat \<Rightarrow> (error + byte list) \<times> packetConn" where
  "packetConn_ReadFrom c k =
     (case ReadFrom_loop k (pc_in c) (pc_rxKey c) (pc_server c) of
        None \<Rightarrow> (Inl (pc_inErr c), c\<lparr>pc_in := []\<rparr>)
      | Some (bs, rest) \<Rightarrow> (Inr bs, c\<lparr>pc_in := rest\<rparr>))"

subsection \<open>Sampling is in range and unbiased\<close>

lemma sampleBelow_range: "sampleBelow b u r = Inr (v, r') \<Longrightarrow> v < u"
proof (induction b u r rule: sampleBelow.induct)
  case (1 b u r)
  show ?case
  proof (cases "u = 0 \<or> unat b \<ge> 256 - 256 mod unat u")
    case True
    with "1.prems" have u: "u \<noteq> 0" and b: "unat b \<ge> 256 - 256 mod unat u"
      by (auto simp: sampleBelow.simps [of b u r])
    then obtain nx r1 where "ReadFull 1 r = Inr (nx, r1)" "sampleBelow (nx ! 0) u r1 = Inr (v, r')"
      using "1.prems" by (auto simp: sampleBelow.simps [of b u r] split: sum.splits)
    then show ?thesis using "1.IH" u b by blast
  next
    case False
    then have "v = b mod u" using "1.prems" by (simp add: sampleBelow.simps [of b u r])
    with False show ?thesis by (simp add: word_less_nat_alt unat_mod unat_gt_0)
  qed
qed

text \<open>Every value below \<open>u\<close> is the remainder of equally many of the bytes that are kept.\<close>

lemma multiples_below:
  "0 < (u :: nat) \<Longrightarrow> v < u \<Longrightarrow> card {b. b < q * u \<and> b mod u = v} = q"
proof -
  assume u: "0 < u" "v < u"
  have "{b. b < q * u \<and> b mod u = v} = (\<lambda>i. i * u + v) ` {..<q}"
  proof (intro set_eqI iffI)
    fix b assume "b \<in> {b. b < q * u \<and> b mod u = v}"
    then have "b = (b div u) * u + v" "b div u < q"
      using u by (auto simp: less_mult_imp_div_less)
    then show "b \<in> (\<lambda>i. i * u + v) ` {..<q}" by blast
  next
    fix b assume "b \<in> (\<lambda>i. i * u + v) ` {..<q}"
    then obtain i where i: "i < q" "b = i * u + v" by blast
    have "(i + 1) * u \<le> q * u" using i(1) by (intro mult_le_mono1) simp
    then show "b \<in> {b. b < q * u \<and> b mod u = v}" using i u by simp
  qed
  moreover have "inj_on (\<lambda>i. i * u + v) {..<q}" using u by (intro inj_onI) simp
  ultimately show ?thesis by (simp add: card_image)
qed

end
