(* ===== verification/Morph_Stream.thy ===== *)
theory Morph_Stream
  imports Morph_Conn "HOL-Library.Sublist"
begin

section \<open>morph: what the masked stream delivers\<close>

text \<open>
  The reading side hands out the unmasked bytes of the socket in order, whatever the sizes of
  the reads, through the bootstrap and the pending ClientHello; the writing side puts the
  masked bytes it accepted on the socket in order, whatever the short writes. No byte of the
  keystream is used at a wrapped block counter.
\<close>

subsection \<open>The offset limit\<close>

lemma unat_streamLimit [simp]: "unat streamLimit = 2 ^ 38 - 64"
  by (simp add: streamLimit_def)

lemma checkLimit_None:
  assumes "checkLimit off (int n) = None" "off \<le> streamLimit" "n < 2 ^ 63" "m \<le> n"
  shows "unat off + n \<le> 2 ^ 38 - 64" "unat (off + word_of_nat m) = unat off + m"
    "off + word_of_nat m \<le> streamLimit"
proof -
  have o: "unat off \<le> 2 ^ 38 - 64" using assms(2) by (simp add: word_le_nat_alt)
  have add: "unat (off + word_of_nat j) = unat off + j" if "j < 2 ^ 63" for j
  proof -
    have "off + word_of_nat j = word_of_nat (unat off + j)" by simp
    then have "unat (off + word_of_nat j) = (unat off + j) mod 2 ^ 64"
      by (simp only: unat_of_nat take_bit_eq_mod) simp
    then show ?thesis using o that by simp
  qed
  have "off + word_of_nat n \<le> streamLimit"
    using assms(1) by (auto simp: checkLimit_def split: if_splits)
  then show l: "unat off + n \<le> 2 ^ 38 - 64" using add [OF assms(3)] by (simp add: word_le_nat_alt)
  show m: "unat (off + word_of_nat m) = unat off + m" using add assms(3,4) by simp
  show "off + word_of_nat m \<le> streamLimit" using l m assms(4) by (simp add: word_le_nat_alt)
qed

text \<open>Below the limit the block counter does not wrap, so each byte has its own keystream byte.\<close>

lemma keystream_position_inj:
  "i < 2 ^ 38 - 64 \<Longrightarrow> j < 2 ^ 38 - 64 \<Longrightarrow>
   (word_of_nat (i div 64) :: u32, i mod 64) = (word_of_nat (j div 64), j mod 64) \<longleftrightarrow> i = j"
proof -
  assume b: "i < 2 ^ 38 - 64" "j < 2 ^ 38 - 64"
  have "i div 64 < 2 ^ 32" "j div 64 < 2 ^ 32" using b by simp_all
  then have "(word_of_nat (i div 64) :: u32) = word_of_nat (j div 64) \<longleftrightarrow> i div 64 = j div 64"
    by (simp add: word_unat_eq_iff unat_of_nat take_bit_eq_mod)
  moreover have "i = j \<longleftrightarrow> i div 64 = j div 64 \<and> i mod 64 = j mod 64" by (metis div_mult_mod_eq)
  ultimately show ?thesis by auto
qed

subsection \<open>Reading\<close>

text \<open>The plaintext the socket still holds.\<close>

definition incoming :: "tcpConn \<Rightarrow> byte list" where
  "incoming c = xor_at (tc_readKey c) (tc_nonce c) (unat (tc_readOff c)) (rd_buf (tc_in c))"

text \<open>\<open>c'\<close> is \<open>c\<close> after reading: only the socket and the offset moved, and \<open>got\<close> came out.\<close>

definition reads :: "tcpConn \<Rightarrow> byte list \<Rightarrow> tcpConn \<Rightarrow> bool" where
  "reads c got c' \<longleftrightarrow>
     incoming c = got @ incoming c' \<and> tc_readOff c' \<le> streamLimit \<and>
     (\<exists>i off. c' = c\<lparr>tc_in := i, tc_readOff := off\<rparr>)"

lemma reads_refl [simp]: "tc_readOff c \<le> streamLimit \<Longrightarrow> reads c [] c"
  unfolding reads_def by (intro conjI exI [of _ "tc_in c"] exI [of _ "tc_readOff c"]) simp_all

lemma reads_trans: "reads c xs c' \<Longrightarrow> reads c' ys c'' \<Longrightarrow> reads c (xs @ ys) c''"
  by (auto simp: reads_def) (rule exI, rule exI, rule refl)

lemma reads_step:
  assumes "rd_buf (tc_in c) = bs @ rd_buf i" "checkLimit (tc_readOff c) (int n) = None"
    "tc_readOff c \<le> streamLimit" "n < 2 ^ 63" "length bs \<le> n"
  shows "reads c (XORKeyStreamAt bs bs (tc_readKey c) (tc_nonce c) (tc_readOff c))
    (c\<lparr>tc_in := i, tc_readOff := tc_readOff c + word_of_nat (length bs)\<rparr>)"
  using assms checkLimit_None [OF assms(2-5)]
  by (auto simp: reads_def incoming_def XORKeyStreamAt_in_place chacha.mask_append)

lemma readPlainUntil_reads:
  assumes "readPlainUntil c buf n = (Inr buf', c')" "tc_readOff c \<le> streamLimit" "n < 2 ^ 63"
  shows "\<exists>got. buf' = buf @ got \<and> reads c got c' \<and> n \<le> length buf'"
proof (cases "length buf < n")
  case False
  with assms show ?thesis by (auto simp: readPlainUntil_def intro!: exI [of _ "[]"])
next
  case True
  then obtain bs i where "checkLimit (tc_readOff c) (int (n - length buf)) = None"
    "ReadFull (n - length buf) (tc_in c) = Inr (bs, i)"
    "buf' = buf @ XORKeyStreamAt bs bs (tc_readKey c) (tc_nonce c) (tc_readOff c)"
    "c' = c\<lparr>tc_in := i, tc_readOff := tc_readOff c +
       word_of_nat (length (XORKeyStreamAt bs bs (tc_readKey c) (tc_nonce c) (tc_readOff c)))\<rparr>"
    using assms(1) by (auto simp: readPlainUntil_def Let_def split: option.splits sum.splits)
  moreover have "length (XORKeyStreamAt bs bs k m off) = length bs" for k m off
    by (simp add: XORKeyStreamAt_in_place)
  ultimately show ?thesis
    using reads_step [of c bs i "n - length buf"] assms(2,3) True
    by (auto simp: ReadFull_Inr prepend_def)
qed

lemma hello_append_Inr:
  "hello_append buf hs ml tot = Inr (buf', hs', ml', consumed') \<Longrightarrow> buf' = buf \<and> consumed' = tot"
  by (auto simp: hello_append_def split: if_splits)

lemma hello_record_Inr:
  assumes "hello_record first c (buf, hs, ml, consumed) = (Inr st', c')"
  obtains b1 c1 b2 hs' tot where "readPlainUntil c buf (consumed + tlsRecordHeader) = (Inr b1, c1)"
    "readPlainUntil c1 b1 tot = (Inr b2, c')" "tot \<le> 65856" "hello_append b2 hs' ml tot = Inr st'"
proof (cases "readPlainUntil c buf (consumed + tlsRecordHeader)")
  case (Pair x c1)
  show thesis
  proof (cases x)
    case (Inr b1)
    define tot where "tot = consumed + tlsRecordHeader +
      unat (Uint16 (take 2 (drop 3 (take tlsRecordHeader (drop consumed b1)))))"
    note a = assms [unfolded hello_record_def Let_def Pair Inr prod.case sum.case, folded tot_def]
    have t: "tot \<le> 65856"
      using a by (auto simp: tlsMaxHandshake_def tlsMaxRecords_def tlsRecordHeader_def split: if_splits)
    show thesis
    proof (cases "readPlainUntil c1 b1 tot")
      case P2: (Pair y c2)
      show thesis
      proof (cases y)
        case Y: (Inr b2)
        then show thesis using a P2 that Pair Inr t by (auto split: if_splits)
      qed (use a P2 in \<open>auto split: if_splits\<close>)
    qed
  qed (use assms Pair in \<open>auto simp: hello_record_def\<close>)
qed

lemma hello_record_reads:
  assumes "hello_record first c (buf, hs, ml, consumed) = (Inr (buf', hs', ml', consumed'), c')"
    "tc_readOff c \<le> streamLimit" "consumed \<le> 65856"
  shows "\<exists>got. buf' = buf @ got \<and> reads c got c' \<and> consumed' \<le> 65856"
  using assms(1)
proof (rule hello_record_Inr)
  fix b1 c1 b2 hs1 tot
  assume 1: "readPlainUntil c buf (consumed + tlsRecordHeader) = (Inr b1, c1)"
    and 2: "readPlainUntil c1 b1 tot = (Inr b2, c')" and t: "tot \<le> 65856"
    and h: "hello_append b2 hs1 ml tot = Inr (buf', hs', ml', consumed')"
  obtain g1 where g1: "b1 = buf @ g1" "reads c g1 c1"
    using readPlainUntil_reads [OF 1 assms(2)] assms(3) by (auto simp: tlsRecordHeader_def)
  then have "tc_readOff c1 \<le> streamLimit" by (simp add: reads_def)
  then obtain g2 where "b2 = b1 @ g2" "reads c1 g2 c'" using readPlainUntil_reads [OF 2] t by auto
  with g1 hello_append_Inr [OF h] t show ?thesis by (auto intro: reads_trans)
qed

lemma readClientHello_loop_reads:
  assumes "readClientHello_loop n c (buf, hs, ml, consumed) = (Inr out, c')"
    "tc_readOff c \<le> streamLimit" "consumed \<le> 65856"
  shows "\<exists>got. out = buf @ got \<and> reads c got c'"
  using assms
proof (induction n arbitrary: c buf hs ml consumed)
  case (Suc n)
  obtain buf1 hs1 ml1 consumed1 c1 where
    1: "hello_record (Suc n = tlsMaxRecords) c (buf, hs, ml, consumed) = (Inr (buf1, hs1, ml1, consumed1), c1)"
    using Suc.prems(1) by (auto split: if_splits prod.splits sum.splits)
  then obtain g1 where g1: "buf1 = buf @ g1" "reads c g1 c1" "consumed1 \<le> 65856"
    using hello_record_reads [OF 1 Suc.prems(2,3)] by blast
  show ?case
  proof (cases "hello_complete (buf1, hs1, ml1, consumed1)")
    case True
    then have "out = buf1" "c' = c1" using Suc.prems(1) 1 by (auto split: if_splits)
    with g1 show ?thesis by auto
  next
    case False
    then have "readClientHello_loop n c1 (buf1, hs1, ml1, consumed1) = (Inr out, c')"
      using Suc.prems(1) 1 by (auto split: if_splits)
    moreover have "tc_readOff c1 \<le> streamLimit" using g1(2) by (simp add: reads_def)
    ultimately obtain g2 where "out = buf1 @ g2" "reads c1 g2 c'" using Suc.IH g1(3) by blast
    with g1 show ?thesis by (auto intro: reads_trans)
  qed
qed simp

lemma readClientHello_reads:
  "readClientHello c = (Inr out, c') \<Longrightarrow> tc_readOff c \<le> streamLimit \<Longrightarrow> reads c out c'"
  using readClientHello_loop_reads [of tlsMaxRecords c "[]" "[]" None 0 out c']
  by (auto simp: readClientHello_def)

lemma Read_conn_reads:
  assumes "Read_conn c k = (bs, err, c')" "tc_readOff c \<le> streamLimit" "k < 2 ^ 63"
  shows "reads c bs c'"
proof -
  consider (none) "bs = []" "c' = c"
    | (some) ct i where "checkLimit (tc_readOff c) (int k) = None" "rd_Read k (tc_in c) = (ct, None, i)" "ct \<noteq> []"
      "bs = XORKeyStreamAt ct ct (tc_readKey c) (tc_nonce c) (tc_readOff c)"
      "c' = c\<lparr>tc_in := i, tc_readOff := tc_readOff c + word_of_nat (length ct)\<rparr>"
    using assms(1)
    by (auto simp: Read_conn_def rd_Read_def Let_def split: if_splits option.splits)
  then show ?thesis
  proof cases
    case none
    with assms(2) show ?thesis by simp
  next
    case (some ct i)
    then have "rd_buf (tc_in c) = ct @ rd_buf i" "length ct \<le> k"
      by (auto simp: rd_Read_def split: if_splits)
    with some assms(2,3) show ?thesis using reads_step by metis
  qed
qed

subsection \<open>The bootstrap keeps the stream\<close>

text \<open>
  The plaintext a connection still has to deliver: for a server that has not read the prelude
  yet, what follows it, unmasked with the nonce it carries; otherwise the pending ClientHello
  and what the socket holds.
\<close>

definition stream :: "tcpConn \<Rightarrow> byte list" where
  "stream c =
     (if tc_server c \<and> \<not> tc_bootstrapped c
      then (let buf = rd_buf (tc_in c) in xor_at (tc_readKey c) (take 12 (drop 64 buf)) 0 (drop 76 buf))
      else tc_pending c @ incoming c)"

definition conn_inv :: "tcpConn \<Rightarrow> bool" where
  "conn_inv c \<longleftrightarrow>
     tc_readOff c \<le> streamLimit \<and>
     (tc_server c \<and> \<not> tc_bootstrapped c \<longrightarrow> tc_bootErr c \<noteq> None \<or> tc_readOff c = 0) \<and>
     (\<not> tc_server c \<longrightarrow> tc_pending c = []) \<and> (tc_bootstrapped c \<longrightarrow> tc_bootErr c = None)"

lemma setLinger_None:
  "setLinger c n = (None, c') \<Longrightarrow> c' = c\<lparr>tc_linger := Some n\<rparr>"
  by (auto simp: setLinger_def split: option.splits)

text \<open>The steps a bootstrap that succeeds went through.\<close>

lemma bootstrapOnce_None:
  assumes "bootstrapOnce others c = (None, c')"
  obtains st st' head i c1 c2 pend k n reg where
    "tc_state c = Some st" "ReadFull 76 (tc_in c) = Inr (head, i)"
    "decodePrelude st (take 64 head) (drop 64 head) = (k, n, True)" "counterValid n"
    "c1 = c\<lparr>tc_linger := Some 0, tc_in := i, tc_nonce := drop 64 head, tc_state := Some st'\<rparr>"
    "readClientHello c1 = (Inr pend, c2)"
    "ps_registry st = (reg, st')" "registry_precheck reg k n"
    "snd (registry_commit (run registry_step reg others) k n)"
    "c' = c2\<lparr>tc_state := Some (st'\<lparr>ps_replay := Some (fst (registry_commit (run registry_step reg others) k n))\<rparr>),
             tc_pending := pend\<rparr>"
proof -
  obtain st where st: "tc_state c = Some st"
    using assms by (cases "tc_state c") (auto simp: bootstrapOnce_def)
  obtain c0 where l: "setLinger c 0 = (None, c0)"
    using assms st by (cases "setLinger c 0"; cases "fst (setLinger c 0)") (auto simp: bootstrapOnce_def)
  note c0 = setLinger_None [OF l]
  obtain head i where h: "ReadFull 76 (tc_in c) = Inr (head, i)"
    using assms st l c0 
    by (cases "ReadFull 76 (tc_in c)") (auto simp: bootstrapOnce_def preludeLen_def nonceLen_def)
  obtain k n m where d: "decodePrelude st (take 64 head) (drop 64 head) = (k, n, m)"
    by (cases "decodePrelude st (take 64 head) (drop 64 head)")
  obtain reg st' where r: "ps_registry st = (reg, st')" by (cases "ps_registry st")
  define c1 where "c1 = c\<lparr>tc_linger := Some 0, tc_in := i, tc_nonce := drop 64 head, tc_state := Some st'\<rparr>"
  note a = assms [unfolded bootstrapOnce_def st option.case l prod.case c0 preludeLen_def nonceLen_def]
  have m: "m" "counterValid n" "registry_precheck reg k n"
    using a h d r by (auto simp: Let_def split: if_splits)
  obtain x c2 where x: "readClientHello c1 = (x, c2)" by (cases "readClientHello c1")
  have cx: "(case readClientHello c1 of
      (Inl e, c) \<Rightarrow> (Some e, c)
    | (Inr pending, c) \<Rightarrow>
        (let (reg, ok) = registry_commit (run registry_step reg others) k n;
             c = c\<lparr>tc_state := Some (st'\<lparr>ps_replay := Some reg\<rparr>)\<rparr>
         in if \<not> ok then (Some ErrPreludeRejected, c)
            else (None, c\<lparr>tc_pending := pending\<rparr>))) = (None, c')"
    using a h d r m by (simp add: Let_def c1_def)
  then obtain pend where p: "x = Inr pend" using x by (cases x) auto
  show thesis
    using that [OF st h _ m(2) c1_def, of k] d m x p r cx
    by (auto simp: Let_def split: prod.splits if_splits)
qed

lemma bootstrapOnce_stream:
  assumes "bootstrapOnce others c = (None, c')" "tc_readOff c = 0"
  shows "tc_pending c' @ incoming c' =
      xor_at (tc_readKey c) (take 12 (drop 64 (rd_buf (tc_in c)))) 0 (drop 76 (rd_buf (tc_in c))) \<and>
    tc_readOff c' \<le> streamLimit \<and> tc_server c' = tc_server c \<and> tc_bootErr c' = tc_bootErr c"
  using assms(1)
proof (rule bootstrapOnce_None)
  fix st st' head i c1 c2 pend k n reg
  assume h: "ReadFull 76 (tc_in c) = Inr (head, i)"
    and c1: "c1 = c\<lparr>tc_linger := Some 0, tc_in := i, tc_nonce := drop 64 head, tc_state := Some st'\<rparr>"
    and x: "readClientHello c1 = (Inr pend, c2)"
    and c': "c' = c2\<lparr>tc_state := Some (st'\<lparr>ps_replay := Some (fst (registry_commit (run registry_step reg others) k n))\<rparr>),
             tc_pending := pend\<rparr>"
  have "tc_readOff c1 \<le> streamLimit" using assms(2) by (simp add: c1)
  then have r: "reads c1 pend c2" using readClientHello_reads [OF x] by blast
  have "rd_buf (tc_in c) = head @ rd_buf i" "length head = 76" using h by (auto simp: ReadFull_Inr prepend_def)
  then have "incoming c1 = xor_at (tc_readKey c) (take 12 (drop 64 (rd_buf (tc_in c)))) 0 (drop 76 (rd_buf (tc_in c)))"
    using assms(2) by (simp add: incoming_def c1)
  moreover have "incoming c' = incoming c2" by (simp add: incoming_def c')
  ultimately show "tc_pending c' @ incoming c' =
      xor_at (tc_readKey c) (take 12 (drop 64 (rd_buf (tc_in c)))) 0 (drop 76 (rd_buf (tc_in c))) \<and>
      tc_readOff c' \<le> streamLimit \<and> tc_server c' = tc_server c \<and> tc_bootErr c' = tc_bootErr c"
    using r by (auto simp: reads_def c' c1)
qed

lemma bootstrap_stream:
  assumes "bootstrap others c = (None, c')" "conn_inv c" "tc_server c"
  shows "stream c' = stream c \<and> conn_inv c' \<and> tc_server c' \<and> tc_bootstrapped c'"
proof (cases "tc_bootstrapped c")
  case True
  with assms show ?thesis by (auto simp: bootstrap_def split: option.splits)
next
  case False
  then obtain c1 where b: "bootstrapOnce others c = (None, c1)" "c' = c1\<lparr>tc_bootstrapped := True\<rparr>"
    and e: "tc_bootErr c = None"
    using assms(1) by (auto simp: bootstrap_def split: option.splits prod.splits)
  have z: "tc_readOff c = 0" using assms(2,3) False e by (auto simp: conn_inv_def)
  show ?thesis
    using bootstrapOnce_stream [OF b(1) z] assms(3) False e
    by (auto simp: stream_def b(2) Let_def conn_inv_def incoming_def)
qed

text \<open>A failed bootstrap is final: no later read delivers a byte.\<close>

lemma bootstrap_fails:
  assumes "bootstrap others c = (Some e, c')"
  shows "tc_bootErr c' = Some e"
  using assms by (auto simp: bootstrap_def split: option.splits prod.splits if_splits)

lemma setLinger_server: "tc_server (snd (setLinger c n)) = tc_server c"
  by (simp add: setLinger_def split: option.splits)

lemma readPlainUntil_server: "tc_server (snd (readPlainUntil c buf n)) = tc_server c"
  by (simp add: readPlainUntil_def Let_def split: option.splits sum.splits prod.splits)

lemma hello_record_server: "tc_server (snd (hello_record f c st)) = tc_server c"
proof -
  obtain buf hs ml consumed where st: "st = (buf, hs, ml, consumed)" by (cases st)
  obtain x c1 where 1: "readPlainUntil c buf (consumed + tlsRecordHeader) = (x, c1)" by fastforce
  have s1: "tc_server c1 = tc_server c" using readPlainUntil_server [of c buf] 1 by (metis snd_conv)
  have s2: "tc_server c2 = tc_server c1" if "readPlainUntil c1 b t = (y, c2)" for b t y c2
    using readPlainUntil_server [of c1 b t] that by simp
  show ?thesis
    using s1 s2 by (cases x) (auto simp: hello_record_def st 1 Let_def split: prod.splits sum.splits)
qed

lemma readClientHello_loop_server: "tc_server (snd (readClientHello_loop n c st)) = tc_server c"
proof (induction n arbitrary: c st)
  case (Suc n)
  obtain x c1 where 1: "hello_record (Suc n = tlsMaxRecords) c st = (x, c1)" by fastforce
  have "tc_server c1 = tc_server c" using hello_record_server [of _ c st] 1 by (metis snd_conv)
  with Suc.IH [of c1] 1 show ?case by (cases x) (auto split: prod.splits)
qed simp

lemma bootstrapOnce_server: "tc_server (snd (bootstrapOnce others c)) = tc_server c"
proof -
  have h: "tc_server c2 = tc_server c1" if "readClientHello c1 = (x, c2)" for c1 x c2
    using readClientHello_loop_server [of tlsMaxRecords c1] that by (metis readClientHello_def snd_conv)
  have l: "tc_server c1 = tc_server c" if "setLinger c 0 = (x, c1)" for x c1
    using setLinger_server [of c 0] that by simp
  show ?thesis
    unfolding bootstrapOnce_def Let_def
    by (auto split: option.splits prod.splits sum.splits dest!: h l)
qed

lemma bootstrap_server: "tc_server (snd (bootstrap others c)) = tc_server c"
  using bootstrapOnce_server [of others c]
  by (auto simp: bootstrap_def split: option.splits prod.splits)

subsection \<open>Runs of reads\<close>

text \<open>A sequence of reads: the sizes of the buffers, and the commits of others during each.\<close>

fun read_run :: "tcpConn \<Rightarrow> ((u64 \<times> u64) list \<times> nat) list \<Rightarrow> byte list list" where
  "read_run c [] = []"
| "read_run c ((others, k) # rest) =
     (case tcpConn_Read others c k of (bs, err, c) \<Rightarrow> bs # read_run c rest)"

lemma read_run_dead:
  "tc_server c \<Longrightarrow> tc_bootErr c = Some e \<Longrightarrow> concat (read_run c rs) = []"
proof (induction rs arbitrary: c)
  case (Cons r rs)
  obtain others k where r: "r = (others, k)" by (cases r)
  obtain c' where c': "tcpConn_Read others c k = ([], Some e, c')" "tc_server c'" "tc_bootErr c' = Some e"
    using Cons.prems by (auto simp: tcpConn_Read_def bootstrap_def)
  with Cons.IH [of c'] show ?case by (simp add: r)
qed simp

lemma Read_conn_stream:
  assumes "Read_conn c k = (bs, err, c')" "conn_inv c" "k < 2 ^ 63" "tc_pending c = []"
    "tc_server c \<Longrightarrow> tc_bootstrapped c"
  shows "stream c = bs @ stream c' \<and> conn_inv c'"
proof -
  have "reads c bs c'" using Read_conn_reads assms by (simp add: conn_inv_def)
  with assms show ?thesis by (auto simp: reads_def stream_def conn_inv_def)
qed

lemma tcpConn_Read_stream:
  assumes "tcpConn_Read others c k = (bs, err, c')" "conn_inv c" "k < 2 ^ 63"
  shows "stream c = bs @ stream c' \<and> conn_inv c' \<or>
    bs = [] \<and> tc_server c' \<and> (\<exists>e. tc_bootErr c' = Some e)"
proof (cases "tc_server c")
  case False
  with assms show ?thesis
    using Read_conn_stream [of c k bs err c'] by (auto simp: tcpConn_Read_def conn_inv_def)
next
  case True
  obtain x c1 where b: "bootstrap others c = (x, c1)" by fastforce
  show ?thesis
  proof (cases x)
    case None
    have c1: "stream c1 = stream c" "conn_inv c1" "tc_server c1" "tc_bootstrapped c1"
      using bootstrap_stream [OF b [unfolded None] assms(2) True] by auto
    show ?thesis
    proof (cases "tc_pending c1 = []")
      case p: True
      have "Read_conn c1 k = (bs, err, c')" using assms(1) True b None p by (simp add: tcpConn_Read_def)
      from Read_conn_stream [OF this c1(2) assms(3) p] c1 show ?thesis by simp
    next
      case False
      then have e: "bs = take k (tc_pending c1)" "c' = c1\<lparr>tc_pending := drop k (tc_pending c1)\<rparr>"
        using assms(1) True b None by (auto simp: tcpConn_Read_def)
      have "stream c1 = bs @ stream c'"
        unfolding e using c1(3,4) by (simp add: stream_def incoming_def flip: append_assoc)
      moreover have "conn_inv c'" using c1(2,3,4) e by (simp add: conn_inv_def)
      ultimately show ?thesis using c1(1) by simp
    qed
  next
    case (Some e)
    moreover have "tc_server c1" using bootstrap_server [of others c] b True by simp
    moreover have "tc_bootErr c1 = Some e" using bootstrap_fails b Some by blast
    ultimately show ?thesis using assms(1) True b by (auto simp: tcpConn_Read_def split: if_splits)
  qed
qed

lemma read_run_prefix:
  "conn_inv c \<Longrightarrow> \<forall>(others, k) \<in> set rs. k < 2 ^ 63 \<Longrightarrow> prefix (concat (read_run c rs)) (stream c)"
proof (induction rs arbitrary: c)
  case (Cons r rs)
  obtain others k where r: "r = (others, k)" by (cases r)
  obtain bs err c' where t: "tcpConn_Read others c k = (bs, err, c')" by (cases "tcpConn_Read others c k")
  have k: "k < 2 ^ 63" using Cons.prems(2) r by auto
  from tcpConn_Read_stream [OF t Cons.prems(1) k] show ?case
  proof
    assume "stream c = bs @ stream c' \<and> conn_inv c'"
    with Cons r t show ?thesis by auto
  next
    assume "bs = [] \<and> tc_server c' \<and> (\<exists>e. tc_bootErr c' = Some e)"
    then have "concat (read_run c' rs) = []" "bs = []" using read_run_dead by blast+
    then show ?thesis using r t by (simp del: concat_eq_Nil_conv)
  qed
qed simp

lemma WrapTCPServer_inv: "conn_inv (WrapTCPServer i out keys)"
  by (simp add: WrapTCPServer_def plain_conn_def conn_inv_def)

subsection \<open>Writing\<close>

text \<open>The contract of \<^verbatim>\<open>io.Writer\<close> at one call: between none and all of the bytes are accepted.\<close>

definition wr_honest :: "byte list \<Rightarrow> writer \<Rightarrow> bool" where
  "wr_honest p w \<longleftrightarrow> (case wr_plan w of [] \<Rightarrow> True | (n, e) # _ \<Rightarrow> 0 \<le> n \<and> n \<le> int (length p))"

lemma wr_Write_honest:
  assumes "wr_Write p w = (n, err, w')" "wr_honest p w"
  shows "0 \<le> n \<and> n \<le> int (length p) \<and> wr_out w' = wr_out w @ take (nat n) p"
  using assms by (auto simp: wr_Write_def wr_honest_def split: list.splits prod.splits)

text \<open>
  What is on the wire: part of the prefix, and once it is out, the plaintext accepted so far
  under the keystream from offset 0.
\<close>

definition wrote :: "byte list \<Rightarrow> byte list \<Rightarrow> tcpConn \<Rightarrow> bool" where
  "wrote pref sent c \<longleftrightarrow>
     unat (tc_writeOff c) = length sent \<and> tc_writeOff c \<le> streamLimit \<and>
     (sent \<noteq> [] \<longrightarrow> tc_writePref c = []) \<and>
     (\<exists>done. pref = done @ tc_writePref c \<and>
        wr_out (tc_out c) = done @ xor_at (tc_writeKey c) (tc_nonce c) 0 sent)"

definition write_honest :: "tcpConn \<Rightarrow> byte list \<Rightarrow> bool" where
  "write_honest c p \<longleftrightarrow>
     (if tc_writePref c \<noteq> []
      then wr_honest (tc_writePref c) (tc_out c) \<and>
           wr_honest p (snd (snd (wr_Write (tc_writePref c) (tc_out c))))
      else wr_honest p (tc_out c))"

lemma write_pref_wrote:
  assumes "write_pref c = (err, c')" "wrote pref sent c"
    "tc_writePref c \<noteq> [] \<Longrightarrow> wr_honest (tc_writePref c) (tc_out c)"
  shows "wrote pref sent c'" "err = None \<Longrightarrow> tc_writePref c' = []"
    "err = None \<Longrightarrow> tc_writePref c \<noteq> [] \<Longrightarrow> tc_out c' = snd (snd (wr_Write (tc_writePref c) (tc_out c)))"
    "tc_writePref c = [] \<Longrightarrow> c' = c" "tc_nonce c' = tc_nonce c" "tc_writeKey c' = tc_writeKey c"
proof -
  have "wrote pref sent c' \<and> (err = None \<longrightarrow> tc_writePref c' = []) \<and>
    (err = None \<longrightarrow> tc_writePref c \<noteq> [] \<longrightarrow> tc_out c' = snd (snd (wr_Write (tc_writePref c) (tc_out c)))) \<and>
    (tc_writePref c = [] \<longrightarrow> c' = c) \<and> tc_nonce c' = tc_nonce c \<and> tc_writeKey c' = tc_writeKey c"
  proof (cases "tc_writePref c = []")
    case True
    with assms(1,2) show ?thesis by (simp add: write_pref_def)
  next
    case False
    obtain n e w where w: "wr_Write (tc_writePref c) (tc_out c) = (n, e, w)"
      by (cases "wr_Write (tc_writePref c) (tc_out c)")
    note h = wr_Write_honest [OF w assms(3) [OF False]]
    have s: "sent = []" using assms(2) False by (auto simp: wrote_def)
    obtain d where d: "pref = d @ tc_writePref c" "wr_out (tc_out c) = d"
      using assms(2) s by (auto simp: wrote_def xor_at_def)
    let ?c = "c\<lparr>tc_out := w, tc_writePref := drop (nat n) (tc_writePref c)\<rparr>"
    have "wrote pref sent ?c"
      using assms(2) h d s unfolding wrote_def
      by (auto simp: xor_at_def intro!: exI [of _ "d @ take (nat n) (tc_writePref c)"])
    with assms(1) False w show ?thesis by (auto simp: write_pref_def Let_def split: if_splits)
  qed
  then show "wrote pref sent c'" "err = None \<Longrightarrow> tc_writePref c' = []"
    "err = None \<Longrightarrow> tc_writePref c \<noteq> [] \<Longrightarrow> tc_out c' = snd (snd (wr_Write (tc_writePref c) (tc_out c)))"
    "tc_writePref c = [] \<Longrightarrow> c' = c" "tc_nonce c' = tc_nonce c" "tc_writeKey c' = tc_writeKey c"
    by blast+
qed

lemma xor_at_Nil [simp]: "xor_at k n off [] = []"
  by (simp add: xor_at_def)

lemma xor_at_take: "take n (xor_at k nonce off p) = xor_at k nonce off (take n p)"
  by (rule nth_equalityI) (auto simp: xor_at_def)

lemma tcpConn_Write_wrote:
  assumes "tcpConn_Write c p = (n, err, c')" "wrote pref sent c" "write_honest c p" "length p < 2 ^ 63"
  shows "wrote pref (sent @ take (nat n) p) c' \<and> 0 \<le> n \<and> n \<le> int (length p) \<and>
    tc_nonce c' = tc_nonce c \<and> tc_writeKey c' = tc_writeKey c"
proof -
  obtain e c1 where c1: "write_pref c = (e, c1)" by fastforce
  have ph: "tc_writePref c \<noteq> [] \<Longrightarrow> wr_honest (tc_writePref c) (tc_out c)"
    using assms(3) by (simp add: write_honest_def)
  note w = write_pref_wrote [OF c1 assms(2) ph]
  show ?thesis
  proof (cases "e = None \<and> p \<noteq> [] \<and> checkLimit (tc_writeOff c1) (int (length p)) = None")
    case False
    then have "n = 0" "c' = c1"
      using assms(1) c1 by (auto simp: tcpConn_Write_def split: option.splits if_splits)
    with w show ?thesis by simp
  next
    case True
    let ?buf = "XORKeyStreamAt p p (tc_writeKey c1) (tc_nonce c1) (tc_writeOff c1)"
    obtain k er wr where wr: "wr_Write ?buf (tc_out c1) = (k, er, wr)"
      by (cases "wr_Write ?buf (tc_out c1)")
    have buf: "?buf = xor_at (tc_writeKey c1) (tc_nonce c1) (length sent) p" "length ?buf = length p"
      using w(1) by (simp_all add: XORKeyStreamAt_in_place wrote_def)
    have "wr_honest p (tc_out c1)"
      using assms(3) True w(3,4) by (auto simp: write_honest_def split: if_splits)
    then have "wr_honest ?buf (tc_out c1)" unfolding wr_honest_def buf(2) .
    note h = wr_Write_honest [OF wr this]
    have e: "n = k" "c' = c1\<lparr>tc_out := wr, tc_writeOff := tc_writeOff c1 + word_of_nat (nat k)\<rparr>"
      using assms(1) c1 True wr h by (auto simp: tcpConn_Write_def Let_def)
    have le: "nat k \<le> length p" using h buf(2) by (simp add: nat_le_iff)
    have "tc_writeOff c1 \<le> streamLimit" using w(1) by (simp add: wrote_def)
    note lim = checkLimit_None [OF _ this assms(4) le] 
    obtain d where d: "pref = d @ tc_writePref c1"
      "wr_out (tc_out c1) = d @ xor_at (tc_writeKey c1) (tc_nonce c1) 0 sent"
      using w(1) by (auto simp: wrote_def)
    have "wr_out wr = d @ xor_at (tc_writeKey c1) (tc_nonce c1) 0 (sent @ take (nat k) p)"
      using h d(2) buf(1) by (simp add: xor_at_take chacha.mask_append)
    then have "wrote pref (sent @ take (nat k) p) c'"
      using w(1,2) True lim le d(1) by (auto simp: wrote_def e)
    with h buf(2) w(5,6) e show ?thesis by simp
  qed
qed

text \<open>A sequence of writes, and the plaintext they accepted.\<close>

fun write_run :: "tcpConn \<Rightarrow> byte list list \<Rightarrow> byte list \<times> tcpConn" where
  "write_run c [] = ([], c)"
| "write_run c (p # ps) =
     (case tcpConn_Write c p of
        (n, err, c) \<Rightarrow> (case write_run c ps of (sent, c) \<Rightarrow> (take (nat n) p @ sent, c)))"

fun run_honest :: "tcpConn \<Rightarrow> byte list list \<Rightarrow> bool" where
  "run_honest c [] = True"
| "run_honest c (p # ps) =
     (write_honest c p \<and> length p < 2 ^ 63 \<and> run_honest (snd (snd (tcpConn_Write c p))) ps)"

lemma write_run_wrote:
  "wrote pref sent c \<Longrightarrow> run_honest c ps \<Longrightarrow> write_run c ps = (add, c') \<Longrightarrow>
   wrote pref (sent @ add) c' \<and> tc_nonce c' = tc_nonce c \<and> tc_writeKey c' = tc_writeKey c"
proof (induction ps arbitrary: c sent add)
  case (Cons p ps)
  obtain n err c1 where 1: "tcpConn_Write c p = (n, err, c1)" by (cases "tcpConn_Write c p")
  obtain m2 c2 where 2: "write_run c1 ps = (m2, c2)" by fastforce
  have "wrote pref (sent @ take (nat n) p) c1 \<and> tc_nonce c1 = tc_nonce c \<and> tc_writeKey c1 = tc_writeKey c"
    using tcpConn_Write_wrote [OF 1 Cons.prems(1)] Cons.prems(2) by simp
  with Cons.IH [of "sent @ take (nat n) p" c1 m2] Cons.prems(2,3) 1 2 show ?case by auto
qed simp

lemma write_run_honest_plain: "wr_plan (tc_out c) = [] \<Longrightarrow> \<forall>p \<in> set ps. length p < 2 ^ 63 \<Longrightarrow> run_honest c ps"
proof (induction ps arbitrary: c)
  case (Cons p ps)
  have "wr_plan (tc_out (snd (write_pref c))) = []"
    using Cons.prems(1) by (simp add: write_pref_def Let_def)
  then have "wr_plan (tc_out (snd (snd (tcpConn_Write c p)))) = []"
    by (cases "write_pref c"; cases "fst (write_pref c)")
      (auto simp: tcpConn_Write_def Let_def split: option.splits)
  with Cons show ?case by (simp add: write_honest_def wr_honest_def)
qed simp

subsection \<open>The shape of a generated prelude\<close>

lemma printable_loop_length: "printable_loop p is r = Inr (p', r') \<Longrightarrow> length p' = length p"
  by (induction p "is" r rule: printable_loop.induct) (auto split: sum.splits)

lemma length_low7_range [simp]: "length (low7_range p is) = length p"
proof -
  have "length (foldl (\<lambda>p i. p[i := p ! i AND 0x7f]) p is) = length p" for p :: "byte list"
    by (induction "is" arbitrary: p) auto
  then show ?thesis by (simp add: low7_range_def)
qed

lemma generatePreludeWith_length:
  assumes "generatePreludeWith policy r = Inr (p, r')"
  shows "length p = 64"
proof -
  obtain p0 r0 where r0: "ReadFull 64 r = Inr (p0, r0)"
    using assms by (cases "ReadFull 64 r") (auto simp: generatePreludeWith_def preludeLen_def)
  then have l: "length p0 = 64" by (simp add: ReadFull_Inr)
  show ?thesis
  proof (cases "policy = preludeFade")
    case True
    with assms r0 l show ?thesis
      by (auto simp: generatePreludeWith_def preludeLen_def Let_def split: sum.splits
          dest!: printable_loop_length)
  next
    case False
    with assms r0 l show ?thesis
      by (auto simp: generatePreludeWith_def preludeLen_def split: if_splits)
  qed
qed

subsection \<open>Client to server\<close>

lemma WrapTCPClient_wrote:
  assumes "WrapTCPClient i out keys env entropy = (Inr c, keys', entropy')" "wr_out out = []"
  shows "wrote (tc_writePref c) [] c \<and> tc_writeKey c = TCPC2S keys' \<and> length (tc_writePref c) = 76 \<and>
    length (tc_nonce c) = 12 \<and> drop 64 (tc_writePref c) = tc_nonce c"
proof -
  obtain st where st: "k_state keys = Some st"
    using assms(1) by (cases "k_state keys") (auto simp: WrapTCPClient_def)
  obtain al st1 en1 where al: "allocate st entropy = (al, st1, en1)" by (cases "allocate st entropy")
  obtain k n where "al = Inr (k, n)"
    using assms(1) st al by (cases al) (auto simp: WrapTCPClient_def)
  note al = al [unfolded this]
  obtain policy where po: "preludePolicyFromEnv env = Inr policy"
    using assms(1) st al by (cases "preludePolicyFromEnv env") (auto simp: WrapTCPClient_def Let_def)
  obtain pr en2 where g: "generatePreludeWith policy en1 = Inr (pr, en2)"
    using assms(1) st al po
    by (cases "generatePreludeWith policy en1") (auto simp: WrapTCPClient_def Let_def)
  obtain nonce en3 where nn: "ReadFull 12 en2 = Inr (nonce, en3)"
    using assms(1) st al po g
    by (cases "ReadFull 12 en2") (auto simp: WrapTCPClient_def Let_def nonceLen_def)
  have c: "c = (plain_conn i out)\<lparr>tc_readKey := TCPS2C keys', tc_writeKey := TCPC2S keys',
      tc_nonce := nonce, tc_writePref := encodePrelude st1 pr nonce k n @ nonce\<rparr>"
    using assms(1) st al po g nn by (auto simp: WrapTCPClient_def Let_def nonceLen_def)
  have ln: "length nonce = 12" using nn by (simp add: ReadFull_Inr)
  have lp: "length (encodePrelude st1 pr nonce k n) = 64"
    using generatePreludeWith_length [OF g] ln by (simp add: encodePrelude_frame)
  show ?thesis
    using assms(2) ln lp by (auto simp: c wrote_def plain_conn_def xor_at_def)
qed

subsection \<open>Datagrams\<close>

lemma unmask_mask:
  assumes "maskDatagram p key rnd = Inr (wire, rnd')"
  shows "length wire = 12 + length p"
    and "unmaskDatagram k wire key server =
      (if p = [] \<or> server \<and> \<not> supportedQUICPacket p then ([], False) else (take k p, True))"
proof -
  obtain nonce r1 where r: "ReadFull 12 rnd = Inr (nonce, r1)"
    using assms by (cases "ReadFull 12 rnd") (auto simp: maskDatagram_def nonceLen_def)
  then have n: "length nonce = 12" by (simp add: ReadFull_Inr)
  have w: "wire = nonce @ xor_at key nonce 0 p"
    using assms r
    by (cases "p = []") (auto simp: maskDatagram_def nonceLen_def Let_def XORKeyStreamAt_keystream xor_at_def)
  show "length wire = 12 + length p" using n w by simp
  show "unmaskDatagram k wire key server =
      (if p = [] \<or> server \<and> \<not> supportedQUICPacket p then ([], False) else (take k p, True))"
    using n by (auto simp: unmaskDatagram_def nonceLen_def w Let_def XORKeyStreamAt_in_place chacha.mask_involution)
qed

lemma ReadFrom_masked:
  assumes "maskDatagram p key rnd = Inr (wire, rnd')" "length p \<le> k"
  shows "ReadFrom_loop k (wire # rest) key server =
    (if p = [] \<or> server \<and> \<not> supportedQUICPacket p then ReadFrom_loop k rest key server
     else Some (p, rest))"
  using unmask_mask [OF assms(1)] assms(2) by (simp add: nonceLen_def)

lemma ReadFrom_short:
  "length d \<le> 12 \<Longrightarrow> ReadFrom_loop k (d # rest) key server = ReadFrom_loop k rest key server"
  by (simp add: unmaskDatagram_def nonceLen_def)

subsection \<open>A good client is let in\<close>

lemma readPlainUntil_succeeds:
  assumes "length buf \<le> n" "n - length buf \<le> length (incoming c)"
    "unat (tc_readOff c) + (n - length buf) \<le> 65856" "n < 2 ^ 63"
  shows "\<exists>c'. readPlainUntil c buf n = (Inr (buf @ take (n - length buf) (incoming c)), c') \<and>
    reads c (take (n - length buf) (incoming c)) c' \<and>
    unat (tc_readOff c') = unat (tc_readOff c) + (n - length buf)"
proof -
  let ?m = "n - length buf" and ?off = "tc_readOff c"
  have "?off + word_of_nat ?m = word_of_nat (unat ?off + ?m)" by simp
  then have "unat (?off + word_of_nat ?m) = (unat ?off + ?m) mod 2 ^ 64"
    by (simp only: unat_of_nat take_bit_eq_mod) simp
  then have u: "unat (?off + word_of_nat ?m) = unat ?off + ?m" using assms(3) by simp
  then have lim: "checkLimit ?off (int ?m) = None"
    using assms(3) by (simp add: checkLimit_def word_less_nat_alt)
  have off: "?off \<le> streamLimit" using assms(3) by (simp add: word_le_nat_alt)
  show ?thesis
  proof (cases "length buf = n")
    case True
    then show ?thesis using off by (simp add: readPlainUntil_def)
  next
    case False
    let ?bs = "take ?m (rd_buf (tc_in c))" and ?i = "(tc_in c)\<lparr>rd_buf := drop ?m (rd_buf (tc_in c))\<rparr>"
    have l: "?m \<le> length (rd_buf (tc_in c))" using assms(2) by (simp add: incoming_def)
    then have rf: "ReadFull ?m (tc_in c) = Inr (?bs, ?i)" by (simp add: ReadFull_def)
    have x: "XORKeyStreamAt ?bs ?bs (tc_readKey c) (tc_nonce c) ?off = take ?m (incoming c)"
      by (simp add: XORKeyStreamAt_in_place incoming_def xor_at_take)
    have "reads c (take ?m (incoming c)) (c\<lparr>tc_in := ?i, tc_readOff := ?off + word_of_nat ?m\<rparr>)"
      using reads_step [of c ?bs ?i ?m] lim off l assms(4) x by simp
    then show ?thesis
      using False assms(1,2) lim rf x u
      by (auto simp: readPlainUntil_def Let_def)
  qed
qed

definition hello_record_bytes :: "u16 \<Rightarrow> byte list \<Rightarrow> byte list" where
  "hello_record_bytes version hello =
     tlsHandshake # PutUint16 version @ PutUint16 (word_of_nat (length hello)) @ hello"

lemma hello_record_header:
  assumes "length hello \<le> tlsMaxCipher" "version < 0x1000"
  shows "take 5 (hello_record_bytes version hello @ rest) =
      tlsHandshake # PutUint16 version @ PutUint16 (word_of_nat (length hello))"
    "\<not> hello_header_bad True (tlsHandshake # PutUint16 version @ PutUint16 (word_of_nat (length hello)))"
    "unat (Uint16 (take 2 (drop 3 (tlsHandshake # PutUint16 version @ PutUint16 (word_of_nat (length hello)))))) = length hello"
proof -
  have "take 2 (drop 3 (x # PutUint16 v @ PutUint16 w)) = PutUint16 w" for x v w
    by (simp add: numeral_3_eq_3)
  then show l: "unat (Uint16 (take 2 (drop 3 (tlsHandshake # PutUint16 version @ PutUint16 (word_of_nat (length hello)))))) = length hello"
    using assms(1) by (simp add: tlsMaxCipher_def unat_of_nat take_bit_eq_mod)
  show "take 5 (hello_record_bytes version hello @ rest) =
      tlsHandshake # PutUint16 version @ PutUint16 (word_of_nat (length hello))"
    by (simp add: hello_record_bytes_def)
  show "\<not> hello_header_bad True (tlsHandshake # PutUint16 version @ PutUint16 (word_of_nat (length hello)))"
    unfolding hello_header_bad_def l using assms by (simp add: tlsHandshake_def)
qed

lemma client_hello_length:
  assumes "client_hello hello"
  shows "4 \<le> length hello" "hello ! 0 = tlsClientHello" "message_len hello = length hello - 4"
proof -
  have w: "clientHelloWellFormed hello = Ret True" using assms by (simp add: clientHelloWellFormed_grammar)
  then show "4 \<le> length hello" "hello ! 0 = tlsClientHello" "message_len hello = length hello - 4"
    by (auto simp: clientHelloWellFormed_def split: if_splits)
qed

lemma readClientHello_single:
  assumes "incoming c = hello_record_bytes version hello @ rest" "tc_readOff c = 0"
    "client_hello hello" "length hello \<le> tlsMaxCipher" "version < 0x1000"
  shows "\<exists>c'. readClientHello c = (Inr (hello_record_bytes version hello), c') \<and>
    reads c (hello_record_bytes version hello) c'"
proof -
  let ?r = "hello_record_bytes version hello" and ?n = "length hello"
  note h = hello_record_header [OF assms(4,5)]
  note ch = client_hello_length [OF assms(3)]
  have len: "length ?r = 5 + ?n" by (simp add: hello_record_bytes_def)
  have mx: "?n \<le> 18432" using assms(4) by (simp add: tlsMaxCipher_def)
  have take5: "take 5 (incoming c) = take 5 ?r" using assms(1) len by simp
  obtain c1 where c1: "readPlainUntil c [] 5 = (Inr (take 5 ?r), c1)" "reads c (take 5 ?r) c1"
    "unat (tc_readOff c1) = 5"
    using readPlainUntil_succeeds [of "[]" 5 c] assms(1,2) len take5 by auto
  have i1: "incoming c1 = drop 5 ?r @ rest"
    using c1(2) assms(1) unfolding reads_def by (metis append_assoc append_take_drop_id same_append_eq)
  have "take ?n (incoming c1) = drop 5 ?r" using i1 len by simp
  then obtain c2 where c2: "readPlainUntil c1 (take 5 ?r) (5 + ?n) = (Inr ?r, c2)" "reads c1 (drop 5 ?r) c2"
    using readPlainUntil_succeeds [of "take 5 ?r" "5 + ?n" c1] i1 len c1(3) mx by auto
  have d5: "drop 5 ?r = hello" by (simp add: hello_record_bytes_def)
  have ap: "hello_append ?r hello None (5 + ?n) = Inr (?r, hello, Some (?n - 4), 5 + ?n)"
    using ch mx by (simp add: hello_append_def tlsMaxHandshake_def)
  have t5: "take 5 ?r = tlsHandshake # PutUint16 version @ PutUint16 (word_of_nat ?n)"
    using h(1) [of "[]"] by simp
  have "hello_record True c ([], [], None, 0) = (Inr (?r, hello, Some (?n - 4), 5 + ?n), c2)"
    using c1(1) c2(1) h(2,3) ap d5 mx unfolding hello_record_def Let_def
    by (simp add: tlsRecordHeader_def tlsMaxHandshake_def tlsMaxRecords_def t5 [symmetric])
  moreover have "clientHelloWellFormed hello = Ret True" using assms(3) by (simp add: clientHelloWellFormed_grammar)
  ultimately have "readClientHello c = (Inr ?r, c2)"
    using ch(1) by (simp add: readClientHello_def tlsMaxRecords_def hello_complete_def eval_nat_numeral)
  moreover have "reads c ?r c2" using reads_trans [OF c1(2) c2(2)] by simp
  ultimately show ?thesis by blast
qed

lemma precheck_commit:
  "registry_precheck r k n \<Longrightarrow> snd (registry_commit r k n)"
  by (auto simp: registry_precheck_def registry_commit_def Let_def split: option.splits if_splits)

text \<open>A server that has just been wrapped, with a socket that will deliver \<open>wire\<close>.\<close>

lemma bootstrap_accepts:
  assumes "tc_state c = Some st" "tc_bootErr c = None" "\<not> tc_bootstrapped c" "tc_lingerErr c = None"
    "tc_readOff c = 0" "length prelude = 64" "length nonce = 12"
    "rd_buf (tc_in c) = encodePrelude st' prelude nonce k n @ nonce @
       xor_at (tc_readKey c) nonce 0 (hello_record_bytes version hello @ rest)"
    "ps_authKey st' = ps_authKey st" "ps_maskKey st' = ps_maskKey st"
    "registry_precheck (fst (ps_registry st)) k n"
    "client_hello hello" "length hello \<le> tlsMaxCipher" "version < 0x1000"
  shows "\<exists>c'. bootstrap [] c = (None, c') \<and> tc_pending c' = hello_record_bytes version hello \<and>
    incoming c' = rest"
proof -
  let ?r = "hello_record_bytes version hello"
  define head where "head = encodePrelude st prelude nonce k n @ nonce"
  have "encodePrelude st' prelude nonce k n = encodePrelude st prelude nonce k n"
    using assms(9,10) by (simp add: encodePrelude_def)
  then have buf: "rd_buf (tc_in c) = head @ xor_at (tc_readKey c) nonce 0 (?r @ rest)"
    using assms(8) by (simp add: head_def)
  have h: "take 64 head = encodePrelude st prelude nonce k n" "drop 64 head = nonce" "length head = 76"
    using encodePrelude_frame(1) [OF assms(6,7)] assms(7) by (simp_all add: head_def)
  obtain reg st1 where reg: "ps_registry st = (reg, st1)" by fastforce
  have pc: "registry_precheck reg k n" using assms(11) reg by simp
  then have n: "counterValid n" by (simp add: registry_precheck_def split: if_splits)
  then have dec: "decodePrelude st (take 64 head) (drop 64 head) = (k, n, True)"
    using decodePrelude_encodePrelude [OF assms(6,7)] h by (simp add: counterValid_def)
  define i where "i = (tc_in c)\<lparr>rd_buf := xor_at (tc_readKey c) nonce 0 (?r @ rest)\<rparr>"
  have rf: "ReadFull 76 (tc_in c) = Inr (head, i)" using buf h(3) by (simp add: ReadFull_def i_def)
  define c1 where "c1 = c\<lparr>tc_linger := Some 0, tc_in := i, tc_nonce := drop 64 head, tc_state := Some st1\<rparr>"
  have inc: "incoming c1 = ?r @ rest"
    using assms(5) h(2) by (simp add: incoming_def c1_def i_def chacha.mask_involution)
  have "tc_readOff c1 = 0" using assms(5) by (simp add: c1_def)
  from readClientHello_single [OF inc this assms(12-14)] obtain c2
    where c2: "readClientHello c1 = (Inr ?r, c2)" "reads c1 ?r c2" by blast
  obtain reg' ok where cm: "registry_commit reg k n = (reg', ok)" by fastforce
  then have "ok" using precheck_commit [OF pc] by simp
  then have "bootstrapOnce [] c = (None, c2\<lparr>tc_state := Some (st1\<lparr>ps_replay := Some reg'\<rparr>), tc_pending := ?r\<rparr>)"
    using assms(1,4) rf dec n reg pc c2(1) cm
    by (simp add: bootstrapOnce_def setLinger_def preludeLen_def nonceLen_def Let_def c1_def)
  then have "bootstrap [] c = (None, c2\<lparr>tc_state := Some (st1\<lparr>ps_replay := Some reg'\<rparr>), tc_pending := ?r,
      tc_bootstrapped := True\<rparr>)"
    using assms(2,3) by (simp add: bootstrap_def)
  moreover have "incoming c2 = rest" using c2(2) inc by (simp add: reads_def)
  ultimately show ?thesis by (auto simp: incoming_def)
qed

end
