(* ===== verification/Nw2_Flow.thy ===== *)
theory Nw2_Flow
  imports Nowhere_Prelude
begin

section \<open>nw2 wire: flow headers, mux headers, full writes\<close>

text \<open>
  \<^verbatim>\<open>nw2/wire/flow.go\<close>, \<^verbatim>\<open>mux.go\<close> and \<^verbatim>\<open>io.go\<close>. Roles, kinds and carriers are the bytes of
  the code, so that every value the decoder can meet is a value of the model.
\<close>

definition ErrInvalidFlowHeader :: error where
  "ErrInvalidFlowHeader = New ''nowhere: invalid flow header''"
definition ErrInvalidMuxHeader :: error where
  "ErrInvalidMuxHeader = New ''nowhere: invalid mux header''"

definition FlowHeaderLen :: nat where "FlowHeaderLen = 5"
definition nw2_MaxFlowID :: u32 where "nw2_MaxFlowID = 0x3fffffff"
definition MaxPortalHops :: byte where "MaxPortalHops = 7"

definition FlowRoleDuplex :: byte where "FlowRoleDuplex = 0"
definition FlowRoleOpen :: byte where "FlowRoleOpen = 1"
definition FlowRoleAttach :: byte where "FlowRoleAttach = 2"
definition FlowKindTCP :: byte where "FlowKindTCP = 0"
definition FlowKindUDP :: byte where "FlowKindUDP = 1"
definition CarrierTLSTCP :: byte where "CarrierTLSTCP = 0"
definition CarrierQUIC :: byte where "CarrierQUIC = 1"

lemmas flow_consts = FlowRoleDuplex_def FlowRoleOpen_def FlowRoleAttach_def FlowKindTCP_def
  FlowKindUDP_def CarrierTLSTCP_def CarrierQUIC_def MaxPortalHops_def

record FlowHeader =
  fh_Role :: byte
  fh_FlowID :: u32
  fh_Kind :: byte
  fh_Uplink :: byte
  fh_Downlink :: byte
  fh_Hops :: byte

definition FlowHeader_Validate :: "FlowHeader \<Rightarrow> error option" where
  "FlowHeader_Validate h =
     (if fh_Hops h > MaxPortalHops then Some (New ''nowhere: portal hop budget exceeds 7'')
      else if fh_FlowID h = 0 \<or> fh_FlowID h > nw2_MaxFlowID
      then Some (New ''nowhere: flow id out of range'')
      else if fh_Role h = FlowRoleDuplex \<and> fh_Uplink h \<noteq> fh_Downlink h
      then Some (New ''nowhere: duplex carrier mismatch'')
      else if fh_Role h \<noteq> FlowRoleDuplex \<and> fh_Role h \<noteq> FlowRoleOpen \<and> fh_Role h \<noteq> FlowRoleAttach
      then Some (New ''nowhere: invalid flow role'')
      else if fh_Kind h \<noteq> FlowKindTCP \<and> fh_Kind h \<noteq> FlowKindUDP
      then Some (New ''nowhere: invalid flow kind'')
      else if fh_Uplink h \<noteq> CarrierTLSTCP \<and> fh_Uplink h \<noteq> CarrierQUIC
      then Some (New ''nowhere: invalid uplink carrier'')
      else if fh_Downlink h \<noteq> CarrierTLSTCP \<and> fh_Downlink h \<noteq> CarrierQUIC
      then Some (New ''nowhere: invalid downlink carrier'')
      else None)"

definition FlowHeader_ValidateOn :: "FlowHeader \<Rightarrow> byte \<Rightarrow> error option" where
  "FlowHeader_ValidateOn h current =
     (case FlowHeader_Validate h of
        Some e \<Rightarrow> Some e
      | None \<Rightarrow>
          (let expected =
             (if fh_Role h = FlowRoleDuplex \<or> fh_Role h = FlowRoleOpen then fh_Uplink h
              else if fh_Role h = FlowRoleAttach then fh_Downlink h else 0)
           in if current \<noteq> expected then Some (New ''nowhere: flow arrived on the wrong carrier'')
              else None))"

definition CarriesTarget :: "FlowHeader \<Rightarrow> bool" where
  "CarriesTarget h \<longleftrightarrow> fh_Role h = FlowRoleDuplex \<or> fh_Role h = FlowRoleOpen"

definition writeFlowHeaderUnchecked :: "FlowHeader \<Rightarrow> byte list" where
  "writeFlowHeaderUnchecked h =
     (let flags = fh_Role h OR push_bit 2 (fh_Kind h) OR push_bit 3 (fh_Uplink h) OR
                  push_bit 4 (fh_Downlink h) OR push_bit 5 (fh_Hops h)
      in flags # PutUint32 (fh_FlowID h))"

definition WriteFlowHeader :: "FlowHeader \<Rightarrow> error + byte list" where
  "WriteFlowHeader h =
     (case FlowHeader_Validate h of
        Some e \<Rightarrow> Inl e
      | None \<Rightarrow> Inr (writeFlowHeaderUnchecked h))"

definition EncodeFlowHeader :: "FlowHeader \<Rightarrow> error + byte list" where
  "EncodeFlowHeader h = (case WriteFlowHeader h of Inl e \<Rightarrow> Inl e | Inr out \<Rightarrow> Inr out)"

definition flag_fields :: "byte \<Rightarrow> u32 \<Rightarrow> FlowHeader" where
  "flag_fields flags flowID =
     \<lparr>fh_Role = flags AND 0b11,
      fh_FlowID = flowID,
      fh_Kind = (if flags AND 0b100 \<noteq> 0 then FlowKindUDP else FlowKindTCP),
      fh_Uplink = (if flags AND 0b1000 \<noteq> 0 then CarrierQUIC else CarrierTLSTCP),
      fh_Downlink = (if flags AND 0b10000 \<noteq> 0 then CarrierQUIC else CarrierTLSTCP),
      fh_Hops = drop_bit 5 flags\<rparr>"

definition DecodeFlowHeader :: "byte list \<Rightarrow> error + FlowHeader" where
  "DecodeFlowHeader b =
     (if length b \<noteq> FlowHeaderLen then Inl ErrInvalidFlowHeader
      else
        (let h = flag_fields (b ! 0) (Uint32 (drop 1 b))
         in if FlowHeader_Validate h \<noteq> None then Inl ErrInvalidFlowHeader else Inr h))"

definition ReadFlowHeader :: "reader \<Rightarrow> error + FlowHeader \<times> reader" where
  "ReadFlowHeader r =
     (case ReadFull FlowHeaderLen r of
        Inl e \<Rightarrow> Inl e
      | Inr (buf, r) \<Rightarrow> (case DecodeFlowHeader buf of Inl e \<Rightarrow> Inl e | Inr h \<Rightarrow> Inr (h, r)))"

subsection \<open>Mux headers\<close>

definition MuxMarker :: byte where "MuxMarker = 0xff"
definition MuxHeaderLen :: nat where "MuxHeaderLen = 7"

definition MuxFrameOpen :: byte where "MuxFrameOpen = 1"
definition MuxFrameData :: byte where "MuxFrameData = 2"
definition MuxFrameWindow :: byte where "MuxFrameWindow = 3"
definition MuxFrameFin :: byte where "MuxFrameFin = 4"
definition MuxFrameReset :: byte where "MuxFrameReset = 5"

lemmas mux_kinds = MuxFrameOpen_def MuxFrameData_def MuxFrameWindow_def MuxFrameFin_def MuxFrameReset_def

record MuxHeader =
  mh_Kind :: byte
  mh_Value :: u16
  mh_FlowID :: u32

definition requireMuxFlowID :: "u32 \<Rightarrow> error option" where
  "requireMuxFlowID flowID =
     (if flowID = 0 \<or> flowID > nw2_MaxFlowID then Some ErrInvalidMuxHeader else None)"

definition MuxHeader_Validate :: "MuxHeader \<Rightarrow> error option" where
  "MuxHeader_Validate h =
     (if mh_Kind h = MuxFrameOpen then requireMuxFlowID (mh_FlowID h)
      else if mh_Kind h = MuxFrameData then
        (case requireMuxFlowID (mh_FlowID h) of
           Some e \<Rightarrow> Some e
         | None \<Rightarrow> if mh_Value h = 0 then Some ErrInvalidMuxHeader else None)
      else if mh_Kind h = MuxFrameWindow then
        (if mh_Value h = 0 then Some ErrInvalidMuxHeader
         else if mh_FlowID h \<noteq> 0 then requireMuxFlowID (mh_FlowID h) else None)
      else if mh_Kind h = MuxFrameFin \<or> mh_Kind h = MuxFrameReset then
        (case requireMuxFlowID (mh_FlowID h) of
           Some e \<Rightarrow> Some e
         | None \<Rightarrow> if mh_Value h \<noteq> 0 then Some ErrInvalidMuxHeader else None)
      else Some ErrInvalidMuxHeader)"

definition newMuxHeader :: "byte \<Rightarrow> int \<Rightarrow> u32 \<Rightarrow> error + MuxHeader" where
  "newMuxHeader kind v flowID =
     (if v < 0 \<or> v > 0xffff then Inl (New ''nowhere: mux frame value exceeds u16'')
      else
        (let header = \<lparr>mh_Kind = kind, mh_Value = word_of_int v, mh_FlowID = flowID\<rparr>
         in case MuxHeader_Validate header of Some e \<Rightarrow> Inl e | None \<Rightarrow> Inr header))"

definition OpenMuxHeader :: "u32 \<Rightarrow> int \<Rightarrow> error + MuxHeader" where
  "OpenMuxHeader flowID extension = newMuxHeader MuxFrameOpen extension flowID"

definition DataMuxHeader :: "u32 \<Rightarrow> int \<Rightarrow> error + MuxHeader" where
  "DataMuxHeader flowID payloadLen = newMuxHeader MuxFrameData payloadLen flowID"

definition WindowMuxHeader :: "u32 \<Rightarrow> int \<Rightarrow> error + MuxHeader" where
  "WindowMuxHeader flowID credit = newMuxHeader MuxFrameWindow credit flowID"

definition FinMuxHeader :: "u32 \<Rightarrow> error + MuxHeader" where
  "FinMuxHeader flowID = newMuxHeader MuxFrameFin 0 flowID"

definition ResetMuxHeader :: "u32 \<Rightarrow> error + MuxHeader" where
  "ResetMuxHeader flowID = newMuxHeader MuxFrameReset 0 flowID"

definition EncodeMuxHeader :: "MuxHeader \<Rightarrow> error + byte list" where
  "EncodeMuxHeader h =
     (case MuxHeader_Validate h of
        Some e \<Rightarrow> Inl e
      | None \<Rightarrow> Inr (mh_Kind h # PutUint16 (mh_Value h) @ PutUint32 (mh_FlowID h)))"

definition DecodeMuxHeader :: "byte list \<Rightarrow> error + MuxHeader" where
  "DecodeMuxHeader b =
     (if length b \<noteq> MuxHeaderLen then Inl ErrInvalidMuxHeader
      else
        (let header = \<lparr>mh_Kind = b ! 0, mh_Value = Uint16 (take 2 (drop 1 b)), mh_FlowID = Uint32 (drop 3 b)\<rparr>
         in if MuxHeader_Validate header \<noteq> None then Inl ErrInvalidMuxHeader else Inr header))"

definition ReadMuxHeader :: "reader \<Rightarrow> error + MuxHeader \<times> reader" where
  "ReadMuxHeader r =
     (case ReadFull MuxHeaderLen r of
        Inl e \<Rightarrow> Inl e
      | Inr (buf, r) \<Rightarrow> (case DecodeMuxHeader buf of Inl e \<Rightarrow> Inl e | Inr h \<Rightarrow> Inr (h, r)))"

definition MuxPayloadLen :: "MuxHeader \<Rightarrow> nat" where
  "MuxPayloadLen h = (if mh_Kind h = MuxFrameData then unat (mh_Value h) else 0)"

subsection \<open>Flow headers on the wire\<close>

lemma FlowHeader_Validate_iff:
  "FlowHeader_Validate h = None \<longleftrightarrow>
     fh_Hops h \<le> 7 \<and> 0 < fh_FlowID h \<and> fh_FlowID h \<le> nw2_MaxFlowID \<and>
     fh_Role h \<in> {0, 1, 2} \<and> fh_Kind h \<in> {0, 1} \<and> fh_Uplink h \<in> {0, 1} \<and> fh_Downlink h \<in> {0, 1} \<and>
     (fh_Role h = 0 \<longrightarrow> fh_Uplink h = fh_Downlink h)"
  by (auto simp: FlowHeader_Validate_def flow_consts word_gt_0 not_less)

text \<open>The flag byte carries five fields without overlap, and every byte is such a flag byte.\<close>

lemma hops_bits: "(h :: byte) \<le> 7 \<longleftrightarrow> (\<forall>n\<ge>3. \<not> bit h n)"
proof
  assume "h \<le> 7"
  then have "unat h < 2 ^ 3" by (simp add: word_le_nat_alt)
  then have "take_bit 3 h = h" by (simp add: word_unat_eq_iff unsigned_take_bit_eq take_bit_nat_eq_self)
  then show "\<forall>n\<ge>3. \<not> bit h n" by (metis bit_take_bit_iff not_less)
next
  assume "\<forall>n\<ge>3. \<not> bit h n"
  then have "take_bit 3 h = h" by (intro bit_eqI) (metis bit_take_bit_iff not_less)
  then have "unat h < 2 ^ 3" by (metis take_bit_nat_less_exp unsigned_take_bit_eq)
  then show "h \<le> 7" by (simp add: word_le_nat_alt)
qed

definition flag_pack :: "byte \<Rightarrow> bool \<Rightarrow> bool \<Rightarrow> bool \<Rightarrow> byte \<Rightarrow> byte" where
  "flag_pack r k u d h = r OR push_bit 2 (of_bool k) OR push_bit 3 (of_bool u) OR push_bit 4 (of_bool d) OR push_bit 5 h"

lemma and_pow: "(w :: byte) AND 4 \<noteq> 0 \<longleftrightarrow> bit w 2" "w AND 8 \<noteq> 0 \<longleftrightarrow> bit w 3" "w AND 16 \<noteq> 0 \<longleftrightarrow> bit w 4"
  using and_exp_eq_0_iff_not_bit [of w 2] and_exp_eq_0_iff_not_bit [of w 3] and_exp_eq_0_iff_not_bit [of w 4]
  by simp_all

lemma and_3: "(w :: byte) AND 3 = take_bit 2 w"
  by (simp add: take_bit_eq_mask mask_eq_decr_exp)

lemma flag_pack_bit:
  assumes "\<forall>n\<ge>2. \<not> bit r n"
  shows "bit (flag_pack r k u d h) n \<longleftrightarrow> n < 8 \<and> (bit r n \<or> n = 2 \<and> k \<or> n = 3 \<and> u \<or> n = 4 \<and> d \<or> 5 \<le> n \<and> bit h (n - 5))"
  using assms
  by (auto simp: flag_pack_def bit_or_iff bit_push_bit_iff bit_1_iff dest: bit_imp_le_length)

lemma role_bits: "(r :: byte) \<in> {0,1,2} \<Longrightarrow> \<forall>n\<ge>2. \<not> bit r n"
  by (auto simp: bit_1_iff bit_2_iff)

lemma flag_pack_fields:
  assumes "\<forall>n\<ge>2. \<not> bit r n" "\<forall>n\<ge>3. \<not> bit h n"
  shows "flag_pack r k u d h AND 3 = r" "flag_pack r k u d h AND 4 \<noteq> 0 \<longleftrightarrow> k"
    "flag_pack r k u d h AND 8 \<noteq> 0 \<longleftrightarrow> u" "flag_pack r k u d h AND 16 \<noteq> 0 \<longleftrightarrow> d"
    "drop_bit 5 (flag_pack r k u d h) = h"
proof -
  show "flag_pack r k u d h AND 3 = r"
    unfolding and_3 using assms(1) by (intro bit_eqI) (auto simp: bit_take_bit_iff flag_pack_bit [OF assms(1)] simp flip: not_le)
  show "drop_bit 5 (flag_pack r k u d h) = h"
    using assms by (intro bit_eqI)
      (auto simp: bit_drop_bit_eq flag_pack_bit [OF assms(1)] simp flip: not_le dest: bit_imp_le_length)
qed (use assms(1) in \<open>auto simp: and_pow flag_pack_bit\<close>)

lemma flag_pack_surj: "flag_pack (w AND 3) (w AND 4 \<noteq> 0) (w AND 8 \<noteq> 0) (w AND 16 \<noteq> 0) (drop_bit 5 w) = w"
proof (rule bit_word_eqI)
  fix n
  have b: "\<forall>n\<ge>2. \<not> bit (w AND 3) n" by (simp add: and_3 bit_take_bit_iff)
  have l: "n < 8" if "bit w n" using bit_imp_le_length [OF that] by simp
  have "n = 2 \<or> n = 3 \<or> n = 4 \<or> n < 2 \<or> 5 \<le> n" by arith
  then show "bit (flag_pack (w AND 3) (w AND 4 \<noteq> 0) (w AND 8 \<noteq> 0) (w AND 16 \<noteq> 0) (drop_bit 5 w)) n = bit w n"
    unfolding flag_pack_bit [OF b] and_pow using l
    by (auto simp: and_3 bit_take_bit_iff bit_drop_bit_eq)
qed

lemma flags_pack:
  "fh_Kind h \<in> {0, 1} \<Longrightarrow> fh_Uplink h \<in> {0, 1} \<Longrightarrow> fh_Downlink h \<in> {0, 1} \<Longrightarrow>
   writeFlowHeaderUnchecked h =
     flag_pack (fh_Role h) (fh_Kind h = 1) (fh_Uplink h = 1) (fh_Downlink h = 1) (fh_Hops h) # PutUint32 (fh_FlowID h)"
  unfolding writeFlowHeaderUnchecked_def flag_pack_def Let_def by auto

lemma DecodeFlowHeader_encode:
  assumes "FlowHeader_Validate h = None"
  shows "DecodeFlowHeader (writeFlowHeaderUnchecked h) = Inr h"
proof -
  note v = assms [unfolded FlowHeader_Validate_iff]
  have f: "\<forall>n\<ge>2. \<not> bit (fh_Role h) n" "\<forall>n\<ge>3. \<not> bit (fh_Hops h) n"
    using v role_bits [of "fh_Role h"] hops_bits [of "fh_Hops h"] by auto
  note p = flag_pack_fields [OF f]
  have w: "writeFlowHeaderUnchecked h =
     flag_pack (fh_Role h) (fh_Kind h = 1) (fh_Uplink h = 1) (fh_Downlink h = 1) (fh_Hops h) # PutUint32 (fh_FlowID h)"
    using v by (intro flags_pack) auto
  have i: "(if fh_Kind h = 1 then FlowKindUDP else FlowKindTCP) = fh_Kind h"
    "(if fh_Uplink h = 1 then CarrierQUIC else CarrierTLSTCP) = fh_Uplink h"
    "(if fh_Downlink h = 1 then CarrierQUIC else CarrierTLSTCP) = fh_Downlink h"
    using v by (auto simp: flow_consts)
  have r: "flag_fields (flag_pack (fh_Role h) (fh_Kind h = 1) (fh_Uplink h = 1) (fh_Downlink h = 1) (fh_Hops h))
      (fh_FlowID h) = h"
    unfolding flag_fields_def p i by simp
  show ?thesis using assms by (simp add: DecodeFlowHeader_def w FlowHeaderLen_def r)
qed

lemma DecodeFlowHeader_Inr:
  assumes "DecodeFlowHeader b = Inr h"
  shows "FlowHeader_Validate h = None" "writeFlowHeaderUnchecked h = b"
proof -
  from assms obtain f bs where b: "b = f # bs" "length bs = 4"
    by (cases b) (auto simp: DecodeFlowHeader_def FlowHeaderLen_def split: if_splits)
  have h: "h = flag_fields f (Uint32 bs)" and v: "FlowHeader_Validate h = None"
    using assms b by (auto simp: DecodeFlowHeader_def Let_def FlowHeaderLen_def split: if_splits)
  show "FlowHeader_Validate h = None" by (rule v)
  have "writeFlowHeaderUnchecked h =
     flag_pack (fh_Role h) (fh_Kind h = 1) (fh_Uplink h = 1) (fh_Downlink h = 1) (fh_Hops h) # PutUint32 (fh_FlowID h)"
    unfolding h by (intro flags_pack) (auto simp: flow_consts flag_fields_def)
  also have "\<dots> = flag_pack (f AND 3) (f AND 4 \<noteq> 0) (f AND 8 \<noteq> 0) (f AND 16 \<noteq> 0) (drop_bit 5 f) # PutUint32 (Uint32 bs)"
    unfolding h by (auto simp: flow_consts flag_fields_def)
  also have "\<dots> = b" unfolding flag_pack_surj b(1) by (simp add: Put_Uint32 b(2))
  finally show "writeFlowHeaderUnchecked h = b" .
qed

lemma length_writeFlowHeaderUnchecked [simp]: "length (writeFlowHeaderUnchecked h) = 5"
  by (simp add: writeFlowHeaderUnchecked_def Let_def)

lemma EncodeFlowHeader_iff:
  "EncodeFlowHeader h = Inr b \<longleftrightarrow> FlowHeader_Validate h = None \<and> b = writeFlowHeaderUnchecked h"
  by (auto simp: EncodeFlowHeader_def WriteFlowHeader_def split: option.splits)

interpretation flow_header: stream_codec "\<lambda>_. True" EncodeFlowHeader ReadFlowHeader
  by unfold_locales
    (auto simp: EncodeFlowHeader_iff ReadFlowHeader_def FlowHeaderLen_def DecodeFlowHeader_encode)

lemma ReadFlowHeader_canonical:
  "ReadFlowHeader r = Inr (h, r') \<longleftrightarrow> (\<exists>b. EncodeFlowHeader h = Inr b \<and> r = prepend b r')"
proof
  assume "ReadFlowHeader r = Inr (h, r')"
  then obtain b where "r = prepend b r'" "DecodeFlowHeader b = Inr h"
    by (auto simp: ReadFlowHeader_def ReadFull_Inr split: sum.splits prod.splits)
  then show "\<exists>b. EncodeFlowHeader h = Inr b \<and> r = prepend b r'"
    by (auto simp: EncodeFlowHeader_iff dest: DecodeFlowHeader_Inr)
qed (auto simp: flow_header.rd_enc)

text \<open>
  The first byte of a carrier stream tells a multiplexed carrier from a single flow: no flow header
  starts with the marker of the mux.
\<close>

lemma flow_header_not_marker:
  assumes "EncodeFlowHeader h = Inr b"
  shows "b ! 0 \<noteq> MuxMarker"
proof
  assume m: "b ! 0 = MuxMarker"
  have v: "FlowHeader_Validate h = None" and "b = writeFlowHeaderUnchecked h"
    using assms by (auto simp: EncodeFlowHeader_iff)
  then have "DecodeFlowHeader b = Inr h" by (simp add: DecodeFlowHeader_encode)
  then have "fh_Role h = MuxMarker AND 3"
    using m by (auto simp: DecodeFlowHeader_def flag_fields_def Let_def split: if_splits)
  with v show False by (auto simp: FlowHeader_Validate_iff MuxMarker_def)
qed

subsection \<open>Mux headers on the wire\<close>

lemma DecodeMuxHeader_encode:
  "EncodeMuxHeader h = Inr b \<Longrightarrow> DecodeMuxHeader b = Inr h"
  by (cases h) (auto simp: EncodeMuxHeader_def DecodeMuxHeader_def MuxHeaderLen_def Let_def numeral_3_eq_3
      split: option.splits)

lemma DecodeMuxHeader_Inr:
  assumes "DecodeMuxHeader b = Inr h"
  shows "EncodeMuxHeader h = Inr b"
proof -
  from assms have l: "length b = 7" and v: "MuxHeader_Validate h = None"
    and h: "h = \<lparr>mh_Kind = b ! 0, mh_Value = Uint16 (take 2 (drop 1 b)), mh_FlowID = Uint32 (drop 3 b)\<rparr>"
    by (auto simp: DecodeMuxHeader_def MuxHeaderLen_def Let_def split: if_splits)
  have "b ! 0 # take 2 (drop 1 b) @ drop 3 b = b"
    using l by (cases b) (auto simp: numeral_3_eq_3 eval_nat_numeral)
  then show ?thesis using v l by (simp add: EncodeMuxHeader_def h Put_Uint16 Put_Uint32)
qed

lemma length_EncodeMuxHeader: "EncodeMuxHeader h = Inr b \<Longrightarrow> length b = MuxHeaderLen"
  by (auto simp: EncodeMuxHeader_def MuxHeaderLen_def split: option.splits)

interpretation mux_header: stream_codec "\<lambda>_. True" EncodeMuxHeader ReadMuxHeader
  by unfold_locales (auto simp: ReadMuxHeader_def DecodeMuxHeader_encode length_EncodeMuxHeader)

lemma ReadMuxHeader_canonical:
  "ReadMuxHeader r = Inr (h, r') \<longleftrightarrow> (\<exists>b. EncodeMuxHeader h = Inr b \<and> r = prepend b r')"
proof
  assume "ReadMuxHeader r = Inr (h, r')"
  then obtain b where "r = prepend b r'" "DecodeMuxHeader b = Inr h"
    by (auto simp: ReadMuxHeader_def ReadFull_Inr split: sum.splits prod.splits)
  then show "\<exists>b. EncodeMuxHeader h = Inr b \<and> r = prepend b r'"
    by (auto dest: DecodeMuxHeader_Inr)
qed (auto simp: mux_header.rd_enc)

text \<open>The constructors give a valid header of their kind, or an error.\<close>

lemma newMuxHeader_Inr:
  "newMuxHeader k v f = Inr h \<longleftrightarrow>
     0 \<le> v \<and> v \<le> 0xffff \<and> h = \<lparr>mh_Kind = k, mh_Value = word_of_int v, mh_FlowID = f\<rparr> \<and>
     MuxHeader_Validate h = None"
  by (auto simp: newMuxHeader_def Let_def split: option.splits if_splits)

subsection \<open>Full writes\<close>

text \<open>
  \<^verbatim>\<open>WriteFull\<close> of \<^verbatim>\<open>io.go\<close>: a round either shortens the rest or ends the loop, so it ends for
  every writer, an ill-behaved one included.
\<close>

function WriteFull :: "writer \<Rightarrow> byte list \<Rightarrow> error option \<times> writer" where
  "WriteFull w p =
     (if p = [] then (None, w)
      else
        (case wr_Write p w of
           (n, err, w') \<Rightarrow>
             if n < 0 \<or> n > int (length p) then (Some ErrShortWrite, w')
             else
               (let p' = (if n > 0 then drop (nat n) p else p)
                in case err of
                     Some e \<Rightarrow> (Some e, w')
                   | None \<Rightarrow> if n = 0 then (Some ErrNoProgress, w') else WriteFull w' p')))"
  by auto
termination by (relation "measure (\<lambda>(w, p). length p)") auto

declare WriteFull.simps [simp del]

text \<open>What reaches the writer is a prefix, and all of it exactly when there is no error.\<close>

lemma WriteFull_out:
  "WriteFull w p = (err, w') \<Longrightarrow>
   \<exists>k. wr_out w' = wr_out w @ take k p \<and> (err = None \<longrightarrow> wr_out w' = wr_out w @ p)"
proof (induction w p arbitrary: err w' rule: WriteFull.induct)
  case (1 w p)
  show ?case
  proof (cases "p = []")
    case True
    with "1.prems" show ?thesis by (simp add: WriteFull.simps)
  next
    case False
    obtain n er w1 where w1: "wr_Write p w = (n, er, w1)" by (cases "wr_Write p w")
    have o: "wr_out w1 = wr_out w @ take (nat n) p"
      using w1 by (auto simp: wr_Write_def split: list.splits prod.splits)
    show ?thesis
    proof (cases "n < 0 \<or> n > int (length p) \<or> er \<noteq> None \<or> n = 0")
      case True
      then have "w' = w1" "err \<noteq> None" using "1.prems" w1 False
        by (subst (asm) WriteFull.simps; auto split: if_splits option.splits)+
      with o show ?thesis by auto
    next
      case ok: False
      then have "WriteFull w1 (drop (nat n) p) = (err, w')"
        using "1.prems" w1 False by (subst (asm) WriteFull.simps) auto
      moreover have "(if 0 < n then drop (nat n) p else p) = drop (nat n) p" using ok by auto
      ultimately have "\<exists>k. wr_out w' = wr_out w1 @ take k (drop (nat n) p) \<and>
          (err = None \<longrightarrow> wr_out w' = wr_out w1 @ drop (nat n) p)"
        using "1.IH" [OF False w1 [symmetric] refl _ refl, of err w'] ok by simp
      then obtain k where k: "wr_out w' = wr_out w1 @ take k (drop (nat n) p)"
        "err = None \<longrightarrow> wr_out w' = wr_out w1 @ drop (nat n) p" by blast
      have "take (nat n) p @ take k (drop (nat n) p) = take (nat n + k) p" by (simp add: take_add)
      with k o have "wr_out w' = wr_out w @ take (nat n + k) p" by simp
      moreover have "err = None \<longrightarrow> wr_out w' = wr_out w @ p" using k(2) o by auto
      ultimately show ?thesis by blast
    qed
  qed
qed

end
