(* ===== verification/Mux_Core.thy ===== *)
theory Mux_Core
  imports Nw2_Flow
begin

section \<open>The stream multiplexer: credit, configuration, shared state\<close>

text \<open>
  \<^verbatim>\<open>nw2/carrier/mux/credit.go\<close> and \<^verbatim>\<open>mux.go\<close>. A carrier multiplexes flows over one
  connection; credit is counted in units of 1024 bytes.

  A \<^verbatim>\<open>flowState\<close> of the code is one object reached from the flow table and, after its removal
  from there, from the streams and calls that still hold it. What those use (the reset flag, the
  inbound channel, the two semaphores) is a cell addressed by the generation of the flow, which
  is never reused; the rest of the object is only used through the table and is its entry.
  A Go channel is the list of what it holds; a channel closed to broadcast is a counter of its
  broadcasts; a capacity-one notification channel is whether it holds a token. A \<^verbatim>\<open>select\<close>
  takes a \<open>pick\<close> argument, the case the scheduler chose; a case that is not ready gives \<open>None\<close>:
  the call still waits. What a mutex protects is one atomic step.
\<close>

definition errClosed :: error where "errClosed = New ''nowhere: mux carrier is closed''"
definition errWindowOverflow :: error where "errWindowOverflow = New ''nowhere: mux window overflow''"
definition errConnWindowExceeded :: error where
  "errConnWindowExceeded = New ''nowhere: peer exceeded mux connection window''"
definition errStreamLimit :: error where "errStreamLimit = New ''nowhere: mux stream limit reached''"
definition errFlowExists :: error where "errFlowExists = New ''nowhere: mux flow already exists''"
definition errInvalidLimits :: error where "errInvalidLimits = New ''nowhere: invalid mux limits''"
definition errReset :: error where "errReset = New ''nowhere: mux flow reset''"
definition errInvalidFlowID :: error where "errInvalidFlowID = New ''nowhere: mux flow id out of range''"
definition errInterrupted :: error where "errInterrupted = New ''nowhere: mux wait interrupted''"
definition errResetLimit :: error where "errResetLimit = New ''nowhere: mux reset metadata limit reached''"
definition errProtocolViolation :: error where
  "errProtocolViolation = New ''nowhere: mux protocol violation''"
definition ErrDeadlineExceeded :: error where "ErrDeadlineExceeded = New ''i/o timeout''"

lemmas mux_errs = errClosed_def errWindowOverflow_def errConnWindowExceeded_def errStreamLimit_def
  errFlowExists_def errInvalidLimits_def errReset_def errInvalidFlowID_def errInterrupted_def
  errResetLimit_def errProtocolViolation_def ErrDeadlineExceeded_def

subsection \<open>Semaphores\<close>

record semaphore =
  sem_available :: int
  sem_closed :: bool
  sem_waiters :: nat

definition newSemaphore :: "int \<Rightarrow> semaphore" where
  "newSemaphore n = \<lparr>sem_available = n, sem_closed = False, sem_waiters = 0\<rparr>"

definition sem_wake :: "semaphore \<Rightarrow> semaphore" where
  "sem_wake s = s\<lparr>sem_waiters := 0\<rparr>"

definition sem_add :: "int \<Rightarrow> semaphore \<Rightarrow> semaphore" where
  "sem_add n s = (if n \<le> 0 then s else sem_wake (s\<lparr>sem_available := sem_available s + n\<rparr>))"

definition sem_close :: "semaphore \<Rightarrow> semaphore" where
  "sem_close s = sem_wake (s\<lparr>sem_closed := True\<rparr>)"

definition availablePermits :: "semaphore \<Rightarrow> int" where
  "availablePermits s = sem_available s"

text \<open>
  How a wait ends, and the outcome of \<^verbatim>\<open>acquireUntil\<close>. While the call waits, others change the
  semaphore: each round of the loop meets the semaphore it finds when it takes the lock, the first
  as an argument and the later ones in the list, after the event that ended the wait.
\<close>

datatype wake_event = Woken | StopA | StopB | Timeout

datatype acquired = Acquired | Failed error | Waiting

fun acquireUntil :: "int \<Rightarrow> semaphore \<Rightarrow> (wake_event \<times> semaphore) list \<Rightarrow> acquired \<times> semaphore" where
  "acquireUntil n s env =
     (let n = (if n < 0 then 0 else n)
      in if sem_closed s then (Failed errClosed, s)
         else if sem_available s \<ge> n then (Acquired, s\<lparr>sem_available := sem_available s - n\<rparr>)
         else
           (case env of
              [] \<Rightarrow> (Waiting, s\<lparr>sem_waiters := Suc (sem_waiters s)\<rparr>)
            | (Woken, s') # env' \<Rightarrow> acquireUntil n s' env'
            | (StopA, s') # env' \<Rightarrow> (Failed errClosed, s')
            | (StopB, s') # env' \<Rightarrow> (Failed errInterrupted, s')
            | (Timeout, s') # env' \<Rightarrow> (Failed ErrDeadlineExceeded, s')))"

declare acquireUntil.simps [simp del]

text \<open>The state the semaphore had when the call ended.\<close>

definition met :: "semaphore \<Rightarrow> (wake_event \<times> semaphore) list \<Rightarrow> semaphore set" where
  "met s env = insert s (snd ` set env)"

lemma acquireUntil_cases:
  assumes "acquireUntil n s env = (r, s')"
  shows "case r of
      Acquired \<Rightarrow> \<exists>t \<in> met s env. \<not> sem_closed t \<and> max 0 n \<le> sem_available t \<and>
        s' = t\<lparr>sem_available := sem_available t - max 0 n\<rparr>
    | Failed e \<Rightarrow> s' \<in> met s env
    | Waiting \<Rightarrow> \<exists>t \<in> met s env. \<not> sem_closed t \<and> sem_available t < max 0 n \<and>
        s' = t\<lparr>sem_waiters := Suc (sem_waiters t)\<rparr>"
  using assms
proof (induction n s env rule: acquireUntil.induct)
  case (1 n s env)
  show ?case
  proof (cases "sem_closed s \<or> max 0 n \<le> sem_available s")
    case True
    then show ?thesis using "1.prems"
      by (subst (asm) acquireUntil.simps) (auto simp: Let_def met_def max_def split: if_splits)
  next
    case False
    show ?thesis
    proof (cases env)
      case Nil
      then show ?thesis using "1.prems" False
        by (subst (asm) acquireUntil.simps) (auto simp: Let_def met_def max_def split: if_splits)
    next
      case (Cons a env')
      obtain w t where a: "a = (w, t)" by (cases a)
      have sub: "met t env' \<subseteq> met s env" by (auto simp: met_def Cons a)
      show ?thesis
      proof (cases "w = Woken")
        case True
        then have "acquireUntil (max 0 n) t env' = (r, s')"
          using "1.prems" False Cons a
          by (subst (asm) acquireUntil.simps) (auto simp: Let_def max_def split: if_splits)
        then have "case r of
            Acquired \<Rightarrow> \<exists>t \<in> met t env'. \<not> sem_closed t \<and> max 0 (max 0 n) \<le> sem_available t \<and>
              s' = t\<lparr>sem_available := sem_available t - max 0 (max 0 n)\<rparr>
          | Failed e \<Rightarrow> s' \<in> met t env'
          | Waiting \<Rightarrow> \<exists>t' \<in> met t env'. \<not> sem_closed t' \<and> sem_available t' < max 0 (max 0 n) \<and>
              s' = t'\<lparr>sem_waiters := Suc (sem_waiters t')\<rparr>"
          using "1.IH" [of "max 0 n"] False Cons a True by (auto simp: max_def split: if_splits)
        then show ?thesis using sub by (auto split: acquired.splits)
      next
        case nw: False
        then have "\<exists>e. r = Failed e" "s' = t" using "1.prems" False Cons a
          by (cases w; subst (asm) acquireUntil.simps; auto simp: Let_def max_def split: if_splits)+
        then show ?thesis by (auto simp: met_def Cons a)
      qed
    qed
  qed
qed

subsection \<open>Configuration and charges\<close>

definition FrameBytes :: int where "FrameBytes = 32 * 1024"
definition mib :: int where "mib = 1024 * 1024"
definition BaseStreamWindowBytes :: int where "BaseStreamWindowBytes = 4 * mib"
definition BaseConnectionWindowBytes :: int where "BaseConnectionWindowBytes = 8 * mib"
definition maxStreamWindowBytes :: int where "maxStreamWindowBytes = 16 * mib"
definition maxConnectionWindowBytes :: int where "maxConnectionWindowBytes = 32 * mib"
definition creditUnitBytes :: int where "creditUnitBytes = 1024"
definition windowUpdateDivisor :: int where "windowUpdateDivisor = 8"
definition activeStreamResourceLimit :: int where "activeStreamResourceLimit = 4096"

lemmas mux_consts = FrameBytes_def mib_def BaseStreamWindowBytes_def BaseConnectionWindowBytes_def
  maxStreamWindowBytes_def maxConnectionWindowBytes_def creditUnitBytes_def windowUpdateDivisor_def
  activeStreamResourceLimit_def

datatype CloseReason =
    CloseReasonApplication
  | CloseReasonIdleTimeout
  | CloseReasonPeerEof
  | CloseReasonReaderFailure
  | CloseReasonWriterFailure
  | CloseReasonProtocolViolation

record Config =
  StreamWindowBytes :: int
  ConnectionWindowBytes :: int
  MaxStreams :: int
  OutboundFrames :: int

definition DefaultConfig :: Config where
  "DefaultConfig = \<lparr>StreamWindowBytes = maxStreamWindowBytes,
     ConnectionWindowBytes = maxConnectionWindowBytes,
     MaxStreams = activeStreamResourceLimit, OutboundFrames = 512\<rparr>"

definition Config_validate :: "Config \<Rightarrow> error + Config" where
  "Config_validate c =
     (if StreamWindowBytes c < BaseStreamWindowBytes \<or>
         StreamWindowBytes c > maxStreamWindowBytes \<or>
         ConnectionWindowBytes c < BaseConnectionWindowBytes \<or>
         ConnectionWindowBytes c > maxConnectionWindowBytes \<or>
         StreamWindowBytes c mod creditUnitBytes \<noteq> 0 \<or>
         ConnectionWindowBytes c mod creditUnitBytes \<noteq> 0 \<or>
         ConnectionWindowBytes c < StreamWindowBytes c \<or>
         MaxStreams c \<le> 0 \<or>
         OutboundFrames c \<le> 0
      then Inl errInvalidLimits else Inr c)"

definition creditUnits :: "int \<Rightarrow> int" where
  "creditUnits n = (if n \<le> 0 then 0 else (n + creditUnitBytes - 1) div creditUnitBytes)"

definition frameCharge :: "int \<Rightarrow> int" where
  "frameCharge payload = creditUnits payload"

definition inboundQueueDepth :: "Config \<Rightarrow> int" where
  "inboundQueueDepth config =
     (let n = StreamWindowBytes config div FrameBytes in if n < 64 then 64 else n)"

abbreviation connUnits :: "Config \<Rightarrow> int" where
  "connUnits c \<equiv> creditUnits (ConnectionWindowBytes c)"

lemma creditUnits_nonneg [simp]: "0 \<le> creditUnits n"
  by (simp add: creditUnits_def creditUnitBytes_def pos_imp_zdiv_nonneg_iff)

lemma frameCharge_nonneg [simp]: "0 \<le> frameCharge n"
  by (simp add: frameCharge_def)

text \<open>A charge is the number of started units: it covers the payload and no more than a unit above.\<close>

lemma frameCharge_covers:
  "0 \<le> n \<Longrightarrow> n \<le> 1024 * frameCharge n \<and> 1024 * frameCharge n < n + 1024"
  by (auto simp: frameCharge_def creditUnits_def creditUnitBytes_def)

lemma creditUnits_exact: "0 \<le> n \<Longrightarrow> n mod 1024 = 0 \<Longrightarrow> 1024 * creditUnits n = n"
  by (auto simp: creditUnits_def creditUnitBytes_def)

lemma creditUnits_mono: "m \<le> n \<Longrightarrow> creditUnits m \<le> creditUnits n"
  by (auto simp: creditUnits_def creditUnitBytes_def intro: zdiv_mono1)

subsection \<open>State\<close>

datatype inbound = inboundData "byte list" int | inboundFin | inboundReset

record outbound =
  ob_header :: MuxHeader
  ob_payload :: "byte list"
  ob_release :: "nat option"
  ob_flushed :: bool
  ob_generation :: nat

text \<open>The entry of the flow table, and the cell of a generation.\<close>

record flowState =
  fs_generation :: nat
  fs_receiveCredit :: int
  fs_pendingReceive :: int
  fs_windowQueued :: bool
  fs_localParts :: nat
  fs_localFinSent :: bool
  fs_remoteFin :: bool
  fs_readerClosed :: bool

record cell =
  c_reset :: bool
  c_inbound :: "inbound list"
  c_sendCredit :: semaphore
  c_sendSlot :: semaphore

definition no_cell :: cell where
  "no_cell = \<lparr>c_reset = False, c_inbound = [], c_sendCredit = newSemaphore 0, c_sendSlot = newSemaphore 0\<rparr>"

record Stream =
  st_flowID :: u32
  st_generation :: nat
  st_current :: "byte list"
  st_currentCharge :: int
  st_currentOff :: nat
  st_eof :: bool
  st_readDead :: "time option"
  st_readerClosed :: bool
  st_readWait :: nat
  st_writeDead :: "time option"
  st_writeClosed :: bool
  st_writeWait :: nat
  st_terminalSent :: bool

record shared =
  sh_config :: Config
  sh_flows :: "(u32 \<times> flowState) list"
  sh_cells :: "nat \<Rightarrow> cell"
  sh_pendingResets :: "u32 list"
  sh_nextGeneration :: nat
  sh_connSend :: semaphore
  sh_connSendPeak :: int
  sh_connRecv :: int
  sh_pendingConn :: int
  sh_ready :: "u32 list"
  sh_dataTx :: "outbound list"
  sh_control :: bool
  sh_incoming :: "nat list"
  sh_rejected :: bool
  sh_activeNotify :: bool
  sh_closed :: bool
  sh_closeReason :: "CloseReason option"
  sh_connClosed :: bool

abbreviation flow_of :: "shared \<Rightarrow> u32 \<Rightarrow> flowState option" where
  "flow_of s f \<equiv> map_of (sh_flows s) f"

definition put_flow :: "u32 \<Rightarrow> flowState \<Rightarrow> shared \<Rightarrow> shared" where
  "put_flow f fs s = s\<lparr>sh_flows := AList.update f fs (sh_flows s)\<rparr>"

definition del_flow :: "u32 \<Rightarrow> shared \<Rightarrow> shared" where
  "del_flow f s = s\<lparr>sh_flows := AList.delete f (sh_flows s)\<rparr>"

definition upd_cell :: "nat \<Rightarrow> (cell \<Rightarrow> cell) \<Rightarrow> shared \<Rightarrow> shared" where
  "upd_cell g f s = s\<lparr>sh_cells := (sh_cells s)(g := f (sh_cells s g))\<rparr>"

definition close_cell :: "cell \<Rightarrow> cell" where
  "close_cell c = c\<lparr>c_sendCredit := sem_close (c_sendCredit c), c_sendSlot := sem_close (c_sendSlot c)\<rparr>"

definition Start :: "Config \<Rightarrow> error + shared" where
  "Start config =
     (case Config_validate config of
        Inl e \<Rightarrow> Inl e
      | Inr config \<Rightarrow>
          (let baseConn = creditUnits BaseConnectionWindowBytes;
               extraConn = creditUnits (ConnectionWindowBytes config - BaseConnectionWindowBytes)
           in Inr \<lparr>sh_config = config, sh_flows = [], sh_cells = (\<lambda>_. no_cell), sh_pendingResets = [],
                   sh_nextGeneration = 0, sh_connSend = newSemaphore baseConn, sh_connSendPeak = baseConn,
                   sh_connRecv = creditUnits (ConnectionWindowBytes config),
                   sh_pendingConn = (if extraConn > 0 then extraConn else 0), sh_ready = [], sh_dataTx = [],
                   sh_control = (extraConn > 0), sh_incoming = [], sh_rejected = False, sh_activeNotify = False,
                   sh_closed = False, sh_closeReason = None, sh_connClosed = False\<rparr>))"

definition newStream :: "u32 \<Rightarrow> nat \<Rightarrow> Stream" where
  "newStream flowID gen =
     \<lparr>st_flowID = flowID, st_generation = gen, st_current = [], st_currentCharge = 0, st_currentOff = 0,
      st_eof = False, st_readDead = None, st_readerClosed = False, st_readWait = 0, st_writeDead = None,
      st_writeClosed = False, st_writeWait = 0, st_terminalSent = False\<rparr>"

definition notifyActive :: "shared \<Rightarrow> shared" where
  "notifyActive s = s\<lparr>sh_activeNotify := True\<rparr>"

definition notifyControl :: "shared \<Rightarrow> shared" where
  "notifyControl s = s\<lparr>sh_control := True\<rparr>"

text \<open>
  \<^verbatim>\<open>rejectIncoming\<close> clears the field that offers streams; the channel itself stays with its
  \<^verbatim>\<open>Incoming\<close>. Streams in it are named by their generation.
\<close>

definition rejectIncoming :: "shared \<Rightarrow> shared" where
  "rejectIncoming s = s\<lparr>sh_rejected := True\<rparr>"

datatype accept_pick = AcceptDone error | AcceptClosed | AcceptStream

definition Incoming_Accept :: "accept_pick \<Rightarrow> shared \<Rightarrow> ((error + nat) \<times> shared) option" where
  "Incoming_Accept pick s =
     (case pick of
        AcceptDone e \<Rightarrow> Some (Inl e, s)
      | AcceptClosed \<Rightarrow> if sh_closed s then Some (Inl errClosed, s) else None
      | AcceptStream \<Rightarrow>
          (case sh_incoming s of
             [] \<Rightarrow> None
           | g # rest \<Rightarrow> Some (Inr g, s\<lparr>sh_incoming := rest\<rparr>)))"

definition offerIncoming :: "bool \<Rightarrow> nat \<Rightarrow> shared \<Rightarrow> error option \<times> shared" where
  "offerIncoming pickClosed gen s =
     (if sh_rejected s then (Some errClosed, s)
      else if sh_closed s \<and> (pickClosed \<or> int (length (sh_incoming s)) \<ge> MaxStreams (sh_config s))
      then (Some errClosed, s)
      else if int (length (sh_incoming s)) < MaxStreams (sh_config s)
      then (None, s\<lparr>sh_incoming := sh_incoming s @ [gen]\<rparr>)
      else (Some errStreamLimit, s))"

subsection \<open>Flows\<close>

definition closeWithReason :: "CloseReason \<Rightarrow> shared \<Rightarrow> shared" where
  "closeWithReason reason s =
     (let s = (if sh_closeReason s = None then s\<lparr>sh_closeReason := Some reason\<rparr> else s)
      in if sh_closed s then s
         else
           (let gens = map (\<lambda>p. fs_generation (snd p)) (sh_flows s);
                s = s\<lparr>sh_closed := True, sh_connSend := sem_close (sh_connSend s),
                      sh_cells := (\<lambda>g. if g \<in> set gens then close_cell (sh_cells s g) else sh_cells s g),
                      sh_flows := []\<rparr>
            in (notifyActive s)\<lparr>sh_connClosed := True\<rparr>))"

definition recordedCloseReason :: "shared \<Rightarrow> CloseReason" where
  "recordedCloseReason s = (case sh_closeReason s of Some r \<Rightarrow> r | None \<Rightarrow> CloseReasonApplication)"

definition extraUnits :: "Config \<Rightarrow> int" where
  "extraUnits config = creditUnits (StreamWindowBytes config - BaseStreamWindowBytes)"

definition fresh_flow :: "Config \<Rightarrow> bool \<Rightarrow> nat \<Rightarrow> flowState" where
  "fresh_flow config advertiseWindow gen =
     (let extra = (if advertiseWindow then extraUnits config else 0)
      in \<lparr>fs_generation = gen, fs_receiveCredit = creditUnits (StreamWindowBytes config),
          fs_pendingReceive = extra, fs_windowQueued = (advertiseWindow \<and> extra \<noteq> 0), fs_localParts = 2,
          fs_localFinSent = False, fs_remoteFin = False, fs_readerClosed = False\<rparr>)"

definition fresh_cell :: cell where
  "fresh_cell = \<lparr>c_reset = False, c_inbound = [], c_sendCredit = newSemaphore (creditUnits BaseStreamWindowBytes),
     c_sendSlot = newSemaphore 1\<rparr>"

definition insertFlow :: "u32 \<Rightarrow> bool \<Rightarrow> shared \<Rightarrow> (error + Stream) \<times> shared" where
  "insertFlow flowID advertiseWindow s =
     (if flowID = 0 \<or> flowID > nw2_MaxFlowID then (Inl errInvalidFlowID, s)
      else if sh_closed s then (Inl errClosed, s)
      else
        (let gen = Suc (sh_nextGeneration s);
             s = s\<lparr>sh_nextGeneration := gen\<rparr>
         in if flowID \<in> set (sh_pendingResets s) then (Inl errFlowExists, s)
            else if int (length (sh_flows s)) + int (length (sh_pendingResets s)) \<ge> MaxStreams (sh_config s)
            then (Inl errStreamLimit, s)
            else if flow_of s flowID \<noteq> None then (Inl errFlowExists, s)
            else
              (let flow = fresh_flow (sh_config s) advertiseWindow gen;
                   s = notifyActive (put_flow flowID flow (upd_cell gen (\<lambda>_. fresh_cell) s));
                   s = (if fs_windowQueued flow then notifyControl (s\<lparr>sh_ready := sh_ready s @ [flowID]\<rparr>) else s)
               in (Inr (newStream flowID gen), s))))"

definition removeFlow :: "u32 \<Rightarrow> shared \<Rightarrow> nat option \<times> shared" where
  "removeFlow flowID s =
     (case flow_of s flowID of
        None \<Rightarrow> (None, notifyActive s)
      | Some flow \<Rightarrow>
          (Some (fs_generation flow),
           notifyActive (upd_cell (fs_generation flow) close_cell (del_flow flowID s))))"

definition isCurrentFlow :: "u32 \<Rightarrow> nat \<Rightarrow> shared \<Rightarrow> bool" where
  "isCurrentFlow flowID gen s =
     (case flow_of s flowID of None \<Rightarrow> False | Some flow \<Rightarrow> fs_generation flow = gen)"

definition removeCurrentFlow :: "u32 \<Rightarrow> nat \<Rightarrow> shared \<Rightarrow> shared" where
  "removeCurrentFlow flowID gen s =
     (if \<not> isCurrentFlow flowID gen s then s
      else notifyActive (upd_cell gen close_cell (del_flow flowID s)))"

subsection \<open>Receive credit\<close>

definition capped :: "int \<Rightarrow> int \<Rightarrow> int" where
  "capped limit v = (if v > limit then limit else v)"

definition releaseConnReceive :: "int \<Rightarrow> shared \<Rightarrow> shared" where
  "releaseConnReceive charge s =
     (if sh_closed s then s
      else
        (let s = s\<lparr>sh_connRecv := capped (connUnits (sh_config s)) (sh_connRecv s + charge)\<rparr>;
             previous = sh_pendingConn s + charge;
             s = s\<lparr>sh_pendingConn := previous\<rparr>;
             connThreshold = capped 0xffff (creditUnits (ConnectionWindowBytes (sh_config s) div windowUpdateDivisor))
         in if previous \<ge> connThreshold then notifyControl s else s))"

definition releaseReceive :: "u32 \<Rightarrow> nat \<Rightarrow> int \<Rightarrow> shared \<Rightarrow> shared" where
  "releaseReceive flowID gen charge s =
     (if sh_closed s then s
      else
        (let s = s\<lparr>sh_connRecv := capped (connUnits (sh_config s)) (sh_connRecv s + charge)\<rparr>;
             (s, ready, notify) =
               (case flow_of s flowID of
                  None \<Rightarrow> (s, False, False)
                | Some flow \<Rightarrow>
                    if fs_localParts flow \<noteq> 0 \<and> fs_generation flow = gen
                    then
                      (let pending = fs_pendingReceive flow + charge;
                           flow' = flow\<lparr>fs_receiveCredit :=
                                          capped (creditUnits (StreamWindowBytes (sh_config s))) (fs_receiveCredit flow + charge),
                                        fs_pendingReceive := pending, fs_windowQueued := True\<rparr>
                       in (put_flow flowID flow' s, \<not> fs_windowQueued flow,
                           pending \<ge> capped 0xffff (creditUnits (StreamWindowBytes (sh_config s) div windowUpdateDivisor))))
                    else (s, False, False));
             s = (if ready then s\<lparr>sh_ready := sh_ready s @ [flowID]\<rparr> else s);
             previous = sh_pendingConn s + charge;
             s = s\<lparr>sh_pendingConn := previous\<rparr>;
             connThreshold = capped 0xffff (creditUnits (ConnectionWindowBytes (sh_config s) div windowUpdateDivisor))
         in if notify \<or> previous \<ge> connThreshold then notifyControl s else s))"

text \<open>
  \<^verbatim>\<open>resetInbound\<close>: the drained channel takes the marker at once, its capacity being at least 64,
  and the carrier is open, since the flow was just taken off the table of an open carrier.
\<close>

definition charge_of :: "inbound \<Rightarrow> int" where
  "charge_of m = (case m of inboundData p c \<Rightarrow> c | _ \<Rightarrow> 0)"

definition queue_charge :: "inbound list \<Rightarrow> int" where
  "queue_charge ms = (\<Sum>m\<leftarrow>ms. charge_of m)"

definition resetInbound :: "nat \<Rightarrow> shared \<Rightarrow> shared" where
  "resetInbound gen s =
     (let released = queue_charge (c_inbound (sh_cells s gen));
          s = upd_cell gen (\<lambda>c. c\<lparr>c_reset := True, c_inbound := [inboundReset]\<rparr>) s
      in if released \<noteq> 0 then releaseConnReceive released s else s)"

definition prepareReset :: "u32 \<Rightarrow> nat option \<Rightarrow> shared \<Rightarrow> (error + bool) \<times> shared" where
  "prepareReset flowID flow s =
     (if flowID \<in> set (sh_pendingResets s) then (Inr False, s)
      else
        (case flow_of s flowID of
           Some current \<Rightarrow>
             if flow \<noteq> Some (fs_generation current) then (Inr False, s)
             else
               (let s = del_flow flowID (s\<lparr>sh_pendingResets := sh_pendingResets s @ [flowID]\<rparr>);
                    s = upd_cell (fs_generation current) close_cell s;
                    s = resetInbound (fs_generation current) s
                in (Inr True, notifyControl (notifyActive s)))
         | None \<Rightarrow>
             if int (length (sh_flows s)) + int (length (sh_pendingResets s)) \<ge> MaxStreams (sh_config s)
             then (Inl errResetLimit, s)
             else (Inr True, notifyControl (notifyActive (s\<lparr>sh_pendingResets := sh_pendingResets s @ [flowID]\<rparr>)))))"

definition finishReset :: "u32 \<Rightarrow> shared \<Rightarrow> shared" where
  "finishReset flowID s = s\<lparr>sh_pendingResets := filter (\<lambda>f. f \<noteq> flowID) (sh_pendingResets s)\<rparr>"

datatype receiveTarget = receiveDeliver nat | receiveDiscard | receiveAbandoned nat | receiveReset "nat option"

definition admitReceive :: "u32 \<Rightarrow> int \<Rightarrow> shared \<Rightarrow> (error + receiveTarget) \<times> shared" where
  "admitReceive flowID charge s =
     (if sh_connRecv s < charge then (Inl errConnWindowExceeded, s)
      else
        (let s = s\<lparr>sh_connRecv := sh_connRecv s - charge\<rparr>
         in case flow_of s flowID of
              None \<Rightarrow> (Inr (receiveReset None), s)
            | Some flow \<Rightarrow>
                if fs_remoteFin flow \<or> fs_receiveCredit flow < charge
                then (Inr (receiveReset (Some (fs_generation flow))), s)
                else
                  (let s = put_flow flowID (flow\<lparr>fs_receiveCredit := fs_receiveCredit flow - charge\<rparr>) s
                   in if fs_localParts flow = 0 then (Inr receiveDiscard, s)
                      else if fs_readerClosed flow then (Inr (receiveAbandoned (fs_generation flow)), s)
                      else (Inr (receiveDeliver (fs_generation flow)), s))))"

subsection \<open>Ends of a flow\<close>

definition releasePart :: "u32 \<Rightarrow> nat \<Rightarrow> shared \<Rightarrow> shared" where
  "releasePart flowID gen s =
     (case flow_of s flowID of
        None \<Rightarrow> s
      | Some flow \<Rightarrow>
          if fs_generation flow \<noteq> gen then s
          else
            (let flush = (fs_pendingReceive flow \<noteq> 0);
                 parts = (if fs_localParts flow > 0 then fs_localParts flow - 1 else fs_localParts flow);
                 s = (if parts = 0
                      then if fs_remoteFin flow \<and> fs_localFinSent flow
                           then upd_cell gen close_cell (del_flow flowID s)
                           else put_flow flowID (flow\<lparr>fs_localParts := 0, fs_pendingReceive := 0, fs_windowQueued := False\<rparr>) s
                      else put_flow flowID (flow\<lparr>fs_localParts := parts\<rparr>) s);
                 s = notifyActive s
             in if flush then notifyControl s else s))"

definition finishLocalFin :: "u32 \<Rightarrow> nat \<Rightarrow> shared \<Rightarrow> shared" where
  "finishLocalFin flowID gen s =
     (case flow_of s flowID of
        None \<Rightarrow> s
      | Some flow \<Rightarrow>
          if fs_generation flow \<noteq> gen then s
          else if fs_localParts flow = 0 \<and> fs_remoteFin flow
          then upd_cell gen close_cell (del_flow flowID s)
          else put_flow flowID (flow\<lparr>fs_localFinSent := True\<rparr>) s)"

definition activeFlowCount :: "(u32 \<times> flowState) list \<Rightarrow> int" where
  "activeFlowCount flows = int (length (filter (\<lambda>p. fs_localParts (snd p) \<noteq> 0) flows))"

definition markReaderClosed :: "u32 \<Rightarrow> shared \<Rightarrow> shared" where
  "markReaderClosed flowID s =
     (case flow_of s flowID of
        None \<Rightarrow> s
      | Some flow \<Rightarrow> put_flow flowID (flow\<lparr>fs_readerClosed := True\<rparr>) s)"

subsection \<open>Sending frames to the writer\<close>

datatype send_pick = SendClosed | SendStop | SendReady

definition sendOutbound :: "send_pick \<Rightarrow> outbound \<Rightarrow> bool \<Rightarrow> shared \<Rightarrow> (error option \<times> shared) option" where
  "sendOutbound pick item stop s =
     (case pick of
        SendClosed \<Rightarrow> if sh_closed s then Some (Some errClosed, s) else None
      | SendStop \<Rightarrow> if stop then Some (Some errClosed, s) else None
      | SendReady \<Rightarrow>
          if int (length (sh_dataTx s)) < OutboundFrames (sh_config s)
          then Some (None, s\<lparr>sh_dataTx := sh_dataTx s @ [item]\<rparr>) else None)"

text \<open>The context of an open: the error it reports once it is done.\<close>

definition sendOutboundCtx :: "send_pick \<Rightarrow> error option \<Rightarrow> outbound \<Rightarrow> shared \<Rightarrow> (error option \<times> shared) option" where
  "sendOutboundCtx pick ctxErr item s =
     (case pick of
        SendStop \<Rightarrow> (case ctxErr of Some e \<Rightarrow> Some (Some e, s) | None \<Rightarrow> None)
      | _ \<Rightarrow> sendOutbound pick item False s)"

definition commitOpen :: "send_pick \<Rightarrow> error option \<Rightarrow> Stream \<Rightarrow> shared \<Rightarrow> (error option \<times> shared) option" where
  "commitOpen pick ctxErr stream s =
     (let flowID = st_flowID stream; gen = st_generation stream
      in if \<not> isCurrentFlow flowID gen s then Some (Some errClosed, removeCurrentFlow flowID gen s)
         else
           (case OpenMuxHeader flowID (extraUnits (sh_config s)) of
              Inl e \<Rightarrow> Some (Some e, removeCurrentFlow flowID gen s)
            | Inr header \<Rightarrow>
                (case sendOutboundCtx pick ctxErr
                        \<lparr>ob_header = header, ob_payload = [], ob_release = None, ob_flushed = False, ob_generation = gen\<rparr> s of
                   None \<Rightarrow> None
                 | Some (Some e, s) \<Rightarrow> Some (Some e, removeCurrentFlow flowID gen s)
                 | Some (None, s) \<Rightarrow>
                     if \<not> isCurrentFlow flowID gen s then Some (Some errClosed, removeCurrentFlow flowID gen s)
                     else Some (None, s))))"

subsection \<open>Handles\<close>

definition PrepareStream :: "u32 \<Rightarrow> shared \<Rightarrow> (error + Stream) \<times> shared" where
  "PrepareStream flowID s = insertFlow flowID False s"

definition OpenPrepared :: "send_pick \<Rightarrow> error option \<Rightarrow> Stream \<Rightarrow> shared \<Rightarrow> (error option \<times> shared) option" where
  "OpenPrepared pick ctxErr stream s = commitOpen pick ctxErr stream s"

text \<open>While the result is \<open>None\<close> the flow is reserved and its OPEN waits for room in the queue.\<close>

definition OpenStream :: "send_pick \<Rightarrow> u32 \<Rightarrow> shared \<Rightarrow> (error + Stream) option \<times> shared" where
  "OpenStream pick flowID s =
     (case insertFlow flowID False s of
        (Inl e, s) \<Rightarrow> (Some (Inl e), s)
      | (Inr stream, s) \<Rightarrow>
          (case commitOpen pick None stream s of
             None \<Rightarrow> (None, s)
           | Some (Some e, s) \<Rightarrow> (Some (Inl e), s)
           | Some (None, s) \<Rightarrow> (Some (Inr stream), s)))"

definition ActiveStreams :: "shared \<Rightarrow> int" where
  "ActiveStreams s = activeFlowCount (sh_flows s)"

definition CanOpenFlow :: "u32 \<Rightarrow> shared \<Rightarrow> bool" where
  "CanOpenFlow flowID s =
     (if sh_closed s then False
      else if flowID \<in> set (sh_pendingResets s) then False
      else int (length (sh_flows s)) < MaxStreams (sh_config s) \<and> flow_of s flowID = None)"

definition occupancy :: "int \<Rightarrow> int \<Rightarrow> int" where
  "occupancy free limit =
     (if limit \<le> 0 then 0
      else (let used = limit - free; used = (if used < 0 then 0 else used) in used * 1024 div limit))"

definition Pressure :: "shared \<Rightarrow> int" where
  "Pressure s =
     (let p = occupancy (availablePermits (sh_connSend s)) (sh_connSendPeak s);
          r = occupancy (sh_connRecv s) (creditUnits (ConnectionWindowBytes (sh_config s)));
          p = (if r > p then r else p);
          q = occupancy (OutboundFrames (sh_config s) - int (length (sh_dataTx s))) (OutboundFrames (sh_config s))
      in if q > p then q else p)"

text \<open>
  \<^verbatim>\<open>IdleFor\<close>: each round looks at the carrier, waits, and on the timer looks again; the list gives
  for each round the state found, how the wait ended and the state then. \<open>None\<close>: still waiting.
\<close>

datatype idle_event = CtxDone | ClosedCh | ActiveNotify | TimerFired

fun IdleFor :: "(shared \<times> idle_event \<times> shared) list \<Rightarrow> bool option" where
  "IdleFor [] = None"
| "IdleFor ((s, ev, s') # rounds) =
     (if sh_closed s then Some False
      else if ActiveStreams s \<noteq> 0 then
        (case ev of
           ActiveNotify \<Rightarrow> IdleFor rounds
         | TimerFired \<Rightarrow> None
         | _ \<Rightarrow> Some False)
      else
        (case ev of
           ActiveNotify \<Rightarrow> IdleFor rounds
         | TimerFired \<Rightarrow> if ActiveStreams s' = 0 \<and> \<not> sh_closed s' then Some True else IdleFor rounds
         | _ \<Rightarrow> Some False))"

end
