(* ===== verification/Mux_Driver.thy ===== *)
theory Mux_Driver
  imports Mux_Core
begin

section \<open>The stream multiplexer: reader and writer\<close>

text \<open>
  \<^verbatim>\<open>nw2/carrier/mux/driver.go\<close>. The reader takes frames off the connection; a frame that has to
  enter a full inbound channel leaves the reader waiting there, so its handler gives what is
  still to be delivered. The writer takes queued frames and pending windows to the connection.
\<close>

subsection \<open>Receiving\<close>

text \<open>What a handler leaves: the error that ends the loop, or a message for an inbound channel.\<close>

datatype after = Done | Fatal error | Deliver nat inbound

text \<open>
  \<^verbatim>\<open>protocolError\<close> wraps two causes (\<^verbatim>\<open>%w: %w\<close>), the sentinel and the error; \<^verbatim>\<open>errors.Is\<close>
  finds either.
\<close>

definition protocol_violation :: string where
  "protocol_violation = ''nowhere: mux protocol violation''"

fun mux_errors_Is :: "error \<Rightarrow> error \<Rightarrow> bool" where
  "mux_errors_Is (Wrapped s e) t =
     (Wrapped s e = t \<or> s = protocol_violation \<and> t = errProtocolViolation \<or> mux_errors_Is e t)"
| "mux_errors_Is e t = (e = t)"

definition protocolError :: "error \<Rightarrow> error" where
  "protocolError err =
     (if mux_errors_Is err errClosed then err else Wrapped protocol_violation err)"

definition readerCloseReason :: "error option \<Rightarrow> CloseReason" where
  "readerCloseReason err =
     (case err of
        None \<Rightarrow> CloseReasonApplication
      | Some err \<Rightarrow>
          if mux_errors_Is err EOF \<or> mux_errors_Is err ErrUnexpectedEOF then CloseReasonPeerEof
          else if mux_errors_Is err errClosed then CloseReasonApplication
          else if mux_errors_Is err errProtocolViolation then CloseReasonProtocolViolation
          else CloseReasonReaderFailure)"

definition reset_flow :: "u32 \<Rightarrow> nat option \<Rightarrow> shared \<Rightarrow> after \<times> shared" where
  "reset_flow flowID flow s =
     (case prepareReset flowID flow s of
        (Inl e, s) \<Rightarrow> (Fatal e, s)
      | (Inr _, s) \<Rightarrow> (Done, s))"

definition offer :: "bool \<Rightarrow> Stream \<Rightarrow> shared \<Rightarrow> after \<times> shared" where
  "offer pickClosed stream s =
     (case offerIncoming pickClosed (st_generation stream) s of
        (Some e, s) \<Rightarrow> (Fatal e, s)
      | (None, s) \<Rightarrow> (Done, s))"

definition receiveOpen :: "bool \<Rightarrow> MuxHeader \<Rightarrow> shared \<Rightarrow> after \<times> Stream option \<times> shared" where
  "receiveOpen pickClosed header s =
     (case insertFlow (mh_FlowID header) True s of
        (Inl e, s) \<Rightarrow> (Fatal e, None, s)
      | (Inr stream, s) \<Rightarrow>
          (let extra = int (unat (mh_Value header))
           in if extra \<noteq> 0 then
                (case flow_of s (mh_FlowID header) of
                   None \<Rightarrow> (Fatal errClosed, Some stream, s)
                 | Some flow \<Rightarrow>
                     if availablePermits (c_sendCredit (sh_cells s (fs_generation flow))) + extra
                          > creditUnits maxStreamWindowBytes
                     then (case reset_flow (mh_FlowID header) (Some (fs_generation flow)) s of
                             (a, s) \<Rightarrow> (a, Some stream, s))
                     else
                       (let s = upd_cell (fs_generation flow) (\<lambda>c. c\<lparr>c_sendCredit := sem_add extra (c_sendCredit c)\<rparr>) s
                        in case offer pickClosed stream s of (a, s) \<Rightarrow> (a, Some stream, s)))
              else (case offer pickClosed stream s of (a, s) \<Rightarrow> (a, Some stream, s))))"

definition receiveData :: "MuxHeader \<Rightarrow> byte list \<Rightarrow> shared \<Rightarrow> after \<times> shared" where
  "receiveData header payload s =
     (let charge = frameCharge (int (length payload))
      in case admitReceive (mh_FlowID header) charge s of
           (Inl e, s) \<Rightarrow> (Fatal e, s)
         | (Inr target, s) \<Rightarrow>
             (case target of
                receiveDiscard \<Rightarrow> (Done, releaseConnReceive charge s)
              | receiveAbandoned gen \<Rightarrow> (Done, releaseReceive (mh_FlowID header) gen charge s)
              | receiveReset flow \<Rightarrow> reset_flow (mh_FlowID header) flow (releaseConnReceive charge s)
              | receiveDeliver gen \<Rightarrow> (Deliver gen (inboundData payload charge), s)))"

definition receiveClose :: "MuxHeader \<Rightarrow> shared \<Rightarrow> after \<times> shared" where
  "receiveClose header s =
     (if mh_Kind header = MuxFrameReset then
        (case removeFlow (mh_FlowID header) s of
           (Some gen, s) \<Rightarrow> (Done, resetInbound gen s)
         | (None, s) \<Rightarrow> (Done, s))
      else
        (case flow_of s (mh_FlowID header) of
           None \<Rightarrow> (Done, notifyActive s)
         | Some flow \<Rightarrow>
             if fs_remoteFin flow then (Done, notifyActive s)
             else if fs_localParts flow = 0 \<and> fs_localFinSent flow
             then (Done, notifyActive (upd_cell (fs_generation flow) close_cell (del_flow (mh_FlowID header) s)))
             else (Deliver (fs_generation flow) inboundFin,
                   notifyActive (put_flow (mh_FlowID header) (flow\<lparr>fs_remoteFin := True\<rparr>) s))))"

definition receiveWindow :: "MuxHeader \<Rightarrow> shared \<Rightarrow> after \<times> shared" where
  "receiveWindow header s =
     (let credit = int (unat (mh_Value header))
      in if mh_FlowID header = 0 then
           (if availablePermits (sh_connSend s) + credit > creditUnits maxConnectionWindowBytes
            then (Fatal errWindowOverflow, s)
            else
              (let s = s\<lparr>sh_connSend := sem_add credit (sh_connSend s)\<rparr>;
                   n = availablePermits (sh_connSend s)
               in (Done, if n > sh_connSendPeak s then s\<lparr>sh_connSendPeak := n\<rparr> else s)))
         else
           (case flow_of s (mh_FlowID header) of
              None \<Rightarrow> (Done, s)
            | Some flow \<Rightarrow>
                if availablePermits (c_sendCredit (sh_cells s (fs_generation flow))) + credit
                     > creditUnits maxStreamWindowBytes
                then reset_flow (mh_FlowID header) (Some (fs_generation flow)) s
                else (Done, upd_cell (fs_generation flow) (\<lambda>c. c\<lparr>c_sendCredit := sem_add credit (c_sendCredit c)\<rparr>) s)))"

text \<open>One frame off the connection.\<close>

definition readFrame :: "reader \<Rightarrow> error + (MuxHeader \<times> byte list) \<times> reader" where
  "readFrame r =
     (case ReadFull MuxHeaderLen r of
        Inl e \<Rightarrow> Inl e
      | Inr (headerBuf, r) \<Rightarrow>
          (case DecodeMuxHeader headerBuf of
             Inl e \<Rightarrow> Inl (protocolError e)
           | Inr header \<Rightarrow>
               (let payloadLen = MuxPayloadLen header
                in if payloadLen > 0
                   then (case ReadFull payloadLen r of Inl e \<Rightarrow> Inl e | Inr (payload, r) \<Rightarrow> Inr ((header, payload), r))
                   else Inr ((header, []), r))))"

definition dispatch :: "bool \<Rightarrow> MuxHeader \<Rightarrow> byte list \<Rightarrow> shared \<Rightarrow> after \<times> Stream option \<times> shared" where
  "dispatch pickClosed header payload s =
     (if mh_Kind header = MuxFrameOpen then receiveOpen pickClosed header s
      else if mh_Kind header = MuxFrameData then (case receiveData header payload s of (a, s) \<Rightarrow> (a, None, s))
      else if mh_Kind header = MuxFrameWindow then (case receiveWindow header s of (a, s) \<Rightarrow> (a, None, s))
      else if mh_Kind header = MuxFrameFin \<or> mh_Kind header = MuxFrameReset
      then (case receiveClose header s of (a, s) \<Rightarrow> (a, None, s))
      else (Done, None, s))"

text \<open>
  The reader: running, waiting to hand a message to the channel of a generation, or ended with
  its error. A round of \<^verbatim>\<open>readLoop\<close> reads and handles one frame.
\<close>

datatype reader_state = Reading | Delivering nat inbound | ReaderEnded error

definition readLoop_round ::
  "bool \<Rightarrow> reader \<Rightarrow> shared \<Rightarrow> reader_state \<times> Stream option \<times> reader \<times> shared" where
  "readLoop_round pickClosed r s =
     (case readFrame r of
        Inl e \<Rightarrow> (ReaderEnded e, None, r, s)
      | Inr ((header, payload), r) \<Rightarrow>
          (case dispatch pickClosed header payload s of
             (Done, st, s) \<Rightarrow> (Reading, st, r, s)
           | (Fatal e, st, s) \<Rightarrow> (ReaderEnded (protocolError e), st, r, s)
           | (Deliver gen m, st, s) \<Rightarrow> (Delivering gen m, st, r, s)))"

text \<open>
  The end of a delivery: into the channel when it has room, or given up when the carrier is
  closed (an error for DATA, a plain return for FIN).
\<close>

definition deliver_inbound :: "bool \<Rightarrow> nat \<Rightarrow> inbound \<Rightarrow> shared \<Rightarrow> (reader_state \<times> shared) option" where
  "deliver_inbound pickClosed gen m s =
     (if pickClosed then
        (if sh_closed s
         then Some (case m of inboundData p c \<Rightarrow> ReaderEnded (protocolError errClosed) | _ \<Rightarrow> Reading, s)
         else None)
      else if int (length (c_inbound (sh_cells s gen))) < inboundQueueDepth (sh_config s)
      then Some (Reading, upd_cell gen (\<lambda>c. c\<lparr>c_inbound := c_inbound c @ [m]\<rparr>) s)
      else None)"

definition runReader_end :: "error \<Rightarrow> shared \<Rightarrow> shared" where
  "runReader_end err s = closeWithReason (readerCloseReason (Some err)) s"

subsection \<open>Sending\<close>

text \<open>
  \<^verbatim>\<open>writeFull\<close> of the driver slices by the count it is given: a count above the length panics.
\<close>

function writeFull :: "writer \<Rightarrow> byte list \<Rightarrow> (error option \<times> writer) go" where
  "writeFull w p =
     (if p = [] then Ret (None, w)
      else
        (case wr_Write p w of
           (n, err, w') \<Rightarrow>
             if n > int (length p) then Panic
             else
               (let p' = (if n > 0 then drop (nat n) p else p)
                in case err of
                     Some e \<Rightarrow> Ret (Some e, w')
                   | None \<Rightarrow> if n = 0 then Ret (Some ErrNoProgress, w') else writeFull w' p')))"
  by auto
termination
proof (relation "measure (\<lambda>(w, p). length p + length (wr_plan w))", simp, clarify)
  fix p :: "byte list" and w w' :: writer and n :: int
  assume w: "(n, None, w') = wr_Write p w" and p: "p \<noteq> []" "n \<noteq> 0"
  have "length (wr_plan w') \<le> length (wr_plan w)" "n < 0 \<Longrightarrow> length (wr_plan w') < length (wr_plan w)"
    using w by (auto simp: wr_Write_def split: list.splits)
  moreover have "0 < n \<Longrightarrow> length (drop (nat n) p) < length p" using p by (cases p) auto
  ultimately show "((w', if 0 < n then drop (nat n) p else p), w, p)
      \<in> measure (\<lambda>(w, p). length p + length (wr_plan w))"
    using p by (cases "0 < n") (simp_all del: length_drop add: not_less add_less_le_mono)
qed

declare writeFull.simps [simp del]

text \<open>The \<^verbatim>\<open>Flush\<close> method of the connection, if it has one, is an argument: what it returns.\<close>

definition flushWriter :: "error option option \<Rightarrow> error option" where
  "flushWriter flush = (case flush of Some err \<Rightarrow> err | None \<Rightarrow> None)"

definition release_slot :: "outbound \<Rightarrow> shared \<Rightarrow> shared" where
  "release_slot item s =
     (case ob_release item of
        None \<Rightarrow> s
      | Some g \<Rightarrow> upd_cell g (\<lambda>c. c\<lparr>c_sendSlot := sem_add 1 (c_sendSlot c)\<rparr>) s)"

definition writeItem :: "error option option \<Rightarrow> outbound \<Rightarrow> writer \<Rightarrow> shared \<Rightarrow> (error option \<times> writer \<times> shared) go" where
  "writeItem flush item w s =
     (if ob_flushed item \<and> mh_Kind (ob_header item) = 0 \<and> ob_payload item = []
      then Ret (flushWriter flush, w, s)
      else if \<not> isCurrentFlow (mh_FlowID (ob_header item)) (ob_generation item) s
      then
        (let s = (if ob_payload item \<noteq> []
                  then s\<lparr>sh_connSend := sem_add (frameCharge (int (length (ob_payload item)))) (sh_connSend s)\<rparr> else s)
         in Ret (None, w, release_slot item s))
      else
        (case EncodeMuxHeader (ob_header item) of
           Inl e \<Rightarrow> Ret (Some e, w, s)
         | Inr encoded \<Rightarrow>
             (case writeFull w encoded of
                Panic \<Rightarrow> Panic
              | Ret (Some e, w) \<Rightarrow> Ret (Some e, w, s)
              | Ret (None, w) \<Rightarrow>
                  (case (if ob_payload item \<noteq> [] then writeFull w (ob_payload item) else Ret (None, w)) of
                     Panic \<Rightarrow> Panic
                   | Ret (Some e, w) \<Rightarrow> Ret (Some e, w, s)
                   | Ret (None, w) \<Rightarrow>
                       (let s = (if mh_Kind (ob_header item) = MuxFrameFin
                                 then finishLocalFin (mh_FlowID (ob_header item)) (ob_generation item) s else s)
                        in Ret (None, w, release_slot item s))))))"

function appendWindows :: "byte list \<Rightarrow> u32 \<Rightarrow> int \<Rightarrow> error + byte list" where
  "appendWindows encoded flowID credit =
     (if credit > 0 then
        (let delta = (if credit > 0xffff then 0xffff else credit)
         in case WindowMuxHeader flowID delta of
              Inl e \<Rightarrow> Inl e
            | Inr header \<Rightarrow>
                (case EncodeMuxHeader header of
                   Inl e \<Rightarrow> Inl e
                 | Inr frame \<Rightarrow> appendWindows (encoded @ frame) flowID (credit - delta)))
      else Inr encoded)"
  by auto
termination by (relation "measure (\<lambda>(e, f, c). nat c)") auto

declare appendWindows.simps [simp del]

fun appendResets :: "byte list \<Rightarrow> u32 list \<Rightarrow> error + byte list" where
  "appendResets frames [] = Inr frames"
| "appendResets frames (flowID # resets) =
     (case ResetMuxHeader flowID of
        Inl e \<Rightarrow> Inl e
      | Inr header \<Rightarrow>
          (case EncodeMuxHeader header of
             Inl e \<Rightarrow> Inl e
           | Inr encoded \<Rightarrow> appendResets (frames @ encoded) resets))"

text \<open>The windows of the flows that are ready; an error leaves the flows already handled cleared.\<close>

fun readyWindows :: "byte list \<Rightarrow> u32 list \<Rightarrow> shared \<Rightarrow> (error + byte list) \<times> shared" where
  "readyWindows frames [] s = (Inr frames, s)"
| "readyWindows frames (flowID # ready) s =
     (case flow_of s flowID of
        None \<Rightarrow> readyWindows frames ready s
      | Some flow \<Rightarrow>
          (let credit = fs_pendingReceive flow;
               s = put_flow flowID (flow\<lparr>fs_pendingReceive := 0, fs_windowQueued := False\<rparr>) s
           in if credit = 0 then readyWindows frames ready s
              else (case appendWindows frames flowID credit of
                      Inl e \<Rightarrow> (Inl e, s)
                    | Inr frames \<Rightarrow> readyWindows frames ready s)))"

definition writePendingWindows :: "writer \<Rightarrow> shared \<Rightarrow> (error option \<times> writer \<times> shared) go" where
  "writePendingWindows w s =
     (let resets = sh_pendingResets s;
          connection = sh_pendingConn s;
          ready = sh_ready s;
          s = s\<lparr>sh_pendingConn := 0, sh_ready := []\<rparr>
      in case appendResets [] resets of
           Inl e \<Rightarrow> Ret (Some e, w, s)
         | Inr frames \<Rightarrow>
             (case appendWindows frames 0 connection of
                Inl e \<Rightarrow> Ret (Some e, w, s)
              | Inr frames \<Rightarrow>
                  (case readyWindows frames ready s of
                     (Inl e, s) \<Rightarrow> Ret (Some e, w, s)
                   | (Inr frames, s) \<Rightarrow>
                       if frames = [] then Ret (None, w, s)
                       else
                         (case writeFull w frames of
                            Panic \<Rightarrow> Panic
                          | Ret (Some e, w) \<Rightarrow> Ret (Some e, w, s)
                          | Ret (None, w) \<Rightarrow> Ret (None, w, fold finishReset resets s)))))"

text \<open>
  A round of \<^verbatim>\<open>writeLoop\<close> is its two selects: the first takes a control token when there is one
  and never waits; the second waits. \<open>None\<close>: the picked case is not ready.
\<close>

datatype write_pick = WriteClosed | WriteControl | WriteData

definition writeLoop_first :: "writer \<Rightarrow> shared \<Rightarrow> (error option \<times> writer \<times> shared) go" where
  "writeLoop_first w s =
     (if sh_closed s then Ret (Some errClosed, w, s)
      else if sh_control s then writePendingWindows w (s\<lparr>sh_control := False\<rparr>)
      else Ret (None, w, s))"

definition writeLoop_second ::
  "write_pick \<Rightarrow> error option option \<Rightarrow> writer \<Rightarrow> shared \<Rightarrow> (error option \<times> writer \<times> shared) go option" where
  "writeLoop_second pick flush w s =
     (case pick of
        WriteClosed \<Rightarrow> if sh_closed s then Some (Ret (Some errClosed, w, s)) else None
      | WriteControl \<Rightarrow>
          if sh_control s then Some (writePendingWindows w (s\<lparr>sh_control := False\<rparr>)) else None
      | WriteData \<Rightarrow>
          (case sh_dataTx s of
             [] \<Rightarrow> None
           | item # rest \<Rightarrow> Some (writeItem flush item w (s\<lparr>sh_dataTx := rest\<rparr>))))"

definition runWriter_end :: "error \<Rightarrow> shared \<Rightarrow> shared" where
  "runWriter_end err s =
     (if \<not> mux_errors_Is err errClosed then closeWithReason CloseReasonWriterFailure s
      else closeWithReason CloseReasonApplication s)"

end
