(* ===== verification/Mux_Stream.thy ===== *)
theory Mux_Stream
  imports Mux_Driver
begin

section \<open>The stream multiplexer: streams\<close>

text \<open>
  \<^verbatim>\<open>nw2/carrier/mux/stream.go\<close>, and \<^verbatim>\<open>sendData\<close> and \<^verbatim>\<open>acquireCredits\<close> of \<^verbatim>\<open>driver.go\<close>. A call that
  loops or waits is cut at the points where it holds no lock: \<open>read_round\<close> is one round of the
  loop of \<^verbatim>\<open>Read\<close>, \<open>write_round\<close> one acquisition or one enqueue of \<^verbatim>\<open>Write\<close>. \<open>now\<close> is the
  clock; a zero deadline is \<open>None\<close>.
\<close>

subsection \<open>Reading\<close>

definition releaseCurrent :: "Stream \<Rightarrow> shared \<Rightarrow> shared" where
  "releaseCurrent st s = releaseReceive (st_flowID st) (st_generation st) (st_currentCharge st) s"

definition release_msg :: "Stream \<Rightarrow> inbound \<Rightarrow> shared \<Rightarrow> shared" where
  "release_msg st m s =
     (case m of inboundData p c \<Rightarrow> releaseReceive (st_flowID st) (st_generation st) c s | _ \<Rightarrow> s)"

text \<open>Taking every message off the inbound channel, with its credit given back.\<close>

definition drain_inbound :: "Stream \<Rightarrow> shared \<Rightarrow> shared" where
  "drain_inbound st s =
     (let ms = c_inbound (sh_cells s (st_generation st));
          s = upd_cell (st_generation st) (\<lambda>c. c\<lparr>c_inbound := []\<rparr>) s
      in fold (release_msg st) ms s)"

definition discardBuffered :: "Stream \<Rightarrow> shared \<Rightarrow> Stream \<times> shared" where
  "discardBuffered st s =
     (let (st, s) =
        (if st_current st \<noteq> []
         then (st\<lparr>st_current := [], st_currentCharge := 0, st_currentOff := 0\<rparr>, releaseCurrent st s)
         else (st, s))
      in (st, drain_inbound st s))"

definition passed :: "time option \<Rightarrow> time \<Rightarrow> bool" where
  "passed deadline now = (case deadline of None \<Rightarrow> False | Some d \<Rightarrow> d \<le> now)"

datatype wait_pick = WaitClosed | WaitTimeout | WaitInbound

definition waitInbound :: "time \<Rightarrow> wait_pick \<Rightarrow> Stream \<Rightarrow> shared \<Rightarrow> ((error + inbound) \<times> shared) option" where
  "waitInbound now pick st s =
     (if st_readerClosed st then Some (Inl errClosed, s)
      else
        (case pick of
           WaitClosed \<Rightarrow> if sh_closed s then Some (Inl errClosed, s) else None
         | WaitTimeout \<Rightarrow> if passed (st_readDead st) now then Some (Inl ErrDeadlineExceeded, s) else None
         | WaitInbound \<Rightarrow>
             (case c_inbound (sh_cells s (st_generation st)) of
                [] \<Rightarrow> None
              | m # ms \<Rightarrow> Some (Inr m, upd_cell (st_generation st) (\<lambda>c. c\<lparr>c_inbound := ms\<rparr>) s))))"

datatype read_result = ReadData "byte list" | ReadFailed error | ReadAgain | ReadWaits

definition read_current :: "nat \<Rightarrow> Stream \<Rightarrow> shared \<Rightarrow> read_result \<times> Stream \<times> shared" where
  "read_current k st s =
     (let out = take k (drop (st_currentOff st) (st_current st));
          off = st_currentOff st + length out
      in if off = length (st_current st)
         then (ReadData out, st\<lparr>st_current := [], st_currentCharge := 0, st_currentOff := 0\<rparr>, releaseCurrent st s)
         else (ReadData out, st\<lparr>st_currentOff := off\<rparr>, s))"

definition read_message :: "inbound \<Rightarrow> Stream \<Rightarrow> shared \<Rightarrow> read_result \<times> Stream \<times> shared" where
  "read_message m st s =
     (if st_readerClosed st then (ReadFailed errClosed, st, release_msg st m s)
      else
        (case m of
           inboundData p c \<Rightarrow> (ReadAgain, st\<lparr>st_current := p, st_currentCharge := c, st_currentOff := 0\<rparr>, s)
         | inboundFin \<Rightarrow> (ReadFailed EOF, st\<lparr>st_eof := True\<rparr>, s)
         | inboundReset \<Rightarrow> (ReadAgain, st, s)))"

definition read_round :: "nat \<Rightarrow> time \<Rightarrow> wait_pick \<Rightarrow> Stream \<Rightarrow> shared \<Rightarrow> read_result \<times> Stream \<times> shared" where
  "read_round k now pick st s =
     (if c_reset (sh_cells s (st_generation st)) then
        (case discardBuffered st s of (st, s) \<Rightarrow> (ReadFailed errReset, st\<lparr>st_eof := True\<rparr>, s))
      else if length (st_current st) > st_currentOff st then read_current k st s
      else if st_eof st then (ReadFailed EOF, st, s)
      else if st_readerClosed st then (ReadFailed errClosed, st, s)
      else
        (case waitInbound now pick st s of
           None \<Rightarrow> (ReadWaits, st, s)
         | Some (Inl e, s) \<Rightarrow> (ReadFailed e, st, s)
         | Some (Inr m, s) \<Rightarrow> read_message m st s))"

text \<open>\<^verbatim>\<open>Read\<close> into a buffer of \<open>k\<close> bytes, with what the scheduler picks in each round.\<close>

fun Stream_Read_loop :: "nat \<Rightarrow> (time \<times> wait_pick) list \<Rightarrow> Stream \<Rightarrow> shared \<Rightarrow> read_result \<times> Stream \<times> shared" where
  "Stream_Read_loop k [] st s = (ReadWaits, st, s)"
| "Stream_Read_loop k ((now, pick) # picks) st s =
     (case read_round k now pick st s of
        (ReadAgain, st, s) \<Rightarrow> Stream_Read_loop k picks st s
      | (ReadWaits, st, s) \<Rightarrow> Stream_Read_loop k picks st s
      | (r, st, s) \<Rightarrow> (r, st, s))"

definition Stream_Read :: "nat \<Rightarrow> (time \<times> wait_pick) list \<Rightarrow> Stream \<Rightarrow> shared \<Rightarrow> read_result \<times> Stream \<times> shared" where
  "Stream_Read k picks st s = (if k = 0 then (ReadData [], st, s) else Stream_Read_loop k picks st s)"

subsection \<open>Closing\<close>

definition closeReader :: "Stream \<Rightarrow> shared \<Rightarrow> Stream \<times> shared" where
  "closeReader st s =
     (if st_readerClosed st then (st, s)
      else
        (let st = st\<lparr>st_readerClosed := True, st_readWait := Suc (st_readWait st)\<rparr>;
             s = markReaderClosed (st_flowID st) s;
             (st, s) =
               (if st_current st \<noteq> []
                then (st\<lparr>st_current := [], st_currentCharge := 0\<rparr>, releaseCurrent st s)
                else (st, s));
             s = drain_inbound st s
         in (st, releasePart (st_flowID st) (st_generation st) s)))"

text \<open>
  \<^verbatim>\<open>CloseWrite\<close> up to its wait for room in the queue, and from there on. The first gives the FIN
  still to be queued, or the result.
\<close>

definition CloseWrite_begin :: "Stream \<Rightarrow> shared \<Rightarrow> (error option + outbound) \<times> Stream \<times> shared" where
  "CloseWrite_begin st s =
     (if st_writeClosed st then (Inl None, st, s)
      else
        (let st = st\<lparr>st_writeClosed := True, st_writeWait := Suc (st_writeWait st)\<rparr>
         in if st_terminalSent st then (Inl None, st, s)
            else if \<not> isCurrentFlow (st_flowID st) (st_generation st) s
            then (Inl (Some errClosed), st\<lparr>st_terminalSent := True\<rparr>, s)
            else
              (let st = st\<lparr>st_terminalSent := True\<rparr>
               in case FinMuxHeader (st_flowID st) of
                    Inl e \<Rightarrow> (Inl (Some e), st, releasePart (st_flowID st) (st_generation st) s)
                  | Inr header \<Rightarrow>
                      (Inr \<lparr>ob_header = header, ob_payload = [], ob_release = None, ob_flushed = False,
                            ob_generation = st_generation st\<rparr>, st, s))))"

definition CloseWrite_finish :: "send_pick \<Rightarrow> outbound \<Rightarrow> Stream \<Rightarrow> shared \<Rightarrow> (error option \<times> shared) option" where
  "CloseWrite_finish pick item st s =
     (case sendOutbound pick item False s of
        None \<Rightarrow> None
      | Some (sendErr, s) \<Rightarrow> Some (sendErr, releasePart (st_flowID st) (st_generation st) s))"

definition CloseRead :: "Stream \<Rightarrow> shared \<Rightarrow> error option \<times> Stream \<times> shared" where
  "CloseRead st s = (case closeReader st s of (st, s) \<Rightarrow> (None, st, s))"

definition SetReadDeadline :: "time option \<Rightarrow> Stream \<Rightarrow> Stream" where
  "SetReadDeadline t st = st\<lparr>st_readDead := t, st_readWait := Suc (st_readWait st)\<rparr>"

definition SetWriteDeadline :: "time option \<Rightarrow> Stream \<Rightarrow> Stream" where
  "SetWriteDeadline t st = st\<lparr>st_writeDead := t, st_writeWait := Suc (st_writeWait st)\<rparr>"

definition SetDeadline :: "time option \<Rightarrow> Stream \<Rightarrow> Stream" where
  "SetDeadline t st = SetWriteDeadline t (SetReadDeadline t st)"

subsection \<open>Writing\<close>

text \<open>
  A call of \<^verbatim>\<open>Write\<close>: the stream it is on, what is left of its argument, how much has been
  written, and how far the current chunk is: not begun; acquiring the slot, the stream credit, the
  connection credit; everything acquired; waiting for the queue with the broadcast counter of its
  snapshot; or ended with its result.
\<close>

datatype write_phase =
    ChunkStart
  | WantSlot "byte list" int
  | WantStream "byte list" int
  | WantConn "byte list" int
  | HaveAll "byte list" int
  | WantQueue "byte list" int nat
  | WriteEnded "error option"

record write_call =
  wc_stream :: nat
  wc_rest :: "byte list"
  wc_written :: nat
  wc_phase :: write_phase

definition checkWriteDeadline :: "time \<Rightarrow> Stream \<Rightarrow> error option" where
  "checkWriteDeadline now st =
     (if passed (st_writeDead st) now then Some ErrDeadlineExceeded else None)"

definition Write_start :: "nat \<Rightarrow> byte list \<Rightarrow> Stream \<Rightarrow> write_call" where
  "Write_start gen p st =
     \<lparr>wc_stream = gen, wc_rest = p, wc_written = 0,
      wc_phase = (if p = [] then WriteEnded (if st_writeClosed st then Some errClosed else None) else ChunkStart)\<rparr>"

definition chunk_of :: "byte list \<Rightarrow> byte list" where
  "chunk_of rest = (if int (length rest) > FrameBytes then take (nat FrameBytes) rest else rest)"

abbreviation slot_add :: "nat \<Rightarrow> shared \<Rightarrow> shared" where
  "slot_add g s \<equiv> upd_cell g (\<lambda>c. c\<lparr>c_sendSlot := sem_add 1 (c_sendSlot c)\<rparr>) s"

abbreviation credit_add :: "nat \<Rightarrow> int \<Rightarrow> shared \<Rightarrow> shared" where
  "credit_add g n s \<equiv> upd_cell g (\<lambda>c. c\<lparr>c_sendCredit := sem_add n (c_sendCredit c)\<rparr>) s"

abbreviation conn_add :: "int \<Rightarrow> shared \<Rightarrow> shared" where
  "conn_add n s \<equiv> s\<lparr>sh_connSend := sem_add n (sh_connSend s)\<rparr>"

text \<open>
  How a wait of a write ends when the semaphore does not let it pass: still waiting, or by a case
  of the select that is ready (the carrier closed, a broadcast on the stream since the head of the
  loop, the deadline). The wait has left its channel among the waiters.
\<close>

definition add_waiter :: "semaphore \<Rightarrow> semaphore" where
  "add_waiter sem = sem\<lparr>sem_waiters := Suc (sem_waiters sem)\<rparr>"

definition wait_env :: "wake_event option \<Rightarrow> time \<Rightarrow> Stream \<Rightarrow> shared \<Rightarrow> semaphore \<Rightarrow> (wake_event \<times> semaphore) list" where
  "wait_env ev now st s sem =
     (case ev of
        Some StopA \<Rightarrow> if sh_closed s then [(StopA, add_waiter sem)] else []
      | Some StopB \<Rightarrow> [(StopB, add_waiter sem)]
      | Some Timeout \<Rightarrow> if passed (st_writeDead st) now then [(Timeout, add_waiter sem)] else []
      | _ \<Rightarrow> [])"

text \<open>The checks at the head of each loop of \<^verbatim>\<open>acquireCredits\<close>.\<close>

definition write_gate :: "time \<Rightarrow> Stream \<Rightarrow> error option" where
  "write_gate now st =
     (case checkWriteDeadline now st of
        Some e \<Rightarrow> Some e
      | None \<Rightarrow> if st_writeClosed st then Some errClosed else None)"

text \<open>The first loop: the slot. On an interrupt it goes round again.\<close>

definition acquire_slot ::
  "wake_event option \<Rightarrow> time \<Rightarrow> Stream \<Rightarrow> byte list \<Rightarrow> int \<Rightarrow> shared \<Rightarrow> write_phase \<times> shared" where
  "acquire_slot ev now st chunk charge s =
     (let g = st_generation st; sem = c_sendSlot (sh_cells s g)
      in case write_gate now st of
           Some e \<Rightarrow> (WriteEnded (Some e), s)
         | None \<Rightarrow>
             (case acquireUntil 1 sem (wait_env ev now st s sem) of
                (Acquired, sem) \<Rightarrow> (WantStream chunk charge, upd_cell g (\<lambda>c. c\<lparr>c_sendSlot := sem\<rparr>) s)
              | (Waiting, sem) \<Rightarrow> (WantSlot chunk charge, upd_cell g (\<lambda>c. c\<lparr>c_sendSlot := sem\<rparr>) s)
              | (Failed e, sem) \<Rightarrow>
                  (if e = errInterrupted then WantSlot chunk charge else WriteEnded (Some e),
                   upd_cell g (\<lambda>c. c\<lparr>c_sendSlot := sem\<rparr>) s)))"

definition acquire_stream ::
  "wake_event option \<Rightarrow> time \<Rightarrow> Stream \<Rightarrow> byte list \<Rightarrow> int \<Rightarrow> shared \<Rightarrow> write_phase \<times> shared" where
  "acquire_stream ev now st chunk charge s =
     (let g = st_generation st; sem = c_sendCredit (sh_cells s g)
      in case write_gate now st of
           Some e \<Rightarrow> (WriteEnded (Some e), slot_add g s)
         | None \<Rightarrow>
             (case acquireUntil charge sem (wait_env ev now st s sem) of
                (Acquired, sem) \<Rightarrow> (WantConn chunk charge, upd_cell g (\<lambda>c. c\<lparr>c_sendCredit := sem\<rparr>) s)
              | (Waiting, sem) \<Rightarrow> (WantStream chunk charge, upd_cell g (\<lambda>c. c\<lparr>c_sendCredit := sem\<rparr>) s)
              | (Failed e, sem) \<Rightarrow>
                  (let s = upd_cell g (\<lambda>c. c\<lparr>c_sendCredit := sem\<rparr>) s
                   in if e = errInterrupted then (WantStream chunk charge, s)
                      else (WriteEnded (Some e), slot_add g s))))"

definition acquire_conn ::
  "wake_event option \<Rightarrow> time \<Rightarrow> Stream \<Rightarrow> byte list \<Rightarrow> int \<Rightarrow> shared \<Rightarrow> write_phase \<times> shared" where
  "acquire_conn ev now st chunk charge s =
     (let g = st_generation st; sem = sh_connSend s
      in case write_gate now st of
           Some e \<Rightarrow> (WriteEnded (Some e), credit_add g charge (slot_add g s))
         | None \<Rightarrow>
             (case acquireUntil charge sem (wait_env ev now st s sem) of
                (Acquired, sem) \<Rightarrow> (HaveAll chunk charge, s\<lparr>sh_connSend := sem\<rparr>)
              | (Waiting, sem) \<Rightarrow> (WantConn chunk charge, s\<lparr>sh_connSend := sem\<rparr>)
              | (Failed e, sem) \<Rightarrow>
                  (let s = s\<lparr>sh_connSend := sem\<rparr>
                   in if e = errInterrupted then (WantConn chunk charge, s)
                      else (WriteEnded (Some e), credit_add g charge (slot_add g s)))))"

definition refund_write :: "nat \<Rightarrow> int \<Rightarrow> shared \<Rightarrow> shared" where
  "refund_write g charge s = conn_add charge (credit_add g charge (slot_add g s))"

text \<open>The rest of \<^verbatim>\<open>sendData\<close>: the frame enters the queue of the writer, or everything goes back.\<close>

definition queue_data ::
  "send_pick \<Rightarrow> Stream \<Rightarrow> byte list \<Rightarrow> int \<Rightarrow> nat \<Rightarrow> shared \<Rightarrow> ((error option) \<times> shared) option" where
  "queue_data pick st chunk charge wait s =
     (let g = st_generation st
      in case DataMuxHeader (st_flowID st) (int (length chunk)) of
           Inl e \<Rightarrow> Some (Some e, refund_write g charge s)
         | Inr header \<Rightarrow>
             (case sendOutbound pick
                     \<lparr>ob_header = header, ob_payload = chunk, ob_release = Some g, ob_flushed = False, ob_generation = g\<rparr>
                     (st_writeWait st > wait) s of
                None \<Rightarrow> None
              | Some (Some e, s) \<Rightarrow> Some (Some e, refund_write g charge s)
              | Some (None, s) \<Rightarrow> Some (None, s)))"

text \<open>
  One step of a write. At the start of a chunk \<^verbatim>\<open>Write\<close> checks the deadline and the close, and
  \<^verbatim>\<open>sendData\<close> that the flow still is the stream's own. The snapshot after the acquisitions sees a
  close of the write half that happened meanwhile.
\<close>

definition write_chunk :: "time \<Rightarrow> write_call \<Rightarrow> Stream \<Rightarrow> shared \<Rightarrow> write_phase" where
  "write_chunk now wc st s =
     (case write_gate now st of
        Some e \<Rightarrow> WriteEnded (Some e)
      | None \<Rightarrow>
          if \<not> isCurrentFlow (st_flowID st) (st_generation st) s then WriteEnded (Some errClosed)
          else (let chunk = chunk_of (wc_rest wc) in WantSlot chunk (frameCharge (int (length chunk)))))"

definition write_snapshot :: "Stream \<Rightarrow> byte list \<Rightarrow> int \<Rightarrow> shared \<Rightarrow> write_phase \<times> shared" where
  "write_snapshot st chunk charge s =
     (if st_writeClosed st then (WriteEnded (Some errClosed), refund_write (st_generation st) charge s)
      else (WantQueue chunk charge (st_writeWait st), s))"

definition write_queued :: "byte list \<Rightarrow> write_call \<Rightarrow> write_call" where
  "write_queued chunk wc =
     (let rest = drop (length chunk) (wc_rest wc)
      in wc\<lparr>wc_rest := rest, wc_written := wc_written wc + length chunk,
            wc_phase := (if rest = [] then WriteEnded None else ChunkStart)\<rparr>)"

definition write_round ::
  "wake_event option \<Rightarrow> send_pick \<Rightarrow> time \<Rightarrow> write_call \<Rightarrow> Stream \<Rightarrow> shared \<Rightarrow> write_call \<times> shared" where
  "write_round ev pick now wc st s =
     (case wc_phase wc of
        ChunkStart \<Rightarrow> (wc\<lparr>wc_phase := write_chunk now wc st s\<rparr>, s)
      | WantSlot chunk charge \<Rightarrow>
          (case acquire_slot ev now st chunk charge s of (ph, s) \<Rightarrow> (wc\<lparr>wc_phase := ph\<rparr>, s))
      | WantStream chunk charge \<Rightarrow>
          (case acquire_stream ev now st chunk charge s of (ph, s) \<Rightarrow> (wc\<lparr>wc_phase := ph\<rparr>, s))
      | WantConn chunk charge \<Rightarrow>
          (case acquire_conn ev now st chunk charge s of (ph, s) \<Rightarrow> (wc\<lparr>wc_phase := ph\<rparr>, s))
      | HaveAll chunk charge \<Rightarrow>
          (case write_snapshot st chunk charge s of (ph, s) \<Rightarrow> (wc\<lparr>wc_phase := ph\<rparr>, s))
      | WantQueue chunk charge wait \<Rightarrow>
          (case queue_data pick st chunk charge wait s of
             None \<Rightarrow> (wc, s)
           | Some (Some e, s) \<Rightarrow> (wc\<lparr>wc_phase := WriteEnded (Some e)\<rparr>, s)
           | Some (None, s) \<Rightarrow> (write_queued chunk wc, s))
      | WriteEnded e \<Rightarrow> (wc, s))"

end
