(* ===== verification/Mux_Tables.thy ===== *)
theory Mux_Tables
  imports Mux_Stream
begin

section \<open>The stream multiplexer: what the operations keep and change\<close>

text \<open>
  The well-formedness of the flow table and of the reset reservations, and what each operation of
  the shared state does to the credit counters. The proofs about whole carriers rest on these.
\<close>

named_theorems mux_frame \<open>what an operation leaves unchanged\<close>

subsection \<open>Small updates\<close>

lemma put_flow_frame [simp, mux_frame]:
  "sh_config (put_flow f fs s) = sh_config s" "sh_cells (put_flow f fs s) = sh_cells s"
  "sh_pendingResets (put_flow f fs s) = sh_pendingResets s"
  "sh_nextGeneration (put_flow f fs s) = sh_nextGeneration s"
  "sh_connSend (put_flow f fs s) = sh_connSend s" "sh_connRecv (put_flow f fs s) = sh_connRecv s"
  "sh_pendingConn (put_flow f fs s) = sh_pendingConn s" "sh_dataTx (put_flow f fs s) = sh_dataTx s"
  "sh_closed (put_flow f fs s) = sh_closed s" "sh_ready (put_flow f fs s) = sh_ready s"
  "sh_flows (put_flow f fs s) = AList.update f fs (sh_flows s)"
  by (simp_all add: put_flow_def)

lemma del_flow_frame [simp, mux_frame]:
  "sh_config (del_flow f s) = sh_config s" "sh_cells (del_flow f s) = sh_cells s"
  "sh_pendingResets (del_flow f s) = sh_pendingResets s"
  "sh_nextGeneration (del_flow f s) = sh_nextGeneration s"
  "sh_connSend (del_flow f s) = sh_connSend s" "sh_connRecv (del_flow f s) = sh_connRecv s"
  "sh_pendingConn (del_flow f s) = sh_pendingConn s" "sh_dataTx (del_flow f s) = sh_dataTx s"
  "sh_closed (del_flow f s) = sh_closed s" "sh_ready (del_flow f s) = sh_ready s"
  "sh_flows (del_flow f s) = AList.delete f (sh_flows s)"
  by (simp_all add: del_flow_def)

lemma upd_cell_frame [simp, mux_frame]:
  "sh_config (upd_cell g h s) = sh_config s" "sh_flows (upd_cell g h s) = sh_flows s"
  "sh_pendingResets (upd_cell g h s) = sh_pendingResets s"
  "sh_nextGeneration (upd_cell g h s) = sh_nextGeneration s"
  "sh_connSend (upd_cell g h s) = sh_connSend s" "sh_connRecv (upd_cell g h s) = sh_connRecv s"
  "sh_pendingConn (upd_cell g h s) = sh_pendingConn s" "sh_dataTx (upd_cell g h s) = sh_dataTx s"
  "sh_closed (upd_cell g h s) = sh_closed s" "sh_ready (upd_cell g h s) = sh_ready s"
  "sh_cells (upd_cell g h s) = (sh_cells s)(g := h (sh_cells s g))"
  by (simp_all add: upd_cell_def)

lemma notify_frame [simp, mux_frame]:
  "sh_config (notifyActive s) = sh_config s" "sh_flows (notifyActive s) = sh_flows s"
  "sh_cells (notifyActive s) = sh_cells s" "sh_pendingResets (notifyActive s) = sh_pendingResets s"
  "sh_nextGeneration (notifyActive s) = sh_nextGeneration s" "sh_connSend (notifyActive s) = sh_connSend s"
  "sh_connRecv (notifyActive s) = sh_connRecv s" "sh_pendingConn (notifyActive s) = sh_pendingConn s"
  "sh_dataTx (notifyActive s) = sh_dataTx s" "sh_closed (notifyActive s) = sh_closed s"
  "sh_ready (notifyActive s) = sh_ready s"
  "sh_config (notifyControl s) = sh_config s" "sh_flows (notifyControl s) = sh_flows s"
  "sh_cells (notifyControl s) = sh_cells s" "sh_pendingResets (notifyControl s) = sh_pendingResets s"
  "sh_nextGeneration (notifyControl s) = sh_nextGeneration s" "sh_connSend (notifyControl s) = sh_connSend s"
  "sh_connRecv (notifyControl s) = sh_connRecv s" "sh_pendingConn (notifyControl s) = sh_pendingConn s"
  "sh_dataTx (notifyControl s) = sh_dataTx s" "sh_closed (notifyControl s) = sh_closed s"
  "sh_ready (notifyControl s) = sh_ready s"
  by (simp_all add: notifyActive_def notifyControl_def)

lemma sem_simps [simp]:
  "0 \<le> n \<Longrightarrow> sem_available (sem_add n x) = sem_available x + n"
  "sem_available (sem_close x) = sem_available x" "sem_closed (sem_close x)"
  "sem_closed (sem_add n x) = sem_closed x" "sem_available (newSemaphore m) = m"
  "sem_available (add_waiter x) = sem_available x"
  by (auto simp: sem_add_def sem_close_def sem_wake_def newSemaphore_def add_waiter_def)

lemma close_cell_simps [simp]:
  "c_reset (close_cell c) = c_reset c" "c_inbound (close_cell c) = c_inbound c"
  "sem_available (c_sendCredit (close_cell c)) = sem_available (c_sendCredit c)"
  "sem_available (c_sendSlot (close_cell c)) = sem_available (c_sendSlot c)"
  by (simp_all add: close_cell_def)

subsection \<open>The flow table\<close>

abbreviation valid_id :: "u32 \<Rightarrow> bool" where
  "valid_id f \<equiv> 0 < f \<and> f \<le> nw2_MaxFlowID"

definition flow_ok :: "Config \<Rightarrow> flowState \<Rightarrow> bool" where
  "flow_ok cfg fs \<longleftrightarrow>
     0 \<le> fs_receiveCredit fs \<and> fs_receiveCredit fs \<le> creditUnits (StreamWindowBytes cfg) \<and>
     0 \<le> fs_pendingReceive fs \<and> fs_localParts fs \<le> 2"

definition entry_ok :: "Config \<Rightarrow> nat \<Rightarrow> u32 \<times> flowState \<Rightarrow> bool" where
  "entry_ok cfg next p \<longleftrightarrow>
     valid_id (fst p) \<and> 1 \<le> fs_generation (snd p) \<and> fs_generation (snd p) \<le> next \<and> flow_ok cfg (snd p)"

definition tab :: "Config \<Rightarrow> (u32 \<times> flowState) list \<Rightarrow> u32 list \<Rightarrow> nat \<Rightarrow> bool \<Rightarrow> bool" where
  "tab cfg flows resets next closed \<longleftrightarrow>
     distinct (map fst flows) \<and> distinct (map (\<lambda>p. fs_generation (snd p)) flows) \<and>
     distinct resets \<and> set resets \<inter> fst ` set flows = {} \<and>
     int (length flows) + int (length resets) \<le> MaxStreams cfg \<and>
     (\<forall>p \<in> set flows. entry_ok cfg next p) \<and>
     (\<forall>f \<in> set resets. valid_id f) \<and> (closed \<longrightarrow> flows = [])"

text \<open>
  Flow identifiers are valid and distinct, no identifier has a flow and a reset at once, retained
  state is bounded, generations are unique and issued, credits are within the window.
\<close>

abbreviation tables :: "shared \<Rightarrow> bool" where
  "tables s \<equiv> tab (sh_config s) (sh_flows s) (sh_pendingResets s) (sh_nextGeneration s) (sh_closed s)"

lemma tab_lookup:
  assumes "tab cfg flows resets next closed" "map_of flows f = Some fs"
  shows "valid_id f" "1 \<le> fs_generation fs" "fs_generation fs \<le> next" "flow_ok cfg fs" "\<not> closed" "f \<notin> set resets"
proof -
  have m: "(f, fs) \<in> set flows" by (rule map_of_SomeD [OF assms(2)])
  then have e: "entry_ok cfg next (f, fs)" using assms(1) by (simp add: tab_def)
  then show "valid_id f" "1 \<le> fs_generation fs" "fs_generation fs \<le> next" "flow_ok cfg fs"
    by (simp_all add: entry_ok_def)
  show "\<not> closed" using assms(1) m by (auto simp: tab_def)
  have "f \<in> fst ` set flows" using m by force
  then show "f \<notin> set resets" using assms(1) unfolding tab_def by blast
qed

lemma map_update_same:
  "map_of xs k = Some v0 \<Longrightarrow> h v = h v0 \<Longrightarrow> distinct (map fst xs) \<Longrightarrow>
   map (\<lambda>p. h (snd p)) (AList.update k v xs) = map (\<lambda>p. h (snd p)) xs"
  by (induction xs) (auto split: if_splits)

lemma map_fst_update_same: "map_of xs k = Some v0 \<Longrightarrow> map fst (AList.update k v xs) = map fst xs"
  by (induction xs) (auto split: if_splits)

lemma update_new: "map_of xs k = None \<Longrightarrow> AList.update k v xs = xs @ [(k, v)]"
  by (induction xs) (auto split: if_splits)

lemma tab_update:
  assumes t: "tab cfg flows resets next closed" and l: "map_of flows f = Some fs0"
    and g: "fs_generation fs = fs_generation fs0" and ok: "flow_ok cfg fs"
  shows "tab cfg (AList.update f fs flows) resets next closed"
proof -
  have d: "distinct (map fst flows)" using t by (simp add: tab_def)
  have keys: "map fst (AList.update f fs flows) = map fst flows" by (rule map_fst_update_same [OF l])
  then have k: "fst ` set (AList.update f fs flows) = fst ` set flows"
    by (metis set_map)
  have gens: "map (\<lambda>p. fs_generation (snd p)) (AList.update f fs flows) = map (\<lambda>p. fs_generation (snd p)) flows"
    by (rule map_update_same [OF l g d])
  have len: "length (AList.update f fs flows) = length flows" using l by (simp add: length_al_update)
  have "entry_ok cfg next p" if "p \<in> set (AList.update f fs flows)" for p
    using subsetD [OF set_al_update that] t tab_lookup(1-3) [OF t l] g ok by (auto simp: tab_def entry_ok_def)
  then show ?thesis using t tab_lookup(5) [OF t l] unfolding tab_def keys k gens len by blast
qed

lemma delete_subseq: "set (map h (AList.delete k xs)) \<subseteq> set (map h xs)"
  by (auto simp: set_al_delete)

lemma distinct_map_delete: "distinct (map h xs) \<Longrightarrow> distinct (map h (AList.delete k xs))"
  by (induction xs) (auto simp: set_al_delete)

lemma tab_delete:
  assumes "tab cfg flows resets next closed"
  shows "tab cfg (AList.delete f flows) resets next closed"
  using assms AList.length_delete_le [of f flows] delete_subseq [of fst f flows]
  unfolding tab_def by (auto simp: distinct_map_delete set_al_delete)

lemma tab_insert:
  assumes t: "tab cfg flows resets next False" and n: "map_of flows f = None" "f \<notin> set resets" "valid_id f"
    and room: "int (length flows) + int (length resets) < MaxStreams cfg"
    and fs: "fs_generation fs = Suc next" "flow_ok cfg fs"
  shows "tab cfg (AList.update f fs flows) resets (Suc next) False"
proof -
  have "f \<notin> fst ` set flows" using n(1) by (simp add: map_of_eq_None_iff)
  moreover have "Suc next \<notin> (\<lambda>p. fs_generation (snd p)) ` set flows"
  proof
    assume "Suc next \<in> (\<lambda>p. fs_generation (snd p)) ` set flows"
    then obtain p where "p \<in> set flows" "fs_generation (snd p) = Suc next" by auto
    then have "entry_ok cfg next p" using t by (auto simp: tab_def)
    then show False using \<open>fs_generation (snd p) = Suc next\<close> by (simp add: entry_ok_def)
  qed
  moreover have "entry_ok cfg (Suc next) p" if "p \<in> set flows" for p
  proof -
    have "entry_ok cfg next p" using t that by (simp add: tab_def)
    then show ?thesis by (simp add: entry_ok_def)
  qed
  moreover have "entry_ok cfg (Suc next) (f, fs)" using n(3) fs by (simp add: entry_ok_def)
  ultimately show ?thesis using t n(2) room fs(1) [symmetric]
    unfolding tab_def update_new [OF n(1)] by auto
qed

lemma tab_next: "tab cfg flows resets next closed \<Longrightarrow> next \<le> next' \<Longrightarrow> tab cfg flows resets next' closed"
  unfolding tab_def entry_ok_def by auto

lemma tab_room: "tab cfg flows resets next closed \<Longrightarrow> int (length flows) + int (length resets) \<le> MaxStreams cfg"
  by (simp add: tab_def)

lemma tab_reset:
  assumes "tab cfg flows resets next closed" "f \<notin> set resets" "valid_id f"
    "map_of flows f \<noteq> None \<or> int (length flows) + int (length resets) < MaxStreams cfg"
  shows "tab cfg (AList.delete f flows) (resets @ [f]) next closed"
proof -
  have d: "tab cfg (AList.delete f flows) resets next closed" by (rule tab_delete [OF assms(1)])
  have "distinct (map fst flows)" using assms(1) by (simp add: tab_def)
  then have l: "length (AList.delete f flows) = (if map_of flows f = None then length flows else length flows - 1)"
    by (rule length_al_delete)
  have "map_of flows f \<noteq> None \<Longrightarrow> 0 < length flows" by (cases flows) auto
  then have "int (length (AList.delete f flows)) + int (length resets) < MaxStreams cfg"
    using assms(4) l tab_room [OF assms(1)] by (cases "map_of flows f = None") (auto simp: of_nat_diff Suc_le_eq)
  moreover have "f \<notin> fst ` set (AList.delete f flows)" by (auto simp: set_al_delete)
  ultimately show ?thesis using d assms(2,3) by (auto simp: tab_def)
qed

lemma tab_filter:
  assumes "tab cfg flows resets next closed"
  shows "tab cfg flows (filter P resets) next closed"
proof -
  have "int (length flows) + int (length (filter P resets)) \<le> MaxStreams cfg"
    using tab_room [OF assms] length_filter_le [of P resets] by linarith
  then show ?thesis using assms unfolding tab_def by auto
qed

subsection \<open>Credit counters\<close>

definition inbounds :: "shared \<Rightarrow> nat \<Rightarrow> inbound list" where
  "inbounds s g = c_inbound (sh_cells s g)"

definition creset :: "shared \<Rightarrow> nat \<Rightarrow> bool" where
  "creset s g = c_reset (sh_cells s g)"

definition credits :: "shared \<Rightarrow> nat \<Rightarrow> int" where
  "credits s g = sem_available (c_sendCredit (sh_cells s g))"

text \<open>What an operation on flows leaves alone, and what one that gives receive credit back does.\<close>

definition steady :: "shared \<Rightarrow> shared \<Rightarrow> bool" where
  "steady s s' \<longleftrightarrow> sh_config s' = sh_config s \<and> sh_nextGeneration s' = sh_nextGeneration s \<and>
     sh_closed s' = sh_closed s \<and> sh_dataTx s' = sh_dataTx s \<and>
     sem_available (sh_connSend s') = sem_available (sh_connSend s) \<and> credits s' = credits s \<and> creset s' = creset s"

definition quiet :: "shared \<Rightarrow> shared \<Rightarrow> bool" where
  "quiet s s' \<longleftrightarrow> steady s s' \<and> inbounds s' = inbounds s \<and>
     sh_connRecv s' = sh_connRecv s \<and> sh_pendingConn s' = sh_pendingConn s"

definition released :: "int \<Rightarrow> shared \<Rightarrow> shared \<Rightarrow> bool" where
  "released c s s' \<longleftrightarrow> steady s s' \<and> inbounds s' = inbounds s \<and>
     sh_connRecv s' = (if sh_closed s then sh_connRecv s else capped (connUnits (sh_config s)) (sh_connRecv s + c)) \<and>
     sh_pendingConn s' = (if sh_closed s then sh_pendingConn s else sh_pendingConn s + c)"

lemmas view_defs = quiet_def steady_def released_def inbounds_def credits_def creset_def

lemma steady_trans: "steady s t \<Longrightarrow> steady t u \<Longrightarrow> steady s u"
  by (simp add: steady_def)

lemma quiet_refl [simp]: "quiet s s"
  by (simp add: quiet_def steady_def)

lemma quiet_trans: "quiet s t \<Longrightarrow> quiet t u \<Longrightarrow> quiet s u"
  by (auto simp: quiet_def intro: steady_trans)

lemma released_quiet: "released c s t \<Longrightarrow> quiet t u \<Longrightarrow> released c s u"
  by (auto simp: quiet_def released_def intro: steady_trans)

lemma quiet_released: "quiet s t \<Longrightarrow> released c t u \<Longrightarrow> released c s u"
  by (auto simp: quiet_def released_def steady_def)

lemma quiet_small [simp]:
  "quiet s (put_flow f fs t) = quiet s t" "quiet s (del_flow f t) = quiet s t"
  "quiet s (notifyActive t) = quiet s t" "quiet s (notifyControl t) = quiet s t"
  "quiet s (upd_cell g close_cell t) = quiet s t"
proof -
  have "credits (upd_cell g close_cell t) = credits t" "inbounds (upd_cell g close_cell t) = inbounds t"
    "creset (upd_cell g close_cell t) = creset t"
    by (simp_all add: credits_def inbounds_def creset_def fun_eq_iff)
  then show "quiet s (upd_cell g close_cell t) = quiet s t" by (simp add: quiet_def steady_def)
qed (simp_all add: quiet_def steady_def credits_def inbounds_def creset_def fun_eq_iff)

lemma quiet_removeCurrentFlow: "quiet s (removeCurrentFlow f g s)"
  unfolding removeCurrentFlow_def by auto

lemma quiet_removeFlow: "quiet s (snd (removeFlow f s))"
  unfolding removeFlow_def by (auto split: option.splits)

lemma quiet_releasePart: "quiet s (releasePart f g s)"
  unfolding releasePart_def Let_def by (auto split: option.splits)

lemma quiet_finishLocalFin: "quiet s (finishLocalFin f g s)"
  unfolding finishLocalFin_def by (auto split: option.splits)

lemma quiet_markReaderClosed: "quiet s (markReaderClosed f s)"
  unfolding markReaderClosed_def by (auto split: option.splits)

lemma released_releaseConnReceive: "released c s (releaseConnReceive c s)"
  by (auto simp: releaseConnReceive_def Let_def view_defs)

lemma released_releaseReceive: "released c s (releaseReceive f g c s)"
proof (cases "sh_closed s")
  case False
  then show ?thesis
    by (cases "flow_of s f") (auto simp: releaseReceive_def Let_def view_defs)
qed (simp add: releaseReceive_def view_defs)

subsection \<open>The flow table under the operations\<close>

lemma tables_put:
  "tables s \<Longrightarrow> flow_of s f = Some fs0 \<Longrightarrow> fs_generation fs = fs_generation fs0 \<Longrightarrow> flow_ok (sh_config s) fs \<Longrightarrow>
   tables (put_flow f fs s)"
  by (simp add: tab_update)

lemma tables_del: "tables s \<Longrightarrow> tables (del_flow f s)"
  by (simp add: tab_delete)

lemma tables_removeFlow: "tables s \<Longrightarrow> tables (snd (removeFlow f s))"
  by (auto simp: removeFlow_def tab_delete split: option.splits)

lemma tables_removeCurrentFlow: "tables s \<Longrightarrow> tables (removeCurrentFlow f g s)"
  by (simp add: removeCurrentFlow_def tab_delete)

lemma flow_ok_of:
  "tables s \<Longrightarrow> flow_of s f = Some fs \<Longrightarrow>
     0 \<le> fs_receiveCredit fs \<and> fs_receiveCredit fs \<le> creditUnits (StreamWindowBytes (sh_config s)) \<and>
     0 \<le> fs_pendingReceive fs \<and> fs_localParts fs \<le> 2"
  using tab_lookup(4) by (auto simp: flow_ok_def)

lemma tables_releasePart: "tables s \<Longrightarrow> tables (releasePart f g s)"
  using flow_ok_of [of s f]
  by (cases "flow_of s f") (auto simp: releasePart_def Let_def flow_ok_def tab_delete intro!: tab_update)

lemma tables_finishLocalFin: "tables s \<Longrightarrow> tables (finishLocalFin f g s)"
  using flow_ok_of [of s f]
  by (cases "flow_of s f") (auto simp: finishLocalFin_def flow_ok_def tab_delete intro!: tab_update)

lemma tables_markReaderClosed: "tables s \<Longrightarrow> tables (markReaderClosed f s)"
  using flow_ok_of [of s f]
  by (cases "flow_of s f") (auto simp: markReaderClosed_def flow_ok_def intro!: tab_update)

lemma tables_releaseConnReceive: "tables s \<Longrightarrow> tables (releaseConnReceive c s)"
  by (auto simp: releaseConnReceive_def Let_def)

lemma tables_releaseReceive: "tables s \<Longrightarrow> 0 \<le> c \<Longrightarrow> tables (releaseReceive f g c s)"
  using flow_ok_of [of s f]
  by (cases "flow_of s f")
    (auto simp: releaseReceive_def Let_def flow_ok_def capped_def intro!: tab_update)

lemma tables_finishReset: "tables s \<Longrightarrow> tables (finishReset f s)"
  by (simp add: finishReset_def tab_filter)

lemma tables_closeWithReason: "tables s \<Longrightarrow> tables (closeWithReason r s)"
  by (auto simp: closeWithReason_def Let_def tab_def)

lemma fresh_flow_generation [simp]: "fs_generation (fresh_flow cfg a g) = g"
  by (simp add: fresh_flow_def Let_def)

lemma flow_ok_fresh: "flow_ok cfg (fresh_flow cfg a g)"
  by (simp add: flow_ok_def fresh_flow_def extraUnits_def Let_def)

lemma tables_insertFlow: "tables s \<Longrightarrow> tables (snd (insertFlow f a s))"
  using flow_ok_fresh [of "sh_config s" a "Suc (sh_nextGeneration s)"]
  by (auto simp: insertFlow_def Let_def not_le not_less word_gt_0 intro: tab_next intro!: tab_insert)

lemma tables_resetInbound: "tables s \<Longrightarrow> tables (resetInbound g s)"
  by (simp add: resetInbound_def Let_def tables_releaseConnReceive)

lemma tables_prepareReset:
  assumes "tables s" "valid_id f"
  shows "tables (snd (prepareReset f g s))"
proof (cases "flow_of s f")
  case None
  then have "AList.delete f (sh_flows s) = sh_flows s"
    by (rule delete_absent)
  then show ?thesis using None assms tab_reset [OF assms(1) _ assms(2)]
    by (auto simp: prepareReset_def not_le)
next
  case (Some fs)
  then show ?thesis using assms tab_reset [OF assms(1) _ assms(2)]
    by (auto simp: prepareReset_def Let_def intro!: tables_resetInbound)
qed

lemma tables_admitReceive: "tables s \<Longrightarrow> 0 \<le> c \<Longrightarrow> tables (snd (admitReceive f c s))"
  using flow_ok_of [of s f]
  by (cases "flow_of s f") (auto simp: admitReceive_def Let_def flow_ok_def intro!: tab_update)

end
