(* ===== verification/Mux_System.thy ===== *)
theory Mux_System
  imports Mux_Tables
begin

section \<open>The stream multiplexer: a carrier and its interleavings\<close>

text \<open>
  A carrier: the shared state, the two ends of its connection (what the peer will send, an
  arbitrary byte stream, and what the connection accepts), the reader and writer goroutines, the
  streams handed out (by generation), the calls of \<^verbatim>\<open>Write\<close> in progress and the FINs waiting for
  room in the queue. A step is one atomic section of one goroutine, so a run is an interleaving;
  a step that is not ready leaves the carrier as it is. The streams of a run are read by one
  goroutine at a time.

  The last fields are history, not state of the code: the connection credit the peer has
  granted and the charge of the DATA sent; the connection credit advertised to the peer and the
  charge of the DATA received; per generation, the stream credit granted and the charge sent.
\<close>

datatype writer_state = WriterFirst | WriterSecond | WriterEnded error | WriterPanicked

record carrier =
  cr_sh :: shared
  cr_in :: reader
  cr_out :: writer
  cr_reader :: reader_state
  cr_writer :: writer_state
  cr_streams :: "nat \<Rightarrow> Stream option"
  cr_writes :: "write_call list"
  cr_fins :: "outbound list"
  cr_granted :: int
  cr_sent :: int
  cr_adv :: int
  cr_recvd :: int
  cr_fgranted :: "nat \<Rightarrow> int"
  cr_fsent :: "nat \<Rightarrow> int"

definition carrier_start :: "shared \<Rightarrow> reader \<Rightarrow> writer \<Rightarrow> carrier" where
  "carrier_start s r w =
     \<lparr>cr_sh = s, cr_in = r, cr_out = w, cr_reader = Reading, cr_writer = WriterFirst, cr_streams = (\<lambda>_. None),
      cr_writes = [], cr_fins = [], cr_granted = creditUnits BaseConnectionWindowBytes, cr_sent = 0,
      cr_adv = creditUnits BaseConnectionWindowBytes, cr_recvd = 0, cr_fgranted = (\<lambda>_. 0), cr_fsent = (\<lambda>_. 0)\<rparr>"

datatype mux_op =
    Prepare u32
  | Commit nat send_pick "error option"
  | ReadFrame bool
  | DeliverMsg bool
  | ReaderExit
  | StreamRead nat nat time wait_pick
  | StreamWrite nat "byte list"
  | WriteRound nat "wake_event option" send_pick time
  | StreamCloseWrite nat
  | FinRound nat send_pick
  | StreamCloseRead nat
  | StreamDeadline nat "time option" "time option"
  | WriterRound write_pick "error option option"
  | WriterExit
  | CloseCarrier CloseReason
  | Reject
  | Accept accept_pick

abbreviation base_stream :: int where "base_stream \<equiv> creditUnits BaseStreamWindowBytes"

definition add_stream :: "Stream option \<Rightarrow> carrier \<Rightarrow> carrier" where
  "add_stream st c =
     (case st of None \<Rightarrow> c | Some st \<Rightarrow> c\<lparr>cr_streams := (cr_streams c)(st_generation st \<mapsto> st)\<rparr>)"

definition step_Prepare :: "u32 \<Rightarrow> carrier \<Rightarrow> carrier" where
  "step_Prepare f c =
     (case PrepareStream f (cr_sh c) of
        (Inl e, s) \<Rightarrow> c\<lparr>cr_sh := s\<rparr>
      | (Inr st, s) \<Rightarrow>
          (add_stream (Some st) c)\<lparr>cr_sh := s, cr_fgranted := (cr_fgranted c)(st_generation st := base_stream)\<rparr>)"

definition step_Commit :: "nat \<Rightarrow> send_pick \<Rightarrow> error option \<Rightarrow> carrier \<Rightarrow> carrier" where
  "step_Commit g pick ctxErr c =
     (case cr_streams c g of
        None \<Rightarrow> c
      | Some st \<Rightarrow>
          (case OpenPrepared pick ctxErr st (cr_sh c) of None \<Rightarrow> c | Some (_, s) \<Rightarrow> c\<lparr>cr_sh := s\<rparr>))"

text \<open>What a frame grants and brings, for the history.\<close>

definition conn_grant :: "MuxHeader \<Rightarrow> shared \<Rightarrow> int" where
  "conn_grant h s =
     (let v = int (unat (mh_Value h))
      in if mh_Kind h = MuxFrameWindow \<and> mh_FlowID h = 0 \<and>
            sem_available (sh_connSend s) + v \<le> creditUnits maxConnectionWindowBytes
         then v else 0)"

definition data_charge :: "MuxHeader \<Rightarrow> byte list \<Rightarrow> shared \<Rightarrow> int" where
  "data_charge h payload s =
     (let charge = frameCharge (int (length payload))
      in if mh_Kind h = MuxFrameData \<and> charge \<le> sh_connRecv s then charge else 0)"

definition flow_grant :: "MuxHeader \<Rightarrow> shared \<Rightarrow> (nat \<Rightarrow> int) \<Rightarrow> nat \<Rightarrow> int" where
  "flow_grant h s fg =
     (let v = int (unat (mh_Value h))
      in if mh_Kind h = MuxFrameOpen then fg(Suc (sh_nextGeneration s) := base_stream + v)
         else if mh_Kind h = MuxFrameWindow \<and> mh_FlowID h \<noteq> 0 then
           (case flow_of s (mh_FlowID h) of
              None \<Rightarrow> fg
            | Some flow \<Rightarrow> fg(fs_generation flow := fg (fs_generation flow) + v))
         else fg)"

definition step_ReadFrame :: "bool \<Rightarrow> carrier \<Rightarrow> carrier" where
  "step_ReadFrame pickClosed c =
     (if cr_reader c \<noteq> Reading then c
      else
        (case readFrame (cr_in c) of
           Inl e \<Rightarrow> c\<lparr>cr_reader := ReaderEnded e\<rparr>
         | Inr ((h, payload), r) \<Rightarrow>
             (case readLoop_round pickClosed (cr_in c) (cr_sh c) of
                (rs, st, r, s) \<Rightarrow>
                  (add_stream st c)\<lparr>cr_sh := s, cr_in := r, cr_reader := rs,
                    cr_granted := cr_granted c + conn_grant h (cr_sh c),
                    cr_recvd := cr_recvd c + data_charge h payload (cr_sh c),
                    cr_fgranted := flow_grant h (cr_sh c) (cr_fgranted c)\<rparr>)))"

definition step_DeliverMsg :: "bool \<Rightarrow> carrier \<Rightarrow> carrier" where
  "step_DeliverMsg pickClosed c =
     (case cr_reader c of
        Delivering g m \<Rightarrow>
          (case deliver_inbound pickClosed g m (cr_sh c) of
             None \<Rightarrow> c
           | Some (rs, s) \<Rightarrow> c\<lparr>cr_reader := rs, cr_sh := s\<rparr>)
      | _ \<Rightarrow> c)"

definition step_ReaderExit :: "carrier \<Rightarrow> carrier" where
  "step_ReaderExit c =
     (case cr_reader c of ReaderEnded e \<Rightarrow> c\<lparr>cr_sh := runReader_end e (cr_sh c)\<rparr> | _ \<Rightarrow> c)"

definition on_stream :: "nat \<Rightarrow> (Stream \<Rightarrow> shared \<Rightarrow> Stream \<times> shared) \<Rightarrow> carrier \<Rightarrow> carrier" where
  "on_stream g f c =
     (case cr_streams c g of
        None \<Rightarrow> c
      | Some st \<Rightarrow>
          (case f st (cr_sh c) of (st, s) \<Rightarrow> c\<lparr>cr_sh := s, cr_streams := (cr_streams c)(g \<mapsto> st)\<rparr>))"

definition step_StreamRead :: "nat \<Rightarrow> nat \<Rightarrow> time \<Rightarrow> wait_pick \<Rightarrow> carrier \<Rightarrow> carrier" where
  "step_StreamRead g k now pick c = on_stream g (\<lambda>st s. snd (read_round k now pick st s)) c"

definition step_StreamWrite :: "nat \<Rightarrow> byte list \<Rightarrow> carrier \<Rightarrow> carrier" where
  "step_StreamWrite g p c =
     (case cr_streams c g of None \<Rightarrow> c | Some st \<Rightarrow> c\<lparr>cr_writes := cr_writes c @ [Write_start g p st]\<rparr>)"

definition step_WriteRound :: "nat \<Rightarrow> wake_event option \<Rightarrow> send_pick \<Rightarrow> time \<Rightarrow> carrier \<Rightarrow> carrier" where
  "step_WriteRound i ev pick now c =
     (if i < length (cr_writes c) then
        (let wc = cr_writes c ! i
         in case cr_streams c (wc_stream wc) of
              None \<Rightarrow> c
            | Some st \<Rightarrow>
                (case write_round ev pick now wc st (cr_sh c) of
                   (wc, s) \<Rightarrow> c\<lparr>cr_writes := (cr_writes c)[i := wc], cr_sh := s\<rparr>))
      else c)"

definition step_StreamCloseWrite :: "nat \<Rightarrow> carrier \<Rightarrow> carrier" where
  "step_StreamCloseWrite g c =
     (case cr_streams c g of
        None \<Rightarrow> c
      | Some st \<Rightarrow>
          (case CloseWrite_begin st (cr_sh c) of
             (r, st, s) \<Rightarrow>
               c\<lparr>cr_sh := s, cr_streams := (cr_streams c)(g \<mapsto> st),
                 cr_fins := (case r of Inl _ \<Rightarrow> cr_fins c | Inr item \<Rightarrow> cr_fins c @ [item])\<rparr>))"

definition step_FinRound :: "nat \<Rightarrow> send_pick \<Rightarrow> carrier \<Rightarrow> carrier" where
  "step_FinRound i pick c =
     (if i < length (cr_fins c) then
        (let item = cr_fins c ! i
         in case cr_streams c (ob_generation item) of
              None \<Rightarrow> c
            | Some st \<Rightarrow>
                (case CloseWrite_finish pick item st (cr_sh c) of
                   None \<Rightarrow> c
                 | Some (_, s) \<Rightarrow> c\<lparr>cr_sh := s, cr_fins := take i (cr_fins c) @ drop (Suc i) (cr_fins c)\<rparr>))
      else c)"

definition step_StreamCloseRead :: "nat \<Rightarrow> carrier \<Rightarrow> carrier" where
  "step_StreamCloseRead g c = on_stream g closeReader c"

definition step_StreamDeadline :: "nat \<Rightarrow> time option \<Rightarrow> time option \<Rightarrow> carrier \<Rightarrow> carrier" where
  "step_StreamDeadline g rd wr c = on_stream g (\<lambda>st s. (SetWriteDeadline wr (SetReadDeadline rd st), s)) c"

text \<open>A panic ends the process: the carrier is left as it was.\<close>

definition after_write ::
  "writer_state \<Rightarrow> (error option \<times> writer \<times> shared) go \<Rightarrow> carrier \<Rightarrow> carrier \<Rightarrow> carrier" where
  "after_write next r c c' =
     (case r of
        Panic \<Rightarrow> c\<lparr>cr_writer := WriterPanicked\<rparr>
      | Ret (Some e, w, s) \<Rightarrow> c'\<lparr>cr_writer := WriterEnded e, cr_out := w, cr_sh := s\<rparr>
      | Ret (None, w, s) \<Rightarrow> c'\<lparr>cr_writer := next, cr_out := w, cr_sh := s\<rparr>)"

text \<open>
  The history of a round of the writer: the connection credit it takes to advertise it, and the
  charge of a DATA frame it writes (a frame of a flow that is gone is not written).
\<close>

definition advertised :: "writer_state \<Rightarrow> write_pick \<Rightarrow> shared \<Rightarrow> int" where
  "advertised ws pick s =
     (if sh_control s \<and> (ws = WriterFirst \<and> \<not> sh_closed s \<or> ws = WriterSecond \<and> pick = WriteControl)
      then sh_pendingConn s else 0)"

definition item_charge :: "outbound \<Rightarrow> int" where
  "item_charge item = frameCharge (int (length (ob_payload item)))"

definition written_item :: "writer_state \<Rightarrow> write_pick \<Rightarrow> shared \<Rightarrow> outbound option" where
  "written_item ws pick s =
     (if ws = WriterSecond \<and> pick = WriteData then
        (case sh_dataTx s of
           [] \<Rightarrow> None
         | item # rest \<Rightarrow>
             if isCurrentFlow (mh_FlowID (ob_header item)) (ob_generation item) s then Some item else None)
      else None)"

definition sent_charge :: "writer_state \<Rightarrow> write_pick \<Rightarrow> shared \<Rightarrow> int" where
  "sent_charge ws pick s = (case written_item ws pick s of None \<Rightarrow> 0 | Some item \<Rightarrow> item_charge item)"

definition sent_flow :: "writer_state \<Rightarrow> write_pick \<Rightarrow> shared \<Rightarrow> (nat \<Rightarrow> int) \<Rightarrow> nat \<Rightarrow> int" where
  "sent_flow ws pick s fs =
     (case written_item ws pick s of
        None \<Rightarrow> fs
      | Some item \<Rightarrow> fs(ob_generation item := fs (ob_generation item) + item_charge item))"

definition step_WriterRound :: "write_pick \<Rightarrow> error option option \<Rightarrow> carrier \<Rightarrow> carrier" where
  "step_WriterRound pick flush c =
     (let c' = c\<lparr>cr_adv := cr_adv c + advertised (cr_writer c) pick (cr_sh c),
                 cr_sent := cr_sent c + sent_charge (cr_writer c) pick (cr_sh c),
                 cr_fsent := sent_flow (cr_writer c) pick (cr_sh c) (cr_fsent c)\<rparr>
      in case cr_writer c of
           WriterFirst \<Rightarrow> after_write WriterSecond (writeLoop_first (cr_out c) (cr_sh c)) c c'
         | WriterSecond \<Rightarrow>
             (case writeLoop_second pick flush (cr_out c) (cr_sh c) of
                None \<Rightarrow> c
              | Some r \<Rightarrow> after_write WriterFirst r c c')
         | _ \<Rightarrow> c)"

definition step_WriterExit :: "carrier \<Rightarrow> carrier" where
  "step_WriterExit c =
     (case cr_writer c of WriterEnded e \<Rightarrow> c\<lparr>cr_sh := runWriter_end e (cr_sh c)\<rparr> | _ \<Rightarrow> c)"

fun mux_step :: "carrier \<Rightarrow> mux_op \<Rightarrow> carrier" where
  "mux_step c (Prepare f) = step_Prepare f c"
| "mux_step c (Commit g pick ctxErr) = step_Commit g pick ctxErr c"
| "mux_step c (ReadFrame b) = step_ReadFrame b c"
| "mux_step c (DeliverMsg b) = step_DeliverMsg b c"
| "mux_step c ReaderExit = step_ReaderExit c"
| "mux_step c (StreamRead g k now pick) = step_StreamRead g k now pick c"
| "mux_step c (StreamWrite g p) = step_StreamWrite g p c"
| "mux_step c (WriteRound i ev pick now) = step_WriteRound i ev pick now c"
| "mux_step c (StreamCloseWrite g) = step_StreamCloseWrite g c"
| "mux_step c (FinRound i pick) = step_FinRound i pick c"
| "mux_step c (StreamCloseRead g) = step_StreamCloseRead g c"
| "mux_step c (StreamDeadline g rd wr) = step_StreamDeadline g rd wr c"
| "mux_step c (WriterRound pick flush) = step_WriterRound pick flush c"
| "mux_step c WriterExit = step_WriterExit c"
| "mux_step c (CloseCarrier r) = c\<lparr>cr_sh := closeWithReason r (cr_sh c)\<rparr>"
| "mux_step c Reject = c\<lparr>cr_sh := rejectIncoming (cr_sh c)\<rparr>"
| "mux_step c (Accept pick) =
     (case Incoming_Accept pick (cr_sh c) of None \<Rightarrow> c | Some (_, s) \<Rightarrow> c\<lparr>cr_sh := s\<rparr>)"

end
