(* ===== verification/Mux_Receive.thy ===== *)
theory Mux_Receive
  imports Mux_System
begin

section \<open>The stream multiplexer: receive-side flow control\<close>

text \<open>
  What is left of the connection window, what is still held in queues and readers, what has been
  advertised and what has arrived stay in balance in every interleaving.
\<close>

subsection \<open>The balance\<close>

text \<open>
  \<open>R\<close> is \<^verbatim>\<open>connRecv\<close>, \<open>P\<close> is \<^verbatim>\<open>pendingConn\<close>, \<open>H\<close> the charge still held, \<open>A\<close> the credit advertised,
  \<open>V\<close> the charge received, \<open>U\<close> the window.
\<close>

definition balance :: "int \<Rightarrow> bool \<Rightarrow> int \<Rightarrow> int \<Rightarrow> int \<Rightarrow> int \<Rightarrow> int \<Rightarrow> bool" where
  "balance U closed R P H A V \<longleftrightarrow>
     R = A + P - V \<and> 0 \<le> R \<and> R \<le> U \<and> 0 \<le> P \<and> (closed \<or> R + H = U)"

lemma balance_release:
  "balance U cl R P H A V \<Longrightarrow> 0 \<le> x \<Longrightarrow> x \<le> H \<Longrightarrow>
   balance U cl (if cl then R else capped U (R + x)) (if cl then P else P + x) (H - x) A V"
  by (auto simp: balance_def capped_def)

lemma balance_admit: "balance U cl R P H A V \<Longrightarrow> 0 \<le> x \<Longrightarrow> x \<le> R \<Longrightarrow> balance U cl (R - x) P (H + x) A (V + x)"
  by (auto simp: balance_def)

lemma balance_advertise: "balance U cl R P H A V \<Longrightarrow> balance U cl R 0 H (A + P) V"
  by (auto simp: balance_def)

lemma balance_closed: "balance U cl R P H A V \<Longrightarrow> balance U True R P H' A V"
  by (auto simp: balance_def)

text \<open>When the carrier is closed, what is held may be dropped; while it is open nothing is lost.\<close>

lemma sum_change:
  fixes f f' :: "nat \<Rightarrow> int"
  assumes "g \<le> n" "\<And>i. i \<noteq> g \<Longrightarrow> f' i = f i"
  shows "(\<Sum>i\<le>n. f' i) = (\<Sum>i\<le>n. f i) - f g + f' g"
proof -
  have "(\<Sum>i\<in>{..n} - {g}. f' i) = (\<Sum>i\<in>{..n} - {g}. f i)"
    using assms(2) by (intro sum.cong) auto
  then show ?thesis using assms(1) by (simp add: sum.remove [of "{..n}" g f'] sum.remove [of "{..n}" g f])
qed

lemma sum_part:
  fixes f :: "nat \<Rightarrow> int"
  assumes "g \<le> n" "\<And>i. 0 \<le> f i"
  shows "f g \<le> (\<Sum>i\<le>n. f i)"
  using assms by (intro member_le_sum) auto

subsection \<open>What is held\<close>

definition msg_ok :: "inbound \<Rightarrow> bool" where
  "msg_ok m = (case m of inboundData p c \<Rightarrow> p \<noteq> [] \<and> c = frameCharge (int (length p)) | _ \<Rightarrow> True)"

definition stream_ok :: "nat \<Rightarrow> nat \<Rightarrow> Stream \<Rightarrow> bool" where
  "stream_ok next g st \<longleftrightarrow> st_generation st = g \<and> g \<le> next \<and> 0 \<le> st_currentCharge st \<and>
     (if st_current st = [] then st_currentCharge st = 0
      else st_currentOff st < length (st_current st) \<and> \<not> st_readerClosed st)"

definition reader_ok :: "nat \<Rightarrow> reader_state \<Rightarrow> bool" where
  "reader_ok next rs = (case rs of Delivering g m \<Rightarrow> g \<le> next \<and> msg_ok m | _ \<Rightarrow> True)"

definition queues_ok :: "nat \<Rightarrow> (nat \<Rightarrow> inbound list) \<Rightarrow> bool" where
  "queues_ok next q \<longleftrightarrow> (\<forall>g. list_all msg_ok (q g)) \<and> (\<forall>g > next. q g = [])"

definition shape :: "carrier \<Rightarrow> bool" where
  "shape c \<longleftrightarrow> tables (cr_sh c) \<and> queues_ok (sh_nextGeneration (cr_sh c)) (inbounds (cr_sh c)) \<and>
     reader_ok (sh_nextGeneration (cr_sh c)) (cr_reader c) \<and>
     (\<forall>g st. cr_streams c g = Some st \<longrightarrow> stream_ok (sh_nextGeneration (cr_sh c)) g st)"

definition current_charge :: "Stream option \<Rightarrow> int" where
  "current_charge st = (case st of None \<Rightarrow> 0 | Some st \<Rightarrow> st_currentCharge st)"

definition reader_charge :: "reader_state \<Rightarrow> int" where
  "reader_charge rs = (case rs of Delivering g m \<Rightarrow> charge_of m | _ \<Rightarrow> 0)"

definition held_queues :: "nat \<Rightarrow> (nat \<Rightarrow> inbound list) \<Rightarrow> int" where
  "held_queues next q = (\<Sum>g\<le>next. queue_charge (q g))"

definition held_streams :: "nat \<Rightarrow> (nat \<Rightarrow> Stream option) \<Rightarrow> int" where
  "held_streams next sts = (\<Sum>g\<le>next. current_charge (sts g))"

definition held :: "carrier \<Rightarrow> int" where
  "held c = held_queues (sh_nextGeneration (cr_sh c)) (inbounds (cr_sh c)) +
     held_streams (sh_nextGeneration (cr_sh c)) (cr_streams c) + reader_charge (cr_reader c)"

definition recv_balance :: "carrier \<Rightarrow> bool" where
  "recv_balance c \<longleftrightarrow>
     balance (connUnits (sh_config (cr_sh c))) (sh_closed (cr_sh c)) (sh_connRecv (cr_sh c))
       (sh_pendingConn (cr_sh c)) (held c) (cr_adv c) (cr_recvd c)"

definition recv_inv :: "carrier \<Rightarrow> bool" where
  "recv_inv c \<longleftrightarrow> shape c \<and> recv_balance c"

lemma charge_of_ok: "msg_ok m \<Longrightarrow> 0 \<le> charge_of m"
  by (auto simp: msg_ok_def charge_of_def split: inbound.splits)

lemma queue_charge_simps [simp]:
  "queue_charge [] = 0" "queue_charge (m # ms) = charge_of m + queue_charge ms"
  "queue_charge (ms @ ms') = queue_charge ms + queue_charge ms'"
  by (simp_all add: queue_charge_def)

lemma charge_of_simps [simp]: "charge_of (inboundData p c) = c" "charge_of inboundFin = 0" "charge_of inboundReset = 0"
  by (simp_all add: charge_of_def)

lemma queue_charge_ok: "list_all msg_ok ms \<Longrightarrow> 0 \<le> queue_charge ms"
  by (induction ms) (auto dest: charge_of_ok)

lemma held_queues_upd:
  "g \<le> n \<Longrightarrow> held_queues n (q(g := ms)) = held_queues n q - queue_charge (q g) + queue_charge ms"
  unfolding held_queues_def
  by (subst sum_change [where g = g and f = "\<lambda>g. queue_charge (q g)"]) auto

lemma held_streams_upd:
  "g \<le> n \<Longrightarrow> held_streams n (sts(g := st)) = held_streams n sts - current_charge (sts g) + current_charge st"
  unfolding held_streams_def
  by (subst sum_change [where g = g and f = "\<lambda>g. current_charge (sts g)"]) auto

lemma held_queues_Suc: "queues_ok n q \<Longrightarrow> held_queues (Suc n) q = held_queues n q"
  by (simp add: held_queues_def queues_ok_def)

lemma queues_ok_upd: "queues_ok n q \<Longrightarrow> g \<le> n \<Longrightarrow> list_all msg_ok ms \<Longrightarrow> queues_ok n (q(g := ms))"
  by (auto simp: queues_ok_def)

lemma queues_ok_Suc: "queues_ok n q \<Longrightarrow> queues_ok (Suc n) q"
  by (auto simp: queues_ok_def)

lemma held_queues_part: "queues_ok n q \<Longrightarrow> g \<le> n \<Longrightarrow> queue_charge (q g) \<le> held_queues n q"
  unfolding held_queues_def
  by (rule sum_part [where f = "\<lambda>g. queue_charge (q g)"]) (auto simp: queues_ok_def queue_charge_ok)

lemma held_queues_nonneg: "queues_ok n q \<Longrightarrow> 0 \<le> held_queues n q"
  unfolding held_queues_def by (rule sum_nonneg) (auto simp: queues_ok_def queue_charge_ok)

lemma current_charge_ok: "(\<And>st. sts g = Some st \<Longrightarrow> stream_ok n g st) \<Longrightarrow> 0 \<le> current_charge (sts g)"
  by (auto simp: current_charge_def stream_ok_def split: option.splits)

lemma held_streams_part:
  "(\<And>g st. sts g = Some st \<Longrightarrow> stream_ok n g st) \<Longrightarrow> g \<le> n \<Longrightarrow> current_charge (sts g) \<le> held_streams n sts"
  unfolding held_streams_def
  by (rule sum_part [where f = "\<lambda>g. current_charge (sts g)"]) (auto intro: current_charge_ok)

lemma held_streams_nonneg: "(\<And>g st. sts g = Some st \<Longrightarrow> stream_ok n g st) \<Longrightarrow> 0 \<le> held_streams n sts"
  unfolding held_streams_def by (rule sum_nonneg) (auto intro: current_charge_ok)

lemma reader_charge_ok: "reader_ok n rs \<Longrightarrow> 0 \<le> reader_charge rs"
  by (auto simp: reader_ok_def reader_charge_def dest: charge_of_ok split: reader_state.splits)

subsection \<open>Giving credit back\<close>

definition rsame :: "shared \<Rightarrow> shared \<Rightarrow> bool" where
  "rsame s s' \<longleftrightarrow> sh_config s' = sh_config s \<and> sh_nextGeneration s' = sh_nextGeneration s \<and>
     sh_closed s' = sh_closed s \<and> inbounds s' = inbounds s \<and> creset s' = creset s \<and>
     sh_connRecv s' = sh_connRecv s \<and> sh_pendingConn s' = sh_pendingConn s"

definition releases :: "int \<Rightarrow> shared \<Rightarrow> shared \<Rightarrow> bool" where
  "releases x s s' \<longleftrightarrow> sh_config s' = sh_config s \<and> sh_nextGeneration s' = sh_nextGeneration s \<and>
     sh_closed s' = sh_closed s \<and>
     sh_connRecv s' = (if sh_closed s then sh_connRecv s else capped (connUnits (sh_config s)) (sh_connRecv s + x)) \<and>
     sh_pendingConn s' = (if sh_closed s then sh_pendingConn s else sh_pendingConn s + x)"

lemma quiet_rsame: "quiet s s' \<Longrightarrow> rsame s s'"
  by (simp add: quiet_def steady_def rsame_def)

lemma rsame_refl [simp]: "rsame s s"
  by (simp add: rsame_def)

lemma rsame_trans: "rsame s t \<Longrightarrow> rsame t u \<Longrightarrow> rsame s u"
  by (simp add: rsame_def)

lemma released_releases: "released x s s' \<Longrightarrow> releases x s s' \<and> inbounds s' = inbounds s"
  by (simp add: released_def releases_def steady_def)

lemma capped_capped: "0 \<le> b \<Longrightarrow> capped L (capped L v + b) = capped L (v + b)"
  by (auto simp: capped_def)

lemma releases_add: "releases a s t \<Longrightarrow> releases b t u \<Longrightarrow> 0 \<le> b \<Longrightarrow> releases (a + b) s u"
  by (auto simp: releases_def capped_capped add.assoc)

lemma releases_0: "sh_connRecv s \<le> connUnits (sh_config s) \<Longrightarrow> rsame s s' \<Longrightarrow> releases 0 s s'"
  by (auto simp: releases_def rsame_def capped_def)

lemma releases_rsame: "releases x s t \<Longrightarrow> rsame t u \<Longrightarrow> releases x s u"
  by (simp add: releases_def rsame_def)

lemma rsame_releases: "rsame s t \<Longrightarrow> releases x t u \<Longrightarrow> releases x s u"
  by (simp add: releases_def rsame_def)

lemma releases_limit:
  "releases x s t \<Longrightarrow> sh_connRecv s \<le> connUnits (sh_config s) \<Longrightarrow> sh_connRecv t \<le> connUnits (sh_config t)"
  by (auto simp: releases_def capped_def)

lemma release_msg_effect:
  assumes "msg_ok m" "sh_connRecv s \<le> connUnits (sh_config s)"
  shows "releases (charge_of m) s (release_msg st m s) \<and> inbounds (release_msg st m s) = inbounds s \<and>
     (tables s \<longrightarrow> tables (release_msg st m s))"
  using assms released_releases [OF released_releaseReceive]
  by (cases m) (auto simp: release_msg_def msg_ok_def releases_0 tables_releaseReceive)

lemma fold_release:
  "list_all msg_ok ms \<Longrightarrow> sh_connRecv s \<le> connUnits (sh_config s) \<Longrightarrow>
   releases (queue_charge ms) s (fold (release_msg st) ms s) \<and> inbounds (fold (release_msg st) ms s) = inbounds s \<and>
   (tables s \<longrightarrow> tables (fold (release_msg st) ms s))"
proof (induction ms arbitrary: s)
  case (Cons m ms)
  let ?t = "release_msg st m s"
  have m: "releases (charge_of m) s ?t" "inbounds ?t = inbounds s" "tables s \<longrightarrow> tables ?t"
    using release_msg_effect [of m s st] Cons.prems by auto
  have "releases (queue_charge ms) ?t (fold (release_msg st) ms ?t)"
    "inbounds (fold (release_msg st) ms ?t) = inbounds ?t" "tables ?t \<longrightarrow> tables (fold (release_msg st) ms ?t)"
    using Cons.IH [of ?t] Cons.prems releases_limit [OF m(1)] by auto
  then show ?case using m Cons.prems releases_add [OF m(1)] by (auto simp: queue_charge_ok)
qed (simp add: releases_0)

lemma drain_inbound_effect:
  assumes q: "list_all msg_ok (inbounds s (st_generation st))" and R: "sh_connRecv s \<le> connUnits (sh_config s)"
  shows "releases (queue_charge (inbounds s (st_generation st))) s (drain_inbound st s)"
    "inbounds (drain_inbound st s) = (inbounds s)(st_generation st := [])"
    "tables s \<Longrightarrow> tables (drain_inbound st s)"
proof -
  let ?t = "upd_cell (st_generation st) (\<lambda>c. c\<lparr>c_inbound := []\<rparr>) s"
  let ?ms = "inbounds s (st_generation st)"
  have d: "drain_inbound st s = fold (release_msg st) ?ms ?t"
    by (simp add: drain_inbound_def inbounds_def)
  have f: "releases (queue_charge ?ms) ?t (fold (release_msg st) ?ms ?t)"
    "inbounds (fold (release_msg st) ?ms ?t) = inbounds ?t"
    "tables ?t \<longrightarrow> tables (fold (release_msg st) ?ms ?t)"
    using fold_release [OF q, of ?t st] R by simp_all
  show "releases (queue_charge ?ms) s (drain_inbound st s)"
    using f(1) unfolding d by (simp add: releases_def)
  show "inbounds (drain_inbound st s) = (inbounds s)(st_generation st := [])"
    unfolding d f(2) by (auto simp: inbounds_def)
  show "tables s \<Longrightarrow> tables (drain_inbound st s)" using f(3) unfolding d by simp
qed

lemma resetInbound_effect:
  assumes "sh_connRecv s \<le> connUnits (sh_config s)"
  shows "releases (queue_charge (inbounds s g)) s (resetInbound g s)"
    "inbounds (resetInbound g s) = (inbounds s)(g := [inboundReset])"
proof -
  let ?t = "upd_cell g (\<lambda>c. c\<lparr>c_reset := True, c_inbound := [inboundReset]\<rparr>) s"
  have t: "inbounds ?t = (inbounds s)(g := [inboundReset])" by (auto simp: inbounds_def)
  have r: "releases x ?t u \<longleftrightarrow> releases x s u" for x u by (simp add: releases_def)
  have "resetInbound g s = (if queue_charge (inbounds s g) \<noteq> 0 then releaseConnReceive (queue_charge (inbounds s g)) ?t else ?t)"
    by (simp add: resetInbound_def inbounds_def Let_def)
  moreover have "releases (queue_charge (inbounds s g)) ?t (releaseConnReceive (queue_charge (inbounds s g)) ?t)"
    "inbounds (releaseConnReceive (queue_charge (inbounds s g)) ?t) = inbounds ?t"
    using released_releases [OF released_releaseConnReceive] by auto
  moreover have "releases 0 s ?t" using assms by (simp add: releases_def capped_def)
  ultimately show "releases (queue_charge (inbounds s g)) s (resetInbound g s)"
    "inbounds (resetInbound g s) = (inbounds s)(g := [inboundReset])"
    using t by (auto simp: r)
qed

text \<open>
  A reset either does nothing to the receive side or turns the queue of a live generation into
  the reset marker, with the credit of what it held.
\<close>

lemma prepareReset_effect:
  assumes "tables s" "sh_connRecv s \<le> connUnits (sh_config s)"
  shows "rsame s (snd (prepareReset f fl s)) \<or>
    (\<exists>g. g \<le> sh_nextGeneration s \<and> releases (queue_charge (inbounds s g)) s (snd (prepareReset f fl s)) \<and>
         inbounds (snd (prepareReset f fl s)) = (inbounds s)(g := [inboundReset]))"
proof (cases "flow_of s f")
  case None
  then show ?thesis by (auto simp: prepareReset_def rsame_def inbounds_def creset_def fun_eq_iff)
next
  case (Some fs)
  let ?g = "fs_generation fs"
  let ?t = "upd_cell ?g close_cell (del_flow f (s\<lparr>sh_pendingResets := sh_pendingResets s @ [f]\<rparr>))"
  have t: "rsame s ?t" by (simp add: rsame_def inbounds_def creset_def fun_eq_iff)
  then have "releases (queue_charge (inbounds s ?g)) s (resetInbound ?g ?t)"
    "inbounds (resetInbound ?g ?t) = (inbounds s)(?g := [inboundReset])"
    using resetInbound_effect [of ?t ?g] assms(2) by (auto simp: rsame_def releases_def)
  moreover have "?g \<le> sh_nextGeneration s" by (rule tab_lookup(3) [OF assms(1) Some])
  ultimately have "\<exists>g. g \<le> sh_nextGeneration s \<and>
      releases (queue_charge (inbounds s g)) s (notifyControl (notifyActive (resetInbound ?g ?t))) \<and>
      inbounds (notifyControl (notifyActive (resetInbound ?g ?t))) = (inbounds s)(g := [inboundReset])"
    by (intro exI [of _ ?g]) (simp add: releases_def inbounds_def fun_eq_iff)
  then show ?thesis using Some by (simp add: prepareReset_def Let_def)
qed

subsection \<open>The reader\<close>

text \<open>
  The effect of a piece of the reader: it receives the charge \<open>v\<close> and changes what the reader has in
  hand by \<open>d\<close>, whatever else (\<open>K\<close>) is held.
\<close>

definition rgood :: "shared \<Rightarrow> bool" where
  "rgood s \<longleftrightarrow> tables s \<and> queues_ok (sh_nextGeneration s) (inbounds s) \<and> sh_connRecv s \<le> connUnits (sh_config s)"

definition sh_balance :: "shared \<Rightarrow> int \<Rightarrow> int \<Rightarrow> int \<Rightarrow> bool" where
  "sh_balance s K A V \<longleftrightarrow>
     balance (connUnits (sh_config s)) (sh_closed s) (sh_connRecv s) (sh_pendingConn s)
       (held_queues (sh_nextGeneration s) (inbounds s) + K) A V"

definition eff :: "int \<Rightarrow> int \<Rightarrow> shared \<Rightarrow> shared \<Rightarrow> bool" where
  "eff v d s s' \<longleftrightarrow> rgood s' \<and> sh_nextGeneration s \<le> sh_nextGeneration s' \<and> sh_config s' = sh_config s \<and>
     (\<forall>K A V. sh_balance s K A V \<and> 0 \<le> K \<and> 0 \<le> K + d \<longrightarrow> sh_balance s' (K + d) A (V + v))"

lemma eff_comp: "eff v1 d1 s t \<Longrightarrow> eff v2 d2 t u \<Longrightarrow> 0 \<le> d1 \<Longrightarrow> eff (v1 + v2) (d1 + d2) s u"
  unfolding eff_def by (auto simp flip: add.assoc)

lemma eff_next: "eff v d s s' \<Longrightarrow> sh_nextGeneration s \<le> sh_nextGeneration s'"
  by (simp add: eff_def)

lemma eff_good: "eff v d s s' \<Longrightarrow> rgood s'"
  by (simp add: eff_def)

lemma eff_rsame: "rgood s \<Longrightarrow> tables s' \<Longrightarrow> rsame s s' \<Longrightarrow> eff 0 0 s s'"
  by (simp add: eff_def rgood_def rsame_def sh_balance_def)

lemma sh_balance_release:
  assumes r: "releases x s s'" and b: "sh_balance s K A V" and x: "0 \<le> x"
    and le: "x \<le> held_queues (sh_nextGeneration s) (inbounds s) + K"
    and h: "held_queues (sh_nextGeneration s) (inbounds s') + K' = held_queues (sh_nextGeneration s) (inbounds s) + K - x"
  shows "sh_balance s' K' A V"
proof -
  have e: "sh_config s' = sh_config s" "sh_nextGeneration s' = sh_nextGeneration s" "sh_closed s' = sh_closed s"
    "sh_connRecv s' = (if sh_closed s then sh_connRecv s else capped (connUnits (sh_config s)) (sh_connRecv s + x))"
    "sh_pendingConn s' = (if sh_closed s then sh_pendingConn s else sh_pendingConn s + x)"
    using r by (simp_all add: releases_def)
  show ?thesis unfolding sh_balance_def e h by (rule balance_release [OF b [unfolded sh_balance_def] x le])
qed

lemma eff_releases:
  assumes g: "rgood s" and t: "tables s'" and r: "releases x s s'" and q: "inbounds s' = inbounds s" and x: "0 \<le> x"
  shows "eff 0 (- x) s s'"
proof -
  have "sh_balance s' (K - x) A V" if b: "sh_balance s K A V" and K: "0 \<le> K" "0 \<le> K - x" for K A V
    using held_queues_nonneg [of "sh_nextGeneration s" "inbounds s"] g K
    by (intro sh_balance_release [OF r b x]) (auto simp: rgood_def q)
  then show ?thesis using g t q releases_limit [OF r] r by (auto simp: eff_def rgood_def releases_def)
qed

lemma eff_reset:
  assumes g: "rgood s" and f: "valid_id f"
  shows "eff 0 0 s (snd (prepareReset f fl s))"
proof -
  let ?u = "snd (prepareReset f fl s)"
  have t: "tables s" "sh_connRecv s \<le> connUnits (sh_config s)" "queues_ok (sh_nextGeneration s) (inbounds s)"
    using g by (auto simp: rgood_def)
  have tu: "tables ?u" by (rule tables_prepareReset [OF t(1) f])
  from prepareReset_effect [OF t(1,2), of f fl] show ?thesis
  proof (elim disjE exE conjE)
    assume "rsame s ?u"
    with g tu show ?thesis by (rule eff_rsame)
  next
    fix k assume k: "k \<le> sh_nextGeneration s" and r: "releases (queue_charge (inbounds s k)) s ?u"
      and i: "inbounds ?u = (inbounds s)(k := [inboundReset])"
    let ?x = "queue_charge (inbounds s k)"
    have x: "0 \<le> ?x" "?x \<le> held_queues (sh_nextGeneration s) (inbounds s)"
      using t(3) k held_queues_part by (auto simp: queues_ok_def queue_charge_ok)
    have h: "held_queues (sh_nextGeneration s) (inbounds ?u) = held_queues (sh_nextGeneration s) (inbounds s) - ?x"
      unfolding i using held_queues_upd [OF k] by simp
    have "sh_balance ?u K A V" if b: "sh_balance s K A V" and "0 \<le> K" for K A V
      using x h that(2) by (intro sh_balance_release [OF r b x(1)]) auto
    moreover have "queues_ok (sh_nextGeneration ?u) (inbounds ?u)"
      unfolding i using queues_ok_upd [OF t(3) k] r by (simp add: releases_def msg_ok_def)
    ultimately show ?thesis using tu releases_limit [OF r t(2)] r by (auto simp: eff_def rgood_def releases_def)
  qed
qed

lemma insertFlow_effect:
  assumes "insertFlow f a s = (r, s')"
  shows "sh_config s' = sh_config s" "sh_closed s' = sh_closed s" "sh_connRecv s' = sh_connRecv s"
    "sh_pendingConn s' = sh_pendingConn s" "sh_dataTx s' = sh_dataTx s" "sh_connSend s' = sh_connSend s"
    "sh_nextGeneration s' = sh_nextGeneration s \<or> sh_nextGeneration s' = Suc (sh_nextGeneration s)"
    "r = Inr st \<Longrightarrow> st = newStream f (Suc (sh_nextGeneration s)) \<and> sh_nextGeneration s' = Suc (sh_nextGeneration s) \<and>
       sh_cells s' = (sh_cells s)(Suc (sh_nextGeneration s) := fresh_cell) \<and> valid_id f \<and>
       flow_of s' f = Some (fresh_flow (sh_config s) a (Suc (sh_nextGeneration s)))"
    "r = Inl e \<Longrightarrow> sh_cells s' = sh_cells s"
  using assms
  by (auto simp: insertFlow_def Let_def word_gt_0 not_less update_conv' split: if_splits)

lemma insertFlow_inbounds:
  assumes "insertFlow f a s = (r, s')" "queues_ok (sh_nextGeneration s) (inbounds s)"
  shows "inbounds s' = inbounds s"
proof (cases r)
  case (Inr st)
  have "inbounds s (Suc (sh_nextGeneration s)) = []" using assms(2) by (simp add: queues_ok_def)
  then show ?thesis using insertFlow_effect(8) [OF assms(1) Inr]
    by (auto simp: inbounds_def fun_eq_iff fresh_cell_def)
qed (use insertFlow_effect(9) [OF assms(1)] in \<open>auto simp: inbounds_def fun_eq_iff\<close>)

lemma eff_insert:
  assumes g: "rgood s" and i: "insertFlow f a s = (r, s')"
  shows "eff 0 0 s s'"
proof -
  have q: "queues_ok (sh_nextGeneration s) (inbounds s)" using g by (simp add: rgood_def)
  note e = insertFlow_effect [OF i] insertFlow_inbounds [OF i q]
  have t: "tables s'" using tables_insertFlow [of s f a] g i by (simp add: rgood_def)
  have "held_queues (sh_nextGeneration s') (inbounds s) = held_queues (sh_nextGeneration s) (inbounds s)"
    "queues_ok (sh_nextGeneration s') (inbounds s)"
    using e(7) q held_queues_Suc queues_ok_Suc by auto
  with t g e show ?thesis by (auto simp: eff_def rgood_def sh_balance_def)
qed

lemma admitReceive_frame:
  assumes "admitReceive f x s = (r, s')"
  shows "sh_config s' = sh_config s" "sh_nextGeneration s' = sh_nextGeneration s" "sh_closed s' = sh_closed s"
    "inbounds s' = inbounds s" "sh_pendingConn s' = sh_pendingConn s" "sh_connSend s' = sh_connSend s"
    "sh_dataTx s' = sh_dataTx s" "sh_cells s' = sh_cells s"
    "sh_connRecv s' = (if sh_connRecv s < x then sh_connRecv s else sh_connRecv s - x)"
    "r = Inl e \<longleftrightarrow> sh_connRecv s < x \<and> e = errConnWindowExceeded"
  using assms
  by (auto simp: admitReceive_def Let_def inbounds_def fun_eq_iff split: if_splits option.splits)

lemma admitReceive_target:
  assumes "admitReceive f x s = (Inr t, s')" "tables s"
  shows "case t of receiveDeliver g \<Rightarrow> g \<le> sh_nextGeneration s | _ \<Rightarrow> True"
  using assms tab_lookup(3) [OF assms(2), of f]
  by (auto simp: admitReceive_def Let_def split: if_splits option.splits)

lemma eff_admit:
  assumes g: "rgood s" and a: "admitReceive f x s = (r, s')" and x: "0 \<le> x" "x \<le> sh_connRecv s"
  shows "eff x x s s'"
proof -
  note e = admitReceive_frame [OF a]
  have "tables s'" using tables_admitReceive [of s x f] g a x by (simp add: rgood_def)
  moreover have "sh_balance s' (K + x) A (V + x)" if "sh_balance s K A V" for K A V
    using balance_admit [OF that [unfolded sh_balance_def] x] e x by (simp add: sh_balance_def add.assoc)
  ultimately show ?thesis using g e x by (auto simp: eff_def rgood_def)
qed

text \<open>A frame as the reader takes it off the connection.\<close>

definition frame_ok :: "MuxHeader \<Rightarrow> byte list \<Rightarrow> bool" where
  "frame_ok h payload \<longleftrightarrow> MuxHeader_Validate h = None \<and>
     (if mh_Kind h = MuxFrameData then payload \<noteq> [] \<and> length payload = unat (mh_Value h) else payload = [])"

lemma readFrame_ok: "readFrame r = Inr ((h, payload), r') \<Longrightarrow> frame_ok h payload"
proof -
  assume a: "readFrame r = Inr ((h, payload), r')"
  then obtain hb r1 where "ReadFull MuxHeaderLen r = Inr (hb, r1)" and d: "DecodeMuxHeader hb = Inr h"
    by (auto simp: readFrame_def Let_def split: sum.splits prod.splits if_splits)
  then have p: "MuxPayloadLen h > 0 \<Longrightarrow> length payload = MuxPayloadLen h" "MuxPayloadLen h = 0 \<Longrightarrow> payload = []"
    using a by (auto simp: readFrame_def Let_def ReadFull_Inr split: sum.splits prod.splits if_splits)
  have v: "MuxHeader_Validate h = None"
    using DecodeMuxHeader_Inr [OF d] by (auto simp: EncodeMuxHeader_def split: option.splits)
  then have "mh_Kind h = MuxFrameData \<Longrightarrow> mh_Value h \<noteq> 0"
    by (auto simp: MuxHeader_Validate_def mux_kinds split: option.splits if_splits)
  then have "mh_Kind h = MuxFrameData \<Longrightarrow> 0 < unat (mh_Value h)" by (simp add: unat_gt_0)
  then show ?thesis using p v by (auto simp: frame_ok_def MuxPayloadLen_def split: if_splits)
qed

lemma requireMuxFlowID_None: "requireMuxFlowID f = None \<longleftrightarrow> valid_id f"
  by (auto simp: requireMuxFlowID_def word_gt_0 not_less)

lemma frame_ok_id: "frame_ok h p \<Longrightarrow> mh_Kind h \<noteq> MuxFrameWindow \<or> mh_FlowID h \<noteq> 0 \<Longrightarrow> valid_id (mh_FlowID h)"
  unfolding frame_ok_def requireMuxFlowID_None [symmetric]
  by (auto simp: MuxHeader_Validate_def split: if_splits option.splits)

definition after_charge :: "after \<Rightarrow> int" where
  "after_charge a = (case a of Deliver g m \<Rightarrow> charge_of m | _ \<Rightarrow> 0)"

definition after_ok :: "nat \<Rightarrow> after \<Rightarrow> bool" where
  "after_ok next a = (case a of Deliver g m \<Rightarrow> g \<le> next \<and> msg_ok m | _ \<Rightarrow> True)"

lemma after_simps [simp]:
  "after_charge Done = 0" "after_charge (Fatal e) = 0" "after_charge (Deliver g m) = charge_of m"
  "after_ok n Done" "after_ok n (Fatal e)" "after_ok n (Deliver g m) = (g \<le> n \<and> msg_ok m)"
  by (simp_all add: after_charge_def after_ok_def)

definition handled :: "int \<Rightarrow> shared \<Rightarrow> after \<Rightarrow> shared \<Rightarrow> bool" where
  "handled v s a s' \<longleftrightarrow> eff v (after_charge a) s s' \<and> after_ok (sh_nextGeneration s') a"

lemma handled_rsame: "rgood s \<Longrightarrow> tables s' \<Longrightarrow> rsame s s' \<Longrightarrow> a = Done \<or> a = Fatal e \<Longrightarrow> handled 0 s a s'"
  by (auto simp: handled_def eff_rsame)

lemma handled_reset_flow:
  assumes "rgood s" "valid_id f" "reset_flow f fl s = (a, s')"
  shows "handled 0 s a s'"
  using eff_reset [OF assms(1,2), of fl] assms(3)
  by (auto simp: reset_flow_def handled_def split: prod.splits sum.splits)

lemma handled_comp: "eff v d s t \<Longrightarrow> 0 \<le> d \<Longrightarrow> handled w t a u \<Longrightarrow> after_charge a = 0 \<Longrightarrow> d = 0 \<Longrightarrow> handled (v + w) s a u"
  using eff_comp [of v d s t w "after_charge a" u] by (simp add: handled_def)

lemma reset_flow_charge: "reset_flow f fl s = (a, s') \<Longrightarrow> after_charge a = 0"
  by (auto simp: reset_flow_def split: prod.splits sum.splits)

lemma offer_effect: "offer b st s = (a, s') \<Longrightarrow> (a = Done \<or> (\<exists>e. a = Fatal e)) \<and> rsame s s' \<and> (tables s \<longrightarrow> tables s')"
  by (auto simp: offer_def offerIncoming_def rsame_def inbounds_def creset_def fun_eq_iff split: if_splits prod.splits option.splits)

lemma rsame_sendCredit: "rsame s (upd_cell g (\<lambda>c. c\<lparr>c_sendCredit := h c\<rparr>) s)"
  by (simp add: rsame_def inbounds_def creset_def fun_eq_iff)

lemma handled_receiveOpen:
  assumes g: "rgood s" and ok: "frame_ok h p" "mh_Kind h = MuxFrameOpen" and r: "receiveOpen b h s = (a, st, s')"
  shows "handled 0 s a s'"
    "st = Some x \<Longrightarrow> x = newStream (mh_FlowID h) (Suc (sh_nextGeneration s)) \<and> Suc (sh_nextGeneration s) \<le> sh_nextGeneration s'"
proof -
  let ?f = "mh_FlowID h"
  have f: "valid_id ?f" using frame_ok_id [OF ok(1)] ok(2) by (simp add: mux_kinds)
  obtain ir t where i: "insertFlow ?f True s = (ir, t)" by (cases "insertFlow ?f True s")
  have et: "eff 0 0 s t" by (rule eff_insert [OF g i])
  have gt: "rgood t" by (rule eff_good [OF et])
  have tt: "tables t" using gt by (simp add: rgood_def)
  have off: "handled 0 s a u" if "offer b y t' = (a, u)" "rsame t t'" "tables t'" for y t' u a
  proof -
    have "rsame t u" "tables u" "a = Done \<or> (\<exists>e. a = Fatal e)" using offer_effect [OF that(1)] that rsame_trans by auto
    then show ?thesis using handled_comp [OF et _ _ _ refl, of 0 a u] handled_rsame [OF gt] by auto
  qed
  have res: "handled 0 s a u" if "reset_flow ?f fl t = (a, u)" for fl a u
    using handled_comp [OF et _ handled_reset_flow [OF gt f that] reset_flow_charge [OF that] refl] by simp
  show "handled 0 s a s'"
  proof (cases ir)
    case (Inl e)
    then show ?thesis using r i et by (auto simp: receiveOpen_def handled_def)
  next
    case (Inr y)
    have fl: "flow_of t ?f = Some (fresh_flow (sh_config s) True (Suc (sh_nextGeneration s)))"
      using insertFlow_effect(8) [OF i Inr] by simp
    show ?thesis
    proof (cases "int (unat (mh_Value h)) = 0")
      case True
      then show ?thesis using r i Inr off [of y t, OF _ rsame_refl tt] by (auto simp: receiveOpen_def Let_def split: prod.splits)
    next
      case False
      then show ?thesis using r i Inr fl off [of y, OF _ rsame_sendCredit] tt res
        by (auto simp: receiveOpen_def Let_def split: prod.splits if_splits)
    qed
  qed
  show "x = newStream ?f (Suc (sh_nextGeneration s)) \<and> Suc (sh_nextGeneration s) \<le> sh_nextGeneration s'" if st: "st = Some x"
  proof -
    obtain y where y: "ir = Inr y" "x = y" using r i st
      by (cases ir) (auto simp: receiveOpen_def Let_def split: prod.splits if_splits option.splits)
    note n = insertFlow_effect(8) [OF i y(1)]
    have "sh_nextGeneration t \<le> sh_nextGeneration s'"
    proof -
      have "sh_nextGeneration t \<le> sh_nextGeneration u" if "offer b y t' = (a', u)" "rsame t t'" for t' u a'
        using offer_effect [OF that(1)] that(2) by (auto simp: rsame_def)
      moreover have "sh_nextGeneration t \<le> sh_nextGeneration u" if "reset_flow ?f fl t = (a', u)" for fl u a'
        using handled_reset_flow [OF gt f that] by (auto simp: handled_def eff_def)
      ultimately show ?thesis using r i y(1) n rsame_sendCredit
        by (fastforce simp: receiveOpen_def Let_def split: prod.splits if_splits)
    qed
    then show ?thesis using n y by simp
  qed
qed

lemma handled_receiveData:
  assumes g: "rgood s" and ok: "frame_ok h p" "mh_Kind h = MuxFrameData" and r: "receiveData h p s = (a, s')"
  shows "handled (data_charge h p s) s a s'"
proof -
  let ?f = "mh_FlowID h" and ?x = "frameCharge (int (length p))"
  have f: "valid_id ?f" using frame_ok_id [OF ok(1)] ok(2) by (simp add: mux_kinds)
  obtain ar t where adm: "admitReceive ?f ?x s = (ar, t)" by (cases "admitReceive ?f ?x s")
  show ?thesis
  proof (cases "sh_connRecv s < ?x")
    case True
    then show ?thesis using r adm g
      by (auto simp: receiveData_def admitReceive_def Let_def data_charge_def intro!: handled_rsame [of _ _ _ errConnWindowExceeded]
          simp: rgood_def)
  next
    case False
    then obtain tgt where tgt: "ar = Inr tgt" using admitReceive_frame(10) [OF adm] by (cases ar) auto
    have v: "data_charge h p s = ?x" using False ok(2) by (simp add: data_charge_def)
    have et: "eff ?x ?x s t" using eff_admit [OF g adm] False by simp
    have gt: "rgood t" by (rule eff_good [OF et])
    have tt: "tables t" using gt by (simp add: rgood_def)
    have rel: "eff ?x 0 s u" if "released ?x t u" "tables u" for u
    proof -
      have "eff 0 (- ?x) t u" using released_releases [OF that(1)] by (intro eff_releases [OF gt that(2)]) auto
      from eff_comp [OF et this] show ?thesis by simp
    qed
    show ?thesis
    proof (cases tgt)
      case (receiveDeliver k)
      have "k \<le> sh_nextGeneration t"
        using admitReceive_target [OF adm [unfolded tgt]] receiveDeliver g admitReceive_frame(2) [OF adm] by (simp add: rgood_def)
      then show ?thesis using r adm tgt receiveDeliver et ok
        by (auto simp: receiveData_def v handled_def msg_ok_def frame_ok_def)
    next
      case receiveDiscard
      then show ?thesis using r adm tgt rel [OF released_releaseConnReceive tables_releaseConnReceive [OF tt]]
        by (auto simp: receiveData_def v handled_def)
    next
      case (receiveAbandoned k)
      then show ?thesis using r adm tgt rel [OF released_releaseReceive tables_releaseReceive [OF tt]]
        by (auto simp: receiveData_def v handled_def)
    next
      case (receiveReset fl)
      let ?u = "releaseConnReceive ?x t"
      have eu: "eff ?x 0 s ?u" by (rule rel [OF released_releaseConnReceive tables_releaseConnReceive [OF tt]])
      have "reset_flow ?f fl ?u = (a, s')" using r adm tgt receiveReset by (simp add: receiveData_def)
      then show ?thesis
        using handled_comp [OF eu _ handled_reset_flow [OF eff_good [OF eu] f], of fl a s'] reset_flow_charge by (auto simp: v)
    qed
  qed
qed

lemma handled_receiveClose:
  assumes g: "rgood s" and r: "receiveClose h s = (a, s')"
  shows "handled 0 s a s'"
proof (cases "mh_Kind h = MuxFrameReset")
  case True
  let ?t = "snd (removeFlow (mh_FlowID h) s)"
  have q: "queues_ok (sh_nextGeneration s) (inbounds s)" "tables s" "sh_connRecv s \<le> connUnits (sh_config s)"
    using g by (auto simp: rgood_def)
  have t: "rsame s ?t" "tables ?t"
    using quiet_rsame [OF quiet_removeFlow] tables_removeFlow q(2) by auto
  show ?thesis
  proof (cases "flow_of s (mh_FlowID h)")
    case None
    then show ?thesis using r True t handled_rsame [OF g] by (auto simp: receiveClose_def removeFlow_def)
  next
    case (Some fs)
    let ?k = "fs_generation fs" and ?u = "resetInbound (fs_generation fs) ?t"
    have k: "?k \<le> sh_nextGeneration s" by (rule tab_lookup(3) [OF q(2) Some])
    have s': "a = Done" "s' = ?u" using r True Some by (auto simp: receiveClose_def removeFlow_def)
    have R: "sh_connRecv ?t \<le> connUnits (sh_config ?t)" using t(1) q(3) by (simp add: rsame_def)
    have u: "releases (queue_charge (inbounds s ?k)) s ?u" "inbounds ?u = (inbounds s)(?k := [inboundReset])" "tables ?u"
      using resetInbound_effect [OF R, of ?k] t tables_resetInbound rsame_releases [OF t(1)] by (auto simp: rsame_def)
    have x: "0 \<le> queue_charge (inbounds s ?k)" "queue_charge (inbounds s ?k) \<le> held_queues (sh_nextGeneration s) (inbounds s)"
      using q(1) k held_queues_part by (auto simp: queues_ok_def queue_charge_ok)
    have "sh_balance ?u K A V" if "sh_balance s K A V" "0 \<le> K" for K A V
      using x that held_queues_upd [OF k] u(2) by (intro sh_balance_release [OF u(1) that(1) x(1)]) auto
    moreover have "queues_ok (sh_nextGeneration ?u) (inbounds ?u)"
      unfolding u(2) using queues_ok_upd [OF q(1) k] u(1) by (simp add: releases_def msg_ok_def)
    ultimately have "eff 0 0 s ?u" using u releases_limit [OF u(1) q(3)] by (auto simp: eff_def rgood_def releases_def)
    then show ?thesis using s' by (simp add: handled_def)
  qed
next
  case False
  have t: "tables s" using g by (simp add: rgood_def)
  show ?thesis
  proof (cases "flow_of s (mh_FlowID h)")
    case None
    then show ?thesis using r False t
      by (auto simp: receiveClose_def intro!: handled_rsame [OF g] quiet_rsame)
  next
    case (Some fs)
    have "tables (put_flow (mh_FlowID h) (fs\<lparr>fs_remoteFin := True\<rparr>) s)"
      using flow_ok_of [OF t Some] by (intro tables_put [OF t Some]) (auto simp: flow_ok_def)
    then show ?thesis using r False t Some tab_lookup(3) [OF t Some]
      by (auto simp: receiveClose_def handled_def msg_ok_def tab_delete split: if_splits
          intro!: eff_rsame [OF g] quiet_rsame)
  qed
qed

lemma handled_receiveWindow:
  assumes g: "rgood s" and ok: "frame_ok h p" and r: "receiveWindow h s = (a, s')"
  shows "handled 0 s a s'"
proof (cases "mh_FlowID h = 0")
  case True
  then have "a = Done \<or> a = Fatal errWindowOverflow" "rsame s s'" "tables s \<longrightarrow> tables s'"
    using r by (auto simp: receiveWindow_def Let_def rsame_def inbounds_def creset_def fun_eq_iff split: if_splits)
  then show ?thesis using handled_rsame [OF g] g by (auto simp: rgood_def)
next
  case False
  have f: "valid_id (mh_FlowID h)" using frame_ok_id [OF ok] False by simp
  have t: "tables s" using g by (simp add: rgood_def)
  then show ?thesis using r False handled_reset_flow [OF g f] handled_rsame [OF g _ rsame_sendCredit] handled_rsame [OF g t rsame_refl]
    by (auto simp: receiveWindow_def Let_def split: if_splits option.splits)
qed

lemma dispatch_effect:
  assumes g: "rgood s" and ok: "frame_ok h p" and r: "dispatch b h p s = (a, st, s')"
  shows "handled (data_charge h p s) s a s'"
    "st = Some x \<Longrightarrow> x = newStream (mh_FlowID h) (Suc (sh_nextGeneration s)) \<and> Suc (sh_nextGeneration s) \<le> sh_nextGeneration s'"
proof -
  have v: "mh_Kind h \<noteq> MuxFrameData \<Longrightarrow> data_charge h p s = 0" by (simp add: data_charge_def)
  have t: "tables s" using g by (simp add: rgood_def)
  show "handled (data_charge h p s) s a s'"
  proof (cases "mh_Kind h = MuxFrameOpen \<or> mh_Kind h = MuxFrameData")
    case True
    then show ?thesis
      using r v handled_receiveOpen(1) [OF g ok] handled_receiveData [OF g ok]
      by (auto simp: dispatch_def mux_kinds split: if_splits prod.splits)
  next
    case False
    then show ?thesis
      using r v handled_receiveWindow [OF g ok] handled_receiveClose [OF g] handled_rsame [OF g t rsame_refl]
      by (auto simp: dispatch_def split: if_splits prod.splits)
  qed
  show "x = newStream (mh_FlowID h) (Suc (sh_nextGeneration s)) \<and> Suc (sh_nextGeneration s) \<le> sh_nextGeneration s'" if "st = Some x"
    using r that handled_receiveOpen(2) [OF g ok, of b a st s' x] by (auto simp: dispatch_def split: if_splits prod.splits)
qed

end
