(* ===== verification/Mux_Balance.thy ===== *)
theory Mux_Balance
  imports Mux_Receive
begin

section \<open>The stream multiplexer: the receive balance of a carrier\<close>

text \<open>Every step of a carrier keeps the balance of \<open>Mux_Receive\<close>.\<close>

abbreviation streams_ok :: "nat \<Rightarrow> (nat \<Rightarrow> Stream option) \<Rightarrow> bool" where
  "streams_ok n sts \<equiv> \<forall>g st. sts g = Some st \<longrightarrow> stream_ok n g st"

lemma recv_inv_iff:
  "recv_inv c \<longleftrightarrow> rgood (cr_sh c) \<and> reader_ok (sh_nextGeneration (cr_sh c)) (cr_reader c) \<and>
     streams_ok (sh_nextGeneration (cr_sh c)) (cr_streams c) \<and>
     sh_balance (cr_sh c) (held_streams (sh_nextGeneration (cr_sh c)) (cr_streams c) + reader_charge (cr_reader c))
       (cr_adv c) (cr_recvd c)"
  by (auto simp: recv_inv_def shape_def rgood_def recv_balance_def sh_balance_def held_def balance_def add.assoc)

lemma recv_tables: "recv_inv c \<Longrightarrow> tables (cr_sh c)"
  by (simp add: recv_inv_iff rgood_def)

lemma streams_ok_mono: "streams_ok n sts \<Longrightarrow> n \<le> n' \<Longrightarrow> streams_ok n' sts"
  by (fastforce simp: stream_ok_def)

lemma held_streams_mono:
  assumes "streams_ok n sts" "n \<le> n'"
  shows "held_streams n' sts = held_streams n sts"
proof -
  have "current_charge (sts g) = 0" if "g \<in> {..n'} - {..n}" for g
    using assms(1) that by (cases "sts g") (force simp: current_charge_def stream_ok_def)+
  then show ?thesis unfolding held_streams_def using assms(2) by (intro sum.mono_neutral_right) auto
qed

definition skey :: "Stream \<Rightarrow> nat \<times> byte list \<times> int \<times> nat \<times> bool" where
  "skey st = (st_generation st, st_current st, st_currentCharge st, st_currentOff st, st_readerClosed st)"

text \<open>Steps that leave the receive side alone.\<close>

lemma recv_keep:
  assumes i: "recv_inv c" and s: "rsame (cr_sh c) (cr_sh c')" "tables (cr_sh c')"
    and r: "cr_reader c' = cr_reader c" "cr_adv c' = cr_adv c" "cr_recvd c' = cr_recvd c"
    and k: "\<And>g. map_option skey (cr_streams c' g) = map_option skey (cr_streams c g)"
  shows "recv_inv c'"
proof -
  have cc: "current_charge (cr_streams c' g) = current_charge (cr_streams c g)" for g
    using k [of g] by (cases "cr_streams c g"; cases "cr_streams c' g") (auto simp: current_charge_def skey_def)
  have "streams_ok n (cr_streams c')" if "streams_ok n (cr_streams c)" for n
  proof (intro allI impI)
    fix g st assume st: "cr_streams c' g = Some st"
    then obtain st0 where "cr_streams c g = Some st0" "skey st0 = skey st"
      using k [of g] by (cases "cr_streams c g") auto
    then have "stream_ok n g st0" "skey st0 = skey st" using that by auto
    then show "stream_ok n g st" by (auto simp: stream_ok_def skey_def)
  qed
  moreover have "held_streams n (cr_streams c') = held_streams n (cr_streams c)" for n
    by (simp add: held_streams_def cc)
  ultimately show ?thesis using i s r
    by (auto simp: recv_inv_iff rgood_def rsame_def sh_balance_def)
qed

lemma recv_close:
  assumes "recv_inv c" "cr_sh c' = closeWithReason r (cr_sh c)" "cr_reader c' = cr_reader c"
    "cr_adv c' = cr_adv c" "cr_recvd c' = cr_recvd c" "cr_streams c' = cr_streams c"
  shows "recv_inv c'"
proof -
  let ?s = "cr_sh c" and ?t = "closeWithReason r (cr_sh c)"
  have e: "sh_config ?t = sh_config ?s" "sh_nextGeneration ?t = sh_nextGeneration ?s" "sh_closed ?t"
    "sh_connRecv ?t = sh_connRecv ?s" "sh_pendingConn ?t = sh_pendingConn ?s"
    by (simp_all add: closeWithReason_def Let_def)
  have q: "inbounds ?t = inbounds ?s" by (auto simp: closeWithReason_def Let_def inbounds_def)
  have "tables ?s" using assms(1) by (simp add: recv_inv_iff rgood_def)
  then have "tables ?t" by (rule tables_closeWithReason)
  then show ?thesis using assms e q balance_closed
    by (fastforce simp: recv_inv_iff rgood_def sh_balance_def)
qed

text \<open>A step on one stream that turns what it holds and queues into released credit.\<close>

lemma recv_stream:
  assumes i: "recv_inv c" and st: "cr_streams c g = Some st"
    and t: "tables s'" and rel: "releases x (cr_sh c) s'" and x: "0 \<le> x"
    and q: "inbounds s' = (inbounds (cr_sh c))(g := ms)" "list_all msg_ok ms"
    and ok: "stream_ok (sh_nextGeneration (cr_sh c)) g st'"
    and e: "queue_charge (inbounds (cr_sh c) g) + st_currentCharge st = queue_charge ms + st_currentCharge st' + x"
  shows "recv_inv (c\<lparr>cr_sh := s', cr_streams := (cr_streams c)(g \<mapsto> st')\<rparr>)"
proof -
  let ?s = "cr_sh c" and ?n = "sh_nextGeneration (cr_sh c)"
  from i have g: "rgood ?s" and so: "streams_ok ?n (cr_streams c)"
    and ro: "reader_ok ?n (cr_reader c)"
    and b: "sh_balance ?s (held_streams ?n (cr_streams c) + reader_charge (cr_reader c)) (cr_adv c) (cr_recvd c)"
    by (auto simp: recv_inv_iff)
  have gn: "g \<le> ?n" using so st by (auto simp: stream_ok_def)
  have n: "sh_nextGeneration s' = ?n" using rel by (simp add: releases_def)
  have qo: "queues_ok ?n (inbounds ?s)" using g by (simp add: rgood_def)
  have hs: "held_streams ?n ((cr_streams c)(g \<mapsto> st')) = held_streams ?n (cr_streams c) - st_currentCharge st + st_currentCharge st'"
    using held_streams_upd [OF gn, of "cr_streams c" "Some st'"] st by (simp add: current_charge_def)
  have hq: "held_queues ?n (inbounds s') = held_queues ?n (inbounds ?s) - queue_charge (inbounds ?s g) + queue_charge ms"
    unfolding q(1) by (rule held_queues_upd [OF gn])
  have part: "queue_charge (inbounds ?s g) \<le> held_queues ?n (inbounds ?s)"
    "st_currentCharge st \<le> held_streams ?n (cr_streams c)"
    using held_queues_part [OF qo gn] held_streams_part [of "cr_streams c" ?n g] so gn st by (auto simp: current_charge_def)
  have nn: "0 \<le> queue_charge ms" "0 \<le> st_currentCharge st'" "0 \<le> reader_charge (cr_reader c)"
    using q(2) queue_charge_ok ok reader_charge_ok [OF ro] by (auto simp: stream_ok_def)
  have "sh_balance s' (held_streams ?n ((cr_streams c)(g \<mapsto> st')) + reader_charge (cr_reader c)) (cr_adv c) (cr_recvd c)"
    using e part nn by (intro sh_balance_release [OF rel b x]) (auto simp: hs hq)
  moreover have "rgood s'"
    using t n rel releases_limit [OF rel] g queues_ok_upd [OF qo gn q(2)] q(1) by (auto simp: rgood_def)
  ultimately show ?thesis using ro so ok n by (auto simp: recv_inv_iff)
qed

text \<open>The same when the step only changes the queue and the current message of the stream.\<close>

lemma recv_stream_move:
  assumes i: "recv_inv c" and st: "cr_streams c g = Some st"
    and t: "tables s'" and s: "sh_config s' = sh_config (cr_sh c)" "sh_nextGeneration s' = sh_nextGeneration (cr_sh c)"
      "sh_closed s' = sh_closed (cr_sh c)" "sh_connRecv s' = sh_connRecv (cr_sh c)" "sh_pendingConn s' = sh_pendingConn (cr_sh c)"
    and q: "inbounds s' = (inbounds (cr_sh c))(g := ms)" "list_all msg_ok ms"
    and ok: "stream_ok (sh_nextGeneration (cr_sh c)) g st'"
    and e: "queue_charge (inbounds (cr_sh c) g) + st_currentCharge st = queue_charge ms + st_currentCharge st'"
  shows "recv_inv (c\<lparr>cr_sh := s', cr_streams := (cr_streams c)(g \<mapsto> st')\<rparr>)"
proof -
  have "sh_connRecv (cr_sh c) \<le> connUnits (sh_config (cr_sh c))" using i by (simp add: recv_inv_iff rgood_def)
  then have "releases 0 (cr_sh c) s'" using s by (auto simp: releases_def capped_def)
  from recv_stream [OF i st t this _ q ok] e show ?thesis by simp
qed

subsection \<open>Streams\<close>

text \<open>Releasing the current message and draining the queue gives back all the stream holds.\<close>

lemma release_all:
  assumes s: "tables s" "sh_connRecv s \<le> connUnits (sh_config s)" "list_all msg_ok (inbounds s (st_generation st))"
    and st: "0 \<le> st_currentCharge st" "st_current st = [] \<longrightarrow> st_currentCharge st = 0"
    and st1: "st_generation st1 = st_generation st"
    and u: "u = drain_inbound st1 (if st_current st \<noteq> [] then releaseCurrent st s else s)"
  shows "releases (queue_charge (inbounds s (st_generation st)) + st_currentCharge st) s u"
    "inbounds u = (inbounds s)(st_generation st := [])" "tables u"
proof -
  let ?t = "if st_current st \<noteq> [] then releaseCurrent st s else s"
  have t: "releases (st_currentCharge st) s ?t" "inbounds ?t = inbounds s" "tables ?t"
    using released_releases [OF released_releaseReceive] tables_releaseReceive [OF s(1) st(1)] s st(2)
    by (auto simp: releaseCurrent_def releases_0)
  have d: "releases (queue_charge (inbounds ?t (st_generation st1))) ?t u"
    "inbounds u = (inbounds ?t)(st_generation st1 := [])" "tables u"
    unfolding u using drain_inbound_effect [of ?t st1] s(3) t(2,3) releases_limit [OF t(1) s(2)] st1 by auto
  have "releases (st_currentCharge st + queue_charge (inbounds ?t (st_generation st1))) s u"
    using s(3) t(2) st1 by (intro releases_add [OF t(1) d(1)]) (simp add: queue_charge_ok)
  then show "releases (queue_charge (inbounds s (st_generation st)) + st_currentCharge st) s u"
    unfolding t(2) st1 by (simp add: add.commute)
  show "inbounds u = (inbounds s)(st_generation st := [])" "tables u" using d t(2) st1 by auto
qed

lemma recv_streamD:
  assumes "recv_inv c" "cr_streams c g = Some st"
  shows "tables (cr_sh c)" "sh_connRecv (cr_sh c) \<le> connUnits (sh_config (cr_sh c))"
    "list_all msg_ok (inbounds (cr_sh c) g)" "st_generation st = g" "0 \<le> st_currentCharge st"
    "st_current st = [] \<longrightarrow> st_currentCharge st = 0" "stream_ok (sh_nextGeneration (cr_sh c)) g st"
proof -
  have ok: "stream_ok (sh_nextGeneration (cr_sh c)) g st" using assms by (simp add: recv_inv_iff)
  then show "st_generation st = g" "0 \<le> st_currentCharge st" "st_current st = [] \<longrightarrow> st_currentCharge st = 0"
    "stream_ok (sh_nextGeneration (cr_sh c)) g st" by (auto simp: stream_ok_def)
  show "tables (cr_sh c)" "sh_connRecv (cr_sh c) \<le> connUnits (sh_config (cr_sh c))"
    "list_all msg_ok (inbounds (cr_sh c) g)" using assms(1) by (auto simp: recv_inv_iff rgood_def queues_ok_def)
qed

lemma recv_read_round:
  assumes i: "recv_inv c" and st: "cr_streams c g = Some st"
    and r: "read_round k now pick st (cr_sh c) = (res, st', s')"
  shows "recv_inv (c\<lparr>cr_sh := s', cr_streams := (cr_streams c)(g \<mapsto> st')\<rparr>)"
proof -
  let ?s = "cr_sh c" and ?n = "sh_nextGeneration (cr_sh c)"
  note d = recv_streamD [OF i st]
  have same: "recv_inv (c\<lparr>cr_sh := ?s, cr_streams := (cr_streams c)(g \<mapsto> st)\<rparr>)"
    using st i by (intro recv_keep [OF i]) (auto simp: d)
  show ?thesis
  proof (cases "c_reset (sh_cells ?s (st_generation st))")
    case True
    define u where "u = drain_inbound (st\<lparr>st_current := [], st_currentCharge := 0, st_currentOff := 0\<rparr>)
        (if st_current st \<noteq> [] then releaseCurrent st ?s else ?s)"
    define u' where "u' = drain_inbound st (if st_current st \<noteq> [] then releaseCurrent st ?s else ?s)"
    have e: "s' = (if st_current st \<noteq> [] then u else u')" "st_generation st' = g" "st_currentCharge st' = 0" "st_current st' = []"
      using r True d(4,6) by (auto simp: read_round_def discardBuffered_def u_def u'_def Let_def split: if_splits)
    have a: "releases (queue_charge (inbounds ?s g) + st_currentCharge st) ?s s'" "inbounds s' = (inbounds ?s)(g := [])" "tables s'"
      using release_all [OF d(1,2) _ d(5,6) _ u_def] release_all [OF d(1,2) _ d(5,6) _ u'_def] d(3,4) e(1) by auto
    show ?thesis using e d(5,7) queue_charge_ok [OF d(3)]
      by (intro recv_stream [OF i st a(3,1) _ a(2)]) (auto simp: stream_ok_def)
  next
    case nr: False
    show ?thesis
    proof (cases "length (st_current st) > st_currentOff st")
      case True
      let ?out = "take k (drop (st_currentOff st) (st_current st))"
      show ?thesis
      proof (cases "st_currentOff st + length ?out = length (st_current st)")
        case fin: True
        have e: "s' = releaseCurrent st ?s" "st' = st\<lparr>st_current := [], st_currentCharge := 0, st_currentOff := 0\<rparr>"
          using r nr True unfolding read_round_def read_current_def Let_def if_P [OF fin] by simp_all
        have a: "releases (st_currentCharge st) ?s s'" "inbounds s' = (inbounds ?s)(g := inbounds ?s g)" "tables s'"
          using released_releases [OF released_releaseReceive] tables_releaseReceive [OF d(1,5)] by (auto simp: e(1) releaseCurrent_def)
        show ?thesis using e(2) d by (intro recv_stream [OF i st a(3,1) _ a(2)]) (auto simp: stream_ok_def)
      next
        case False
        have rc: "read_current k st ?s = (res, st', s')" using r nr True by (simp add: read_round_def)
        have e': "s' = ?s" "st' = st\<lparr>st_currentOff := st_currentOff st + length ?out\<rparr>"
          using rc unfolding read_current_def Let_def if_not_P [OF False] by simp_all
        have "length ?out \<le> length (st_current st) - st_currentOff st" by simp
        then have "st_currentOff st + length ?out < length (st_current st)" using False True by linarith
        then have e: "s' = ?s" "stream_ok ?n g st'" "st_currentCharge st' = st_currentCharge st"
          using e' d(7) by (auto simp: stream_ok_def)
        show ?thesis using e d by (intro recv_stream_move [OF i st, where ms = "inbounds ?s g"]) auto
      qed
    next
      case nc: False
      show ?thesis
      proof (cases "st_eof st \<or> st_readerClosed st \<or> pick \<noteq> WaitInbound \<or> c_inbound (sh_cells ?s (st_generation st)) = []")
        case True
        then have "s' = ?s" "st' = st" using r nr nc
          by (auto simp: read_round_def waitInbound_def split: if_splits wait_pick.splits list.splits)
        with same show ?thesis by simp
      next
        case w: False
        then obtain m ms where q: "inbounds ?s g = m # ms" using d(4) by (cases "inbounds ?s g") (auto simp: inbounds_def)
        let ?t = "upd_cell g (\<lambda>x. x\<lparr>c_inbound := ms\<rparr>) ?s"
        have rm: "read_message m st ?t = (res, st', s')"
          using r nr nc w q d(4) by (auto simp: read_round_def waitInbound_def inbounds_def split: wait_pick.splits)
        have it: "inbounds ?t = (inbounds ?s)(g := ms)" by (auto simp: inbounds_def)
        have m: "msg_ok m" "list_all msg_ok ms" using d(3) q by auto
        have cur: "st_current st = []" "st_currentCharge st = 0" using nc d(7) by (auto simp: stream_ok_def split: if_splits)
        have "s' = ?t" "stream_ok ?n g st'" "st_currentCharge st' = st_currentCharge st + charge_of m"
          using rm w cur m(1) d(7) frameCharge_nonneg
          by (auto simp: read_message_def msg_ok_def stream_ok_def split: inbound.splits)
        then show ?thesis using d(1) m(2) q it by (intro recv_stream_move [OF i st]) auto
      qed
    qed
  qed
qed

lemma recv_closeReader:
  assumes i: "recv_inv c" and st: "cr_streams c g = Some st" and r: "closeReader st (cr_sh c) = (st', s')"
  shows "recv_inv (c\<lparr>cr_sh := s', cr_streams := (cr_streams c)(g \<mapsto> st')\<rparr>)"
proof (cases "st_readerClosed st")
  case True
  then have "s' = cr_sh c" "st' = st" using r by (auto simp: closeReader_def)
  then show ?thesis using st recv_streamD(1) [OF i st] by (intro recv_keep [OF i]) auto
next
  case False
  note d = recv_streamD [OF i st]
  let ?s = "cr_sh c" and ?m = "markReaderClosed (st_flowID st) (cr_sh c)"
  let ?st = "st\<lparr>st_readerClosed := True, st_readWait := Suc (st_readWait st)\<rparr>"
  let ?st1 = "if st_current st \<noteq> [] then ?st\<lparr>st_current := [], st_currentCharge := 0\<rparr> else ?st"
  define u where "u = drain_inbound ?st1 (if st_current ?st \<noteq> [] then releaseCurrent ?st ?m else ?m)"
  have e: "s' = releasePart (st_flowID st) (st_generation st) u" "st' = ?st1"
    using r False by (auto simp: closeReader_def u_def Let_def split: if_splits)
  have m: "rsame ?s ?m" "tables ?m"
    using quiet_rsame [OF quiet_markReaderClosed] tables_markReaderClosed [OF d(1)] by auto
  have ra: "releases (queue_charge (inbounds ?m g) + st_currentCharge st) ?m u" "inbounds u = (inbounds ?m)(g := [])" "tables u"
    using release_all [OF m(2) _ _ _ _ _ u_def] m(1) d(2-6) by (auto simp: rsame_def)
  have p: "rsame u s'" "tables s'" unfolding e(1)
    using quiet_rsame [OF quiet_releasePart] tables_releasePart [OF ra(3)] by auto
  have a: "releases (queue_charge (inbounds ?s g) + st_currentCharge st) ?s s'" "inbounds s' = (inbounds ?s)(g := [])"
    using releases_rsame [OF rsame_releases [OF m(1) ra(1)] p(1)] ra(2) m(1) p(1) by (auto simp: rsame_def)
  have "stream_ok (sh_nextGeneration ?s) g st'" "st_currentCharge st' = 0" using e(2) d(6,7) by (auto simp: stream_ok_def)
  then show ?thesis using queue_charge_ok [OF d(3)] d(5) by (intro recv_stream [OF i st p(2) a(1) _ a(2)]) auto
qed

subsection \<open>The steps\<close>

lemma recv_on_stream:
  assumes "recv_inv c"
    and "\<And>st st' s'. cr_streams c g = Some st \<Longrightarrow> f st (cr_sh c) = (st', s') \<Longrightarrow>
           recv_inv (c\<lparr>cr_sh := s', cr_streams := (cr_streams c)(g \<mapsto> st')\<rparr>)"
  shows "recv_inv (on_stream g f c)"
  using assms by (auto simp: on_stream_def split: option.splits prod.splits)

lemma recv_StreamRead: "recv_inv c \<Longrightarrow> recv_inv (step_StreamRead g k now pick c)"
  unfolding step_StreamRead_def
  by (rule recv_on_stream) (auto intro!: recv_read_round simp: prod_eq_iff)

lemma recv_StreamCloseRead: "recv_inv c \<Longrightarrow> recv_inv (step_StreamCloseRead g c)"
  unfolding step_StreamCloseRead_def by (rule recv_on_stream) (auto intro: recv_closeReader)

lemma recv_StreamDeadline:
  assumes i: "recv_inv c"
  shows "recv_inv (step_StreamDeadline g rd wr c)"
  unfolding step_StreamDeadline_def
  by (rule recv_on_stream [OF i], rule recv_keep [OF i])
    (auto simp: SetWriteDeadline_def SetReadDeadline_def skey_def recv_tables [OF i])

lemma recv_Prepare:
  assumes i: "recv_inv c"
  shows "recv_inv (step_Prepare f c)"
proof -
  let ?s = "cr_sh c" and ?n = "sh_nextGeneration (cr_sh c)"
  obtain r s' where ins: "insertFlow f False ?s = (r, s')" by (cases "insertFlow f False ?s")
  have g: "rgood ?s" and so: "streams_ok ?n (cr_streams c)" using i by (auto simp: recv_inv_iff)
  have e: "eff 0 0 ?s s'" by (rule eff_insert [OF g ins])
  have le: "?n \<le> sh_nextGeneration s'" by (rule eff_next [OF e])
  have hs: "held_streams (sh_nextGeneration s') (cr_streams c) = held_streams ?n (cr_streams c)"
    by (rule held_streams_mono [OF so le])
  have nn: "0 \<le> held_streams ?n (cr_streams c) + reader_charge (cr_reader c)"
    using i held_streams_nonneg [of "cr_streams c" ?n] reader_charge_ok by (fastforce simp: recv_inv_iff)
  then have b: "sh_balance s' (held_streams ?n (cr_streams c) + reader_charge (cr_reader c)) (cr_adv c) (cr_recvd c)"
    using i e by (auto simp: recv_inv_iff eff_def)
  have ro: "reader_ok (sh_nextGeneration s') (cr_reader c)"
    using i le by (auto simp: recv_inv_iff reader_ok_def split: reader_state.splits)
  show ?thesis
  proof (cases r)
    case (Inl x)
    then show ?thesis using ins b ro hs eff_good [OF e] streams_ok_mono [OF so le]
      by (auto simp: step_Prepare_def PrepareStream_def recv_inv_iff)
  next
    case (Inr st)
    note n = insertFlow_effect(8) [OF ins Inr]
    have "cr_streams c (Suc ?n) = None" using so by (cases "cr_streams c (Suc ?n)") (force simp: stream_ok_def)+
    then have "held_streams (Suc ?n) ((cr_streams c)(Suc ?n \<mapsto> st)) = held_streams ?n (cr_streams c)"
      using hs n by (simp add: held_streams_upd current_charge_def newStream_def)
    moreover have "streams_ok (Suc ?n) ((cr_streams c)(Suc ?n \<mapsto> st))"
      using streams_ok_mono [OF so, of "Suc ?n"] n by (auto simp: stream_ok_def newStream_def)
    ultimately show ?thesis using ins Inr b ro n eff_good [OF e]
      by (auto simp: step_Prepare_def PrepareStream_def recv_inv_iff add_stream_def newStream_def)
  qed
qed

lemma recv_ReadFrame:
  assumes i: "recv_inv c"
  shows "recv_inv (step_ReadFrame b c)"
proof (cases "cr_reader c = Reading")
  case True
  let ?s = "cr_sh c" and ?n = "sh_nextGeneration (cr_sh c)"
  have g: "rgood ?s" and so: "streams_ok ?n (cr_streams c)"
    and bal: "sh_balance ?s (held_streams ?n (cr_streams c)) (cr_adv c) (cr_recvd c)"
    using i True by (auto simp: recv_inv_iff reader_charge_def)
  show ?thesis
  proof (cases "readFrame (cr_in c)")
    case (Inl e)
    then show ?thesis using i True by (simp add: step_ReadFrame_def recv_inv_iff reader_charge_def reader_ok_def)
  next
    case (Inr fr)
    obtain h p r where fr: "fr = ((h, p), r)" by (metis prod.exhaust)
    obtain a st s' where d: "dispatch b h p ?s = (a, st, s')" by (metis prod.exhaust)
    have ok: "frame_ok h p" using readFrame_ok Inr fr by blast
    note hd = dispatch_effect [OF g ok d]
    have e: "eff (data_charge h p ?s) (after_charge a) ?s s'" and ao: "after_ok (sh_nextGeneration s') a"
      using hd(1) by (auto simp: handled_def)
    have le: "?n \<le> sh_nextGeneration s'" by (rule eff_next [OF e])
    let ?rs = "case a of Done \<Rightarrow> Reading | Fatal e \<Rightarrow> ReaderEnded (protocolError e) | Deliver g m \<Rightarrow> Delivering g m"
    let ?sts = "cr_streams (add_stream st c)"
    have c': "step_ReadFrame b c = (add_stream st c)\<lparr>cr_sh := s', cr_in := r, cr_reader := ?rs,
        cr_granted := cr_granted c + conn_grant h ?s, cr_recvd := cr_recvd c + data_charge h p ?s,
        cr_fgranted := flow_grant h ?s (cr_fgranted c)\<rparr>"
      using True Inr fr d by (simp add: step_ReadFrame_def readLoop_round_def split: after.splits)
    have st: "streams_ok (sh_nextGeneration s') ?sts \<and> held_streams (sh_nextGeneration s') ?sts = held_streams ?n (cr_streams c)"
    proof (cases st)
      case None
      then show ?thesis using streams_ok_mono [OF so le] held_streams_mono [OF so le] by (simp add: add_stream_def)
    next
      case (Some x)
      note x = hd(2) [OF Some]
      have "cr_streams c (Suc ?n) = None" using so by (cases "cr_streams c (Suc ?n)") (force simp: stream_ok_def)+
      then show ?thesis using Some x streams_ok_mono [OF so le] held_streams_mono [OF so le]
        by (auto simp: add_stream_def newStream_def stream_ok_def held_streams_upd current_charge_def)
    qed
    have nn: "0 \<le> held_streams ?n (cr_streams c)" "0 \<le> after_charge a"
      using held_streams_nonneg so ao charge_of_ok by (fastforce simp: after_ok_def after_charge_def split: after.splits)+
    then have "sh_balance s' (held_streams ?n (cr_streams c) + after_charge a) (cr_adv c) (cr_recvd c + data_charge h p ?s)"
      using e bal by (simp add: eff_def)
    moreover have "reader_charge ?rs = after_charge a" "reader_ok (sh_nextGeneration s') ?rs"
      using ao by (auto simp: reader_charge_def reader_ok_def split: after.splits)
    ultimately show ?thesis using st eff_good [OF e] unfolding c'
      by (auto simp: recv_inv_iff add_stream_def split: option.splits)
  qed
qed (use i in \<open>simp add: step_ReadFrame_def\<close>)

lemma recv_DeliverMsg:
  assumes i: "recv_inv c"
  shows "recv_inv (step_DeliverMsg b c)"
proof (cases "\<exists>g m rs s. cr_reader c = Delivering g m \<and> deliver_inbound b g m (cr_sh c) = Some (rs, s)")
  case True
  then obtain g m rs s' where r: "cr_reader c = Delivering g m" and d: "deliver_inbound b g m (cr_sh c) = Some (rs, s')" by blast
  let ?s = "cr_sh c" and ?n = "sh_nextGeneration (cr_sh c)"
  have gm: "g \<le> ?n" "msg_ok m" using i r by (auto simp: recv_inv_iff reader_ok_def)
  have c': "step_DeliverMsg b c = c\<lparr>cr_reader := rs, cr_sh := s'\<rparr>" using r d by (simp add: step_DeliverMsg_def)
  show ?thesis
  proof (cases b)
    case True
    then have "sh_closed ?s" "s' = ?s" "reader_charge rs = 0" "reader_ok ?n rs"
      using d by (auto simp: deliver_inbound_def reader_charge_def reader_ok_def split: if_splits inbound.splits)
    then show ?thesis using i unfolding c' by (auto simp: recv_inv_iff sh_balance_def balance_def)
  next
    case False
    then have s': "rs = Reading" "s' = upd_cell g (\<lambda>x. x\<lparr>c_inbound := c_inbound x @ [m]\<rparr>) ?s"
      using d by (auto simp: deliver_inbound_def split: if_splits)
    have q: "inbounds s' = (inbounds ?s)(g := inbounds ?s g @ [m])" by (auto simp: s' inbounds_def)
    have qo: "queues_ok ?n (inbounds ?s)" using i by (simp add: recv_inv_iff rgood_def)
    then have q': "held_queues ?n (inbounds s') = held_queues ?n (inbounds ?s) + charge_of m" "queues_ok ?n (inbounds s')"
      unfolding q using held_queues_upd [OF gm(1)] queues_ok_upd [OF qo gm(1)] gm(2) by (auto simp: queues_ok_def)
    show ?thesis using i r s' q' unfolding c'
      by (auto simp: recv_inv_iff rgood_def sh_balance_def reader_charge_def reader_ok_def algebra_simps)
  qed
next
  case False
  then show ?thesis using i by (auto simp: step_DeliverMsg_def split: reader_state.splits option.splits)
qed

lemma recv_ReaderExit: "recv_inv c \<Longrightarrow> recv_inv (step_ReaderExit c)"
  by (auto simp: step_ReaderExit_def runReader_end_def intro: recv_close split: reader_state.splits)

lemma recv_WriterExit: "recv_inv c \<Longrightarrow> recv_inv (step_WriterExit c)"
  by (auto simp: step_WriterExit_def runWriter_end_def intro: recv_close split: writer_state.splits)

subsection \<open>Calls that leave the receive side alone\<close>

definition rkeeps :: "shared \<Rightarrow> shared \<Rightarrow> bool" where
  "rkeeps s s' \<longleftrightarrow> rsame s s' \<and> (tables s \<longrightarrow> tables s')"

lemma rkeeps_refl [simp]: "rkeeps s s"
  by (simp add: rkeeps_def)

lemma rkeeps_trans: "rkeeps s t \<Longrightarrow> rkeeps t u \<Longrightarrow> rkeeps s u"
  by (auto simp: rkeeps_def intro: rsame_trans)

lemma rkeeps_cell:
  "(\<And>c. c_inbound (h c) = c_inbound c) \<Longrightarrow> (\<And>c. c_reset (h c) = c_reset c) \<Longrightarrow> rkeeps s (upd_cell g h s)"
  by (simp add: rkeeps_def rsame_def inbounds_def creset_def fun_eq_iff)

lemma rkeeps_sendOutbound: "sendOutbound pick item stop s = Some (e, s') \<Longrightarrow> rkeeps s s'"
  by (auto simp: sendOutbound_def rkeeps_def rsame_def inbounds_def creset_def fun_eq_iff split: send_pick.splits if_splits)

lemma rkeeps_sendOutboundCtx: "sendOutboundCtx pick ctx item s = Some (e, s') \<Longrightarrow> rkeeps s s'"
  by (auto simp: sendOutboundCtx_def intro: rkeeps_sendOutbound split: send_pick.splits option.splits)

lemma rkeeps_removeCurrentFlow: "rkeeps s (removeCurrentFlow f g s)"
  using quiet_rsame [OF quiet_removeCurrentFlow] tables_removeCurrentFlow by (auto simp: rkeeps_def)

lemma rkeeps_releasePart: "rkeeps s (releasePart f g s)"
  using quiet_rsame [OF quiet_releasePart] tables_releasePart by (auto simp: rkeeps_def)

lemma rkeeps_finishLocalFin: "rkeeps s (finishLocalFin f g s)"
  using quiet_rsame [OF quiet_finishLocalFin] tables_finishLocalFin by (auto simp: rkeeps_def)

lemma rkeeps_connSend: "rkeeps s (s\<lparr>sh_connSend := x\<rparr>)" "rkeeps s (s\<lparr>sh_dataTx := q\<rparr>)"
  by (auto simp: rkeeps_def rsame_def inbounds_def creset_def fun_eq_iff)

lemma rkeeps_commitOpen: "commitOpen pick ctx st s = Some (e, s') \<Longrightarrow> rkeeps s s'"
  by (auto simp: commitOpen_def Let_def split: if_splits sum.splits option.splits
      intro: rkeeps_removeCurrentFlow rkeeps_trans [OF rkeeps_sendOutboundCtx rkeeps_removeCurrentFlow]
        rkeeps_sendOutboundCtx)

lemma rkeeps_slot: "rkeeps s (slot_add g s)" "rkeeps s (credit_add g n s)" "rkeeps s (refund_write g n s)"
proof -
  have a: "rkeeps t (slot_add g t)" "rkeeps t (credit_add g n t)" for t by (rule rkeeps_cell; simp)+
  then show "rkeeps s (slot_add g s)" "rkeeps s (credit_add g n s)" by auto
  show "rkeeps s (refund_write g n s)" unfolding refund_write_def
    by (rule rkeeps_trans [OF rkeeps_trans [OF a(1) a(2)] rkeeps_connSend(1)])
qed

lemma rkeeps_sem: "rkeeps s (upd_cell g (\<lambda>c. c\<lparr>c_sendSlot := x\<rparr>) s)" "rkeeps s (upd_cell g (\<lambda>c. c\<lparr>c_sendCredit := x\<rparr>) s)"
  by (rule rkeeps_cell; simp)+

lemma rkeeps_acquire_slot: "acquire_slot ev now st ch x s = (ph, s') \<Longrightarrow> rkeeps s s'"
  by (auto simp: acquire_slot_def Let_def rkeeps_sem split: option.splits prod.splits acquired.splits)

lemma rkeeps_acquire_stream: "acquire_stream ev now st ch x s = (ph, s') \<Longrightarrow> rkeeps s s'"
  by (auto simp: acquire_stream_def Let_def rkeeps_sem rkeeps_slot split: option.splits prod.splits acquired.splits if_splits
      intro: rkeeps_trans [OF rkeeps_sem(2) rkeeps_slot(1)])

lemma rkeeps_acquire_conn: "acquire_conn ev now st ch x s = (ph, s') \<Longrightarrow> rkeeps s s'"
  by (auto simp: acquire_conn_def Let_def split: option.splits prod.splits acquired.splits if_splits
      intro: rkeeps_connSend(1) rkeeps_trans [OF rkeeps_slot(1) rkeeps_slot(2)]
        rkeeps_trans [OF rkeeps_trans [OF rkeeps_connSend(1) rkeeps_slot(1)] rkeeps_slot(2)])

lemma rkeeps_queue_data: "queue_data pick st ch x w s = Some (e, s') \<Longrightarrow> rkeeps s s'"
  by (auto simp: queue_data_def Let_def split: sum.splits option.splits
      intro: rkeeps_slot(3) rkeeps_sendOutbound rkeeps_trans [OF rkeeps_sendOutbound rkeeps_slot(3)])

lemma rkeeps_write_round: "write_round ev pick now wc st s = (wc', s') \<Longrightarrow> rkeeps s s'"
  by (auto simp: write_round_def write_snapshot_def rkeeps_slot split: write_phase.splits prod.splits option.splits if_splits
      intro: rkeeps_acquire_slot rkeeps_acquire_stream rkeeps_acquire_conn rkeeps_queue_data)

lemma rkeeps_release_slot: "rkeeps s (release_slot item s)"
  by (auto simp: release_slot_def intro: rkeeps_cell split: option.splits)

lemma rkeeps_writeItem: "writeItem fl item w s = Ret (e, w', s') \<Longrightarrow> rkeeps s s'"
  by (auto simp: writeItem_def Let_def split: if_splits sum.splits go.splits option.splits prod.splits
      intro: rkeeps_release_slot rkeeps_trans [OF rkeeps_connSend(1) rkeeps_release_slot]
        rkeeps_trans [OF rkeeps_finishLocalFin rkeeps_release_slot])

lemma recv_keeps:
  assumes i: "recv_inv c" and s: "rkeeps (cr_sh c) (cr_sh c')"
    and r: "cr_reader c' = cr_reader c" "cr_adv c' = cr_adv c" "cr_recvd c' = cr_recvd c"
    and k: "\<And>g. map_option skey (cr_streams c' g) = map_option skey (cr_streams c g)"
  shows "recv_inv c'"
  using s recv_tables [OF i] by (intro recv_keep [OF i _ _ r k]) (auto simp: rkeeps_def)

subsection \<open>Advertising windows\<close>

text \<open>Taking the pending connection credit to advertise it.\<close>

definition advertises :: "shared \<Rightarrow> shared \<Rightarrow> bool" where
  "advertises s s' \<longleftrightarrow> sh_config s' = sh_config s \<and> sh_nextGeneration s' = sh_nextGeneration s \<and>
     sh_closed s' = sh_closed s \<and> inbounds s' = inbounds s \<and> sh_connRecv s' = sh_connRecv s \<and>
     sh_pendingConn s' = 0 \<and> (tables s \<longrightarrow> tables s')"

lemma advertises_keeps: "advertises s t \<Longrightarrow> rkeeps t u \<Longrightarrow> advertises s u"
  by (auto simp: advertises_def rkeeps_def rsame_def)

lemma rkeeps_readyWindows: "readyWindows frames ready s = (r, s') \<Longrightarrow> rkeeps s s'"
proof (induction frames ready s arbitrary: r s' rule: readyWindows.induct)
  case (2 frames flowID ready s)
  show ?case
  proof (cases "flow_of s flowID")
    case None
    with 2 show ?thesis by simp
  next
    case (Some fs)
    let ?t = "put_flow flowID (fs\<lparr>fs_pendingReceive := 0, fs_windowQueued := False\<rparr>) s"
    have "tables s \<Longrightarrow> tables ?t"
      using flow_ok_of [OF _ Some] by (intro tables_put [OF _ Some]) (auto simp: flow_ok_def)
    moreover have "rsame s ?t" by (rule quiet_rsame) simp
    ultimately have t: "rkeeps s ?t" by (simp add: rkeeps_def)
    consider "fs_pendingReceive fs = 0" | e where "fs_pendingReceive fs \<noteq> 0" "appendWindows frames flowID (fs_pendingReceive fs) = Inl e"
      | fr where "fs_pendingReceive fs \<noteq> 0" "appendWindows frames flowID (fs_pendingReceive fs) = Inr fr"
      by (cases "appendWindows frames flowID (fs_pendingReceive fs)") auto
    then have "rkeeps ?t s'"
    proof cases
      case 1
      then show ?thesis using "2.IH"(2) [OF Some refl refl] "2.prems" Some by simp
    next
      case 2
      then show ?thesis using "2.prems" Some by simp
    next
      case 3
      then show ?thesis using "2.IH"(3) [OF Some refl refl] "2.prems" Some by simp
    qed
    with t show ?thesis by (rule rkeeps_trans)
  qed
qed simp

lemma rkeeps_finishResets: "rkeeps s (fold finishReset fs s)"
proof (induction fs arbitrary: s)
  case (Cons f fs)
  have "rkeeps s (finishReset f s)"
    using tables_finishReset by (auto simp: rkeeps_def rsame_def finishReset_def inbounds_def creset_def fun_eq_iff)
  then show ?case using Cons rkeeps_trans by auto
qed simp

lemma advertises_writePendingWindows:
  assumes "writePendingWindows w s = Ret (e, w', s')"
  shows "advertises s s'"
proof -
  let ?t = "s\<lparr>sh_pendingConn := 0, sh_ready := []\<rparr>"
  have "advertises s ?t" by (simp add: advertises_def inbounds_def fun_eq_iff)
  moreover have "rkeeps ?t s'"
    using assms
    by (auto simp: writePendingWindows_def Let_def split: sum.splits prod.splits if_splits go.splits option.splits
        intro: rkeeps_readyWindows rkeeps_trans [OF rkeeps_readyWindows rkeeps_finishResets])
  ultimately show ?thesis by (rule advertises_keeps)
qed

lemma recv_advertise:
  assumes i: "recv_inv c" and s: "advertises (cr_sh c) (cr_sh c')"
    and r: "cr_reader c' = cr_reader c" "cr_adv c' = cr_adv c + sh_pendingConn (cr_sh c)" "cr_recvd c' = cr_recvd c"
    "cr_streams c' = cr_streams c"
  shows "recv_inv c'"
  using assms balance_advertise by (auto simp: recv_inv_iff rgood_def advertises_def sh_balance_def)

lemma recv_WriterRound:
  assumes i: "recv_inv c"
  shows "recv_inv (step_WriterRound pick fl c)"
proof -
  let ?s = "cr_sh c" and ?t = "(cr_sh c)\<lparr>sh_control := False\<rparr>"
  let ?c = "c\<lparr>cr_adv := cr_adv c + advertised (cr_writer c) pick ?s, cr_sent := cr_sent c + sent_charge (cr_writer c) pick ?s,
      cr_fsent := sent_flow (cr_writer c) pick ?s (cr_fsent c)\<rparr>"
  have t: "rkeeps ?s ?t" by (auto simp: rkeeps_def rsame_def inbounds_def creset_def fun_eq_iff)
  have win: "recv_inv (after_write nxt (writePendingWindows w ?t) c ?c)"
    if "advertised (cr_writer c) pick ?s = sh_pendingConn ?s" for nxt w
  proof (cases "writePendingWindows w ?t")
    case (Ret x)
    obtain e w' s' where x: "x = (e, w', s')" by (metis prod.exhaust)
    have "advertises ?s s'"
      using advertises_writePendingWindows [OF Ret [unfolded x]] by (auto simp: advertises_def inbounds_def fun_eq_iff)
    then show ?thesis using Ret x that
      by (auto simp: after_write_def split: option.splits intro!: recv_advertise [OF i])
  next
    case Panic
    then show ?thesis using i by (auto simp: after_write_def intro!: recv_keeps [OF i])
  qed
  have keep: "recv_inv (after_write nxt x c ?c)"
    if "advertised (cr_writer c) pick ?s = 0" "\<And>e w s'. x = Ret (e, w, s') \<Longrightarrow> rkeeps ?s s'" for nxt x
    using that by (auto simp: after_write_def split: go.splits prod.splits option.splits intro!: recv_keeps [OF i])
  show ?thesis
  proof (cases "cr_writer c")
    case WriterFirst
    show ?thesis
    proof (cases "sh_closed ?s \<or> \<not> sh_control ?s")
      case True
      then show ?thesis using keep [of "writeLoop_first (cr_out c) ?s"] WriterFirst
        by (auto simp: step_WriterRound_def writeLoop_first_def advertised_def)
    next
      case False
      then show ?thesis using win WriterFirst by (auto simp: step_WriterRound_def writeLoop_first_def advertised_def)
    qed
  next
    case WriterSecond
    show ?thesis
    proof (cases pick)
      case WriteClosed
      then show ?thesis using i keep [of "Ret (Some errClosed, cr_out c, ?s)"] WriterSecond
        by (auto simp: step_WriterRound_def writeLoop_second_def advertised_def)
    next
      case WriteControl
      then show ?thesis using i win WriterSecond
        by (auto simp: step_WriterRound_def writeLoop_second_def advertised_def)
    next
      case WriteData
      show ?thesis
      proof (cases "sh_dataTx ?s")
        case Nil
        then show ?thesis using i WriterSecond WriteData by (simp add: step_WriterRound_def writeLoop_second_def)
      next
        case (Cons item rest)
        have "rkeeps ?s s'" if "writeItem fl item (cr_out c) (?s\<lparr>sh_dataTx := rest\<rparr>) = Ret (e, w, s')" for e w s'
          by (rule rkeeps_trans [OF rkeeps_connSend(2) rkeeps_writeItem [OF that]])
        then show ?thesis using keep Cons WriterSecond WriteData
          by (auto simp: step_WriterRound_def writeLoop_second_def advertised_def)
      qed
    qed
  qed (use i in \<open>simp_all add: step_WriterRound_def\<close>)
qed

lemma recv_Commit: "recv_inv c \<Longrightarrow> recv_inv (step_Commit g pick ctx c)"
  by (auto simp: step_Commit_def OpenPrepared_def split: option.splits intro!: recv_keeps [of c] rkeeps_commitOpen)

lemma recv_StreamWrite: "recv_inv c \<Longrightarrow> recv_inv (step_StreamWrite g p c)"
  by (auto simp: step_StreamWrite_def split: option.splits intro!: recv_keeps [of c])

lemma recv_WriteRound: "recv_inv c \<Longrightarrow> recv_inv (step_WriteRound i ev pick now c)"
  by (auto simp: step_WriteRound_def Let_def split: option.splits prod.splits
      intro!: recv_keeps [of c] dest: rkeeps_write_round)

lemma CloseWrite_begin_effect:
  "CloseWrite_begin st s = (r, st', s') \<Longrightarrow> skey st' = skey st \<and> rkeeps s s'"
  by (auto simp: CloseWrite_begin_def Let_def skey_def split: if_splits sum.splits intro: rkeeps_releasePart)

lemma recv_StreamCloseWrite: "recv_inv c \<Longrightarrow> recv_inv (step_StreamCloseWrite g c)"
  by (auto simp: step_StreamCloseWrite_def split: option.splits prod.splits
      intro!: recv_keeps [of c] dest: CloseWrite_begin_effect)

lemma recv_FinRound: "recv_inv c \<Longrightarrow> recv_inv (step_FinRound i pick c)"
  by (auto simp: step_FinRound_def Let_def CloseWrite_finish_def split: option.splits prod.splits
      intro!: recv_keeps [of c] rkeeps_trans [OF rkeeps_sendOutbound rkeeps_releasePart])

lemma recv_step: "recv_inv c \<Longrightarrow> recv_inv (mux_step c a)"
proof (cases a)
  case (CloseCarrier r)
  assume "recv_inv c"
  then show ?thesis using CloseCarrier by (auto intro: recv_close)
next
  case Reject
  assume i: "recv_inv c"
  show ?thesis using Reject
    by (auto simp: rejectIncoming_def rkeeps_def rsame_def inbounds_def creset_def fun_eq_iff intro!: recv_keeps [OF i])
next
  case (Accept p)
  assume i: "recv_inv c"
  then show ?thesis using Accept
    by (auto simp: Incoming_Accept_def rkeeps_def rsame_def inbounds_def creset_def fun_eq_iff
        split: accept_pick.splits list.splits if_splits option.splits intro!: recv_keeps [OF i])
qed (auto intro: recv_Prepare recv_Commit recv_ReadFrame recv_DeliverMsg recv_ReaderExit recv_StreamRead recv_StreamWrite
    recv_WriteRound recv_StreamCloseWrite recv_FinRound recv_StreamCloseRead recv_StreamDeadline recv_WriterRound recv_WriterExit)

text \<open>A carrier starts balanced.\<close>

lemma Start_Inr:
  assumes "Start cfg = Inr s"
  shows "Config_validate cfg = Inr cfg" "sh_config s = cfg" "sh_flows s = []" "sh_pendingResets s = []" "sh_closed s = False"
    "sh_connRecv s = connUnits cfg" "inbounds s = (\<lambda>_. [])" "sh_nextGeneration s = 0" "sh_dataTx s = []"
    "sem_available (sh_connSend s) = creditUnits BaseConnectionWindowBytes"
    "sh_pendingConn s = creditUnits (ConnectionWindowBytes cfg - BaseConnectionWindowBytes)" "0 < MaxStreams cfg"
proof -
  have v: "Config_validate cfg = Inr cfg" using assms
    by (auto simp: Start_def Config_validate_def split: sum.splits if_splits)
  then show "Config_validate cfg = Inr cfg" "0 < MaxStreams cfg" by (auto simp: Config_validate_def split: if_splits)
  have e: "creditUnits (ConnectionWindowBytes cfg - BaseConnectionWindowBytes) > 0 \<or> creditUnits (ConnectionWindowBytes cfg - BaseConnectionWindowBytes) = 0"
    using creditUnits_nonneg [of "ConnectionWindowBytes cfg - BaseConnectionWindowBytes"] by linarith
  show "sh_config s = cfg" "sh_flows s = []" "sh_pendingResets s = []" "sh_closed s = False" "sh_connRecv s = connUnits cfg"
    "inbounds s = (\<lambda>_. [])" "sh_nextGeneration s = 0" "sh_dataTx s = []"
    "sem_available (sh_connSend s) = creditUnits BaseConnectionWindowBytes"
    "sh_pendingConn s = creditUnits (ConnectionWindowBytes cfg - BaseConnectionWindowBytes)"
    using assms v e by (auto simp: Start_def Let_def inbounds_def fun_eq_iff no_cell_def)
qed

lemma creditUnits_split:
  "Config_validate cfg = Inr c \<Longrightarrow>
   creditUnits BaseConnectionWindowBytes + creditUnits (ConnectionWindowBytes cfg - BaseConnectionWindowBytes) = connUnits cfg"
  by (auto simp: Config_validate_def creditUnits_def mux_consts split: if_splits)

lemma recv_start:
  assumes "Start cfg = Inr s"
  shows "recv_inv (carrier_start s r w)"
proof -
  note st = Start_Inr [OF assms]
  have "tab cfg [] [] 0 False" using st(12) by (simp add: tab_def)
  moreover have "creditUnits BaseConnectionWindowBytes + creditUnits (ConnectionWindowBytes cfg - BaseConnectionWindowBytes) = connUnits cfg"
    by (rule creditUnits_split [OF st(1)])
  ultimately show ?thesis
    by (simp add: recv_inv_iff carrier_start_def rgood_def st queues_ok_def reader_ok_def sh_balance_def balance_def
        held_queues_def held_streams_def current_charge_def reader_charge_def)
qed

definition carrier_starts :: "carrier \<Rightarrow> bool" where
  "carrier_starts c \<longleftrightarrow> (\<exists>cfg s r w. Start cfg = Inr s \<and> c = carrier_start s r w)"

interpretation mux_receive: invariant_machine carrier_starts mux_step recv_inv
  by unfold_locales (auto simp: carrier_starts_def recv_start recv_step)

end
