(* ===== verification/Mux_Send.thy ===== *)
theory Mux_Send
  imports Mux_Balance
begin

section \<open>The stream multiplexer: send-side flow control\<close>

text \<open>
  The credit a peer has granted is at every moment in exactly one place: free in the semaphore,
  held by a write in progress, in a queued frame, or spent on a frame handed to the connection.
  The stream credit of a generation is never overspent.
\<close>

subsection \<open>What is held where\<close>

definition holds_conn :: "write_phase \<Rightarrow> int" where
  "holds_conn ph = (case ph of HaveAll ch x \<Rightarrow> x | WantQueue ch x w \<Rightarrow> x | _ \<Rightarrow> 0)"

definition holds_stream :: "write_phase \<Rightarrow> int" where
  "holds_stream ph = (case ph of WantConn ch x \<Rightarrow> x | HaveAll ch x \<Rightarrow> x | WantQueue ch x w \<Rightarrow> x | _ \<Rightarrow> 0)"

definition phase_ok :: "write_phase \<Rightarrow> bool" where
  "phase_ok ph =
     (case ph of
        WantSlot ch x \<Rightarrow> x = frameCharge (int (length ch))
      | WantStream ch x \<Rightarrow> x = frameCharge (int (length ch))
      | WantConn ch x \<Rightarrow> x = frameCharge (int (length ch))
      | HaveAll ch x \<Rightarrow> x = frameCharge (int (length ch))
      | WantQueue ch x w \<Rightarrow> x = frameCharge (int (length ch))
      | _ \<Rightarrow> True)"

lemmas phase_defs = holds_conn_def holds_stream_def phase_ok_def

definition queued :: "outbound list \<Rightarrow> int" where
  "queued q = (\<Sum>i\<leftarrow>q. item_charge i)"

definition fqueued :: "nat \<Rightarrow> outbound list \<Rightarrow> int" where
  "fqueued g q = (\<Sum>i\<leftarrow>q. if ob_generation i = g then item_charge i else 0)"

definition conn_held :: "write_call list \<Rightarrow> int" where
  "conn_held ws = (\<Sum>w\<leftarrow>ws. holds_conn (wc_phase w))"

definition fheld :: "nat \<Rightarrow> write_call list \<Rightarrow> int" where
  "fheld g ws = (\<Sum>w\<leftarrow>ws. if wc_stream w = g then holds_stream (wc_phase w) else 0)"

lemma item_charge_nonneg [simp]: "0 \<le> item_charge i"
  by (simp add: item_charge_def)

lemma queued_simps [simp]:
  "queued [] = 0" "queued (i # q) = item_charge i + queued q" "queued (q @ q') = queued q + queued q'"
  "fqueued g [] = 0" "fqueued g (i # q) = (if ob_generation i = g then item_charge i else 0) + fqueued g q"
  "fqueued g (q @ q') = fqueued g q + fqueued g q'"
  by (simp_all add: queued_def fqueued_def)

lemma queued_nonneg: "0 \<le> queued q" "0 \<le> fqueued g q"
  by (induction q) auto

lemma holds_nonneg: "phase_ok ph \<Longrightarrow> 0 \<le> holds_conn ph" "phase_ok ph \<Longrightarrow> 0 \<le> holds_stream ph"
  by (auto simp: phase_defs split: write_phase.splits)

lemma sum_list_update_int:
  fixes f :: "'a \<Rightarrow> int"
  shows "i < length xs \<Longrightarrow> (\<Sum>x\<leftarrow>xs[i := y]. f x) = (\<Sum>x\<leftarrow>xs. f x) - f (xs ! i) + f y"
proof (induction xs arbitrary: i)
  case (Cons x xs)
  then show ?case by (cases i) auto
qed simp

lemma conn_held_update:
  "i < length ws \<Longrightarrow> conn_held (ws[i := w]) = conn_held ws - holds_conn (wc_phase (ws ! i)) + holds_conn (wc_phase w)"
  unfolding conn_held_def by (rule sum_list_update_int)

lemma fheld_update:
  "i < length ws \<Longrightarrow> wc_stream w = wc_stream (ws ! i) \<Longrightarrow>
   fheld g (ws[i := w]) = fheld g ws + (if wc_stream w = g then holds_stream (wc_phase w) - holds_stream (wc_phase (ws ! i)) else 0)"
  unfolding fheld_def by (subst sum_list_update_int) auto

lemma held_nonneg:
  "list_all (\<lambda>w. phase_ok (wc_phase w)) ws \<Longrightarrow> 0 \<le> conn_held ws"
  "list_all (\<lambda>w. phase_ok (wc_phase w)) ws \<Longrightarrow> 0 \<le> fheld g ws"
  by (induction ws) (auto simp: conn_held_def fheld_def holds_nonneg)

definition send_inv :: "carrier \<Rightarrow> bool" where
  "send_inv c \<longleftrightarrow> (let s = cr_sh c; n = sh_nextGeneration s in
     0 \<le> sem_available (sh_connSend s) \<and>
     sem_available (sh_connSend s) + conn_held (cr_writes c) + queued (sh_dataTx s) + cr_sent c = cr_granted c \<and>
     (\<forall>g. 0 \<le> credits s g \<and> 0 \<le> cr_fsent c g \<and>
        credits s g + fheld g (cr_writes c) + fqueued g (sh_dataTx s) + cr_fsent c g \<le> cr_fgranted c g) \<and>
     (\<forall>g > n. credits s g = 0 \<and> cr_fsent c g = 0) \<and>
     list_all (\<lambda>w. phase_ok (wc_phase w) \<and> wc_stream w \<le> n) (cr_writes c) \<and>
     list_all (\<lambda>i. ob_generation i \<le> n) (sh_dataTx s) \<and>
     list_all (\<lambda>i. ob_payload i = [] \<and> ob_generation i \<le> n) (cr_fins c))"

subsection \<open>Steps that leave the send side alone\<close>

definition ssame :: "shared \<Rightarrow> shared \<Rightarrow> bool" where
  "ssame s s' \<longleftrightarrow> sem_available (sh_connSend s') = sem_available (sh_connSend s) \<and> credits s' = credits s \<and>
     sh_dataTx s' = sh_dataTx s \<and> sh_nextGeneration s' = sh_nextGeneration s \<and> sh_config s' = sh_config s"

lemma ssame_refl [simp]: "ssame s s"
  by (simp add: ssame_def)

lemma ssame_trans: "ssame s t \<Longrightarrow> ssame t u \<Longrightarrow> ssame s u"
  by (simp add: ssame_def)

lemma steady_ssame: "steady s s' \<Longrightarrow> ssame s s'"
  by (simp add: steady_def ssame_def)

lemma quiet_ssame: "quiet s s' \<Longrightarrow> ssame s s'"
  by (simp add: quiet_def steady_ssame)

lemma released_ssame: "released x s s' \<Longrightarrow> ssame s s'"
  by (simp add: released_def steady_ssame)

lemma send_keep:
  assumes "send_inv c" "ssame (cr_sh c) (cr_sh c')" "cr_writes c' = cr_writes c" "cr_fins c' = cr_fins c"
    "cr_granted c' = cr_granted c" "cr_sent c' = cr_sent c" "cr_fgranted c' = cr_fgranted c" "cr_fsent c' = cr_fsent c"
  shows "send_inv c'"
  using assms by (auto simp: send_inv_def ssame_def Let_def)

lemma ssame_cell: "(\<And>c. sem_available (c_sendCredit (h c)) = sem_available (c_sendCredit c)) \<Longrightarrow> ssame s (upd_cell g h s)"
  by (auto simp: ssame_def credits_def)

lemma ssame_resetInbound: "ssame s (resetInbound g s)"
proof -
  let ?t = "upd_cell g (\<lambda>c. c\<lparr>c_reset := True, c_inbound := [inboundReset]\<rparr>) s"
  have "ssame s ?t" by (rule ssame_cell) simp
  then show ?thesis
    using released_ssame [OF released_releaseConnReceive, of ?t] ssame_trans by (auto simp: resetInbound_def Let_def)
qed

lemma ssame_prepareReset: "ssame s (snd (prepareReset f fl s))"
proof (cases "flow_of s f")
  case None
  then show ?thesis by (auto simp: prepareReset_def ssame_def credits_def fun_eq_iff)
next
  case (Some fs)
  let ?t = "upd_cell (fs_generation fs) close_cell (del_flow f (s\<lparr>sh_pendingResets := sh_pendingResets s @ [f]\<rparr>))"
  have "ssame s ?t" by (auto simp: ssame_def credits_def)
  from ssame_trans [OF this ssame_resetInbound [of _ "fs_generation fs"]]
  have "ssame s (notifyControl (notifyActive (resetInbound (fs_generation fs) ?t)))"
    by (rule ssame_trans) (rule quiet_ssame, simp)
  then show ?thesis using Some by (simp add: prepareReset_def Let_def)
qed

lemma ssame_reset_flow: "reset_flow f fl s = (a, s') \<Longrightarrow> ssame s s'"
  using ssame_prepareReset [of s f fl] by (auto simp: reset_flow_def split: prod.splits sum.splits)

lemma ssame_offer: "offer b st s = (a, s') \<Longrightarrow> ssame s s'"
  by (auto simp: offer_def offerIncoming_def ssame_def credits_def fun_eq_iff split: if_splits prod.splits option.splits)

lemma ssame_receiveData: "receiveData h p s = (a, s') \<Longrightarrow> ssame s s'"
proof -
  assume r: "receiveData h p s = (a, s')"
  let ?x = "frameCharge (int (length p))"
  obtain ar t where adm: "admitReceive (mh_FlowID h) ?x s = (ar, t)" by (cases "admitReceive (mh_FlowID h) ?x s")
  have "ssame s t" using admitReceive_frame [OF adm] by (simp add: ssame_def credits_def fun_eq_iff)
  moreover have "ssame t s'"
    using r adm released_ssame [OF released_releaseConnReceive, of t] released_ssame [OF released_releaseReceive, of t]
    by (auto simp: receiveData_def Let_def split: sum.splits receiveTarget.splits
        intro: ssame_trans [OF _ ssame_reset_flow])
  ultimately show ?thesis by (rule ssame_trans)
qed

lemma ssame_receiveClose: "receiveClose h s = (a, s') \<Longrightarrow> ssame s s'"
  using quiet_ssame [OF quiet_removeFlow, of s "mh_FlowID h"]
  by (auto simp: receiveClose_def split: if_splits prod.splits option.splits
      intro: quiet_ssame ssame_trans [OF _ ssame_resetInbound])

lemma ssame_drain: "ssame s (drain_inbound st s)"
proof -
  have "ssame t (fold (release_msg st) ms t)" for ms t
  proof (induction ms arbitrary: t)
    case (Cons m ms)
    have "ssame t (release_msg st m t)"
      using released_ssame [OF released_releaseReceive] by (auto simp: release_msg_def split: inbound.splits)
    then show ?case using Cons [of "release_msg st m t"] by (auto intro: ssame_trans)
  qed simp
  moreover have "ssame s (upd_cell g (\<lambda>c. c\<lparr>c_inbound := []\<rparr>) s)" for g by (rule ssame_cell) simp
  ultimately show ?thesis by (auto simp: drain_inbound_def Let_def intro: ssame_trans)
qed

lemma ssame_releaseCurrent: "ssame s (releaseCurrent st s)"
  unfolding releaseCurrent_def by (rule released_ssame [OF released_releaseReceive])

lemma ssame_release_msg: "ssame s (release_msg st m s)"
  using released_ssame [OF released_releaseReceive] by (auto simp: release_msg_def split: inbound.splits)

lemma ssame_read_round: "read_round k now pick st s = (r, st', s') \<Longrightarrow> ssame s s'"
proof -
  assume r: "read_round k now pick st s = (r, st', s')"
  have w: "ssame s t" if "waitInbound now pick st s = Some (m, t)" for m t
    using that by (auto simp: waitInbound_def split: if_splits wait_pick.splits list.splits intro!: ssame_cell)
  have m: "ssame t u" if "read_message x st t = (r', st'', u)" for x t u r' st''
    using that ssame_release_msg by (auto simp: read_message_def split: if_splits inbound.splits)
  show ?thesis using r
    by (auto simp: read_round_def discardBuffered_def read_current_def Let_def ssame_releaseCurrent
        split: if_splits option.splits sum.splits prod.splits
        intro: ssame_drain ssame_trans [OF ssame_releaseCurrent ssame_drain] w ssame_trans [OF w m])
qed

lemma ssame_closeReader: "closeReader st s = (st', s') \<Longrightarrow> ssame s s'"
  using quiet_ssame [OF quiet_markReaderClosed, of s "st_flowID st"]
  by (auto simp: closeReader_def Let_def split: if_splits
      intro: ssame_trans [OF _ quiet_ssame [OF quiet_releasePart]] ssame_trans [OF _ ssame_drain]
        ssame_trans [OF _ ssame_releaseCurrent])

lemma ssame_closeWithReason: "ssame s (closeWithReason r s)"
  by (auto simp: closeWithReason_def Let_def ssame_def credits_def)

subsection \<open>A write\<close>

text \<open>
  A piece of a write on generation \<open>g\<close> that changes what the call holds of the connection credit by
  \<open>a\<close> and of the stream credit by \<open>b\<close>.
\<close>

definition wmove :: "nat \<Rightarrow> int \<Rightarrow> int \<Rightarrow> shared \<Rightarrow> shared \<Rightarrow> bool" where
  "wmove g a b s s' \<longleftrightarrow> sh_nextGeneration s' = sh_nextGeneration s \<and>
     sem_available (sh_connSend s') + queued (sh_dataTx s') + a = sem_available (sh_connSend s) + queued (sh_dataTx s) \<and>
     (0 \<le> sem_available (sh_connSend s) \<longrightarrow> 0 \<le> sem_available (sh_connSend s')) \<and>
     credits s' g + fqueued g (sh_dataTx s') + b = credits s g + fqueued g (sh_dataTx s) \<and>
     (0 \<le> credits s g \<longrightarrow> 0 \<le> credits s' g) \<and>
     (\<forall>k. k \<noteq> g \<longrightarrow> credits s' k = credits s k \<and> fqueued k (sh_dataTx s') = fqueued k (sh_dataTx s)) \<and>
     (\<exists>q. sh_dataTx s' = sh_dataTx s @ q \<and> list_all (\<lambda>i. ob_generation i = g) q)"

lemma wmove_refl [simp]: "wmove g 0 0 s s"
  by (simp add: wmove_def)

lemma wmove_trans: "wmove g a b s t \<Longrightarrow> wmove g a' b' t u \<Longrightarrow> wmove g (a + a') (b + b') s u"
  by (auto simp: wmove_def)

lemma wmove_ssame: "ssame s s' \<Longrightarrow> wmove g 0 0 s s'"
  by (auto simp: wmove_def ssame_def)

lemma wmove_slot: "wmove g 0 0 s (upd_cell k (\<lambda>c. c\<lparr>c_sendSlot := h c\<rparr>) s)"
  by (rule wmove_ssame [OF ssame_cell]) simp

lemma wmove_credit_add: "0 \<le> x \<Longrightarrow> wmove g 0 (- x) s (credit_add g x s)"
  by (auto simp: wmove_def credits_def)

lemma wmove_conn_add: "0 \<le> x \<Longrightarrow> wmove g (- x) 0 s (conn_add x s)"
  by (auto simp: wmove_def credits_def)

lemma wmove_refund: "0 \<le> x \<Longrightarrow> wmove g (- x) (- x) s (refund_write g x s)"
  unfolding refund_write_def
  using wmove_trans [OF wmove_trans [OF wmove_slot wmove_credit_add] wmove_conn_add, of x x g s g] by simp

lemma acquire_wait:
  assumes "acquireUntil n sem (wait_env ev now st s sem) = (r, sem')" "0 \<le> n"
  shows "if r = Acquired then n \<le> sem_available sem \<and> sem_available sem' = sem_available sem - n
    else sem_available sem' = sem_available sem"
proof -
  have m: "met sem (wait_env ev now st s sem) \<subseteq> {sem, add_waiter sem}"
    by (cases ev; cases "the ev") (auto simp: met_def wait_env_def)
  have "sem_available t = sem_available sem" if "t \<in> met sem (wait_env ev now st s sem)" for t
    using subsetD [OF m that] by auto
  then show ?thesis using acquireUntil_cases [OF assms(1)] assms(2)
    by (auto split: acquired.splits)
qed

lemma acquire_slot_move:
  assumes "acquire_slot ev now st ch x s = (ph, s')" "x = frameCharge (int (length ch))"
  shows "wmove g (holds_conn ph) (holds_stream ph) s s'" "phase_ok ph"
  using assms
  by (auto simp: acquire_slot_def Let_def phase_defs wmove_slot split: option.splits prod.splits acquired.splits if_splits)

lemma acquire_stream_move:
  assumes "acquire_stream ev now st ch x s = (ph, s')" "x = frameCharge (int (length ch))" "st_generation st = g"
  shows "wmove g (holds_conn ph) (holds_stream ph) s s'" "phase_ok ph"
proof -
  let ?sem = "c_sendCredit (sh_cells s g)"
  let ?u = "\<lambda>sem. upd_cell g (\<lambda>c. c\<lparr>c_sendCredit := sem\<rparr>) s"
  show "phase_ok ph" using assms
    by (auto simp: acquire_stream_def Let_def phase_defs split: option.splits prod.splits acquired.splits if_splits)
  have x: "0 \<le> x" using assms(2) by simp
  have take: "wmove g 0 x s (?u sem)" if "x \<le> sem_available ?sem" "sem_available sem = sem_available ?sem - x" for sem
    using that by (auto simp: wmove_def credits_def)
  have keep: "wmove g 0 0 s (?u sem)" if "sem_available sem = sem_available ?sem" for sem
    using that by (auto simp: wmove_def credits_def)
  have keeps: "wmove g 0 0 s (slot_add g (?u sem))" if "sem_available sem = sem_available ?sem" for sem
    using wmove_trans [OF keep [OF that] wmove_slot] by simp
  show "wmove g (holds_conn ph) (holds_stream ph) s s'"
    using assms(1,3) acquire_wait [OF _ x, of ?sem ev now st s] take keep keeps wmove_slot
    by (auto simp: acquire_stream_def Let_def phase_defs split: option.splits prod.splits acquired.splits if_splits)
qed

lemma acquire_conn_move:
  assumes "acquire_conn ev now st ch x s = (ph, s')" "x = frameCharge (int (length ch))" "st_generation st = g"
  shows "wmove g (holds_conn ph) (holds_stream ph - x) s s'" "phase_ok ph"
proof -
  let ?sem = "sh_connSend s"
  let ?u = "\<lambda>sem. s\<lparr>sh_connSend := sem\<rparr>"
  show "phase_ok ph" using assms
    by (auto simp: acquire_conn_def Let_def phase_defs split: option.splits prod.splits acquired.splits if_splits)
  have x: "0 \<le> x" using assms(2) by simp
  have take: "wmove g x 0 s (?u sem)" if "x \<le> sem_available ?sem" "sem_available sem = sem_available ?sem - x" for sem
    using that by (auto simp: wmove_def credits_def fun_eq_iff)
  have keep: "wmove g 0 0 s (?u sem)" if "sem_available sem = sem_available ?sem" for sem
    using that by (auto simp: wmove_def credits_def fun_eq_iff)
  have undo: "wmove g 0 (- x) t (credit_add g x (slot_add g t))" for t
    using wmove_trans [OF wmove_slot wmove_credit_add [OF x]] by simp
  have keeps: "wmove g 0 (- x) s (credit_add g x (slot_add g (?u sem)))" if "sem_available sem = sem_available ?sem" for sem
    using wmove_trans [OF keep [OF that] undo] by simp
  show "wmove g (holds_conn ph) (holds_stream ph - x) s s'"
    using assms(1,3) acquire_wait [OF _ x, of ?sem ev now st s] take keep keeps undo
    by (auto simp: acquire_conn_def Let_def phase_defs split: option.splits prod.splits acquired.splits if_splits)
qed

lemma queue_data_move:
  assumes "queue_data pick st ch x w s = Some (e, s')" "x = frameCharge (int (length ch))" "st_generation st = g"
  shows "wmove g (- x) (- x) s s'"
proof -
  have x: "0 \<le> x" using assms(2) by simp
  have q: "wmove g (- x) (- x) s (s\<lparr>sh_dataTx := sh_dataTx s @ [i]\<rparr>)" if "ob_generation i = g" "ob_payload i = ch" for i
    using that assms(2) by (auto simp: wmove_def credits_def item_charge_def)
  show ?thesis using assms wmove_refund [OF x] q
    by (auto simp: queue_data_def sendOutbound_def Let_def split: sum.splits option.splits send_pick.splits if_splits)
qed

lemma write_round_move:
  assumes r: "write_round ev pick now wc st s = (wc', s')" and ok: "phase_ok (wc_phase wc)" and g: "st_generation st = g"
  shows "wmove g (holds_conn (wc_phase wc') - holds_conn (wc_phase wc)) (holds_stream (wc_phase wc') - holds_stream (wc_phase wc)) s s'"
    "phase_ok (wc_phase wc')" "wc_stream wc' = wc_stream wc"
proof -
  let ?goal = "wmove g (holds_conn (wc_phase wc') - holds_conn (wc_phase wc)) (holds_stream (wc_phase wc') - holds_stream (wc_phase wc)) s s'
    \<and> phase_ok (wc_phase wc') \<and> wc_stream wc' = wc_stream wc"
  have ?goal
  proof (cases "wc_phase wc")
    case ChunkStart
    then show ?thesis using r
      by (auto simp: write_round_def write_chunk_def phase_defs Let_def split: option.splits)
  next
    case (WantSlot ch x)
    then have x: "x = frameCharge (int (length ch))" using ok by (simp add: phase_ok_def)
    obtain ph t where a: "acquire_slot ev now st ch x s = (ph, t)" by fastforce
    show ?thesis using r WantSlot a acquire_slot_move(1) [OF a x, of g] acquire_slot_move(2) [OF a x] by (auto simp: write_round_def holds_conn_def holds_stream_def)
  next
    case (WantStream ch x)
    then have x: "x = frameCharge (int (length ch))" using ok by (simp add: phase_ok_def)
    obtain ph t where a: "acquire_stream ev now st ch x s = (ph, t)" by fastforce
    show ?thesis using r WantStream a acquire_stream_move [OF a x g] by (auto simp: write_round_def holds_conn_def holds_stream_def)
  next
    case (WantConn ch x)
    then have x: "x = frameCharge (int (length ch))" using ok by (simp add: phase_ok_def)
    obtain ph t where a: "acquire_conn ev now st ch x s = (ph, t)" by fastforce
    show ?thesis using r WantConn a acquire_conn_move [OF a x g] by (auto simp: write_round_def holds_conn_def holds_stream_def)
  next
    case (HaveAll ch x)
    then have x: "x = frameCharge (int (length ch))" using ok by (simp add: phase_ok_def)
    then have "0 \<le> x" by simp
    then show ?thesis using r HaveAll wmove_refund [of x g s] x g
      by (auto simp: write_round_def write_snapshot_def phase_defs split: if_splits)
  next
    case (WantQueue ch x w)
    then have x: "x = frameCharge (int (length ch))" using ok by (simp add: phase_ok_def)
    show ?thesis
    proof (cases "queue_data pick st ch x w s")
      case None
      then show ?thesis using r WantQueue x by (auto simp: write_round_def phase_ok_def)
    next
      case (Some et)
      obtain e t where et: "et = (e, t)" by (cases et)
      show ?thesis using r WantQueue Some et queue_data_move [OF Some [unfolded et] x g] x
        by (cases e) (auto simp: write_round_def write_queued_def phase_defs Let_def)
    qed
  next
    case (WriteEnded e)
    then show ?thesis using r by (auto simp: write_round_def phase_ok_def)
  qed
  then show "wmove g (holds_conn (wc_phase wc') - holds_conn (wc_phase wc)) (holds_stream (wc_phase wc') - holds_stream (wc_phase wc)) s s'"
    "phase_ok (wc_phase wc')" "wc_stream wc' = wc_stream wc" by auto
qed

subsection \<open>Frames from the peer\<close>

lemma insertFlow_credits:
  assumes "insertFlow f a s = (r, s')"
  shows "case r of Inl e \<Rightarrow> credits s' = credits s | Inr st \<Rightarrow> credits s' = (credits s)(Suc (sh_nextGeneration s) := base_stream)"
  using insertFlow_effect(8,9) [OF assms]
  by (auto simp: credits_def fun_eq_iff fresh_cell_def split: sum.splits)

text \<open>
  What a frame does to the send side: it grants at most what its header says, to the connection or to
  one generation.
\<close>

definition grants :: "MuxHeader \<Rightarrow> shared \<Rightarrow> shared \<Rightarrow> bool" where
  "grants h s s' \<longleftrightarrow> sh_dataTx s' = sh_dataTx s \<and> sh_nextGeneration s \<le> sh_nextGeneration s' \<and>
     sem_available (sh_connSend s') = sem_available (sh_connSend s) + conn_grant h s \<and>
     (\<forall>g. credits s g \<le> credits s' g) \<and> (\<forall>g > sh_nextGeneration s'. credits s' g = 0) \<and>
     (\<forall>fg g. if mh_Kind h = MuxFrameOpen \<and> g = Suc (sh_nextGeneration s) then credits s' g \<le> flow_grant h s fg g
             else credits s' g + fg g \<le> credits s g + flow_grant h s fg g)"

lemma grants_ssame:
  assumes "ssame s s'" "\<forall>g > sh_nextGeneration s. credits s g = 0" "conn_grant h s = 0"
  shows "grants h s s'"
  using assms
  by (auto simp: grants_def ssame_def flow_grant_def Let_def split: option.splits)

lemma grants_then: "grants h s t \<Longrightarrow> ssame t u \<Longrightarrow> grants h s u"
  by (auto simp: grants_def ssame_def)

lemma grants_receiveWindow:
  assumes k: "mh_Kind h = MuxFrameWindow" and r: "receiveWindow h s = (a, s')"
    and z: "\<forall>g > sh_nextGeneration s. credits s g = 0" and t: "tables s"
  shows "grants h s s'"
proof (cases "mh_FlowID h = 0")
  case True
  then show ?thesis using k r z
    by (auto simp: grants_def receiveWindow_def Let_def conn_grant_def flow_grant_def availablePermits_def credits_def mux_kinds
        split: if_splits)
next
  case False
  then have c: "conn_grant h s = 0" by (simp add: conn_grant_def)
  show ?thesis
  proof (cases "flow_of s (mh_FlowID h)")
    case None
    then show ?thesis using r False grants_ssame [OF ssame_refl z c] by (auto simp: receiveWindow_def Let_def)
  next
    case (Some fl)
    let ?g = "fs_generation fl" and ?v = "int (unat (mh_Value h))"
    have fg: "flow_grant h s f = f(?g := f ?g + ?v)" for f using k False Some by (simp add: flow_grant_def mux_kinds)
    have "grants h s (upd_cell ?g (\<lambda>c. c\<lparr>c_sendCredit := sem_add ?v (c_sendCredit c)\<rparr>) s)"
      using k z c tab_lookup(3) [OF t Some] by (auto simp: grants_def fg credits_def mux_kinds)
    then show ?thesis using r False Some grants_ssame [OF ssame_reset_flow z c]
      by (auto simp: receiveWindow_def Let_def split: if_splits)
  qed
qed

lemma grants_receiveOpen:
  assumes k: "mh_Kind h = MuxFrameOpen" and r: "receiveOpen b h s = (a, st, s')"
    and z: "\<forall>g > sh_nextGeneration s. credits s g = 0"
  shows "grants h s s'"
proof -
  let ?f = "mh_FlowID h" and ?n = "sh_nextGeneration s" and ?v = "int (unat (mh_Value h))"
  obtain ir t where i: "insertFlow ?f True s = (ir, t)" by (cases "insertFlow ?f True s")
  note e = insertFlow_effect [OF i] insertFlow_credits [OF i]
  have c: "conn_grant h s = 0" using k by (simp add: conn_grant_def mux_kinds)
  have fg: "flow_grant h s f = f(Suc ?n := base_stream + ?v)" for f using k by (simp add: flow_grant_def)
  show ?thesis
  proof (cases ir)
    case (Inl x)
    then show ?thesis using r i e z c k by (auto simp: receiveOpen_def grants_def fg add_nonneg_nonneg)
  next
    case (Inr y)
    note y = e(8) [OF Inr]
    have cr: "credits t = (credits s)(Suc ?n := base_stream)" using e(10) Inr by simp
    have gt: "grants h s t" using e(5-7) y z c k cr by (auto simp: grants_def fg)
    let ?t = "upd_cell (Suc ?n) (\<lambda>c. c\<lparr>c_sendCredit := sem_add ?v (c_sendCredit c)\<rparr>) t"
    have "credits ?t = (credits s)(Suc ?n := base_stream + ?v)" using cr by (auto simp: credits_def fun_eq_iff split: if_splits)
    then have gu: "grants h s ?t" using e(5-7) y z c k by (auto simp: grants_def fg)
    show ?thesis using r i Inr y grants_then [OF gt ssame_reset_flow] grants_then [OF gt ssame_offer] grants_then [OF gu ssame_offer]
      by (auto simp: receiveOpen_def Let_def split: prod.splits if_splits)
  qed
qed

lemma grants_dispatch:
  assumes r: "dispatch b h p s = (a, st, s')" and z: "\<forall>g > sh_nextGeneration s. credits s g = 0" and t: "tables s"
  shows "grants h s s'"
proof (cases "mh_Kind h = MuxFrameOpen \<or> mh_Kind h = MuxFrameWindow")
  case True
  then show ?thesis using r grants_receiveOpen [OF _ _ z] grants_receiveWindow [OF _ _ z t]
    by (auto simp: dispatch_def mux_kinds split: prod.splits if_splits)
next
  case False
  then have c: "conn_grant h s = 0" by (simp add: conn_grant_def)
  have "ssame s s'" using r False ssame_receiveData ssame_receiveClose
    by (auto simp: dispatch_def split: prod.splits if_splits)
  then show ?thesis by (rule grants_ssame [OF _ z c])
qed

subsection \<open>The steps\<close>

lemma send_invD:
  assumes "send_inv c"
  shows "0 \<le> sem_available (sh_connSend (cr_sh c))"
    "sem_available (sh_connSend (cr_sh c)) + conn_held (cr_writes c) + queued (sh_dataTx (cr_sh c)) + cr_sent c = cr_granted c"
    "0 \<le> credits (cr_sh c) g" "0 \<le> cr_fsent c g"
    "credits (cr_sh c) g + fheld g (cr_writes c) + fqueued g (sh_dataTx (cr_sh c)) + cr_fsent c g \<le> cr_fgranted c g"
    "\<forall>g > sh_nextGeneration (cr_sh c). credits (cr_sh c) g = 0 \<and> cr_fsent c g = 0"
    "list_all (\<lambda>w. phase_ok (wc_phase w) \<and> wc_stream w \<le> sh_nextGeneration (cr_sh c)) (cr_writes c)"
    "list_all (\<lambda>i. ob_generation i \<le> sh_nextGeneration (cr_sh c)) (sh_dataTx (cr_sh c))"
    "list_all (\<lambda>i. ob_payload i = [] \<and> ob_generation i \<le> sh_nextGeneration (cr_sh c)) (cr_fins c)"
  using assms by (auto simp: send_inv_def Let_def)

lemma fheld_beyond: "list_all (\<lambda>w. P w \<and> wc_stream w \<le> n) ws \<Longrightarrow> n < g \<Longrightarrow> fheld g ws = 0"
  by (induction ws) (auto simp: fheld_def)

lemma fqueued_beyond: "list_all (\<lambda>i. ob_generation i \<le> n) q \<Longrightarrow> n < g \<Longrightarrow> fqueued g q = 0"
  by (induction q) auto

lemma list_all_weaken: "list_all P xs \<Longrightarrow> (\<And>x. P x \<Longrightarrow> Q x) \<Longrightarrow> list_all Q xs"
  by (auto simp: list_all_iff)

lemma send_ReadFrame:
  assumes i: "send_inv c" and t: "tables (cr_sh c)"
  shows "send_inv (step_ReadFrame b c)"
proof (cases "\<exists>h p r. cr_reader c = Reading \<and> readFrame (cr_in c) = Inr ((h, p), r)")
  case True
  let ?s = "cr_sh c" and ?n = "sh_nextGeneration (cr_sh c)"
  from True obtain h p r where rd: "cr_reader c = Reading" "readFrame (cr_in c) = Inr ((h, p), r)" by blast
  obtain a st s' where d: "dispatch b h p ?s = (a, st, s')" by (metis prod.exhaust)
  note D = send_invD [OF i]
  have g: "grants h ?s s'" using D(6) by (intro grants_dispatch [OF d _ t]) auto
  let ?c = "step_ReadFrame b c"
  have c': "cr_sh ?c = s'" "cr_writes ?c = cr_writes c" "cr_fins ?c = cr_fins c" "cr_sent ?c = cr_sent c" "cr_fsent ?c = cr_fsent c"
    "cr_granted ?c = cr_granted c + conn_grant h ?s" "cr_fgranted ?c = flow_grant h ?s (cr_fgranted c)"
    using rd d by (auto simp: step_ReadFrame_def readLoop_round_def add_stream_def split: after.splits option.splits)
  have le: "?n \<le> sh_nextGeneration s'" using g by (simp add: grants_def)
  have cg: "0 \<le> conn_grant h ?s" by (simp add: conn_grant_def Let_def)
  have F: "credits s' k + fheld k (cr_writes c) + fqueued k (sh_dataTx s') + cr_fsent c k \<le> flow_grant h ?s (cr_fgranted c) k" for k
  proof (cases "mh_Kind h = MuxFrameOpen \<and> k = Suc ?n")
    case True
    have z: "fheld k (cr_writes c) = 0" "fqueued k (sh_dataTx ?s) = 0" "cr_fsent c k = 0"
      using True fheld_beyond [OF D(7)] fqueued_beyond [OF D(8)] D(6) by auto
    then show ?thesis using g True by (auto simp: grants_def dest: spec [of _ k])
  next
    case False
    then have "credits s' k + cr_fgranted c k \<le> credits ?s k + flow_grant h ?s (cr_fgranted c) k"
      using g unfolding grants_def by (metis (no_types, lifting))
    then show ?thesis using D(5) [of k] g by (simp add: grants_def)
  qed
  have nn: "0 \<le> credits s' k" for k using g D(3) [of k] by (auto simp: grants_def dest!: spec [of _ k])
  show ?thesis using D(1,2,4,6-9) g F nn le cg unfolding send_inv_def Let_def c'
    by (auto simp: grants_def elim!: list_all_weaken)
next
  case False
  then show ?thesis using i
    by (auto simp: step_ReadFrame_def split: sum.splits prod.splits intro: send_keep)
qed

lemma send_Prepare:
  assumes i: "send_inv c"
  shows "send_inv (step_Prepare f c)"
proof -
  let ?s = "cr_sh c" and ?n = "sh_nextGeneration (cr_sh c)"
  obtain r s' where ins: "insertFlow f False ?s = (r, s')" by (cases "insertFlow f False ?s")
  note e = insertFlow_effect [OF ins] insertFlow_credits [OF ins]
  note D = send_invD [OF i]
  have z: "fheld (Suc ?n) (cr_writes c) = 0" "fqueued (Suc ?n) (sh_dataTx ?s) = 0" "cr_fsent c (Suc ?n) = 0"
    using fheld_beyond [OF D(7)] fqueued_beyond [OF D(8)] D(6) by auto
  show ?thesis
  proof (cases r)
    case (Inl x)
    then show ?thesis using ins e D
      by (auto simp: step_Prepare_def PrepareStream_def send_inv_def Let_def elim!: list_all_weaken)
  next
    case (Inr st)
    note n = e(8) [OF Inr]
    show ?thesis using ins Inr n e(5,6,10) D z
      by (auto simp: step_Prepare_def PrepareStream_def send_inv_def Let_def add_stream_def newStream_def elim!: list_all_weaken)
  qed
qed

lemma send_WriteRound:
  assumes i: "send_inv c" and so: "streams_ok (sh_nextGeneration (cr_sh c)) (cr_streams c)"
  shows "send_inv (step_WriteRound j ev pick now c)"
proof (cases "j < length (cr_writes c) \<and> cr_streams c (wc_stream (cr_writes c ! j)) \<noteq> None")
  case True
  let ?s = "cr_sh c" and ?n = "sh_nextGeneration (cr_sh c)" and ?wc = "cr_writes c ! j"
  from True obtain st where j: "j < length (cr_writes c)" and st: "cr_streams c (wc_stream ?wc) = Some st" by auto
  obtain wc' s' where w: "write_round ev pick now ?wc st ?s = (wc', s')" by (cases "write_round ev pick now ?wc st ?s")
  note D = send_invD [OF i]
  have g: "st_generation st = wc_stream ?wc" "wc_stream ?wc \<le> ?n" using so st by (auto simp: stream_ok_def)
  have ok: "phase_ok (wc_phase ?wc)" using D(7) j by (simp add: list_all_length)
  note m = write_round_move [OF w ok g(1)]
  have c': "step_WriteRound j ev pick now c = c\<lparr>cr_writes := (cr_writes c)[j := wc'], cr_sh := s'\<rparr>"
    using j st w by (simp add: step_WriteRound_def)
  have n: "sh_nextGeneration s' = ?n" using m(1) by (simp add: wmove_def)
  have ch: "conn_held ((cr_writes c)[j := wc']) = conn_held (cr_writes c) - holds_conn (wc_phase ?wc) + holds_conn (wc_phase wc')"
    by (rule conn_held_update [OF j])
  have F: "0 \<le> credits s' k \<and> credits s' k + fheld k ((cr_writes c)[j := wc']) + fqueued k (sh_dataTx s') + cr_fsent c k \<le> cr_fgranted c k" for k
  proof (cases "k = wc_stream ?wc")
    case True
    then show ?thesis using m(1,3) D(3,5) [of k] fheld_update [OF j m(3), of k] by (auto simp: wmove_def)
  next
    case False
    then show ?thesis using m(1,3) D(3,5) [of k] fheld_update [OF j m(3), of k] by (auto simp: wmove_def)
  qed
  have W: "list_all (\<lambda>w. phase_ok (wc_phase w) \<and> wc_stream w \<le> ?n) ((cr_writes c)[j := wc'])"
    using D(7) m(2,3) g(2) j by (auto simp: list_all_length nth_list_update)
  obtain q where q: "sh_dataTx s' = sh_dataTx ?s @ q" "list_all (\<lambda>i. ob_generation i = wc_stream ?wc) q"
    using m(1) by (auto simp: wmove_def)
  have Q: "list_all (\<lambda>i. ob_generation i \<le> ?n) (sh_dataTx s')"
    using D(8) q g(2) by (auto elim!: list_all_weaken)
  have z: "\<forall>k > ?n. credits s' k = 0" using m(1) D(6) g(2) by (auto simp: wmove_def)
  have A: "0 \<le> sem_available (sh_connSend s')"
    "sem_available (sh_connSend s') + conn_held ((cr_writes c)[j := wc']) + queued (sh_dataTx s') + cr_sent c = cr_granted c"
    using m(1) D(1,2) ch by (auto simp: wmove_def)
  show ?thesis using A F W Q z D(4,6,9) n unfolding c' by (auto simp: send_inv_def Let_def)
next
  case False
  then show ?thesis using i by (auto simp: step_WriteRound_def Let_def)
qed

lemma send_StreamWrite:
  assumes i: "send_inv c" and so: "streams_ok (sh_nextGeneration (cr_sh c)) (cr_streams c)"
  shows "send_inv (step_StreamWrite g p c)"
proof (cases "cr_streams c g")
  case (Some st)
  have "g \<le> sh_nextGeneration (cr_sh c)" using so Some by (auto simp: stream_ok_def)
  moreover have "phase_ok (wc_phase (Write_start g p st))" "holds_conn (wc_phase (Write_start g p st)) = 0"
    "holds_stream (wc_phase (Write_start g p st)) = 0" "wc_stream (Write_start g p st) = g"
    by (auto simp: Write_start_def phase_defs)
  ultimately show ?thesis using Some send_invD [OF i]
    by (auto simp: step_StreamWrite_def send_inv_def Let_def conn_held_def fheld_def)
qed (use i in \<open>simp add: step_StreamWrite_def\<close>)

text \<open>Frames without payload entering the queue.\<close>

definition enqueues :: "shared \<Rightarrow> shared \<Rightarrow> bool" where
  "enqueues s s' \<longleftrightarrow> sem_available (sh_connSend s') = sem_available (sh_connSend s) \<and> credits s' = credits s \<and>
     sh_nextGeneration s' = sh_nextGeneration s \<and>
     (\<exists>q. sh_dataTx s' = sh_dataTx s @ q \<and> list_all (\<lambda>i. ob_payload i = [] \<and> ob_generation i \<le> sh_nextGeneration s) q)"

lemma enqueues_ssame: "ssame s s' \<Longrightarrow> enqueues s s'"
  by (auto simp: enqueues_def ssame_def)

lemma enqueues_then: "enqueues s t \<Longrightarrow> ssame t u \<Longrightarrow> enqueues s u"
  by (auto simp: enqueues_def ssame_def)

lemma enqueues_sendOutbound:
  "sendOutbound pick item stop s = Some (e, s') \<Longrightarrow> ob_payload item = [] \<Longrightarrow> ob_generation item \<le> sh_nextGeneration s \<Longrightarrow> enqueues s s'"
  by (auto simp: sendOutbound_def enqueues_def credits_def fun_eq_iff split: send_pick.splits if_splits)

lemma enqueues_sendOutboundCtx:
  "sendOutboundCtx pick ctx item s = Some (e, s') \<Longrightarrow> ob_payload item = [] \<Longrightarrow> ob_generation item \<le> sh_nextGeneration s \<Longrightarrow> enqueues s s'"
  by (auto simp: sendOutboundCtx_def enqueues_ssame intro: enqueues_sendOutbound split: send_pick.splits option.splits)

lemma enqueues_commitOpen:
  assumes "commitOpen pick ctx st s = Some (e, s')" "st_generation st \<le> sh_nextGeneration s"
  shows "enqueues s s'"
proof -
  let ?item = "\<lambda>h. \<lparr>ob_header = h, ob_payload = [], ob_release = None, ob_flushed = False, ob_generation = st_generation st\<rparr>"
  have sd: "enqueues s t" if "sendOutboundCtx pick ctx (?item h) s = Some (e', t)" for h e' t
    by (rule enqueues_sendOutboundCtx [OF that]) (use assms(2) in auto)
  have rm: "enqueues s (removeCurrentFlow f g t)" if "enqueues s t" for f g t
    by (rule enqueues_then [OF that quiet_ssame [OF quiet_removeCurrentFlow]])
  show ?thesis
  proof (cases "OpenMuxHeader (st_flowID st) (extraUnits (sh_config s))")
    case (Inl e')
    then show ?thesis using assms(1) rm [OF enqueues_ssame [OF ssame_refl]]
      by (auto simp: commitOpen_def Let_def split: if_splits)
  next
    case (Inr h)
    show ?thesis
    proof (cases "sendOutboundCtx pick ctx (?item h) s")
      case None
      then show ?thesis using assms(1) Inr rm [OF enqueues_ssame [OF ssame_refl]]
        by (auto simp: commitOpen_def Let_def split: if_splits)
    next
      case (Some et)
      obtain e' t where et: "et = (e', t)" by (cases et)
      note t = sd [OF Some [unfolded et]]
      show ?thesis using assms(1) Inr Some et t rm [OF t] rm [OF enqueues_ssame [OF ssame_refl]]
        by (cases e') (auto simp: commitOpen_def Let_def split: if_splits)
    qed
  qed
qed

lemma empty_items: "list_all (\<lambda>i. ob_payload i = [] \<and> P i) q \<Longrightarrow> queued q = 0 \<and> fqueued g q = 0"
  by (induction q) (auto simp: item_charge_def frameCharge_def creditUnits_def)

lemma send_enqueue:
  assumes i: "send_inv c" and s: "enqueues (cr_sh c) (cr_sh c')" and w: "cr_writes c' = cr_writes c"
    and f: "list_all (\<lambda>i. ob_payload i = [] \<and> ob_generation i \<le> sh_nextGeneration (cr_sh c)) (cr_fins c')"
    and h: "cr_granted c' = cr_granted c" "cr_sent c' = cr_sent c" "cr_fgranted c' = cr_fgranted c" "cr_fsent c' = cr_fsent c"
  shows "send_inv c'"
proof -
  obtain q where q: "sh_dataTx (cr_sh c') = sh_dataTx (cr_sh c) @ q"
    "list_all (\<lambda>i. ob_payload i = [] \<and> ob_generation i \<le> sh_nextGeneration (cr_sh c)) q"
    using s by (auto simp: enqueues_def)
  have "list_all (\<lambda>i. ob_generation i \<le> sh_nextGeneration (cr_sh c)) q" using q(2) by (rule list_all_weaken) simp
  then show ?thesis using send_invD [OF i] s w f h empty_items [OF q(2)] q(1)
    by (auto simp: send_inv_def Let_def enqueues_def)
qed

lemma send_Commit:
  assumes i: "send_inv c" and so: "streams_ok (sh_nextGeneration (cr_sh c)) (cr_streams c)"
  shows "send_inv (step_Commit g pick ctx c)"
  using i so send_invD(9) [OF i]
  by (auto simp: step_Commit_def OpenPrepared_def stream_ok_def split: option.splits
      intro!: send_enqueue [OF i] enqueues_commitOpen)

lemma send_StreamCloseWrite:
  assumes i: "send_inv c" and so: "streams_ok (sh_nextGeneration (cr_sh c)) (cr_streams c)"
  shows "send_inv (step_StreamCloseWrite g c)"
proof (cases "cr_streams c g")
  case (Some st)
  obtain r st' s' where b: "CloseWrite_begin st (cr_sh c) = (r, st', s')" by (metis prod.exhaust)
  have "st_generation st \<le> sh_nextGeneration (cr_sh c)" using so Some by (auto simp: stream_ok_def)
  then have "ssame (cr_sh c) s'" "case r of Inl _ \<Rightarrow> True | Inr i \<Rightarrow> ob_payload i = [] \<and> ob_generation i \<le> sh_nextGeneration (cr_sh c)"
    using b quiet_ssame [OF quiet_releasePart] by (auto simp: CloseWrite_begin_def Let_def split: if_splits sum.splits)
  then show ?thesis using Some b send_invD(9) [OF i]
    by (auto simp: step_StreamCloseWrite_def intro!: send_enqueue [OF i] enqueues_ssame split: sum.splits)
qed (use i in \<open>simp add: step_StreamCloseWrite_def\<close>)

lemma send_FinRound:
  assumes i: "send_inv c"
  shows "send_inv (step_FinRound j pick c)"
proof (cases "j < length (cr_fins c)")
  case True
  let ?item = "cr_fins c ! j"
  have f: "ob_payload ?item = []" "ob_generation ?item \<le> sh_nextGeneration (cr_sh c)"
    using send_invD(9) [OF i] True by (auto simp: list_all_length)
  have "list_all (\<lambda>i. ob_payload i = [] \<and> ob_generation i \<le> sh_nextGeneration (cr_sh c)) (take j (cr_fins c) @ drop (Suc j) (cr_fins c))"
    using send_invD(9) [OF i] by (auto simp: list_all_iff dest: in_set_takeD in_set_dropD)
  then show ?thesis using i True f quiet_ssame [OF quiet_releasePart]
    by (auto simp: step_FinRound_def Let_def CloseWrite_finish_def split: option.splits
        intro!: send_enqueue [OF i] enqueues_then [OF enqueues_sendOutbound])
qed (use i in \<open>simp add: step_FinRound_def\<close>)

subsection \<open>The writer\<close>

lemma ssame_readyWindows: "readyWindows frames ready s = (r, s') \<Longrightarrow> ssame s s'"
proof (induction frames ready s arbitrary: r s' rule: readyWindows.induct)
  case (2 frames flowID ready s)
  show ?case
  proof (cases "flow_of s flowID")
    case None
    with 2 show ?thesis by simp
  next
    case (Some fs)
    let ?t = "put_flow flowID (fs\<lparr>fs_pendingReceive := 0, fs_windowQueued := False\<rparr>) s"
    have t: "ssame s ?t" by (rule quiet_ssame) simp
    consider "fs_pendingReceive fs = 0" | e where "fs_pendingReceive fs \<noteq> 0" "appendWindows frames flowID (fs_pendingReceive fs) = Inl e"
      | fr where "fs_pendingReceive fs \<noteq> 0" "appendWindows frames flowID (fs_pendingReceive fs) = Inr fr"
      by (cases "appendWindows frames flowID (fs_pendingReceive fs)") auto
    then have "ssame ?t s'"
    proof cases
      case 1
      then show ?thesis using "2.IH"(2) [OF Some refl refl] "2.prems" Some by simp
    next
      case 2
      then show ?thesis using "2.prems" Some by simp
    next
      case 3
      then show ?thesis using "2.IH"(3) [OF Some refl refl] "2.prems" Some by simp
    qed
    with t show ?thesis by (rule ssame_trans)
  qed
qed simp

lemma ssame_finishResets: "ssame s (fold finishReset fs s)"
proof (induction fs arbitrary: s)
  case (Cons f fs)
  have "ssame s (finishReset f s)" by (simp add: ssame_def finishReset_def credits_def fun_eq_iff)
  then show ?case using Cons ssame_trans by auto
qed simp

lemma ssame_writePendingWindows: "writePendingWindows w s = Ret (e, w', s') \<Longrightarrow> ssame s s'"
proof -
  assume a: "writePendingWindows w s = Ret (e, w', s')"
  let ?t = "s\<lparr>sh_pendingConn := 0, sh_ready := []\<rparr>"
  have "ssame s ?t" by (simp add: ssame_def credits_def fun_eq_iff)
  moreover have "ssame ?t s'"
    using a by (auto simp: writePendingWindows_def Let_def split: sum.splits prod.splits if_splits go.splits option.splits
        intro: ssame_readyWindows ssame_trans [OF ssame_readyWindows ssame_finishResets])
  ultimately show ?thesis by (rule ssame_trans)
qed

lemma ssame_release_slot: "ssame s (release_slot item s)"
  by (auto simp: release_slot_def intro: ssame_cell split: option.splits)

lemma writeItem_effect:
  assumes "writeItem fl item w s = Ret (e, w', s')"
  shows "if isCurrentFlow (mh_FlowID (ob_header item)) (ob_generation item) s then ssame s s'
    else ssame (conn_add (item_charge item) s) s'"
proof -
  have z: "ob_payload item = [] \<Longrightarrow> item_charge item = 0" by (simp add: item_charge_def frameCharge_def creditUnits_def)
  have c0: "conn_add 0 s = s" by (simp add: sem_add_def)
  show ?thesis using assms z c0
    by (auto simp: writeItem_def Let_def simp flip: item_charge_def
        split: if_splits sum.splits go.splits option.splits prod.splits
        intro: ssame_release_slot ssame_trans [OF quiet_ssame [OF quiet_finishLocalFin] ssame_release_slot])
qed

lemma send_item:
  assumes i: "send_inv c" and q: "sh_dataTx (cr_sh c) = item # rest"
    and cur: "cur = isCurrentFlow (mh_FlowID (ob_header item)) (ob_generation item) (cr_sh c)"
    and s: "if cur then ssame ((cr_sh c)\<lparr>sh_dataTx := rest\<rparr>) (cr_sh c')
            else ssame (conn_add (item_charge item) ((cr_sh c)\<lparr>sh_dataTx := rest\<rparr>)) (cr_sh c')"
    and w: "cr_writes c' = cr_writes c" "cr_fins c' = cr_fins c" "cr_granted c' = cr_granted c" "cr_fgranted c' = cr_fgranted c"
    and h: "cr_sent c' = cr_sent c + (if cur then item_charge item else 0)"
      "cr_fsent c' = (if cur then (cr_fsent c)(ob_generation item := cr_fsent c (ob_generation item) + item_charge item) else cr_fsent c)"
  shows "send_inv c'"
proof -
  note D = send_invD [OF i]
  have gen: "ob_generation item \<le> sh_nextGeneration (cr_sh c)" using D(8) q by simp
  have s': "sh_dataTx (cr_sh c') = rest" "sh_nextGeneration (cr_sh c') = sh_nextGeneration (cr_sh c)"
    "sem_available (sh_connSend (cr_sh c')) = sem_available (sh_connSend (cr_sh c)) + (if cur then 0 else item_charge item)"
    "credits (cr_sh c') = credits (cr_sh c)"
    using s by (auto simp: ssame_def credits_def fun_eq_iff split: if_splits)
  have F: "credits (cr_sh c) k + fheld k (cr_writes c) + fqueued k rest + cr_fsent c' k \<le> cr_fgranted c k" "0 \<le> cr_fsent c' k" for k
  proof -
    obtain x where x: "item_charge item = x" "0 \<le> x" by simp
    show "credits (cr_sh c) k + fheld k (cr_writes c) + fqueued k rest + cr_fsent c' k \<le> cr_fgranted c k" "0 \<le> cr_fsent c' k"
      using D(4,5) [of k] q h(2) x by (auto split: if_splits)
  qed
  show ?thesis using D(1-3,6-9) F s' w h(1) gen q h(2) unfolding send_inv_def Let_def
    by (auto split: if_splits)
qed

lemma send_WriterRound:
  assumes i: "send_inv c"
  shows "send_inv (step_WriterRound pick fl c)"
proof -
  let ?s = "cr_sh c" and ?t = "(cr_sh c)\<lparr>sh_control := False\<rparr>"
  let ?c = "c\<lparr>cr_adv := cr_adv c + advertised (cr_writer c) pick ?s, cr_sent := cr_sent c + sent_charge (cr_writer c) pick ?s,
      cr_fsent := sent_flow (cr_writer c) pick ?s (cr_fsent c)\<rparr>"
  have t: "ssame ?s ?t" by (simp add: ssame_def credits_def fun_eq_iff)
  have keep: "send_inv (after_write nxt x c ?c)"
    if "written_item (cr_writer c) pick ?s = None" "\<And>e w s'. x = Ret (e, w, s') \<Longrightarrow> ssame ?s s'" for nxt x
    using that by (auto simp: after_write_def sent_charge_def sent_flow_def split: go.splits prod.splits option.splits intro!: send_keep [OF i])
  have win: "send_inv (after_write nxt (writePendingWindows w ?t) c ?c)"
    if "written_item (cr_writer c) pick ?s = None" for nxt w
    using ssame_trans [OF t ssame_writePendingWindows] by (intro keep [OF that])
  show ?thesis
  proof (cases "cr_writer c")
    case WriterFirst
    then have n: "written_item (cr_writer c) pick ?s = None" by (simp add: written_item_def)
    show ?thesis using keep [OF n, of "writeLoop_first (cr_out c) ?s"] win [OF n] WriterFirst
      by (cases "sh_closed ?s \<or> \<not> sh_control ?s") (auto simp: step_WriterRound_def writeLoop_first_def)
  next
    case WriterSecond
    show ?thesis
    proof (cases pick)
      case WriteClosed
      then have n: "written_item (cr_writer c) pick ?s = None" by (simp add: written_item_def)
      show ?thesis using i keep [OF n, of "Ret (Some errClosed, cr_out c, ?s)"] WriterSecond WriteClosed
        by (auto simp: step_WriterRound_def writeLoop_second_def)
    next
      case WriteControl
      then have n: "written_item (cr_writer c) pick ?s = None" by (simp add: written_item_def)
      show ?thesis using i win [OF n] WriterSecond WriteControl
        by (auto simp: step_WriterRound_def writeLoop_second_def)
    next
      case WriteData
      show ?thesis
      proof (cases "sh_dataTx ?s")
        case Nil
        then show ?thesis using i WriterSecond WriteData by (simp add: step_WriterRound_def writeLoop_second_def)
      next
        case (Cons item rest)
        let ?cur = "isCurrentFlow (mh_FlowID (ob_header item)) (ob_generation item) ?s"
        let ?r = "?s\<lparr>sh_dataTx := rest\<rparr>"
        have cur: "isCurrentFlow (mh_FlowID (ob_header item)) (ob_generation item) ?r = ?cur" by (simp add: isCurrentFlow_def)
        have h: "sent_charge (cr_writer c) pick ?s = (if ?cur then item_charge item else 0)"
          "sent_flow (cr_writer c) pick ?s (cr_fsent c) =
             (if ?cur then (cr_fsent c)(ob_generation item := cr_fsent c (ob_generation item) + item_charge item) else cr_fsent c)"
          using WriterSecond WriteData Cons by (simp_all add: sent_charge_def sent_flow_def written_item_def)
        have W: "step_WriterRound pick fl c = after_write WriterFirst (writeItem fl item (cr_out c) ?r) c ?c"
          using WriterSecond WriteData Cons by (simp add: step_WriterRound_def writeLoop_second_def)
        show ?thesis
        proof (cases "writeItem fl item (cr_out c) ?r")
          case (Ret x)
          obtain e w' s' where x: "x = (e, w', s')" by (metis prod.exhaust)
          note E = writeItem_effect [OF Ret [unfolded x], unfolded cur]
          show ?thesis unfolding W Ret x
            by (cases e; rule send_item [OF i Cons refl]) (use E h in \<open>auto simp: after_write_def\<close>)
        next
          case Panic
          then show ?thesis unfolding W by (auto simp: after_write_def intro!: send_keep [OF i])
        qed
      qed
    qed
  qed (use i in \<open>simp_all add: step_WriterRound_def\<close>)
qed

subsection \<open>Every run\<close>

lemma send_on_stream:
  assumes i: "send_inv c" and "\<And>st st' s'. f st (cr_sh c) = (st', s') \<Longrightarrow> ssame (cr_sh c) s'"
  shows "send_inv (on_stream g f c)"
  using assms by (auto simp: on_stream_def split: option.splits prod.splits intro!: send_keep [OF i])

lemma send_DeliverMsg:
  assumes i: "send_inv c"
  shows "send_inv (step_DeliverMsg b c)"
proof -
  have "ssame s s'" if "deliver_inbound b g m s = Some (rs, s')" for g m s rs s'
    using that by (auto simp: deliver_inbound_def split: if_splits intro!: ssame_cell)
  then show ?thesis using i
    by (auto simp: step_DeliverMsg_def split: reader_state.splits option.splits intro!: send_keep [OF i])
qed

lemma send_close:
  assumes i: "send_inv c"
  shows "send_inv (c\<lparr>cr_sh := closeWithReason r (cr_sh c)\<rparr>)"
  by (rule send_keep [OF i]) (simp_all add: ssame_closeWithReason)

lemma send_exit:
  assumes i: "send_inv c"
  shows "send_inv (step_ReaderExit c)" "send_inv (step_WriterExit c)"
  using i send_close [OF i]
  by (auto simp: step_ReaderExit_def step_WriterExit_def runReader_end_def runWriter_end_def
      split: reader_state.splits writer_state.splits)

lemma send_step:
  assumes i: "send_inv c" and r: "recv_inv c"
  shows "send_inv (mux_step c a)"
proof -
  have t: "tables (cr_sh c)" and so: "streams_ok (sh_nextGeneration (cr_sh c)) (cr_streams c)"
    using r by (auto simp: recv_inv_iff rgood_def)
  have sr: "send_inv (step_StreamRead g k now pick c)" for g k now pick
    unfolding step_StreamRead_def by (rule send_on_stream [OF i], rule ssame_read_round) (simp add: prod_eq_iff)
  have sc: "send_inv (step_StreamCloseRead g c)" for g
    unfolding step_StreamCloseRead_def by (rule send_on_stream [OF i ssame_closeReader])
  have sd: "send_inv (step_StreamDeadline g rd wr c)" for g rd wr
    unfolding step_StreamDeadline_def by (rule send_on_stream [OF i]) auto
  have acc: "ssame (cr_sh c) s'" if "Incoming_Accept p (cr_sh c) = Some (x, s')" for p x s'
    using that by (auto simp: Incoming_Accept_def ssame_def credits_def fun_eq_iff split: accept_pick.splits list.splits if_splits)
  have rej: "ssame (cr_sh c) (rejectIncoming (cr_sh c))" by (simp add: rejectIncoming_def ssame_def credits_def fun_eq_iff)
  show ?thesis
    using send_Prepare [OF i] send_Commit [OF i so] send_ReadFrame [OF i t] send_DeliverMsg [OF i] send_exit [OF i]
      send_StreamWrite [OF i so] send_WriteRound [OF i so] send_StreamCloseWrite [OF i so] send_FinRound [OF i]
      send_WriterRound [OF i] send_close [OF i] sr sc sd acc rej i
    by (cases a) (auto split: option.splits intro!: send_keep [OF i])
qed

lemma send_start:
  assumes "Start cfg = Inr s"
  shows "send_inv (carrier_start s r w)"
proof -
  note st = Start_Inr [OF assms]
  have "credits s = (\<lambda>_. 0)" using assms
    by (auto simp: Start_def Let_def credits_def no_cell_def newSemaphore_def fun_eq_iff split: sum.splits)
  then show ?thesis
    by (simp add: send_inv_def Let_def carrier_start_def st conn_held_def fheld_def)
qed

definition carrier_inv :: "carrier \<Rightarrow> bool" where
  "carrier_inv c \<longleftrightarrow> recv_inv c \<and> send_inv c"

interpretation mux: invariant_machine carrier_starts mux_step carrier_inv
  by unfold_locales (auto simp: carrier_inv_def carrier_starts_def recv_start send_start recv_step send_step)

text \<open>The configuration never changes.\<close>

lemma config_on_stream:
  assumes "\<And>st st' s'. cr_streams c g = Some st \<Longrightarrow> f st (cr_sh c) = (st', s') \<Longrightarrow> ssame (cr_sh c) s'"
  shows "sh_config (cr_sh (on_stream g f c)) = sh_config (cr_sh c)"
proof (cases "cr_streams c g")
  case (Some st)
  obtain st' s' where f: "f st (cr_sh c) = (st', s')" by (cases "f st (cr_sh c)")
  have "sh_config s' = sh_config (cr_sh c)" using assms [OF Some f] by (simp add: ssame_def)
  then show ?thesis using Some f by (simp add: on_stream_def)
qed (simp add: on_stream_def)

lemma config_ReadFrame: "recv_inv c \<Longrightarrow> sh_config (cr_sh (step_ReadFrame b c)) = sh_config (cr_sh c)"
proof (cases "\<exists>h p r. cr_reader c = Reading \<and> readFrame (cr_in c) = Inr ((h, p), r)")
  case True
  assume i: "recv_inv c"
  from True obtain h p r where rd: "cr_reader c = Reading" "readFrame (cr_in c) = Inr ((h, p), r)" by blast
  obtain a st s' where d: "dispatch b h p (cr_sh c) = (a, st, s')" by (metis prod.exhaust)
  have "rgood (cr_sh c)" using i by (simp add: recv_inv_iff)
  then have "sh_config s' = sh_config (cr_sh c)"
    using dispatch_effect(1) [OF _ readFrame_ok [OF rd(2)] d] by (simp add: handled_def eff_def)
  then show ?thesis using rd d by (auto simp: step_ReadFrame_def readLoop_round_def add_stream_def split: after.splits option.splits)
next
  case False
  then show ?thesis by (auto simp: step_ReadFrame_def split: sum.splits prod.splits)
qed

definition same_config :: "shared \<Rightarrow> shared \<Rightarrow> bool" where
  "same_config s s' \<longleftrightarrow> sh_config s' = sh_config s"

lemma config_WriterRound: "sh_config (cr_sh (step_WriterRound pick fl c)) = sh_config (cr_sh c)"
proof -
  have w: "same_config s s'" if "writePendingWindows w (s\<lparr>sh_control := False\<rparr>) = Ret (e, w', s')" for w s e w' s'
    using ssame_writePendingWindows [OF that] by (simp add: ssame_def same_config_def)
  have i: "same_config s s'" if "writeItem fl item w (s\<lparr>sh_dataTx := q\<rparr>) = Ret (e, w', s')" for item w s q e w' s'
    using writeItem_effect [OF that] by (auto simp: ssame_def same_config_def split: if_splits)
  have r: "same_config s s" for s by (simp add: same_config_def)
  have a: "same_config (cr_sh c) (cr_sh (after_write nxt x c c'))"
    if "\<And>e w s'. x = Ret (e, w, s') \<Longrightarrow> same_config (cr_sh c) s'" for nxt x c'
    using that by (auto simp: after_write_def r split: go.splits prod.splits option.splits)
  have "same_config (cr_sh c) (cr_sh (step_WriterRound pick fl c))"
    unfolding step_WriterRound_def Let_def
    by (auto simp: writeLoop_first_def writeLoop_second_def r intro!: a dest: w i
        split: writer_state.splits write_pick.splits list.splits if_splits option.splits)
  then show ?thesis by (simp add: same_config_def)
qed

lemma config_closeWithReason: "sh_config (closeWithReason r s) = sh_config s"
  using ssame_closeWithReason [of s r] by (simp add: ssame_def)

lemma config_keeps: "rkeeps s s' \<Longrightarrow> sh_config s' = sh_config s"
  by (simp add: rkeeps_def rsame_def)

lemma config_step:
  assumes i: "recv_inv c"
  shows "sh_config (cr_sh (mux_step c a)) = sh_config (cr_sh c)"
proof -
  have sr: "sh_config (cr_sh (step_StreamRead g k now pick c)) = sh_config (cr_sh c)" for g k now pick
    unfolding step_StreamRead_def by (rule config_on_stream, rule ssame_read_round) (simp add: prod_eq_iff)
  have sc: "sh_config (cr_sh (step_StreamCloseRead g c)) = sh_config (cr_sh c)" for g
    unfolding step_StreamCloseRead_def by (rule config_on_stream [OF ssame_closeReader])
  have sd: "sh_config (cr_sh (step_StreamDeadline g rd wr c)) = sh_config (cr_sh c)" for g rd wr
    unfolding step_StreamDeadline_def by (rule config_on_stream) auto
  have pr: "sh_config (cr_sh (step_Prepare f c)) = sh_config (cr_sh c)" for f
    using insertFlow_effect(1) by (fastforce simp: step_Prepare_def PrepareStream_def add_stream_def split: prod.splits sum.splits)
  have dl: "sh_config (cr_sh (step_DeliverMsg b c)) = sh_config (cr_sh c)" for b
    by (auto simp: step_DeliverMsg_def deliver_inbound_def split: reader_state.splits option.splits if_splits)
  have ex: "sh_config (cr_sh (step_ReaderExit c)) = sh_config (cr_sh c)" "sh_config (cr_sh (step_WriterExit c)) = sh_config (cr_sh c)"
    by (auto simp: step_ReaderExit_def step_WriterExit_def runReader_end_def runWriter_end_def config_closeWithReason
        split: reader_state.splits writer_state.splits)
  have cm: "sh_config (cr_sh (step_Commit g pick ctx c)) = sh_config (cr_sh c)" for g pick ctx
    by (auto simp: step_Commit_def OpenPrepared_def split: option.splits dest: config_keeps [OF rkeeps_commitOpen])
  have wr: "sh_config (cr_sh (step_WriteRound j ev pick now c)) = sh_config (cr_sh c)" for j ev pick now
    by (auto simp: step_WriteRound_def Let_def split: option.splits prod.splits dest: config_keeps [OF rkeeps_write_round])
  have cw: "sh_config (cr_sh (step_StreamCloseWrite g c)) = sh_config (cr_sh c)" for g
    by (auto simp: step_StreamCloseWrite_def split: option.splits prod.splits dest!: CloseWrite_begin_effect config_keeps)
  have fr: "sh_config (cr_sh (step_FinRound j pick c)) = sh_config (cr_sh c)" for j pick
    by (auto simp: step_FinRound_def Let_def CloseWrite_finish_def split: option.splits prod.splits
        dest!: config_keeps [OF rkeeps_trans [OF rkeeps_sendOutbound rkeeps_releasePart]])
  show ?thesis
    using sr sc sd pr dl ex cm wr cw fr config_ReadFrame [OF i] config_WriterRound config_closeWithReason
    by (cases a) (auto simp: step_StreamWrite_def rejectIncoming_def Incoming_Accept_def
        split: option.splits accept_pick.splits list.splits if_splits)
qed

lemma config_run: "recv_inv c \<Longrightarrow> sh_config (cr_sh (run mux_step c as)) = sh_config (cr_sh c)"
  by (induction as arbitrary: c) (auto simp: config_step recv_step)

text \<open>What the invariant says of the credit the peer granted.\<close>

lemma carrier_sent_bounds:
  assumes "carrier_inv c"
  shows "cr_sent c \<le> cr_granted c" "cr_fsent c g \<le> cr_fgranted c g"
proof -
  note D = send_invD [of c, OF assms [unfolded carrier_inv_def, THEN conjunct2]]
  have p: "list_all (\<lambda>w. phase_ok (wc_phase w)) (cr_writes c)" using D(7) by (rule list_all_weaken) simp
  show "cr_sent c \<le> cr_granted c"
    using D(1,2) held_nonneg(1) [OF p] queued_nonneg(1) [of "sh_dataTx (cr_sh c)"] by linarith
  show "cr_fsent c g \<le> cr_fgranted c g"
    using D(3,5) [of g] held_nonneg(2) [OF p, of g] queued_nonneg(2) [of g "sh_dataTx (cr_sh c)"] by linarith
qed

end
