(* ===== verification/Mux_Order.thy ===== *)
theory Mux_Order
  imports Mux_Send "HOL-Library.Sublist"
begin

section \<open>The stream multiplexer: streams deliver in order\<close>

text \<open>
  What a stream has still to read is its current message from the offset on and the DATA in its
  queue. Every step either keeps it in step with what was delivered and what was read, or ends the
  stream for reading.
\<close>

definition payload_of :: "inbound \<Rightarrow> byte list" where
  "payload_of m = (case m of inboundData p c \<Rightarrow> p | _ \<Rightarrow> [])"

definition payloads :: "inbound list \<Rightarrow> byte list" where
  "payloads ms = concat (map payload_of ms)"

definition rest_of :: "Stream option \<Rightarrow> byte list" where
  "rest_of st = (case st of None \<Rightarrow> [] | Some st \<Rightarrow> drop (st_currentOff st) (st_current st))"

definition unread :: "nat \<Rightarrow> carrier \<Rightarrow> byte list" where
  "unread g c = rest_of (cr_streams c g) @ payloads (inbounds (cr_sh c) g)"

definition ended :: "nat \<Rightarrow> carrier \<Rightarrow> bool" where
  "ended g c \<longleftrightarrow> creset (cr_sh c) g \<or>
     (case cr_streams c g of None \<Rightarrow> False | Some st \<Rightarrow> st_readerClosed st \<and> st_current st = [])"

text \<open>What a step reads from a generation, and what it delivers to it.\<close>

definition read_by :: "nat \<Rightarrow> carrier \<Rightarrow> mux_op \<Rightarrow> byte list" where
  "read_by g c a =
     (case a of
        StreamRead g' k now pick \<Rightarrow>
          if g' = g then
            (case cr_streams c g of
               None \<Rightarrow> []
             | Some st \<Rightarrow>
                 (case fst (read_round k now pick st (cr_sh c)) of ReadData out \<Rightarrow> out | _ \<Rightarrow> []))
          else []
      | _ \<Rightarrow> [])"

definition delivered_by :: "nat \<Rightarrow> carrier \<Rightarrow> mux_op \<Rightarrow> byte list" where
  "delivered_by g c a =
     (case a of
        DeliverMsg b \<Rightarrow>
          (case cr_reader c of
             Delivering g' m \<Rightarrow>
               if g' = g \<and> \<not> b \<and> deliver_inbound b g' m (cr_sh c) \<noteq> None then payload_of m else []
           | _ \<Rightarrow> [])
      | _ \<Rightarrow> [])"

fun read_log :: "nat \<Rightarrow> carrier \<Rightarrow> mux_op list \<Rightarrow> byte list" where
  "read_log g c [] = []"
| "read_log g c (a # as) = read_by g c a @ read_log g (mux_step c a) as"

fun delivered_log :: "nat \<Rightarrow> carrier \<Rightarrow> mux_op list \<Rightarrow> byte list" where
  "delivered_log g c [] = []"
| "delivered_log g c (a # as) = delivered_by g c a @ delivered_log g (mux_step c a) as"

lemma payloads_simps [simp]:
  "payloads [] = []" "payloads (m # ms) = payload_of m @ payloads ms" "payloads (ms @ ms') = payloads ms @ payloads ms'"
  "payload_of (inboundData p x) = p" "payload_of inboundFin = []" "payload_of inboundReset = []"
  by (simp_all add: payloads_def payload_of_def)

subsection \<open>One step\<close>

definition in_step :: "nat \<Rightarrow> carrier \<Rightarrow> mux_op \<Rightarrow> carrier \<Rightarrow> bool" where
  "in_step g c a c' \<longleftrightarrow> cr_streams c' g \<noteq> None \<and> (ended g c \<longrightarrow> ended g c') \<and>
     (if ended g c' then read_by g c a = []
      else unread g c @ delivered_by g c a = read_by g c a @ unread g c')"

text \<open>A step that leaves the queue, the reset flag and the stream alone, or resets the generation.\<close>

definition rcell :: "nat \<Rightarrow> shared \<Rightarrow> shared \<Rightarrow> bool" where
  "rcell g s s' \<longleftrightarrow> creset s' g \<or> (inbounds s' g = inbounds s g \<and> \<not> creset s g)"

definition okey :: "Stream \<Rightarrow> byte list \<times> nat \<times> bool" where
  "okey st = (st_current st, st_currentOff st, st_readerClosed st)"

lemma in_step_keep:
  assumes st: "cr_streams c g = Some st" and st': "cr_streams c' g = Some st'" "okey st' = okey st"
    and r: "rcell g (cr_sh c) (cr_sh c')" and n: "read_by g c a = []" "delivered_by g c a = []"
  shows "in_step g c a c'"
  using assms by (auto simp: in_step_def ended_def rcell_def unread_def rest_of_def okey_def)

lemma rcell_rsame: "rsame s s' \<Longrightarrow> rcell g s s'"
  by (auto simp: rcell_def rsame_def)

lemma rcell_refl [simp]: "rcell g s s"
  by (auto simp: rcell_def)

lemma rcell_trans: "rcell g s t \<Longrightarrow> rcell g t u \<Longrightarrow> rcell g s u"
  by (auto simp: rcell_def)

lemma rcell_released: "released x s s' \<Longrightarrow> rcell g s s'"
  by (auto simp: rcell_def released_def steady_def)

lemma rcell_resetInbound: "rcell g s (resetInbound k s)"
proof -
  let ?t = "upd_cell k (\<lambda>c. c\<lparr>c_reset := True, c_inbound := [inboundReset]\<rparr>) s"
  have "rcell g s ?t" by (auto simp: rcell_def creset_def inbounds_def)
  then show ?thesis
    using rcell_trans rcell_released [OF released_releaseConnReceive, of g ?t] by (auto simp: resetInbound_def Let_def)
qed

lemma rcell_prepareReset: "rcell g s (snd (prepareReset f fl s))"
proof (cases "flow_of s f")
  case None
  then show ?thesis by (auto simp: prepareReset_def rcell_def creset_def inbounds_def)
next
  case (Some fs)
  let ?t = "upd_cell (fs_generation fs) close_cell (del_flow f (s\<lparr>sh_pendingResets := sh_pendingResets s @ [f]\<rparr>))"
  have "rsame s ?t" by (simp add: rsame_def inbounds_def creset_def fun_eq_iff)
  then have "rcell g s (resetInbound (fs_generation fs) ?t)" using rcell_trans rcell_rsame rcell_resetInbound by blast
  then show ?thesis using Some by (auto simp: prepareReset_def Let_def rcell_def creset_def inbounds_def)
qed

lemma rcell_reset_flow: "reset_flow f fl s = (a, s') \<Longrightarrow> rcell g s s'"
  using rcell_prepareReset [of g s f fl] by (auto simp: reset_flow_def split: prod.splits sum.splits)

lemma rcell_dispatch:
  assumes d: "dispatch b h p s = (a, st, s')" and g: "g \<le> sh_nextGeneration s"
  shows "rcell g s s'"
proof -
  have op: "rcell g s u" if r: "receiveOpen b h s = (a', st', u)" for a' st' u
  proof -
    obtain ir t where i: "insertFlow (mh_FlowID h) True s = (ir, t)" by (cases "insertFlow (mh_FlowID h) True s")
    have "rcell g s t"
      using insertFlow_effect(8,9) [OF i] g by (cases ir) (auto simp: rcell_def creset_def inbounds_def)
    moreover have off: "rcell g t v" if "offer b y t' = (x, v)" "rsame t t'" for y t' x v
      using offer_effect [OF that(1)] that(2) rcell_rsame rsame_trans by blast
    have "rcell g t u"
      using r i off [OF _ rsame_refl] off [OF _ rsame_sendCredit]
      by (auto simp: receiveOpen_def Let_def split: sum.splits prod.splits if_splits option.splits
          intro: rcell_reset_flow)
    ultimately show ?thesis using rcell_trans by blast
  qed
  have data: "rcell g s u" if r: "receiveData h p s = (a', u)" for a' u
  proof -
    let ?x = "frameCharge (int (length p))"
    obtain ar t where adm: "admitReceive (mh_FlowID h) ?x s = (ar, t)" by (cases "admitReceive (mh_FlowID h) ?x s")
    have "rcell g s t" using admitReceive_frame [OF adm] by (simp add: rcell_def creset_def)
    moreover have "rcell g t u"
      using r adm rcell_released [OF released_releaseConnReceive, of g t] rcell_released [OF released_releaseReceive, of g t]
      by (auto simp: receiveData_def Let_def split: sum.splits receiveTarget.splits
          intro: rcell_trans [OF _ rcell_reset_flow])
    ultimately show ?thesis by (rule rcell_trans)
  qed
  have close: "rcell g s u" if "receiveClose h s = (a', u)" for a' u
    using that rcell_rsame [OF quiet_rsame [OF quiet_removeFlow], of g s "mh_FlowID h"]
    by (auto simp: receiveClose_def split: if_splits prod.splits option.splits
        intro: rcell_rsame [OF quiet_rsame] rcell_trans [OF _ rcell_resetInbound])
  have window: "rcell g s u" if "receiveWindow h s = (a', u)" for a' u
    using that rcell_rsame [OF rsame_sendCredit, of g s]
    by (auto simp: receiveWindow_def Let_def rcell_def creset_def inbounds_def split: if_splits option.splits
        dest: rcell_reset_flow [of _ _ _ _ _ g])
  show ?thesis using d op data close window by (auto simp: dispatch_def split: if_splits prod.splits)
qed

lemma read_by_simps [simp]:
  "read_by g c (Prepare f) = []" "read_by g c (Commit i p e) = []" "read_by g c (ReadFrame b) = []"
  "read_by g c (DeliverMsg b) = []" "read_by g c ReaderExit = []" "read_by g c (StreamWrite i q) = []"
  "read_by g c (WriteRound j ev sp now) = []" "read_by g c (StreamCloseWrite i) = []" "read_by g c (FinRound j sp) = []"
  "read_by g c (StreamCloseRead i) = []" "read_by g c (StreamDeadline i rd wr) = []" "read_by g c (WriterRound wp fl) = []"
  "read_by g c WriterExit = []" "read_by g c (CloseCarrier r) = []" "read_by g c Reject = []" "read_by g c (Accept ap) = []"
  by (simp_all add: read_by_def)

lemma delivered_by_simps [simp]:
  "delivered_by g c (Prepare f) = []" "delivered_by g c (Commit i p e) = []" "delivered_by g c (ReadFrame b) = []"
  "delivered_by g c ReaderExit = []" "delivered_by g c (StreamRead i k now pick) = []" "delivered_by g c (StreamWrite i q) = []"
  "delivered_by g c (WriteRound j ev sp now) = []" "delivered_by g c (StreamCloseWrite i) = []" "delivered_by g c (FinRound j sp) = []"
  "delivered_by g c (StreamCloseRead i) = []" "delivered_by g c (StreamDeadline i rd wr) = []" "delivered_by g c (WriterRound wp fl) = []"
  "delivered_by g c WriterExit = []" "delivered_by g c (CloseCarrier r) = []" "delivered_by g c Reject = []" "delivered_by g c (Accept ap) = []"
  by (simp_all add: delivered_by_def)

lemma take_length_eq: "length (take k ys) = length ys \<Longrightarrow> take k ys = ys"
  by simp

lemma take_drop_length: "take k ys @ drop (length (take k ys)) ys = ys"
  by (cases "k \<le> length ys") auto

text \<open>A read on the stream itself.\<close>

lemma in_step_read:
  assumes i: "recv_inv c" and st: "cr_streams c g = Some st" and r: "read_round k now pick st (cr_sh c) = (res, st', s')"
    and c': "c' = c\<lparr>cr_sh := s', cr_streams := (cr_streams c)(g \<mapsto> st')\<rparr>"
  shows "in_step g c (StreamRead g k now pick) c'"
proof -
  let ?s = "cr_sh c"
  note d = recv_streamD [OF i st]
  have rb: "read_by g c (StreamRead g k now pick) = (case res of ReadData out \<Rightarrow> out | _ \<Rightarrow> [])"
    using st r by (simp add: read_by_def)
  have crel: "creset (releaseReceive f x y z) = creset z \<and> inbounds (releaseReceive f x y z) = inbounds z" for f x y z
    using released_releaseReceive [of y z f x] by (simp add: released_def steady_def)
  show ?thesis
  proof (cases "creset ?s g")
    case True
    have "rcell g ?s s'"
    proof -
      have f: "creset (fold (release_msg x) ms t) = creset t" for x ms t
        by (induction ms arbitrary: t) (auto simp: release_msg_def crel split: inbound.splits)
      have "creset (drain_inbound x t) = creset t" for x t
        by (auto simp: drain_inbound_def Let_def f) (auto simp: creset_def fun_eq_iff)
      then show ?thesis using r True d(4)
        by (auto simp: read_round_def discardBuffered_def rcell_def releaseCurrent_def crel Let_def
            simp flip: creset_def split: if_splits)
    qed
    moreover have "res = ReadFailed errReset"
      using r True d(4) by (auto simp: read_round_def creset_def split: prod.splits)
    ultimately show ?thesis using True by (auto simp: in_step_def ended_def rcell_def c' rb)
  next
    case nr: False
    then have nr': "\<not> c_reset (sh_cells ?s (st_generation st))" using d(4) by (simp add: creset_def)
    show ?thesis
    proof (cases "length (st_current st) > st_currentOff st")
      case True
      let ?out = "take k (drop (st_currentOff st) (st_current st))"
      have rc: "read_current k st ?s = (res, st', s')" using r nr' True by (simp add: read_round_def)
      have s': "creset s' = creset ?s" "inbounds s' = inbounds ?s"
        using rc crel by (auto simp: read_current_def Let_def releaseCurrent_def split: if_splits)
      have res: "res = ReadData ?out" using rc by (auto simp: read_current_def Let_def split: if_splits)
      have "drop (st_currentOff st) (st_current st) = ?out @ drop (st_currentOff st') (st_current st')"
      proof (cases "st_currentOff st + length ?out = length (st_current st)")
        case fin: True
        have "st_current st' = []" using rc unfolding read_current_def Let_def if_P [OF fin] by auto
        moreover have "?out = drop (st_currentOff st) (st_current st)"
          by (rule take_length_eq) (use fin in \<open>simp only: length_drop\<close>)
        ultimately show ?thesis by simp
      next
        case False
        then have st': "st' = st\<lparr>st_currentOff := st_currentOff st + length ?out\<rparr>"
          using rc unfolding read_current_def Let_def if_not_P [OF False] by simp
        have "drop (st_currentOff st') (st_current st') = drop (length ?out) (drop (st_currentOff st) (st_current st))"
          unfolding st' by (simp only: Stream.simps Stream.select_convs Stream.update_convs drop_drop add.commute) simp
        then show ?thesis using take_drop_length [of k "drop (st_currentOff st) (st_current st)"] by (simp only:)
      qed
      moreover have "\<not> st_readerClosed st" using d(7) True by (auto simp: stream_ok_def split: if_splits)
      then have "\<not> st_readerClosed st'" "\<not> ended g c"
        using rc nr st by (auto simp: ended_def read_current_def Let_def split: if_splits)
      then have "\<not> ended g c'" using s'(1) nr by (auto simp: ended_def c')
      ultimately show ?thesis using \<open>\<not> ended g c\<close> st s' rb res
        by (auto simp: in_step_def c' unread_def rest_of_def)
    next
      case nc: False
      then have cur: "st_current st = []" using d(7) by (auto simp: stream_ok_def split: if_splits)
      show ?thesis
      proof (cases "st_eof st \<or> st_readerClosed st \<or> pick \<noteq> WaitInbound \<or> c_inbound (sh_cells ?s (st_generation st)) = []")
        case True
        then have "s' = ?s" "st' = st" "case res of ReadData out \<Rightarrow> False | _ \<Rightarrow> True" using r nr' nc
          by (auto simp: read_round_def waitInbound_def split: if_splits wait_pick.splits list.splits)
        then show ?thesis using st rb by (intro in_step_keep [OF st]) (auto simp: c' split: read_result.splits)
      next
        case w: False
        then obtain m ms where q: "inbounds ?s g = m # ms" using d(4) by (cases "inbounds ?s g") (auto simp: inbounds_def)
        let ?t = "upd_cell g (\<lambda>x. x\<lparr>c_inbound := ms\<rparr>) ?s"
        have rm: "read_message m st ?t = (res, st', s')"
          using r nr' nc w q d(4) by (auto simp: read_round_def waitInbound_def inbounds_def split: wait_pick.splits)
        then have "s' = ?t" "drop (st_currentOff st') (st_current st') = payload_of m" "st_readerClosed st' = st_readerClosed st"
          "case res of ReadData out \<Rightarrow> False | _ \<Rightarrow> True"
          using w cur by (auto simp: read_message_def split: inbound.splits)
        moreover have "inbounds ?t g = ms" "creset ?t = creset ?s" by (auto simp: inbounds_def creset_def fun_eq_iff)
        ultimately show ?thesis using nr st rb q cur w
          by (auto simp: in_step_def c' unread_def rest_of_def ended_def split: read_result.splits)
      qed
    qed
  qed
qed

text \<open>Operations on one stream touch the queue of that stream only, and no reset flag.\<close>

definition touches :: "nat \<Rightarrow> shared \<Rightarrow> shared \<Rightarrow> bool" where
  "touches k s s' \<longleftrightarrow> creset s' = creset s \<and> (\<forall>g. g \<noteq> k \<longrightarrow> inbounds s' g = inbounds s g)"

lemma touches_trans: "touches k s t \<Longrightarrow> touches k t u \<Longrightarrow> touches k s u"
  by (simp add: touches_def)

lemma touches_refl [simp]: "touches k s s"
  by (simp add: touches_def)

lemma touches_rsame: "rsame s s' \<Longrightarrow> touches k s s'"
  by (simp add: touches_def rsame_def)

lemma touches_release: "touches k s (releaseReceive f g x s)"
  using released_releaseReceive [of x s f g] by (simp add: touches_def released_def steady_def)

lemma touches_release_msg: "touches k s (release_msg st m s)"
  by (auto simp: release_msg_def touches_release split: inbound.splits)

lemma touches_queue: "touches k s (upd_cell k (\<lambda>c. c\<lparr>c_inbound := ms\<rparr>) s)"
  by (simp add: touches_def creset_def inbounds_def fun_eq_iff)

lemma touches_drain: "st_generation st = k \<Longrightarrow> touches k s (drain_inbound st s)"
proof -
  assume k: "st_generation st = k"
  have "touches k t (fold (release_msg st) ms t)" for ms t
    by (induction ms arbitrary: t) (auto intro: touches_trans [OF touches_release_msg])
  then show ?thesis unfolding drain_inbound_def Let_def k by (rule touches_trans [OF touches_queue])
qed

lemma touches_read_round:
  assumes r: "read_round n now pick st s = (r, st', s')"
  shows "touches (st_generation st) s s'"
proof -
  let ?k = "st_generation st"
  have w: "touches (st_generation x) s t" if "waitInbound now pick x s = Some (m, t)" for x m t
    using that by (auto simp: waitInbound_def touches_queue split: if_splits wait_pick.splits list.splits)
  have m: "touches ?k t u" if "read_message x st t = (r', st'', u)" for x t u r' st''
    using that touches_release_msg by (auto simp: read_message_def split: if_splits inbound.splits)
  have d: "touches ?k s u" if "discardBuffered st s = (st'', u)" for st'' u
    using that by (auto simp: discardBuffered_def releaseCurrent_def Let_def split: if_splits
        intro: touches_drain touches_trans [OF touches_release touches_drain])
  have c: "touches ?k s u" if "read_current n st s = (r', st'', u)" for r' st'' u
    using that touches_release by (auto simp: read_current_def releaseCurrent_def Let_def split: if_splits)
  show ?thesis using r unfolding read_round_def
    by (auto split: if_splits option.splits sum.splits prod.splits dest: d c w m intro: touches_trans)
qed

lemma touches_closeReader:
  assumes r: "closeReader st s = (st', s')"
  shows "touches (st_generation st) s s'"
proof (cases "st_readerClosed st")
  case False
  let ?k = "st_generation st" and ?m = "markReaderClosed (st_flowID st) s"
  let ?t = "if st_current st \<noteq> [] then releaseReceive (st_flowID st) ?k (st_currentCharge st) ?m else ?m"
  let ?st = "st\<lparr>st_readerClosed := True, st_readWait := Suc (st_readWait st)\<rparr>"
  let ?st1 = "if st_current st \<noteq> [] then ?st\<lparr>st_current := [], st_currentCharge := 0\<rparr> else ?st"
  have s': "s' = releasePart (st_flowID st) ?k (drain_inbound ?st1 ?t)"
    using r False by (auto simp: closeReader_def Let_def releaseCurrent_def split: if_splits)
  have "touches ?k s ?m" by (rule touches_rsame [OF quiet_rsame [OF quiet_markReaderClosed]])
  then have "touches ?k s ?t" using touches_release touches_trans by auto
  then have "touches ?k s (drain_inbound ?st1 ?t)" by (rule touches_trans) (rule touches_drain, simp)
  then show ?thesis unfolding s'
    by (rule touches_trans) (rule touches_rsame [OF quiet_rsame [OF quiet_releasePart]])
qed (use r in \<open>simp add: closeReader_def\<close>)

lemma in_step_other:
  assumes st: "cr_streams c g = Some st" and k: "k \<noteq> g" "cr_streams c' g = cr_streams c g" "touches k (cr_sh c) (cr_sh c')"
    and n: "read_by g c a = []" "delivered_by g c a = []"
  shows "in_step g c a c'"
  using assms by (intro in_step_keep [OF st]) (auto simp: rcell_def touches_def)

lemma in_step_rkeeps:
  assumes st: "cr_streams c g = Some st" and r: "rkeeps (cr_sh c) (cr_sh c')"
    and k: "\<And>g. map_option skey (cr_streams c' g) = map_option skey (cr_streams c g)"
    and n: "read_by g c a = []" "delivered_by g c a = []"
  shows "in_step g c a c'"
proof -
  obtain st' where st': "cr_streams c' g = Some st'" "skey st' = skey st" using k [of g] st by (cases "cr_streams c' g") auto
  show ?thesis using st'(2) r n by (intro in_step_keep [OF st st'(1)]) (auto simp: okey_def skey_def rkeeps_def rcell_rsame)
qed

lemma in_step_StreamRead:
  assumes i: "recv_inv c" and st: "cr_streams c g = Some st"
  shows "in_step g c (StreamRead k n now pick) (step_StreamRead k n now pick c)"
proof (cases "cr_streams c k")
  case None
  then show ?thesis using st
    by (intro in_step_keep [OF st]) (auto simp: step_StreamRead_def on_stream_def read_by_def)
next
  case (Some x)
  obtain r x' s' where rr: "read_round n now pick x (cr_sh c) = (r, x', s')" by (metis prod.exhaust)
  have c': "step_StreamRead k n now pick c = c\<lparr>cr_sh := s', cr_streams := (cr_streams c)(k \<mapsto> x')\<rparr>"
    using Some rr by (simp add: step_StreamRead_def on_stream_def)
  show ?thesis
  proof (cases "k = g")
    case True
    then show ?thesis using in_step_read [OF i _ rr c'] Some by simp
  next
    case False
    then show ?thesis using touches_read_round [OF rr] recv_streamD(4) [OF i Some]
      by (intro in_step_other [OF st False]) (auto simp: c' read_by_def)
  qed
qed

lemma in_step_StreamCloseRead:
  assumes i: "recv_inv c" and st: "cr_streams c g = Some st"
  shows "in_step g c (StreamCloseRead k) (step_StreamCloseRead k c)"
proof (cases "cr_streams c k")
  case None
  then show ?thesis using st by (intro in_step_keep [OF st]) (auto simp: step_StreamCloseRead_def on_stream_def)
next
  case (Some x)
  obtain x' s' where rr: "closeReader x (cr_sh c) = (x', s')" by (cases "closeReader x (cr_sh c)")
  have c': "step_StreamCloseRead k c = c\<lparr>cr_sh := s', cr_streams := (cr_streams c)(k \<mapsto> x')\<rparr>"
    using Some rr by (simp add: step_StreamCloseRead_def on_stream_def)
  show ?thesis
  proof (cases "k = g")
    case True
    have "stream_ok (sh_nextGeneration (cr_sh c)) k x" by (rule recv_streamD(7) [OF i Some])
    then have "st_readerClosed x'" "st_current x' = []"
      using rr by (auto simp: closeReader_def Let_def stream_ok_def split: if_splits)
    then show ?thesis unfolding c' using True by (auto simp: in_step_def ended_def)
  next
    case False
    then show ?thesis using touches_closeReader [OF rr] recv_streamD(4) [OF i Some]
      by (intro in_step_other [OF st False]) (auto simp: c')
  qed
qed

lemma in_step_DeliverMsg:
  assumes st: "cr_streams c g = Some st"
  shows "in_step g c (DeliverMsg b) (step_DeliverMsg b c)"
proof (cases "\<exists>k m rs s. cr_reader c = Delivering k m \<and> deliver_inbound b k m (cr_sh c) = Some (rs, s)")
  case True
  then obtain k m rs s' where r: "cr_reader c = Delivering k m" and d: "deliver_inbound b k m (cr_sh c) = Some (rs, s')" by blast
  have c': "step_DeliverMsg b c = c\<lparr>cr_reader := rs, cr_sh := s'\<rparr>" using r d by (simp add: step_DeliverMsg_def)
  show ?thesis
  proof (cases b)
    case True
    then have "s' = cr_sh c" using d by (auto simp: deliver_inbound_def split: if_splits)
    then show ?thesis unfolding c' using True r by (intro in_step_keep [OF st]) (auto simp: st delivered_by_def)
  next
    case False
    then have s': "s' = upd_cell k (\<lambda>x. x\<lparr>c_inbound := c_inbound x @ [m]\<rparr>) (cr_sh c)"
      using d by (auto simp: deliver_inbound_def split: if_splits)
    have e: "creset s' = creset (cr_sh c)" "inbounds s' = (inbounds (cr_sh c))(k := inbounds (cr_sh c) k @ [m])"
      by (auto simp: s' creset_def inbounds_def fun_eq_iff)
    have db: "delivered_by g c (DeliverMsg b) = (if k = g then payload_of m else [])"
      using r d False by (auto simp: delivered_by_def)
    show ?thesis unfolding c' using st e db by (auto simp: in_step_def ended_def unread_def rest_of_def)
  qed
next
  case False
  then have "step_DeliverMsg b c = c" "delivered_by g c (DeliverMsg b) = []"
    by (auto simp: step_DeliverMsg_def delivered_by_def split: reader_state.splits option.splits)
  then show ?thesis using st by (intro in_step_keep [OF st]) auto
qed

lemma in_step_ReadFrame:
  assumes i: "recv_inv c" and st: "cr_streams c g = Some st"
  shows "in_step g c (ReadFrame b) (step_ReadFrame b c)"
proof (cases "\<exists>h p r. cr_reader c = Reading \<and> readFrame (cr_in c) = Inr ((h, p), r)")
  case True
  then obtain h p r where rd: "cr_reader c = Reading" "readFrame (cr_in c) = Inr ((h, p), r)" by blast
  obtain a x s' where d: "dispatch b h p (cr_sh c) = (a, x, s')" by (metis prod.exhaust)
  have g: "g \<le> sh_nextGeneration (cr_sh c)" using recv_streamD(7) [OF i st] by (simp add: stream_ok_def)
  have rg: "rgood (cr_sh c)" using i by (simp add: recv_inv_iff)
  have "x = Some y \<Longrightarrow> st_generation y \<noteq> g" for y
    using dispatch_effect(2) [OF rg readFrame_ok [OF rd(2)] d, of y] g by (auto simp: newStream_def)
  then have "cr_streams (step_ReadFrame b c) g = Some st" "cr_sh (step_ReadFrame b c) = s'"
    using rd d st by (auto simp: step_ReadFrame_def readLoop_round_def add_stream_def split: after.splits option.splits)
  then show ?thesis using rcell_dispatch [OF d g] by (intro in_step_keep [OF st]) auto
next
  case False
  then show ?thesis using st
    by (intro in_step_keep [OF st]) (auto simp: step_ReadFrame_def split: sum.splits prod.splits)
qed

lemma rcell_close: "rcell g s (closeWithReason r s)"
  by (auto simp: rcell_def closeWithReason_def Let_def creset_def inbounds_def)

lemma in_step_Prepare:
  assumes i: "recv_inv c" and st: "cr_streams c g = Some st"
  shows "in_step g c (Prepare f) (step_Prepare f c)"
proof -
  have g: "g \<le> sh_nextGeneration (cr_sh c)" using recv_streamD(7) [OF i st] by (simp add: stream_ok_def)
  obtain r s' where ins: "insertFlow f False (cr_sh c) = (r, s')" by (cases "insertFlow f False (cr_sh c)")
  note e = insertFlow_effect(8,9) [OF ins]
  have "rcell g (cr_sh c) s'" using e g by (cases r) (auto simp: rcell_def creset_def inbounds_def)
  moreover have "cr_streams (step_Prepare f c) g = Some st \<and> cr_sh (step_Prepare f c) = s'"
  proof (cases r)
    case (Inr x)
    have "st_generation x \<noteq> g" using e(1) [OF Inr] g by (simp add: newStream_def)
    then show ?thesis using ins st Inr by (simp add: step_Prepare_def PrepareStream_def add_stream_def)
  qed (use ins st in \<open>simp add: step_Prepare_def PrepareStream_def\<close>)
  ultimately show ?thesis by (intro in_step_keep [OF st]) auto
qed

lemma in_step_WriterRound:
  assumes st: "cr_streams c g = Some st"
  shows "in_step g c (WriterRound pick fl) (step_WriterRound pick fl c)"
proof -
  have win: "rcell g s s'" if "writePendingWindows w (s\<lparr>sh_control := False\<rparr>) = Ret (e, w', s')" for w s e w' s'
  proof -
    let ?t = "s\<lparr>sh_control := False, sh_pendingConn := 0, sh_ready := []\<rparr>"
    have "rkeeps ?t s'"
      using that by (auto simp: writePendingWindows_def Let_def split: sum.splits prod.splits if_splits go.splits option.splits
          intro: rkeeps_readyWindows rkeeps_trans [OF rkeeps_readyWindows rkeeps_finishResets])
    then show ?thesis by (auto simp: rcell_def rkeeps_def rsame_def creset_def inbounds_def fun_eq_iff)
  qed
  have item: "rcell g s s'" if "writeItem fl' x w (s\<lparr>sh_dataTx := q\<rparr>) = Ret (e, w', s')" for fl' x w s q e w' s'
    using rkeeps_trans [OF rkeeps_connSend(2) rkeeps_writeItem [OF that]] by (auto simp: rkeeps_def rcell_rsame)
  have aw: "in_step g c (WriterRound p fl) (after_write nxt x c c')"
    if "\<And>e w s'. x = Ret (e, w, s') \<Longrightarrow> rcell g (cr_sh c) s'" "cr_streams c' = cr_streams c" for nxt x c' p
    using that st
    by (intro in_step_keep [OF st]) (auto simp: after_write_def split: go.splits prod.splits option.splits)
  have none: "in_step g c (WriterRound p fl) c" for p using st by (intro in_step_keep [OF st]) auto
  show ?thesis
    unfolding step_WriterRound_def Let_def
    by (auto simp: writeLoop_first_def writeLoop_second_def none intro!: aw dest: win item
        split: writer_state.splits write_pick.splits list.splits if_splits option.splits)
qed

lemma in_step_mux:
  assumes i: "recv_inv c" and st: "cr_streams c g = Some st"
  shows "in_step g c a (mux_step c a)"
proof (cases a)
  case (Commit k pick ctx)
  then show ?thesis
    by (intro in_step_rkeeps [OF st])
      (auto simp: step_Commit_def OpenPrepared_def split: option.splits intro: rkeeps_commitOpen)
next
  case ReaderExit
  then show ?thesis using st
    by (intro in_step_keep [OF st])
      (auto simp: step_ReaderExit_def runReader_end_def rcell_close split: reader_state.splits)
next
  case WriterExit
  then show ?thesis using st
    by (intro in_step_keep [OF st])
      (auto simp: step_WriterExit_def runWriter_end_def rcell_close split: writer_state.splits)
next
  case (CloseCarrier r)
  then show ?thesis using st by (intro in_step_keep [OF st]) (auto simp: rcell_close)
next
  case (StreamWrite k p)
  then show ?thesis by (intro in_step_rkeeps [OF st]) (auto simp: step_StreamWrite_def split: option.splits)
next
  case (WriteRound j ev pick now)
  then show ?thesis
    by (intro in_step_rkeeps [OF st])
      (auto simp: step_WriteRound_def Let_def split: option.splits prod.splits dest: rkeeps_write_round)
next
  case (StreamCloseWrite k)
  then show ?thesis
    by (intro in_step_rkeeps [OF st])
      (auto simp: step_StreamCloseWrite_def split: option.splits prod.splits dest: CloseWrite_begin_effect)
next
  case (FinRound j pick)
  then show ?thesis
    by (intro in_step_rkeeps [OF st])
      (auto simp: step_FinRound_def Let_def CloseWrite_finish_def split: option.splits prod.splits
        intro!: rkeeps_trans [OF rkeeps_sendOutbound rkeeps_releasePart])
next
  case (StreamDeadline k rd wr)
  then show ?thesis
    by (intro in_step_rkeeps [OF st])
      (auto simp: step_StreamDeadline_def on_stream_def SetWriteDeadline_def SetReadDeadline_def skey_def split: option.splits)
next
  case Reject
  then show ?thesis
    by (intro in_step_rkeeps [OF st])
      (auto simp: rejectIncoming_def rkeeps_def rsame_def inbounds_def creset_def fun_eq_iff)
next
  case (Accept p)
  then show ?thesis
    by (intro in_step_rkeeps [OF st])
      (auto simp: Incoming_Accept_def rkeeps_def rsame_def inbounds_def creset_def fun_eq_iff
        split: accept_pick.splits list.splits if_splits option.splits)
qed (use in_step_Prepare [OF i st] in_step_ReadFrame [OF i st] in_step_DeliverMsg [OF st] in_step_StreamRead [OF i st]
    in_step_StreamCloseRead [OF i st] in_step_WriterRound [OF st] in simp_all)

subsection \<open>Every run\<close>

lemma ended_log: "recv_inv c \<Longrightarrow> cr_streams c g \<noteq> None \<Longrightarrow> ended g c \<Longrightarrow> read_log g c as = [] \<and> ended g (run mux_step c as)"
proof (induction as arbitrary: c)
  case (Cons a as)
  then obtain st where "cr_streams c g = Some st" by auto
  then have "in_step g c a (mux_step c a)" using in_step_mux Cons.prems(1) by blast
  then have "read_by g c a = []" "ended g (mux_step c a)" "cr_streams (mux_step c a) g \<noteq> None"
    using Cons.prems(3) by (auto simp: in_step_def)
  then show ?case using Cons recv_step by auto
qed simp

text \<open>
  The bytes read are a prefix of what the stream had and got, in that order; while the stream is not
  ended, what is missing is exactly what it still has to read.
\<close>

lemma order_run:
  assumes "recv_inv c" "cr_streams c g \<noteq> None"
  shows "prefix (read_log g c as) (unread g c @ delivered_log g c as) \<and>
    (ended g (run mux_step c as) \<or>
     unread g c @ delivered_log g c as = read_log g c as @ unread g (run mux_step c as))"
  using assms
proof (induction as arbitrary: c)
  case (Cons a as)
  obtain st where "cr_streams c g = Some st" using Cons.prems(2) by auto
  then have s: "in_step g c a (mux_step c a)" using in_step_mux Cons.prems(1) by blast
  have i': "recv_inv (mux_step c a)" "cr_streams (mux_step c a) g \<noteq> None"
    using recv_step [OF Cons.prems(1)] s by (auto simp: in_step_def)
  show ?case
  proof (cases "ended g (mux_step c a)")
    case True
    then show ?thesis using ended_log [OF i' True] s by (simp add: in_step_def)
  next
    case False
    then have "unread g c @ delivered_by g c a = read_by g c a @ unread g (mux_step c a)"
      using s by (auto simp: in_step_def)
    then have e: "unread g c @ delivered_log g c (a # as) = read_by g c a @ unread g (mux_step c a) @ delivered_log g (mux_step c a) as"
      by (metis append.assoc delivered_log.simps(2))
    show ?thesis unfolding e using Cons.IH [OF i'] by auto
  qed
qed simp

end
