(* ===== verification/Mux_Edges.thy ===== *)
theory Mux_Edges
  imports Mux_Order
begin

section \<open>The stream multiplexer: frames written, errors, edge cases\<close>

text \<open>
  What the writer puts on the connection, which frames end a carrier, and some situations in which
  the code does less than its comments say.
\<close>

subsection \<open>What is written\<close>

lemma wr_Write_out: "wr_Write p w = (n, e, w') \<Longrightarrow> wr_out w' = wr_out w @ take (nat n) p"
  by (auto simp: wr_Write_def split: list.splits prod.splits)

lemma writeFull_out:
  "writeFull w p = Ret (e, w') \<Longrightarrow>
   (\<exists>k. wr_out w' = wr_out w @ take k p) \<and> (e = None \<longrightarrow> wr_out w' = wr_out w @ p)"
proof (induction w p arbitrary: e w' rule: writeFull.induct)
  case (1 w p)
  show ?case
  proof (cases "p = []")
    case True
    with "1.prems" show ?thesis by (simp add: writeFull.simps)
  next
    case False
    obtain n er w1 where w1: "wr_Write p w = (n, er, w1)" by (cases "wr_Write p w")
    have o: "wr_out w1 = wr_out w @ take (nat n) p" by (rule wr_Write_out [OF w1])
    have np: "\<not> n > int (length p)" using "1.prems" w1 False by (subst (asm) writeFull.simps) auto
    show ?thesis
    proof (cases "er \<noteq> None \<or> n = 0")
      case True
      then have "w' = w1" "e \<noteq> None" using "1.prems" w1 False np
        by (subst (asm) writeFull.simps; auto split: if_splits option.splits)+
      with o show ?thesis by auto
    next
      case ok: False
      let ?p = "if 0 < n then drop (nat n) p else p"
      have "writeFull w1 ?p = Ret (e, w')"
        using "1.prems" w1 False np ok by (subst (asm) writeFull.simps) auto
      then have ih: "(\<exists>k. wr_out w' = wr_out w1 @ take k ?p) \<and> (e = None \<longrightarrow> wr_out w' = wr_out w1 @ ?p)"
        using "1.IH" [OF False w1 [symmetric] refl np refl, of e w'] ok by auto
      have d: "?p = drop (nat n) p" by auto
      from ih obtain k where k: "wr_out w' = wr_out w1 @ take k (drop (nat n) p)" unfolding d by blast
      have "take (nat n) p @ take k (drop (nat n) p) = take (nat n + k) p" by (simp add: take_add)
      then have "wr_out w' = wr_out w @ take (nat n + k) p" using k o by simp
      moreover have "e = None \<longrightarrow> wr_out w' = wr_out w @ p" using ih o unfolding d by auto
      ultimately show ?thesis by blast
    qed
  qed
qed

text \<open>
  A queued frame is written only while its flow is the one it was queued for; it is then written whole
  unless the connection fails, and a frame of a flow that is gone leaves the connection untouched
  and gives its connection credit back.
\<close>

lemma writeItem_current:
  assumes "writeItem fl item w s = Ret (e, w', s')" "\<not> ob_flushed item"
    "isCurrentFlow (mh_FlowID (ob_header item)) (ob_generation item) s" "EncodeMuxHeader (ob_header item) = Inr enc"
  shows "(\<exists>k. wr_out w' = wr_out w @ take k (enc @ ob_payload item)) \<and> (e = None \<longrightarrow> wr_out w' = wr_out w @ enc @ ob_payload item)"
proof -
  from assms obtain e1 w1 where f: "writeFull w enc = Ret (e1, w1)"
    by (cases "writeFull w enc") (auto simp: writeItem_def)
  note o1 = writeFull_out [OF f]
  show ?thesis
  proof (cases e1)
    case (Some x)
    then have "w' = w1" "e \<noteq> None" using assms f by (auto simp: writeItem_def)
    moreover obtain k where k: "wr_out w1 = wr_out w @ take k enc" using o1 by blast
    have "take (min k (length enc)) (enc @ ob_payload item) = take k enc" by (simp add: min_def)
    then have "\<exists>j. wr_out w1 = wr_out w @ take j (enc @ ob_payload item)" using k by metis
    ultimately show ?thesis by blast
  next
    case None
    then have o1': "wr_out w1 = wr_out w @ enc" using o1 by simp
    show ?thesis
    proof (cases "ob_payload item = []")
      case True
      then have "w' = w1" using assms f None by (auto simp: writeItem_def Let_def)
      then show ?thesis using o1' True by (auto intro: exI [of _ "length enc"])
    next
      case False
      from assms f None False obtain e2 w2 where f2: "writeFull w1 (ob_payload item) = Ret (e2, w2)"
        by (cases "writeFull w1 (ob_payload item)") (auto simp: writeItem_def)
      have "w' = w2" "e = e2" using assms f f2 None False by (cases e2; auto simp: writeItem_def Let_def)+
      moreover obtain k where "wr_out w2 = wr_out w1 @ take k (ob_payload item)" using writeFull_out [OF f2] by blast
      then have "wr_out w2 = wr_out w @ take (length enc + k) (enc @ ob_payload item)" using o1' by simp
      then have "\<exists>j. wr_out w2 = wr_out w @ take j (enc @ ob_payload item)" by blast
      moreover have "e2 = None \<longrightarrow> wr_out w2 = wr_out w @ enc @ ob_payload item" using writeFull_out [OF f2] o1' by auto
      ultimately show ?thesis by blast
    qed
  qed
qed

lemma writeItem_stale:
  assumes "\<not> ob_flushed item" "\<not> isCurrentFlow (mh_FlowID (ob_header item)) (ob_generation item) s"
  shows "\<exists>s'. writeItem fl item w s = Ret (None, w, s') \<and>
    sem_available (sh_connSend s') = sem_available (sh_connSend s) + item_charge item \<and> sh_flows s' = sh_flows s"
proof -
  have z: "ob_payload item = [] \<Longrightarrow> item_charge item = 0" by (simp add: item_charge_def frameCharge_def creditUnits_def)
  have r: "sh_flows (release_slot item t) = sh_flows t" "sh_connSend (release_slot item t) = sh_connSend t" for t
    by (auto simp: release_slot_def split: option.splits)
  show ?thesis using assms z by (auto simp: writeItem_def Let_def r item_charge_def)
qed

subsection \<open>Window updates\<close>

definition window_header :: "u32 \<Rightarrow> int \<Rightarrow> MuxHeader" where
  "window_header f v = \<lparr>mh_Kind = MuxFrameWindow, mh_Value = word_of_int v, mh_FlowID = f\<rparr>"

lemma window_valid: "0 < v \<Longrightarrow> v \<le> 0xffff \<Longrightarrow> f \<le> nw2_MaxFlowID \<Longrightarrow>
   WindowMuxHeader f v = Inr (window_header f v) \<and> MuxHeader_Validate (window_header f v) = None \<and>
   int (unat (mh_Value (window_header f v))) = v \<and> 0 < unat (mh_Value (window_header f v))"
proof -
  assume v: "0 < v" "v \<le> 0xffff" and f: "f \<le> nw2_MaxFlowID"
  have u: "uint (word_of_int v :: u16) = v" using v by (simp add: uint_word_of_int take_bit_eq_mod)
  then have z: "(word_of_int v :: u16) \<noteq> 0" using v by fastforce
  then have "0 < unat (word_of_int v :: u16)" by (simp add: unat_gt_0)
  then show ?thesis using u z v f
    by (auto simp: WindowMuxHeader_def newMuxHeader_def window_header_def MuxHeader_Validate_def mux_kinds requireMuxFlowID_def not_less)
qed

lemma EncodeMuxHeader_ok: "MuxHeader_Validate h = None \<Longrightarrow> \<exists>b. EncodeMuxHeader h = Inr b \<and> b \<noteq> []"
  by (auto simp: EncodeMuxHeader_def)

text \<open>Any credit is advertised in full, in frames of 1 to 65535 units.\<close>

lemma appendWindows_total:
  "f \<le> nw2_MaxFlowID \<Longrightarrow>
   \<exists>hs bs. appendWindows enc f credit = Inr (enc @ bs) \<and> write_all EncodeMuxHeader hs = Inr bs \<and>
     (\<Sum>h\<leftarrow>hs. int (unat (mh_Value h))) = max 0 credit \<and>
     list_all (\<lambda>h. mh_Kind h = MuxFrameWindow \<and> mh_FlowID h = f \<and> 0 < unat (mh_Value h)) hs"
proof (induction enc f credit rule: appendWindows.induct)
  case (1 enc f credit)
  show ?case
  proof (cases "credit > 0")
    case False
    then have "appendWindows enc f credit = Inr (enc @ [])" by (simp add: appendWindows.simps)
    then show ?thesis using False by (intro exI [of _ "[]"] exI [of _ "[]"]) auto
  next
    case True
    define v where "v = (if credit > 0xffff then 0xffff else credit)"
    have v: "0 < v" "v \<le> 0xffff" "v \<le> credit" using True by (auto simp: v_def)
    note w = window_valid [OF v(1,2) "1.prems"]
    obtain b where b: "EncodeMuxHeader (window_header f v) = Inr b" using EncodeMuxHeader_ok w by blast
    have ih: "\<exists>hs bs. appendWindows (enc @ b) f (credit - v) = Inr ((enc @ b) @ bs) \<and> write_all EncodeMuxHeader hs = Inr bs \<and>
        (\<Sum>h\<leftarrow>hs. int (unat (mh_Value h))) = max 0 (credit - v) \<and>
        list_all (\<lambda>h. mh_Kind h = MuxFrameWindow \<and> mh_FlowID h = f \<and> 0 < unat (mh_Value h)) hs"
      using "1.IH" [OF True v_def _ b, unfolded v_def [symmetric]] w "1.prems" by blast
    then obtain hs bs where h: "appendWindows (enc @ b) f (credit - v) = Inr ((enc @ b) @ bs)" "write_all EncodeMuxHeader hs = Inr bs"
        "(\<Sum>h\<leftarrow>hs. int (unat (mh_Value h))) = max 0 (credit - v)"
        "list_all (\<lambda>h. mh_Kind h = MuxFrameWindow \<and> mh_FlowID h = f \<and> 0 < unat (mh_Value h)) hs" by blast
    have "appendWindows enc f credit = Inr (enc @ (b @ bs))"
      using True w b h(1) by (subst appendWindows.simps) (simp add: Let_def v_def [symmetric])
    moreover have "write_all EncodeMuxHeader (window_header f v # hs) = Inr (b @ bs)" using b h(2) by simp
    moreover have "(\<Sum>h\<leftarrow>window_header f v # hs. int (unat (mh_Value h))) = max 0 credit" using h(3) w v by simp
    moreover have "list_all (\<lambda>h. mh_Kind h = MuxFrameWindow \<and> mh_FlowID h = f \<and> 0 < unat (mh_Value h)) (window_header f v # hs)"
      using h(4) w by (simp add: window_header_def)
    ultimately show ?thesis by blast
  qed
qed

subsection \<open>What a DATA frame does to the other flows\<close>

lemma flow_of_releaseConnReceive [simp]: "sh_flows (releaseConnReceive n s) = sh_flows s"
  by (simp add: releaseConnReceive_def Let_def)

lemma flow_of_resetInbound [simp]: "sh_flows (resetInbound n s) = sh_flows s"
  by (simp add: resetInbound_def Let_def)

lemma flow_of_releaseReceive: "g \<noteq> f \<Longrightarrow> flow_of (releaseReceive f n x s) g = flow_of s g"
  by (auto simp: releaseReceive_def Let_def update_conv' split: option.splits if_splits)

lemma flow_of_prepareReset: "g \<noteq> f \<Longrightarrow> flow_of (snd (prepareReset f n s)) g = flow_of s g"
  by (auto simp: prepareReset_def Let_def delete_conv' split: option.splits if_splits)

lemma flow_of_admitReceive: "g \<noteq> f \<Longrightarrow> flow_of (snd (admitReceive f x s)) g = flow_of s g"
  by (auto simp: admitReceive_def Let_def update_conv' split: option.splits if_splits)

lemma flow_of_receiveData:
  assumes "g \<noteq> mh_FlowID h"
  shows "flow_of (snd (receiveData h p s)) g = flow_of s g"
proof -
  obtain r t where a: "admitReceive (mh_FlowID h) (frameCharge (int (length p))) s = (r, t)"
    by (cases "admitReceive (mh_FlowID h) (frameCharge (int (length p))) s")
  have t: "flow_of t g = flow_of s g" using flow_of_admitReceive [OF assms] a by (metis snd_conv)
  have r: "flow_of u' g = flow_of u g" if "prepareReset (mh_FlowID h) n u = (x, u')" for n u x u'
    using flow_of_prepareReset [OF assms] that by (metis snd_conv)
  show ?thesis
    using t by (auto simp: receiveData_def Let_def a reset_flow_def flow_of_releaseReceive [OF assms] dest!: r
        split: sum.splits receiveTarget.splits prod.splits)
qed

text \<open>
  The only errors of a DATA frame, which end the carrier: more than the connection window, or a frame
  for an unknown flow when there is no room to remember its reset.
\<close>

lemma receiveData_errors:
  "(case fst (receiveData h p s) of
      Fatal e \<Rightarrow>
        e = errConnWindowExceeded \<and> sh_connRecv s < frameCharge (int (length p)) \<or>
        e = errResetLimit \<and> frameCharge (int (length p)) \<le> sh_connRecv s \<and> flow_of s (mh_FlowID h) = None \<and>
          MaxStreams (sh_config s) \<le> int (length (sh_flows s)) + int (length (sh_pendingResets s))
    | Deliver g m \<Rightarrow>
        m = inboundData p (frameCharge (int (length p))) \<and> isCurrentFlow (mh_FlowID h) g s
    | Done \<Rightarrow> frameCharge (int (length p)) \<le> sh_connRecv s)"
proof -
  let ?x = "frameCharge (int (length p))"
  have c: "sh_config (releaseConnReceive n t) = sh_config t" "sh_pendingResets (releaseConnReceive n t) = sh_pendingResets t" for n t
    by (simp_all add: releaseConnReceive_def Let_def)
  have r: "fst (reset_flow (mh_FlowID h) n t) = Done \<or>
      fst (reset_flow (mh_FlowID h) n t) = Fatal errResetLimit \<and> flow_of t (mh_FlowID h) = None \<and>
        MaxStreams (sh_config t) \<le> int (length (sh_flows t)) + int (length (sh_pendingResets t))" for n t
    by (auto simp: reset_flow_def prepareReset_def Let_def split: option.splits)
  show ?thesis
  proof (cases "sh_connRecv s < ?x")
    case True
    then show ?thesis by (simp add: receiveData_def admitReceive_def Let_def)
  next
    case room: False
    let ?t = "s\<lparr>sh_connRecv := sh_connRecv s - ?x\<rparr>"
    show ?thesis
    proof (cases "flow_of s (mh_FlowID h)")
      case None
      then show ?thesis using room r [of None "releaseConnReceive ?x ?t"]
        by (auto simp: receiveData_def admitReceive_def Let_def c)
    next
      case (Some fl)
      then show ?thesis using room r [of "Some (fs_generation fl)" "releaseConnReceive ?x ?t"]
        by (auto simp: receiveData_def admitReceive_def Let_def c isCurrentFlow_def)
    qed
  qed
qed

subsection \<open>Where the code does less than it says\<close>

text \<open>
  \<^verbatim>\<open>markReaderClosed\<close> looks the flow up by identifier only. Closing the read half of a stream whose
  flow is gone, after its identifier was taken again, marks the new flow: the data the peer sends on
  the new flow is then dropped as abandoned though its own stream still reads.
\<close>

lemma stale_close_abandons_reuse:
  assumes "\<not> st_readerClosed st" "st_current st = []" "inbounds s (st_generation st) = []"
    "flow_of s (st_flowID st) = Some fl" "fs_generation fl \<noteq> st_generation st"
    "\<not> fs_remoteFin fl" "fs_localParts fl \<noteq> 0" "x \<le> fs_receiveCredit fl" "x \<le> sh_connRecv s"
  shows "fst (admitReceive (st_flowID st) x (snd (closeReader st s))) = Inr (receiveAbandoned (fs_generation fl))"
proof -
  let ?s = "put_flow (st_flowID st) (fl\<lparr>fs_readerClosed := True\<rparr>) s"
  have d: "drain_inbound (st\<lparr>st_readerClosed := True, st_readWait := w\<rparr>) ?s =
      upd_cell (st_generation st) (\<lambda>c. c\<lparr>c_inbound := []\<rparr>) ?s" for w
    using assms(3) by (simp add: drain_inbound_def Let_def inbounds_def)
  have "snd (closeReader st s) = upd_cell (st_generation st) (\<lambda>c. c\<lparr>c_inbound := []\<rparr>) ?s"
    using assms by (simp add: closeReader_def Let_def markReaderClosed_def d releasePart_def update_conv')
  then show ?thesis using assms by (simp add: admitReceive_def Let_def update_conv')
qed

text \<open>
  A message that was on its way to a stream when its read half was closed arrives after the channel
  has been emptied. It stays there: a later read or close of the stream does not take it, and the
  receive credit it holds does not come back.
\<close>

lemma late_delivery_keeps_credit:
  assumes "cr_reader c = Delivering g (inboundData p x)" "cr_streams c g = Some st" "st_generation st = g"
    "\<not> st_readerClosed st" "st_current st = []" "\<not> st_eof st" "inbounds (cr_sh c) g = []" "\<not> creset (cr_sh c) g"
  defines "c' \<equiv> mux_step (mux_step c (StreamCloseRead g)) (DeliverMsg False)"
  shows "inbounds (cr_sh c') g = [inboundData p x]"
    and "mux_step c' (StreamRead g k now pick) = c'" and "mux_step c' (StreamCloseRead g) = c'"
proof -
  define st' where "st' = st\<lparr>st_readerClosed := True, st_readWait := Suc (st_readWait st)\<rparr>"
  define t where "t = releasePart (st_flowID st) g (drain_inbound st' (markReaderClosed (st_flowID st) (cr_sh c)))"
  have cl: "closeReader st (cr_sh c) = (st', t)"
    using assms by (simp add: closeReader_def Let_def t_def st'_def)
  have m: "quiet (cr_sh c) (markReaderClosed (st_flowID st) (cr_sh c))" by (rule quiet_markReaderClosed)
  then have i: "inbounds (markReaderClosed (st_flowID st) (cr_sh c)) g = []" "\<not> creset (markReaderClosed (st_flowID st) (cr_sh c)) g"
    using assms by (auto simp: quiet_def steady_def)
  have d: "drain_inbound st' s = upd_cell g (\<lambda>c. c\<lparr>c_inbound := []\<rparr>) s" if "inbounds s g = []" for s
    using that assms(3) by (simp add: drain_inbound_def st'_def inbounds_def Let_def)
  have "quiet (upd_cell g (\<lambda>c. c\<lparr>c_inbound := []\<rparr>) (markReaderClosed (st_flowID st) (cr_sh c))) t"
    unfolding t_def d [OF i(1)] by (rule quiet_releasePart)
  then have ti: "inbounds t g = []" "\<not> creset t g" using i
    by (auto simp: quiet_def steady_def inbounds_def creset_def upd_cell_def)
  have s1: "mux_step c (StreamCloseRead g) = c\<lparr>cr_sh := t, cr_streams := (cr_streams c)(g \<mapsto> st')\<rparr>"
    using assms cl by (simp add: step_StreamCloseRead_def on_stream_def)
  define u where "u = upd_cell g (\<lambda>c. c\<lparr>c_inbound := c_inbound c @ [inboundData p x]\<rparr>) t"
  have q: "0 < inboundQueueDepth (sh_config t)" by (simp add: inboundQueueDepth_def Let_def)
  have c': "c' = c\<lparr>cr_sh := u, cr_streams := (cr_streams c)(g \<mapsto> st'), cr_reader := Reading\<rparr>"
    unfolding c'_def s1 using assms(1) ti q
    by (simp add: step_DeliverMsg_def deliver_inbound_def inbounds_def u_def)
  show "inbounds (cr_sh c') g = [inboundData p x]" using ti by (simp add: c' u_def inbounds_def upd_cell_def)
  have nr: "\<not> c_reset (sh_cells u g)" using ti(2) by (simp add: u_def upd_cell_def creset_def)
  have "read_round k now pick st' u = (ReadFailed errClosed, st', u)"
    using assms nr by (simp add: read_round_def st'_def)
  then show "mux_step c' (StreamRead g k now pick) = c'"
    by (simp add: c' step_StreamRead_def on_stream_def)
  have "closeReader st' u = (st', u)" by (simp add: closeReader_def st'_def)
  then show "mux_step c' (StreamCloseRead g) = c'"
    by (simp add: c' step_StreamCloseRead_def on_stream_def)
qed

text \<open>
  Two calls of \<^verbatim>\<open>Read\<close> at once can each take a message off the channel before either stores it: the
  second then replaces the first, whose bytes and credit are lost.
\<close>

lemma overlapping_reads_lose:
  assumes "\<not> st_readerClosed st" "inbounds s (st_generation st) = [inboundData p x, inboundData q y]"
  shows "\<exists>s1 s2 st1.
    waitInbound now WaitInbound st s = Some (Inr (inboundData p x), s1) \<and>
    waitInbound now WaitInbound st s1 = Some (Inr (inboundData q y), s2) \<and>
    read_message (inboundData p x) st s2 = (ReadAgain, st1, s2) \<and> inbounds s2 (st_generation st) = [] \<and>
    read_message (inboundData q y) st1 s2 =
      (ReadAgain, st\<lparr>st_current := q, st_currentCharge := y, st_currentOff := 0\<rparr>, s2)"
  using assms by (simp add: waitInbound_def read_message_def inbounds_def upd_cell_def)

text \<open>\<^verbatim>\<open>CanOpenFlow\<close> does not count the queued resets that \<^verbatim>\<open>insertFlow\<close> counts.\<close>

lemma CanOpenFlow_ignores_resets:
  assumes "valid_id f" "CanOpenFlow f s" "MaxStreams (sh_config s) \<le> int (length (sh_flows s)) + int (length (sh_pendingResets s))"
  shows "fst (PrepareStream f s) = Inl errStreamLimit"
  using assms by (auto simp: CanOpenFlow_def PrepareStream_def insertFlow_def Let_def not_less split: if_splits)

subsection \<open>Runs of a started carrier\<close>

lemma Start_Inl: "Start cfg = Inl e \<Longrightarrow> e = errInvalidLimits"
  by (auto simp: Start_def Config_validate_def Let_def split: sum.splits if_splits)

lemma Start_run:
  assumes "Start cfg = Inr s"
  shows "carrier_inv (run mux_step (carrier_start s r w) ops)"
    and "sh_config (cr_sh (run mux_step (carrier_start s r w) ops)) = cfg"
proof -
  show "carrier_inv (run mux_step (carrier_start s r w) ops)"
    by (rule mux.reachable_inv) (use assms in \<open>auto simp: carrier_starts_def\<close>)
  show "sh_config (cr_sh (run mux_step (carrier_start s r w) ops)) = cfg"
    using config_run [OF recv_start [OF assms]] Start_Inr(2) [OF assms] by (simp add: carrier_start_def)
qed

lemma Start_tables: "Start cfg = Inr s \<Longrightarrow> tables (cr_sh (run mux_step (carrier_start s r w) ops))"
  using Start_run(1) [of cfg s r w ops] by (simp add: carrier_inv_def recv_inv_iff rgood_def)

lemma Start_balance: "Start cfg = Inr s \<Longrightarrow> recv_balance (run mux_step (carrier_start s r w) ops)"
  using Start_run(1) [of cfg s r w ops] by (simp add: carrier_inv_def recv_inv_def)

lemma Start_send: "Start cfg = Inr s \<Longrightarrow> send_inv (run mux_step (carrier_start s r w) ops)"
  using Start_run(1) [of cfg s r w ops] by (simp add: carrier_inv_def)

end
