(* ===== verification/Nw2_Target.thy ===== *)
theory Nw2_Target
  imports Wire3_Target Nw2_Flow
begin

section \<open>nw2 wire: targets\<close>

text \<open>
  \<^verbatim>\<open>nw2/wire/target.go\<close>: the destination behind an opening flow header, with an explicit address
  type. Names carry the prefix \<open>nw2_\<close> where package \<^verbatim>\<open>wire\<close> of nw3 has the same one.
\<close>

definition ErrInvalidTarget :: error where "ErrInvalidTarget = New ''nowhere: invalid target address''"
definition ErrTruncated :: error where "ErrTruncated = New ''nowhere: truncated input''"

definition TargetIPv4 :: byte where "TargetIPv4 = 0x01"
definition TargetDomain :: byte where "TargetDomain = 0x03"
definition TargetIPv6 :: byte where "TargetIPv6 = 0x04"

definition targetIPv4Len :: nat where "targetIPv4Len = 1 + 4 + 2"
definition targetIPv6Len :: nat where "targetIPv6Len = 1 + 16 + 2"
definition DomainLenMax :: nat where "DomainLenMax = 253"

lemmas target_consts = TargetIPv4_def TargetDomain_def TargetIPv6_def targetIPv4Len_def targetIPv6Len_def DomainLenMax_def

subsection \<open>Domain names\<close>

definition validLabel :: "byte list \<Rightarrow> bool" where
  "validLabel label =
     (if label ! 0 = 45 \<or> label ! (length label - 1) = 45 then False
      else list_all (\<lambda>c. (c \<ge> 97 \<and> c \<le> 122) \<or> (c \<ge> 65 \<and> c \<le> 90) \<or> (c \<ge> 48 \<and> c \<le> 57) \<or> c = 45) label)"

function validateDomainName_loop :: "byte list \<Rightarrow> nat \<Rightarrow> nat \<Rightarrow> error option" where
  "validateDomainName_loop host start i =
     (if length host < i then None
      else if i = length host \<or> host ! i = 46 then
        (let label = take (i - start) (drop start host)
         in if length label = 0 \<or> length label > 63 then Some ErrInvalidTarget
            else if \<not> validLabel label then Some ErrInvalidTarget
            else validateDomainName_loop host (i + 1) (i + 1))
      else validateDomainName_loop host start (i + 1))"
  by pat_completeness auto
termination
  by (relation "measure (\<lambda>(host, start, i). Suc (length host) - i)") auto

declare validateDomainName_loop.simps [simp del]

definition validateDomainName :: "byte list \<Rightarrow> error option" where
  "validateDomainName host =
     (if length host = 0 \<or> length host > DomainLenMax then Some ErrInvalidTarget
      else if list_ex (\<lambda>c. c \<ge> 0x80) host then Some ErrInvalidTarget
      else validateDomainName_loop host 0 0)"

subsection \<open>Targets\<close>

record nw2_Target =
  t2_Type :: byte
  t2_Addr :: addr
  t2_Host :: "byte list"
  t2_Port :: u16

definition nw2_NewIPTarget :: "addr \<Rightarrow> u16 \<Rightarrow> error + nw2_Target" where
  "nw2_NewIPTarget a port =
     (if \<not> IsValid a then Inl (New ''nowhere: invalid ip target address'')
      else if Is4In6 a then Inl (New ''nowhere: ipv4-in-6 mapped address must be unmapped'')
      else if port = 0 then Inl (New ''nowhere: zero target port'')
      else Inr \<lparr>t2_Type = (if Is4 a then TargetIPv4 else TargetIPv6), t2_Addr = a, t2_Host = [], t2_Port = port\<rparr>)"

definition nw2_NewDomainTarget :: "byte list \<Rightarrow> u16 \<Rightarrow> error + nw2_Target" where
  "nw2_NewDomainTarget host port =
     (if port = 0 then Inl (New ''nowhere: zero target port'')
      else
        (case validateDomainName host of
           Some e \<Rightarrow> Inl e
         | None \<Rightarrow> Inr \<lparr>t2_Type = TargetDomain, t2_Addr = NoAddr, t2_Host = host, t2_Port = port\<rparr>))"

text \<open>The switch of \<^verbatim>\<open>Validate\<close>, then the check that an IP target has no host.\<close>

definition nw2_Target_Validate :: "nw2_Target \<Rightarrow> error option" where
  "nw2_Target_Validate t =
     (let first =
        (if t2_Type t = TargetIPv4 then
           (if \<not> IsValid (t2_Addr t) \<or> \<not> Is4 (t2_Addr t) \<or> t2_Port t = 0 then Some ErrInvalidTarget else None)
         else if t2_Type t = TargetIPv6 then
           (if \<not> IsValid (t2_Addr t) \<or> Is4 (t2_Addr t) \<or> Is4In6 (t2_Addr t) \<or> t2_Port t = 0
            then Some ErrInvalidTarget else None)
         else if t2_Type t = TargetDomain then
           (if t2_Port t = 0 then Some ErrInvalidTarget
            else
              (case validateDomainName (t2_Host t) of
                 Some e \<Rightarrow> Some e
               | None \<Rightarrow>
                   if IsValid (t2_Addr t) then Some (New ''nowhere: domain target must not carry an ip'') else None))
         else Some ErrInvalidTarget)
      in case first of
           Some e \<Rightarrow> Some e
         | None \<Rightarrow> if t2_Type t \<noteq> TargetDomain \<and> t2_Host t \<noteq> [] then Some ErrInvalidTarget else None)"

definition nw2_EncodedLen :: "nw2_Target \<Rightarrow> error + nat" where
  "nw2_EncodedLen t =
     (case nw2_Target_Validate t of
        Some e \<Rightarrow> Inl e
      | None \<Rightarrow>
          Inr (if t2_Type t = TargetIPv4 then targetIPv4Len
               else if t2_Type t = TargetIPv6 then targetIPv6Len
               else 1 + 1 + length (t2_Host t) + 2))"

text \<open>
  Writing \<open>src\<close> at \<open>i\<close> of a buffer. \<^verbatim>\<open>encodeTargetInto\<close> slices its buffer up to the encoded
  length, which panics when it is shorter.
\<close>

definition splice :: "nat \<Rightarrow> byte list \<Rightarrow> byte list \<Rightarrow> byte list" where
  "splice i src out = take i out @ src @ drop (i + length src) out"

definition nw2_encodeTargetInto :: "nw2_Target \<Rightarrow> byte list \<Rightarrow> (error + nat \<times> byte list) go" where
  "nw2_encodeTargetInto t out =
     (if t2_Type t = TargetIPv4 then
        (if length out < targetIPv4Len then Panic
         else Ret (Inr (targetIPv4Len,
                splice 5 (PutUint16 (t2_Port t)) (splice 1 (As4 (t2_Addr t)) (splice 0 [TargetIPv4] out)))))
      else if t2_Type t = TargetIPv6 then
        (if length out < targetIPv6Len then Panic
         else Ret (Inr (targetIPv6Len,
                splice 17 (PutUint16 (t2_Port t)) (splice 1 (As16 (t2_Addr t)) (splice 0 [TargetIPv6] out)))))
      else if t2_Type t = TargetDomain then
        (let n = length (t2_Host t)
         in if length out < 1 + 1 + n + 2 then Panic
            else Ret (Inr (1 + 1 + n + 2,
                   splice (2 + n) (PutUint16 (t2_Port t))
                     (splice 2 (t2_Host t) (splice 1 [word_of_nat n] (splice 0 [TargetDomain] out))))))
      else Ret (Inl ErrInvalidTarget))"

definition nw2_EncodeTarget :: "nw2_Target \<Rightarrow> (error + byte list) go" where
  "nw2_EncodeTarget t =
     (case nw2_Target_Validate t of
        Some e \<Rightarrow> Ret (Inl e)
      | None \<Rightarrow>
          (case nw2_EncodedLen t of
             Inl e \<Rightarrow> Ret (Inl e)
           | Inr n \<Rightarrow>
               (case nw2_encodeTargetInto t (replicate n 0) of
                  Panic \<Rightarrow> Panic
                | Ret (Inl e) \<Rightarrow> Ret (Inl e)
                | Ret (Inr (k, out)) \<Rightarrow> Ret (Inr out))))"

definition nw2_EncodeTargetInto :: "nw2_Target \<Rightarrow> byte list \<Rightarrow> (error + nat \<times> byte list) go" where
  "nw2_EncodeTargetInto t out =
     (case nw2_Target_Validate t of
        Some e \<Rightarrow> Ret (Inl e)
      | None \<Rightarrow>
          (case nw2_EncodedLen t of
             Inl e \<Rightarrow> Ret (Inl e)
           | Inr n \<Rightarrow>
               if length out < n then Ret (Inl (New ''nowhere: target output buffer too short''))
               else nw2_encodeTargetInto t out))"

definition nw2_DecodeTarget :: "byte list \<Rightarrow> error + nw2_Target \<times> nat" where
  "nw2_DecodeTarget input =
     (if length input = 0 then Inl ErrInvalidTarget
      else if input ! 0 = TargetIPv4 then
        (if length input < targetIPv4Len then Inl ErrTruncated
         else
           (case nw2_NewIPTarget (AddrFrom4 (take 4 (drop 1 input))) (Uint16 (take 2 (drop 5 input))) of
              Inl e \<Rightarrow> Inl e
            | Inr t \<Rightarrow> Inr (t, targetIPv4Len)))
      else if input ! 0 = TargetIPv6 then
        (if length input < targetIPv6Len then Inl ErrTruncated
         else
           (let addr = AddrFrom16 (take 16 (drop 1 input))
            in if Is4In6 addr then Inl ErrInvalidTarget
               else
                 (case nw2_NewIPTarget addr (Uint16 (take 2 (drop 17 input))) of
                    Inl e \<Rightarrow> Inl e
                  | Inr t \<Rightarrow> Inr (t, targetIPv6Len))))
      else if input ! 0 = TargetDomain then
        (if length input < 2 then Inl ErrTruncated
         else
           (let domainLen = unat (input ! 1);
                encodedLen = 1 + 1 + domainLen + 2
            in if domainLen = 0 \<or> domainLen > DomainLenMax then Inl ErrInvalidTarget
               else if length input < encodedLen then Inl ErrTruncated
               else
                 (case nw2_NewDomainTarget (take domainLen (drop 2 input))
                         (Uint16 (take 2 (drop (encodedLen - 2) input))) of
                    Inl e \<Rightarrow> Inl e
                  | Inr t \<Rightarrow> Inr (t, encodedLen))))
      else Inl ErrInvalidTarget)"

definition nw2_ReadTarget :: "reader \<Rightarrow> error + nw2_Target \<times> reader" where
  "nw2_ReadTarget r =
     (case ReadFull 1 r of
        Inl e \<Rightarrow> Inl e
      | Inr (atyp, r) \<Rightarrow>
          if atyp ! 0 = TargetIPv4 then
            (case ReadFull (targetIPv4Len - 1) r of
               Inl e \<Rightarrow> Inl e
             | Inr (buf, r) \<Rightarrow>
                 (case nw2_DecodeTarget (TargetIPv4 # buf) of Inl e \<Rightarrow> Inl e | Inr (t, _) \<Rightarrow> Inr (t, r)))
          else if atyp ! 0 = TargetIPv6 then
            (case ReadFull (targetIPv6Len - 1) r of
               Inl e \<Rightarrow> Inl e
             | Inr (buf, r) \<Rightarrow>
                 (case nw2_DecodeTarget (TargetIPv6 # buf) of Inl e \<Rightarrow> Inl e | Inr (t, _) \<Rightarrow> Inr (t, r)))
          else if atyp ! 0 = TargetDomain then
            (case ReadFull 1 r of
               Inl e \<Rightarrow> Inl e
             | Inr (lenByte, r) \<Rightarrow>
                 (let domainLen = unat (lenByte ! 0)
                  in if domainLen = 0 \<or> domainLen > DomainLenMax then Inl ErrInvalidTarget
                     else
                       (case ReadFull (domainLen + 2) r of
                          Inl e \<Rightarrow> Inl e
                        | Inr (buf, r) \<Rightarrow>
                            (case nw2_DecodeTarget (TargetDomain # (lenByte ! 0) # buf) of
                               Inl e \<Rightarrow> Inl e
                             | Inr (t, _) \<Rightarrow> Inr (t, r)))))
          else Inl ErrInvalidTarget)"

subsection \<open>The same names and the same bytes as nw3\<close>

lemma validLabel_ok: "l \<noteq> [] \<Longrightarrow> label_ok l \<longleftrightarrow> length l \<le> 63 \<and> validLabel l"
  by (auto simp: label_ok_def validLabel_def hd_conv_nth last_conv_nth list_all_iff ldh_def)

lemma validateDomainName_loop_labels:
  "scanned h start i \<Longrightarrow>
   validateDomainName_loop h start i = None \<longleftrightarrow> list_all label_ok (labels (drop start h))"
proof (induction h start i rule: validateDomainName_loop.induct)
  case (1 h start i)
  let ?l = "take (i - start) (drop start h)"
  from "1.prems" have le: "i \<le> length h" by (simp add: scanned_def)
  consider (scan) "i < length h" "h ! i \<noteq> 46" | (dot) "i < length h" "h ! i = 46" | (fin) "i = length h"
    using le by fastforce
  then show ?case
  proof cases
    case scan
    with 1 show ?thesis by (subst validateDomainName_loop.simps) (simp add: scanned_step)
  next
    case dot
    have "validateDomainName_loop h start i = None \<longleftrightarrow> label_ok ?l \<and> validateDomainName_loop h (i + 1) (i + 1) = None"
      using dot validLabel_ok [of ?l]
      by (subst validateDomainName_loop.simps) (auto simp: Let_def label_ok_def)
    moreover have "label_ok ?l \<Longrightarrow>
        validateDomainName_loop h (i + 1) (i + 1) = None \<longleftrightarrow> list_all label_ok (labels (drop (i + 1) h))"
      using dot validLabel_ok [of ?l] scanned_restart [of i h]
      by (intro "1.IH"(1)) (auto simp: label_ok_def)
    ultimately show ?thesis using labels_at_dot [OF "1.prems" dot] by auto
  next
    case fin
    have "validateDomainName_loop h (i + 1) (i + 1) = None"
      using fin by (subst validateDomainName_loop.simps) simp
    then have "validateDomainName_loop h start i = None \<longleftrightarrow> label_ok ?l"
      using fin validLabel_ok [of ?l]
      by (subst validateDomainName_loop.simps) (auto simp: Let_def label_ok_def)
    then show ?thesis using labels_at_end [of h start] "1.prems" fin by simp
  qed
qed

lemma validateDomainName_domain_ok: "validateDomainName host = None \<longleftrightarrow> domain_ok host"
proof -
  have "list_all label_ok (labels host) \<Longrightarrow> \<not> list_ex (\<lambda>c. c \<ge> 0x80) host"
    using domain_ok_ascii [of host] by (fastforce simp: list_ex_iff not_le [symmetric])
  then show ?thesis
    using validateDomainName_loop_labels [of host 0 0]
    by (auto simp: validateDomainName_def domain_ok_def DomainLenMax_def)
qed

lemma validateDomainName_nw3: "validateDomainName host = None \<longleftrightarrow> validateDomain host = None"
  by (simp add: validateDomainName_domain_ok validateDomain_domain_ok)

text \<open>An nw3 target with the address type that its address has.\<close>

definition to_nw2 :: "Target \<Rightarrow> nw2_Target" where
  "to_nw2 t =
     \<lparr>t2_Type = (if Is4 (Addr t) then TargetIPv4 else if IsValid (Addr t) then TargetIPv6 else TargetDomain),
      t2_Addr = Addr t, t2_Host = Host t, t2_Port = Port t\<rparr>"

definition to_nw3 :: "nw2_Target \<Rightarrow> Target" where
  "to_nw3 t = \<lparr>Addr = t2_Addr t, Host = t2_Host t, Port = t2_Port t\<rparr>"

lemma to_nw3_to_nw2 [simp]: "to_nw3 (to_nw2 t) = t"
  by (simp add: to_nw2_def to_nw3_def)

lemma Is4_valid: "Is4 a \<Longrightarrow> IsValid a" "Is4 a \<Longrightarrow> \<not> Is4In6 a"
  by (cases a; simp)+

lemma nw2_Target_Validate_iff:
  "nw2_Target_Validate t = None \<longleftrightarrow> Target_validate (to_nw3 t) = None \<and> t = to_nw2 (to_nw3 t)"
proof -
  have n: "TargetIPv4 \<noteq> TargetIPv6" "TargetIPv4 \<noteq> TargetDomain" "TargetIPv6 \<noteq> TargetDomain"
    by (simp_all add: target_consts)
  have e: "t = to_nw2 (to_nw3 t) \<longleftrightarrow>
      t2_Type t = (if Is4 (t2_Addr t) then TargetIPv4 else if IsValid (t2_Addr t) then TargetIPv6 else TargetDomain)"
    by (cases t) (simp add: to_nw2_def to_nw3_def)
  show ?thesis
    unfolding e using n n [symmetric] Is4_valid [of "t2_Addr t"]
    by (cases "validateDomainName (t2_Host t)")
      (auto simp: nw2_Target_Validate_def Target_validate_def to_nw3_def Let_def validateDomainName_nw3 [symmetric]
        split: if_splits)
qed

lemma splice_first: "out \<noteq> [] \<Longrightarrow> splice 0 [b] out = b # drop 1 out"
  by (simp add: splice_def)

lemma splice_after: "length pre = i \<Longrightarrow> length src \<le> length out \<Longrightarrow> splice i src (pre @ out) = pre @ src @ drop (length src) out"
  by (simp add: splice_def)

lemma nw2_encodeTargetInto_eq:
  assumes "nw2_Target_Validate t = None" "nw2_EncodedLen t = Inr n" "n \<le> length out"
  shows "\<exists>bs. AppendTarget [] (to_nw3 t) = Inr bs \<and> length bs = n \<and> nw2_encodeTargetInto t out = Ret (Inr (n, bs @ drop n out))"
proof -
  have v: "Target_validate (to_nw3 t) = None" and t: "t = to_nw2 (to_nw3 t)"
    using assms(1) by (simp_all add: nw2_Target_Validate_iff)
  define u where "u = to_nw3 t"
  have tu: "t = to_nw2 u" using t by (simp add: u_def)
  have neq: "TargetIPv6 \<noteq> TargetIPv4" "TargetDomain \<noteq> TargetIPv4" "TargetDomain \<noteq> TargetIPv6"
    by (simp_all add: target_consts)
  have vu: "Target_validate u = None" using v by (simp add: u_def)
  have "\<exists>bs. AppendTarget [] u = Inr bs \<and> length bs = n \<and> nw2_encodeTargetInto t out = Ret (Inr (n, bs @ drop n out))"
    using vu
  proof (cases rule: Target_validate_cases)
    case v4
    have n: "n = 7" using assms(1,2) v4 by (simp add: nw2_EncodedLen_def tu to_nw2_def targetIPv4Len_def)
    let ?bs = "TargetIPv4 # As4 (Addr u) @ PutUint16 (Port u)"
    have "AppendTarget [] u = Inr ?bs" using v4 vu by (simp add: AppendTarget_def target_consts)
    moreover have "nw2_encodeTargetInto t out = Ret (Inr (n, ?bs @ drop n out))"
      using v4 n assms(3)
      by (cases out) (auto simp: nw2_encodeTargetInto_def tu to_nw2_def targetIPv4Len_def splice_def)
    ultimately show ?thesis using v4 n by auto
  next
    case v6
    have n: "n = 19" using assms(1,2) v6 neq by (simp add: nw2_EncodedLen_def tu to_nw2_def targetIPv6Len_def)
    let ?bs = "TargetIPv6 # As16 (Addr u) @ PutUint16 (Port u)"
    have "AppendTarget [] u = Inr ?bs" using v6 vu by (simp add: AppendTarget_def target_consts)
    moreover have "nw2_encodeTargetInto t out = Ret (Inr (n, ?bs @ drop n out))"
      using v6 n assms(3) neq
      by (cases out) (auto simp: nw2_encodeTargetInto_def tu to_nw2_def targetIPv6Len_def splice_def)
    ultimately show ?thesis using n by auto
  next
    case domain
    let ?k = "length (Host u)"
    have n: "n = ?k + 4" using assms(1,2) domain neq by (simp add: nw2_EncodedLen_def tu to_nw2_def)
    let ?bs = "TargetDomain # word_of_nat ?k # Host u @ PutUint16 (Port u)"
    have "AppendTarget [] u = Inr ?bs" using domain vu by (simp add: AppendTarget_def target_consts)
    moreover obtain a b rest where o: "out = a # b # rest" using n assms(3) by (cases out; cases "tl out") auto
    have "drop (?k + 4) (a # b # rest) = drop (Suc (Suc ?k)) rest" by (simp add: numeral_eq_Suc)
    then have "nw2_encodeTargetInto t out = Ret (Inr (n, ?bs @ drop n out))"
      using domain n assms(3) neq o
      by (simp add: nw2_encodeTargetInto_def tu to_nw2_def splice_def Let_def)
    ultimately show ?thesis using n by auto
  qed
  then show ?thesis by (simp add: u_def)
qed

lemma nw2_EncodeTarget_eq:
  "nw2_EncodeTarget t =
     Ret (case nw2_Target_Validate t of Some e \<Rightarrow> Inl e | None \<Rightarrow> AppendTarget [] (to_nw3 t))"
proof (cases "nw2_Target_Validate t")
  case None
  then obtain n where n: "nw2_EncodedLen t = Inr n" by (simp add: nw2_EncodedLen_def)
  from nw2_encodeTargetInto_eq [OF None n, of "replicate n 0"]
  show ?thesis using None n by (auto simp: nw2_EncodeTarget_def)
qed (simp add: nw2_EncodeTarget_def)

lemma nw2_EncodeTargetInto_eq:
  "nw2_EncodeTargetInto t out =
     Ret (case nw2_Target_Validate t of
            Some e \<Rightarrow> Inl e
          | None \<Rightarrow>
              (case AppendTarget [] (to_nw3 t) of
                 Inl e \<Rightarrow> Inl e
               | Inr bs \<Rightarrow>
                   if length out < length bs then Inl (New ''nowhere: target output buffer too short'')
                   else Inr (length bs, bs @ drop (length bs) out)))"
proof (cases "nw2_Target_Validate t")
  case None
  then obtain n where n: "nw2_EncodedLen t = Inr n" by (simp add: nw2_EncodedLen_def)
  obtain bs where bs: "AppendTarget [] (to_nw3 t) = Inr bs" "length bs = n"
    using nw2_encodeTargetInto_eq [OF None n, of "replicate n 0"] by auto
  show ?thesis
  proof (cases "length out < n")
    case True
    then show ?thesis using None n bs by (simp add: nw2_EncodeTargetInto_def)
  next
    case False
    then show ?thesis using None n bs nw2_encodeTargetInto_eq [OF None n, of out]
      by (auto simp: nw2_EncodeTargetInto_def)
  qed
qed (simp add: nw2_EncodeTargetInto_def)

subsection \<open>Reading\<close>

lemma nw2_NewIPTarget_eq:
  "nw2_NewIPTarget a p = Inr t \<longleftrightarrow> (\<exists>u. NewIPTarget a p = Inr u \<and> t = to_nw2 u)"
  using Is4_valid [of a] by (auto simp: nw2_NewIPTarget_def NewIPTarget_def to_nw2_def)

lemma nw2_NewDomainTarget_eq:
  "nw2_NewDomainTarget h p = Inr t \<longleftrightarrow> (\<exists>u. NewDomainTarget h p = Inr u \<and> t = to_nw2 u)"
  using validateDomainName_nw3 [of h]
  by (auto simp: nw2_NewDomainTarget_def NewDomainTarget_def to_nw2_def split: option.splits)

lemma case_pair_Inr:
  "(case x of Inl e \<Rightarrow> Inl e | Inr t \<Rightarrow> Inr (t, r)) = Inr (t', r') \<longleftrightarrow> x = Inr t' \<and> r = r'"
  "(case y of Inl e \<Rightarrow> Inl e | Inr (t, k) \<Rightarrow> Inr (t, r)) = Inr (t', r') \<longleftrightarrow> (\<exists>k. y = Inr (t', k)) \<and> r = r'"
  by (auto split: sum.splits)

lemma nw2_DecodeTarget_IPv4:
  "length buf = 6 \<Longrightarrow> nw2_DecodeTarget (TargetIPv4 # buf) = Inr (t, k) \<longleftrightarrow>
     k = 7 \<and> nw2_NewIPTarget (AddrFrom4 (take 4 buf)) (Uint16 (drop 4 buf)) = Inr t"
  by (auto simp: nw2_DecodeTarget_def target_consts split: sum.splits)

lemma nw2_DecodeTarget_IPv6:
  "length buf = 18 \<Longrightarrow> nw2_DecodeTarget (TargetIPv6 # buf) = Inr (t, k) \<longleftrightarrow>
     k = 19 \<and> nw2_NewIPTarget (AddrFrom16 (take 16 buf)) (Uint16 (drop 16 buf)) = Inr t"
  by (auto simp: nw2_DecodeTarget_def nw2_NewIPTarget_def target_consts Let_def split: sum.splits if_splits)

lemma nw2_DecodeTarget_Domain:
  "0 < unat n \<Longrightarrow> unat n \<le> 253 \<Longrightarrow> length buf = unat n + 2 \<Longrightarrow>
   nw2_DecodeTarget (TargetDomain # n # buf) = Inr (t, k) \<longleftrightarrow>
     k = unat n + 4 \<and> nw2_NewDomainTarget (take (unat n) buf) (Uint16 (drop (unat n) buf)) = Inr t"
  by (auto simp: nw2_DecodeTarget_def target_consts Let_def split: sum.splits)

text \<open>Both versions read the same targets off the same bytes.\<close>

lemma nw2_ReadTarget_nw3:
  "nw2_ReadTarget r = Inr (t, r') \<longleftrightarrow> (\<exists>u. ReadTarget r = Inr (u, r') \<and> t = to_nw2 u)"
proof (cases "ReadFull 1 r")
  case (Inl e)
  then show ?thesis by (simp add: nw2_ReadTarget_def ReadTarget_def)
next
  case (Inr x)
  then obtain a r1 where r1: "ReadFull 1 r = Inr ([a], r1)" by (cases x) (auto simp: ReadFull_1_Inr)
  note r1' = r1 [unfolded One_nat_def]
  consider (v4) "a = 0x01" | (v6) "a = 0x04" | (dom) "a = 0x03" | (other) "a \<noteq> 0x01" "a \<noteq> 0x04" "a \<noteq> 0x03" by blast
  then show ?thesis
  proof cases
    case v4
    then have d: "nw2_ReadTarget r = (case ReadFull 6 r1 of Inl e \<Rightarrow> Inl e
        | Inr (buf, r) \<Rightarrow> (case nw2_DecodeTarget (TargetIPv4 # buf) of Inl e \<Rightarrow> Inl e | Inr (t, _) \<Rightarrow> Inr (t, r)))"
      by (simp add: nw2_ReadTarget_def r1' target_consts)
    have e: "ReadTarget r = (case ReadFull 6 r1 of Inl e \<Rightarrow> Inl e
        | Inr (buf, r) \<Rightarrow> (let (a, ok) = AddrFromSlice (take 4 buf) in
            if \<not> ok then Inl (New ''nw3: invalid ipv4 target'')
            else (case NewIPTarget a (Uint16 (drop 4 buf)) of Inl e \<Rightarrow> Inl e | Inr t \<Rightarrow> Inr (t, r))))"
      using v4 by (simp add: ReadTarget_def r1')
    show ?thesis unfolding d e
      by (cases "ReadFull 6 r1")
        (auto simp: ReadFull_Inr case_pair_Inr nw2_DecodeTarget_IPv4 nw2_NewIPTarget_eq)
  next
    case v6
    then have d: "nw2_ReadTarget r = (case ReadFull 18 r1 of Inl e \<Rightarrow> Inl e
        | Inr (buf, r) \<Rightarrow> (case nw2_DecodeTarget (TargetIPv6 # buf) of Inl e \<Rightarrow> Inl e | Inr (t, _) \<Rightarrow> Inr (t, r)))"
      by (simp add: nw2_ReadTarget_def r1' target_consts)
    have e: "ReadTarget r = (case ReadFull 18 r1 of Inl e \<Rightarrow> Inl e
        | Inr (buf, r) \<Rightarrow> (let (a, ok) = AddrFromSlice (take 16 buf) in
            if \<not> ok then Inl (New ''nw3: invalid ipv6 target'')
            else (case NewIPTarget a (Uint16 (drop 16 buf)) of Inl e \<Rightarrow> Inl e | Inr t \<Rightarrow> Inr (t, r))))"
      using v6 by (simp add: ReadTarget_def r1')
    show ?thesis unfolding d e
      by (cases "ReadFull 18 r1")
        (auto simp: ReadFull_Inr case_pair_Inr nw2_DecodeTarget_IPv6 nw2_NewIPTarget_eq)
  next
    case dom
    show ?thesis
    proof (cases "ReadFull 1 r1")
      case (Inl e)
      then show ?thesis using dom by (simp add: nw2_ReadTarget_def ReadTarget_def r1' target_consts)
    next
      case (Inr y)
      then obtain n r2 where r2: "ReadFull (Suc 0) r1 = Inr ([n], r2)" by (cases y) (auto simp: ReadFull_1_Inr)
      show ?thesis
      proof (cases "unat n = 0 \<or> 253 < unat n")
        case True
        then show ?thesis using dom r2
          by (auto simp: nw2_ReadTarget_def ReadTarget_def r1' target_consts domainLenMax_def Let_def)
      next
        case False
        then have d: "nw2_ReadTarget r = (case ReadFull (unat n + 2) r2 of Inl e \<Rightarrow> Inl e
            | Inr (buf, r) \<Rightarrow> (case nw2_DecodeTarget (TargetDomain # n # buf) of Inl e \<Rightarrow> Inl e | Inr (t, _) \<Rightarrow> Inr (t, r)))"
          using dom r2 by (simp add: nw2_ReadTarget_def r1' target_consts Let_def split: sum.split)
        have e: "ReadTarget r = (case ReadFull (unat n + 2) r2 of Inl e \<Rightarrow> Inl e
            | Inr (buf, r) \<Rightarrow> (case NewDomainTarget (take (unat n) buf) (Uint16 (drop (unat n) buf)) of
                Inl e \<Rightarrow> Inl e | Inr t \<Rightarrow> Inr (t, r)))"
          using dom r2 False by (simp add: ReadTarget_def r1' domainLenMax_def Let_def split: sum.split)
        show ?thesis unfolding d e using False
          by (cases "ReadFull (unat n + 2) r2")
            (auto simp: ReadFull_Inr case_pair_Inr nw2_DecodeTarget_Domain nw2_NewDomainTarget_eq)
      qed
    qed
  next
    case other
    then show ?thesis by (simp add: nw2_ReadTarget_def ReadTarget_def r1' target_consts)
  qed
qed

text \<open>What is written is read back, and only what would be written is read.\<close>

interpretation nw2_target: stream_codec "\<lambda>t. \<not> WithZone (t2_Addr t)"
    "\<lambda>t. case nw2_EncodeTarget t of Ret x \<Rightarrow> x | Panic \<Rightarrow> Inl ErrInvalidTarget" nw2_ReadTarget
proof
  fix t bs r
  assume z: "\<not> WithZone (t2_Addr t)" and e: "(case nw2_EncodeTarget t of Ret x \<Rightarrow> x | Panic \<Rightarrow> Inl ErrInvalidTarget) = Inr bs"
  then have v: "nw2_Target_Validate t = None" and a: "AppendTarget [] (to_nw3 t) = Inr bs"
    by (auto simp: nw2_EncodeTarget_eq split: option.splits)
  have "ReadTarget (prepend bs r) = Inr (to_nw3 t, r)"
    using ReadTarget_AppendTarget [OF a] z by (simp add: to_nw3_def)
  then show "nw2_ReadTarget (prepend bs r) = Inr (t, r)"
    using v by (auto simp: nw2_ReadTarget_nw3 nw2_Target_Validate_iff)
qed

lemma nw2_ReadTarget_canonical:
  assumes "nw2_ReadTarget r = Inr (t, r')"
  shows "\<exists>bs. nw2_EncodeTarget t = Ret (Inr bs) \<and> r = prepend bs r' \<and> nw2_Target_Validate t = None"
proof -
  from assms obtain u where u: "ReadTarget r = Inr (u, r')" "t = to_nw2 u" by (auto simp: nw2_ReadTarget_nw3)
  from ReadTarget_canonical [OF u(1)] obtain bs
    where bs: "AppendTarget [] u = Inr bs" "r = prepend bs r'" "Target_validate u = None" by blast
  have "nw2_Target_Validate t = None" using bs(3) u(2) by (simp add: nw2_Target_Validate_iff)
  then show ?thesis using bs u(2) by (simp add: nw2_EncodeTarget_eq)
qed

end
