(* ===== verification/Nw2_Datagram.thy ===== *)
theory Nw2_Datagram
  imports Wire3_Reassembly Nw2_Target
begin

section \<open>nw2 wire: UDP frames on QUIC datagrams\<close>

text \<open>
  \<^verbatim>\<open>nw2/wire/datagram.go\<close>. The callback \<^verbatim>\<open>yield\<close> of the lazy encoder is a function on a state of
  the caller's choice that returns the callback's error.
\<close>

definition ErrInvalidFrame :: error where "ErrInvalidFrame = New ''nowhere: invalid frame''"

definition UDPFrameDATA :: byte where "UDPFrameDATA = 0"
definition UDPFrameFRAGMENT :: byte where "UDPFrameFRAGMENT = 1"
definition UDPFrameCLOSE :: byte where "UDPFrameCLOSE = 2"
definition UDPHeaderLen :: nat where "UDPHeaderLen = 4"
definition UDPFragmentHeaderLen :: nat where "UDPFragmentHeaderLen = 12"
definition UDPPacketMax :: nat where "UDPPacketMax = 0xffff"

lemmas udp2_consts = UDPFrameDATA_def UDPFrameFRAGMENT_def UDPFrameCLOSE_def UDPHeaderLen_def
  UDPFragmentHeaderLen_def UDPPacketMax_def

record UDPFragment =
  uf_PacketID :: u32
  uf_FragmentIndex :: byte
  uf_FragmentCount :: byte
  uf_TotalLen :: u16
  uf_Payload :: "byte list"

record UDPFrame =
  fr_Type :: byte
  fr_FlowID :: u32
  fr_Payload :: "byte list"
  fr_Fragment :: UDPFragment

definition no_fragment :: UDPFragment where
  "no_fragment = \<lparr>uf_PacketID = 0, uf_FragmentIndex = 0, uf_FragmentCount = 0, uf_TotalLen = 0, uf_Payload = []\<rparr>"

definition validateFlowID :: "u32 \<Rightarrow> error option" where
  "validateFlowID flowID =
     (if flowID = 0 \<or> flowID > nw2_MaxFlowID then Some (New ''nowhere: flow id out of range'') else None)"

definition validatePacketID :: "u32 \<Rightarrow> error option" where
  "validatePacketID packetID = (if packetID = 0 then Some (New ''nowhere: zero packet id'') else None)"

definition validateUDPPayload :: "byte list \<Rightarrow> error option" where
  "validateUDPPayload payload =
     (if length payload > UDPPacketMax then Some (Errorf ''nowhere: udp payload too large: %d'' [int (length payload)])
      else None)"

definition validateFragmentMetadata :: "UDPFragment \<Rightarrow> error option" where
  "validateFragmentMetadata fragment =
     (if uf_FragmentCount fragment < 2 \<or> uf_FragmentIndex fragment \<ge> uf_FragmentCount fragment
      then Some (New ''nowhere: invalid fragment index or count'')
      else if uf_TotalLen fragment = 0 then Some (New ''nowhere: zero fragmented packet length'')
      else if uf_TotalLen fragment < ucast (uf_FragmentCount fragment)
      then Some (New ''nowhere: total length smaller than fragment count'')
      else None)"

subsection \<open>Encoding\<close>

definition encodeUDPBaseWord :: "byte \<Rightarrow> u32 \<Rightarrow> error + u32" where
  "encodeUDPBaseWord frameType flowID =
     (case validateFlowID flowID of
        Some e \<Rightarrow> Inl e
      | None \<Rightarrow>
          if frameType > UDPFrameCLOSE then Inl (New ''nowhere: invalid udp frame type'')
          else Inr (push_bit 30 (ucast frameType) OR flowID))"

definition encodeUDPBaseHeader :: "byte \<Rightarrow> u32 \<Rightarrow> error + byte list" where
  "encodeUDPBaseHeader frameType flowID =
     (case encodeUDPBaseWord frameType flowID of Inl e \<Rightarrow> Inl e | Inr word \<Rightarrow> Inr (PutUint32 word))"

definition EncodeUDPDataHeader :: "u32 \<Rightarrow> error + byte list" where
  "EncodeUDPDataHeader flowID = encodeUDPBaseHeader UDPFrameDATA flowID"

definition EncodeUDPClose :: "u32 \<Rightarrow> error + byte list" where
  "EncodeUDPClose flowID = encodeUDPBaseHeader UDPFrameCLOSE flowID"

definition EncodeUDPFragmentHeader :: "u32 \<Rightarrow> UDPFragment \<Rightarrow> error + byte list" where
  "EncodeUDPFragmentHeader flowID fragment =
     (case validateFlowID flowID of
        Some e \<Rightarrow> Inl e
      | None \<Rightarrow>
          (case validatePacketID (uf_PacketID fragment) of
             Some e \<Rightarrow> Inl e
           | None \<Rightarrow>
               (case validateFragmentMetadata fragment of
                  Some e \<Rightarrow> Inl e
                | None \<Rightarrow>
                    (case encodeUDPBaseWord UDPFrameFRAGMENT flowID of
                       Inl e \<Rightarrow> Inl e
                     | Inr word \<Rightarrow>
                         Inr (PutUint32 word @ PutUint32 (uf_PacketID fragment) @
                              [uf_FragmentIndex fragment, uf_FragmentCount fragment] @
                              [ucast (drop_bit 8 (uf_TotalLen fragment)), ucast (uf_TotalLen fragment)])))))"

definition EncodeUDPData :: "u32 \<Rightarrow> byte list \<Rightarrow> error + byte list" where
  "EncodeUDPData flowID payload =
     (case validateFlowID flowID of
        Some e \<Rightarrow> Inl e
      | None \<Rightarrow>
          (case validateUDPPayload payload of
             Some e \<Rightarrow> Inl e
           | None \<Rightarrow>
               (case encodeUDPBaseHeader UDPFrameDATA flowID of
                  Inl e \<Rightarrow> Inl e
                | Inr header \<Rightarrow> Inr (header @ payload))))"

text \<open>The loop over the fragments, with the indices still to do.\<close>

fun yieldUDPFragments_loop ::
  "u32 \<Rightarrow> u32 \<Rightarrow> byte list \<Rightarrow> nat \<Rightarrow> nat \<Rightarrow> (byte list \<Rightarrow> 's \<Rightarrow> error option \<times> 's) \<Rightarrow> nat list \<Rightarrow> 's \<Rightarrow> error option \<times> 's" where
  "yieldUDPFragments_loop flowID packetID payload capacity count yield [] s = (None, s)"
| "yieldUDPFragments_loop flowID packetID payload capacity count yield (i # rest) s =
     (let piece = fragment_piece payload capacity i
      in case EncodeUDPFragmentHeader flowID
                \<lparr>uf_PacketID = packetID, uf_FragmentIndex = word_of_nat i, uf_FragmentCount = word_of_nat count,
                 uf_TotalLen = word_of_nat (length payload), uf_Payload = piece\<rparr> of
           Inl e \<Rightarrow> (Some e, s)
         | Inr header \<Rightarrow>
             (case yield (header @ piece) s of
                (Some e, s) \<Rightarrow> (Some e, s)
              | (None, s) \<Rightarrow> yieldUDPFragments_loop flowID packetID payload capacity count yield rest s))"

definition yieldUDPFragments ::
  "u32 \<Rightarrow> u32 \<Rightarrow> byte list \<Rightarrow> int \<Rightarrow> (byte list \<Rightarrow> 's \<Rightarrow> error option \<times> 's) \<Rightarrow> 's \<Rightarrow> error option \<times> 's" where
  "yieldUDPFragments flowID packetID payload maxDatagramSize yield s =
     (let capacity = maxDatagramSize - int UDPFragmentHeaderLen
      in if capacity \<le> 0 then (Some (New ''nowhere: no fragment payload capacity''), s)
         else
           (let count = (length payload + nat capacity - 1) div nat capacity
            in if count < 2 \<or> count > 255
               then (Some (Errorf ''nowhere: invalid fragment count %d'' [int count]), s)
               else yieldUDPFragments_loop flowID packetID payload (nat capacity) count yield [0..<count] s))"

definition EncodeUDPDataFragmentsYield ::
  "u32 \<Rightarrow> u32 \<Rightarrow> byte list \<Rightarrow> int \<Rightarrow> (byte list \<Rightarrow> 's \<Rightarrow> error option \<times> 's) \<Rightarrow> 's \<Rightarrow> error option \<times> 's" where
  "EncodeUDPDataFragmentsYield flowID packetID payload maxDatagramSize yield s =
     (case validateFlowID flowID of
        Some e \<Rightarrow> (Some e, s)
      | None \<Rightarrow>
          (case validateUDPPayload payload of
             Some e \<Rightarrow> (Some e, s)
           | None \<Rightarrow>
               if maxDatagramSize < int UDPHeaderLen
               then (Some (Errorf ''nowhere: datagram size %d smaller than header %d'' [maxDatagramSize, int UDPHeaderLen]), s)
               else if int (length payload) \<le> maxDatagramSize - int UDPHeaderLen
               then (case EncodeUDPData flowID payload of Inl e \<Rightarrow> (Some e, s) | Inr frame \<Rightarrow> yield frame s)
               else
                 (case validatePacketID packetID of
                    Some e \<Rightarrow> (Some e, s)
                  | None \<Rightarrow> yieldUDPFragments flowID packetID payload maxDatagramSize yield s)))"

definition EncodeUDPDataFragments :: "u32 \<Rightarrow> u32 \<Rightarrow> byte list \<Rightarrow> int \<Rightarrow> error + byte list list" where
  "EncodeUDPDataFragments flowID packetID payload maxDatagramSize =
     (case EncodeUDPDataFragmentsYield flowID packetID payload maxDatagramSize
             (\<lambda>frame frames. (None, frames @ [frame])) [] of
        (Some e, frames) \<Rightarrow> Inl e
      | (None, frames) \<Rightarrow> Inr frames)"

subsection \<open>Decoding\<close>

definition decodeUDPFragmentFrame :: "byte list \<Rightarrow> u32 \<Rightarrow> error + UDPFrame" where
  "decodeUDPFragmentFrame buf flowID =
     (if length buf < UDPFragmentHeaderLen then Inl ErrInvalidFrame
      else
        (let packetID = Uint32 (take 4 (drop 4 buf))
         in case validatePacketID packetID of
              Some e \<Rightarrow> Inl ErrInvalidFrame
            | None \<Rightarrow>
                (let fragment =
                   \<lparr>uf_PacketID = packetID, uf_FragmentIndex = buf ! 8, uf_FragmentCount = buf ! 9,
                    uf_TotalLen = push_bit 8 (ucast (buf ! 10)) OR ucast (buf ! 11),
                    uf_Payload = drop UDPFragmentHeaderLen buf\<rparr>
                 in case validateFragmentMetadata fragment of
                      Some e \<Rightarrow> Inl ErrInvalidFrame
                    | None \<Rightarrow>
                        if length (uf_Payload fragment) = 0 \<or>
                           int (length (uf_Payload fragment)) + int (unat (uf_FragmentCount fragment)) - 1 > int (unat (uf_TotalLen fragment))
                        then Inl ErrInvalidFrame
                        else Inr \<lparr>fr_Type = UDPFrameFRAGMENT, fr_FlowID = flowID, fr_Payload = [], fr_Fragment = fragment\<rparr>)))"

definition DecodeUDPFrame :: "byte list \<Rightarrow> error + UDPFrame" where
  "DecodeUDPFrame buf =
     (if length buf < UDPHeaderLen then Inl ErrInvalidFrame
      else
        (let base = Uint32 (take 4 buf);
             frameType = ucast (drop_bit 30 (base AND push_bit 30 0b11)) :: byte;
             flowID = base AND nw2_MaxFlowID
         in case validateFlowID flowID of
              Some e \<Rightarrow> Inl ErrInvalidFrame
            | None \<Rightarrow>
                if frameType = UDPFrameDATA then
                  (case validateUDPPayload (drop UDPHeaderLen buf) of
                     Some e \<Rightarrow> Inl ErrInvalidFrame
                   | None \<Rightarrow> Inr \<lparr>fr_Type = UDPFrameDATA, fr_FlowID = flowID, fr_Payload = drop UDPHeaderLen buf,
                                  fr_Fragment = no_fragment\<rparr>)
                else if frameType = UDPFrameFRAGMENT then decodeUDPFragmentFrame buf flowID
                else if frameType = UDPFrameCLOSE then
                  (if length buf \<noteq> UDPHeaderLen then Inl ErrInvalidFrame
                   else Inr \<lparr>fr_Type = UDPFrameCLOSE, fr_FlowID = flowID, fr_Payload = [], fr_Fragment = no_fragment\<rparr>)
                else Inl ErrInvalidFrame))"

subsection \<open>The same frames as nw3\<close>

lemma validateFlowID_nw3: "validateFlowID f = None \<longleftrightarrow> validateFlow f = None"
  by (simp add: validateFlowID_def validateFlow_def nw2_MaxFlowID_def MaxFlowID_def)

lemma encodeUDPBaseWord_eq: "t \<le> UDPFrameCLOSE \<Longrightarrow> validateFlow f = None \<Longrightarrow> encodeUDPBaseWord t f = Inr (push_bit 30 (ucast t) OR f)"
  by (simp add: encodeUDPBaseWord_def validateFlowID_nw3 [symmetric] not_less)

lemma encodeUDPBaseHeader_eq: "t \<le> UDPFrameCLOSE \<Longrightarrow> validateFlow f = None \<Longrightarrow> encodeUDPBaseHeader t f = Inr (base_header t f)"
  by (simp add: encodeUDPBaseHeader_def encodeUDPBaseWord_eq base_header_def)

lemma PutUint16_bytes: "[ucast (drop_bit 8 v), ucast v] = PutUint16 v"
proof -
  have "unat (ucast (drop_bit 8 v) :: byte) = unat v div 256"
    using unat_lt [of v] by (simp add: unsigned_ucast_eq unat_drop_bit_eq take_bit_eq_mod drop_bit_eq_div unat_div)
  moreover have "unat (ucast v :: byte) = unat v mod 256" by (simp add: unsigned_ucast_eq take_bit_eq_mod)
  moreover have "unat v div 256 < 256" using unat_lt [of v] by simp
  ultimately show ?thesis
    by (simp add: PutUint16_def nat_be_eval word_unat_eq_iff unat_of_nat take_bit_eq_mod)
qed

lemma Uint16_bytes: "push_bit 8 (ucast a) OR ucast b = Uint16 [a, b]"
proof -
  have d: "(push_bit 8 (ucast a) OR ucast b :: u16) = push_bit 8 (ucast a) + ucast b"
    by (rule disjunctive_add [symmetric]) (auto simp: bit_simps dest: bit_imp_le_length)
  have "unat (ucast a * 256 + ucast b :: u16) = unat a * 256 + unat b"
    using unat_byte_lt [of a] unat_byte_lt [of b]
    by (simp add: unat_word_ariths unsigned_ucast_eq take_bit_eq_mod)
  then show ?thesis unfolding d using unat_byte_lt [of a] unat_byte_lt [of b]
    by (simp add: push_bit_eq_mult Uint16_def be_nat_def word_unat_eq_iff unat_of_nat take_bit_eq_mod)
qed

lemma EncodeUDPData_nw3: "EncodeUDPData f p = Inr bs \<longleftrightarrow> EncodeData f p = Inr bs"
  using encodeUDPBaseHeader_eq [of UDPFrameDATA f]
  by (auto simp: EncodeUDPData_def EncodeData_Inr validateFlowID_nw3 [symmetric] validateUDPPayload_def udp2_consts udp_consts
      split: option.splits)

lemma EncodeUDPClose_nw3: "EncodeUDPClose f = Inr bs \<longleftrightarrow> EncodeClose f = Inr bs"
proof (cases "validateFlow f = None")
  case True
  then show ?thesis by (auto simp: EncodeUDPClose_def EncodeClose_Inr encodeUDPBaseHeader_eq udp2_consts udp_consts)
next
  case False
  then show ?thesis
    by (auto simp: EncodeUDPClose_def EncodeClose_Inr encodeUDPBaseHeader_def encodeUDPBaseWord_def validateFlowID_nw3 [symmetric]
        split: option.splits)
qed

lemma validateFragment_nw2:
  "validateFragment i c t p = None \<longleftrightarrow>
     validateFragmentMetadata \<lparr>uf_PacketID = q, uf_FragmentIndex = i, uf_FragmentCount = c, uf_TotalLen = t, uf_Payload = p\<rparr> = None \<and>
     length p \<noteq> 0 \<and> int (length p) + int (unat c) - 1 \<le> int (unat t)"
  by (auto simp: validateFragment_def validateFragmentMetadata_def)

lemma EncodeUDPFragmentHeader_eq:
  assumes "validateFlow f = None" "pid \<noteq> 0" "validateFragment (word_of_nat i) (word_of_nat n) (word_of_nat (length p)) (fragment_piece p cap i) = None"
  shows "EncodeUDPFragmentHeader f \<lparr>uf_PacketID = pid, uf_FragmentIndex = word_of_nat i, uf_FragmentCount = word_of_nat n,
      uf_TotalLen = word_of_nat (length p), uf_Payload = fragment_piece p cap i\<rparr> =
    Inr (base_header frameFragment f @ PutUint32 pid @ [word_of_nat i, word_of_nat n] @ PutUint16 (word_of_nat (length p)))"
proof -
  have "encodeUDPBaseWord UDPFrameFRAGMENT f = Inr (push_bit 30 (ucast frameFragment) OR f)"
    using encodeUDPBaseWord_eq [of UDPFrameFRAGMENT f] assms(1) by (simp add: udp2_consts udp_consts)
  then show ?thesis
    using assms validateFlowID_nw3 [of f] validateFragment_nw2 [where q = pid and p = "fragment_piece p cap i"] PutUint16_bytes
    by (simp add: EncodeUDPFragmentHeader_def validatePacketID_def base_header_def)
qed

lemma yieldUDPFragments_loop_map:
  assumes "validateFlow f = None" "pid \<noteq> 0"
    "\<And>i. i \<in> set is \<Longrightarrow> validateFragment (word_of_nat i) (word_of_nat n) (word_of_nat (length p)) (fragment_piece p cap i) = None"
  shows "yieldUDPFragments_loop f pid p cap n (\<lambda>frame frames. (None, frames @ [frame])) is acc =
    (None, acc @ map (fragment_frame f pid p cap n) is)"
  using assms(3)
proof (induction "is" arbitrary: acc)
  case (Cons i rest)
  then show ?case using EncodeUDPFragmentHeader_eq [OF assms(1,2) Cons.prems [of i]]
    by (simp add: Let_def fragment_frame_def)
qed simp

lemma yieldUDPFragments_loop_all:
  assumes "validateFlow f = None" "pid \<noteq> 0" "0 < cap" "2 \<le> fragment_count (length p) cap"
    "fragment_count (length p) cap \<le> 255" "length p \<le> 65535"
  shows "yieldUDPFragments_loop f pid p cap (fragment_count (length p) cap) (\<lambda>frame frames. (None, frames @ [frame]))
      [0..<fragment_count (length p) cap] [] =
    (None, map (fragment_frame f pid p cap (fragment_count (length p) cap)) [0..<fragment_count (length p) cap])"
  using yieldUDPFragments_loop_map [OF assms(1,2), of "[0..<fragment_count (length p) cap]"] validateFragment_piece assms
  by fastforce

text \<open>The two encoders split every packet into the same frames.\<close>

lemma EncodeUDPDataFragments_nw3:
  "EncodeUDPDataFragments f pid p mx = Inr frames \<longleftrightarrow> EncodePacket f pid p mx = Inr frames"
proof (cases "validateFlow f = None \<and> length p \<le> 65535 \<and> 4 \<le> mx")
  case False
  then show ?thesis
    by (auto simp: EncodeUDPDataFragments_def EncodeUDPDataFragmentsYield_def EncodePacket_def validateUDPPayload_def
        validateFlowID_nw3 [symmetric] udp2_consts udp_consts split: option.splits)
next
  case ok: True
  then have v: "validateFlowID f = None" "validateUDPPayload p = None" "\<not> mx < 4"
    by (auto simp: validateFlowID_nw3 validateUDPPayload_def udp2_consts)
  show ?thesis
  proof (cases "int (length p) \<le> mx - 4")
    case True
    have e: "EncodeData f p = Inr (base_header frameData f @ p)" using ok by (simp add: EncodeData_Inr udp_consts)
    then have "EncodeUDPData f p = Inr (base_header frameData f @ p)" by (simp only: EncodeUDPData_nw3)
    with e True v ok show ?thesis
      by (auto simp: EncodeUDPDataFragments_def EncodeUDPDataFragmentsYield_def EncodePacket_def udp2_consts udp_consts)
  next
    case False
    let ?c = "nat (mx - 12)"
    let ?n = "fragment_count (length p) ?c"
    show ?thesis
    proof (cases "pid \<noteq> 0 \<and> 12 < mx \<and> 2 \<le> ?n \<and> ?n \<le> 255")
      case sp: True
      have "yieldUDPFragments_loop f pid p ?c ?n (\<lambda>frame frames. (None, frames @ [frame])) [0..<?n] [] =
          (None, map (fragment_frame f pid p ?c ?n) [0..<?n])"
        using sp ok by (intro yieldUDPFragments_loop_all) auto
      moreover have "EncodePacket_loop f pid p ?c ?n [0..<?n] [] = Inr (map (fragment_frame f pid p ?c ?n) [0..<?n])"
        using sp ok by (intro EncodePacket_loop_all) auto
      ultimately show ?thesis using sp v False ok
        by (auto simp: EncodeUDPDataFragments_def EncodeUDPDataFragmentsYield_def yieldUDPFragments_def EncodePacket_def
            validatePacketID_def udp2_consts udp_consts Let_def)
    next
      case bad: False
      then show ?thesis using v False ok
        by (auto simp: EncodeUDPDataFragments_def EncodeUDPDataFragmentsYield_def yieldUDPFragments_def EncodePacket_def
            validatePacketID_def udp2_consts udp_consts Let_def)
    qed
  qed
qed

text \<open>The two decoders accept the same frames.\<close>

definition datagram_frame :: "Datagram \<Rightarrow> UDPFrame" where
  "datagram_frame d =
     \<lparr>fr_Type = d_Type d, fr_FlowID = d_FlowID d, fr_Payload = (if d_Type d = frameFragment then [] else d_Payload d),
      fr_Fragment =
        (if d_Type d = frameFragment
         then \<lparr>uf_PacketID = d_PacketID d, uf_FragmentIndex = d_Index d, uf_FragmentCount = d_Count d,
               uf_TotalLen = d_Total d, uf_Payload = d_Payload d\<rparr>
         else no_fragment)\<rparr>"

lemma decode_base: "drop_bit 30 (base AND push_bit 30 0b11) = (drop_bit 30 base AND 0b11 :: u32)"
  by (rule bit_word_eqI) (auto simp: bit_simps)

lemma decodeUDPFragmentFrame_nw3:
  assumes "12 \<le> length buf"
  shows "decodeUDPFragmentFrame buf f = Inr fr \<longleftrightarrow>
    (let d = \<lparr>d_Type = frameFragment, d_FlowID = f, d_Payload = drop 12 buf, d_PacketID = Uint32 (take 4 (drop 4 buf)),
       d_Index = buf ! 8, d_Count = buf ! 9, d_Total = Uint16 (take 2 (drop 10 buf))\<rparr>
     in d_PacketID d \<noteq> 0 \<and> validateFragment (d_Index d) (d_Count d) (d_Total d) (d_Payload d) = None \<and> fr = datagram_frame d)"
proof -
  have "take 2 (drop 10 buf) = [buf ! 10, buf ! 11]"
    using assms by (auto simp: list_eq_iff_nth_eq less_2_cases_iff nth_Cons')
  then have t: "Uint16 (take 2 (drop 10 buf)) = push_bit 8 (ucast (buf ! 10)) OR ucast (buf ! 11)"
    by (simp only: Uint16_bytes)
  show ?thesis
    unfolding t
    using assms validateFragment_nw2 [where q = "Uint32 (take 4 (drop 4 buf))" and p = "drop 12 buf" and i = "buf ! 8" and c = "buf ! 9"
        and t = "push_bit 8 (ucast (buf ! 10)) OR ucast (buf ! 11)"]
    by (auto simp: decodeUDPFragmentFrame_def datagram_frame_def validatePacketID_def Let_def udp2_consts udp_consts
        split: option.splits if_splits)
qed

lemma DecodeUDPFrame_nw3:
  "DecodeUDPFrame buf = Inr fr \<longleftrightarrow> (\<exists>d. DecodeDatagram buf = Inr d \<and> fr = datagram_frame d)"
proof (cases "length buf < 4")
  case True
  then show ?thesis by (simp add: DecodeUDPFrame_def DecodeDatagram_def udp2_consts udp_consts)
next
  case False
  define f where "f = Uint32 (take 4 buf) AND MaxFlowID"
  have m: "Uint32 (take 4 buf) AND nw2_MaxFlowID = f" by (simp add: f_def nw2_MaxFlowID_def MaxFlowID_def)
  define t where "t = (ucast (drop_bit 30 (Uint32 (take 4 buf)) AND 0b11) :: byte)"
  have D: "DecodeUDPFrame buf = (case validateFlowID f of Some e \<Rightarrow> Inl ErrInvalidFrame | None \<Rightarrow>
      if t = UDPFrameDATA then
        (case validateUDPPayload (drop UDPHeaderLen buf) of
           Some e \<Rightarrow> Inl ErrInvalidFrame
         | None \<Rightarrow> Inr \<lparr>fr_Type = UDPFrameDATA, fr_FlowID = f, fr_Payload = drop UDPHeaderLen buf, fr_Fragment = no_fragment\<rparr>)
      else if t = UDPFrameFRAGMENT then decodeUDPFragmentFrame buf f
      else if t = UDPFrameCLOSE then
        (if length buf \<noteq> UDPHeaderLen then Inl ErrInvalidFrame
         else Inr \<lparr>fr_Type = UDPFrameCLOSE, fr_FlowID = f, fr_Payload = [], fr_Fragment = no_fragment\<rparr>)
      else Inl ErrInvalidFrame)"
    using False unfolding DecodeUDPFrame_def Let_def m decode_base t_def [symmetric] by (simp add: udp2_consts)
  show ?thesis
  proof (cases "validateFlow f")
    case (Some e)
    then have "validateFlowID f \<noteq> None" using validateFlowID_nw3 [of f] by simp
    then show ?thesis using False Some
      by (auto simp: D DecodeDatagram_def f_def [symmetric] udp_consts Let_def)
  next
    case None
    then have v: "validateFlowID f = None" using validateFlowID_nw3 [of f] by simp
    consider "t = 0" | "t = 1" | "t = 2" | "t \<noteq> 0" "t \<noteq> 1" "t \<noteq> 2" by blast
    then show ?thesis
    proof cases
      case 1
      then show ?thesis using False None v
        by (auto simp: D DecodeDatagram_def f_def [symmetric] t_def [symmetric] udp_consts udp2_consts Let_def
            validateUDPPayload_def datagram_frame_def)
    next
      case 2
      show ?thesis
      proof (cases "length buf < 12")
        case True
        then show ?thesis using False None v 2
          by (auto simp: D DecodeDatagram_def f_def [symmetric] t_def [symmetric] udp_consts udp2_consts Let_def
              decodeUDPFragmentFrame_def)
      next
        case l: False
        then have "DecodeUDPFrame buf = decodeUDPFragmentFrame buf f" using v 2 by (simp add: D udp2_consts)
        then show ?thesis using False None 2 l decodeUDPFragmentFrame_nw3 [of buf f fr]
          by (auto simp: DecodeDatagram_def f_def [symmetric] t_def [symmetric] udp_consts Let_def split: option.splits)
      qed
    next
      case 3
      have "length buf = 4 \<Longrightarrow> Uint32 buf AND MaxFlowID = f" by (simp add: f_def)
      then show ?thesis using False None v 3
        by (auto simp: D DecodeDatagram_def f_def [symmetric] t_def [symmetric] udp_consts udp2_consts Let_def datagram_frame_def)
    next
      case 4
      then show ?thesis using False None v
        by (auto simp: D DecodeDatagram_def f_def [symmetric] t_def [symmetric] udp_consts udp2_consts Let_def)
    qed
  qed
qed

end
