(* ===== verification/Multiset_Prelude.thy ===== *)
theory Multiset_Prelude
  imports Nowhere_Prelude "HOL-Library.Multiset"
begin

section \<open>Multisets of holders\<close>

text \<open>
  Lemmas on the multisets with which the budgets and the admission counters account for their
  holders. A holder that leaves is removed from the list of holders by its position.
\<close>

lemma mset_remove_nth: "i < length xs \<Longrightarrow> mset (take i xs @ drop (Suc i) xs) = mset xs - {#xs ! i#}"
  by (metis (no_types, lifting) add_mset_remove_trivial id_take_nth_drop mset.simps(2) mset_append union_mset_add_mset_right)

lemma sum_list_remove_nth: "i < length xs \<Longrightarrow> sum_list (take i xs @ drop (Suc i) xs) = sum_list xs - (xs ! i :: int)"
  using arg_cong [OF id_take_nth_drop [of i xs], of sum_list] by simp

lemma count_remove_le: "int (count H j) \<le> n \<Longrightarrow> int (count (H - {#k#}) j) \<le> n"
  by (auto split: if_splits)

lemma size_remove: "k \<in># H \<Longrightarrow> int (size (H - {#k#})) = int (size H) - 1"
  by (auto dest: multi_member_split)

end
