(* ===== verification/Nw2_Reassembly.thy ===== *)
theory Nw2_Reassembly
  imports Nw2_Datagram Multiset_Prelude
begin

section \<open>nw2 wire: the fragment reassembler and its byte budget\<close>

text \<open>
  \<^verbatim>\<open>nw2/wire/reassembly.go\<close>, and \<^verbatim>\<open>nw2/server/udp_reassembly.go\<close>, which runs it under a byte budget
  shared with other users. A reservation is a value of type \<open>'rv\<close> and the budget a state of type
  \<open>'b\<close>: what the wire package gets as \<^verbatim>\<open>ByteReservationFactory\<close> and \<^verbatim>\<open>Release\<close> are the arguments \<open>reserve\<close>
  (\<open>None\<close> for a nil factory) and \<open>release\<close>. As in nw3, a fragment that has not arrived is \<open>[]\<close>.
\<close>

subsection \<open>The reassembler\<close>

datatype ReassemblyDropReason =
    ReassemblyDropNone
  | ReassemblyDropMetadataConflict
  | ReassemblyDropDuplicateConflict
  | ReassemblyDropByteLimit
  | ReassemblyDropInvalidLength

record ReassemblyConfig =
  rc_MaxSlots :: int
  rc_MaxBytes :: int
  rc_TTL :: time

definition DefaultReassemblyConfig :: ReassemblyConfig where
  "DefaultReassemblyConfig = \<lparr>rc_MaxSlots = 64, rc_MaxBytes = 1024 * 1024, rc_TTL = 10 * 10 ^ 9\<rparr>"

record 'rv ReassemblyOutcome =
  oc_Done :: bool
  oc_Payload :: "byte list"
  oc_Reservation :: "'rv option"
  oc_EvictedPartial :: bool
  oc_DropReason :: ReassemblyDropReason

definition no_outcome :: "'rv ReassemblyOutcome" where
  "no_outcome = \<lparr>oc_Done = False, oc_Payload = [], oc_Reservation = None, oc_EvictedPartial = False,
     oc_DropReason = ReassemblyDropNone\<rparr>"

definition drop_outcome :: "bool \<Rightarrow> ReassemblyDropReason \<Rightarrow> 'rv ReassemblyOutcome" where
  "drop_outcome evicted reason = no_outcome\<lparr>oc_EvictedPartial := evicted, oc_DropReason := reason\<rparr>"

record 'rv reassemblySlot =
  sl_createdAt :: time
  sl_fragmentCnt :: byte
  sl_totalLen :: u16
  sl_fragments :: "byte list list"
  sl_received :: nat
  sl_retained :: nat
  sl_reservation :: "'rv option"

record 'rv DatagramReassembler =
  dr_cfg :: ReassemblyConfig
  dr_slots :: "(reKey \<times> 'rv reassemblySlot) list"
  dr_bytes :: int

definition NewDatagramReassembler :: "ReassemblyConfig \<Rightarrow> error + 'rv DatagramReassembler" where
  "NewDatagramReassembler cfg =
     (if rc_MaxSlots cfg \<le> 0 then Inl (New ''nowhere: reassembly MaxSlots must be positive'')
      else if rc_MaxBytes cfg \<le> 0 then Inl (New ''nowhere: reassembly MaxBytes must be positive'')
      else if rc_TTL cfg \<le> 0 then Inl (New ''nowhere: reassembly TTL must be positive'')
      else Inr \<lparr>dr_cfg = cfg, dr_slots = [], dr_bytes = 0\<rparr>)"

definition SlotCount :: "'rv DatagramReassembler \<Rightarrow> int" where
  "SlotCount r = int (length (dr_slots r))"

definition ReservedBytes :: "'rv DatagramReassembler \<Rightarrow> int" where
  "ReservedBytes r = dr_bytes r"

definition releaseReservation :: "('rv \<Rightarrow> 'b \<Rightarrow> 'b) \<Rightarrow> 'rv option \<Rightarrow> 'b \<Rightarrow> 'b" where
  "releaseReservation release reservation b = (case reservation of None \<Rightarrow> b | Some v \<Rightarrow> release v b)"

text \<open>The loop over the map that \<^verbatim>\<open>RemoveFlow\<close>, \<^verbatim>\<open>Expire\<close> and \<^verbatim>\<open>expireLocked\<close> have in common.\<close>

definition drop_where ::
  "(reKey \<times> 'rv reassemblySlot \<Rightarrow> bool) \<Rightarrow> ('rv \<Rightarrow> 'b \<Rightarrow> 'b) \<Rightarrow> 'rv DatagramReassembler \<Rightarrow> 'b \<Rightarrow>
   bool \<times> 'rv DatagramReassembler \<times> 'b" where
  "drop_where P release r b =
     (case foldl (\<lambda>(any, r, b) p.
              if P p
              then (True, r\<lparr>dr_bytes := dr_bytes r - int (unat (sl_totalLen (snd p))), dr_slots := AList.delete (fst p) (dr_slots r)\<rparr>,
                    releaseReservation release (sl_reservation (snd p)) b)
              else (any, r, b)) (False, r, b) (dr_slots r) of
        (any, r, b) \<Rightarrow> (any, if dr_bytes r < 0 then r\<lparr>dr_bytes := 0\<rparr> else r, b))"

definition nw2_RemoveFlow :: "u32 \<Rightarrow> ('rv \<Rightarrow> 'b \<Rightarrow> 'b) \<Rightarrow> 'rv DatagramReassembler \<Rightarrow> 'b \<Rightarrow> 'rv DatagramReassembler \<times> 'b" where
  "nw2_RemoveFlow flowID release r b = snd (drop_where (\<lambda>p. fst (fst p) = flowID) release r b)"

definition Clear :: "('rv \<Rightarrow> 'b \<Rightarrow> 'b) \<Rightarrow> 'rv DatagramReassembler \<Rightarrow> 'b \<Rightarrow> 'rv DatagramReassembler \<times> 'b" where
  "Clear release r b =
     (r\<lparr>dr_slots := [], dr_bytes := 0\<rparr>,
      foldl (\<lambda>b p. releaseReservation release (sl_reservation (snd p)) b) b (dr_slots r))"

definition Expire :: "time \<Rightarrow> ('rv \<Rightarrow> 'b \<Rightarrow> 'b) \<Rightarrow> 'rv DatagramReassembler \<Rightarrow> 'b \<Rightarrow> bool \<times> 'rv DatagramReassembler \<times> 'b" where
  "Expire now release r b = drop_where (\<lambda>p. now - sl_createdAt (snd p) > rc_TTL (dr_cfg r)) release r b"

definition expireLocked :: "time \<Rightarrow> ('rv \<Rightarrow> 'b \<Rightarrow> 'b) \<Rightarrow> 'rv DatagramReassembler \<Rightarrow> 'b \<Rightarrow> bool \<times> 'rv DatagramReassembler \<times> 'b" where
  "expireLocked now release r b = drop_where (\<lambda>p. now - sl_createdAt (snd p) > rc_TTL (dr_cfg r)) release r b"

definition takeSlotLocked :: "reKey \<Rightarrow> 'rv DatagramReassembler \<Rightarrow> 'rv option \<times> 'rv DatagramReassembler" where
  "takeSlotLocked key r =
     (case map_of (dr_slots r) key of
        None \<Rightarrow> (None, r)
      | Some slot \<Rightarrow>
          (let bytes = dr_bytes r - int (unat (sl_totalLen slot));
               bytes = (if bytes < 0 then 0 else bytes)
           in (sl_reservation slot, r\<lparr>dr_bytes := bytes, dr_slots := AList.delete key (dr_slots r)\<rparr>)))"

definition removeSlotLocked :: "reKey \<Rightarrow> ('rv \<Rightarrow> 'b \<Rightarrow> 'b) \<Rightarrow> 'rv DatagramReassembler \<Rightarrow> 'b \<Rightarrow> 'rv DatagramReassembler \<times> 'b" where
  "removeSlotLocked key release r b =
     (case map_of (dr_slots r) key of
        None \<Rightarrow> (r, b)
      | Some slot \<Rightarrow>
          (let bytes = dr_bytes r - int (unat (sl_totalLen slot));
               bytes = (if bytes < 0 then 0 else bytes)
           in (r\<lparr>dr_bytes := bytes, dr_slots := AList.delete key (dr_slots r)\<rparr>,
               releaseReservation release (sl_reservation slot) b)))"

text \<open>The part of \<^verbatim>\<open>pushOwned\<close> for a key that has a slot; \<open>evicted\<close> is what the expiry reported.\<close>

definition pushOwned_existing ::
  "bool \<Rightarrow> reKey \<Rightarrow> 'rv reassemblySlot \<Rightarrow> UDPFragment \<Rightarrow> ('rv \<Rightarrow> 'b \<Rightarrow> 'b) \<Rightarrow> 'rv DatagramReassembler \<Rightarrow> 'b \<Rightarrow>
   'rv ReassemblyOutcome go \<times> 'rv DatagramReassembler \<times> 'b" where
  "pushOwned_existing evicted key slot fragment release r b =
     (if sl_fragmentCnt slot \<noteq> uf_FragmentCount fragment \<or> sl_totalLen slot \<noteq> uf_TotalLen fragment
      then (Ret (drop_outcome evicted ReassemblyDropMetadataConflict), removeSlotLocked key release r b)
      else
        (let idx = unat (uf_FragmentIndex fragment)
         in if \<not> idx < length (sl_fragments slot) then (Panic, r, b)
            else if sl_fragments slot ! idx \<noteq> [] then
              (if sl_fragments slot ! idx \<noteq> uf_Payload fragment
               then (Ret (drop_outcome evicted ReassemblyDropDuplicateConflict), removeSlotLocked key release r b)
               else (Ret (no_outcome\<lparr>oc_EvictedPartial := evicted\<rparr>), r, b))
            else
              (let retained = sl_retained slot + length (uf_Payload fragment)
               in if retained > unat (sl_totalLen slot)
                  then (Ret (drop_outcome evicted ReassemblyDropInvalidLength), removeSlotLocked key release r b)
                  else
                    (let slot = slot\<lparr>sl_fragments := (sl_fragments slot)[idx := uf_Payload fragment],
                                     sl_received := sl_received slot + 1, sl_retained := retained\<rparr>;
                         r = r\<lparr>dr_slots := AList.update key slot (dr_slots r)\<rparr>
                     in if sl_received slot < unat (sl_fragmentCnt slot)
                        then (Ret (no_outcome\<lparr>oc_EvictedPartial := evicted\<rparr>), r, b)
                        else if sl_retained slot \<noteq> unat (sl_totalLen slot)
                        then (Ret (drop_outcome evicted ReassemblyDropInvalidLength), removeSlotLocked key release r b)
                        else if list_ex (\<lambda>frag. frag = []) (sl_fragments slot)
                        then (Ret (drop_outcome evicted ReassemblyDropInvalidLength), removeSlotLocked key release r b)
                        else
                          (case takeSlotLocked key r of
                             (reservation, r) \<Rightarrow>
                               (Ret (no_outcome\<lparr>oc_EvictedPartial := evicted, oc_Done := True,
                                                oc_Payload := concat (sl_fragments slot), oc_Reservation := reservation\<rparr>),
                                r, b))))))"

fun oldest_partial :: "(reKey \<times> time) option \<Rightarrow> (reKey \<times> 'rv reassemblySlot) list \<Rightarrow> (reKey \<times> time) option" where
  "oldest_partial best [] = best"
| "oldest_partial best ((k, s) # rest) =
     oldest_partial
       (case best of
          None \<Rightarrow> Some (k, sl_createdAt s)
        | Some (oldestKey, oldestTime) \<Rightarrow> if sl_createdAt s < oldestTime then Some (k, sl_createdAt s) else best) rest"

definition evict_partial :: "('rv \<Rightarrow> 'b \<Rightarrow> 'b) \<Rightarrow> 'rv DatagramReassembler \<Rightarrow> 'b \<Rightarrow> bool \<times> 'rv DatagramReassembler \<times> 'b" where
  "evict_partial release r b =
     (case oldest_partial None (dr_slots r) of
        None \<Rightarrow> (False, r, b)
      | Some (oldestKey, oldestTime) \<Rightarrow> (True, removeSlotLocked oldestKey release r b))"

definition open_slot :: "UDPFragment \<Rightarrow> time \<Rightarrow> 'rv option \<Rightarrow> 'rv reassemblySlot" where
  "open_slot fragment now reservation =
     \<lparr>sl_createdAt = now, sl_fragmentCnt = uf_FragmentCount fragment, sl_totalLen = uf_TotalLen fragment,
      sl_fragments = (replicate (unat (uf_FragmentCount fragment)) [])[unat (uf_FragmentIndex fragment) := uf_Payload fragment],
      sl_received = 1, sl_retained = length (uf_Payload fragment), sl_reservation = reservation\<rparr>"

definition pushOwned_new ::
  "bool \<Rightarrow> reKey \<Rightarrow> UDPFragment \<Rightarrow> time \<Rightarrow> (nat \<Rightarrow> 'b \<Rightarrow> ('rv option \<times> bool) \<times> 'b) option \<Rightarrow> ('rv \<Rightarrow> 'b \<Rightarrow> 'b) \<Rightarrow>
   'rv DatagramReassembler \<Rightarrow> 'b \<Rightarrow> 'rv ReassemblyOutcome go \<times> 'rv DatagramReassembler \<times> 'b" where
  "pushOwned_new evicted key fragment now reserve release r b =
     (if rc_MaxSlots (dr_cfg r) = 0 \<or> int (unat (uf_TotalLen fragment)) > rc_MaxBytes (dr_cfg r)
      then (Ret (drop_outcome False ReassemblyDropByteLimit), r, b)
      else
        (case (if int (length (dr_slots r)) \<ge> rc_MaxSlots (dr_cfg r) then evict_partial release r b else (False, r, b)) of
           (one, r, b) \<Rightarrow>
             (let evicted = (evicted \<or> one)
              in if dr_bytes r + int (unat (uf_TotalLen fragment)) > rc_MaxBytes (dr_cfg r)
                 then (Ret (drop_outcome evicted ReassemblyDropByteLimit), r, b)
                 else
                   (case (case reserve of None \<Rightarrow> ((None, True), b) | Some f \<Rightarrow> f (unat (uf_TotalLen fragment)) b) of
                      ((reservation, ok), b) \<Rightarrow>
                        if \<not> ok then (Ret (drop_outcome evicted ReassemblyDropByteLimit), r, b)
                        else if \<not> unat (uf_FragmentIndex fragment) < unat (uf_FragmentCount fragment) then (Panic, r, b)
                        else
                          (Ret (no_outcome\<lparr>oc_EvictedPartial := evicted\<rparr>),
                           r\<lparr>dr_slots := AList.update key (open_slot fragment now reservation) (dr_slots r),
                             dr_bytes := dr_bytes r + int (unat (uf_TotalLen fragment))\<rparr>, b)))))"

definition pushOwned ::
  "u32 \<Rightarrow> UDPFragment \<Rightarrow> time \<Rightarrow> (nat \<Rightarrow> 'b \<Rightarrow> ('rv option \<times> bool) \<times> 'b) option \<Rightarrow> ('rv \<Rightarrow> 'b \<Rightarrow> 'b) \<Rightarrow>
   'rv DatagramReassembler \<Rightarrow> 'b \<Rightarrow> 'rv ReassemblyOutcome go \<times> 'rv DatagramReassembler \<times> 'b" where
  "pushOwned flowID fragment now reserve release r b =
     (if flowID = 0 \<or> uf_PacketID fragment = 0 then (Ret (drop_outcome False ReassemblyDropInvalidLength), r, b)
      else if validateFragmentMetadata fragment \<noteq> None then (Ret (drop_outcome False ReassemblyDropInvalidLength), r, b)
      else if length (uf_Payload fragment) = 0 \<or>
              int (length (uf_Payload fragment)) + int (unat (uf_FragmentCount fragment)) - 1 > int (unat (uf_TotalLen fragment))
      then (Ret (drop_outcome False ReassemblyDropInvalidLength), r, b)
      else
        (let key = (flowID, uf_PacketID fragment)
         in case expireLocked now release r b of
              (evicted, r, b) \<Rightarrow>
                (case map_of (dr_slots r) key of
                   Some slot \<Rightarrow> pushOwned_existing evicted key slot fragment release r b
                 | None \<Rightarrow> pushOwned_new evicted key fragment now reserve release r b)))"

definition PushWithReservation ::
  "u32 \<Rightarrow> UDPFragment \<Rightarrow> time \<Rightarrow> (nat \<Rightarrow> 'b \<Rightarrow> ('rv option \<times> bool) \<times> 'b) \<Rightarrow> ('rv \<Rightarrow> 'b \<Rightarrow> 'b) \<Rightarrow>
   'rv DatagramReassembler \<Rightarrow> 'b \<Rightarrow> 'rv ReassemblyOutcome go \<times> 'rv DatagramReassembler \<times> 'b" where
  "PushWithReservation flowID fragment now reserve release r b = pushOwned flowID fragment now (Some reserve) release r b"

definition nw2_Push ::
  "u32 \<Rightarrow> UDPFragment \<Rightarrow> time \<Rightarrow> ('rv \<Rightarrow> 'b \<Rightarrow> 'b) \<Rightarrow> 'rv DatagramReassembler \<Rightarrow> 'b \<Rightarrow>
   'rv ReassemblyOutcome go \<times> 'rv DatagramReassembler \<times> 'b" where
  "nw2_Push flowID fragment now release r b = pushOwned flowID fragment now None release r b"

end
