(* ===== verification/Nw2_Reassembly_Sim.thy ===== *)
theory Nw2_Reassembly_Sim
  imports Nw2_Reassembly
begin

section \<open>The nw2 reassembler simulates the nw3 one\<close>

text \<open>
  Forgetting reservations, a state of the nw2 reassembler is a state of the nw3 one, and every
  operation does on it what nw3's does: its invariant, and the delivery of packets, carry over.
\<close>

definition abs_slot :: "'rv reassemblySlot \<Rightarrow> reSlot" where
  "abs_slot s = \<lparr>rs_created = sl_createdAt s, rs_count = unat (sl_fragmentCnt s), rs_total = unat (sl_totalLen s),
     rs_parts = sl_fragments s, rs_got = sl_received s, rs_bytes = sl_retained s\<rparr>"

definition abs_slots :: "(reKey \<times> 'rv reassemblySlot) list \<Rightarrow> (reKey \<times> reSlot) list" where
  "abs_slots = map (apsnd abs_slot)"

definition abs_re :: "'rv DatagramReassembler \<Rightarrow> Reassembler" where
  "abs_re r = \<lparr>re_maxSlots = rc_MaxSlots (dr_cfg r), re_maxBytes = rc_MaxBytes (dr_cfg r), re_ttl = rc_TTL (dr_cfg r),
     re_slots = abs_slots (dr_slots r), re_reserved = dr_bytes r\<rparr>"

lemma abs_slot_simps [simp]:
  "rs_created (abs_slot s) = sl_createdAt s" "rs_count (abs_slot s) = unat (sl_fragmentCnt s)"
  "rs_total (abs_slot s) = unat (sl_totalLen s)" "rs_parts (abs_slot s) = sl_fragments s"
  "rs_got (abs_slot s) = sl_received s" "rs_bytes (abs_slot s) = sl_retained s"
  by (simp_all add: abs_slot_def)

lemma abs_re_simps [simp]:
  "re_maxSlots (abs_re r) = rc_MaxSlots (dr_cfg r)" "re_maxBytes (abs_re r) = rc_MaxBytes (dr_cfg r)"
  "re_ttl (abs_re r) = rc_TTL (dr_cfg r)" "re_slots (abs_re r) = abs_slots (dr_slots r)" "re_reserved (abs_re r) = dr_bytes r"
  by (simp_all add: abs_re_def)

lemma abs_slots_simps [simp]:
  "map_of (abs_slots xs) k = map_option abs_slot (map_of xs k)"
  "AList.delete k (abs_slots xs) = abs_slots (AList.delete k xs)"
  "AList.update k (abs_slot s) (abs_slots xs) = abs_slots (AList.update k s xs)"
  "length (abs_slots xs) = length xs" "map fst (abs_slots xs) = map fst xs" "abs_slots [] = []"
  "reserved_sum (abs_slots xs) = al_sum (\<lambda>s. int (unat (sl_totalLen s))) xs"
  by (induction xs) (auto simp: abs_slots_def)

lemma abs_slots_filter: "(\<And>p. p \<in> set xs \<Longrightarrow> Q (apsnd abs_slot p) = P p) \<Longrightarrow> filter Q (abs_slots xs) = abs_slots (filter P xs)"
  by (induction xs) (auto simp: abs_slots_def)

abbreviation dr_inv :: "'rv DatagramReassembler \<Rightarrow> bool" where
  "dr_inv r \<equiv> re_inv (abs_re r)"

abbreviation total_sum :: "(reKey \<times> 'rv reassemblySlot) list \<Rightarrow> int" where
  "total_sum \<equiv> al_sum (\<lambda>s. int (unat (sl_totalLen s)))"

lemma total_sum_nonneg: "0 \<le> total_sum xs"
  by (rule al_sum_nonneg) simp

lemma dr_invD:
  assumes "dr_inv r"
  shows "distinct (map fst (dr_slots r))" "dr_bytes r = total_sum (dr_slots r)" "dr_bytes r \<le> rc_MaxBytes (dr_cfg r)"
    "int (length (dr_slots r)) \<le> rc_MaxSlots (dr_cfg r)" "0 < rc_MaxSlots (dr_cfg r)"
  using assms by (auto simp: re_inv_def)

subsection \<open>Removals\<close>

lemma re_drop_inv:
  "re_inv r \<Longrightarrow> re_drop r key = r\<lparr>re_slots := AList.delete key (re_slots r), re_reserved := reserved_sum (AList.delete key (re_slots r))\<rparr>"
proof (cases "map_of (re_slots r) key")
  case None
  assume "re_inv r"
  moreover have "AList.delete key (re_slots r) = re_slots r"
    using None by (rule delete_absent)
  ultimately show ?thesis using None by (simp add: re_drop_def re_inv_def)
next
  case (Some s)
  assume i: "re_inv r"
  have "reserved_sum (AList.delete key (re_slots r)) = re_reserved r - int (rs_total s)"
    using i Some by (simp add: re_inv_def al_sum_delete)
  moreover have "0 \<le> reserved_sum (AList.delete key (re_slots r))" by (rule reserved_sum_nonneg)
  ultimately show ?thesis using Some by (simp add: re_drop_def Let_def)
qed

lemma expire_fold_filter:
  assumes "re_inv r"
  shows "foldl (expire_step now) r xs =
    (let ys = filter (\<lambda>p. fst p \<notin> fst ` set (filter (\<lambda>q. now - rs_created (snd q) > re_ttl r) xs)) (re_slots r)
     in r\<lparr>re_slots := ys, re_reserved := reserved_sum ys\<rparr>)"
proof (induction xs rule: rev_induct)
  case Nil
  then show ?case using assms by (simp add: re_inv_def)
next
  case (snoc x xs)
  let ?E = "\<lambda>q. now - rs_created (snd q) > re_ttl r"
  let ?r = "foldl (expire_step now) r xs"
  have sh: "shrinks r ?r"
  proof (induction xs rule: rev_induct)
    case (snoc x xs)
    then show ?case by (cases x) (auto intro: shrinks_trans)
  qed simp
  then have i: "re_inv ?r" "re_ttl ?r = re_ttl r" using assms by (auto simp: shrinks_def)
  obtain k s where x: "x = (k, s)" by (cases x)
  have d: "AList.delete k (re_slots ?r) = filter (\<lambda>p. fst p \<notin> fst ` set (filter ?E (xs @ [x]))) (re_slots r)" if "?E x"
    using snoc.IH that x by (auto simp: Let_def AList.delete_eq case_prod_unfold intro!: filter_cong)
  show ?case
  proof (cases "?E x")
    case True
    then have "foldl (expire_step now) r (xs @ [x]) = re_drop ?r k" using i x by simp
    also have "\<dots> = ?r\<lparr>re_slots := AList.delete k (re_slots ?r), re_reserved := reserved_sum (AList.delete k (re_slots ?r))\<rparr>"
      by (rule re_drop_inv [OF i(1)])
    finally show ?thesis using snoc.IH unfolding d [OF True] by (simp add: Let_def)
  next
    case False
    then show ?thesis using snoc.IH i x by (simp add: Let_def)
  qed
qed

lemma filter_own_keys:
  assumes "distinct (map fst xs)"
  shows "filter (\<lambda>p. fst p \<notin> fst ` set (filter P xs)) xs = filter (\<lambda>p. \<not> P p) xs"
proof (rule filter_cong)
  fix p assume p: "p \<in> set xs"
  show "(fst p \<notin> fst ` set (filter P xs)) = (\<not> P p)"
  proof
    assume "fst p \<notin> fst ` set (filter P xs)"
    then show "\<not> P p" using p by auto
  next
    assume np: "\<not> P p"
    show "fst p \<notin> fst ` set (filter P xs)"
    proof
      assume "fst p \<in> fst ` set (filter P xs)"
      then obtain q where q: "q \<in> set xs" "P q" "fst q = fst p" by auto
      have "inj_on fst (set xs)" using assms by (simp add: distinct_map)
      then have "q = p" using q p by (auto dest: inj_onD)
      with q np show False by simp
    qed
  qed
qed simp

lemma re_expire_filter:
  assumes "re_inv r"
  shows "re_expire r now =
    (let ys = filter (\<lambda>p. \<not> now - rs_created (snd p) > re_ttl r) (re_slots r) in r\<lparr>re_slots := ys, re_reserved := reserved_sum ys\<rparr>)"
proof -
  have d: "distinct (map fst (re_slots r))" using assms by (simp add: re_inv_def)
  show ?thesis unfolding re_expire_def expire_fold_filter [OF assms] filter_own_keys [OF d] ..
qed

text \<open>What the loop of nw2 computes, and which reservations it releases.\<close>

lemma drop_where_fold:
  "foldl (\<lambda>(any, r, b) p.
       if P p
       then (True, r\<lparr>dr_bytes := dr_bytes r - int (unat (sl_totalLen (snd p))), dr_slots := AList.delete (fst p) (dr_slots r)\<rparr>,
             releaseReservation release (sl_reservation (snd p)) b)
       else (any, r, b)) (any, r, b) xs =
   (any \<or> list_ex P xs,
    r\<lparr>dr_bytes := dr_bytes r - total_sum (filter P xs),
      dr_slots := filter (\<lambda>p. fst p \<notin> fst ` set (filter P xs)) (dr_slots r)\<rparr>,
    foldl (\<lambda>b p. releaseReservation release (sl_reservation (snd p)) b) b (filter P xs))"
proof (induction xs arbitrary: any r b)
  case (Cons x xs)
  have "filter (\<lambda>p. fst p \<notin> fst ` set (filter P xs)) (AList.delete (fst x) ys) =
      filter (\<lambda>p. fst p \<notin> insert (fst x) (fst ` set (filter P xs))) ys" for ys :: "(reKey \<times> 'a reassemblySlot) list"
    by (auto simp: AList.delete_eq case_prod_unfold intro!: filter_cong)
  then show ?case using Cons.IH by (simp add: algebra_simps)
qed simp

lemma total_sum_filter: "total_sum (filter P xs) + total_sum (filter (\<lambda>p. \<not> P p) xs) = total_sum xs"
  by (induction xs) auto

lemma drop_where_eq:
  assumes "dr_inv r"
  shows "drop_where P release r b =
    (list_ex P (dr_slots r),
     r\<lparr>dr_bytes := total_sum (filter (\<lambda>p. \<not> P p) (dr_slots r)), dr_slots := filter (\<lambda>p. \<not> P p) (dr_slots r)\<rparr>,
     foldl (\<lambda>b p. releaseReservation release (sl_reservation (snd p)) b) b (filter P (dr_slots r)))"
proof -
  have "dr_bytes r - total_sum (filter P (dr_slots r)) = total_sum (filter (\<lambda>p. \<not> P p) (dr_slots r))"
    using total_sum_filter [of P "dr_slots r"] dr_invD(2) [OF assms] by linarith
  then show ?thesis
    using total_sum_nonneg [of "filter (\<lambda>p. \<not> P p) (dr_slots r)"] filter_own_keys [OF dr_invD(1) [OF assms], of P]
    by (simp add: drop_where_def drop_where_fold)
qed

lemma abs_expireLocked:
  assumes "dr_inv r" "expireLocked now release r b = (e, r', b')"
  shows "abs_re r' = re_expire (abs_re r) now" "dr_cfg r' = dr_cfg r"
proof -
  have r': "r' = r\<lparr>dr_bytes := total_sum (filter (\<lambda>p. \<not> now - sl_createdAt (snd p) > rc_TTL (dr_cfg r)) (dr_slots r)),
      dr_slots := filter (\<lambda>p. \<not> now - sl_createdAt (snd p) > rc_TTL (dr_cfg r)) (dr_slots r)\<rparr>"
    using assms(2) by (simp add: expireLocked_def drop_where_eq [OF assms(1)])
  show "dr_cfg r' = dr_cfg r" by (simp add: r')
  have f: "filter (\<lambda>p. \<not> now - rs_created (snd p) > rc_TTL (dr_cfg r)) (abs_slots (dr_slots r)) =
      abs_slots (filter (\<lambda>p. \<not> now - sl_createdAt (snd p) > rc_TTL (dr_cfg r)) (dr_slots r))"
    by (rule abs_slots_filter) simp
  show "abs_re r' = re_expire (abs_re r) now"
    unfolding re_expire_filter [OF assms(1)] abs_re_simps f Let_def by (simp add: r' abs_re_def)
qed

lemma abs_removeSlotLocked: "abs_re (fst (removeSlotLocked key release r b)) = re_drop (abs_re r) key"
  by (auto simp: removeSlotLocked_def re_drop_def abs_re_def Let_def split: option.splits)

lemma abs_takeSlotLocked: "abs_re (snd (takeSlotLocked key r)) = re_drop (abs_re r) key"
  by (auto simp: takeSlotLocked_def re_drop_def abs_re_def Let_def split: option.splits)

lemma oldest_partial_abs: "oldest_partial best xs = oldest_slot best (abs_slots xs)"
  by (induction best xs rule: oldest_partial.induct) (auto simp: abs_slots_def split: option.splits)

lemma abs_evict_partial: "abs_re (fst (snd (evict_partial release r b))) = re_evictOldest (abs_re r)"
  by (auto simp: evict_partial_def re_evictOldest_def oldest_partial_abs abs_removeSlotLocked split: option.splits)

subsection \<open>Pushing a fragment\<close>

definition frag_datagram :: "u32 \<Rightarrow> UDPFragment \<Rightarrow> Datagram" where
  "frag_datagram f fragment =
     \<lparr>d_Type = frameFragment, d_FlowID = f, d_Payload = uf_Payload fragment, d_PacketID = uf_PacketID fragment,
      d_Index = uf_FragmentIndex fragment, d_Count = uf_FragmentCount fragment, d_Total = uf_TotalLen fragment\<rparr>"

lemma frag_datagram_simps [simp]:
  "d_Type (frag_datagram f frag) = frameFragment" "d_FlowID (frag_datagram f frag) = f"
  "d_PacketID (frag_datagram f frag) = uf_PacketID frag"
  by (simp_all add: frag_datagram_def)

text \<open>The outcome of nw2 says what the result of nw3 says.\<close>

fun same_outcome :: "'rv ReassemblyOutcome go \<Rightarrow> (error + byte list option) go \<Rightarrow> bool" where
  "same_outcome (Ret oc) (Ret (Inr (Some p))) = (oc_Done oc \<and> oc_Payload oc = p \<and> oc_DropReason oc = ReassemblyDropNone)"
| "same_outcome (Ret oc) (Ret (Inr None)) = (\<not> oc_Done oc \<and> oc_Reservation oc = None \<and> oc_DropReason oc = ReassemblyDropNone)"
| "same_outcome (Ret oc) (Ret (Inl e)) = (\<not> oc_Done oc \<and> oc_Reservation oc = None \<and> oc_DropReason oc \<noteq> ReassemblyDropNone)"
| "same_outcome oc res = False"

lemma outcome_simps [simp]:
  "oc_Done (drop_outcome e x) = False" "oc_DropReason (drop_outcome e x) = x" "oc_Reservation (drop_outcome e x) = None"
  "oc_Done no_outcome = False" "oc_DropReason no_outcome = ReassemblyDropNone" "oc_Reservation no_outcome = None"
  by (simp_all add: drop_outcome_def no_outcome_def)

lemma all_present:
  assumes "slot_inv s" "i < length (rs_parts s)" "rs_parts s ! i = []" "p \<noteq> []" "\<not> rs_got s + 1 < rs_count s"
  shows "\<not> list_ex (\<lambda>q. q = []) ((rs_parts s)[i := p])"
proof -
  let ?ps = "(rs_parts s)[i := p]"
  have "parts_present ?ps = length ?ps"
    using assms by (simp add: parts_present_update slot_inv_def)
  then have "\<not> length (filter (\<lambda>p. p \<noteq> []) ?ps) < length ?ps" by (simp add: parts_present_def)
  then show ?thesis using length_filter_less [of _ ?ps "\<lambda>p. p \<noteq> []"] by (auto simp: list_ex_iff)
qed

lemma pushOwned_existing_sim:
  assumes "dr_inv r" "map_of (dr_slots r) key = Some slot" "fragment_ok (frag_datagram f frag)"
    "pushOwned_existing ev key slot frag release r b = (oc, r', b')"
  shows "case Push_existing (abs_re r) key (abs_slot slot) (frag_datagram f frag) of
    (r3, res) \<Rightarrow> abs_re r' = r3 \<and> same_outcome oc res"
proof -
  have m: "map_of (re_slots (abs_re r)) key = Some (abs_slot slot)" using assms(2) by simp
  have si: "slot_inv (abs_slot slot)" by (rule slot_inv_of [OF assms(1) m])
  note fb = fragment_ok_bounds [OF assms(3), unfolded frag_datagram_def, simplified]
  let ?i = "unat (uf_FragmentIndex frag)"
  have rm: "abs_re r1 = re_drop (abs_re r0) key" if "(r1, b1) = removeSlotLocked key release r0 b0" for r0 r1 b0 b1
    using abs_removeSlotLocked [of key release r0 b0] that [symmetric] by simp
  note rm = rm rm [OF sym]
  show ?thesis
  proof (cases "sl_fragmentCnt slot \<noteq> uf_FragmentCount frag \<or> sl_totalLen slot \<noteq> uf_TotalLen frag")
    case True
    then have "pushOwned_existing ev key slot frag release r b =
        (Ret (drop_outcome ev ReassemblyDropMetadataConflict), removeSlotLocked key release r b)"
      by (auto simp: pushOwned_existing_def)
    moreover have "Push_existing (abs_re r) key (abs_slot slot) (frag_datagram f frag) =
        (re_drop (abs_re r) key, Ret (Inl (New ''nw3: fragment metadata conflict'')))"
      using True by (auto simp: Push_existing_def frag_datagram_def word_unat_eq_iff)
    ultimately show ?thesis using assms(4) by (auto dest: rm)
  next
    case False
    then have ne: "sl_fragmentCnt slot = uf_FragmentCount frag" "sl_totalLen slot = uf_TotalLen frag" by auto
    have il: "?i < length (sl_fragments slot)" using si fb(1) ne by (simp add: slot_inv_def)
    consider (dup) "sl_fragments slot ! ?i \<noteq> []" | (over) "sl_fragments slot ! ?i = []" "sl_retained slot + length (uf_Payload frag) > unat (sl_totalLen slot)"
      | (fits) "sl_fragments slot ! ?i = []" "\<not> sl_retained slot + length (uf_Payload frag) > unat (sl_totalLen slot)" by blast
    then show ?thesis
    proof cases
      case dup
      then show ?thesis using assms(4) ne il
        by (auto simp: pushOwned_existing_def Push_existing_def frag_datagram_def Let_def dest: rm split: if_splits)
    next
      case over
      then show ?thesis using assms(4) ne il
        by (auto simp: pushOwned_existing_def Push_existing_def frag_datagram_def Let_def dest: rm split: if_splits)
    next
      case fits
      define slot' where "slot' = slot\<lparr>sl_fragments := (sl_fragments slot)[?i := uf_Payload frag],
          sl_received := sl_received slot + 1, sl_retained := sl_retained slot + length (uf_Payload frag)\<rparr>"
      define ru where "ru = r\<lparr>dr_slots := AList.update key slot' (dr_slots r)\<rparr>"
      have au: "abs_slot slot' = (abs_slot slot)\<lparr>rs_parts := (sl_fragments slot)[?i := uf_Payload frag],
          rs_got := sl_received slot + 1, rs_bytes := sl_retained slot + length (uf_Payload frag)\<rparr>"
        by (simp add: slot'_def abs_slot_def)
      have aru: "abs_re ru = (abs_re r)\<lparr>re_slots := AList.update key (abs_slot slot') (re_slots (abs_re r))\<rparr>"
        by (simp add: ru_def abs_re_def)
      have P3: "Push_existing (abs_re r) key (abs_slot slot) (frag_datagram f frag) =
          (if sl_received slot' < unat (sl_fragmentCnt slot') then (abs_re ru, Ret (Inr None))
           else if sl_retained slot' \<noteq> unat (sl_totalLen slot')
           then (re_drop (abs_re ru) key, Ret (Inl (New ''nw3: incomplete fragment length'')))
           else (re_drop (abs_re ru) key, Ret (Inr (Some (concat (sl_fragments slot'))))))"
        using fits ne il unfolding aru au
        by (simp add: Push_existing_def frag_datagram_def Let_def slot'_def)
      have P2: "pushOwned_existing ev key slot frag release r b =
          (if sl_received slot' < unat (sl_fragmentCnt slot') then (Ret (no_outcome\<lparr>oc_EvictedPartial := ev\<rparr>), ru, b)
           else if sl_retained slot' \<noteq> unat (sl_totalLen slot')
           then (Ret (drop_outcome ev ReassemblyDropInvalidLength), removeSlotLocked key release ru b)
           else if list_ex (\<lambda>frag. frag = []) (sl_fragments slot')
           then (Ret (drop_outcome ev ReassemblyDropInvalidLength), removeSlotLocked key release ru b)
           else (case takeSlotLocked key ru of (v, r) \<Rightarrow>
             (Ret (no_outcome\<lparr>oc_EvictedPartial := ev, oc_Done := True, oc_Payload := concat (sl_fragments slot'), oc_Reservation := v\<rparr>), r, b)))"
        using fits ne il by (simp add: pushOwned_existing_def Let_def slot'_def ru_def)
      have np: "\<not> list_ex (\<lambda>frag. frag = []) (sl_fragments slot')" if "\<not> sl_received slot' < unat (sl_fragmentCnt slot')"
        using all_present [OF si, of ?i "uf_Payload frag"] il fits fb(3) that by (simp add: slot'_def)
      show ?thesis
        using assms(4) np abs_takeSlotLocked [of key ru] unfolding P3 P2
        by (auto dest: rm split: if_splits prod.splits)
    qed
  qed
qed

lemma abs_open_slot:
  "abs_slot (open_slot frag now v) =
     \<lparr>rs_created = now, rs_count = unat (uf_FragmentCount frag), rs_total = unat (uf_TotalLen frag),
      rs_parts = (replicate (unat (uf_FragmentCount frag)) [])[unat (uf_FragmentIndex frag) := uf_Payload frag],
      rs_got = 1, rs_bytes = length (uf_Payload frag)\<rparr>"
  by (simp add: abs_slot_def open_slot_def)

text \<open>The slot table and the budget once there is room for one more slot.\<close>

definition with_room :: "('rv \<Rightarrow> 'b \<Rightarrow> 'b) \<Rightarrow> 'rv DatagramReassembler \<Rightarrow> 'b \<Rightarrow> bool \<times> 'rv DatagramReassembler \<times> 'b" where
  "with_room release r b =
     (if int (length (dr_slots r)) \<ge> rc_MaxSlots (dr_cfg r) then evict_partial release r b else (False, r, b))"

lemma removeSlotLocked_cfg: "dr_cfg (fst (removeSlotLocked key release r b)) = dr_cfg r"
  by (simp add: removeSlotLocked_def Let_def split: option.splits)

lemma abs_with_room:
  assumes "with_room release r b = (one, q, b1)"
  shows "abs_re q = (if int (length (re_slots (abs_re r))) \<ge> re_maxSlots (abs_re r) then re_evictOldest (abs_re r) else abs_re r)"
    "dr_cfg q = dr_cfg r"
proof -
  show "abs_re q = (if int (length (re_slots (abs_re r))) \<ge> re_maxSlots (abs_re r) then re_evictOldest (abs_re r) else abs_re r)"
    using assms abs_evict_partial [of release r b] by (auto simp: with_room_def split: if_splits)
  show "dr_cfg q = dr_cfg r"
    using assms removeSlotLocked_cfg [of _ release r b]
    by (auto simp: with_room_def evict_partial_def split: if_splits option.splits) (metis fst_conv)+
qed

lemma pushOwned_new_room:
  "pushOwned_new ev key frag now reserve release r b =
     (if rc_MaxSlots (dr_cfg r) = 0 \<or> int (unat (uf_TotalLen frag)) > rc_MaxBytes (dr_cfg r)
      then (Ret (drop_outcome False ReassemblyDropByteLimit), r, b)
      else
        (case with_room release r b of
           (one, r, b) \<Rightarrow>
             if dr_bytes r + int (unat (uf_TotalLen frag)) > rc_MaxBytes (dr_cfg r)
             then (Ret (drop_outcome (ev \<or> one) ReassemblyDropByteLimit), r, b)
             else
               (case (case reserve of None \<Rightarrow> ((None, True), b) | Some f \<Rightarrow> f (unat (uf_TotalLen frag)) b) of
                  ((v, ok), b) \<Rightarrow>
                    if \<not> ok then (Ret (drop_outcome (ev \<or> one) ReassemblyDropByteLimit), r, b)
                    else if \<not> unat (uf_FragmentIndex frag) < unat (uf_FragmentCount frag) then (Panic, r, b)
                    else (Ret (no_outcome\<lparr>oc_EvictedPartial := ev \<or> one\<rparr>),
                          r\<lparr>dr_slots := AList.update key (open_slot frag now v) (dr_slots r),
                            dr_bytes := dr_bytes r + int (unat (uf_TotalLen frag))\<rparr>, b))))"
  unfolding pushOwned_new_def with_room_def Let_def by (auto split: prod.splits)

lemma Push_new_room:
  assumes "fragment_ok (frag_datagram f frag)"
  shows "Push_new r key (frag_datagram f frag) now =
    (let q = (if int (length (re_slots r)) \<ge> re_maxSlots r then re_evictOldest r else r)
     in if re_reserved q + int (unat (uf_TotalLen frag)) > re_maxBytes q
        then (q, Ret (Inl (New ''nw3: reassembly byte limit'')))
        else (q\<lparr>re_slots := AList.update key (abs_slot (open_slot frag now v)) (re_slots q),
                re_reserved := re_reserved q + int (unat (uf_TotalLen frag))\<rparr>, Ret (Inr None)))"
proof -
  note fb = fragment_ok_bounds [OF assms, unfolded frag_datagram_def, simplified]
  show ?thesis using fb unfolding abs_open_slot by (simp add: Push_new_def frag_datagram_def Let_def)
qed

lemma pushOwned_new_sim:
  assumes "dr_inv r" "map_of (dr_slots r) key = None" "fragment_ok (frag_datagram f frag)"
    "pushOwned_new ev key frag now reserve release r b = (oc, r', b')"
  shows "(case Push_new (abs_re r) key (frag_datagram f frag) now of (r3, res) \<Rightarrow> abs_re r' = r3 \<and> same_outcome oc res) \<or>
    ((\<exists>e. oc = Ret (drop_outcome e ReassemblyDropByteLimit)) \<and> dr_inv r' \<and>
     (int (unat (uf_TotalLen frag)) > rc_MaxBytes (dr_cfg r) \<or> (\<exists>g b0 v b1. reserve = Some g \<and> g (unat (uf_TotalLen frag)) b0 = ((v, False), b1))))"
proof (cases "int (unat (uf_TotalLen frag)) > rc_MaxBytes (dr_cfg r)")
  case True
  then show ?thesis using assms(1,4) by (auto simp: pushOwned_new_room)
next
  case False
  note fb = fragment_ok_bounds [OF assms(3), unfolded frag_datagram_def, simplified]
  obtain one q b1 where q: "with_room release r b = (one, q, b1)" by (cases "with_room release r b")
  note aq = abs_with_room [OF q]
  have rr: "re_inv (abs_re q)" using re_evict_room(1) [OF assms(1)] aq(1) by simp
  have n0: "rc_MaxSlots (dr_cfg r) \<noteq> 0" using dr_invD(5) [OF assms(1)] by simp
  show ?thesis
  proof (cases "dr_bytes q + int (unat (uf_TotalLen frag)) > rc_MaxBytes (dr_cfg q)")
    case True
    then have "oc = Ret (drop_outcome (ev \<or> one) ReassemblyDropByteLimit)" "r' = q"
      using assms(4) False n0 q by (auto simp: pushOwned_new_room aq(2))
    then show ?thesis using True aq(1) [symmetric]
      by (simp add: Push_new_room [OF assms(3), where v = "None :: 'a option"] Let_def)
  next
    case fits: False
    obtain v ok b2 where v: "(case reserve of None \<Rightarrow> ((None, True), b1) | Some f \<Rightarrow> f (unat (uf_TotalLen frag)) b1) = ((v, ok), b2)"
      by (metis surj_pair)
    show ?thesis
    proof (cases ok)
      case False
      then have "oc = Ret (drop_outcome (ev \<or> one) ReassemblyDropByteLimit)" "r' = q"
        using assms(4) fits q v n0 \<open>\<not> rc_MaxBytes (dr_cfg r) < int (unat (uf_TotalLen frag))\<close>
        by (auto simp: pushOwned_new_room aq(2))
      moreover have "\<exists>g b0 v b1. reserve = Some g \<and> g (unat (uf_TotalLen frag)) b0 = ((v, False), b1)"
        using v False by (cases reserve) auto
      ultimately show ?thesis using rr by blast
    next
      case True
      then have r': "oc = Ret (no_outcome\<lparr>oc_EvictedPartial := ev \<or> one\<rparr>)"
          "r' = q\<lparr>dr_slots := AList.update key (open_slot frag now v) (dr_slots q), dr_bytes := dr_bytes q + int (unat (uf_TotalLen frag))\<rparr>"
        using assms(4) fits q v n0 fb(1) \<open>\<not> rc_MaxBytes (dr_cfg r) < int (unat (uf_TotalLen frag))\<close>
        by (auto simp: pushOwned_new_room aq(2))
      then show ?thesis using fits aq(1) [symmetric]
        by (simp add: Push_new_room [OF assms(3), where v = v] Let_def)
    qed
  qed
qed

text \<open>The fragments a reassembler looks at are the valid ones; the others change nothing.\<close>

definition frag_valid :: "u32 \<Rightarrow> UDPFragment \<Rightarrow> bool" where
  "frag_valid f frag \<longleftrightarrow> f \<noteq> 0 \<and> uf_PacketID frag \<noteq> 0 \<and> fragment_ok (frag_datagram f frag)"

lemma pushOwned_valid:
  "pushOwned f frag now reserve release r b =
     (if frag_valid f frag then
        (case expireLocked now release r b of
           (ev, r, b) \<Rightarrow>
             (case map_of (dr_slots r) (f, uf_PacketID frag) of
                Some slot \<Rightarrow> pushOwned_existing ev (f, uf_PacketID frag) slot frag release r b
              | None \<Rightarrow> pushOwned_new ev (f, uf_PacketID frag) frag now reserve release r b))
      else (Ret (drop_outcome False ReassemblyDropInvalidLength), r, b))"
proof -
  have "fragment_ok (frag_datagram f frag) \<longleftrightarrow> validateFragmentMetadata frag = None \<and> length (uf_Payload frag) \<noteq> 0 \<and>
      int (length (uf_Payload frag)) + int (unat (uf_FragmentCount frag)) - 1 \<le> int (unat (uf_TotalLen frag))"
    using validateFragment_nw2 [of "uf_FragmentIndex frag" "uf_FragmentCount frag" "uf_TotalLen frag" "uf_Payload frag" "uf_PacketID frag"]
    by (cases frag) (auto simp: fragment_ok_def frag_datagram_def)
  then show ?thesis by (auto simp: pushOwned_def frag_valid_def Let_def)
qed

lemma pushOwned_sim:
  assumes "dr_inv r" "frag_valid f frag" "pushOwned f frag now reserve release r b = (oc, r', b')"
  shows "(case Push (abs_re r) (frag_datagram f frag) now of (r3, res) \<Rightarrow> abs_re r' = r3 \<and> same_outcome oc res) \<or>
    ((\<exists>e. oc = Ret (drop_outcome e ReassemblyDropByteLimit)) \<and> dr_inv r' \<and>
     (int (unat (uf_TotalLen frag)) > rc_MaxBytes (dr_cfg r) \<or> (\<exists>g b0 v b1. reserve = Some g \<and> g (unat (uf_TotalLen frag)) b0 = ((v, False), b1))))"
proof -
  obtain ev q b1 where q: "expireLocked now release r b = (ev, q, b1)" by (cases "expireLocked now release r b")
  note aq = abs_expireLocked [OF assms(1) q]
  have iq: "dr_inv q" using shrinks_expire [of "abs_re r" now] assms(1) aq(1) by (simp add: shrinks_def)
  have ok: "fragment_ok (frag_datagram f frag)" using assms(2) by (simp add: frag_valid_def)
  have P: "Push (abs_re r) (frag_datagram f frag) now =
      (case map_of (re_slots (abs_re q)) (f, uf_PacketID frag) of
         Some slot \<Rightarrow> Push_existing (abs_re q) (f, uf_PacketID frag) slot (frag_datagram f frag)
       | None \<Rightarrow> Push_new (abs_re q) (f, uf_PacketID frag) (frag_datagram f frag) now)"
    unfolding aq(1) by (simp add: Push_def Let_def)
  show ?thesis
  proof (cases "map_of (dr_slots q) (f, uf_PacketID frag)")
    case None
    then have "pushOwned_new ev (f, uf_PacketID frag) frag now reserve release q b1 = (oc, r', b')"
      using assms(2,3) q by (simp add: pushOwned_valid)
    from pushOwned_new_sim [OF iq None ok this] show ?thesis using None by (simp add: P aq(2))
  next
    case (Some slot)
    then have "pushOwned_existing ev (f, uf_PacketID frag) slot frag release q b1 = (oc, r', b')"
      using assms(2,3) q by (simp add: pushOwned_valid)
    from pushOwned_existing_sim [OF iq Some ok this] show ?thesis using Some by (simp add: P)
  qed
qed

lemma same_outcome_not_Panic: "same_outcome oc res \<Longrightarrow> res \<noteq> Panic \<Longrightarrow> oc \<noteq> Panic"
  by (cases oc; cases res) auto

lemma pushOwned_inv:
  assumes "dr_inv r" "pushOwned f frag now reserve release r b = (oc, r', b')"
  shows "dr_inv r'" "oc \<noteq> Panic" "oc = Ret x \<Longrightarrow> oc_Done x \<Longrightarrow> length (oc_Payload x) = unat (uf_TotalLen frag)"
proof -
  have "dr_inv r' \<and> oc \<noteq> Panic \<and> (oc = Ret x \<and> oc_Done x \<longrightarrow> length (oc_Payload x) = unat (uf_TotalLen frag))"
  proof (cases "frag_valid f frag")
    case False
    then show ?thesis using assms by (auto simp: pushOwned_valid)
  next
    case True
    obtain r3 res where p: "Push (abs_re r) (frag_datagram f frag) now = (r3, res)" by fastforce
    have ok: "fragment_ok (frag_datagram f frag)" using True by (simp add: frag_valid_def)
    note i = Push_inv [OF assms(1) ok p]
    from pushOwned_sim [OF assms(1) True assms(2)] consider "abs_re r' = r3" "same_outcome oc res" | e where "oc = Ret (drop_outcome e ReassemblyDropByteLimit)" "dr_inv r'"
      unfolding p by auto
    then show ?thesis
    proof cases
      case 1
      have "length (oc_Payload x) = unat (uf_TotalLen frag)" if "oc = Ret x" "oc_Done x"
        using that 1(2) i by (cases "(oc, res)" rule: same_outcome.cases) (auto simp: frag_datagram_def)
      then show ?thesis using 1 i same_outcome_not_Panic by blast
    next
      case 2
      then show ?thesis by auto
    qed
  qed
  then show "dr_inv r'" "oc \<noteq> Panic" "oc = Ret x \<Longrightarrow> oc_Done x \<Longrightarrow> length (oc_Payload x) = unat (uf_TotalLen frag)" by auto
qed

end
