(* ===== verification/Nw2_Udp_Budget.thy ===== *)
theory Nw2_Udp_Budget
  imports Nw2_Reassembly_Sim
begin

section \<open>nw2: byte budgets and the server's UDP reassembler\<close>

text \<open>
  A budget hands out reservations, each of which gives its bytes back at most once. The interface
  \<open>byte_budget\<close> is what the reassembler relies on; the budget of the server (\<^verbatim>\<open>nw2/server/udp_reassembly.go\<close>)
  and that of the client (\<^verbatim>\<open>nw2/bundle/datagram_mux.go\<close>) are instances. A reservation object is its
  number; \<open>open\<close> lists the objects whose \<^verbatim>\<open>sync.Once\<close> has not fired, with their counts.
\<close>

subsection \<open>The two budgets\<close>

record byteBudget =
  bb_limit :: int
  bb_used :: int
  bb_open :: "(nat \<times> nat) list"
  bb_next :: nat

definition budget_reserve :: "int \<Rightarrow> byteBudget \<Rightarrow> bool \<times> byteBudget" where
  "budget_reserve cnt b =
     (if cnt < 0 then (False, b)
      else if bb_limit b > 0 \<and> bb_used b + cnt > bb_limit b then (False, b)
      else (True, b\<lparr>bb_used := bb_used b + cnt\<rparr>))"

definition budget_release :: "int \<Rightarrow> byteBudget \<Rightarrow> byteBudget" where
  "budget_release cnt b =
     (if cnt \<le> 0 then b
      else (let used = bb_used b - cnt in b\<lparr>bb_used := (if used < 0 then 0 else used)\<rparr>))"

definition byteReservation_Release :: "nat \<Rightarrow> byteBudget \<Rightarrow> byteBudget" where
  "byteReservation_Release v b =
     (case map_of (bb_open b) v of
        None \<Rightarrow> b
      | Some cnt \<Rightarrow> budget_release (int cnt) (b\<lparr>bb_open := AList.delete v (bb_open b)\<rparr>))"

definition reserveOwned :: "nat \<Rightarrow> byteBudget \<Rightarrow> (nat option \<times> bool) \<times> byteBudget" where
  "reserveOwned cnt b =
     (case budget_reserve (int cnt) b of
        (False, b) \<Rightarrow> ((None, False), b)
      | (True, b) \<Rightarrow> ((Some (bb_next b), True), b\<lparr>bb_open := (bb_next b, cnt) # bb_open b, bb_next := Suc (bb_next b)\<rparr>))"

record quicByteBudget =
  qb_limit :: int
  qb_used :: int
  qb_open :: "(nat \<times> nat) list"
  qb_next :: nat

definition quic_reserve :: "nat \<Rightarrow> quicByteBudget \<Rightarrow> (nat option \<times> bool) \<times> quicByteBudget" where
  "quic_reserve cnt b =
     (if qb_limit b > 0 \<and> qb_used b + int cnt > qb_limit b then ((None, False), b)
      else ((Some (qb_next b), True),
            b\<lparr>qb_used := qb_used b + int cnt, qb_open := (qb_next b, cnt) # qb_open b, qb_next := Suc (qb_next b)\<rparr>))"

definition quicByteReservation_Release :: "nat \<Rightarrow> quicByteBudget \<Rightarrow> quicByteBudget" where
  "quicByteReservation_Release v b =
     (case map_of (qb_open b) v of
        None \<Rightarrow> b
      | Some cnt \<Rightarrow>
          (let used = qb_used b - int cnt
           in b\<lparr>qb_open := AList.delete v (qb_open b), qb_used := (if used < 0 then 0 else used)\<rparr>))"

subsection \<open>The interface\<close>

locale byte_budget =
  fixes reserve :: "nat \<Rightarrow> 'b \<Rightarrow> ('rv option \<times> bool) \<times> 'b"
    and release :: "'rv \<Rightarrow> 'b \<Rightarrow> 'b"
    and live :: "'b \<Rightarrow> ('rv \<times> nat) multiset"
    and binv :: "'b \<Rightarrow> bool"
  assumes reserve_ok: "binv b \<Longrightarrow> reserve n b = ((v, True), b') \<Longrightarrow> \<exists>w. v = Some w \<and> live b' = add_mset (w, n) (live b) \<and> binv b'"
    and reserve_no: "reserve n b = ((v, False), b') \<Longrightarrow> b' = b"
    and release_live: "binv b \<Longrightarrow> (w, n) \<in># live b \<Longrightarrow> live (release w b) = live b - {#(w, n)#} \<and> binv (release w b)"

text \<open>What the slots of a reassembler hold of the budget, with \<open>M\<close> held elsewhere.\<close>

definition slot_res :: "'rv reassemblySlot \<Rightarrow> ('rv \<times> nat) multiset" where
  "slot_res s = (case sl_reservation s of None \<Rightarrow> {#} | Some v \<Rightarrow> {#(v, unat (sl_totalLen s))#})"

definition res_of :: "(reKey \<times> 'rv reassemblySlot) list \<Rightarrow> ('rv \<times> nat) multiset" where
  "res_of xs = (\<Sum>p\<leftarrow>xs. slot_res (snd p))"

definition outcome_res :: "'rv ReassemblyOutcome \<Rightarrow> ('rv \<times> nat) multiset" where
  "outcome_res x = (case oc_Reservation x of None \<Rightarrow> {#} | Some v \<Rightarrow> {#(v, length (oc_Payload x))#})"

definition backed ::
  "('b \<Rightarrow> ('rv \<times> nat) multiset) \<Rightarrow> ('b \<Rightarrow> bool) \<Rightarrow> 'rv DatagramReassembler \<Rightarrow> 'b \<Rightarrow> ('rv \<times> nat) multiset \<Rightarrow> bool" where
  "backed live binv r b M \<longleftrightarrow> dr_inv r \<and> binv b \<and> live b = res_of (dr_slots r) + M \<and>
     list_all (\<lambda>p. sl_reservation (snd p) \<noteq> None) (dr_slots r)"

lemma res_of_simps [simp]: "res_of [] = {#}" "res_of (x # xs) = slot_res (snd x) + res_of xs"
  by (simp_all add: res_of_def)

lemma res_of_filter: "res_of xs = res_of (filter P xs) + res_of (filter (\<lambda>p. \<not> P p) xs)"
  by (induction xs) auto

lemma res_of_delete:
  "distinct (map fst xs) \<Longrightarrow> map_of xs k = Some s \<Longrightarrow> res_of xs = slot_res s + res_of (AList.delete k xs)"
proof (induction xs)
  case (Cons x xs)
  show ?case
  proof (cases "fst x = k")
    case True
    then have "map_of xs k = None" using Cons.prems(1) by (simp add: map_of_eq_None_iff)
    then show ?thesis using True Cons.prems by (simp add: delete_absent)
  next
    case False
    then show ?thesis using Cons by simp
  qed
qed simp

lemma res_of_update_same:
  "map_of xs k = Some s \<Longrightarrow> slot_res s' = slot_res s \<Longrightarrow> res_of (AList.update k s' xs) = res_of xs"
  by (induction xs) auto

lemma res_of_update_new: "map_of xs k = None \<Longrightarrow> res_of (AList.update k s xs) = res_of xs + slot_res s"
  by (induction xs) (auto split: if_splits)

lemma dr_inv_filter:
  assumes "dr_inv r"
  shows "dr_inv (r\<lparr>dr_bytes := total_sum (filter Q (dr_slots r)), dr_slots := filter Q (dr_slots r)\<rparr>)"
proof -
  note D = dr_invD [OF assms]
  have "total_sum (filter Q (dr_slots r)) \<le> total_sum (dr_slots r)"
    using total_sum_filter [of Q "dr_slots r"] total_sum_nonneg [of "filter (\<lambda>p. \<not> Q p) (dr_slots r)"] by linarith
  moreover have "int (length (filter Q (dr_slots r))) \<le> rc_MaxSlots (dr_cfg r)"
    using D(4) length_filter_le [of Q "dr_slots r"] by linarith
  moreover have "\<forall>p \<in> set (abs_slots (filter Q (dr_slots r))). slot_inv (snd p)"
    using assms by (auto simp: re_inv_def abs_slots_def)
  ultimately show ?thesis using D
    by (auto simp: re_inv_def abs_re_def distinct_map_filter)
qed

subsection \<open>What the reassembler keeps, for any budget\<close>

context byte_budget
begin

lemma release_slots:
  "binv b \<Longrightarrow> live b = res_of xs + M \<Longrightarrow>
   binv (foldl (\<lambda>b p. releaseReservation release (sl_reservation (snd p)) b) b xs) \<and>
   live (foldl (\<lambda>b p. releaseReservation release (sl_reservation (snd p)) b) b xs) = M"
proof (induction xs arbitrary: b)
  case (Cons x xs)
  show ?case
  proof (cases "sl_reservation (snd x)")
    case None
    then show ?thesis using Cons by (simp add: releaseReservation_def slot_res_def)
  next
    case (Some v)
    let ?p = "(v, unat (sl_totalLen (snd x)))"
    have l: "live b = add_mset ?p (res_of xs + M)" using Cons.prems(2) Some by (simp add: slot_res_def)
    then have "live (release v b) = res_of xs + M" "binv (release v b)"
      using release_live [OF Cons.prems(1), of v "unat (sl_totalLen (snd x))"] by simp_all
    then show ?thesis using Cons.IH [of "release v b"] Some by (simp add: releaseReservation_def)
  qed
qed simp

lemma drop_where_backed:
  assumes "backed live binv r b M" "drop_where P release r b = (a, r', b')"
  shows "backed live binv r' b' M"
proof -
  have i: "dr_inv r" and bi: "binv b" and l: "live b = res_of (dr_slots r) + M"
    and s: "list_all (\<lambda>p. sl_reservation (snd p) \<noteq> None) (dr_slots r)" using assms(1) by (auto simp: backed_def)
  have r': "r' = r\<lparr>dr_bytes := total_sum (filter (\<lambda>p. \<not> P p) (dr_slots r)), dr_slots := filter (\<lambda>p. \<not> P p) (dr_slots r)\<rparr>"
    and b': "b' = foldl (\<lambda>b p. releaseReservation release (sl_reservation (snd p)) b) b (filter P (dr_slots r))"
    using assms(2) by (simp_all add: drop_where_eq [OF i])
  have "live b = res_of (filter P (dr_slots r)) + (res_of (filter (\<lambda>p. \<not> P p) (dr_slots r)) + M)"
    using l res_of_filter [of "dr_slots r" P] by (simp add: add.assoc)
  from release_slots [OF bi this] show ?thesis
    using dr_inv_filter [OF i, of "\<lambda>p. \<not> P p"] s unfolding backed_def r' b' by (auto simp: list_all_iff)
qed

lemma removeSlot_backed:
  assumes "backed live binv r b M" "removeSlotLocked key release r b = (r', b')"
  shows "backed live binv r' b' M"
proof (cases "map_of (dr_slots r) key")
  case None
  then show ?thesis using assms by (simp add: removeSlotLocked_def)
next
  case (Some s)
  have i: "dr_inv r" and bi: "binv b" and l: "live b = res_of (dr_slots r) + M"
    and a: "list_all (\<lambda>p. sl_reservation (snd p) \<noteq> None) (dr_slots r)" using assms(1) by (auto simp: backed_def)
  have i': "dr_inv r'" using abs_removeSlotLocked [of key release r b] re_inv_drop [OF i] assms(2) by simp
  have r': "dr_slots r' = AList.delete key (dr_slots r)" "b' = releaseReservation release (sl_reservation s) b"
    using assms(2) Some by (auto simp: removeSlotLocked_def Let_def)
  have "live b = res_of [(key, s)] + (res_of (AList.delete key (dr_slots r)) + M)"
    using l res_of_delete [OF dr_invD(1) [OF i] Some] by (simp add: add.assoc)
  from release_slots [OF bi this] show ?thesis
    using i' a unfolding backed_def r' by (auto simp: list_all_iff set_al_delete)
qed

lemma takeSlot_backed:
  assumes "backed live binv r b M" "map_of (dr_slots r) key = Some s" "takeSlotLocked key r = (v, r')"
  shows "backed live binv r' b (slot_res s + M)" "v = sl_reservation s"
proof -
  have i: "dr_inv r" and l: "live b = res_of (dr_slots r) + M"
    and a: "list_all (\<lambda>p. sl_reservation (snd p) \<noteq> None) (dr_slots r)" using assms(1) by (auto simp: backed_def)
  have i': "dr_inv r'" using abs_takeSlotLocked [of key r] re_inv_drop [OF i] assms(3) by simp
  have r': "dr_slots r' = AList.delete key (dr_slots r)" and v: "v = sl_reservation s"
    using assms(2,3) by (auto simp: takeSlotLocked_def Let_def)
  show "v = sl_reservation s" by (rule v)
  show "backed live binv r' b (slot_res s + M)"
    using assms(1) i' a l res_of_delete [OF dr_invD(1) [OF i] assms(2)]
    by (auto simp: backed_def r' list_all_iff set_al_delete add.assoc add.left_commute)
qed

lemma with_room_backed:
  "backed live binv r b M \<Longrightarrow> with_room release r b = (one, r', b') \<Longrightarrow> backed live binv r' b' M"
  using removeSlot_backed
  by (auto simp: with_room_def evict_partial_def split: if_splits option.splits prod.splits)

lemma update_backed:
  assumes "backed live binv r b M" "map_of (dr_slots r) key = Some s" "slot_inv (abs_slot s')"
    "sl_totalLen s' = sl_totalLen s" "sl_reservation s' = sl_reservation s"
  shows "backed live binv (r\<lparr>dr_slots := AList.update key s' (dr_slots r)\<rparr>) b M"
proof -
  have i: "dr_inv r" and a: "list_all (\<lambda>p. sl_reservation (snd p) \<noteq> None) (dr_slots r)"
    using assms(1) by (auto simp: backed_def)
  have "abs_re (r\<lparr>dr_slots := AList.update key s' (dr_slots r)\<rparr>) =
      (abs_re r)\<lparr>re_slots := AList.update key (abs_slot s') (re_slots (abs_re r))\<rparr>"
    by (simp add: abs_re_def)
  moreover have "re_inv \<dots>" using assms by (intro re_inv_update [OF i, of key "abs_slot s"]) simp_all
  ultimately have i': "dr_inv (r\<lparr>dr_slots := AList.update key s' (dr_slots r)\<rparr>)" by (simp only:)
  have "sl_reservation s \<noteq> None" using a map_of_SomeD [OF assms(2)] by (auto simp: list_all_iff)
  then have "list_all (\<lambda>p. sl_reservation (snd p) \<noteq> None) (AList.update key s' (dr_slots r))"
    using a assms(5) set_al_update [of key s' "dr_slots r"] by (fastforce simp: list_all_iff)
  moreover have "slot_res s' = slot_res s" using assms by (simp add: slot_res_def split: option.split)
  ultimately show ?thesis using assms(1,2) i' by (simp add: backed_def res_of_update_same)
qed

text \<open>Pushing: what leaves the table goes back to the budget, or to the caller with the packet.\<close>

lemma existing_backed:
  assumes B: "backed live binv r b M" and m: "map_of (dr_slots r) key = Some slot"
    and ok: "fragment_ok (frag_datagram f frag)"
    and P: "pushOwned_existing ev key slot frag release r b = (oc, r', b')"
  shows "\<exists>x. oc = Ret x \<and> backed live binv r' b' (outcome_res x + M) \<and> (oc_Done x \<longrightarrow> oc_Reservation x \<noteq> None)"
proof -
  have i: "dr_inv r" and a: "list_all (\<lambda>p. sl_reservation (snd p) \<noteq> None) (dr_slots r)"
    using B by (auto simp: backed_def)
  have si: "slot_inv (abs_slot slot)" using slot_inv_of [OF i, of key "abs_slot slot"] m by simp
  note fb = fragment_ok_bounds [OF ok, unfolded frag_datagram_def, simplified]
  let ?i = "unat (uf_FragmentIndex frag)"
  have o: "outcome_res (drop_outcome e y) = {#}" "outcome_res (no_outcome\<lparr>oc_EvictedPartial := e\<rparr>) = {#}" for e y
    by (simp_all add: outcome_res_def no_outcome_def drop_outcome_def)
  have rm: "\<exists>x. oc = Ret x \<and> backed live binv r' b' (outcome_res x + M) \<and> (oc_Done x \<longrightarrow> oc_Reservation x \<noteq> None)"
    if "(oc, r', b') = (Ret (drop_outcome ev y), removeSlotLocked key release q b)" "backed live binv q b M" for y q
    using removeSlot_backed [OF that(2), of key r' b'] that(1) by (auto simp: o)
  show ?thesis
  proof (cases "sl_fragmentCnt slot \<noteq> uf_FragmentCount frag \<or> sl_totalLen slot \<noteq> uf_TotalLen frag")
    case True
    then show ?thesis using P by (intro rm [of ReassemblyDropMetadataConflict r, OF _ B]) (auto simp: pushOwned_existing_def)
  next
    case False
    then have ne: "sl_fragmentCnt slot = uf_FragmentCount frag" "sl_totalLen slot = uf_TotalLen frag" by auto
    have il: "?i < length (sl_fragments slot)" using si fb(1) ne by (simp add: slot_inv_def)
    consider (dup) "sl_fragments slot ! ?i \<noteq> []" | (over) "sl_fragments slot ! ?i = []" "sl_retained slot + length (uf_Payload frag) > unat (sl_totalLen slot)"
      | (fits) "sl_fragments slot ! ?i = []" "\<not> sl_retained slot + length (uf_Payload frag) > unat (sl_totalLen slot)" by blast
    then show ?thesis
    proof cases
      case dup
      show ?thesis
      proof (cases "sl_fragments slot ! ?i = uf_Payload frag")
        case True
        then have "(oc, r', b') = (Ret (no_outcome\<lparr>oc_EvictedPartial := ev\<rparr>), r, b)"
          using P dup ne il by (simp add: pushOwned_existing_def Let_def)
        then show ?thesis using B by (simp add: o)
      next
        case False
        then show ?thesis using P dup ne il by (intro rm [of ReassemblyDropDuplicateConflict r, OF _ B]) (simp add: pushOwned_existing_def Let_def)
      qed
    next
      case over
      then show ?thesis using P ne il by (intro rm [of ReassemblyDropInvalidLength r, OF _ B]) (simp add: pushOwned_existing_def Let_def)
    next
      case fits
      define slot' where "slot' = slot\<lparr>sl_fragments := (sl_fragments slot)[?i := uf_Payload frag],
          sl_received := sl_received slot + 1, sl_retained := sl_retained slot + length (uf_Payload frag)\<rparr>"
      define ru where "ru = r\<lparr>dr_slots := AList.update key slot' (dr_slots r)\<rparr>"
      have P2: "pushOwned_existing ev key slot frag release r b =
          (if sl_received slot' < unat (sl_fragmentCnt slot') then (Ret (no_outcome\<lparr>oc_EvictedPartial := ev\<rparr>), ru, b)
           else if sl_retained slot' \<noteq> unat (sl_totalLen slot') \<or> list_ex (\<lambda>frag. frag = []) (sl_fragments slot')
           then (Ret (drop_outcome ev ReassemblyDropInvalidLength), removeSlotLocked key release ru b)
           else (case takeSlotLocked key ru of (v, r) \<Rightarrow>
             (Ret (no_outcome\<lparr>oc_EvictedPartial := ev, oc_Done := True, oc_Payload := concat (sl_fragments slot'), oc_Reservation := v\<rparr>), r, b)))"
        using fits ne il by (auto simp: pushOwned_existing_def Let_def slot'_def ru_def)
      have present: "parts_present (sl_fragments slot') = sl_received slot'"
          "length (concat (sl_fragments slot')) = sl_retained slot'"
        using si il fits(1) fb(3) by (simp_all add: slot'_def slot_inv_def parts_present_update concat_update_Nil)
      have Bd: "removeSlotLocked key release ru b = removeSlotLocked key release r b"
        using m by (simp add: removeSlotLocked_def ru_def slot'_def al_lookup AList.delete_update_same)
      have Td: "takeSlotLocked key ru = takeSlotLocked key r"
        using m by (simp add: takeSlotLocked_def ru_def slot'_def al_lookup AList.delete_update_same)
      show ?thesis
      proof (cases "sl_received slot' < unat (sl_fragmentCnt slot')")
        case True
        have "slot_inv (abs_slot slot')" using si True present fits(2) by (simp add: slot_inv_def slot'_def)
        then have "backed live binv ru b M" unfolding ru_def by (intro update_backed [OF B m]) (simp_all add: slot'_def)
        then show ?thesis using P P2 True by (auto simp: o)
      next
        case full: False
        show ?thesis
        proof (cases "sl_retained slot' \<noteq> unat (sl_totalLen slot') \<or> list_ex (\<lambda>frag. frag = []) (sl_fragments slot')")
          case True
          then show ?thesis using P P2 full Bd by (intro rm [of ReassemblyDropInvalidLength r, OF _ B]) simp
        next
          case False
          obtain v q where t: "takeSlotLocked key r = (v, q)" by (cases "takeSlotLocked key r")
          note tb = takeSlot_backed [OF B m t]
          have sv: "sl_reservation slot \<noteq> None" using a map_of_SomeD [OF m] by (auto simp: list_all_iff)
          have len: "unat (sl_totalLen slot) = length (concat (sl_fragments slot'))"
            using False present(2) by (simp add: slot'_def)
          let ?x = "no_outcome\<lparr>oc_EvictedPartial := ev, oc_Done := True, oc_Payload := concat (sl_fragments slot'), oc_Reservation := v\<rparr>"
          have "outcome_res ?x = slot_res slot"
            using tb(2) len by (simp add: outcome_res_def slot_res_def split: option.splits)
          then have "backed live binv q b (outcome_res ?x + M)" using tb(1) by simp
          moreover have "oc = Ret ?x" "r' = q" "b' = b" using P P2 full False t Td by simp_all
          ultimately show ?thesis using sv tb(2) by auto
        qed
      qed
    qed
  qed
qed

lemma new_backed:
  assumes B: "backed live binv r b M" and m: "map_of (dr_slots r) key = None"
    and ok: "fragment_ok (frag_datagram f frag)"
    and P: "pushOwned_new ev key frag now (Some reserve) release r b = (oc, r', b')"
  shows "\<exists>x. oc = Ret x \<and> backed live binv r' b' (outcome_res x + M) \<and> \<not> oc_Done x"
proof -
  note fb = fragment_ok_bounds [OF ok, unfolded frag_datagram_def, simplified]
  have o: "outcome_res (drop_outcome e y) = {#}" "outcome_res (no_outcome\<lparr>oc_EvictedPartial := e\<rparr>) = {#}" for e y
    by (simp_all add: outcome_res_def no_outcome_def drop_outcome_def)
  have i: "dr_inv r" using B by (simp add: backed_def)
  show ?thesis
  proof (cases "rc_MaxSlots (dr_cfg r) = 0 \<or> int (unat (uf_TotalLen frag)) > rc_MaxBytes (dr_cfg r)")
    case True
    then show ?thesis using P B by (auto simp: pushOwned_new_room o)
  next
    case lim: False
    obtain one q b1 where q: "with_room release r b = (one, q, b1)" by (cases "with_room release r b")
    have Bq: "backed live binv q b1 M" by (rule with_room_backed [OF B q])
    obtain v okk b2 where v: "reserve (unat (uf_TotalLen frag)) b1 = ((v, okk), b2)" by (metis surj_pair)
    show ?thesis
    proof (cases "dr_bytes q + int (unat (uf_TotalLen frag)) > rc_MaxBytes (dr_cfg q)")
      case True
      then show ?thesis using P Bq lim q by (auto simp: pushOwned_new_room o)
    next
      case fits: False
      show ?thesis
      proof (cases okk)
        case False
        then have "b2 = b1" using reserve_no [of "unat (uf_TotalLen frag)" b1 v b2] v by simp
        then show ?thesis using P Bq lim q fits v False by (auto simp: pushOwned_new_room o)
      next
        case True
        have bi: "binv b1" and lq: "live b1 = res_of (dr_slots q) + M"
          and aq: "list_all (\<lambda>p. sl_reservation (snd p) \<noteq> None) (dr_slots q)" using Bq by (auto simp: backed_def)
        obtain w where w: "v = Some w" "live b2 = add_mset (w, unat (uf_TotalLen frag)) (live b1)" "binv b2"
          using reserve_ok [OF bi, of "unat (uf_TotalLen frag)" v b2] v True by auto
        have r': "oc = Ret (no_outcome\<lparr>oc_EvictedPartial := ev \<or> one\<rparr>)" "b' = b2"
            "r' = q\<lparr>dr_slots := AList.update key (open_slot frag now v) (dr_slots q), dr_bytes := dr_bytes q + int (unat (uf_TotalLen frag))\<rparr>"
          using P lim q fits v True fb(1) by (auto simp: pushOwned_new_room)
        have mq: "map_of (dr_slots q) key = None"
          using abs_with_room [OF q] re_evict_room(2) [OF i] m unfolding shrinks_def
          by (metis abs_re_simps(4) abs_slots_simps(1) option.map_disc_iff)
        have "dr_inv r'"
        proof -
          from pushOwned_new_sim [OF i m ok P] consider "abs_re r' = fst (Push_new (abs_re r) key (frag_datagram f frag) now)" | "dr_inv r'"
            by (auto split: prod.splits)
          then show ?thesis
          proof cases
            case 1
            have mr: "map_of (re_slots (abs_re r)) key = None" using m by simp
            from Push_new_inv [OF i mr ok] 1 show ?thesis by (metis prod.collapse)
          qed simp
        qed
        moreover have "list_all (\<lambda>p. sl_reservation (snd p) \<noteq> None) (AList.update key (open_slot frag now v) (dr_slots q))"
          using aq w(1) set_al_update [of key "open_slot frag now v" "dr_slots q"] by (fastforce simp: list_all_iff open_slot_def)
        moreover have "slot_res (open_slot frag now v) = {#(w, unat (uf_TotalLen frag))#}"
          using w(1) by (simp add: slot_res_def open_slot_def)
        ultimately show ?thesis using r' w lq mq by (auto simp: backed_def o res_of_update_new)
      qed
    qed
  qed
qed

lemma push_backed:
  assumes B: "backed live binv r b M" and P: "PushWithReservation f frag now reserve release r b = (oc, r', b')"
  shows "\<exists>x. oc = Ret x \<and> backed live binv r' b' (outcome_res x + M) \<and> (oc_Done x \<longrightarrow> oc_Reservation x \<noteq> None)"
proof (cases "frag_valid f frag")
  case False
  then show ?thesis using assms
    by (auto simp: PushWithReservation_def pushOwned_valid outcome_res_def)
next
  case True
  have ok: "fragment_ok (frag_datagram f frag)" using True by (simp add: frag_valid_def)
  obtain ev q b1 where q: "expireLocked now release r b = (ev, q, b1)" by (cases "expireLocked now release r b")
  have Bq: "backed live binv q b1 M" using drop_where_backed [OF B] q by (simp add: expireLocked_def)
  show ?thesis
  proof (cases "map_of (dr_slots q) (f, uf_PacketID frag)")
    case None
    then have "pushOwned_new ev (f, uf_PacketID frag) frag now (Some reserve) release q b1 = (oc, r', b')"
      using True P q by (simp add: PushWithReservation_def pushOwned_valid)
    from new_backed [OF Bq None ok this] show ?thesis by auto
  next
    case (Some slot)
    then have "pushOwned_existing ev (f, uf_PacketID frag) slot frag release q b1 = (oc, r', b')"
      using True P q by (simp add: PushWithReservation_def pushOwned_valid)
    from existing_backed [OF Bq Some ok this] show ?thesis .
  qed
qed

end

end
