(* ===== verification/Nw2_Server_Udp.thy ===== *)
theory Nw2_Server_Udp
  imports Nw2_Udp_Budget
begin

section \<open>nw2 server: UDP reassembly within the session's byte budget\<close>

text \<open>
  \<^verbatim>\<open>nw2/server/udp_reassembly.go\<close>: the reassembler of a session, and the byte budget it shares with
  the packets queued for flows (\<^verbatim>\<open>reserveQueueBytes\<close> and \<^verbatim>\<open>releaseQueueBytes\<close> of \<^verbatim>\<open>nw2/server/session.go\<close>).
  The receiver of a nil \<^verbatim>\<open>*udpReassembler\<close> or \<^verbatim>\<open>*byteBudget\<close> is left out: the session always has both.
\<close>

subsection \<open>The model\<close>

record udpReassembler =
  ur_inner :: "nat DatagramReassembler"
  ur_closed :: bool

text \<open>\<^verbatim>\<open>Release\<close> of an outcome is the reservation it releases; \<open>None\<close> is the empty function.\<close>

record reassemblyOutcome =
  ro_Packet :: "byte list"
  ro_Complete :: bool
  ro_Dropped :: bool
  ro_Release :: "nat option"

definition newUDPReassembler :: "int \<Rightarrow> time \<Rightarrow> byteBudget \<Rightarrow> udpReassembler go" where
  "newUDPReassembler maxSlots ttl budget =
     (let cfg = DefaultReassemblyConfig;
          cfg = (if maxSlots > 0 then cfg\<lparr>rc_MaxSlots := maxSlots\<rparr> else cfg);
          cfg = (if ttl > 0 then cfg\<lparr>rc_TTL := ttl\<rparr> else cfg);
          cfg = (if bb_limit budget > 0 \<and> bb_limit budget < rc_MaxBytes cfg then cfg\<lparr>rc_MaxBytes := bb_limit budget\<rparr> else cfg)
      in case NewDatagramReassembler cfg of
           Inl e \<Rightarrow> Panic
         | Inr inner \<Rightarrow> Ret \<lparr>ur_inner = inner, ur_closed = False\<rparr>)"

definition udp_dropped :: "bool \<Rightarrow> reassemblyOutcome" where
  "udp_dropped d = \<lparr>ro_Packet = [], ro_Complete = False, ro_Dropped = d, ro_Release = None\<rparr>"

definition udp_Push :: "u32 \<Rightarrow> UDPFragment \<Rightarrow> time \<Rightarrow> udpReassembler \<Rightarrow> byteBudget \<Rightarrow> reassemblyOutcome go \<times> udpReassembler \<times> byteBudget" where
  "udp_Push flowID fragment now r b =
     (if flowID = 0 then (Ret (udp_dropped True), r, b)
      else if ur_closed r then (Ret (udp_dropped True), r, b)
      else
        (case PushWithReservation flowID fragment now reserveOwned byteReservation_Release (ur_inner r) b of
           (Panic, inner, b) \<Rightarrow> (Panic, r\<lparr>ur_inner := inner\<rparr>, b)
         | (Ret outcome, inner, b) \<Rightarrow>
             (if oc_DropReason outcome \<noteq> ReassemblyDropNone \<or> \<not> oc_Done outcome
              then (Ret (udp_dropped (oc_DropReason outcome \<noteq> ReassemblyDropNone)), r\<lparr>ur_inner := inner\<rparr>, b)
              else (Ret \<lparr>ro_Packet = oc_Payload outcome, ro_Complete = True, ro_Dropped = False, ro_Release = oc_Reservation outcome\<rparr>,
                    r\<lparr>ur_inner := inner\<rparr>, b))))"

definition udp_Expire :: "time \<Rightarrow> udpReassembler \<Rightarrow> byteBudget \<Rightarrow> udpReassembler \<times> byteBudget" where
  "udp_Expire now r b =
     (if \<not> ur_closed r then
        (case Expire now byteReservation_Release (ur_inner r) b of (_, inner, b) \<Rightarrow> (r\<lparr>ur_inner := inner\<rparr>, b))
      else (r, b))"

definition udp_RemoveFlow :: "u32 \<Rightarrow> udpReassembler \<Rightarrow> byteBudget \<Rightarrow> udpReassembler \<times> byteBudget" where
  "udp_RemoveFlow flowID r b =
     (if \<not> ur_closed r then
        (case nw2_RemoveFlow flowID byteReservation_Release (ur_inner r) b of (inner, b) \<Rightarrow> (r\<lparr>ur_inner := inner\<rparr>, b))
      else (r, b))"

definition udp_Close :: "udpReassembler \<Rightarrow> byteBudget \<Rightarrow> udpReassembler \<times> byteBudget" where
  "udp_Close r b =
     (if ur_closed r then (r, b)
      else
        (case Clear byteReservation_Release (ur_inner r) b of
           (inner, b) \<Rightarrow> (r\<lparr>ur_closed := True, ur_inner := inner\<rparr>, b)))"

text \<open>The queue of the session: its closed flag is read twice, around the reservation.\<close>

definition reserveQueueBytes :: "bool \<Rightarrow> bool \<Rightarrow> int \<Rightarrow> int \<Rightarrow> byteBudget \<Rightarrow> bool \<times> int \<times> byteBudget" where
  "reserveQueueBytes closed1 closed2 n queuedBytes b =
     (if n < 0 then (False, queuedBytes, b)
      else if closed1 then (False, queuedBytes, b)
      else
        (case budget_reserve n b of
           (False, b) \<Rightarrow> (False, queuedBytes, b)
         | (True, b) \<Rightarrow>
             if closed2 then (False, queuedBytes, budget_release n b)
             else (True, queuedBytes + n, b)))"

definition releaseQueueBytes :: "int \<Rightarrow> int \<Rightarrow> byteBudget \<Rightarrow> int \<times> byteBudget" where
  "releaseQueueBytes n queuedBytes b =
     (if n \<le> 0 then (queuedBytes, b)
      else (let q = queuedBytes - n in (if q < 0 then 0 else q, budget_release n b)))"

text \<open>
  A session at work: its reassembler and budget, the packets handed out whose reservation has not
  been released, the sizes of the packets queued and the session's counter of them. A consumer may
  call \<^verbatim>\<open>Release\<close> more than once.
\<close>

record udp_session =
  us_re :: udpReassembler
  us_budget :: byteBudget
  us_handed :: "(nat \<times> nat) list"
  us_queue :: "int list"
  us_queuedBytes :: int

datatype udp_op =
    UPush u32 UDPFragment time
  | UExpire time
  | URemoveFlow u32
  | UClose
  | UConsume nat bool
  | UQueue int bool bool
  | UUnqueue nat

fun udp_step :: "udp_session \<Rightarrow> udp_op \<Rightarrow> udp_session" where
  "udp_step s (UPush f frag now) =
     (case udp_Push f frag now (us_re s) (us_budget s) of
        (Panic, r, b) \<Rightarrow> s\<lparr>us_re := r, us_budget := b\<rparr>
      | (Ret x, r, b) \<Rightarrow>
          s\<lparr>us_re := r, us_budget := b,
            us_handed := (case ro_Release x of None \<Rightarrow> us_handed s | Some v \<Rightarrow> (v, length (ro_Packet x)) # us_handed s)\<rparr>)"
| "udp_step s (UExpire now) = (case udp_Expire now (us_re s) (us_budget s) of (r, b) \<Rightarrow> s\<lparr>us_re := r, us_budget := b\<rparr>)"
| "udp_step s (URemoveFlow f) = (case udp_RemoveFlow f (us_re s) (us_budget s) of (r, b) \<Rightarrow> s\<lparr>us_re := r, us_budget := b\<rparr>)"
| "udp_step s UClose = (case udp_Close (us_re s) (us_budget s) of (r, b) \<Rightarrow> s\<lparr>us_re := r, us_budget := b\<rparr>)"
| "udp_step s (UConsume i again) =
     (if i < length (us_handed s) then
        (let v = fst (us_handed s ! i); b = byteReservation_Release v (us_budget s)
         in s\<lparr>us_budget := (if again then byteReservation_Release v b else b),
              us_handed := take i (us_handed s) @ drop (Suc i) (us_handed s)\<rparr>)
      else s)"
| "udp_step s (UQueue n closed1 closed2) =
     (case reserveQueueBytes closed1 closed2 n (us_queuedBytes s) (us_budget s) of
        (ok, q, b) \<Rightarrow> s\<lparr>us_budget := b, us_queuedBytes := q, us_queue := (if ok then n # us_queue s else us_queue s)\<rparr>)"
| "udp_step s (UUnqueue i) =
     (if i < length (us_queue s) then
        (case releaseQueueBytes (us_queue s ! i) (us_queuedBytes s) (us_budget s) of
           (q, b) \<Rightarrow> s\<lparr>us_budget := b, us_queuedBytes := q, us_queue := take i (us_queue s) @ drop (Suc i) (us_queue s)\<rparr>)
      else s)"

definition udp_session_start :: "int \<Rightarrow> time \<Rightarrow> int \<Rightarrow> udp_session go" where
  "udp_session_start maxSlots ttl limit =
     (let b = \<lparr>bb_limit = limit, bb_used = 0, bb_open = [], bb_next = 0\<rparr>
      in case newUDPReassembler maxSlots ttl b of
           Panic \<Rightarrow> Panic
         | Ret r \<Rightarrow> Ret \<lparr>us_re = r, us_budget = b, us_handed = [], us_queue = [], us_queuedBytes = 0\<rparr>)"

subsection \<open>Both budgets keep the contract\<close>

definition budget_inv :: "int \<Rightarrow> int \<Rightarrow> byteBudget \<Rightarrow> bool" where
  "budget_inv L K b \<longleftrightarrow> bb_limit b = L \<and> distinct (map fst (bb_open b)) \<and> list_all (\<lambda>p. fst p < bb_next b) (bb_open b) \<and>
     0 \<le> K \<and> bb_used b = K + int (\<Sum>p\<leftarrow>bb_open b. snd p) \<and> (L > 0 \<longrightarrow> bb_used b \<le> L)"

definition quic_budget_inv :: "quicByteBudget \<Rightarrow> bool" where
  "quic_budget_inv b \<longleftrightarrow> distinct (map fst (qb_open b)) \<and> list_all (\<lambda>p. fst p < qb_next b) (qb_open b) \<and>
     qb_used b = int (\<Sum>p\<leftarrow>qb_open b. snd p) \<and> (qb_limit b > 0 \<longrightarrow> qb_used b \<le> qb_limit b)"

lemma open_delete:
  fixes xs :: "(nat \<times> nat) list"
  assumes "distinct (map fst xs)" "(k, v) \<in># mset xs"
  shows "map_of xs k = Some v" "mset (AList.delete k xs) = mset xs - {#(k, v)#}"
    "(\<Sum>p\<leftarrow>AList.delete k xs. snd p) + v = (\<Sum>p\<leftarrow>xs. snd p)"
proof -
  show m: "map_of xs k = Some v" using assms by simp
  have "mset xs = add_mset (k, v) (mset (AList.delete k xs)) \<and> (\<Sum>p\<leftarrow>AList.delete k xs. snd p) + v = (\<Sum>p\<leftarrow>xs. snd p)"
    using assms(1) m
  proof (induction xs)
    case (Cons x xs)
    show ?case
    proof (cases "fst x = k")
      case True
      then have "map_of xs k = None" using Cons.prems(1) by (simp add: map_of_eq_None_iff)
      then show ?thesis using True Cons.prems by (cases x) (simp add: delete_absent)
    next
      case False
      then show ?thesis using Cons by auto
    qed
  qed simp
  then show "mset (AList.delete k xs) = mset xs - {#(k, v)#}" "(\<Sum>p\<leftarrow>AList.delete k xs. snd p) + v = (\<Sum>p\<leftarrow>xs. snd p)" by auto
qed

lemma budget_inv_Release:
  assumes "budget_inv L K b" "(w, n) \<in># mset (bb_open b)"
  shows "mset (bb_open (byteReservation_Release w b)) = mset (bb_open b) - {#(w, n)#} \<and> budget_inv L K (byteReservation_Release w b)"
proof -
  have d: "distinct (map fst (bb_open b))" using assms(1) by (simp add: budget_inv_def)
  note o = open_delete [OF d assms(2)]
  have R: "byteReservation_Release w b = b\<lparr>bb_open := AList.delete w (bb_open b), bb_used := bb_used b - int n\<rparr>"
    using assms(1) o(1,3) by (auto simp: byteReservation_Release_def budget_release_def Let_def budget_inv_def)
  show ?thesis unfolding R using assms(1) o
    by (auto simp: budget_inv_def al_distinct list_all_iff set_al_delete)
qed

interpretation server_budget: byte_budget reserveOwned byteReservation_Release "\<lambda>b. mset (bb_open b)" "budget_inv L K" for L K
proof
  show "\<exists>w. v = Some w \<and> mset (bb_open b') = add_mset (w, n) (mset (bb_open b)) \<and> budget_inv L K b'"
    if "budget_inv L K b" "reserveOwned n b = ((v, True), b')" for b n v b'
  proof -
    have "bb_next b \<notin> fst ` set (bb_open b)" "list_all (\<lambda>p. fst p < Suc (bb_next b)) (bb_open b)"
      using that(1) by (force simp: budget_inv_def list_all_iff)+
    then show ?thesis using that
      by (auto simp: reserveOwned_def budget_reserve_def budget_inv_def split: if_splits)
  qed
  show "b' = b" if "reserveOwned n b = ((v, False), b')" for b n v b'
    using that by (auto simp: reserveOwned_def budget_reserve_def split: prod.splits bool.splits if_splits)
  show "mset (bb_open (byteReservation_Release w b)) = mset (bb_open b) - {#(w, n)#} \<and> budget_inv L K (byteReservation_Release w b)"
    if "budget_inv L K b" "(w, n) \<in># mset (bb_open b)" for b w n
    using that by (rule budget_inv_Release)
qed

interpretation client_budget: byte_budget quic_reserve quicByteReservation_Release "\<lambda>b. mset (qb_open b)" quic_budget_inv
proof
  show "\<exists>w. v = Some w \<and> mset (qb_open b') = add_mset (w, n) (mset (qb_open b)) \<and> quic_budget_inv b'"
    if "quic_budget_inv b" "quic_reserve n b = ((v, True), b')" for b n v b'
  proof -
    have "qb_next b \<notin> fst ` set (qb_open b)" "list_all (\<lambda>p. fst p < Suc (qb_next b)) (qb_open b)"
      using that(1) by (force simp: quic_budget_inv_def list_all_iff)+
    then show ?thesis using that by (auto simp: quic_reserve_def quic_budget_inv_def split: if_splits)
  qed
  show "b' = b" if "quic_reserve n b = ((v, False), b')" for b n v b'
    using that by (auto simp: quic_reserve_def split: if_splits)
  show "mset (qb_open (quicByteReservation_Release w b)) = mset (qb_open b) - {#(w, n)#} \<and> quic_budget_inv (quicByteReservation_Release w b)"
    if "quic_budget_inv b" "(w, n) \<in># mset (qb_open b)" for b w n
  proof -
    have d: "distinct (map fst (qb_open b))" using that(1) by (simp add: quic_budget_inv_def)
    note o = open_delete [OF d that(2)]
    have R: "quicByteReservation_Release w b = b\<lparr>qb_open := AList.delete w (qb_open b), qb_used := qb_used b - int n\<rparr>"
      using that(1) o(1,3) by (auto simp: quicByteReservation_Release_def Let_def quic_budget_inv_def)
    show ?thesis unfolding R using that(1) o
      by (auto simp: quic_budget_inv_def al_distinct list_all_iff set_al_delete)
  qed
qed

subsection \<open>The budget is what is held\<close>

text \<open>
  Every byte the budget has given out is reserved for a slot, for a packet handed out, or queued;
  a run of the session keeps that account.
\<close>

lemma outcome_shape:
  assumes "PushWithReservation f frag now reserve release r b = (Ret x, r', b')" "oc_Reservation x \<noteq> None"
  shows "oc_Done x" "oc_DropReason x = ReassemblyDropNone"
  using assms
  by (auto simp: PushWithReservation_def pushOwned_def pushOwned_existing_def pushOwned_new_def Let_def no_outcome_def drop_outcome_def
      split: if_splits option.splits prod.splits)

definition udp_inv :: "int \<Rightarrow> udp_session \<Rightarrow> bool" where
  "udp_inv L s \<longleftrightarrow>
     backed (\<lambda>b. mset (bb_open b)) (budget_inv L (sum_list (us_queue s))) (ur_inner (us_re s)) (us_budget s) (mset (us_handed s)) \<and>
     list_all (\<lambda>n. 0 \<le> n) (us_queue s) \<and> us_queuedBytes s = sum_list (us_queue s)"

lemma slots_res_sum:
  fixes xs :: "(reKey \<times> 'rv reassemblySlot) list"
  shows "list_all (\<lambda>p. sl_reservation (snd p) \<noteq> None) xs \<Longrightarrow> int (\<Sum>p\<in>#res_of xs. snd p) = total_sum xs"
  by (induction xs) (auto simp: slot_res_def)

lemma udp_inv_account:
  assumes "udp_inv L s"
  shows "bb_used (us_budget s) = dr_bytes (ur_inner (us_re s)) + int (\<Sum>p\<leftarrow>us_handed s. snd p) + sum_list (us_queue s)"
    "L > 0 \<Longrightarrow> bb_used (us_budget s) \<le> L"
proof -
  let ?r = "ur_inner (us_re s)" and ?b = "us_budget s"
  have i: "dr_inv ?r" and bi: "budget_inv L (sum_list (us_queue s)) ?b"
    and m: "mset (bb_open ?b) = res_of (dr_slots ?r) + mset (us_handed s)"
    and l: "list_all (\<lambda>p. sl_reservation (snd p) \<noteq> None) (dr_slots ?r)" using assms by (auto simp: udp_inv_def backed_def)
  have "(\<Sum>p\<leftarrow>bb_open ?b. snd p) = (\<Sum>p\<in>#res_of (dr_slots ?r) + mset (us_handed s). snd p)"
    unfolding m [symmetric] by (simp flip: sum_mset_sum_list)
  also have "\<dots> = (\<Sum>p\<in>#res_of (dr_slots ?r). snd p) + (\<Sum>p\<leftarrow>us_handed s. snd p)" by (simp flip: sum_mset_sum_list)
  finally show "bb_used ?b = dr_bytes ?r + int (\<Sum>p\<leftarrow>us_handed s. snd p) + sum_list (us_queue s)"
    using bi slots_res_sum [OF l] dr_invD(2) [OF i] by (simp add: budget_inv_def)
  show "L > 0 \<Longrightarrow> bb_used ?b \<le> L" using bi by (simp add: budget_inv_def)
qed

lemma udp_Push_backed:
  assumes "backed (\<lambda>b. mset (bb_open b)) (budget_inv L K) (ur_inner r) b M" "udp_Push f frag now r b = (oc, r', b')"
  shows "\<exists>x. oc = Ret x \<and>
    backed (\<lambda>b. mset (bb_open b)) (budget_inv L K) (ur_inner r') b' ((case ro_Release x of None \<Rightarrow> {#} | Some v \<Rightarrow> {#(v, length (ro_Packet x))#}) + M)"
proof (cases "f = 0 \<or> ur_closed r")
  case True
  then have "(oc, r', b') = (Ret (udp_dropped True), r, b)" using assms(2) by (cases "f = 0") (simp_all add: udp_Push_def)
  then show ?thesis using assms(1) by (simp add: udp_dropped_def)
next
  case False
  obtain oi q b1 where p: "PushWithReservation f frag now reserveOwned byteReservation_Release (ur_inner r) b = (oi, q, b1)"
    by (metis surj_pair)
  obtain x where x: "oi = Ret x" and B: "backed (\<lambda>b. mset (bb_open b)) (budget_inv L K) q b1 (outcome_res x + M)"
    using server_budget.push_backed [OF assms(1) p] by blast
  have "outcome_res x = {#}" if "oc_DropReason x \<noteq> ReassemblyDropNone \<or> \<not> oc_Done x"
    using outcome_shape [OF p [unfolded x]] that by (cases "oc_Reservation x") (auto simp: outcome_res_def)
  then have B': "backed (\<lambda>b. mset (bb_open b)) (budget_inv L K) q b1 M" if "oc_DropReason x \<noteq> ReassemblyDropNone \<or> \<not> oc_Done x"
    using B that by simp
  show ?thesis
  proof (cases "oc_DropReason x \<noteq> ReassemblyDropNone \<or> \<not> oc_Done x")
    case True
    then have "oc = Ret (udp_dropped (oc_DropReason x \<noteq> ReassemblyDropNone)) \<and> r' = r\<lparr>ur_inner := q\<rparr> \<and> b' = b1"
      using False assms(2) p x by (simp add: udp_Push_def)
    then show ?thesis using B' [OF True] by (simp add: udp_dropped_def)
  next
    case ret: False
    then have "oc = Ret \<lparr>ro_Packet = oc_Payload x, ro_Complete = True, ro_Dropped = False, ro_Release = oc_Reservation x\<rparr> \<and>
        r' = r\<lparr>ur_inner := q\<rparr> \<and> b' = b1"
      using False assms(2) p x by (simp add: udp_Push_def)
    then show ?thesis using B by (cases "oc_Reservation x") (simp_all add: outcome_res_def)
  qed
qed

lemma Clear_backed:
  assumes "backed (\<lambda>b. mset (bb_open b)) (budget_inv L K) r b M" "Clear byteReservation_Release r b = (r', b')"
  shows "backed (\<lambda>b. mset (bb_open b)) (budget_inv L K) r' b' M"
proof -
  have i: "dr_inv r" using assms(1) by (simp add: backed_def)
  have "drop_where (\<lambda>_. True) byteReservation_Release r b = (list_ex (\<lambda>_. True) (dr_slots r), r', b')"
    using assms(2) by (auto simp: drop_where_eq [OF i] Clear_def)
  from server_budget.drop_where_backed [OF assms(1) this] show ?thesis .
qed

text \<open>A second \<^verbatim>\<open>Release\<close> of a reservation does nothing.\<close>

lemma Release_twice:
  assumes "budget_inv L K b" "(w, n) \<in># mset (bb_open b)"
  shows "byteReservation_Release w (byteReservation_Release w b) = byteReservation_Release w b"
proof -
  have d: "distinct (map fst (bb_open b))" using assms(1) by (simp add: budget_inv_def)
  have "bb_open (byteReservation_Release w b) = AList.delete w (bb_open b)"
    using open_delete(1) [OF d assms(2)] by (auto simp: byteReservation_Release_def budget_release_def Let_def)
  then show ?thesis by (simp add: byteReservation_Release_def [of w "byteReservation_Release w b"] al_lookup)
qed

lemma udp_inv_consume:
  assumes "udp_inv L s" "i < length (us_handed s)"
  shows "udp_inv L (udp_step s (UConsume i again))"
proof -
  obtain w n where wn: "us_handed s ! i = (w, n)" by fastforce
  have B: "backed (\<lambda>b. mset (bb_open b)) (budget_inv L (sum_list (us_queue s))) (ur_inner (us_re s)) (us_budget s) (mset (us_handed s))"
    using assms(1) by (simp add: udp_inv_def)
  have h: "(w, n) \<in># mset (us_handed s)" using assms(2) wn nth_mem by fastforce
  then have o: "(w, n) \<in># mset (bb_open (us_budget s))" using B by (auto simp: backed_def)
  have bi: "budget_inv L (sum_list (us_queue s)) (us_budget s)" using B by (simp add: backed_def)
  have "mset (bb_open (us_budget s)) = res_of (dr_slots (ur_inner (us_re s))) + mset (us_handed s)" using B by (simp add: backed_def)
  then have "mset (bb_open (us_budget s)) - {#(w, n)#} = res_of (dr_slots (ur_inner (us_re s))) + (mset (us_handed s) - {#(w, n)#})"
    by (simp only: diff_union_single_conv [OF h])
  then have "backed (\<lambda>b. mset (bb_open b)) (budget_inv L (sum_list (us_queue s))) (ur_inner (us_re s))
      (byteReservation_Release w (us_budget s)) (mset (take i (us_handed s) @ drop (Suc i) (us_handed s)))"
    using budget_inv_Release [OF bi o] B unfolding mset_remove_nth [OF assms(2)] wn backed_def by (simp only: simp_thms)
  then show ?thesis using assms wn Release_twice [OF bi o] by (simp add: udp_inv_def Let_def)
qed

lemma budget_inv_queue:
  "budget_inv L K b \<Longrightarrow> budget_reserve n b = (True, b') \<Longrightarrow> budget_inv L (K + n) b' \<and> bb_open b' = bb_open b \<and> 0 \<le> n"
  by (auto simp: budget_inv_def budget_reserve_def split: if_splits)

lemma budget_inv_unqueue:
  "budget_inv L K b \<Longrightarrow> 0 \<le> n \<Longrightarrow> n \<le> K \<Longrightarrow> budget_inv L (K - n) (budget_release n b) \<and> bb_open (budget_release n b) = bb_open b"
  by (auto simp: budget_inv_def budget_release_def Let_def)

lemma udp_inv_queue:
  assumes "udp_inv L s"
  shows "udp_inv L (udp_step s (UQueue n closed1 closed2))"
proof -
  obtain ok b' where r: "budget_reserve n (us_budget s) = (ok, b')" by fastforce
  have bi: "budget_inv L (sum_list (us_queue s)) (us_budget s)" using assms by (simp add: udp_inv_def backed_def)
  show ?thesis
  proof (cases ok)
    case False
    then have "b' = us_budget s" using r by (auto simp: budget_reserve_def split: if_splits)
    then show ?thesis using assms r False by (simp add: reserveQueueBytes_def)
  next
    case True
    note q = budget_inv_queue [OF bi, of n b']
    have K: "0 \<le> sum_list (us_queue s)" using bi by (simp add: budget_inv_def)
    then have u: "budget_inv L (sum_list (us_queue s)) (budget_release n b') \<and> bb_open (budget_release n b') = bb_open (us_budget s)"
      using budget_inv_unqueue [of L "sum_list (us_queue s) + n" b' n] q r True by simp
    show ?thesis using assms r True q u
      by (auto simp: reserveQueueBytes_def udp_inv_def backed_def add.commute)
  qed
qed

lemma udp_inv_unqueue:
  assumes "udp_inv L s" "i < length (us_queue s)"
  shows "udp_inv L (udp_step s (UUnqueue i))"
proof -
  let ?n = "us_queue s ! i"
  have bi: "budget_inv L (sum_list (us_queue s)) (us_budget s)" and a: "list_all (\<lambda>n. 0 \<le> n) (us_queue s)"
    using assms by (simp_all add: udp_inv_def backed_def)
  have n: "0 \<le> ?n" using a assms(2) by (simp add: list_all_length)
  have rest: "list_all (\<lambda>n. 0 \<le> n) (take i (us_queue s) @ drop (Suc i) (us_queue s))"
    using a by (auto simp: list_all_iff dest: in_set_takeD in_set_dropD)
  then have "0 \<le> sum_list (take i (us_queue s) @ drop (Suc i) (us_queue s))" unfolding list_all_iff by (intro sum_list_nonneg) auto
  then have le: "?n \<le> sum_list (us_queue s)" unfolding sum_list_remove_nth [OF assms(2)] by simp
  have z: "us_queue s ! i = 0" if "\<not> 0 < ?n" using that n by simp
  show ?thesis using assms rest budget_inv_unqueue [OF bi n le] n le z sum_list_remove_nth [OF assms(2)]
    by (auto simp: udp_inv_def backed_def releaseQueueBytes_def Let_def budget_release_def)
qed

lemma udp_step_inv:
  assumes "udp_inv L s"
  shows "udp_inv L (udp_step s a)"
proof (cases a)
  case (UPush f frag now)
  obtain oc r b where p: "udp_Push f frag now (us_re s) (us_budget s) = (oc, r, b)" by (metis surj_pair)
  have B: "backed (\<lambda>b. mset (bb_open b)) (budget_inv L (sum_list (us_queue s))) (ur_inner (us_re s)) (us_budget s) (mset (us_handed s))"
    using assms by (simp add: udp_inv_def)
  from udp_Push_backed [OF B p] show ?thesis using UPush p assms by (auto simp: udp_inv_def split: option.splits)
next
  case (UExpire now)
  then show ?thesis using assms
    by (auto simp: udp_inv_def udp_Expire_def Expire_def split: prod.splits intro: server_budget.drop_where_backed)
next
  case (URemoveFlow f)
  obtain any r b where "drop_where (\<lambda>p. fst (fst p) = f) byteReservation_Release (ur_inner (us_re s)) (us_budget s) = (any, r, b)"
    by (metis surj_pair)
  then show ?thesis using assms URemoveFlow
    by (auto simp: udp_inv_def udp_RemoveFlow_def nw2_RemoveFlow_def intro: server_budget.drop_where_backed)
next
  case UClose
  then show ?thesis using assms
    by (auto simp: udp_inv_def udp_Close_def split: prod.splits intro: Clear_backed)
qed (use assms udp_inv_consume udp_inv_queue udp_inv_unqueue in auto)

lemma udp_session_start_inv: "\<exists>s. udp_session_start maxSlots ttl limit = Ret s \<and> udp_inv limit s"
  by (auto simp: udp_session_start_def newUDPReassembler_def NewDatagramReassembler_def DefaultReassemblyConfig_def Let_def
      udp_inv_def backed_def budget_inv_def re_inv_def abs_re_def abs_slots_def)

interpretation udp_machine: invariant_machine "\<lambda>s. udp_session_start maxSlots ttl limit = Ret s" udp_step "udp_inv limit" for maxSlots ttl limit
  using udp_session_start_inv [of maxSlots ttl limit] by unfold_locales (auto simp: udp_step_inv)

lemma udp_inv_no_panic: "udp_inv L s \<Longrightarrow> fst (udp_Push f frag now (us_re s) (us_budget s)) \<noteq> Panic"
  using udp_Push_backed [of L "sum_list (us_queue s)" "us_re s" "us_budget s" "mset (us_handed s)" f frag now]
  by (cases "udp_Push f frag now (us_re s) (us_budget s)") (auto simp: udp_inv_def)

end
