(* ===== verification/Nw2_Auth.thy ===== *)
theory Nw2_Auth
  imports Nw2_Flow Wire3_Auth Wire3_Datagram
begin

section \<open>nw2 wire: authentication, results, UDP over TCP, TLS checks\<close>

text \<open>
  \<^verbatim>\<open>credentials.go\<close>, \<^verbatim>\<open>auth.go\<close>, \<^verbatim>\<open>result.go\<close>, \<^verbatim>\<open>uot.go\<close>, \<^verbatim>\<open>handshake.go\<close> and \<^verbatim>\<open>tls_pin.go\<close> of \<^verbatim>\<open>nw2/wire\<close>. Names that
  nw3 has too carry the prefix \<open>nw2_\<close>. Strings are byte lists.
\<close>

subsection \<open>Credentials and authentication frames\<close>

definition AuthKeyLen :: nat where "AuthKeyLen = 32"
definition nw2_MaxSharedKeyLen :: nat where "nw2_MaxSharedKeyLen = 255"
definition SessionIDLen :: nat where "SessionIDLen = 16"
definition AuthTagLen :: nat where "AuthTagLen = 16"
definition nw2_AuthFrameLen :: nat where "nw2_AuthFrameLen = SessionIDLen + AuthTagLen"
definition AuthTransportTLSTCP :: byte where "AuthTransportTLSTCP = 0x01"
definition AuthTransportQUIC :: byte where "AuthTransportQUIC = 0x02"

definition ErrInvalidAuthFrame :: error where "ErrInvalidAuthFrame = New ''nowhere: invalid authentication frame''"
definition ErrInvalidAuthTransport :: error where "ErrInvalidAuthTransport = New ''nowhere: invalid authentication transport''"
definition ErrMissingCredentials :: error where "ErrMissingCredentials = New ''nowhere: missing credentials''"
definition ErrInvalidSetupResult :: error where "ErrInvalidSetupResult = New ''nowhere: invalid setup result''"

definition DeriveAuthKey :: "byte list \<Rightarrow> byte list go" where
  "DeriveAuthKey sharedKey =
     (let salt = Sum256 (bytes_of ''nowhere/nw2/auth-root'');
          root = ExtractSHA256 salt sharedKey
      in ExpandSHA256 root (bytes_of ''authentication'') AuthKeyLen)"

record nw2_Credentials =
  nc_authKey :: "byte list"

definition nw2_NewCredentials :: "byte list \<Rightarrow> (error + nw2_Credentials) go" where
  "nw2_NewCredentials sharedKey =
     (if length sharedKey = 0 then Ret (Inl (New ''nowhere: missing shared key''))
      else if length sharedKey > nw2_MaxSharedKeyLen then Ret (Inl (New ''nowhere: shared key exceeds 255 bytes''))
      else (case DeriveAuthKey sharedKey of Panic \<Rightarrow> Panic | Ret key \<Rightarrow> Ret (Inr \<lparr>nc_authKey = key\<rparr>)))"

definition nw2_AuthTransport_Validate :: "byte \<Rightarrow> error option" where
  "nw2_AuthTransport_Validate t =
     (if t = AuthTransportTLSTCP \<or> t = AuthTransportQUIC then None else Some ErrInvalidAuthTransport)"

definition authTag :: "byte list \<Rightarrow> byte \<Rightarrow> byte list \<Rightarrow> byte list \<Rightarrow> byte list" where
  "authTag authKey transport exporter sessionID = take AuthTagLen (hmac_Sum authKey ([transport] @ exporter @ sessionID))"

text \<open>A session identifier is an array of 16 bytes and an exporter one of 32.\<close>

definition nw2_EncodeAuthFrame :: "nw2_Credentials option \<Rightarrow> byte \<Rightarrow> byte list \<Rightarrow> byte list \<Rightarrow> error + byte list" where
  "nw2_EncodeAuthFrame creds transport exporter sessionID =
     (case creds of
        None \<Rightarrow> Inl ErrMissingCredentials
      | Some c \<Rightarrow>
          (case nw2_AuthTransport_Validate transport of
             Some e \<Rightarrow> Inl e
           | None \<Rightarrow> Inr (sessionID @ authTag (nc_authKey c) transport exporter sessionID)))"

definition nw2_ValidateAuthFrame :: "byte list \<Rightarrow> nw2_Credentials option \<Rightarrow> byte \<Rightarrow> byte list \<Rightarrow> error + byte list" where
  "nw2_ValidateAuthFrame frame creds transport exporter =
     (case creds of
        None \<Rightarrow> Inl ErrMissingCredentials
      | Some c \<Rightarrow>
          (case nw2_AuthTransport_Validate transport of
             Some e \<Rightarrow> Inl e
           | None \<Rightarrow>
               if length frame \<noteq> nw2_AuthFrameLen then Inl ErrInvalidAuthFrame
               else
                 (let sessionID = take SessionIDLen frame;
                      want = authTag (nc_authKey c) transport exporter sessionID
                  in if drop SessionIDLen frame \<noteq> want then Inl ErrInvalidAuthFrame else Inr sessionID)))"

definition nw2_ReadAuthFrame :: "reader \<Rightarrow> nw2_Credentials option \<Rightarrow> byte \<Rightarrow> byte list \<Rightarrow> error + byte list \<times> reader" where
  "nw2_ReadAuthFrame r creds transport exporter =
     (case ReadFull nw2_AuthFrameLen r of
        Inl e \<Rightarrow> Inl e
      | Inr (frame, r) \<Rightarrow>
          (case nw2_ValidateAuthFrame frame creds transport exporter of
             Inl e \<Rightarrow> Inl e
           | Inr sessionID \<Rightarrow> Inr (sessionID, r)))"

subsection \<open>Setup results\<close>

definition setupResultMax :: byte where "setupResultMax = 7"

definition nw2_SetupResult_Validate :: "byte \<Rightarrow> error option" where
  "nw2_SetupResult_Validate r = (if r > setupResultMax then Some ErrInvalidSetupResult else None)"

definition EncodeSetupResult :: "byte \<Rightarrow> error + byte list" where
  "EncodeSetupResult r = (case nw2_SetupResult_Validate r of Some e \<Rightarrow> Inl e | None \<Rightarrow> Inr [r])"

definition nw2_parseSetupResult :: "byte \<Rightarrow> error + byte" where
  "nw2_parseSetupResult v = (if v > setupResultMax then Inl ErrInvalidSetupResult else Inr v)"

definition DecodeSetupResult :: "byte list \<Rightarrow> error + byte" where
  "DecodeSetupResult b = (if length b \<noteq> 1 then Inl ErrInvalidSetupResult else nw2_parseSetupResult (b ! 0))"

definition nw2_WriteSetupResult :: "writer \<Rightarrow> byte \<Rightarrow> error option \<times> writer" where
  "nw2_WriteSetupResult w r =
     (case EncodeSetupResult r of
        Inl e \<Rightarrow> (Some e, w)
      | Inr frame \<Rightarrow>
          (case WriteFull w frame of
             (Some e, w) \<Rightarrow> (Some (Wrapped ''nowhere: write setup result: '' e), w)
           | (None, w) \<Rightarrow> (None, w)))"

definition nw2_ReadSetupResult :: "reader \<Rightarrow> error + byte \<times> reader" where
  "nw2_ReadSetupResult r =
     (case ReadFull 1 r of
        Inl e \<Rightarrow> Inl e
      | Inr (b, r) \<Rightarrow> (case nw2_parseSetupResult (b ! 0) of Inl e \<Rightarrow> Inl e | Inr v \<Rightarrow> Inr (v, r)))"

subsection \<open>UDP over TCP\<close>

definition UoTPacketMax :: nat where "UoTPacketMax = 0xffff"

definition EncodeUDPPacketHeader :: "int \<Rightarrow> error + byte list" where
  "EncodeUDPPacketHeader payloadLen =
     (if payloadLen < 0 \<or> payloadLen > int UoTPacketMax then Inl (New ''nowhere: udp packet too large'')
      else Inr (PutUint16 (word_of_int payloadLen)))"

definition EncodeUDPPacket :: "byte list \<Rightarrow> error + byte list" where
  "EncodeUDPPacket payload =
     (if length payload > UoTPacketMax then Inl (New ''nowhere: udp packet too large'')
      else Inr (PutUint16 (word_of_nat (length payload)) @ payload))"

definition WriteUDPPacket :: "writer \<Rightarrow> byte list \<Rightarrow> error option \<times> writer" where
  "WriteUDPPacket w payload =
     (if length payload > UoTPacketMax then (Some (New ''nowhere: udp packet too large''), w)
      else
        (case WriteFull w (PutUint16 (word_of_nat (length payload))) of
           (Some e, w) \<Rightarrow> (Some (Wrapped ''nowhere: write udp packet header: '' e), w)
         | (None, w) \<Rightarrow>
             if length payload > 0 then
               (case WriteFull w payload of
                  (Some e, w) \<Rightarrow> (Some (Wrapped ''nowhere: write udp packet payload: '' e), w)
                | (None, w) \<Rightarrow> (None, w))
             else (None, w)))"

text \<open>\<open>None\<close> is the nil slice of a stream that ended before a header.\<close>

definition ReadUDPPacket :: "reader \<Rightarrow> error + byte list option \<times> reader" where
  "ReadUDPPacket r =
     (case ReadFull 1 r of
        Inl e \<Rightarrow> if e = EOF \<or> e = ErrUnexpectedEOF then Inr (None, r) else Inl e
      | Inr (hdr, r) \<Rightarrow>
          (case ReadFull 1 r of
             Inl e \<Rightarrow> Inl (Wrapped ''nowhere: truncated udp packet length: '' e)
           | Inr (second, r) \<Rightarrow>
               (case ReadFull (unat (Uint16 (hdr @ second))) r of
                  Inl e \<Rightarrow> Inl (Wrapped ''nowhere: truncated udp packet payload: '' e)
                | Inr (payload, r) \<Rightarrow> Inr (Some payload, r))))"

subsection \<open>The TLS handshake and certificate pins\<close>

definition VersionTLS13 :: u16 where "VersionTLS13 = 0x0304"
definition DefaultALPN :: "byte list" where "DefaultALPN = bytes_of ''nw2''"

record TLSHandshakeInfo =
  hi_TLSVersion :: u16
  hi_NegotiatedALPN :: "byte list"
  hi_Exporter :: "byte list"

definition NormalizeALPN :: "byte list \<Rightarrow> error + byte list" where
  "NormalizeALPN alpn =
     (let alpn = (if alpn = [] then DefaultALPN else alpn)
      in if length alpn < 1 \<or> length alpn > 255 then Inl (New ''nowhere: ALPN must contain 1..255 bytes'') else Inr alpn)"

definition TLSHandshakeInfo_Validate :: "TLSHandshakeInfo \<Rightarrow> byte list \<Rightarrow> error option" where
  "TLSHandshakeInfo_Validate i expectedALPN =
     (case NormalizeALPN expectedALPN of
        Inl e \<Rightarrow> Some e
      | Inr alpn \<Rightarrow>
          if hi_TLSVersion i \<noteq> VersionTLS13 then Some (Errorf ''nowhere: TLS 1.3 required, negotiated version %#x'' [uint (hi_TLSVersion i)])
          else if hi_NegotiatedALPN i \<noteq> alpn then Some (New ''nowhere: negotiated ALPN %q, expected %q'')
          else None)"

definition ErrInvalidCertificatePin :: error where
  "ErrInvalidCertificatePin = New ''nowhere: certificate pin must be 64 lowercase hex characters''"
definition ErrCertificatePinMismatch :: error where
  "ErrCertificatePinMismatch = New ''nowhere: leaf certificate SHA-256 pin mismatch''"

definition hex_digit :: "byte \<Rightarrow> bool" where
  "hex_digit c \<longleftrightarrow> \<not> ((c < 48 \<or> c > 57) \<and> (c < 97 \<or> c > 102))"

text \<open>\<^verbatim>\<open>hex.DecodeString\<close> fails on an odd length and on any byte that is not a digit, in either case.\<close>

definition hex_decodes :: "byte list \<Rightarrow> bool" where
  "hex_decodes s \<longleftrightarrow> even (length s) \<and> list_all (\<lambda>c. hex_digit c \<or> (65 \<le> c \<and> c \<le> 70)) s"

definition ParseCertificatePin :: "byte list \<Rightarrow> error + byte list" where
  "ParseCertificatePin pin =
     (if pin = [] \<or> pin = bytes_of ''none'' then Inr []
      else if length pin \<noteq> 32 * 2 then Inl ErrInvalidCertificatePin
      else if list_ex (\<lambda>c. \<not> hex_digit c) pin then Inl ErrInvalidCertificatePin
      else if \<not> hex_decodes pin then Inl ErrInvalidCertificatePin
      else Inr pin)"

definition hextable :: "nat \<Rightarrow> byte" where
  "hextable n = (if n < 10 then word_of_nat (48 + n) else word_of_nat (87 + n))"

definition EncodeToString :: "byte list \<Rightarrow> byte list" where
  "EncodeToString bs = concat (map (\<lambda>b. [hextable (unat b div 16), hextable (unat b mod 16)]) bs)"

definition LeafCertificateSHA256Hex :: "byte list \<Rightarrow> byte list" where
  "LeafCertificateSHA256Hex der = EncodeToString (Sum256 der)"

definition VerifyLeafCertSHA256 :: "byte list list \<Rightarrow> byte list \<Rightarrow> error option" where
  "VerifyLeafCertSHA256 rawCerts pin =
     (if pin = [] then None
      else if rawCerts = [] \<or> rawCerts ! 0 = [] then Some (Wrapped '': missing leaf certificate'' ErrCertificatePinMismatch)
      else if LeafCertificateSHA256Hex (rawCerts ! 0) \<noteq> pin then Some ErrCertificatePinMismatch
      else None)"

definition PeerCertificatePinVerifier :: "byte list \<Rightarrow> error + (byte list list \<Rightarrow> error option)" where
  "PeerCertificatePinVerifier pin =
     (case ParseCertificatePin pin of
        Inl e \<Rightarrow> Inl e
      | Inr parsed \<Rightarrow>
          if parsed = [] then Inl (New ''nowhere: empty certificate pin'')
          else Inr (\<lambda>rawCerts. VerifyLeafCertSHA256 rawCerts parsed))"

subsection \<open>What the codecs accept\<close>

lemmas auth2_consts = AuthKeyLen_def nw2_MaxSharedKeyLen_def SessionIDLen_def AuthTagLen_def nw2_AuthFrameLen_def
  AuthTransportTLSTCP_def AuthTransportQUIC_def

lemma length_authTag [simp]: "length (authTag k t ex sid) = 16"
  by (simp add: authTag_def AuthTagLen_def)

lemma DeriveAuthKey_HKDF:
  "DeriveAuthKey sharedKey =
     Ret (hkdf_expand (ExtractSHA256 (Sum256 (bytes_of ''nowhere/nw2/auth-root'')) sharedKey) (bytes_of ''authentication'') 32)"
  by (simp add: DeriveAuthKey_def ExpandSHA256_hkdf_expand AuthKeyLen_def)

lemma nw2_ReadAuthFrame_iff:
  "nw2_ReadAuthFrame r creds t ex = Inr (sid, r') \<longleftrightarrow>
     length sid = 16 \<and> (\<exists>frame. nw2_EncodeAuthFrame creds t ex sid = Inr frame \<and> r = prepend frame r')"
proof
  assume "nw2_ReadAuthFrame r creds t ex = Inr (sid, r')"
  then obtain frame where f: "length frame = 32" "r = prepend frame r'" "nw2_ValidateAuthFrame frame creds t ex = Inr sid"
    by (auto simp: nw2_ReadAuthFrame_def ReadFull_Inr auth2_consts split: sum.splits prod.splits)
  then obtain c where c: "creds = Some c" "nw2_AuthTransport_Validate t = None" "sid = take 16 frame"
      "drop 16 frame = authTag (nc_authKey c) t ex sid"
    by (auto simp: nw2_ValidateAuthFrame_def Let_def auth2_consts split: option.splits if_splits)
  have "frame = sid @ authTag (nc_authKey c) t ex sid" using c(3,4) by (metis append_take_drop_id)
  then show "length sid = 16 \<and> (\<exists>frame. nw2_EncodeAuthFrame creds t ex sid = Inr frame \<and> r = prepend frame r')"
    using f c by (auto simp: nw2_EncodeAuthFrame_def)
next
  assume a: "length sid = 16 \<and> (\<exists>frame. nw2_EncodeAuthFrame creds t ex sid = Inr frame \<and> r = prepend frame r')"
  then obtain c where "creds = Some c" "nw2_AuthTransport_Validate t = None" "r = prepend (sid @ authTag (nc_authKey c) t ex sid) r'"
    by (auto simp: nw2_EncodeAuthFrame_def split: option.splits)
  then show "nw2_ReadAuthFrame r creds t ex = Inr (sid, r')"
    using a by (simp add: nw2_ReadAuthFrame_def nw2_ValidateAuthFrame_def Let_def auth2_consts)
qed

lemma nw2_ReadSetupResult_iff:
  "nw2_ReadSetupResult r = Inr (v, r') \<longleftrightarrow> (\<exists>b. EncodeSetupResult v = Inr b \<and> r = prepend b r')"
proof
  assume "nw2_ReadSetupResult r = Inr (v, r')"
  then show "\<exists>b. EncodeSetupResult v = Inr b \<and> r = prepend b r'"
    by (auto simp: nw2_ReadSetupResult_def EncodeSetupResult_def nw2_SetupResult_Validate_def nw2_parseSetupResult_def ReadFull_1_Inr
        split: sum.splits prod.splits if_splits)
next
  assume "\<exists>b. EncodeSetupResult v = Inr b \<and> r = prepend b r'"
  then have v: "\<not> v > setupResultMax" and r: "r = prepend [v] r'"
    by (auto simp: EncodeSetupResult_def nw2_SetupResult_Validate_def split: if_splits)
  have "ReadFull 1 r = Inr ([v], r')" using r by (simp add: ReadFull_1_Inr)
  then show "nw2_ReadSetupResult r = Inr (v, r')" using v by (simp add: nw2_ReadSetupResult_def nw2_parseSetupResult_def)
qed

lemma EncodeUDPPacket_nw3: "EncodeUDPPacket p = Inr b \<longleftrightarrow> EncodeUoT p = Inr b"
  by (simp add: EncodeUDPPacket_def EncodeUoT_def UoTPacketMax_def udpPacketMax_def)

lemma ReadUDPPacket_nw3: "ReadUDPPacket r = Inr (Some p, r') \<longleftrightarrow> ReadUoT r = Inr (p, r')"
proof -
  have two: "ReadFull 2 r = Inr (h, q) \<longleftrightarrow> (\<exists>a b q1. h = [a, b] \<and> ReadFull 1 r = Inr ([a], q1) \<and> ReadFull 1 q1 = Inr ([b], q))" for h q
    by (auto simp: ReadFull_Inr prepend_append numeral_2_eq_2 length_Suc_conv prepend_def)
  show ?thesis
  proof (cases "ReadFull 2 r")
    case (Inl e)
    then have "\<not> (\<exists>a b q1 q. ReadFull 1 r = Inr ([a], q1) \<and> ReadFull 1 q1 = Inr ([b], q))" using two by auto
    then show ?thesis using Inl
      by (auto simp: ReadUDPPacket_def ReadUoT_def ReadFull_1_Inr split: sum.splits prod.splits if_splits)
  next
    case (Inr x)
    obtain h q where x: "x = (h, q)" by fastforce
    obtain a b q1 where r: "h = [a, b]" "ReadFull 1 r = Inr ([a], q1)" "ReadFull 1 q1 = Inr ([b], q)"
      using Inr x two by blast
    have "ReadFull 0 q = Inr ([], q)" by (simp add: ReadFull_def)
    then show ?thesis using Inr x r
      by (cases "unat (Uint16 [a, b]) = 0") (auto simp: ReadUDPPacket_def ReadUoT_def Let_def split: sum.splits prod.splits if_splits)
  qed
qed

text \<open>A pin in use is the digest of the one certificate it admits, in 64 lowercase digits.\<close>

lemma hextable_digit: "list_all (\<lambda>n. hex_digit (hextable n)) [0..<16]"
  by code_simp

lemma ParseCertificatePin_Inr:
  "ParseCertificatePin pin = Inr p \<longleftrightarrow>
     (pin = [] \<or> pin = bytes_of ''none'') \<and> p = [] \<or> p = pin \<and> length pin = 64 \<and> list_all hex_digit pin"
proof -
  have "length (bytes_of ''none'') = 4" by simp
  then have "length pin = 64 \<Longrightarrow> pin \<noteq> [] \<and> pin \<noteq> bytes_of ''none''" by auto
  moreover have "list_all hex_digit pin \<Longrightarrow> length pin = 64 \<Longrightarrow> hex_decodes pin" by (auto simp: hex_decodes_def list_all_iff)
  ultimately show ?thesis
    by (auto simp: ParseCertificatePin_def list_all_iff list_ex_iff split: if_splits)
qed

end
