(* ===== verification/Portal_Registry.thy ===== *)
theory Portal_Registry
  imports Nowhere_Prelude
begin

section \<open>nw3 portal: the registry of Egress connections\<close>

text \<open>
  \<^verbatim>\<open>portal/registry.go\<close>: the FIFO of registered Egress connections, and the life of a slot in
  \<^verbatim>\<open>serveEgressTLS\<close>, \<^verbatim>\<open>serveEgressConn\<close> and \<^verbatim>\<open>serveViaEgress\<close> of \<^verbatim>\<open>portal/server.go\<close>. A \<^verbatim>\<open>*egressSlot\<close> is
  a number into a store, so that a slot can be compared and shared as the code shares pointers;
  \<^verbatim>\<open>dead\<close> is whether its channel is closed. Each section under the lock is one step, and the threads
  interleave between the steps.
\<close>

subsection \<open>The model\<close>

record egressSlot =
  es_tls :: bool
  es_dead :: bool
  es_owned :: bool
  es_connClosed :: bool

record registry =
  rg_slots :: "nat list"
  rg_pending :: int
  rg_pendingN :: int

type_synonym slots = "nat \<Rightarrow> egressSlot"

definition newRegistry :: "int \<Rightarrow> registry" where
  "newRegistry pendingMax = \<lparr>rg_slots = [], rg_pending = 0, rg_pendingN = pendingMax\<rparr>"

definition slot_close :: "nat \<Rightarrow> slots \<Rightarrow> slots" where
  "slot_close i h = h(i := (h i)\<lparr>es_dead := True\<rparr>)"

definition slot_alive :: "nat \<Rightarrow> slots \<Rightarrow> bool" where
  "slot_alive i h \<longleftrightarrow> \<not> es_dead (h i)"

definition conn_close :: "nat \<Rightarrow> slots \<Rightarrow> slots" where
  "conn_close i h = h(i := (h i)\<lparr>es_connClosed := True\<rparr>)"

definition reservePending :: "registry \<Rightarrow> bool \<times> registry" where
  "reservePending r =
     (if rg_pending r \<ge> rg_pendingN r then (False, r) else (True, r\<lparr>rg_pending := rg_pending r + 1\<rparr>))"

definition releasePending :: "registry \<Rightarrow> registry" where
  "releasePending r = (if rg_pending r > 0 then r\<lparr>rg_pending := rg_pending r - 1\<rparr> else r)"

definition push :: "nat \<Rightarrow> registry \<Rightarrow> registry" where
  "push i r = r\<lparr>rg_slots := rg_slots r @ [i]\<rparr>"

definition reg_take :: "nat \<Rightarrow> bool \<Rightarrow> slots \<times> registry \<Rightarrow> bool \<times> slots \<times> registry" where
  "reg_take i release x =
     (case x of (h, r) \<Rightarrow>
        if es_owned (h i) then (False, h, r)
        else if i \<notin> set (rg_slots r) then (False, h, r)
        else
          (let r = r\<lparr>rg_slots := remove1 i (rg_slots r)\<rparr>;
               h = h(i := (h i)\<lparr>es_owned := True\<rparr>)
           in (True, h, if release \<and> es_tls (h i) \<and> rg_pending r > 0 then r\<lparr>rg_pending := rg_pending r - 1\<rparr> else r)))"

definition expire :: "nat \<Rightarrow> slots \<times> registry \<Rightarrow> bool \<times> slots \<times> registry" where
  "expire i x = reg_take i True x"

text \<open>What the timer of \<^verbatim>\<open>push\<close> does when it fires.\<close>

definition timer_fires :: "nat \<Rightarrow> slots \<times> registry \<Rightarrow> slots \<times> registry" where
  "timer_fires i x = (case expire i x of (True, h, r) \<Rightarrow> (conn_close i (slot_close i h), r) | (False, h, r) \<Rightarrow> (h, r))"

text \<open>The scan of \<^verbatim>\<open>claim\<close>: the slot found and whether it is TLS.\<close>

fun claim_scan :: "nat list \<Rightarrow> slots \<Rightarrow> registry \<Rightarrow> (nat \<times> bool) option \<times> slots \<times> registry" where
  "claim_scan [] h r = (None, h, r\<lparr>rg_slots := []\<rparr>)"
| "claim_scan (i # rest) h r =
     (if \<not> slot_alive i h \<or> es_owned (h i) then claim_scan rest h r
      else if es_tls (h i)
      then (Some (i, True), h(i := (h i)\<lparr>es_owned := True\<rparr>),
            let r = r\<lparr>rg_slots := rest\<rparr> in if rg_pending r > 0 then r\<lparr>rg_pending := rg_pending r - 1\<rparr> else r)
      else (Some (i, False), h, r\<lparr>rg_slots := rest @ [i]\<rparr>))"

datatype claimed = Claimed nat bool | NoClaim | ClaimWaits

definition claim :: "bool \<Rightarrow> slots \<times> registry \<Rightarrow> claimed \<times> slots \<times> registry" where
  "claim over x =
     (case x of (h, r) \<Rightarrow>
        (case claim_scan (rg_slots r) h r of
           (Some (i, t), h, r) \<Rightarrow> (Claimed i t, h, r)
         | (None, h, r) \<Rightarrow> (if over then NoClaim else ClaimWaits, h, r)))"

subsection \<open>The threads around it\<close>

text \<open>
  A TLS connection that reserved but has not answered yet is in \<open>eg_accepting\<close>; a TLS slot that was claimed
  and whose flow request is being written is in \<open>eg_writing\<close>. \<open>eg_claims\<close> is the history of TLS claims.
\<close>

record egress_sys =
  eg_slots :: slots
  eg_reg :: registry
  eg_next :: nat
  eg_accepting :: "nat list"
  eg_writing :: "nat list"
  eg_claims :: "nat list"

datatype egress_op =
    TlsReserve
  | TlsRegister nat bool
  | TlsWake nat bool
  | TimerFires nat
  | QuicRegister
  | QuicExit nat
  | ClaimRound bool
  | ClaimWritten nat bool

definition fresh_slot :: "bool \<Rightarrow> egressSlot" where
  "fresh_slot t = \<lparr>es_tls = t, es_dead = False, es_owned = False, es_connClosed = False\<rparr>"

definition egress_start :: "int \<Rightarrow> egress_sys" where
  "egress_start pendingMax =
     \<lparr>eg_slots = (\<lambda>_. fresh_slot False), eg_reg = newRegistry pendingMax, eg_next = 0, eg_accepting = [], eg_writing = [], eg_claims = []\<rparr>"

text \<open>\<^verbatim>\<open>serveEgressTLS\<close>, up to the wait: a refused connection is answered BUSY and never gets a slot.\<close>

definition tls_reserve :: "egress_sys \<Rightarrow> egress_sys" where
  "tls_reserve s =
     (case reservePending (eg_reg s) of
        (False, r) \<Rightarrow> s\<lparr>eg_reg := r\<rparr>
      | (True, r) \<Rightarrow>
          s\<lparr>eg_reg := r, eg_slots := (eg_slots s)(eg_next s := fresh_slot True), eg_next := Suc (eg_next s),
            eg_accepting := eg_next s # eg_accepting s\<rparr>)"

definition tls_register :: "nat \<Rightarrow> bool \<Rightarrow> egress_sys \<Rightarrow> egress_sys" where
  "tls_register i written s =
     (if i \<in> set (eg_accepting s) then
        (if written then s\<lparr>eg_reg := push i (eg_reg s), eg_accepting := remove1 i (eg_accepting s)\<rparr>
         else s\<lparr>eg_reg := releasePending (eg_reg s), eg_slots := conn_close i (eg_slots s), eg_accepting := remove1 i (eg_accepting s)\<rparr>)
      else s)"

text \<open>Its end: the wait is over when the server's context or the slot's channel is closed.\<close>

definition tls_wake :: "nat \<Rightarrow> bool \<Rightarrow> egress_sys \<Rightarrow> egress_sys" where
  "tls_wake i ended s =
     (if i < eg_next s \<and> es_tls (eg_slots s i) \<and> i \<notin> set (eg_accepting s) \<and> (ended \<or> es_dead (eg_slots s i)) then
        (case reg_take i True (eg_slots s, eg_reg s) of
           (True, h, r) \<Rightarrow> s\<lparr>eg_slots := conn_close i (slot_close i h), eg_reg := r\<rparr>
         | (False, h, r) \<Rightarrow> s\<lparr>eg_slots := h, eg_reg := r\<rparr>)
      else s)"

definition timer_step :: "nat \<Rightarrow> egress_sys \<Rightarrow> egress_sys" where
  "timer_step i s =
     (if i < eg_next s \<and> es_tls (eg_slots s i) \<and> i \<notin> set (eg_accepting s) then
        (case timer_fires i (eg_slots s, eg_reg s) of (h, r) \<Rightarrow> s\<lparr>eg_slots := h, eg_reg := r\<rparr>)
      else s)"

text \<open>\<^verbatim>\<open>serveEgressConn\<close>: one slot for the life of the QUIC connection.\<close>

definition quic_register :: "egress_sys \<Rightarrow> egress_sys" where
  "quic_register s =
     s\<lparr>eg_slots := (eg_slots s)(eg_next s := fresh_slot False), eg_reg := push (eg_next s) (eg_reg s), eg_next := Suc (eg_next s)\<rparr>"

definition quic_exit :: "nat \<Rightarrow> egress_sys \<Rightarrow> egress_sys" where
  "quic_exit i s =
     (if i < eg_next s \<and> \<not> es_tls (eg_slots s i) then
        (case reg_take i False (eg_slots s, eg_reg s) of (_, h, r) \<Rightarrow> s\<lparr>eg_slots := slot_close i h, eg_reg := r\<rparr>)
      else s)"

text \<open>The part of \<^verbatim>\<open>serveViaEgress\<close> that touches a slot: the claim, and the flow request on a TLS connection.\<close>

definition claim_round :: "bool \<Rightarrow> egress_sys \<Rightarrow> egress_sys" where
  "claim_round over s =
     (case claim over (eg_slots s, eg_reg s) of
        (Claimed i True, h, r) \<Rightarrow> s\<lparr>eg_slots := h, eg_reg := r, eg_writing := i # eg_writing s, eg_claims := i # eg_claims s\<rparr>
      | (_, h, r) \<Rightarrow> s\<lparr>eg_slots := h, eg_reg := r\<rparr>)"

definition claim_written :: "nat \<Rightarrow> bool \<Rightarrow> egress_sys \<Rightarrow> egress_sys" where
  "claim_written i ok s =
     (if i \<in> set (eg_writing s) then
        s\<lparr>eg_slots := (if ok then slot_close i (eg_slots s) else conn_close i (eg_slots s)), eg_writing := remove1 i (eg_writing s)\<rparr>
      else s)"

fun egress_step :: "egress_sys \<Rightarrow> egress_op \<Rightarrow> egress_sys" where
  "egress_step s TlsReserve = tls_reserve s"
| "egress_step s (TlsRegister i written) = tls_register i written s"
| "egress_step s (TlsWake i ended) = tls_wake i ended s"
| "egress_step s (TimerFires i) = timer_step i s"
| "egress_step s QuicRegister = quic_register s"
| "egress_step s (QuicExit i) = quic_exit i s"
| "egress_step s (ClaimRound over) = claim_round over s"
| "egress_step s (ClaimWritten i ok) = claim_written i ok s"

subsection \<open>The invariant\<close>

text \<open>
  Whatever is queued is open, alive and unowned, so the scan of a claim never skips a slot; the
  pending count is that of the TLS connections being accepted or queued; no TLS slot is claimed twice,
  and nobody closes a connection whose claim is at work.
\<close>

definition open_slot_at :: "slots \<Rightarrow> nat \<Rightarrow> bool" where
  "open_slot_at h i \<longleftrightarrow> \<not> es_dead (h i) \<and> \<not> es_owned (h i) \<and> \<not> es_connClosed (h i)"

definition tls_queued :: "slots \<Rightarrow> nat list \<Rightarrow> nat" where
  "tls_queued h xs = length (filter (\<lambda>i. es_tls (h i)) xs)"

definition claims_inv :: "egress_sys \<Rightarrow> bool" where
  "claims_inv s \<longleftrightarrow> distinct (eg_claims s) \<and> distinct (eg_writing s) \<and> set (eg_writing s) \<subseteq> set (eg_claims s) \<and>
     (\<forall>i \<in> set (eg_claims s). i < eg_next s \<and> es_tls (eg_slots s i) \<and> es_owned (eg_slots s i)) \<and>
     (\<forall>i \<in> set (eg_writing s). \<not> es_dead (eg_slots s i) \<and> \<not> es_connClosed (eg_slots s i))"

definition queue_inv :: "egress_sys \<Rightarrow> bool" where
  "queue_inv s \<longleftrightarrow> distinct (rg_slots (eg_reg s) @ eg_accepting s) \<and>
     (\<forall>i \<in> set (rg_slots (eg_reg s)) \<union> set (eg_accepting s). i < eg_next s \<and> open_slot_at (eg_slots s) i) \<and>
     (\<forall>i \<in> set (eg_accepting s). es_tls (eg_slots s i)) \<and>
     rg_pending (eg_reg s) = int (length (eg_accepting s) + tls_queued (eg_slots s) (rg_slots (eg_reg s))) \<and>
     rg_pending (eg_reg s) \<le> max 0 (rg_pendingN (eg_reg s))"

definition egress_inv :: "egress_sys \<Rightarrow> bool" where
  "egress_inv s \<longleftrightarrow> claims_inv s \<and> queue_inv s"

lemma claim_scan_head:
  "list_all (open_slot_at h) (i # rest) \<Longrightarrow>
   claim_scan (i # rest) h r =
     (if es_tls (h i)
      then (Some (i, True), h(i := (h i)\<lparr>es_owned := True\<rparr>),
            r\<lparr>rg_slots := rest, rg_pending := if rg_pending r > 0 then rg_pending r - 1 else rg_pending r\<rparr>)
      else (Some (i, False), h, r\<lparr>rg_slots := rest @ [i]\<rparr>))"
  by (auto simp: open_slot_at_def slot_alive_def Let_def)

lemma tls_queued_simps [simp]:
  "tls_queued h [] = 0"
  "tls_queued h (xs @ ys) = tls_queued h xs + tls_queued h ys"
  "tls_queued h (i # xs) = (if es_tls (h i) then Suc (tls_queued h xs) else tls_queued h xs)"
  by (simp_all add: tls_queued_def)

lemma tls_queued_cong: "(\<And>i. i \<in> set xs \<Longrightarrow> es_tls (h' i) = es_tls (h i)) \<Longrightarrow> tls_queued h' xs = tls_queued h xs"
  unfolding tls_queued_def by (metis (no_types, lifting) filter_cong)

lemma tls_queued_remove1:
  "i \<in> set xs \<Longrightarrow> tls_queued h xs = tls_queued h (remove1 i xs) + (if es_tls (h i) then 1 else 0)"
  by (induction xs) auto

lemma queue_invD:
  assumes "queue_inv s"
  shows "distinct (rg_slots (eg_reg s))" "distinct (eg_accepting s)"
    "\<And>i. i \<in> set (rg_slots (eg_reg s)) \<Longrightarrow> i < eg_next s \<and> open_slot_at (eg_slots s) i \<and> i \<notin> set (eg_accepting s)"
    "\<And>i. i \<in> set (eg_accepting s) \<Longrightarrow> i < eg_next s \<and> open_slot_at (eg_slots s) i \<and> es_tls (eg_slots s i)"
    "rg_pending (eg_reg s) = int (length (eg_accepting s) + tls_queued (eg_slots s) (rg_slots (eg_reg s)))"
    "rg_pending (eg_reg s) \<le> max 0 (rg_pendingN (eg_reg s))"
  using assms by (auto simp: queue_inv_def)

text \<open>A step that only marks one slot outside the queue keeps the queue.\<close>

lemma queue_inv_mark:
  assumes "queue_inv s" "i \<notin> set (rg_slots (eg_reg s))" "i \<notin> set (eg_accepting s)"
    "eg_slots s' = (eg_slots s)(i := x)" "eg_reg s' = eg_reg s" "eg_next s \<le> eg_next s'" "eg_accepting s' = eg_accepting s"
  shows "queue_inv s'"
proof -
  have "tls_queued (eg_slots s') (rg_slots (eg_reg s)) = tls_queued (eg_slots s) (rg_slots (eg_reg s))"
    using assms(2,4) by (intro tls_queued_cong) auto
  moreover have "eg_slots s' j = eg_slots s j" if "j \<in> set (rg_slots (eg_reg s)) \<union> set (eg_accepting s)" for j
    using that assms(2-4) by auto
  ultimately show ?thesis using assms(1,5-7) unfolding queue_inv_def open_slot_at_def
    by (auto dest: order.strict_trans2)
qed

lemma queue_inv_take:
  assumes q: "queue_inv s" and i: "i \<in> set (rg_slots (eg_reg s))" and rel: "release \<longleftrightarrow> es_tls (eg_slots s i)"
  shows "\<exists>p. reg_take i release (eg_slots s, eg_reg s) =
      (True, (eg_slots s)(i := (eg_slots s i)\<lparr>es_owned := True\<rparr>), (eg_reg s)\<lparr>rg_slots := remove1 i (rg_slots (eg_reg s)), rg_pending := p\<rparr>) \<and>
    queue_inv (s\<lparr>eg_reg := (eg_reg s)\<lparr>rg_slots := remove1 i (rg_slots (eg_reg s)), rg_pending := p\<rparr>\<rparr>)"
proof -
  note D = queue_invD [OF q]
  let ?p = "rg_pending (eg_reg s) - (if es_tls (eg_slots s i) then 1 else 0)"
  have t: "tls_queued (eg_slots s) (rg_slots (eg_reg s)) =
      tls_queued (eg_slots s) (remove1 i (rg_slots (eg_reg s))) + (if es_tls (eg_slots s i) then 1 else 0)"
    by (rule tls_queued_remove1 [OF i])
  have "reg_take i release (eg_slots s, eg_reg s) =
      (True, (eg_slots s)(i := (eg_slots s i)\<lparr>es_owned := True\<rparr>), (eg_reg s)\<lparr>rg_slots := remove1 i (rg_slots (eg_reg s)), rg_pending := ?p\<rparr>)"
    using D(3) [OF i] D(5) t i rel by (auto simp: reg_take_def open_slot_at_def Let_def)
  moreover have "queue_inv (s\<lparr>eg_reg := (eg_reg s)\<lparr>rg_slots := remove1 i (rg_slots (eg_reg s)), rg_pending := ?p\<rparr>\<rparr>)"
    using D t set_remove1_subset [of i "rg_slots (eg_reg s)"] by (auto simp: queue_inv_def)
  ultimately show ?thesis by blast
qed

lemma reg_take_absent:
  "queue_inv s \<Longrightarrow> i \<notin> set (rg_slots (eg_reg s)) \<Longrightarrow> reg_take i release (eg_slots s, eg_reg s) = (False, eg_slots s, eg_reg s)"
  by (simp add: reg_take_def)

lemma slots_then_reg: "s\<lparr>eg_slots := h, eg_reg := r\<rparr> = s\<lparr>eg_reg := r, eg_slots := h\<rparr>"
  by (cases s) simp

lemma egress_inv_mark:
  assumes "egress_inv s" "i \<notin> set (rg_slots (eg_reg s))" "i \<notin> set (eg_accepting s)" "i \<notin> set (eg_claims s)" "x = s\<lparr>eg_slots := (eg_slots s)(i := y)\<rparr>"
  shows "egress_inv x"
proof -
  have "queue_inv x" using assms by (intro queue_inv_mark [of s i x y]) (auto simp: egress_inv_def)
  moreover have "claims_inv x" using assms by (auto simp: claims_inv_def egress_inv_def)
  ultimately show ?thesis by (simp add: egress_inv_def)
qed

text \<open>Taking a queued slot away from the queue and closing it, as the timer and the standby thread do.\<close>

lemma egress_inv_taken:
  assumes "egress_inv s" "i \<in> set (rg_slots (eg_reg s))" "release \<longleftrightarrow> es_tls (eg_slots s i)"
    "reg_take i release (eg_slots s, eg_reg s) = (b, h, r)"
  shows "b" "egress_inv (s\<lparr>eg_slots := h(i := y), eg_reg := r\<rparr>)"
proof -
  have q: "queue_inv s" and c: "claims_inv s" using assms(1) by (simp_all add: egress_inv_def)
  obtain p where t: "reg_take i release (eg_slots s, eg_reg s) =
      (True, (eg_slots s)(i := (eg_slots s i)\<lparr>es_owned := True\<rparr>), (eg_reg s)\<lparr>rg_slots := remove1 i (rg_slots (eg_reg s)), rg_pending := p\<rparr>)"
    and q': "queue_inv (s\<lparr>eg_reg := (eg_reg s)\<lparr>rg_slots := remove1 i (rg_slots (eg_reg s)), rg_pending := p\<rparr>\<rparr>)"
    using queue_inv_take [OF q assms(2,3)] by blast
  let ?s = "s\<lparr>eg_reg := (eg_reg s)\<lparr>rg_slots := remove1 i (rg_slots (eg_reg s)), rg_pending := p\<rparr>\<rparr>"
  have n: "i \<notin> set (eg_claims s)" using c queue_invD(3) [OF q assms(2)] by (auto simp: claims_inv_def open_slot_at_def)
  have "egress_inv ?s" using q' c by (simp add: egress_inv_def claims_inv_def)
  from egress_inv_mark [OF this, of i "s\<lparr>eg_slots := h(i := y), eg_reg := r\<rparr>" y]
  show "egress_inv (s\<lparr>eg_slots := h(i := y), eg_reg := r\<rparr>)"
    using n t assms(4) queue_invD(1) [OF q] queue_invD(3) [OF q assms(2)] by (auto simp: slots_then_reg)
  show b using t assms(4) by simp
qed

lemma egress_take_close:
  assumes "egress_inv s" "release \<longleftrightarrow> es_tls (eg_slots s i)"
  shows "case reg_take i release (eg_slots s, eg_reg s) of
    (True, h, r) \<Rightarrow> egress_inv (s\<lparr>eg_slots := conn_close i (slot_close i h), eg_reg := r\<rparr>) \<and> egress_inv (s\<lparr>eg_slots := slot_close i h, eg_reg := r\<rparr>)
  | (False, h, r) \<Rightarrow> h = eg_slots s \<and> r = eg_reg s \<and> i \<notin> set (rg_slots (eg_reg s))"
proof -
  obtain b h r where t: "reg_take i release (eg_slots s, eg_reg s) = (b, h, r)" by (metis surj_pair)
  have q: "queue_inv s" using assms(1) by (simp add: egress_inv_def)
  show ?thesis
  proof (cases "i \<in> set (rg_slots (eg_reg s))")
    case True
    note e = egress_inv_taken [OF assms(1) True assms(2) t]
    have "conn_close i (slot_close i h) = h(i := (h i)\<lparr>es_dead := True, es_connClosed := True\<rparr>)" "slot_close i h = h(i := (h i)\<lparr>es_dead := True\<rparr>)"
      by (simp_all add: conn_close_def slot_close_def)
    then show ?thesis using t e by simp
  next
    case False
    then show ?thesis using reg_take_absent [OF q False, of release] t by auto
  qed
qed

lemma egress_tls_reserve: "egress_inv s \<Longrightarrow> egress_inv (tls_reserve s)"
proof -
  assume i: "egress_inv s"
  then have q: "queue_inv s" and c: "claims_inv s" by (simp_all add: egress_inv_def)
  note D = queue_invD [OF q]
  show ?thesis
  proof (cases "rg_pending (eg_reg s) \<ge> rg_pendingN (eg_reg s)")
    case True
    then show ?thesis using i by (simp add: tls_reserve_def reservePending_def)
  next
    case False
    let ?h = "(eg_slots s)(eg_next s := fresh_slot True)"
    let ?s = "s\<lparr>eg_reg := (eg_reg s)\<lparr>rg_pending := rg_pending (eg_reg s) + 1\<rparr>, eg_slots := ?h, eg_next := Suc (eg_next s),
      eg_accepting := eg_next s # eg_accepting s\<rparr>"
    have old: "i \<noteq> eg_next s" if "i \<in> set (rg_slots (eg_reg s)) \<union> set (eg_accepting s) \<union> set (eg_claims s)" for i
      using that D(3,4) c by (fastforce simp: claims_inv_def)
    have t: "tls_queued ?h (rg_slots (eg_reg s)) = tls_queued (eg_slots s) (rg_slots (eg_reg s))"
      using old by (intro tls_queued_cong) auto
    have "open_slot_at ?h (eg_next s)" "es_tls (?h (eg_next s))" by (simp_all add: open_slot_at_def fresh_slot_def)
    moreover have "?h i = eg_slots s i" if "i \<in> set (rg_slots (eg_reg s)) \<union> set (eg_accepting s) \<union> set (eg_claims s)" for i
      using old [OF that] by simp
    ultimately have "queue_inv ?s" using D t old False
      unfolding queue_inv_def by (auto simp: open_slot_at_def less_Suc_eq)
    moreover have "claims_inv ?s" using c old unfolding claims_inv_def by (auto simp: less_Suc_eq)
    ultimately show ?thesis using False by (simp add: tls_reserve_def reservePending_def egress_inv_def)
  qed
qed

lemma length_remove1_in: "i \<in> set xs \<Longrightarrow> length xs = Suc (length (remove1 i xs))"
  by (induction xs) auto

lemma egress_tls_register: "egress_inv s \<Longrightarrow> egress_inv (tls_register i written s)"
proof -
  assume inv: "egress_inv s"
  then have q: "queue_inv s" and c: "claims_inv s" by (simp_all add: egress_inv_def)
  note D = queue_invD [OF q]
  show ?thesis
  proof (cases "i \<in> set (eg_accepting s)")
    case False
    then show ?thesis using inv by (simp add: tls_register_def)
  next
    case True
    have len: "int (length (eg_accepting s)) = int (length (remove1 i (eg_accepting s))) + 1"
      using length_remove1_in [OF True] by simp
    have sub: "set (remove1 i (eg_accepting s)) = set (eg_accepting s) - {i}" using D(2) by simp
    have nq: "i \<notin> set (rg_slots (eg_reg s))" using D(3) True by blast
    let ?a = "s\<lparr>eg_reg := push i (eg_reg s), eg_accepting := remove1 i (eg_accepting s)\<rparr>"
    let ?r = "s\<lparr>eg_reg := releasePending (eg_reg s), eg_accepting := remove1 i (eg_accepting s)\<rparr>"
    have "queue_inv ?a"
      using D D(4) [OF True] nq len sub by (auto simp: queue_inv_def push_def)
    then have a: "egress_inv ?a" using c by (simp add: egress_inv_def claims_inv_def)
    have "rg_pending (eg_reg s) > 0" using D(5) len by simp
    then have "queue_inv ?r" using D len sub by (auto simp: queue_inv_def releasePending_def)
    then have r: "egress_inv ?r" using c by (simp add: egress_inv_def claims_inv_def)
    have nc: "i \<notin> set (eg_claims s)" using c D(4) [OF True] by (auto simp: claims_inv_def open_slot_at_def)
    have rs: "rg_slots (releasePending (eg_reg s)) = rg_slots (eg_reg s)" by (simp add: releasePending_def)
    have "egress_inv (?r\<lparr>eg_slots := (eg_slots ?r)(i := (eg_slots s i)\<lparr>es_connClosed := True\<rparr>)\<rparr>)"
      using nc nq sub rs by (intro egress_inv_mark [OF r _ _ _ refl]) auto
    moreover have "?r\<lparr>eg_slots := (eg_slots ?r)(i := (eg_slots s i)\<lparr>es_connClosed := True\<rparr>)\<rparr> =
        s\<lparr>eg_reg := releasePending (eg_reg s), eg_slots := conn_close i (eg_slots s), eg_accepting := remove1 i (eg_accepting s)\<rparr>"
      by (simp add: conn_close_def)
    ultimately show ?thesis using True a by (simp add: tls_register_def)
  qed
qed

lemma egress_tls_wake: "egress_inv s \<Longrightarrow> egress_inv (tls_wake i ended s)"
  using egress_take_close [of s True i] unfolding tls_wake_def by (auto split: prod.splits bool.splits)

lemma egress_timer: "egress_inv s \<Longrightarrow> egress_inv (timer_step i s)"
  using egress_take_close [of s True i] unfolding timer_step_def timer_fires_def expire_def by (auto split: prod.splits bool.splits)

lemma egress_quic_register: "egress_inv s \<Longrightarrow> egress_inv (quic_register s)"
proof -
  assume i: "egress_inv s"
  then have q: "queue_inv s" and c: "claims_inv s" by (simp_all add: egress_inv_def)
  note D = queue_invD [OF q]
  let ?h = "(eg_slots s)(eg_next s := fresh_slot False)"
  have old: "i \<noteq> eg_next s" if "i \<in> set (rg_slots (eg_reg s)) \<union> set (eg_accepting s) \<union> set (eg_claims s)" for i
    using that D(3,4) c by (fastforce simp: claims_inv_def)
  have t: "tls_queued ?h (rg_slots (eg_reg s)) = tls_queued (eg_slots s) (rg_slots (eg_reg s))"
    using old by (intro tls_queued_cong) auto
  have n: "open_slot_at ?h (eg_next s)" "\<not> es_tls (?h (eg_next s))" by (simp_all add: open_slot_at_def fresh_slot_def)
  have same: "?h i = eg_slots s i" if "i \<in> set (rg_slots (eg_reg s)) \<union> set (eg_accepting s) \<union> set (eg_claims s)" for i
    using old [OF that] by simp
  have "queue_inv (quic_register s)" using D t old n same
    unfolding queue_inv_def quic_register_def push_def by (auto simp: open_slot_at_def less_Suc_eq)
  moreover have "claims_inv (quic_register s)" using c old unfolding claims_inv_def quic_register_def by (auto simp: less_Suc_eq)
  ultimately show ?thesis by (simp add: egress_inv_def)
qed

lemma egress_quic_exit: "egress_inv s \<Longrightarrow> egress_inv (quic_exit i s)"
proof (cases "i < eg_next s \<and> \<not> es_tls (eg_slots s i)")
  case True
  assume inv: "egress_inv s"
  have na: "i \<notin> set (eg_accepting s)" "i \<notin> set (eg_claims s)"
    using inv True by (auto simp: egress_inv_def queue_inv_def claims_inv_def)
  obtain b h r where t: "reg_take i False (eg_slots s, eg_reg s) = (b, h, r)" by (metis surj_pair)
  show ?thesis
  proof (cases b)
    case True
    then show ?thesis using egress_take_close [OF inv, of False i] t \<open>i < eg_next s \<and> \<not> es_tls (eg_slots s i)\<close>
      by (simp add: quic_exit_def)
  next
    case False
    then have "h = eg_slots s" "r = eg_reg s" "i \<notin> set (rg_slots (eg_reg s))"
      using egress_take_close [OF inv, of False i] t True by simp_all
    then show ?thesis using egress_inv_mark [OF inv _ na refl] t True False by (simp add: quic_exit_def slot_close_def)
  qed
qed (auto simp: quic_exit_def)

text \<open>A claim on a queue that is not empty gets its head.\<close>

lemma claim_head:
  assumes "egress_inv s"
  shows "claim over (eg_slots s, eg_reg s) =
    (case rg_slots (eg_reg s) of
       [] \<Rightarrow> (if over then NoClaim else ClaimWaits, eg_slots s, eg_reg s)
     | i # rest \<Rightarrow>
         if es_tls (eg_slots s i)
         then (Claimed i True, (eg_slots s)(i := (eg_slots s i)\<lparr>es_owned := True\<rparr>),
               (eg_reg s)\<lparr>rg_slots := rest, rg_pending := rg_pending (eg_reg s) - 1\<rparr>)
         else (Claimed i False, eg_slots s, (eg_reg s)\<lparr>rg_slots := rest @ [i]\<rparr>))"
proof (cases "rg_slots (eg_reg s)")
  case Nil
  then have "(eg_reg s)\<lparr>rg_slots := []\<rparr> = eg_reg s" by (cases "eg_reg s") simp
  then show ?thesis using Nil by (simp add: claim_def)
next
  case (Cons i rest)
  have q: "queue_inv s" using assms by (simp add: egress_inv_def)
  have "list_all (open_slot_at (eg_slots s)) (i # rest)" using queue_invD(3) [OF q] Cons by (auto simp: list_all_iff)
  note h = claim_scan_head [OF this]
  have "rg_pending (eg_reg s) > 0" if "es_tls (eg_slots s i)" using queue_invD(5) [OF q] Cons that by simp
  then show ?thesis using Cons by (simp add: claim_def h del: claim_scan.simps)
qed

lemma egress_claim_round: "egress_inv s \<Longrightarrow> egress_inv (claim_round over s)"
proof -
  assume inv: "egress_inv s"
  then have q: "queue_inv s" and c: "claims_inv s" by (simp_all add: egress_inv_def)
  note D = queue_invD [OF q]
  show ?thesis
  proof (cases "rg_slots (eg_reg s)")
    case Nil
    then show ?thesis using inv by (simp add: claim_round_def claim_head)
  next
    case (Cons i rest)
    show ?thesis
    proof (cases "es_tls (eg_slots s i)")
      case False
      have "queue_inv (s\<lparr>eg_reg := (eg_reg s)\<lparr>rg_slots := rest @ [i]\<rparr>\<rparr>)"
        using D Cons False by (auto simp: queue_inv_def)
      then show ?thesis using inv c Cons False by (simp add: claim_round_def claim_head egress_inv_def claims_inv_def)
    next
      case True
      let ?s = "s\<lparr>eg_reg := (eg_reg s)\<lparr>rg_slots := rest, rg_pending := rg_pending (eg_reg s) - 1\<rparr>\<rparr>"
      let ?h = "(eg_slots s)(i := (eg_slots s i)\<lparr>es_owned := True\<rparr>)"
      let ?t = "s\<lparr>eg_slots := ?h, eg_reg := (eg_reg s)\<lparr>rg_slots := rest, rg_pending := rg_pending (eg_reg s) - 1\<rparr>,
        eg_writing := i # eg_writing s, eg_claims := i # eg_claims s\<rparr>"
      have o: "i < eg_next s" "open_slot_at (eg_slots s) i" "i \<notin> set (eg_accepting s)" using D(3) Cons by auto
      have "queue_inv ?s" using D Cons True by (auto simp: queue_inv_def)
      then have "queue_inv ?t"
        using o D(1) Cons by (intro queue_inv_mark [of ?s i ?t "(eg_slots s i)\<lparr>es_owned := True\<rparr>"]) auto
      moreover have "i \<notin> set (eg_claims s)" using c o(2) by (auto simp: claims_inv_def open_slot_at_def)
      then have "claims_inv ?t" using c o True by (auto simp: claims_inv_def open_slot_at_def)
      ultimately show ?thesis using inv Cons True by (simp add: claim_round_def claim_head egress_inv_def)
    qed
  qed
qed

lemma egress_claim_written: "egress_inv s \<Longrightarrow> egress_inv (claim_written i ok s)"
proof (cases "i \<in> set (eg_writing s)")
  case True
  assume inv: "egress_inv s"
  then have q: "queue_inv s" and c: "claims_inv s" by (simp_all add: egress_inv_def)
  have "es_owned (eg_slots s i)" using c True by (auto simp: claims_inv_def)
  then have n: "i \<notin> set (rg_slots (eg_reg s))" "i \<notin> set (eg_accepting s)"
    using queue_invD(3,4) [OF q] by (auto simp: open_slot_at_def)
  define y where "y = (if ok then (eg_slots s i)\<lparr>es_dead := True\<rparr> else (eg_slots s i)\<lparr>es_connClosed := True\<rparr>)"
  have y: "(if ok then slot_close i (eg_slots s) else conn_close i (eg_slots s)) = (eg_slots s)(i := y)"
    "es_tls y = es_tls (eg_slots s i)" "es_owned y = es_owned (eg_slots s i)"
    by (simp_all add: y_def slot_close_def conn_close_def)
  have eq: "claim_written i ok s = s\<lparr>eg_slots := (eg_slots s)(i := y), eg_writing := remove1 i (eg_writing s)\<rparr>"
    unfolding claim_written_def y(1) by (simp add: True)
  have "queue_inv (claim_written i ok s)" unfolding eq by (rule queue_inv_mark [OF q n]) simp_all
  moreover have "claims_inv (claim_written i ok s)" unfolding eq using c True y(2,3) by (auto simp: claims_inv_def)
  ultimately show ?thesis by (simp add: egress_inv_def)
qed (simp add: claim_written_def)

lemma egress_inv_start: "egress_inv (egress_start n)"
  by (simp add: egress_inv_def claims_inv_def queue_inv_def egress_start_def newRegistry_def)

interpretation egress: invariant_machine "\<lambda>s. s = egress_start n" egress_step egress_inv for n
proof
  show "egress_inv (egress_step s a)" if "egress_inv s" for s a
    using that egress_tls_reserve egress_tls_register egress_tls_wake egress_timer egress_quic_register egress_quic_exit
      egress_claim_round egress_claim_written by (cases a) auto
qed (simp add: egress_inv_start)

text \<open>
  When the flow request on a claimed TLS connection cannot be written, the connection is closed but
  the slot's channel is not, and nothing closes it later: the thread that stands by in
  \<^verbatim>\<open>serveEgressTLS\<close> waits for the end of the server.
\<close>

definition orphaned :: "egress_sys \<Rightarrow> nat \<Rightarrow> bool" where
  "orphaned s i \<longleftrightarrow> i \<in> set (eg_claims s) \<and> i \<notin> set (eg_writing s) \<and> \<not> es_dead (eg_slots s i)"

lemma failed_claim_orphans:
  "i \<in> set (eg_writing s) \<Longrightarrow> egress_inv s \<Longrightarrow> orphaned (egress_step s (ClaimWritten i False)) i"
  by (auto simp: orphaned_def claim_written_def conn_close_def egress_inv_def claims_inv_def)

lemma take_owned: "es_owned (h i) \<Longrightarrow> reg_take i release (h, r) = (False, h, r)"
  by (simp add: reg_take_def)

lemma take_other: "j \<noteq> i \<Longrightarrow> reg_take i release (h, r) = (b, h', r') \<Longrightarrow> h' j = h j"
  by (auto simp: reg_take_def Let_def split: if_splits)

lemma orphan_stays:
  assumes inv: "egress_inv s" and o: "orphaned s j"
  shows "orphaned (egress_step s a) j"
proof -
  have c: "j < eg_next s" "es_tls (eg_slots s j)" "es_owned (eg_slots s j)"
    using assms by (auto simp: orphaned_def egress_inv_def claims_inv_def)
  have t: "\<not> es_dead (h' j)" if "reg_take i release (eg_slots s, eg_reg s) = (b, h', r')" for i release b h' r'
    using that take_other [of j i release "eg_slots s" "eg_reg s"] take_owned [of "eg_slots s" j release "eg_reg s"] c o
    by (cases "i = j") (auto simp: orphaned_def)
  have f: "reg_take j release (eg_slots s, eg_reg s) \<noteq> (True, h', r')" for release h' r'
    using take_owned [of "eg_slots s" j] c by auto
  show ?thesis
  proof (cases a)
    case (ClaimRound over)
    have "j \<noteq> hd (rg_slots (eg_reg s))" if "rg_slots (eg_reg s) \<noteq> []"
      using that inv c(3) by (auto simp: egress_inv_def queue_inv_def open_slot_at_def)
    then show ?thesis using ClaimRound o inv
      by (cases "rg_slots (eg_reg s)") (auto simp: claim_round_def claim_head orphaned_def)
  next
    case (TlsWake i ended)
    then show ?thesis using o t [of i True] f
      by (auto simp: tls_wake_def orphaned_def conn_close_def slot_close_def split: prod.splits bool.splits if_splits)
  next
    case (TimerFires i)
    then show ?thesis using o t [of i True] f
      by (auto simp: timer_step_def timer_fires_def expire_def orphaned_def conn_close_def slot_close_def split: prod.splits bool.splits if_splits)
  next
    case (QuicExit i)
    then show ?thesis using o t [of i False] c
      by (auto simp: quic_exit_def orphaned_def slot_close_def split: prod.splits)
  qed (use o c in \<open>auto simp: tls_reserve_def reservePending_def tls_register_def quic_register_def claim_written_def
      orphaned_def conn_close_def slot_close_def fresh_slot_def dest: notin_set_remove1\<close>)
qed

lemma orphan_forever:
  "egress_inv s \<Longrightarrow> orphaned s j \<Longrightarrow> \<not> es_dead (eg_slots (run egress_step s ops) j)"
proof (induction ops arbitrary: s)
  case (Cons a ops)
  then show ?case using orphan_stays egress.step_inv by simp
qed (simp add: orphaned_def)

text \<open>Such a run exists: reserve, register, claim, fail to write.\<close>

lemma orphan_reachable:
  "orphaned (run egress_step (egress_start 1) [TlsReserve, TlsRegister 0 True, ClaimRound False, ClaimWritten 0 False]) 0"
  by (simp add: egress_start_def newRegistry_def tls_reserve_def reservePending_def tls_register_def push_def claim_round_def claim_def
      slot_alive_def fresh_slot_def claim_written_def conn_close_def orphaned_def)

subsection \<open>The order of the queue\<close>

text \<open>
  The slots that join the queue in a run, in the order they do: a TLS connection whose registration was
  answered, a QUIC connection that registers, and a QUIC connection that a claim sends back. \<open>remdups\<close> keeps
  the last occurrence, so the queue is the unowned ones among them, each where it joined last.
\<close>

fun joins :: "egress_sys \<Rightarrow> egress_op \<Rightarrow> nat list" where
  "joins s (TlsRegister i written) = (if written \<and> i \<in> set (eg_accepting s) then [i] else [])"
| "joins s QuicRegister = [eg_next s]"
| "joins s (ClaimRound over) = (case fst (claim over (eg_slots s, eg_reg s)) of Claimed i False \<Rightarrow> [i] | _ \<Rightarrow> [])"
| "joins s _ = []"

fun joined :: "egress_sys \<Rightarrow> egress_op list \<Rightarrow> nat list" where
  "joined s [] = []"
| "joined s (a # as) = joins s a @ joined (egress_step s a) as"

definition order_inv :: "nat list \<Rightarrow> egress_sys \<Rightarrow> bool" where
  "order_inv L s \<longleftrightarrow>
     rg_slots (eg_reg s) = filter (\<lambda>i. \<not> es_owned (eg_slots s i)) (remdups L) \<and>
     set L \<subseteq> {..<eg_next s} - set (eg_accepting s)"

lemma remdups_snoc: "remdups (xs @ [x]) = filter (\<lambda>y. y \<noteq> x) (remdups xs) @ [x]"
  by (induction xs) auto

lemma filter_upd_owned:
  "filter (\<lambda>j. \<not> es_owned ((h(i := x)) j)) xs =
     (if es_owned x then filter (\<lambda>j. j \<noteq> i) (filter (\<lambda>j. \<not> es_owned (h j)) xs)
      else filter (\<lambda>j. j = i \<or> \<not> es_owned (h j)) xs)"
  by (auto intro: filter_cong)

text \<open>A step that leaves the queue, the slots that joined and the accepted ones alone but for one mark.\<close>

lemma order_inv_same:
  assumes "order_inv L s" "rg_slots (eg_reg s') = rg_slots (eg_reg s)" "eg_next s \<le> eg_next s'"
    "set (eg_accepting s') \<subseteq> set (eg_accepting s) \<union> {eg_next s..}"
    "\<And>i. i \<in> set L \<Longrightarrow> es_owned (eg_slots s' i) = es_owned (eg_slots s i)"
  shows "order_inv L s'"
proof -
  have "filter (\<lambda>i. \<not> es_owned (eg_slots s' i)) (remdups L) = filter (\<lambda>i. \<not> es_owned (eg_slots s i)) (remdups L)"
    using assms(5) by (intro filter_cong) auto
  then show ?thesis using assms(1-4) by (fastforce simp: order_inv_def)
qed

text \<open>An owned slot leaves the queue.\<close>

lemma order_inv_leave:
  assumes "order_inv L s" "rg_slots (eg_reg s') = filter (\<lambda>j. j \<noteq> i) (rg_slots (eg_reg s))"
    "eg_next s' = eg_next s" "eg_accepting s' = eg_accepting s" "eg_slots s' = (eg_slots s)(i := x)" "es_owned x"
  shows "order_inv L s'"
  using assms by (auto simp: order_inv_def filter_upd_owned intro!: filter_cong)

text \<open>A slot joins at the tail, for the first time or again.\<close>

lemma order_inv_join:
  assumes "order_inv L s" "rg_slots (eg_reg s') = filter (\<lambda>j. j \<noteq> i) (rg_slots (eg_reg s)) @ [i]"
    "eg_next s \<le> eg_next s'" "set (eg_accepting s') \<subseteq> set (eg_accepting s) - {i}" "i < eg_next s'"
    "\<not> es_owned (eg_slots s' i)" "\<And>j. j \<in> set L \<Longrightarrow> j \<noteq> i \<Longrightarrow> es_owned (eg_slots s' j) = es_owned (eg_slots s j)"
  shows "order_inv (L @ [i]) s'"
proof -
  have "filter (\<lambda>j. \<not> es_owned (eg_slots s' j)) (filter (\<lambda>j. j \<noteq> i) (remdups L)) =
      filter (\<lambda>j. j \<noteq> i) (filter (\<lambda>j. \<not> es_owned (eg_slots s j)) (remdups L))"
    using assms(7) by (auto intro!: filter_cong)
  then show ?thesis using assms(1-6) by (fastforce simp: order_inv_def remdups_snoc)
qed

lemma remove1_filter: "distinct xs \<Longrightarrow> remove1 i xs = filter (\<lambda>j. j \<noteq> i) xs"
  by (simp add: distinct_remove1_removeAll removeAll_filter_not_eq) (metis (mono_tags, lifting) filter_cong)

lemma order_take:
  assumes "order_inv L s" "distinct (rg_slots (eg_reg s))" "reg_take i release (eg_slots s, eg_reg s) = (b, h, r)"
  shows "es_owned x = es_owned (h i) \<Longrightarrow> order_inv L (s\<lparr>eg_slots := h(i := x), eg_reg := r\<rparr>)"
    "order_inv L (s\<lparr>eg_slots := h, eg_reg := r\<rparr>)"
proof -
  show t: "order_inv L (s\<lparr>eg_slots := h(i := x), eg_reg := r\<rparr>)" if x: "es_owned x = es_owned (h i)" for x
  proof (cases b)
    case True
    then have "h = (eg_slots s)(i := (eg_slots s i)\<lparr>es_owned := True\<rparr>)" "rg_slots r = remove1 i (rg_slots (eg_reg s))"
      using assms(3) by (auto simp: reg_take_def Let_def split: if_splits)
    then show ?thesis using assms(2) x
      by (intro order_inv_leave [OF assms(1), where i = i and x = x]) (auto simp: remove1_filter)
  next
    case False
    then have "h = eg_slots s" "r = eg_reg s" using assms(3) by (auto simp: reg_take_def Let_def split: if_splits)
    then show ?thesis using x by (intro order_inv_same [OF assms(1)]) auto
  qed
  show "order_inv L (s\<lparr>eg_slots := h, eg_reg := r\<rparr>)" using t [of "h i"] by simp
qed

text \<open>The three ways into the queue, then the steps.\<close>

lemma filter_absent: "i \<notin> set xs \<Longrightarrow> filter (\<lambda>j. j \<noteq> i) xs = xs"
  by (auto intro!: filter_True)

lemma order_tls_register:
  assumes inv: "egress_inv s" and ord: "order_inv L s"
  shows "order_inv (L @ joins s (TlsRegister i written)) (tls_register i written s)"
proof (cases "written \<and> i \<in> set (eg_accepting s)")
  case True
  have q: "queue_inv s" using inv by (simp add: egress_inv_def)
  note D = queue_invD [OF q]
  have "i \<notin> set (rg_slots (eg_reg s))" using D(3) True by blast
  then show ?thesis using True D(2) D(4) [of i]
    by (auto simp: filter_absent tls_register_def push_def open_slot_at_def intro!: order_inv_join [OF ord])
next
  case False
  then show ?thesis
    by (auto simp: tls_register_def releasePending_def conn_close_def dest: notin_set_remove1
        split: if_splits intro!: order_inv_same [OF ord])
qed

lemma order_quic_register:
  assumes inv: "egress_inv s" and ord: "order_inv L s"
  shows "order_inv (L @ joins s QuicRegister) (quic_register s)"
proof -
  have "queue_inv s" using inv by (simp add: egress_inv_def)
  then have "eg_next s \<notin> set (rg_slots (eg_reg s))" "eg_next s \<notin> set (eg_accepting s)" using queue_invD(3,4) by blast+
  then show ?thesis
    by (auto simp: filter_absent quic_register_def push_def fresh_slot_def intro!: order_inv_join [OF ord])
qed

lemma order_claim_round:
  assumes inv: "egress_inv s" and ord: "order_inv L s"
  shows "order_inv (L @ joins s (ClaimRound over)) (claim_round over s)"
proof (cases "rg_slots (eg_reg s)")
  case Nil
  then show ?thesis using ord by (simp add: claim_round_def claim_head [OF inv])
next
  case (Cons i rest)
  have q: "queue_inv s" using inv by (simp add: egress_inv_def)
  have r: "filter (\<lambda>j. j \<noteq> i) rest = rest" "i < eg_next s" "i \<notin> set (eg_accepting s)" "\<not> es_owned (eg_slots s i)"
    using queue_invD(1,3) [OF q] Cons by (auto simp: open_slot_at_def filter_absent)
  show ?thesis
  proof (cases "es_tls (eg_slots s i)")
    case True
    then show ?thesis using Cons r(1)
      by (auto simp: claim_round_def claim_head [OF inv] intro!: order_inv_leave [OF ord])
  next
    case False
    then show ?thesis using Cons r
      by (auto simp: claim_round_def claim_head [OF inv] intro!: order_inv_join [OF ord])
  qed
qed

lemma order_step:
  assumes inv: "egress_inv s" and ord: "order_inv L s"
  shows "order_inv (L @ joins s a) (egress_step s a)"
proof -
  have d: "distinct (rg_slots (eg_reg s))" using inv queue_invD(1) by (simp add: egress_inv_def)
  have L: "eg_next s \<notin> set L" using ord by (auto simp: order_inv_def)
  note take = order_take [OF ord d]
  show ?thesis
  proof (cases a)
    case TlsReserve
    then show ?thesis using L
      by (auto simp: tls_reserve_def reservePending_def split: if_splits intro!: order_inv_same [OF ord])
  next
    case (TlsWake i ended)
    obtain b h r where t: "reg_take i True (eg_slots s, eg_reg s) = (b, h, r)" by (metis surj_pair)
    then show ?thesis using TlsWake ord take [OF t]
      by (auto simp: tls_wake_def conn_close_def slot_close_def split: bool.splits)
  next
    case (TimerFires i)
    obtain b h r where t: "reg_take i True (eg_slots s, eg_reg s) = (b, h, r)" by (metis surj_pair)
    then show ?thesis using TimerFires ord take [OF t]
      by (auto simp: timer_step_def timer_fires_def expire_def conn_close_def slot_close_def split: bool.splits)
  next
    case (QuicExit i)
    obtain b h r where t: "reg_take i False (eg_slots s, eg_reg s) = (b, h, r)" by (metis surj_pair)
    then show ?thesis using QuicExit ord take [OF t] by (auto simp: quic_exit_def slot_close_def)
  next
    case (ClaimWritten i ok)
    then show ?thesis
      by (auto simp: claim_written_def slot_close_def conn_close_def split: if_splits intro!: order_inv_same [OF ord])
  qed (simp_all add: order_tls_register order_quic_register order_claim_round inv ord del: joins.simps)
qed

lemma queue_order_run:
  "egress_inv s \<Longrightarrow> order_inv L s \<Longrightarrow> order_inv (L @ joined s ops) (run egress_step s ops)"
proof (induction ops arbitrary: s L)
  case (Cons a ops)
  then show ?case using Cons.IH [OF egress.step_inv order_step] by fastforce
qed simp

lemma order_reachable:
  "rg_slots (eg_reg (run egress_step (egress_start n) ops)) =
     filter (\<lambda>i. \<not> es_owned (eg_slots (run egress_step (egress_start n) ops) i)) (remdups (joined (egress_start n) ops))"
proof -
  have "order_inv [] (egress_start n)" by (simp add: order_inv_def egress_start_def newRegistry_def)
  from queue_order_run [OF egress_inv_start this] show ?thesis by (simp add: order_inv_def)
qed

subsection \<open>A claimed connection\<close>

text \<open>Only the end of its claim's write changes a claimed slot.\<close>

lemma take_keeps_owned: "reg_take i release (h, r) = (b, h', r') \<Longrightarrow> es_owned (h j) \<Longrightarrow> h' j = h j"
  using take_other [of j i] take_owned [of h i] by (cases "i = j") auto

lemma claimed_slot_step:
  assumes inv: "egress_inv s" and j: "j \<in> set (eg_claims s)"
  shows "eg_slots (egress_step s a) j =
    (case a of
       ClaimWritten i ok \<Rightarrow>
         if i = j \<and> i \<in> set (eg_writing s) then (if ok then (eg_slots s j)\<lparr>es_dead := True\<rparr> else (eg_slots s j)\<lparr>es_connClosed := True\<rparr>)
         else eg_slots s j
     | _ \<Rightarrow> eg_slots s j)"
proof -
  have c: "j < eg_next s" "es_tls (eg_slots s j)" "es_owned (eg_slots s j)" "j \<notin> set (eg_accepting s)" "j \<notin> set (rg_slots (eg_reg s))"
    using assms by (auto simp: egress_inv_def claims_inv_def queue_inv_def open_slot_at_def)
  have t: "h' j = eg_slots s j" "b \<Longrightarrow> i \<noteq> j" if "reg_take i release (eg_slots s, eg_reg s) = (b, h', r')" for i release b h' r'
    using take_keeps_owned [OF that c(3)] that take_owned [of "eg_slots s" j release] c(3) by auto
  show ?thesis
  proof (cases a)
    case (ClaimRound over)
    then show ?thesis using c(5)
      by (cases "rg_slots (eg_reg s)") (auto simp: claim_round_def claim_head [OF inv])
  qed (use c in \<open>auto simp: tls_reserve_def reservePending_def tls_register_def quic_register_def claim_written_def tls_wake_def
      timer_step_def timer_fires_def expire_def quic_exit_def conn_close_def slot_close_def dest: t split: prod.splits bool.splits\<close>)
qed

end
