(* ===== verification/Admission.thy ===== *)
theory Admission
  imports Multiset_Prelude
begin

section \<open>Admission control\<close>

text \<open>
  Four bounded counters share one contract: \<^verbatim>\<open>admit\<close> and \<^verbatim>\<open>gate\<close> of \<^verbatim>\<open>portal/server.go\<close>, which bound
  the unauthenticated connections and the flows of an nw3 portal, and \<^verbatim>\<open>unauthenticatedAdmission\<close>
  (\<^verbatim>\<open>nw2/server/admission.go\<close>) and \<^verbatim>\<open>handshakeGate\<close> (\<^verbatim>\<open>nw2/server/handshake_gate.go\<close>) of nw2. The contract is
  the locale \<open>admission\<close>: the counter is a multiset of holders. A wait on a condition variable is one round
  of its loop: it takes, gives up, or goes to sleep and runs again when woken.
\<close>

subsection \<open>nw3: admit and gate\<close>

definition maxUnauth :: int where "maxUnauth = 256"
definition maxPerSource :: int where "maxPerSource = 32"
definition maxFlows :: int where "maxFlows = 4096"

text \<open>A map from keys to counts, in which an absent key reads as 0.\<close>

definition count_at :: "'k \<Rightarrow> ('k \<times> int) list \<Rightarrow> int" where
  "count_at k m = (case map_of m k of None \<Rightarrow> 0 | Some n \<Rightarrow> n)"

record admit =
  ad_n :: int
  ad_per :: "(string \<times> int) list"

definition takeLocked :: "string \<Rightarrow> admit \<Rightarrow> bool \<times> admit" where
  "takeLocked key a =
     (if ad_n a \<ge> maxUnauth \<or> count_at key (ad_per a) \<ge> maxPerSource then (False, a)
      else (True, a\<lparr>ad_n := ad_n a + 1, ad_per := AList.update key (count_at key (ad_per a) + 1) (ad_per a)\<rparr>))"

definition admit_take :: "string \<Rightarrow> admit \<Rightarrow> bool \<times> admit" where
  "admit_take key a = takeLocked key a"

datatype 'a round = Took 'a | GaveUp 'a | Sleeping 'a

text \<open>\<open>over\<close>: the context has ended or the deadline has passed.\<close>

definition admit_wait :: "string \<Rightarrow> bool \<Rightarrow> admit \<Rightarrow> admit round" where
  "admit_wait key over a =
     (case takeLocked key a of
        (True, a) \<Rightarrow> Took a
      | (False, a) \<Rightarrow> if over then GaveUp a else Sleeping a)"

definition admit_release :: "string \<Rightarrow> admit \<Rightarrow> admit" where
  "admit_release key a =
     (let a = (if ad_n a > 0 then a\<lparr>ad_n := ad_n a - 1\<rparr> else a)
      in if count_at key (ad_per a) > 0 then a\<lparr>ad_per := AList.update key (count_at key (ad_per a) - 1) (ad_per a)\<rparr> else a)"

definition gate_acquire :: "int \<Rightarrow> bool \<times> int" where
  "gate_acquire n = (if n \<ge> maxFlows then (False, n) else (True, n + 1))"

definition gate_try :: "int \<Rightarrow> bool" where
  "gate_try n \<longleftrightarrow> n < maxFlows"

text \<open>\<open>ended\<close>: the context has ended; \<open>late\<close>: the bound has passed.\<close>

definition gate_wait :: "bool \<Rightarrow> bool \<Rightarrow> int \<Rightarrow> bool option" where
  "gate_wait ended late n =
     (if n \<ge> maxFlows \<and> \<not> ended \<and> \<not> late then None else Some (n < maxFlows \<and> \<not> ended))"

definition gate_release :: "int \<Rightarrow> int" where
  "gate_release n = (if n > 0 then n - 1 else n)"

subsection \<open>nw2: pre-authentication admission and the handshake gate\<close>

definition DefaultMaxUnauthenticatedConnections :: int where "DefaultMaxUnauthenticatedConnections = 256"
definition DefaultMaxUnauthenticatedPerSource :: int where "DefaultMaxUnauthenticatedPerSource = 32"
definition DefaultMaxConcurrentHandshakes :: int where "DefaultMaxConcurrentHandshakes = DefaultMaxUnauthenticatedPerSource div 2"

text \<open>
  A \<^verbatim>\<open>net.IP\<close> is a byte slice. \<open>Other\<close> is an address of another type, with the address
  \<^verbatim>\<open>net.ParseIP\<close> finds in its text, if any.
\<close>

datatype net_addr = TCPAddr "byte list" | UDPAddr "byte list" | IPAddr "byte list" | Other "byte list option"

definition To4 :: "byte list \<Rightarrow> byte list option" where
  "To4 ip =
     (if length ip = 4 then Some ip
      else if length ip = 16 \<and> take 10 ip = replicate 10 0 \<and> ip ! 10 = 0xff \<and> ip ! 11 = 0xff then Some (drop 12 ip)
      else None)"

definition To16 :: "byte list \<Rightarrow> byte list option" where
  "To16 ip =
     (if length ip = 4 then Some (replicate 10 0 @ [0xff, 0xff] @ ip)
      else if length ip = 16 then Some ip
      else None)"

record sourceKey =
  sk_v4 :: "byte list"
  sk_v6 :: u64
  sk_is6 :: bool

definition sourceKeyFromAddr :: "net_addr option \<Rightarrow> sourceKey option" where
  "sourceKeyFromAddr addr =
     (case addr of
        None \<Rightarrow> None
      | Some a \<Rightarrow>
          (case (case a of TCPAddr ip \<Rightarrow> Some ip | UDPAddr ip \<Rightarrow> Some ip | IPAddr ip \<Rightarrow> Some ip | Other ip \<Rightarrow> ip) of
             None \<Rightarrow> None
           | Some ip \<Rightarrow>
               (case To4 ip of
                  Some v4 \<Rightarrow> Some \<lparr>sk_v4 = v4, sk_v6 = 0, sk_is6 = False\<rparr>
                | None \<Rightarrow>
                    (case To16 ip of
                       None \<Rightarrow> None
                     | Some v6 \<Rightarrow>
                         Some \<lparr>sk_v4 = replicate 4 0,
                               sk_v6 = foldl (\<lambda>hi b. push_bit 8 hi OR ucast b) 0 (take 8 v6), sk_is6 = True\<rparr>))))"

record unauthenticatedAdmission =
  ua_maxTotal :: int
  ua_maxSource :: int
  ua_total :: int
  ua_perSource :: "(sourceKey \<times> int) list"

definition newUnauthenticatedAdmission :: "int \<Rightarrow> int \<Rightarrow> unauthenticatedAdmission" where
  "newUnauthenticatedAdmission maxTotal maxSource =
     \<lparr>ua_maxTotal = (if maxTotal \<le> 0 then DefaultMaxUnauthenticatedConnections else maxTotal),
      ua_maxSource = (if maxSource \<le> 0 then DefaultMaxUnauthenticatedPerSource else maxSource),
      ua_total = 0, ua_perSource = []\<rparr>"

record admissionGuard =
  ag_key :: "sourceKey option"
  ag_released :: bool

text \<open>The guard's \<^verbatim>\<open>key\<close> and \<^verbatim>\<open>hasKey\<close> are one optional key.\<close>

definition tryAcquire :: "sourceKey option \<Rightarrow> unauthenticatedAdmission \<Rightarrow> admissionGuard option \<times> unauthenticatedAdmission" where
  "tryAcquire key a =
     (if ua_total a \<ge> ua_maxTotal a then (None, a)
      else
        (case key of
           None \<Rightarrow> (Some \<lparr>ag_key = None, ag_released = False\<rparr>, a\<lparr>ua_total := ua_total a + 1\<rparr>)
         | Some k \<Rightarrow>
             if count_at k (ua_perSource a) \<ge> ua_maxSource a then (None, a)
             else (Some \<lparr>ag_key = Some k, ag_released = False\<rparr>,
                   a\<lparr>ua_perSource := AList.update k (count_at k (ua_perSource a) + 1) (ua_perSource a), ua_total := ua_total a + 1\<rparr>)))"

definition guard_Release :: "admissionGuard \<Rightarrow> unauthenticatedAdmission \<Rightarrow> admissionGuard \<times> unauthenticatedAdmission" where
  "guard_Release g a =
     (if ag_released g then (g, a)
      else
        (let g = g\<lparr>ag_released := True\<rparr>;
             a = (if ua_total a > 0 then a\<lparr>ua_total := ua_total a - 1\<rparr> else a)
         in (g, case ag_key g of
                  None \<Rightarrow> a
                | Some k \<Rightarrow>
                    (let cnt = count_at k (ua_perSource a)
                     in if cnt \<le> 1 then a\<lparr>ua_perSource := AList.delete k (ua_perSource a)\<rparr>
                        else a\<lparr>ua_perSource := AList.update k (cnt - 1) (ua_perSource a)\<rparr>))))"

text \<open>
  The slots channel of a handshake gate is its length and its capacity; \<^verbatim>\<open>acquire\<close> sleeps while the
  channel is full, and a select with both cases ready may take either (\<open>pick\<close>).
\<close>

record handshakeGate =
  hg_len :: int
  hg_cap :: int

definition newHandshakeGate :: "int \<Rightarrow> handshakeGate" where
  "newHandshakeGate limit = \<lparr>hg_len = 0, hg_cap = (if limit \<le> 0 then DefaultMaxConcurrentHandshakes else limit)\<rparr>"

definition handshake_acquire :: "bool \<Rightarrow> bool \<Rightarrow> handshakeGate \<Rightarrow> handshakeGate round" where
  "handshake_acquire ended pick g =
     (if hg_len g < hg_cap g \<and> \<not> (ended \<and> pick) then Took (g\<lparr>hg_len := hg_len g + 1\<rparr>)
      else if ended then GaveUp g
      else Sleeping g)"

text \<open>The release function, with the state of its \<^verbatim>\<open>sync.Once\<close>.\<close>

definition handshake_release :: "bool \<Rightarrow> handshakeGate \<Rightarrow> bool \<times> handshakeGate" where
  "handshake_release fired g = (if fired then (True, g) else (True, g\<lparr>hg_len := hg_len g - 1\<rparr>))"

subsection \<open>The contract\<close>

datatype 'k adm_op = Enter 'k | Leave nat

text \<open>A client enters under a key, and one that got in leaves again, in any order.\<close>

fun adm_step :: "('k \<Rightarrow> 's \<Rightarrow> bool \<times> 's) \<Rightarrow> ('k \<Rightarrow> 's \<Rightarrow> 's) \<Rightarrow> 's \<times> 'k list \<Rightarrow> 'k adm_op \<Rightarrow> 's \<times> 'k list" where
  "adm_step take_op release_op (s, held) (Enter k) =
     (case take_op k s of (True, s) \<Rightarrow> (s, k # held) | (False, s) \<Rightarrow> (s, held))"
| "adm_step take_op release_op (s, held) (Leave i) =
     (if i < length held then (release_op (held ! i) s, take i held @ drop (Suc i) held) else (s, held))"

locale admission =
  fixes take_op :: "'k \<Rightarrow> 's \<Rightarrow> bool \<times> 's"
    and release_op :: "'k \<Rightarrow> 's \<Rightarrow> 's"
    and holds :: "'s \<Rightarrow> 'k multiset \<Rightarrow> bool"
    and room :: "'k multiset \<Rightarrow> 'k \<Rightarrow> bool"
  assumes take_room: "holds s H \<Longrightarrow> fst (take_op k s) = room H k"
    and take_ok: "holds s H \<Longrightarrow> room H k \<Longrightarrow> holds (snd (take_op k s)) (add_mset k H)"
    and take_no: "holds s H \<Longrightarrow> \<not> room H k \<Longrightarrow> snd (take_op k s) = s"
    and release_ok: "holds s H \<Longrightarrow> k \<in># H \<Longrightarrow> holds (release_op k s) (H - {#k#})"
begin

definition adm_inv :: "'s \<times> 'k list \<Rightarrow> bool" where
  "adm_inv x \<longleftrightarrow> holds (fst x) (mset (snd x))"

lemma adm_step_inv: "adm_inv x \<Longrightarrow> adm_inv (adm_step take_op release_op x a)"
proof (cases a)
  case (Enter k)
  assume i: "adm_inv x"
  obtain s held where x: "x = (s, held)" by fastforce
  have h: "holds s (mset held)" using i x by (simp add: adm_inv_def)
  show ?thesis
    using take_room [OF h, of k] take_ok [OF h, of k] take_no [OF h, of k] h Enter x
    by (cases "take_op k s"; cases "room (mset held) k") (auto simp: adm_inv_def)
next
  case (Leave i)
  assume "adm_inv x"
  then show ?thesis using Leave release_ok [of "fst x" "mset (snd x)" "snd x ! i"]
    by (cases x) (auto simp: adm_inv_def mset_remove_nth simp del: mset_append)
qed

lemma run_holds:
  "holds s H \<Longrightarrow> H = {#} \<Longrightarrow> run (adm_step take_op release_op) (s, []) ops = (s', held) \<Longrightarrow> holds s' (mset held)"
proof -
  assume h: "holds s H" "H = {#}" and r: "run (adm_step take_op release_op) (s, []) ops = (s', held)"
  have "adm_inv (run (adm_step take_op release_op) x ops)" if "adm_inv x" for x
    using that by (induction ops arbitrary: x) (auto simp: adm_step_inv)
  from this [of "(s, [])"] show ?thesis using h r by (simp add: adm_inv_def)
qed

text \<open>Whoever fits is let in, and what left makes room again.\<close>

lemma leave_enter:
  assumes "holds s H" "k \<in># H" "room (H - {#k#}) k"
  shows "fst (take_op k (release_op k s))"
  using take_room [OF release_ok [OF assms(1,2)]] assms(3) by simp

end

subsection \<open>The four counters keep it\<close>

definition per_source :: "('k \<times> int) list \<Rightarrow> ('k \<Rightarrow> nat) \<Rightarrow> bool" where
  "per_source m c \<longleftrightarrow> distinct (map fst m) \<and> (\<forall>k. count_at k m = int (c k))"

lemma count_at_update [simp]: "count_at k (AList.update k' n m) = (if k = k' then n else count_at k m)"
  by (simp add: count_at_def al_lookup)

lemma count_at_delete: "distinct (map fst m) \<Longrightarrow> count_at k (AList.delete k' m) = (if k = k' then 0 else count_at k m)"
  by (simp add: count_at_def al_lookup)

lemma per_source_update:
  "per_source m c \<Longrightarrow> n = int (c' k) \<Longrightarrow> (\<And>j. j \<noteq> k \<Longrightarrow> c' j = c j) \<Longrightarrow> per_source (AList.update k n m) c'"
  by (auto simp: per_source_def al_distinct)

lemma per_source_delete:
  "per_source m c \<Longrightarrow> c' k = 0 \<Longrightarrow> (\<And>j. j \<noteq> k \<Longrightarrow> c' j = c j) \<Longrightarrow> per_source (AList.delete k m) c'"
  by (auto simp: per_source_def al_distinct count_at_delete)

definition admit_holds :: "admit \<Rightarrow> string multiset \<Rightarrow> bool" where
  "admit_holds a H \<longleftrightarrow> ad_n a = int (size H) \<and> per_source (ad_per a) (count H) \<and>
     int (size H) \<le> maxUnauth \<and> (\<forall>k. int (count H k) \<le> maxPerSource)"

definition admit_room :: "string multiset \<Rightarrow> string \<Rightarrow> bool" where
  "admit_room H k \<longleftrightarrow> int (size H) < maxUnauth \<and> int (count H k) < maxPerSource"

lemma admit_holds_count: "admit_holds a H \<Longrightarrow> count_at k (ad_per a) = int (count H k)"
  by (simp add: admit_holds_def per_source_def)

interpretation nw3_admit: admission admit_take admit_release admit_holds admit_room
proof
  show "fst (admit_take k a) = admit_room H k" if "admit_holds a H" for a H k
    using that admit_holds_count [OF that] by (auto simp: admit_take_def takeLocked_def admit_room_def admit_holds_def)
  show "admit_holds (snd (admit_take k a)) (add_mset k H)" if h: "admit_holds a H" and r: "admit_room H k" for a H k
  proof -
    have "admit_take k a = (True, a\<lparr>ad_n := ad_n a + 1, ad_per := AList.update k (int (count H k) + 1) (ad_per a)\<rparr>)"
      using h r admit_holds_count [OF h] by (simp add: admit_take_def takeLocked_def admit_room_def admit_holds_def)
    moreover have "per_source (AList.update k (int (count H k) + 1) (ad_per a)) (count (add_mset k H))"
      using h by (intro per_source_update [of _ "count H"]) (auto simp: admit_holds_def)
    ultimately show ?thesis using h r by (auto simp: admit_holds_def admit_room_def)
  qed
  show "snd (admit_take k a) = a" if "admit_holds a H" "\<not> admit_room H k" for a H k
    using that admit_holds_count [OF that(1)] by (auto simp: admit_take_def takeLocked_def admit_room_def admit_holds_def)
  show "admit_holds (admit_release k a) (H - {#k#})" if h: "admit_holds a H" and k: "k \<in># H" for a H k
  proof -
    have c: "0 < count H k" "0 < size H" using k by (auto simp: nonempty_has_size [symmetric])
    have "admit_release k a = a\<lparr>ad_n := ad_n a - 1, ad_per := AList.update k (int (count H k) - 1) (ad_per a)\<rparr>"
      using h c admit_holds_count [OF h] by (simp add: admit_release_def Let_def admit_holds_def)
    moreover have "per_source (AList.update k (int (count H k) - 1) (ad_per a)) (count (H - {#k#}))"
      using h c by (intro per_source_update [of _ "count H"]) (auto simp: admit_holds_def)
    moreover have "int (count (H - {#k#}) j) \<le> maxPerSource" for j
      using h by (intro count_remove_le) (simp add: admit_holds_def)
    ultimately show ?thesis using h c size_remove [OF k] by (simp add: admit_holds_def del: count_diff)
  qed
qed

text \<open>nw2: the key is optional, and a source without holders leaves no entry behind.\<close>

definition nw2_take :: "sourceKey option \<Rightarrow> unauthenticatedAdmission \<Rightarrow> bool \<times> unauthenticatedAdmission" where
  "nw2_take key a = (case tryAcquire key a of (g, a) \<Rightarrow> (g \<noteq> None, a))"

definition nw2_release :: "sourceKey option \<Rightarrow> unauthenticatedAdmission \<Rightarrow> unauthenticatedAdmission" where
  "nw2_release key a = snd (guard_Release \<lparr>ag_key = key, ag_released = False\<rparr> a)"

definition source_cap :: "int \<Rightarrow> sourceKey option multiset \<Rightarrow> bool" where
  "source_cap S H \<longleftrightarrow> (\<forall>k. int (count H (Some k)) \<le> S)"

definition nw2_holds :: "int \<Rightarrow> int \<Rightarrow> unauthenticatedAdmission \<Rightarrow> sourceKey option multiset \<Rightarrow> bool" where
  "nw2_holds T S a H \<longleftrightarrow> ua_maxTotal a = T \<and> ua_maxSource a = S \<and> ua_total a = int (size H) \<and>
     per_source (ua_perSource a) (\<lambda>k. count H (Some k)) \<and> list_all (\<lambda>p. 0 < snd p) (ua_perSource a) \<and>
     int (size H) \<le> T \<and> source_cap S H"

definition nw2_room :: "int \<Rightarrow> int \<Rightarrow> sourceKey option multiset \<Rightarrow> sourceKey option \<Rightarrow> bool" where
  "nw2_room T S H key \<longleftrightarrow> int (size H) < T \<and> (case key of None \<Rightarrow> True | Some k \<Rightarrow> int (count H (Some k)) < S)"

lemma nw2_holds_count: "nw2_holds T S a H \<Longrightarrow> count_at k (ua_perSource a) = int (count H (Some k))"
  by (simp add: nw2_holds_def per_source_def)

lemma list_all_update: "list_all P m \<Longrightarrow> P (k, n) \<Longrightarrow> list_all P (AList.update k n m)"
  using set_al_update [of k n m] by (auto simp: list_all_iff)

lemma list_all_delete: "list_all P m \<Longrightarrow> list_all P (AList.delete k m)"
  by (auto simp: list_all_iff set_al_delete)

lemma nw2_take_holds:
  assumes h: "nw2_holds T S a H" and r: "nw2_room T S H key"
  shows "nw2_holds T S (snd (nw2_take key a)) (add_mset key H)"
proof (cases key)
  case None
  have "nw2_take key a = (True, a\<lparr>ua_total := ua_total a + 1\<rparr>)"
    using None h r by (simp add: nw2_take_def tryAcquire_def nw2_room_def nw2_holds_def)
  then show ?thesis using None h r by (simp add: nw2_holds_def nw2_room_def source_cap_def)
next
  case (Some k)
  let ?m = "AList.update k (int (count H (Some k)) + 1) (ua_perSource a)"
  have "nw2_take key a = (True, a\<lparr>ua_perSource := ?m, ua_total := ua_total a + 1\<rparr>)"
    using Some h r nw2_holds_count [OF h] by (simp add: nw2_take_def tryAcquire_def nw2_room_def nw2_holds_def)
  moreover have "per_source ?m (\<lambda>j. count (add_mset key H) (Some j))"
    using h Some by (intro per_source_update [of _ "\<lambda>k. count H (Some k)"]) (auto simp: nw2_holds_def)
  moreover have "list_all (\<lambda>p. 0 < snd p) ?m" using h by (intro list_all_update) (auto simp: nw2_holds_def)
  ultimately show ?thesis using Some h r by (auto simp: nw2_holds_def nw2_room_def source_cap_def)
qed

lemma nw2_release_holds:
  assumes h: "nw2_holds T S a H" and k: "key \<in># H"
  shows "nw2_holds T S (nw2_release key a) (H - {#key#})"
proof -
  have z: "0 < size H" using k by (auto simp: nonempty_has_size [symmetric])
  have cap: "source_cap S (H - {#key#})" using h by (auto simp: nw2_holds_def source_cap_def intro!: count_remove_le simp del: count_diff)
  show ?thesis
  proof (cases key)
    case None
    have "nw2_release key a = a\<lparr>ua_total := ua_total a - 1\<rparr>"
      using None h z by (simp add: nw2_release_def guard_Release_def Let_def nw2_holds_def)
    then show ?thesis using None h size_remove [OF k] cap by (simp add: nw2_holds_def)
  next
    case (Some j)
    define m where "m = (if count H (Some j) \<le> 1 then AList.delete j (ua_perSource a)
      else AList.update j (int (count H (Some j)) - 1) (ua_perSource a))"
    have c: "0 < count H (Some j)" using k Some by simp
    have "nw2_release key a = a\<lparr>ua_total := ua_total a - 1, ua_perSource := m\<rparr>"
      using Some h z c nw2_holds_count [OF h] by (auto simp: nw2_release_def guard_Release_def Let_def nw2_holds_def m_def)
    moreover have "per_source m (\<lambda>i. count (H - {#key#}) (Some i))"
      using h Some c unfolding m_def
      by (auto simp: nw2_holds_def intro!: per_source_update [of _ "\<lambda>k. count H (Some k)"] per_source_delete [of _ "\<lambda>k. count H (Some k)"])
    moreover have "list_all (\<lambda>p. 0 < snd p) m" using h c unfolding m_def by (auto simp: nw2_holds_def intro: list_all_update list_all_delete)
    ultimately show ?thesis using h size_remove [OF k] cap by (simp add: nw2_holds_def)
  qed
qed

interpretation nw2_admission: admission nw2_take nw2_release "nw2_holds T S" "nw2_room T S" for T S
proof
  show "fst (nw2_take k a) = nw2_room T S H k" if "nw2_holds T S a H" for a H k
    using that nw2_holds_count [OF that] by (auto simp: nw2_take_def tryAcquire_def nw2_room_def nw2_holds_def split: option.split)
  show "snd (nw2_take k a) = a" if "nw2_holds T S a H" "\<not> nw2_room T S H k" for a H k
    using that nw2_holds_count [OF that(1)] by (auto simp: nw2_take_def tryAcquire_def nw2_room_def nw2_holds_def split: option.splits)
qed (simp_all add: nw2_take_holds nw2_release_holds)

text \<open>A guard that was released does nothing more.\<close>

lemma guard_Release_twice: "guard_Release (fst (guard_Release g a)) b = (fst (guard_Release g a), b)"
  by (simp add: guard_Release_def Let_def)

definition gate_holds :: "int \<Rightarrow> unit multiset \<Rightarrow> bool" where
  "gate_holds n H \<longleftrightarrow> n = int (size H) \<and> n \<le> maxFlows"

interpretation flow_gate: admission "\<lambda>_. gate_acquire" "\<lambda>_. gate_release" gate_holds "\<lambda>H _. int (size H) < maxFlows"
  by unfold_locales (auto simp: gate_acquire_def gate_release_def gate_holds_def size_remove dest: size_remove)

definition handshake_take :: "unit \<Rightarrow> handshakeGate \<Rightarrow> bool \<times> handshakeGate" where
  "handshake_take u g = (case handshake_acquire False False g of Took g \<Rightarrow> (True, g) | GaveUp g \<Rightarrow> (False, g) | Sleeping g \<Rightarrow> (False, g))"

definition handshake_holds :: "int \<Rightarrow> handshakeGate \<Rightarrow> unit multiset \<Rightarrow> bool" where
  "handshake_holds c g H \<longleftrightarrow> hg_cap g = c \<and> hg_len g = int (size H) \<and> hg_len g \<le> c"

interpretation handshakes: admission handshake_take "\<lambda>_ g. snd (handshake_release False g)" "handshake_holds c" "\<lambda>H _. int (size H) < c" for c
  by unfold_locales (auto simp: handshake_take_def handshake_acquire_def handshake_release_def handshake_holds_def size_remove)

subsection \<open>Sources\<close>

text \<open>Addresses of one IPv6 /64, and the two forms of an IPv4 address, are one source; others are not.\<close>

lemma fold_bytes: "foldl (\<lambda>hi b. push_bit 8 hi OR ucast b) (0 :: u64) bs = word_of_nat (be_nat bs)"
proof (induction bs rule: rev_induct)
  case (snoc b bs)
  have "push_bit 8 (word_of_nat (be_nat bs) :: u64) OR ucast b = push_bit 8 (word_of_nat (be_nat bs)) + ucast b"
    by (rule disjunctive_add [symmetric]) (auto simp: bit_simps dest: bit_imp_le_length)
  then show ?case using snoc by (simp add: push_bit_eq_mult mult.commute)
qed simp

lemma source_v6_key:
  "length ip = 16 \<Longrightarrow> To4 ip = None \<Longrightarrow>
   sourceKeyFromAddr (Some (TCPAddr ip)) = Some \<lparr>sk_v4 = replicate 4 0, sk_v6 = word_of_nat (be_nat (take 8 ip)), sk_is6 = True\<rparr>"
  unfolding sourceKeyFromAddr_def fold_bytes To16_def by simp

lemma source_v6:
  assumes "length ip = 16" "length ip' = 16" "To4 ip = None" "To4 ip' = None"
  shows "sourceKeyFromAddr (Some (TCPAddr ip)) = sourceKeyFromAddr (Some (TCPAddr ip')) \<longleftrightarrow> take 8 ip = take 8 ip'"
proof -
  have b: "be_nat (take 8 ip) < 2 ^ 64" "be_nat (take 8 ip') < 2 ^ 64"
    using be_nat_bound [of "take 8 ip"] be_nat_bound [of "take 8 ip'"] assms(1,2) by simp_all
  have "(word_of_nat (be_nat (take 8 ip)) :: u64) = word_of_nat (be_nat (take 8 ip')) \<longleftrightarrow> be_nat (take 8 ip) = be_nat (take 8 ip')"
    using b by (auto simp: word_of_nat_eq_iff take_bit_eq_mod)
  also have "\<dots> \<longleftrightarrow> take 8 ip = take 8 ip'"
    using nat_be_be_nat [of "take 8 ip"] nat_be_be_nat [of "take 8 ip'"] assms(1,2) by (metis length_take)
  finally show ?thesis unfolding source_v6_key [OF assms(1,3)] source_v6_key [OF assms(2,4)] by simp
qed

lemma source_v4_mapped: "length ip = 4 \<Longrightarrow> sourceKeyFromAddr (Some (TCPAddr (replicate 10 0 @ [0xff, 0xff] @ ip))) = sourceKeyFromAddr (Some (TCPAddr ip))"
  by (simp add: sourceKeyFromAddr_def To4_def nth_append)

subsection \<open>Runs\<close>

lemma admit_run_exact:
  "case run (adm_step admit_take admit_release) (\<lparr>ad_n = 0, ad_per = []\<rparr>, []) ops of
     (a, held) \<Rightarrow>
       ad_n a = int (length held) \<and> ad_n a \<le> 256 \<and>
       count_at k (ad_per a) = int (count (mset held) k) \<and> count_at k (ad_per a) \<le> 32 \<and>
       fst (admit_take k a) = (length held < 256 \<and> count (mset held) k < 32)"
proof -
  obtain a held where a: "run (adm_step admit_take admit_release) (\<lparr>ad_n = 0, ad_per = []\<rparr>, []) ops = (a, held)" by fastforce
  have "admit_holds \<lparr>ad_n = 0, ad_per = []\<rparr> {#}"
    by (simp add: admit_holds_def per_source_def count_at_def maxUnauth_def maxPerSource_def)
  from nw3_admit.run_holds [OF this refl a] have h: "admit_holds a (mset held)" .
  have "int (count (mset held) k) \<le> maxPerSource" using h unfolding admit_holds_def by blast
  then show ?thesis unfolding a using h nw3_admit.take_room [OF h, of k] admit_holds_count [OF h, of k]
    by (simp add: admit_holds_def admit_room_def maxUnauth_def maxPerSource_def)
qed

lemma nw2_run_exact:
  "case run (adm_step nw2_take nw2_release) (newUnauthenticatedAdmission maxTotal maxSource, []) ops2 of
     (a, held) \<Rightarrow>
       ua_total a = int (length held) \<and> ua_total a \<le> (if maxTotal \<le> 0 then 256 else maxTotal) \<and>
       count_at j (ua_perSource a) = int (count (mset held) (Some j)) \<and>
       count_at j (ua_perSource a) \<le> (if maxSource \<le> 0 then 32 else maxSource) \<and>
       list_all (\<lambda>p. 0 < snd p) (ua_perSource a)"
proof -
  let ?a = "newUnauthenticatedAdmission maxTotal maxSource"
  let ?T = "if maxTotal \<le> 0 then 256 else maxTotal" and ?S = "if maxSource \<le> 0 then 32 else maxSource"
  obtain a held where a: "run (adm_step nw2_take nw2_release) (?a, []) ops2 = (a, held)" by fastforce
  have "nw2_holds ?T ?S ?a {#}"
    by (simp add: nw2_holds_def newUnauthenticatedAdmission_def per_source_def count_at_def source_cap_def
        DefaultMaxUnauthenticatedConnections_def DefaultMaxUnauthenticatedPerSource_def)
  from nw2_admission.run_holds [OF this refl a] have h: "nw2_holds ?T ?S a (mset held)" .
  have "int (count (mset held) (Some j)) \<le> ?S" using h unfolding nw2_holds_def source_cap_def by blast
  then show ?thesis unfolding a using h nw2_holds_count [OF h, of j] by (simp add: nw2_holds_def)
qed

text \<open>
  The table of the nw3 portal keeps an entry for every source it ever let in: after \<open>n\<close> sources have come
  and gone one by one there are \<open>n\<close> entries and no holder.
\<close>

definition visits :: "string list \<Rightarrow> string adm_op list" where
  "visits ks = concat (map (\<lambda>k. [Enter k, Leave 0]) ks)"

lemma admit_visit:
  assumes "ad_n a = 0" "\<And>k. count_at k (ad_per a) = 0"
  shows "run (adm_step admit_take admit_release) (a, []) [Enter k, Leave 0] =
    (a\<lparr>ad_per := AList.update k 0 (AList.update k 1 (ad_per a))\<rparr>, [])"
  using assms by (simp add: admit_take_def takeLocked_def admit_release_def maxUnauth_def maxPerSource_def)

lemma admit_entries_stay:
  assumes "ad_n a = 0" "\<And>k. count_at k (ad_per a) = 0" "distinct ks" "set ks \<inter> fst ` set (ad_per a) = {}"
  shows "\<exists>m. run (adm_step admit_take admit_release) (a, []) (visits ks) = (a\<lparr>ad_per := m\<rparr>, []) \<and>
    length m = length (ad_per a) + length ks \<and> (\<forall>k. count_at k m = 0)"
  using assms
proof (induction ks arbitrary: a)
  case Nil
  then show ?case by (intro exI [of _ "ad_per a"]) (simp add: visits_def)
next
  case (Cons k ks)
  let ?m = "AList.update k 0 (AList.update k 1 (ad_per a))"
  have n: "map_of (ad_per a) k = None" using Cons.prems(4) by (simp add: map_of_eq_None_iff)
  have l: "length ?m = Suc (length (ad_per a))" "fst ` set ?m = insert k (fst ` set (ad_per a))"
    using n by (simp_all add: length_al_update al_lookup dom_update)
  have c: "count_at j ?m = 0" for j using Cons.prems(2) by simp
  from Cons.IH [of "a\<lparr>ad_per := ?m\<rparr>"] Cons.prems l c obtain m where
    "run (adm_step admit_take admit_release) (a\<lparr>ad_per := ?m\<rparr>, []) (visits ks) = (a\<lparr>ad_per := m\<rparr>, [])"
    "length m = Suc (length (ad_per a)) + length ks" "\<forall>k. count_at k m = 0" by auto
  then show ?case using admit_visit [OF Cons.prems(1,2), of k] by (auto simp: visits_def run_append)
qed

end
