(* ===== verification/Portal_Server.thy ===== *)
theory Portal_Server
  imports Wire3_Target Wire3_Auth Portal_Registry Admission
begin

section \<open>nw3 portal: the connection and flow handlers\<close>

text \<open>
  The handlers of \<^verbatim>\<open>portal/server.go\<close>. A handler is a sequence of effects on shared state and on
  connections, interleaved with those of other handlers; it is modelled by the trace of its effects,
  as a function of what the calls it makes return (\<open>tcp_env\<close>, \<open>quic_env\<close>, \<open>flow_env\<close>). The bytes of a
  connection are a real stream, parsed by the functions of the wire package.
\<close>

subsection \<open>Effects\<close>

datatype relay =
    RelayTCP
  | RelayUoT
  | RelayQUICUDP u32
  | RelayUoTPair
  | BridgeToExit u32
  | BridgeToVector u32
  | BridgeUDP u32 u32

datatype act =
    AdmitTake
  | AdmitRelease
  | FlowTake
  | FlowRelease
  | SendSetup SetupResult
  | SendRegistration RegistrationResult
  | DialTarget FlowKind Target
  | ClosePeer
  | RequestExit FlowKind Target
  | SlotClose
  | CloseExit
  | Bridge relay
  | CloseClient
  | ClientCloseWrite
  | CloseConn
  | Park
  | PendingTake
  | PendingRelease
  | PushSlot
  | TakeSlot
  | Spawn u64
  | CloseStray

subsection \<open>Flows\<close>

text \<open>
  What a flow depends on: the flow gate, the router of the Vector connection (its datagram size; none on
  TLS), the dial, whether READY could be written, the stream, and in Egress mode the claimed slot (TLS or
  not, whether it has a connection, its datagram sz), whether its stream opened and the request was
  written, and the exit's answer.
\<close>

record flow_env =
  fe_acquire :: bool
  fe_router :: "int option"
  fe_egress :: bool
  fe_dial :: bool
  fe_ready :: bool
  fe_stream :: u64
  fe_clientInitiated :: bool
  fe_claim :: "(bool \<times> bool \<times> int option) option"
  fe_open :: bool
  fe_request :: bool
  fe_result :: "error + SetupResult"
  fe_exitStream :: u64

definition refuse :: "SetupResult \<Rightarrow> act list" where
  "refuse r = [SendSetup r, CloseClient]"

text \<open>The end of \<^verbatim>\<open>serveViaEgress\<close>, once READY was written.\<close>

definition bridge_udp :: "flow_env \<Rightarrow> int option \<Rightarrow> act list" where
  "bridge_udp env exitRouter =
     (if fe_router env = None \<and> exitRouter = None then [Bridge RelayUoTPair]
      else if fe_router env = None then
        (case UDPFlowID (fe_exitStream env) True of Inl e \<Rightarrow> [] | Inr eid \<Rightarrow> [Bridge (BridgeToExit eid)])
      else if exitRouter = None then
        (case UDPFlowID (fe_stream env) False of Inl e \<Rightarrow> [] | Inr vid \<Rightarrow> [Bridge (BridgeToVector vid)])
      else
        (case UDPFlowID (fe_stream env) False of
           Inl e \<Rightarrow> []
         | Inr vid \<Rightarrow>
             (case UDPFlowID (fe_exitStream env) True of Inl e \<Rightarrow> [] | Inr eid \<Rightarrow> [Bridge (BridgeUDP vid eid)])))"

definition egress_flow :: "FlowKind \<Rightarrow> flow_env \<Rightarrow> int option \<Rightarrow> act list" where
  "egress_flow kind env exitRouter =
     (let res = (case fe_result env of Inl e \<Rightarrow> SetupDialFailed | Inr res \<Rightarrow> res)
      in if res \<noteq> SetupReady then refuse res
         else if kind = FlowUDP \<and> (case exitRouter of None \<Rightarrow> False | Some m \<Rightarrow> m \<le> 0) then refuse SetupInternalError
         else SendSetup SetupReady #
           (if \<not> fe_ready env then []
            else if kind = FlowTCP then [Bridge RelayTCP]
            else bridge_udp env exitRouter))"

definition serveViaEgress :: "FlowKind \<Rightarrow> Target \<Rightarrow> flow_env \<Rightarrow> act list" where
  "serveViaEgress kind target env =
     (case fe_claim env of
        None \<Rightarrow> refuse SetupDialFailed
      | Some (tls, hasConn, exitRouter) \<Rightarrow>
          if tls \<and> \<not> hasConn then refuse SetupInternalError
          else if tls then
            RequestExit kind target #
              (if fe_request env then SlotClose # egress_flow kind env exitRouter @ [CloseExit]
               else CloseExit # refuse SetupDialFailed)
          else if \<not> fe_open env then refuse SetupDialFailed
          else
            RequestExit kind target #
              (if fe_request env then egress_flow kind env exitRouter @ [CloseExit]
               else CloseExit # refuse SetupDialFailed))"

definition direct_flow :: "FlowKind \<Rightarrow> flow_env \<Rightarrow> act list" where
  "direct_flow kind env =
     (case (if kind = FlowUDP \<and> fe_router env \<noteq> None then UDPFlowID (fe_stream env) (\<not> fe_clientInitiated env) else Inr 0) of
        Inl e \<Rightarrow> refuse SetupFlowLimit
      | Inr i \<Rightarrow>
          SendSetup SetupReady #
            (if \<not> fe_ready env then []
             else [Bridge (if kind = FlowTCP then RelayTCP else if fe_router env = None then RelayUoT else RelayQUICUDP i)]))"

definition serveFlow :: "FlowKind \<Rightarrow> Target \<Rightarrow> flow_env \<Rightarrow> act list" where
  "serveFlow kind target env =
     (if \<not> fe_acquire env then refuse SetupFlowLimit
      else
        FlowTake #
          (if kind = FlowUDP \<and> (case fe_router env of None \<Rightarrow> False | Some m \<Rightarrow> m \<le> 0) then refuse SetupInternalError
           else if fe_egress env then serveViaEgress kind target env
           else DialTarget kind target #
             (if \<not> fe_dial env then refuse SetupDialFailed else direct_flow kind env @ [ClosePeer])) @
          [FlowRelease])"

definition readAndServe :: "reader \<Rightarrow> flow_env \<Rightarrow> act list" where
  "readAndServe br env =
     (case ReadFlowRequest br of
        Inl e \<Rightarrow> [SendSetup SetupInvalidRequest, ClientCloseWrite]
      | Inr ((kind, target, ok), br) \<Rightarrow>
          if \<not> ok then [ClientCloseWrite] else serveFlow kind target env)"

subsection \<open>TLS connections\<close>

record egress_env =
  ee_reserve :: bool
  ee_written :: bool
  ee_take :: bool

definition serveEgressTLS :: "bool \<Rightarrow> egress_env \<Rightarrow> act list" where
  "serveEgressTLS egress env =
     (if \<not> egress then [SendRegistration RegistrationBusy, Park, CloseConn]
      else if \<not> ee_reserve env then [SendRegistration RegistrationBusy, Park, CloseConn]
      else PendingTake # SendRegistration RegistrationAccepted #
        (if \<not> ee_written env then [PendingRelease, CloseConn]
         else PushSlot # (if ee_take env then [PendingRelease, SlotClose, CloseConn] else [])))"

record tcp_env =
  te_linger :: bool
  te_take :: bool
  te_wait :: bool
  te_handshake :: bool
  te_exporter :: "error + byte list"
  te_alpn :: bool
  te_tls13 :: bool
  te_released :: bool
  te_stream :: reader
  te_egress :: egress_env
  te_flow :: flow_env

text \<open>
  From authentication on: the slot is given back as soon as the tag was read, whatever it said. The
  deferred release does nothing then.
\<close>

definition tcp_authenticated :: "bool \<Rightarrow> bool \<Rightarrow> byte \<Rightarrow> reader \<Rightarrow> tcp_env \<Rightarrow> act list" where
  "tcp_authenticated morphing egress role br env =
     (if role \<noteq> RoleVector \<and> role \<noteq> RoleEgress then [CloseConn]
      else if morphing \<and> \<not> te_released env then [CloseConn]
      else if role = RoleEgress \<and> egress then serveEgressTLS egress (te_egress env)
      else if role \<noteq> RoleVector then [CloseConn]
      else
        (case ReadFlowRequest br of
           Inl e \<Rightarrow> [SendSetup SetupInvalidRequest, CloseConn]
         | Inr ((kind, target, ok), br) \<Rightarrow>
             if \<not> ok then [CloseConn] else serveFlow kind target (te_flow env)))"

definition tcp_admitted :: "bool \<Rightarrow> bool \<Rightarrow> Credentials option \<Rightarrow> tcp_env \<Rightarrow> act list" where
  "tcp_admitted morphing egress creds env =
     (if \<not> te_handshake env then
        (if morphing then [AdmitRelease, Park, CloseConn] else [CloseConn, AdmitRelease])
      else
        (case te_exporter env of
           Inl e \<Rightarrow> [CloseConn, AdmitRelease]
         | Inr exp \<Rightarrow>
             if \<not> te_alpn env \<or> \<not> te_tls13 env then [CloseConn, AdmitRelease]
             else
               AdmitRelease #
                 (case ReadAuthFrame (te_stream env) creds AuthTLS exp of
                    Inl e \<Rightarrow> [CloseConn]
                  | Inr (role, br) \<Rightarrow> tcp_authenticated morphing egress role br env)))"

definition serveTCP :: "bool \<Rightarrow> bool \<Rightarrow> Credentials option \<Rightarrow> tcp_env \<Rightarrow> act list" where
  "serveTCP morphing egress creds env =
     (if morphing \<and> \<not> te_linger env then [CloseConn]
      else if te_take env then AdmitTake # tcp_admitted morphing egress creds env
      else if \<not> morphing then [CloseConn]
      else if \<not> te_wait env then [CloseConn]
      else AdmitTake # tcp_admitted morphing egress creds env)"

subsection \<open>QUIC connections\<close>

text \<open>
  \<^verbatim>\<open>serveVectorConn\<close> after its first stream: each entry is whether a flow would fit (at once or after the
  wait) and what \<^verbatim>\<open>AcceptStream\<close> returned. Each stream is served by its own thread (\<open>Spawn\<close>). The list ends
  where the context does.
\<close>

fun vector_accepts :: "(bool \<times> (error + u64)) list \<Rightarrow> act list" where
  "vector_accepts [] = []"
| "vector_accepts ((fits, accepted) # rest) =
     (if \<not> fits then []
      else
        (case accepted of
           Inl e \<Rightarrow> []
         | Inr sid \<Rightarrow>
             if sid AND 2 \<noteq> 0 \<or> sid AND 1 \<noteq> 0 then [CloseConn]
             else Spawn sid # vector_accepts rest))"

definition serveVectorConn :: "(bool \<times> (error + u64)) list \<Rightarrow> act list" where
  "serveVectorConn accepts = Spawn 0 # vector_accepts accepts"

fun egress_strays :: "(error + u64) list \<Rightarrow> act list" where
  "egress_strays [] = []"
| "egress_strays (accepted # rest) =
     (case accepted of
        Inl e \<Rightarrow> []
      | Inr sid \<Rightarrow>
          if sid AND 2 = 0 \<and> sid AND 1 = 0 then [CloseStray, CloseConn]
          else CloseStray # egress_strays rest)"

text \<open>\<^verbatim>\<open>serveEgressConn\<close>: the stream must end after the tag.\<close>

definition serveEgressConn :: "bool \<Rightarrow> reader \<Rightarrow> bool \<Rightarrow> bool \<Rightarrow> (error + u64) list \<Rightarrow> act list" where
  "serveEgressConn egress br written halfClosed accepts =
     (if \<not> egress then []
      else
        (case rd_Read 1 br of
           (bs, err, br) \<Rightarrow>
             if bs \<noteq> [] \<or> (err \<noteq> None \<and> err \<noteq> Some EOF) then []
             else SendRegistration RegistrationAccepted #
               (if \<not> written then []
                else if \<not> halfClosed then [ClientCloseWrite]
                else ClientCloseWrite # PushSlot # egress_strays accepts @ [TakeSlot, SlotClose])))"

record quic_env =
  qe_alpn :: bool
  qe_tls13 :: bool
  qe_take :: bool
  qe_accept :: "error + u64"
  qe_exporter :: "error + byte list"
  qe_stream :: reader
  qe_accepts :: "(bool \<times> (error + u64)) list"
  qe_written :: bool
  qe_halfClosed :: bool

definition serveQUIC :: "bool \<Rightarrow> Credentials option \<Rightarrow> quic_env \<Rightarrow> act list" where
  "serveQUIC egress creds env =
     (if \<not> qe_alpn env \<or> \<not> qe_tls13 env then []
      else if \<not> qe_take env then []
      else
        AdmitTake #
          (case qe_accept env of
             Inl e \<Rightarrow> [AdmitRelease]
           | Inr sid \<Rightarrow>
               if sid \<noteq> 0 then [AdmitRelease]
               else
                 (case qe_exporter env of
                    Inl e \<Rightarrow> [AdmitRelease]
                  | Inr exp \<Rightarrow>
                      AdmitRelease #
                        (case ReadAuthFrame (qe_stream env) creds AuthQUIC exp of
                           Inl e \<Rightarrow> []
                         | Inr (role, br) \<Rightarrow>
                             if role = RoleVector then serveVectorConn (qe_accepts env)
                             else if role = RoleEgress
                             then serveEgressConn egress br (qe_written env) (qe_halfClosed env) (map snd (qe_accepts env))
                             else [])))) @
     [CloseConn]"

subsection \<open>Admission is balanced\<close>

definition adm_acts :: "act list \<Rightarrow> act list" where
  "adm_acts tr = filter (\<lambda>a. a = AdmitTake \<or> a = AdmitRelease) tr"

definition setups :: "act list \<Rightarrow> act list" where
  "setups tr = filter (\<lambda>a. case a of SendSetup r \<Rightarrow> True | _ \<Rightarrow> False) tr"

definition flow_acts :: "act list \<Rightarrow> act list" where
  "flow_acts tr = filter (\<lambda>a. a = FlowTake \<or> a = FlowRelease) tr"

lemma trace_simps [simp]:
  "adm_acts [] = []" "adm_acts (xs @ ys) = adm_acts xs @ adm_acts ys"
  "adm_acts (a # xs) = (if a = AdmitTake \<or> a = AdmitRelease then a # adm_acts xs else adm_acts xs)"
  "setups [] = []" "setups (xs @ ys) = setups xs @ setups ys"
  "setups (a # xs) = (case a of SendSetup r \<Rightarrow> a # setups xs | _ \<Rightarrow> setups xs)"
  "flow_acts [] = []" "flow_acts (xs @ ys) = flow_acts xs @ flow_acts ys"
  "flow_acts (a # xs) = (if a = FlowTake \<or> a = FlowRelease then a # flow_acts xs else flow_acts xs)"
  by (auto simp: adm_acts_def setups_def flow_acts_def split: act.split)

lemma refuse_simps [simp]: "adm_acts (refuse r) = []" "flow_acts (refuse r) = []" "setups (refuse r) = [SendSetup r]"
  by (simp_all add: refuse_def)

lemma bridge_udp_simps [simp]: "adm_acts (bridge_udp env x) = []" "flow_acts (bridge_udp env x) = []" "setups (bridge_udp env x) = []"
  by (auto simp: bridge_udp_def split: sum.split)

lemma adm_acts_flow [simp]: "adm_acts (egress_flow kind env x) = []" "adm_acts (serveViaEgress kind target env) = []"
    "adm_acts (direct_flow kind env) = []" "adm_acts (serveFlow kind target env) = []"
proof -
  show e: "adm_acts (egress_flow kind env x) = []" for x by (simp add: egress_flow_def Let_def)
  show v: "adm_acts (serveViaEgress kind target env) = []" using e by (auto simp: serveViaEgress_def split: option.split)
  show d: "adm_acts (direct_flow kind env) = []" by (simp add: direct_flow_def split: sum.split)
  show "adm_acts (serveFlow kind target env) = []" using v d by (simp add: serveFlow_def)
qed

lemma adm_acts_vector [simp]: "adm_acts (vector_accepts xs) = []"
  by (induction xs rule: vector_accepts.induct) (auto split: sum.split)

lemma adm_acts_strays [simp]: "adm_acts (egress_strays ys) = []"
  by (induction ys) (auto split: sum.split)

lemma adm_acts_tcp:
  "adm_acts (tcp_authenticated morphing egress role br env) = []"
  "adm_acts (tcp_admitted morphing egress creds env) = [AdmitRelease]"
proof -
  show a: "adm_acts (tcp_authenticated morphing egress role br env) = []" for role br
    by (auto simp: tcp_authenticated_def serveEgressTLS_def split: sum.split)
  show "adm_acts (tcp_admitted morphing egress creds env) = [AdmitRelease]"
    using a by (auto simp: tcp_admitted_def split: sum.split)
qed

lemma serveTCP_admission:
  "adm_acts (serveTCP morphing egress creds env) =
     (if (morphing \<and> \<not> te_linger env) \<or> (\<not> te_take env \<and> \<not> (morphing \<and> te_wait env)) then [] else [AdmitTake, AdmitRelease])"
  by (auto simp: serveTCP_def adm_acts_tcp)

lemma serveQUIC_admission:
  "adm_acts (serveQUIC egress creds env) =
     (if qe_alpn env \<and> qe_tls13 env \<and> qe_take env then [AdmitTake, AdmitRelease] else [])"
  by (auto simp: serveQUIC_def serveVectorConn_def serveEgressConn_def split: sum.split prod.split)

subsection \<open>One setup result, and relays only after READY\<close>

text \<open>The decision that a flow is answered with.\<close>

definition no_datagrams :: "FlowKind \<Rightarrow> int option \<Rightarrow> bool" where
  "no_datagrams kind sz \<longleftrightarrow> kind = FlowUDP \<and> (case sz of None \<Rightarrow> False | Some m \<Rightarrow> m \<le> 0)"

definition exit_answer :: "FlowKind \<Rightarrow> flow_env \<Rightarrow> SetupResult" where
  "exit_answer kind env =
     (case fe_claim env of
        None \<Rightarrow> SetupDialFailed
      | Some (tls, hasConn, sz) \<Rightarrow>
          if tls \<and> \<not> hasConn then SetupInternalError
          else if \<not> tls \<and> \<not> fe_open env \<or> \<not> fe_request env then SetupDialFailed
          else (case fe_result env of
                  Inl e \<Rightarrow> SetupDialFailed
                | Inr res \<Rightarrow> if res = SetupReady \<and> no_datagrams kind sz then SetupInternalError else res))"

definition setup_of :: "FlowKind \<Rightarrow> flow_env \<Rightarrow> SetupResult" where
  "setup_of kind env =
     (if \<not> fe_acquire env then SetupFlowLimit
      else if no_datagrams kind (fe_router env) then SetupInternalError
      else if fe_egress env then exit_answer kind env
      else if \<not> fe_dial env then SetupDialFailed
      else if kind = FlowUDP \<and> fe_router env \<noteq> None \<and> (\<exists>e. UDPFlowID (fe_stream env) (\<not> fe_clientInitiated env) = Inl e)
      then SetupFlowLimit else SetupReady)"

lemma setup_consts:
  "SetupFlowLimit \<noteq> SetupReady" "SetupInternalError \<noteq> SetupReady" "SetupDialFailed \<noteq> SetupReady" "SetupInvalidRequest \<noteq> SetupReady"
  by (simp_all add: SetupFlowLimit_def SetupInternalError_def SetupDialFailed_def SetupReady_def SetupInvalidRequest_def)

text \<open>A trace that answers with \<open>r\<close>: refused and closed, or READY with the relay right behind it.\<close>

definition answers :: "bool \<Rightarrow> SetupResult \<Rightarrow> act list \<Rightarrow> bool" where
  "answers ready r tr \<longleftrightarrow> setups tr = [SendSetup r] \<and> (CloseClient \<in> set tr) = (r \<noteq> SetupReady) \<and> CloseConn \<notin> set tr \<and>
     ((\<forall>b. Bridge b \<notin> set tr) \<or> r = SetupReady \<and> ready \<and> (\<exists>pre b post. tr = pre @ [SendSetup SetupReady, Bridge b] @ post \<and>
       (\<forall>b. Bridge b \<notin> set pre \<union> set post)))"

lemma list_ex_Bridge: "list_ex (\<lambda>a. case a of Bridge b \<Rightarrow> True | _ \<Rightarrow> False) tr = (\<exists>b. Bridge b \<in> set tr)"
proof (induction tr)
  case (Cons a tr)
  then show ?case by (cases a) auto
qed simp

lemma answers_refuse: "r \<noteq> SetupReady \<Longrightarrow> answers ready r (refuse r)"
  by (auto simp: answers_def refuse_def)

lemma answers_ready: "answers ready SetupReady [SendSetup SetupReady]"
  by (simp add: answers_def)

lemma answers_bridge: "answers True SetupReady [SendSetup SetupReady, Bridge b]"
  unfolding answers_def by (auto intro!: exI [of _ "[]"])

lemma answers_context:
  assumes "answers ready r tr" "setups pre = []" "setups post = []" "\<And>b. Bridge b \<notin> set pre" "\<And>b. Bridge b \<notin> set post"
    "CloseClient \<notin> set pre" "CloseClient \<notin> set post" "CloseConn \<notin> set pre" "CloseConn \<notin> set post"
  shows "answers ready r (pre @ tr @ post)"
proof -
  have "(\<forall>b. Bridge b \<notin> set (pre @ tr @ post)) \<or> r = SetupReady \<and> ready \<and> (\<exists>p b q. pre @ tr @ post = p @ [SendSetup SetupReady, Bridge b] @ q \<and>
       (\<forall>b. Bridge b \<notin> set p \<union> set q))"
  proof (cases "\<forall>b. Bridge b \<notin> set tr")
    case True
    then show ?thesis using assms by auto
  next
    case False
    then obtain p b q where "r = SetupReady" "ready" "tr = p @ [SendSetup SetupReady, Bridge b] @ q" "\<forall>b. Bridge b \<notin> set p \<union> set q"
      using assms(1) by (auto simp: answers_def)
    then have "pre @ tr @ post = (pre @ p) @ [SendSetup SetupReady, Bridge b] @ (q @ post) \<and> (\<forall>b. Bridge b \<notin> set (pre @ p) \<union> set (q @ post))"
      using assms by auto
    then show ?thesis using \<open>r = SetupReady\<close> \<open>ready\<close> by blast
  qed
  then show ?thesis using assms by (auto simp: answers_def)
qed

lemma bridge_udp_cases: "bridge_udp env x = [] \<or> (\<exists>b. bridge_udp env x = [Bridge b])"
  by (auto simp: bridge_udp_def split: sum.split)

lemma answers_egress_flow:
  "answers (fe_ready env)
     (case fe_result env of Inl e \<Rightarrow> SetupDialFailed | Inr res \<Rightarrow> if res = SetupReady \<and> no_datagrams kind x then SetupInternalError else res)
     (egress_flow kind env x)"
proof (cases "(case fe_result env of Inl e \<Rightarrow> SetupDialFailed | Inr res \<Rightarrow> res) = SetupReady \<and> \<not> no_datagrams kind x")
  case True
  then have r: "fe_result env = Inr SetupReady" using setup_consts by (auto split: sum.splits)
  have "egress_flow kind env x = [SendSetup SetupReady] \<or> (fe_ready env \<and> (\<exists>b. egress_flow kind env x = [SendSetup SetupReady, Bridge b]))"
    using True r bridge_udp_cases [of env x] by (auto simp: egress_flow_def no_datagrams_def)
  then show ?thesis using True r answers_ready answers_bridge by auto
next
  case False
  then show ?thesis using setup_consts by (auto simp: egress_flow_def no_datagrams_def Let_def answers_refuse split: sum.splits)
qed

lemma answers_direct_flow:
  "answers (fe_ready env)
     (if kind = FlowUDP \<and> fe_router env \<noteq> None \<and> (\<exists>e. UDPFlowID (fe_stream env) (\<not> fe_clientInitiated env) = Inl e) then SetupFlowLimit else SetupReady)
     (direct_flow kind env)"
  using setup_consts answers_ready answers_bridge by (auto simp: direct_flow_def answers_refuse split: sum.split)

lemma answers_via_egress: "answers (fe_ready env) (exit_answer kind env) (serveViaEgress kind target env)"
proof (cases "fe_claim env")
  case None
  then show ?thesis using setup_consts by (simp add: serveViaEgress_def exit_answer_def answers_refuse)
next
  case (Some c)
  obtain tls hasConn x where c: "c = (tls, hasConn, x)" by (metis surj_pair)
  have flow: "answers (fe_ready env) (exit_answer kind env) (pre @ egress_flow kind env x @ [CloseExit])"
    if "pre = [RequestExit kind target, SlotClose] \<or> pre = [RequestExit kind target]" "\<not> (tls \<and> \<not> hasConn)" "tls \<or> fe_open env" "fe_request env" for pre
    using that answers_context [OF answers_egress_flow, of pre "[CloseExit]" env kind x] Some c by (auto simp: exit_answer_def)
  have fail: "answers (fe_ready env) (exit_answer kind env) ([RequestExit kind target, CloseExit] @ refuse SetupDialFailed @ [])"
    if "\<not> fe_request env" "\<not> (tls \<and> \<not> hasConn)"
    using that Some c setup_consts by (intro answers_context) (auto simp: exit_answer_def answers_refuse)
  show ?thesis using Some c flow [of "[RequestExit kind target, SlotClose]"] flow [of "[RequestExit kind target]"] fail setup_consts
    by (auto simp: serveViaEgress_def exit_answer_def answers_refuse)
qed

lemma serveFlow_answers: "answers (fe_ready env) (setup_of kind env) (serveFlow kind target env)"
proof (cases "fe_acquire env")
  case False
  then show ?thesis using setup_consts by (simp add: serveFlow_def setup_of_def answers_refuse)
next
  case True
  have c: "answers (fe_ready env) r ([FlowTake] @ tr @ [FlowRelease])" if "answers (fe_ready env) r tr" for r tr
    using that by (intro answers_context) auto
  have d: "answers (fe_ready env) r ([FlowTake, DialTarget kind target] @ tr @ [ClosePeer, FlowRelease])" if "answers (fe_ready env) r tr" for r tr
    using that by (intro answers_context) auto
  have e: "answers (fe_ready env) r ([FlowTake, DialTarget kind target] @ tr @ [FlowRelease])" if "answers (fe_ready env) r tr" for r tr
    using that by (intro answers_context) auto
  consider (size) "no_datagrams kind (fe_router env)" | (egress) "\<not> no_datagrams kind (fe_router env)" "fe_egress env"
    | (fail) "\<not> no_datagrams kind (fe_router env)" "\<not> fe_egress env" "\<not> fe_dial env"
    | (dial) "\<not> no_datagrams kind (fe_router env)" "\<not> fe_egress env" "fe_dial env" by blast
  then show ?thesis
  proof cases
    case size
    then show ?thesis using True c [OF answers_refuse [OF setup_consts(2)]] by (simp add: serveFlow_def setup_of_def no_datagrams_def)
  next
    case egress
    then have "serveFlow kind target env = [FlowTake] @ serveViaEgress kind target env @ [FlowRelease]" "setup_of kind env = exit_answer kind env"
      using True by (auto simp: serveFlow_def setup_of_def no_datagrams_def)
    then show ?thesis using c [OF answers_via_egress] by (simp only:)
  next
    case fail
    then have "serveFlow kind target env = [FlowTake, DialTarget kind target] @ refuse SetupDialFailed @ [FlowRelease]" "setup_of kind env = SetupDialFailed"
      using True by (auto simp: serveFlow_def setup_of_def no_datagrams_def)
    then show ?thesis using e [OF answers_refuse [OF setup_consts(3)]] by (simp only:)
  next
    case dial
    have "serveFlow kind target env = [FlowTake, DialTarget kind target] @ direct_flow kind env @ [ClosePeer, FlowRelease]"
      using dial True by (auto simp: serveFlow_def no_datagrams_def)
    moreover have "setup_of kind env = (if kind = FlowUDP \<and> fe_router env \<noteq> None \<and>
        (\<exists>e. UDPFlowID (fe_stream env) (\<not> fe_clientInitiated env) = Inl e) then SetupFlowLimit else SetupReady)"
      unfolding setup_of_def using dial True by (simp only: if_True if_False simp_thms)
    ultimately show ?thesis using d [OF answers_direct_flow [of env kind]] by (simp only:)
  qed
qed

lemma serveFlow_gate: "flow_acts (serveFlow kind target env) = (if fe_acquire env then [FlowTake, FlowRelease] else [])"
proof -
  have e: "flow_acts (egress_flow kind env x) = []" for x by (simp add: egress_flow_def Let_def)
  then have "flow_acts (serveViaEgress kind target env) = []" by (auto simp: serveViaEgress_def split: option.split)
  moreover have "flow_acts (direct_flow kind env) = []" by (simp add: direct_flow_def split: sum.split)
  ultimately show ?thesis by (simp add: serveFlow_def)
qed

subsection \<open>Who is served\<close>

text \<open>What counts as service: a setup or registration answer, a dial, a slot of the flow gate.\<close>

definition service :: "act \<Rightarrow> bool" where
  "service a = (case a of FlowTake \<Rightarrow> True | SendSetup r \<Rightarrow> True | SendRegistration r \<Rightarrow> True | DialTarget k t \<Rightarrow> True
     | RequestExit k t \<Rightarrow> True | PushSlot \<Rightarrow> True | Bridge b \<Rightarrow> True | Spawn i \<Rightarrow> True | _ \<Rightarrow> False)"

definition tag_of :: "Credentials \<Rightarrow> byte \<Rightarrow> byte \<Rightarrow> byte list \<Rightarrow> byte list" where
  "tag_of c role t ex = auth_tag (if role = RoleVector then cr_vector c else cr_egress c) t ex"

lemma ReadAuthFrame_Inr:
  assumes "ReadAuthFrame r (Some c) t ex = Inr (role, r')"
  shows "(role = RoleVector \<or> role = RoleEgress) \<and> r = prepend (tag_of c role t ex) r'"
proof -
  obtain frame where f: "ReadFull AuthFrameLen r = Inr (frame, r')" "ValidateAuthFrame frame (Some c) t ex = Inr role"
    using assms by (auto simp: ReadAuthFrame_def split: sum.splits)
  then show ?thesis by (auto simp: ReadFull_Inr ValidateAuthFrame_role tag_of_def RoleVector_def RoleEgress_def)
qed

definition tcp_peer_ok :: "Credentials \<Rightarrow> tcp_env \<Rightarrow> bool" where
  "tcp_peer_ok c env \<longleftrightarrow>
     (\<exists>exp role r'. te_exporter env = Inr exp \<and> te_handshake env \<and> te_alpn env \<and> te_tls13 env \<and>
       (role = RoleVector \<or> role = RoleEgress) \<and> te_stream env = prepend (tag_of c role AuthTLS exp) r')"

definition quic_peer_ok :: "Credentials \<Rightarrow> quic_env \<Rightarrow> bool" where
  "quic_peer_ok c env \<longleftrightarrow>
     (\<exists>exp role r'. qe_exporter env = Inr exp \<and> qe_alpn env \<and> qe_tls13 env \<and>
       (role = RoleVector \<or> role = RoleEgress) \<and> qe_stream env = prepend (tag_of c role AuthQUIC exp) r')"

lemma serveTCP_authenticated:
  assumes "a \<in> set (serveTCP morphing egress (Some c) env)" "service a"
  shows "\<exists>exp role r'. te_exporter env = Inr exp \<and> te_handshake env \<and> te_alpn env \<and> te_tls13 env \<and>
    (role = RoleVector \<or> role = RoleEgress) \<and> te_stream env = prepend (tag_of c role AuthTLS exp) r'"
proof -
  have "a \<in> set (tcp_admitted morphing egress (Some c) env)"
    using assms by (auto simp: serveTCP_def service_def split: if_splits)
  moreover have "\<not> service AdmitRelease" "\<not> service CloseConn" "\<not> service Park" by (simp_all add: service_def)
  ultimately have t: "te_handshake env" "te_alpn env" "te_tls13 env" and "te_exporter env \<noteq> Inl e" for e
    using assms(2) by (auto simp: tcp_admitted_def split: if_splits sum.splits)
  then obtain exp where exp: "te_exporter env = Inr exp" by (cases "te_exporter env") auto
  have "ReadAuthFrame (te_stream env) (Some c) AuthTLS exp \<noteq> Inl e" for e
    using \<open>a \<in> set (tcp_admitted morphing egress (Some c) env)\<close> assms(2) t exp by (auto simp: tcp_admitted_def service_def)
  then obtain role br where "ReadAuthFrame (te_stream env) (Some c) AuthTLS exp = Inr (role, br)"
    by (cases "ReadAuthFrame (te_stream env) (Some c) AuthTLS exp") auto
  from ReadAuthFrame_Inr [OF this] show ?thesis using t exp
    by (intro exI [of _ exp] exI [of _ role] exI [of _ br] conjI) simp_all
qed

lemma serveQUIC_authenticated:
  assumes "a \<in> set (serveQUIC egress (Some c) env)" "service a"
  shows "\<exists>exp role r'. qe_exporter env = Inr exp \<and> qe_alpn env \<and> qe_tls13 env \<and>
    (role = RoleVector \<or> role = RoleEgress) \<and> qe_stream env = prepend (tag_of c role AuthQUIC exp) r'"
proof -
  have n: "\<not> service AdmitTake" "\<not> service AdmitRelease" "\<not> service CloseConn" by (simp_all add: service_def)
  have q: "qe_alpn env" "qe_tls13 env" "qe_take env" using assms n by (auto simp: serveQUIC_def split: if_splits)
  obtain sid where sid: "qe_accept env = Inr sid" "sid = 0"
    using assms n q by (cases "qe_accept env") (auto simp: serveQUIC_def split: if_splits)
  obtain exp where exp: "qe_exporter env = Inr exp"
    using assms n q sid by (cases "qe_exporter env") (auto simp: serveQUIC_def)
  obtain role br where "ReadAuthFrame (qe_stream env) (Some c) AuthQUIC exp = Inr (role, br)"
    using assms n q sid exp by (cases "ReadAuthFrame (qe_stream env) (Some c) AuthQUIC exp") (auto simp: serveQUIC_def)
  from ReadAuthFrame_Inr [OF this] show ?thesis using q exp
    by (intro exI [of _ exp] exI [of _ role] exI [of _ br] conjI) simp_all
qed

lemma served_peer_ok:
  "list_ex service (serveTCP morphing egress (Some c) env) \<Longrightarrow> tcp_peer_ok c env"
  "list_ex service (serveQUIC egress (Some c) qenv) \<Longrightarrow> quic_peer_ok c qenv"
proof -
  assume "list_ex service (serveTCP morphing egress (Some c) env)"
  then obtain a where "a \<in> set (serveTCP morphing egress (Some c) env)" "service a" by (auto simp: list_ex_iff)
  then show "tcp_peer_ok c env" unfolding tcp_peer_ok_def by (rule serveTCP_authenticated)
next
  assume "list_ex service (serveQUIC egress (Some c) qenv)"
  then obtain a where "a \<in> set (serveQUIC egress (Some c) qenv)" "service a" by (auto simp: list_ex_iff)
  then show "quic_peer_ok c qenv" unfolding quic_peer_ok_def by (rule serveQUIC_authenticated)
qed

text \<open>What a client wrote is what is served.\<close>

lemma WriteFlowRequest_bytes:
  assumes "WriteFlowRequest w kind target = (None, w')" "wr_plan w = []"
  obtains s bs where "EncodeFlowStart kind = Inr s" "AppendTarget [] target = Inr bs" "wr_out w' = wr_out w @ s @ bs"
proof -
  obtain w1 where 1: "WriteFlowStart w kind = (None, w1)" using assms(1) by (auto simp: WriteFlowRequest_def split: prod.splits option.splits)
  obtain s where s: "EncodeFlowStart kind = Inr s" "w1 = w\<lparr>wr_out := wr_out w @ s\<rparr>"
    using 1 assms(2) by (auto simp: WriteFlowStart_def wr_Write_ok Let_def split: sum.splits)
  then obtain bs where "AppendTarget [] target = Inr bs" "w' = w1\<lparr>wr_out := wr_out w1 @ bs\<rparr>"
    using assms 1 by (auto simp: WriteFlowRequest_def wr_Write_ok Let_def split: sum.splits)
  then show thesis using s by (intro that) auto
qed

lemma ReadFlowRequest_written:
  assumes "EncodeFlowStart kind = Inr s" "AppendTarget [] target = Inr bs"
  shows "ReadFlowRequest (prepend (s @ bs) r) = Inr ((kind, target\<lparr>Addr := strip_zone (Addr target)\<rparr>, True), r)"
proof -
  have "ReadFlowStart (prepend s (prepend bs r)) = Inr ((kind, True), prepend bs r)"
    using flow_start.rd_enc [of "(kind, True)" s "prepend bs r"] assms(1) by simp
  then show ?thesis using ReadTarget_AppendTarget [OF assms(2), of r] by (simp add: ReadFlowRequest_def prepend_append)
qed

lemma vector_served:
  assumes "WriteAuthFrame w0 (Some c) RoleVector AuthTLS exp = (None, w1)" "WriteFlowRequest w1 kind target = (None, w2)"
    and "wr_plan w0 = []" "wr_out w0 = []" "te_stream env = closed_stream (wr_out w2)"
    and "te_take env" "te_handshake env" "te_exporter env = Inr exp" "te_alpn env" "te_tls13 env" "te_linger env" "te_released env"
  shows "serveTCP morphing egress (Some c) env =
    [AdmitTake, AdmitRelease] @
    (if auth_tag (cr_vector c) AuthTLS exp = auth_tag (cr_egress c) AuthTLS exp then [CloseConn]
     else serveFlow kind (target\<lparr>Addr := strip_zone (Addr target)\<rparr>) (te_flow env))"
proof -
  let ?tag = "auth_tag (cr_vector c) AuthTLS exp"
  have w1: "w1 = w0\<lparr>wr_out := wr_out w0 @ ?tag\<rparr>"
    using WriteAuthFrame_eq [OF assms(3), of AuthTLS c RoleVector "cr_vector c" exp] assms(1) by (simp add: RoleKey_def)
  obtain s bs where sb: "EncodeFlowStart kind = Inr s" "AppendTarget [] target = Inr bs" "wr_out w2 = wr_out w1 @ s @ bs"
    using WriteFlowRequest_bytes [OF assms(2)] w1 assms(3) by auto
  have st: "te_stream env = prepend ?tag (prepend (s @ bs) (closed_stream []))"
    using assms(4,5) sb(3) w1 by (simp add: closed_stream_def prepend_def)
  have "ReadAuthFrame (te_stream env) (Some c) AuthTLS exp =
      (if ?tag = auth_tag (cr_egress c) AuthTLS exp then Inl (New ''nw3: invalid authentication tag or role'')
       else Inr (RoleVector, prepend (s @ bs) (closed_stream [])))"
    unfolding st by (simp add: ReadAuthFrame_tag ValidateAuthFrame_tag)
  then show ?thesis using assms(6-12) ReadFlowRequest_written [OF sb(1,2)]
    by (auto simp: serveTCP_def tcp_admitted_def tcp_authenticated_def RoleVector_def RoleEgress_def)
qed

text \<open>
  A TLS connection whose flow was answered READY is not closed by the portal when the flow ends: the
  relays only shut down the sending side.
\<close>

lemma served_connection_not_closed:
  assumes "serveTCP morphing egress (Some c) env = [AdmitTake, AdmitRelease] @ serveFlow kind target (te_flow env)"
    "setup_of kind (te_flow env) = SetupReady"
  shows "CloseConn \<notin> set (serveTCP morphing egress (Some c) env)" "CloseClient \<notin> set (serveTCP morphing egress (Some c) env)"
  using assms serveFlow_answers [of "te_flow env" kind target] by (auto simp: answers_def)

end
