(* ===== verification/Portal_Relay.thy ===== *)
theory Portal_Relay
  imports Wire3_Datagram
begin

section \<open>nw3: relaying streams and packets\<close>

text \<open>
  The data paths behind a flow: \<^verbatim>\<open>Copy\<close> of \<^verbatim>\<open>flowio/flowio.go\<close>, and the packet loops of
  \<^verbatim>\<open>relayUoT\<close> and \<^verbatim>\<open>relayUoTPair\<close> of \<^verbatim>\<open>portal/server.go\<close>. A loop runs until its source or its sink fails; each
  direction is one thread with its own source and sink. The rate limiters only delay.
\<close>

subsection \<open>The loops\<close>

definition copyBuf :: nat where "copyBuf = 32 * 2 ^ 10"

lemma ReadUoT_shorter: "ReadUoT r = Inr (p, r') \<Longrightarrow> length (rd_buf r') < length (rd_buf r)"
  by (auto simp: ReadUoT_def Let_def ReadFull_Inr prepend_def split: sum.splits if_splits)

text \<open>\<^verbatim>\<open>relayUoT\<close>, from the client: the packets handed to the UDP socket; \<open>ok k\<close> is whether the \<open>k\<close>-th write succeeds.\<close>

function relay_up :: "(nat \<Rightarrow> bool) \<Rightarrow> nat \<Rightarrow> reader \<Rightarrow> byte list list" where
  "relay_up ok k client =
     (case ReadUoT client of
        Inl e \<Rightarrow> []
      | Inr (pkt, client') \<Rightarrow> if ok k then pkt # relay_up ok (Suc k) client' else [pkt])"
  by pat_completeness auto
termination
  by (relation "measure (\<lambda>(ok, k, r). length (rd_buf r))") (auto simp: ReadUoT_shorter)

text \<open>To the client: each datagram is read into a buffer of 65535 bytes. The list ends where a read fails.\<close>

fun relay_down :: "byte list list \<Rightarrow> writer \<Rightarrow> writer" where
  "relay_down [] client = client"
| "relay_down (pkt # rest) client =
     (case WriteUoT client (take 65535 pkt) of
        (Some e, client) \<Rightarrow> client
      | (None, client) \<Rightarrow> relay_down rest client)"

text \<open>One direction of \<^verbatim>\<open>relayUoTPair\<close>.\<close>

function pair_copy :: "reader \<Rightarrow> writer \<Rightarrow> writer" where
  "pair_copy src dst =
     (case ReadUoT src of
        Inl e \<Rightarrow> dst
      | Inr (pkt, src') \<Rightarrow>
          (case WriteUoT dst pkt of
             (Some e, dst) \<Rightarrow> dst
           | (None, dst) \<Rightarrow> pair_copy src' dst))"
  by pat_completeness auto
termination
  by (relation "measure (\<lambda>(src, dst). length (rd_buf src))") (auto simp: ReadUoT_shorter)

text \<open>\<^verbatim>\<open>flowio.Copy\<close>: the count of the bytes written, and the error, which is none at the end of the source.\<close>

definition read_end :: "error \<Rightarrow> error option" where
  "read_end e = (if e = EOF then None else Some e)"

function Copy_loop :: "int \<Rightarrow> reader \<Rightarrow> writer \<Rightarrow> (int \<times> error option) \<times> writer" where
  "Copy_loop written src dst =
     (case rd_Read copyBuf src of
        (bs, rerr, src') \<Rightarrow>
          if bs \<noteq> [] then
            (case wr_Write bs dst of
               (wn, Some e, dst) \<Rightarrow> ((written + wn, Some e), dst)
             | (wn, None, dst) \<Rightarrow>
                 (case rerr of
                    Some e \<Rightarrow> ((written + wn, read_end e), dst)
                  | None \<Rightarrow> Copy_loop (written + wn) src' dst))
          else (case rerr of Some e \<Rightarrow> ((written, read_end e), dst) | None \<Rightarrow> ((written, None), dst)))"
  by pat_completeness auto
termination
  by (relation "measure (\<lambda>(n, src, dst). length (rd_buf src))") (auto simp: rd_Read_def copyBuf_def split: if_splits)

definition Copy :: "writer \<Rightarrow> reader \<Rightarrow> (int \<times> error option) \<times> writer" where
  "Copy dst src = Copy_loop 0 src dst"

declare relay_up.simps [simp del] pair_copy.simps [simp del] Copy_loop.simps [simp del]

subsection \<open>They forward what they read\<close>

lemma write_all_Cons:
  "write_all enc (x # xs) = Inr bs \<longleftrightarrow> (\<exists>b1 b2. enc x = Inr b1 \<and> write_all enc xs = Inr b2 \<and> bs = b1 @ b2)"
  by (auto split: sum.splits)

lemma ReadUoT_end: "ReadUoT (closed_stream []) = Inl EOF"
  by (simp add: ReadUoT_def closed_stream_def ReadFull_def)

lemma ReadUoT_framed: "EncodeUoT p = Inr b \<Longrightarrow> ReadUoT (prepend (b @ bs) r) = Inr (p, prepend bs r)"
  using uot.rd_enc [of p b "prepend bs r"] by (simp add: prepend_append)

lemma relay_up_all:
  assumes "write_all EncodeUoT ps = Inr bs" "ReadUoT r = Inl e"
  shows "relay_up (\<lambda>_. True) k (prepend bs r) = ps"
  using assms(1)
proof (induction ps arbitrary: k bs)
  case Nil
  then show ?case using assms(2) by (simp add: relay_up.simps [of _ k r])
next
  case (Cons p ps)
  then obtain b1 b2 where b: "EncodeUoT p = Inr b1" "write_all EncodeUoT ps = Inr b2" "bs = b1 @ b2"
    by (auto simp: write_all_Cons simp del: write_all.simps(2))
  then show ?case using Cons.IH [OF b(2)] by (simp add: relay_up.simps [of _ k "prepend (b1 @ b2) r"] ReadUoT_framed)
qed

lemma pair_copy_all:
  assumes "write_all EncodeUoT ps = Inr bs" "wr_plan w = []" "ReadUoT r = Inl e"
  shows "pair_copy (prepend bs r) w = w\<lparr>wr_out := wr_out w @ bs\<rparr>"
  using assms(1,2)
proof (induction ps arbitrary: bs w)
  case Nil
  then show ?case using assms(3) by (simp add: pair_copy.simps [of r w])
next
  case (Cons p ps)
  then obtain b1 b2 where b: "EncodeUoT p = Inr b1" "write_all EncodeUoT ps = Inr b2" "bs = b1 @ b2"
    by (auto simp: write_all_Cons simp del: write_all.simps(2))
  have "pair_copy (prepend b2 r) (w\<lparr>wr_out := wr_out w @ b1\<rparr>) = w\<lparr>wr_out := wr_out w @ b1 @ b2\<rparr>"
    using Cons.IH [OF b(2), of "w\<lparr>wr_out := wr_out w @ b1\<rparr>"] Cons.prems(2) by simp
  then show ?case using b Cons.prems(2)
    by (simp add: pair_copy.simps [of "prepend (b1 @ b2) r" w] ReadUoT_framed WriteUoT_plain)
qed

lemma relay_down_all:
  assumes "write_all EncodeUoT ps = Inr bs" "wr_plan w = []"
  shows "relay_down ps w = w\<lparr>wr_out := wr_out w @ bs\<rparr>"
  using assms
proof (induction ps arbitrary: bs w)
  case (Cons p ps)
  then obtain b1 b2 where b: "EncodeUoT p = Inr b1" "write_all EncodeUoT ps = Inr b2" "bs = b1 @ b2"
    by (auto simp: write_all_Cons simp del: write_all.simps(2))
  have "take 65535 p = p" using b(1) by (auto simp: EncodeUoT_def udp_consts split: if_splits)
  then show ?case using Cons b by (simp add: WriteUoT_plain)
qed simp

lemma Copy_all:
  assumes "wr_plan w = []"
  shows "Copy w r = ((int (length (rd_buf r)), read_end (rd_err r)), w\<lparr>wr_out := wr_out w @ rd_buf r\<rparr>)"
proof -
  have "Copy_loop n r w = ((n + int (length (rd_buf r)), read_end (rd_err r)), w\<lparr>wr_out := wr_out w @ rd_buf r\<rparr>)" for n
    using assms
  proof (induction "length (rd_buf r)" arbitrary: n r w rule: less_induct)
    case less
    show ?case
    proof (cases "rd_buf r = []")
      case True
      then show ?thesis by (simp add: Copy_loop.simps [of n r w] rd_Read_def copyBuf_def)
    next
      case False
      let ?r = "r\<lparr>rd_buf := drop copyBuf (rd_buf r)\<rparr>" and ?b = "take copyBuf (rd_buf r)"
      have "length (rd_buf ?r) < length (rd_buf r)" using False by (simp add: copyBuf_def)
      note IH = less.hyps [OF this, of "w\<lparr>wr_out := wr_out w @ ?b\<rparr>" "n + int (length ?b)"]
      have "int (length ?b) + int (length (rd_buf ?r)) = int (length (rd_buf r))" by simp
      then show ?thesis using IH False less.prems
        by (simp add: Copy_loop.simps [of n r w] rd_Read_def copyBuf_def)
    qed
  qed
  then show ?thesis by (simp add: Copy_def)
qed

end
