(* ===== verification/Dgram_Router.thy ===== *)
theory Dgram_Router
  imports Wire3_Reassembly Multiset_Prelude
begin

section \<open>nw3: the datagram router of a QUIC connection\<close>

text \<open>
  \<^verbatim>\<open>dgram/router.go\<close>. A \<^verbatim>\<open>*Flow\<close> is a number into a store of flows, since a flow stays with its
  reader when the table no longer names it. The QUIC connection is an argument: its datagram size,
  and what each \<^verbatim>\<open>SendDatagram\<close> returns. The receive loop takes the lock three times per datagram, and
  registrations may run in between: an iteration is three steps, whose state is \<open>rt_stage\<close>.
\<close>

subsection \<open>The model\<close>

definition queueLen :: nat where "queueLen = 64"

record Flow =
  fl_ID :: u32
  fl_C :: "byte list list"
  fl_closed :: bool

datatype stage = Idle | Checked Datagram | Ready u32 "byte list"

record Router =
  rt_overhead :: int
  rt_tab :: "(u32 \<times> nat) list"
  rt_re :: Reassembler
  rt_pkt :: u32
  rt_flows :: "nat \<Rightarrow> Flow"
  rt_next :: nat
  rt_stage :: stage

definition NewRouter :: "int \<Rightarrow> Router" where
  "NewRouter maxBytes =
     (let maxBytes = (if maxBytes \<le> 0 then 4 * 2 ^ 20 else maxBytes)
      in \<lparr>rt_overhead = 0, rt_tab = [], rt_re = NewReassembler 64 maxBytes 0, rt_pkt = 0,
          rt_flows = (\<lambda>_. \<lparr>fl_ID = 0, fl_C = [], fl_closed = True\<rparr>), rt_next = 0, rt_stage = Idle\<rparr>)"

definition SetOverhead :: "int \<Rightarrow> Router \<Rightarrow> Router" where
  "SetOverhead n r = (if n < 0 then r else r\<lparr>rt_overhead := n\<rparr>)"

definition Flow_Close :: "nat \<Rightarrow> Router \<Rightarrow> Router" where
  "Flow_Close f r = r\<lparr>rt_flows := (rt_flows r)(f := (rt_flows r f)\<lparr>fl_closed := True\<rparr>)\<rparr>"

definition Register :: "u32 \<Rightarrow> Router \<Rightarrow> nat \<times> Router" where
  "Register i r =
     (let f = rt_next r;
          r = r\<lparr>rt_next := Suc f, rt_flows := (rt_flows r)(f := \<lparr>fl_ID = i, fl_C = [], fl_closed = False\<rparr>)\<rparr>;
          r = (case map_of (rt_tab r) i of None \<Rightarrow> r | Some old \<Rightarrow> Flow_Close old r)
      in (f, r\<lparr>rt_tab := AList.update i f (rt_tab r)\<rparr>))"

definition Unregister :: "u32 \<Rightarrow> Router \<Rightarrow> Router" where
  "Unregister i r =
     (let f = map_of (rt_tab r) i;
          r = r\<lparr>rt_tab := AList.delete i (rt_tab r)\<rparr>;
          r = (case f of None \<Rightarrow> r | Some f \<Rightarrow> Flow_Close f r)
      in r\<lparr>rt_re := RemoveFlow (rt_re r) i\<rparr>)"

text \<open>\<open>err k\<close> is what the \<open>k\<close>-th \<^verbatim>\<open>SendDatagram\<close> returns; the frames handed to the connection are the result.\<close>

fun send_frames :: "(nat \<Rightarrow> error option) \<Rightarrow> nat \<Rightarrow> byte list list \<Rightarrow> byte list list \<times> error option" where
  "send_frames err k [] = ([], None)"
| "send_frames err k (frame # rest) =
     (case err k of
        Some e \<Rightarrow> ([frame], Some e)
      | None \<Rightarrow> (case send_frames err (Suc k) rest of (sent, e) \<Rightarrow> (frame # sent, e)))"

definition next_packet :: "u32 \<Rightarrow> u32" where
  "next_packet pkt = (if pkt + 1 = 0 then pkt + 1 + 1 else pkt + 1)"

definition Send :: "u32 \<Rightarrow> byte list \<Rightarrow> int \<Rightarrow> (nat \<Rightarrow> error option) \<Rightarrow> Router \<Rightarrow> (byte list list \<times> error option) \<times> Router" where
  "Send i payload mx err r =
     (let n = next_packet (rt_pkt r);
          r = r\<lparr>rt_pkt := n\<rparr>
      in if mx \<le> 0 then (([], Some (New ''nw3: DATAGRAM support unavailable'')), r)
         else
           (let mx = (if rt_overhead r > 0 \<and> mx > rt_overhead r then mx - rt_overhead r else mx)
            in case EncodePacket i n payload mx of
                 Inl e \<Rightarrow> (([], Some e), r)
               | Inr frames \<Rightarrow> (send_frames err 0 frames, r)))"

definition CloseFlow :: "u32 \<Rightarrow> Router \<Rightarrow> byte list list \<times> Router" where
  "CloseFlow i r = (case EncodeClose i of Inr frame \<Rightarrow> [frame] | Inl e \<Rightarrow> [], Unregister i r)"

definition known :: "u32 \<Rightarrow> Router \<Rightarrow> bool" where
  "known i r \<longleftrightarrow> map_of (rt_tab r) i \<noteq> None"

text \<open>A send on a channel with room and a closed flow are both ready: \<open>pick\<close> says which the select takes.\<close>

definition deliver_to :: "bool \<Rightarrow> u32 \<Rightarrow> byte list \<Rightarrow> Router \<Rightarrow> Router" where
  "deliver_to pick i payload r =
     (case map_of (rt_tab r) i of
        None \<Rightarrow> r
      | Some f \<Rightarrow>
          if length (fl_C (rt_flows r f)) < queueLen \<and> \<not> (fl_closed (rt_flows r f) \<and> pick)
          then r\<lparr>rt_flows := (rt_flows r)(f := (rt_flows r f)\<lparr>fl_C := fl_C (rt_flows r f) @ [payload]\<rparr>)\<rparr>
          else r)"

definition receive :: "byte list \<Rightarrow> Router \<Rightarrow> Router" where
  "receive buf r =
     (case DecodeDatagram buf of
        Inl e \<Rightarrow> r
      | Inr d \<Rightarrow>
          if d_Type d = 0 then r\<lparr>rt_stage := Ready (d_FlowID d) (d_Payload d)\<rparr>
          else if d_Type d = 1 then (if known (d_FlowID d) r then r\<lparr>rt_stage := Checked d\<rparr> else r)
          else r)"

definition reassemble :: "time \<Rightarrow> Router \<Rightarrow> Router go" where
  "reassemble now r =
     (case rt_stage r of
        Checked d \<Rightarrow>
          (case Push (rt_re r) d now of
             (re, Panic) \<Rightarrow> Panic
           | (re, Ret (Inr (Some pkt))) \<Rightarrow> Ret (r\<lparr>rt_re := re, rt_stage := Ready (d_FlowID d) pkt\<rparr>)
           | (re, Ret x) \<Rightarrow> Ret (r\<lparr>rt_re := re, rt_stage := Idle\<rparr>))
      | _ \<Rightarrow> Ret r)"

definition hand_over :: "bool \<Rightarrow> Router \<Rightarrow> Router" where
  "hand_over pick r =
     (case rt_stage r of
        Ready i pkt \<Rightarrow> (deliver_to pick i pkt r)\<lparr>rt_stage := Idle\<rparr>
      | _ \<Rightarrow> r)"

text \<open>One iteration of \<^verbatim>\<open>Run\<close> with nothing in between.\<close>

definition run_iteration :: "byte list \<Rightarrow> time \<Rightarrow> bool \<Rightarrow> Router \<Rightarrow> Router go" where
  "run_iteration buf now pick r =
     (case reassemble now (receive buf r) of Panic \<Rightarrow> Panic | Ret r \<Rightarrow> Ret (hand_over pick r))"

text \<open>
  \<^verbatim>\<open>PacketConn\<close>: a flow and its \<^verbatim>\<open>Done\<close> channel. Of the ready cases of \<^verbatim>\<open>Read\<close>, \<open>data\<close> says whether the
  select takes the packet; \<open>None\<close> is a read that blocks.
\<close>

definition pc_Write :: "nat \<Rightarrow> byte list \<Rightarrow> int \<Rightarrow> (nat \<Rightarrow> error option) \<Rightarrow> Router \<Rightarrow> byte list list \<times> (error + nat) \<times> Router" where
  "pc_Write f b mx err r =
     (case Send (fl_ID (rt_flows r f)) b mx err r of
        ((sent, Some e), r) \<Rightarrow> (sent, Inl e, r)
      | ((sent, None), r) \<Rightarrow> (sent, Inr (length b), r))"

definition pc_Read :: "nat \<Rightarrow> bool \<Rightarrow> bool \<Rightarrow> nat \<Rightarrow> Router \<Rightarrow> (error + byte list) option \<times> Router" where
  "pc_Read f finished data n r =
     (case fl_C (rt_flows r f) of
        [] \<Rightarrow> (if finished \<or> fl_closed (rt_flows r f) then (Some (Inl EOF), r) else (None, r))
      | pkt # rest \<Rightarrow>
          if (finished \<or> fl_closed (rt_flows r f)) \<and> \<not> data then (Some (Inl EOF), r)
          else (Some (Inr (take n pkt)), r\<lparr>rt_flows := (rt_flows r)(f := (rt_flows r f)\<lparr>fl_C := rest\<rparr>)\<rparr>))"

definition pc_Close :: "nat \<Rightarrow> Router \<Rightarrow> byte list list \<times> Router" where
  "pc_Close f r = CloseFlow (fl_ID (rt_flows r f)) r"

subsection \<open>Runs\<close>

datatype router_op =
    ORegister u32
  | OUnregister u32
  | OSetOverhead int
  | OSend u32 "byte list" int "nat \<Rightarrow> error option"
  | OReceive "byte list"
  | OReassemble time
  | OHandOver bool
  | ORead nat bool bool nat

text \<open>A receive starts only when the previous iteration is done.\<close>

fun router_step :: "Router \<Rightarrow> router_op \<Rightarrow> Router" where
  "router_step r (ORegister i) = snd (Register i r)"
| "router_step r (OUnregister i) = Unregister i r"
| "router_step r (OSetOverhead n) = SetOverhead n r"
| "router_step r (OSend i p mx err) = snd (Send i p mx err r)"
| "router_step r (OReceive buf) = (if rt_stage r = Idle then receive buf r else r)"
| "router_step r (OReassemble now) = (case reassemble now r of Panic \<Rightarrow> r | Ret r \<Rightarrow> r)"
| "router_step r (OHandOver pick) = hand_over pick r"
| "router_step r (ORead f finished data n) = snd (pc_Read f finished data n r)"

definition stage_ok :: "stage \<Rightarrow> bool" where
  "stage_ok st = (case st of Checked d \<Rightarrow> fragment_ok d | _ \<Rightarrow> True)"

definition router_inv :: "Router \<Rightarrow> bool" where
  "router_inv r \<longleftrightarrow> re_inv (rt_re r) \<and> stage_ok (rt_stage r) \<and> distinct (map fst (rt_tab r)) \<and>
     list_all (\<lambda>p. snd p < rt_next r \<and> fl_ID (rt_flows r (snd p)) = fst p \<and> \<not> fl_closed (rt_flows r (snd p))) (rt_tab r) \<and>
     distinct (map snd (rt_tab r)) \<and> (\<forall>f. length (fl_C (rt_flows r f)) \<le> queueLen)"

lemma router_inv_tab:
  assumes "router_inv r" "map_of (rt_tab r) i = Some f"
  shows "f < rt_next r" "fl_ID (rt_flows r f) = i" "\<not> fl_closed (rt_flows r f)"
  using assms map_of_SomeD [OF assms(2)] by (auto simp: router_inv_def list_all_iff)

lemma tab_other:
  "router_inv r \<Longrightarrow> map_of (rt_tab r) i = Some f \<Longrightarrow> (j, g) \<in> set (AList.delete i (rt_tab r)) \<Longrightarrow> g \<noteq> f"
  using router_inv_tab(2) [of r i f] by (auto simp: router_inv_def list_all_iff set_al_delete)

lemma distinct_snd_delete: "distinct (map snd m) \<Longrightarrow> distinct (map snd (AList.delete k m))"
  by (induction m) (auto simp: set_al_delete)

lemma update_as_delete:
  "distinct (map fst m) \<Longrightarrow> mset (AList.update k v m) = add_mset (k, v) (mset (AList.delete k m))"
proof (induction m)
  case (Cons x m)
  then show ?case by (cases x) (auto simp: delete_absent map_of_eq_None_iff)
qed simp

lemma distinct_snd_update:
  assumes "distinct (map fst m)" "distinct (map snd m)" "v \<notin> snd ` set (AList.delete k m)"
  shows "distinct (map snd (AList.update k v m))"
proof -
  have "mset (map snd (AList.update k v m)) = mset (map snd ((k, v) # AList.delete k m))"
    by (simp add: update_as_delete [OF assms(1)])
  moreover have "distinct (map snd ((k, v) # AList.delete k m))" using assms(2,3) by (simp add: distinct_snd_delete)
  ultimately show ?thesis by (metis mset_eq_imp_distinct_iff)
qed

lemma router_Register: "router_inv r \<Longrightarrow> router_inv (snd (Register i r))"
proof -
  assume inv: "router_inv r"
  define h where "h = (rt_flows r)(rt_next r := \<lparr>fl_ID = i, fl_C = [], fl_closed = False\<rparr>)"
  define h' where "h' = (case map_of (rt_tab r) i of None \<Rightarrow> h | Some f \<Rightarrow> h(f := (h f)\<lparr>fl_closed := True\<rparr>))"
  have eq: "snd (Register i r) = r\<lparr>rt_next := Suc (rt_next r), rt_flows := h', rt_tab := AList.update i (rt_next r) (rt_tab r)\<rparr>"
    by (simp add: Register_def Let_def Flow_Close_def h_def h'_def split: option.split)
  have d: "distinct (map fst (rt_tab r))" "distinct (map snd (rt_tab r))" using inv by (simp_all add: router_inv_def)
  have new: "h' (rt_next r) = \<lparr>fl_ID = i, fl_C = [], fl_closed = False\<rparr>"
    using router_inv_tab(1) [OF inv, of i] by (auto simp: h'_def h_def split: option.split)
  have old: "g < rt_next r \<and> h' g = rt_flows r g" if "(j, g) \<in> set (AList.delete i (rt_tab r))" for j g
    using that inv tab_other [OF inv _ that] by (auto simp: h'_def h_def router_inv_def list_all_iff set_al_delete split: option.split)
  have "set (AList.update i (rt_next r) (rt_tab r)) = insert (i, rt_next r) (set (AList.delete i (rt_tab r)))"
    using arg_cong [OF update_as_delete [OF d(1), of i "rt_next r"], of set_mset] by simp
  moreover have "fl_ID (h' g) = j \<and> \<not> fl_closed (h' g) \<and> g < Suc (rt_next r)" if "(j, g) \<in> set (AList.delete i (rt_tab r))" for j g
    using old [OF that] that inv by (auto simp: router_inv_def list_all_iff set_al_delete)
  ultimately have "list_all (\<lambda>p. snd p < Suc (rt_next r) \<and> fl_ID (h' (snd p)) = fst p \<and> \<not> fl_closed (h' (snd p)))
      (AList.update i (rt_next r) (rt_tab r))" using new by (auto simp: list_all_iff)
  moreover have "distinct (map snd (AList.update i (rt_next r) (rt_tab r)))"
    using old by (intro distinct_snd_update d) fastforce
  moreover have "length (fl_C (h' f)) \<le> queueLen" for f
    using inv by (auto simp: h'_def h_def router_inv_def split: option.split)
  ultimately show ?thesis unfolding eq using inv by (simp add: router_inv_def al_distinct)
qed

lemma router_Unregister: "router_inv r \<Longrightarrow> router_inv (Unregister i r)"
proof -
  assume inv: "router_inv r"
  define h where "h = (case map_of (rt_tab r) i of None \<Rightarrow> rt_flows r | Some f \<Rightarrow> (rt_flows r)(f := (rt_flows r f)\<lparr>fl_closed := True\<rparr>))"
  have eq: "Unregister i r = r\<lparr>rt_tab := AList.delete i (rt_tab r), rt_flows := h, rt_re := RemoveFlow (rt_re r) i\<rparr>"
    by (simp add: Unregister_def Let_def Flow_Close_def h_def split: option.split)
  have "h g = rt_flows r g" if "(j, g) \<in> set (AList.delete i (rt_tab r))" for j g
    using tab_other [OF inv _ that] by (auto simp: h_def split: option.split)
  then have "list_all (\<lambda>p. snd p < rt_next r \<and> fl_ID (h (snd p)) = fst p \<and> \<not> fl_closed (h (snd p))) (AList.delete i (rt_tab r))"
    using inv by (auto simp: router_inv_def list_all_iff set_al_delete)
  moreover have "length (fl_C (h f)) \<le> queueLen" for f
    using inv by (auto simp: h_def router_inv_def split: option.split)
  ultimately show ?thesis unfolding eq using inv re_inv_RemoveFlow [of "rt_re r" i]
    by (simp add: router_inv_def al_distinct distinct_snd_delete)
qed

lemma router_receive: "router_inv r \<Longrightarrow> router_inv (receive buf r)"
proof (cases "DecodeDatagram buf")
  case (Inr d)
  assume inv: "router_inv r"
  have "fragment_ok d" if "d_Type d = 1" using that DecodeDatagram_valid(2) [OF Inr] by (simp add: fragment_ok_def udp_consts)
  then show ?thesis using inv Inr by (auto simp: receive_def router_inv_def stage_ok_def)
qed (simp add: receive_def)

lemma reassemble_cases:
  assumes "router_inv r"
  shows "\<exists>re st. reassemble now r = Ret (r\<lparr>rt_re := re, rt_stage := st\<rparr>) \<and> re_inv re \<and> stage_ok st"
proof (cases "rt_stage r")
  case (Checked d)
  have ok: "fragment_ok d" "re_inv (rt_re r)" using assms Checked by (auto simp: router_inv_def stage_ok_def)
  obtain re res where p: "Push (rt_re r) d now = (re, res)" by fastforce
  show ?thesis using Push_inv [OF ok(2,1) p] p Checked
    by (intro exI [of _ re] exI [of _ "case res of Ret (Inr (Some pkt)) \<Rightarrow> Ready (d_FlowID d) pkt | _ \<Rightarrow> Idle"])
      (auto simp: reassemble_def stage_ok_def split: go.split sum.split option.split)
next
  case Idle
  then show ?thesis using assms
    by (intro exI [of _ "rt_re r"] exI [of _ "rt_stage r"]) (simp add: reassemble_def router_inv_def)
next
  case (Ready i p)
  then show ?thesis using assms
    by (intro exI [of _ "rt_re r"] exI [of _ "rt_stage r"]) (simp add: reassemble_def router_inv_def)
qed

lemma router_flow_C:
  assumes "router_inv r" "length q \<le> queueLen"
  shows "router_inv (r\<lparr>rt_flows := (rt_flows r)(f := (rt_flows r f)\<lparr>fl_C := q\<rparr>)\<rparr>)"
  using assms by (auto simp: router_inv_def list_all_iff)

lemma router_deliver_to: "router_inv r \<Longrightarrow> router_inv (deliver_to pick i p r)"
  unfolding deliver_to_def by (auto intro!: router_flow_C split: option.split)

lemma router_hand_over: "router_inv r \<Longrightarrow> router_inv (hand_over pick r)"
  using router_deliver_to [of r pick] by (auto simp: hand_over_def router_inv_def stage_ok_def split: stage.split)

lemma router_Read: "router_inv r \<Longrightarrow> router_inv (snd (pc_Read f finished data n r))"
proof -
  assume inv: "router_inv r"
  then have "length (fl_C (rt_flows r f)) \<le> queueLen" by (simp add: router_inv_def)
  then show ?thesis using inv by (auto simp: pc_Read_def intro!: router_flow_C split: list.split)
qed

lemma Send_frame: "\<exists>n. snd (Send i p mx err r) = r\<lparr>rt_pkt := n\<rparr>"
  by (auto simp: Send_def Let_def split: sum.split)

lemma router_step_inv: "router_inv r \<Longrightarrow> router_inv (router_step r a)"
proof (cases a)
  case (OSend i p mx err)
  assume "router_inv r"
  then show ?thesis using OSend Send_frame [of i p mx err r] by (auto simp: router_inv_def)
next
  case (OReassemble now)
  assume "router_inv r"
  then show ?thesis using OReassemble reassemble_cases [of r now] by (auto simp: router_inv_def)
next
  case (OSetOverhead n)
  assume "router_inv r"
  then show ?thesis using OSetOverhead by (auto simp: SetOverhead_def router_inv_def)
qed (auto simp: router_Register router_Unregister router_receive router_hand_over router_Read)

lemma router_inv_New: "router_inv (NewRouter n)"
  using re_inv_NewReassembler by (simp add: router_inv_def NewRouter_def Let_def stage_ok_def)

interpretation router: invariant_machine "\<lambda>r. r = NewRouter n" router_step router_inv for n
  by unfold_locales (auto simp: router_inv_New router_step_inv)

subsection \<open>End to end\<close>

fun run_all :: "Router \<Rightarrow> (byte list \<times> time \<times> bool) list \<Rightarrow> Router go" where
  "run_all r [] = Ret r"
| "run_all r ((buf, now, pick) # rest) = (case run_iteration buf now pick r of Panic \<Rightarrow> Panic | Ret r \<Rightarrow> run_all r rest)"

text \<open>A fragment of a known flow goes through the reassembler; what it completes reaches the flow.\<close>

lemma run_iteration_fragment:
  assumes "DecodeDatagram buf = Inr d" "d_Type d = 1" "known (d_FlowID d) r" "deliver (rt_re r) buf now = (re, res)"
  shows "run_iteration buf now pick r =
    (case res of
       Panic \<Rightarrow> Panic
     | Ret (Inr (Some pkt)) \<Rightarrow> Ret ((deliver_to pick (d_FlowID d) pkt (r\<lparr>rt_re := re, rt_stage := Ready (d_FlowID d) pkt\<rparr>))\<lparr>rt_stage := Idle\<rparr>)
     | Ret x \<Rightarrow> Ret (r\<lparr>rt_re := re, rt_stage := Idle\<rparr>))"
  using assms by (simp add: run_iteration_def receive_def reassemble_def hand_over_def deliver_def split: go.split sum.split option.split)

definition enqueued :: "Router \<Rightarrow> Reassembler \<Rightarrow> nat \<Rightarrow> byte list \<Rightarrow> Router" where
  "enqueued r re f p = r\<lparr>rt_re := re, rt_flows := (rt_flows r)(f := (rt_flows r f)\<lparr>fl_C := fl_C (rt_flows r f) @ [p]\<rparr>)\<rparr>"

lemma deliver_to_open:
  "map_of (rt_tab r) i = Some f \<Longrightarrow> \<not> fl_closed (rt_flows r f) \<Longrightarrow> length (fl_C (rt_flows r f)) < queueLen \<Longrightarrow>
   deliver_to pick i p r = enqueued r (rt_re r) f p"
  by (simp add: deliver_to_def enqueued_def)

lemma run_all_fragments:
  assumes "map_of (rt_tab r) i = Some f" "\<not> fl_closed (rt_flows r f)" "length (fl_C (rt_flows r f)) < queueLen" "rt_stage r = Idle"
    and "list_all (\<lambda>(buf, now, pick). \<exists>d. DecodeDatagram buf = Inr d \<and> d_Type d = 1 \<and> d_FlowID d = i) (xs @ [y])"
    and "deliver_all (rt_re r) (map (\<lambda>(buf, now, pick). (buf, now)) (xs @ [y])) =
      (re, replicate (length xs) (Ret (Inr None)) @ [Ret (Inr (Some p))])"
  shows "run_all r (xs @ [y]) = Ret (enqueued r re f p)"
  using assms
proof (induction xs arbitrary: r)
  case Nil
  obtain buf now pick where y: "y = (buf, now, pick)" by (metis surj_pair)
  obtain d where d: "DecodeDatagram buf = Inr d" "d_Type d = 1" "d_FlowID d = i" using Nil.prems(5) y by auto
  have dv: "deliver (rt_re r) buf now = (re, Ret (Inr (Some p)))"
    using Nil.prems(6) y by (auto simp: Let_def split: prod.splits)
  have k: "known (d_FlowID d) r" using Nil.prems(1) d by (simp add: known_def)
  show ?case using Nil.prems(1-4) d(3) unfolding y
    by (simp add: run_iteration_fragment [OF d(1,2) k dv] deliver_to_open [of _ i f] enqueued_def)
next
  case (Cons x xs)
  obtain buf now pick where x: "x = (buf, now, pick)" by (metis surj_pair)
  obtain d where d: "DecodeDatagram buf = Inr d" "d_Type d = 1" "d_FlowID d = i" using Cons.prems(5) x by auto
  obtain re1 where dv: "deliver (rt_re r) buf now = (re1, Ret (Inr None))"
    and rest: "deliver_all re1 (map (\<lambda>(buf, now, pick). (buf, now)) (xs @ [y])) =
      (re, replicate (length xs) (Ret (Inr None)) @ [Ret (Inr (Some p))])"
    using Cons.prems(6) x by (auto simp: Let_def split: prod.splits)
  have k: "known (d_FlowID d) r" using Cons.prems(1) d by (simp add: known_def)
  have "run_all (r\<lparr>rt_re := re1, rt_stage := Idle\<rparr>) (xs @ [y]) = Ret (enqueued (r\<lparr>rt_re := re1, rt_stage := Idle\<rparr>) re f p)"
    using Cons.prems rest by (intro Cons.IH) simp_all
  moreover have "enqueued (r\<lparr>rt_re := re1, rt_stage := Idle\<rparr>) re f p = enqueued r re f p"
    using Cons.prems(4) by (simp add: enqueued_def)
  ultimately show ?case unfolding x by (simp add: run_iteration_fragment [OF d(1,2) k dv])
qed

text \<open>
  After the packet is complete its slot is gone, and a late duplicate opens a new one. \<open>seen_part\<close> says that the
  slot, if there is one, has only fragments of the indices \<open>S\<close>: while an index is missing nothing is delivered,
  whatever the instants, and whether the reassembler has room or not.
\<close>

definition part_of :: "nat \<Rightarrow> nat set \<Rightarrow> reSlot \<Rightarrow> bool" where
  "part_of n S s \<longleftrightarrow> (rs_count s = n \<longrightarrow> (\<forall>j<n. rs_parts s ! j \<noteq> [] \<longrightarrow> j \<in> S))"

definition seen_part :: "reKey \<Rightarrow> nat \<Rightarrow> nat set \<Rightarrow> Reassembler \<Rightarrow> bool" where
  "seen_part key n S re \<longleftrightarrow> re_inv re \<and>
     (case map_of (re_slots re) key of None \<Rightarrow> True | Some s \<Rightarrow> part_of n S s)"

lemma parts_missing: "j < length ps \<Longrightarrow> ps ! j = [] \<Longrightarrow> parts_present ps < length ps"
  unfolding parts_present_def by (metis (mono_tags, lifting) length_filter_less nth_mem)

lemma Push_existing_part:
  assumes "seen_part key n S r" "map_of (re_slots r) key = Some s" "fragment_ok d" "unat (d_Count d) = n"
    "\<not> {0..<n} \<subseteq> insert (unat (d_Index d)) S" "Push_existing r key s d = (r', res)"
  shows "res \<noteq> Ret (Inr (Some out))"
    "case map_of (re_slots r') key of None \<Rightarrow> True | Some s \<Rightarrow> part_of n (insert (unat (d_Index d)) S) s"
proof -
  let ?i = "unat (d_Index d)"
  have s: "slot_inv s" using assms(1) slot_inv_of [OF _ assms(2)] by (simp add: seen_part_def)
  obtain m where "m \<in> {0..<n}" "m \<notin> insert ?i S" using assms(5) by blast
  then have m: "m < n" "m \<noteq> ?i" "m \<notin> S" by auto
  have part: "j \<in> S" if "rs_count s = n" "j < n" "rs_parts s ! j \<noteq> []" for j
    using assms(1,2) that by (auto simp: seen_part_def part_of_def)
  have got: "parts_present ((rs_parts s)[?i := d_Payload d]) < n" if "rs_count s = n"
    using part [OF that m(1)] m(1,2,3) that s parts_missing [of m "(rs_parts s)[?i := d_Payload d]"] by (auto simp: slot_inv_def)
  have full: "Suc (rs_got s) < n" if "rs_count s = n" "?i < n" "rs_parts s ! ?i = []"
    using got [OF that(1)] parts_present_update [of ?i "rs_parts s" "d_Payload d"] that s fragment_ok_bounds(3) [OF assms(3)]
    by (simp add: slot_inv_def)
  show "res \<noteq> Ret (Inr (Some out))"
    using assms(4,6) full fragment_ok_bounds(1) [OF assms(3)] by (auto simp: Push_existing_def Let_def split: if_splits)
  show "case map_of (re_slots r') key of None \<Rightarrow> True | Some s \<Rightarrow> part_of n (insert ?i S) s"
    using assms(2,4,6)
    by (auto simp: Push_existing_def Let_def map_of_re_drop al_lookup part_of_def nth_list_update intro: part split: if_splits)
qed

lemma Push_new_part:
  assumes "map_of (re_slots r) key = None" "re_inv r" "unat (d_Count d) = n" "Push_new r key d now = (r', res)"
  shows "case map_of (re_slots r') key of None \<Rightarrow> True | Some s \<Rightarrow> part_of n (insert (unat (d_Index d)) S) s"
proof -
  define q where "q = (if int (length (re_slots r)) \<ge> re_maxSlots r then re_evictOldest r else r)"
  have "shrinks r q" by (simp add: q_def)
  then have "map_of (re_slots q) key = None" using assms(1) unfolding shrinks_def by blast
  then show ?thesis using assms(3,4) unfolding Push_new_def Let_def q_def [symmetric]
    by (auto simp: al_lookup part_of_def nth_list_update split: if_splits)
qed

lemma Push_part:
  assumes "seen_part (d_FlowID d, d_PacketID d) n S r" "fragment_ok d" "unat (d_Count d) = n"
    "\<not> {0..<n} \<subseteq> insert (unat (d_Index d)) S"
  shows "\<exists>r' x. Push r d now = (r', Ret x) \<and> seen_part (d_FlowID d, d_PacketID d) n (insert (unat (d_Index d)) S) r' \<and> (\<forall>out. x \<noteq> Inr (Some out))"
proof -
  let ?key = "(d_FlowID d, d_PacketID d)" and ?q = "re_expire r now"
  obtain r' res where p: "Push r d now = (r', res)" by fastforce
  have i: "re_inv r" "re_inv ?q" using assms(1) shrinks_expire [of r now] by (auto simp: seen_part_def shrinks_def)
  have e: "seen_part ?key n S ?q" using assms(1) i by (auto simp: seen_part_def re_expire_lookup split: option.splits)
  have k: "re_inv r'" "res \<noteq> Panic" using Push_inv [OF i(1) assms(2) p] by simp_all
  have f: "d_Type d = frameFragment" using assms(2) by (simp add: fragment_ok_def)
  have "(\<forall>out. res \<noteq> Ret (Inr (Some out))) \<and>
      (case map_of (re_slots r') ?key of None \<Rightarrow> True | Some s \<Rightarrow> part_of n (insert (unat (d_Index d)) S) s)"
  proof (cases "map_of (re_slots ?q) ?key")
    case None
    then have "Push_new ?q ?key d now = (r', res)" using p f by (simp add: Push_def Let_def)
    then show ?thesis using Push_new_inv [OF i(2) None assms(2)] Push_new_part [OF None i(2) assms(3)] by blast
  next
    case (Some s)
    then have "Push_existing ?q ?key s d = (r', res)" using p f by (simp add: Push_def Let_def)
    then show ?thesis using Push_existing_part [OF e Some assms(2-4)] by blast
  qed
  then show ?thesis using p k by (cases res) (auto simp: seen_part_def)
qed

lemma Push_done: "Push r d now = (r', Ret (Inr (Some out))) \<Longrightarrow> map_of (re_slots r') (d_FlowID d, d_PacketID d) = None"
  by (auto simp: Push_def Push_existing_def Push_new_def Let_def map_of_re_drop split: if_splits option.splits)

lemma deliver_all_inv: "re_inv r \<Longrightarrow> deliver_all r xs = (r', res) \<Longrightarrow> re_inv r'"
proof (induction r xs arbitrary: r' res rule: deliver_all.induct)
  case (2 r bs now rest)
  then show ?case using deliver_inv [OF 2(2)] by (fastforce simp: Let_def split: prod.splits)
qed simp

lemma run_all_late:
  assumes sp: "splittable p cap n" "validateFlow i = None" "pid \<noteq> 0"
    and "map_of (rt_tab r) i = Some f" "rt_stage r = Idle" "seen_part (i, pid) n S (rt_re r)"
    and "\<forall>(k, now, pick) \<in> set zs. k < n" "\<not> {0..<n} \<subseteq> S \<union> fst ` set zs"
  shows "\<exists>re. run_all r (map (\<lambda>(k, now, pick). (fragment_frame i pid p cap n k, now, pick)) zs) = Ret (r\<lparr>rt_re := re\<rparr>)"
  using assms(4-)
proof (induction zs arbitrary: r S)
  case Nil
  then show ?case by (intro exI [of _ "rt_re r"]) simp
next
  case (Cons z zs)
  obtain k now pick where z: "z = (k, now, pick)" by (metis surj_pair)
  let ?d = "fragment_datagram i pid p cap n k" and ?b = "fragment_frame i pid p cap n k"
  have k: "k < n" using Cons.prems(4) z by simp
  note fr = splittable_fragment [OF sp(1) k]
  have d: "d_FlowID ?d = i" "d_PacketID ?d = pid" "unat (d_Count ?d) = n" "unat (d_Index ?d) = k" "d_Type ?d = 1"
    using fr by (simp_all add: fragment_datagram_def udp_consts)
  have dec: "DecodeDatagram ?b = Inr ?d"
    using fr(1) sp by (intro DecodeDatagram_fragment) (auto simp: fragment_ok_def fragment_datagram_def)
  have "\<not> {0..<n} \<subseteq> insert k S" using Cons.prems(5) z by auto
  then obtain re x where P: "Push (rt_re r) ?d now = (re, Ret x)" "seen_part (i, pid) n (insert k S) re" "\<forall>out. x \<noteq> Inr (Some out)"
    using Push_part [of ?d n S "rt_re r" now] Cons.prems(3) fr(1) unfolding d by blast
  have "run_iteration ?b now pick r = Ret (r\<lparr>rt_re := re, rt_stage := Idle\<rparr>)"
    using P(3) Cons.prems(1)
    by (auto simp: run_iteration_fragment [OF dec d(5)] known_def d(1) deliver_fragment [OF sp k] P(1) split: sum.split option.split)
  then have it: "run_iteration ?b now pick r = Ret (r\<lparr>rt_re := re\<rparr>)" using Cons.prems(2) by (cases r) simp
  have "\<exists>re'. run_all (r\<lparr>rt_re := re\<rparr>) (map (\<lambda>(k, now, pick). (fragment_frame i pid p cap n k, now, pick)) zs) = Ret (r\<lparr>rt_re := re\<rparr>\<lparr>rt_re := re'\<rparr>)"
    using Cons.prems P(2) z by (intro Cons.IH [of _ "insert k S"]) auto
  then show ?case by (auto simp: z it)
qed

lemma send_frames_all: "send_frames err k frames = (sent, None) \<Longrightarrow> sent = frames"
  by (induction frames arbitrary: k sent) (auto split: option.splits prod.splits)

lemma next_packet_nonzero: "next_packet pkt \<noteq> 0"
  by (auto simp: next_packet_def)

lemma Send_None:
  assumes "Send i p mx err r = ((frames, None), r')"
  obtains m where "EncodePacket i (rt_pkt r') p m = Inr frames" "m \<le> mx"
proof -
  let ?m = "if rt_overhead r > 0 \<and> mx > rt_overhead r then mx - rt_overhead r else mx"
  have "EncodePacket i (rt_pkt r') p ?m = Inr frames"
    using assms by (auto simp: Send_def Let_def split: if_splits sum.splits dest: send_frames_all)
  then show thesis by (rule that) simp
qed

lemma run_iteration_data:
  assumes "EncodeData i p = Inr buf" "map_of (rt_tab r) i = Some f" "\<not> fl_closed (rt_flows r f)"
    "length (fl_C (rt_flows r f)) < queueLen" "rt_stage r = Idle"
  shows "run_iteration buf now pick r = Ret (enqueued r (rt_re r) f p)"
proof -
  obtain d where "DecodeDatagram buf = Inr d" "d_Type d = 0" "d_FlowID d = i" "d_Payload d = p"
    using DecodeDatagram_Data [of i p] assms(1) by (auto simp: EncodeData_Inr udp_consts)
  then show ?thesis using assms(2-5)
    by (simp add: run_iteration_def receive_def reassemble_def hand_over_def deliver_to_open [of _ i f] enqueued_def)
qed

lemma run_all_append: "run_all r (xs @ ys) = (case run_all r xs of Panic \<Rightarrow> Panic | Ret r \<Rightarrow> run_all r ys)"
  by (induction r xs rule: run_all.induct) (auto split: go.split)

text \<open>A DATA datagram is queued each time it arrives.\<close>

lemma run_all_copies:
  assumes "EncodeData i p = Inr buf" "map_of (rt_tab r) i = Some f" "\<not> fl_closed (rt_flows r f)" "rt_stage r = Idle"
    "length (fl_C (rt_flows r f)) + length xs \<le> queueLen"
  shows "run_all r (map (\<lambda>(k, now, pick). (buf, now, pick)) xs) =
    Ret (r\<lparr>rt_flows := (rt_flows r)(f := (rt_flows r f)\<lparr>fl_C := fl_C (rt_flows r f) @ replicate (length xs) p\<rparr>)\<rparr>)"
  using assms(2-)
proof (induction xs arbitrary: r)
  case (Cons x xs)
  obtain k now pick where x: "x = (k, now, pick)" by (metis surj_pair)
  have "run_iteration buf now pick r = Ret (enqueued r (rt_re r) f p)"
    using Cons.prems by (intro run_iteration_data [OF assms(1)]) simp_all
  then show ?case using Cons.IH [of "enqueued r (rt_re r) f p"] Cons.prems by (simp add: x enqueued_def cong: if_cong)
qed simp

lemma deliver_all_done:
  assumes "splittable p cap n" "validateFlow i = None" "pid \<noteq> 0" "k < n"
    "deliver_all r (xs @ [(fragment_frame i pid p cap n k, now)]) = (re, replicate (length xs) a @ [Ret (Inr (Some out))])"
  shows "map_of (re_slots re) (i, pid) = None"
proof -
  obtain r1 as where "deliver_all r xs = (r1, as)" by fastforce
  then have "Push r1 (fragment_datagram i pid p cap n k) now = (re, Ret (Inr (Some out)))"
    using assms(5) by (auto simp: deliver_all_append deliver_fragment [OF assms(1-4)] Let_def split: prod.splits)
  from Push_done [OF this] show ?thesis by (simp add: fragment_datagram_def)
qed

text \<open>The fragments of a packet up to the one that completes it.\<close>

lemma router_fragments:
  assumes sp: "splittable p cap n" "validateFlow i = None" "pid \<noteq> 0"
    and inv: "router_inv rb" and t: "map_of (rt_tab rb) i = Some f" and q: "length (fl_C (rt_flows rb f)) < queueLen" and st: "rt_stage rb = Idle"
    and room: "map_of (re_slots (rt_re rb)) (i, pid) = None" "re_reserved (rt_re rb) + int (length p) \<le> re_maxBytes (rt_re rb)"
    and arr: "\<forall>(k, now, pick) \<in> set (xs @ [y]). k < n \<and> now - fst (snd (hd (xs @ [y]))) \<le> re_ttl (rt_re rb)"
    and last: "fst ` set xs \<noteq> {0..<n}" "fst ` set (xs @ [y]) = {0..<n}"
  shows "\<exists>re. run_all rb (map (\<lambda>(k, now, pick). (fragment_frame i pid p cap n k, now, pick)) (xs @ [y])) = Ret (enqueued rb re f p) \<and>
    re_inv re \<and> map_of (re_slots re) (i, pid) = None"
proof -
  let ?g = "\<lambda>(k :: nat, now :: time, pick :: bool). (k, now)"
  let ?F = "\<lambda>(k, now :: time, pick :: bool). (fragment_frame i pid p cap n k, now, pick)"
  let ?G = "\<lambda>(k, now). (fragment_frame i pid p cap n k, now)"
  have ri: "re_inv (rt_re rb)" using inv by (simp add: router_inv_def)
  have "snd (hd (map ?g xs @ [?g y])) = fst (snd (hd (xs @ [y])))" by (cases xs) (auto split: prod.splits)
  then have a1: "\<forall>(k, now) \<in> set (map ?g xs @ [?g y]). k < n \<and> now - snd (hd (map ?g xs @ [?g y])) \<le> re_ttl (rt_re rb)"
    using arr by (auto split: prod.splits)
  have a2: "fst ` set (map ?g xs) \<noteq> {0..<n}" "fst ` set (map ?g xs @ [?g y]) = {0..<n}"
    using last by (auto simp: image_image case_prod_unfold)
  obtain re where re: "deliver_all (rt_re rb) (map ?G (map ?g xs @ [?g y])) =
      (re, replicate (length xs) (Ret (Inr None)) @ [Ret (Inr (Some p))])"
    using deliver_all_fragments [OF sp ri room a1 a2] by auto
  have eq: "map (\<lambda>(buf, now, pick). (buf, now)) (map ?F xs @ [?F y]) = map ?G (map ?g xs @ [?g y])"
    by (auto split: prod.splits)
  have "\<exists>d. DecodeDatagram (fragment_frame i pid p cap n k) = Inr d \<and> d_Type d = 1 \<and> d_FlowID d = i" if "k < n" for k
  proof -
    have "DecodeDatagram (fragment_frame i pid p cap n k) = Inr (fragment_datagram i pid p cap n k)"
      using splittable_fragment(1) [OF sp(1) that, of i pid] sp(2,3)
      by (intro DecodeDatagram_fragment) (auto simp: fragment_ok_def fragment_datagram_def)
    then show ?thesis by (simp add: fragment_datagram_def udp_consts)
  qed
  then have l: "list_all (\<lambda>(buf, now, pick). \<exists>d. DecodeDatagram buf = Inr d \<and> d_Type d = 1 \<and> d_FlowID d = i) (map ?F xs @ [?F y])"
    using arr by (auto simp: list_all_iff)
  have "run_all rb (map ?F (xs @ [y])) = Ret (enqueued rb re f p)"
    using run_all_fragments [OF t router_inv_tab(3) [OF inv t] q st l, of re p] re unfolding eq by simp
  moreover have "re_inv re" by (rule deliver_all_inv [OF ri re])
  moreover have "map_of (re_slots re) (i, pid) = None"
    using deliver_all_done [OF sp, of "fst y" "rt_re rb" "map ?G (map ?g xs)"] re arr by (auto split: prod.splits)
  ultimately show ?thesis by blast
qed

text \<open>Both kinds of packet, with duplicates before and after.\<close>

lemma router_delivery_lemma:
  assumes s: "Send i p mx err ra = ((frames, None), ra')"
    and inv: "router_inv rb" and t: "map_of (rt_tab rb) i = Some f" and st: "rt_stage rb = Idle"
    and q: "length (fl_C (rt_flows rb f)) + (if length frames = 1 then length (xs @ y # zs) else 1) \<le> queueLen"
    and arr: "\<forall>(k, now, pick) \<in> set (xs @ y # zs). k < length frames"
    and whole: "fst ` set (xs @ [y]) = {0..<length frames}"
    and cut: "length frames = 1 \<or>
      map_of (re_slots (rt_re rb)) (i, rt_pkt ra') = None \<and> re_reserved (rt_re rb) + int (length p) \<le> re_maxBytes (rt_re rb) \<and>
      (\<forall>(k, now, pick) \<in> set (xs @ [y]). now - fst (snd (hd (xs @ [y]))) \<le> re_ttl (rt_re rb)) \<and>
      fst ` set xs \<noteq> {0..<length frames} \<and> \<not> {0..<length frames} \<subseteq> fst ` set zs"
  shows "\<exists>re. run_all rb (map (\<lambda>(k, now, pick). (frames ! k, now, pick)) (xs @ y # zs)) =
    Ret (rb\<lparr>rt_flows := (rt_flows rb)(f := (rt_flows rb f)\<lparr>fl_C := fl_C (rt_flows rb f) @
      replicate (if length frames = 1 then length (xs @ y # zs) else 1) p\<rparr>), rt_re := re\<rparr>)"
proof -
  obtain m where "EncodePacket i (rt_pkt ra') p m = Inr frames" using Send_None [OF s] by blast
  then show ?thesis
  proof (cases rule: EncodePacket_cases)
    case (whole bs)
    have "frames ! k = bs" if "k < length frames" for k using that whole(2) by simp
    then have eq: "map (\<lambda>(k, now, pick). (frames ! k, now, pick)) (xs @ y # zs) = map (\<lambda>(k, now, pick). (bs, now, pick)) (xs @ y # zs)"
      using arr by (intro map_cong) auto
    show ?thesis unfolding eq using run_all_copies [OF whole(1) t router_inv_tab(3) [OF inv t] st, of "xs @ y # zs"] q whole(2)
      by (intro exI [of _ "rt_re rb"]) simp
  next
    case (split cap)
    let ?n = "fragment_count (length p) cap" and ?pid = "rt_pkt ra'"
    let ?F = "\<lambda>(k, now :: time, pick :: bool). (fragment_frame i ?pid p cap ?n k, now, pick)"
    have n: "length frames = ?n" "length frames \<noteq> 1" using split(3,8) by simp_all
    have sp: "splittable p cap ?n" using split by (simp add: splittable_def)
    have "frames ! k = fragment_frame i ?pid p cap ?n k" if "k < length frames" for k using that split(8) n(1) by simp
    then have eq: "map (\<lambda>(k, now, pick). (frames ! k, now, pick)) (xs @ y # zs) = map ?F (xs @ [y]) @ map ?F zs"
      using arr by auto
    have room: "map_of (re_slots (rt_re rb)) (i, ?pid) = None" "re_reserved (rt_re rb) + int (length p) \<le> re_maxBytes (rt_re rb)"
      and last: "fst ` set xs \<noteq> {0..<?n}" "fst ` set (xs @ [y]) = {0..<?n}" and late: "\<not> {0..<?n} \<subseteq> fst ` set zs"
      and ttl: "\<forall>(k, now, pick) \<in> set (xs @ [y]). now - fst (snd (hd (xs @ [y]))) \<le> re_ttl (rt_re rb)"
      using cut whole n by simp_all
    have q1: "length (fl_C (rt_flows rb f)) < queueLen" using q n(2) by simp
    have a: "\<forall>(k, now, pick) \<in> set (xs @ [y]). k < ?n \<and> now - fst (snd (hd (xs @ [y]))) \<le> re_ttl (rt_re rb)"
      using ttl arr unfolding n(1) by auto
    obtain re where re: "run_all rb (map ?F (xs @ [y])) = Ret (enqueued rb re f p)" "re_inv re" "map_of (re_slots re) (i, ?pid) = None"
      using router_fragments [OF sp split(6,5) inv t q1 st room a last] by blast
    then have "seen_part (i, ?pid) ?n {} (rt_re (enqueued rb re f p))" by (simp add: seen_part_def enqueued_def)
    then obtain re' where "run_all (enqueued rb re f p) (map ?F zs) = Ret ((enqueued rb re f p)\<lparr>rt_re := re'\<rparr>)"
      using run_all_late [OF sp split(6,5), of "enqueued rb re f p" f "{}" zs] t st late arr unfolding n(1) by (auto simp: enqueued_def)
    then show ?thesis unfolding eq run_all_append re(1) using n(2) by (auto simp: enqueued_def)
  qed
qed

end
