(* ===== verification/Claim_Registry.thy ===== *)
theory Claim_Registry
  imports Nw2_Auth Nw2_Datagram
begin

section \<open>nw2 server: the registry of flow claims\<close>

text \<open>
  \<^verbatim>\<open>nw2/server/claim_registry.go\<close>, with the setup result and the readiness of \<^verbatim>\<open>flow_result.go\<close> and the forced
  errors of \<^verbatim>\<open>termination.go\<close>. A flow whose two directions use different carriers arrives as two halves,
  OPEN and ATTACH, on two connections; the registry keeps the first until the second arrives, for one
  generation of a session. A \<^verbatim>\<open>*claimEntry\<close> is a number into \<open>cr_heap\<close>, a \<^verbatim>\<open>*udpPermit\<close> and a \<^verbatim>\<open>*setupResult\<close>
  numbers into the lists of those handed out. A section under the lock is one function; what its caller does
  after the unlock is the list of actions it returns. Closing a closed channel is a panic, and so is the
  exhaustion of generations. Connections are numbers; diagnostic events and the arguments of formatted
  messages are left out. A loop over a map goes through the table in its order; the actions it returns may run
  in any order.
\<close>

subsection \<open>Errors and setup results\<close>

definition ErrInvalidHandler :: error where "ErrInvalidHandler = New ''nowhere: invalid handler''"
definition ErrPairTimeout :: error where "ErrPairTimeout = New ''nowhere: flow pair timeout''"
definition ErrPairLimit :: error where "ErrPairLimit = New ''nowhere: pending flow pair limit reached''"
definition ErrCarrierMismatch :: error where "ErrCarrierMismatch = New ''nowhere: flow physical carrier mismatch''"
definition ErrMetadataConflict :: error where "ErrMetadataConflict = New ''nowhere: flow metadata conflict''"
definition ErrDuplicateHalf :: error where "ErrDuplicateHalf = Wrapped '': duplicate flow half'' ErrMetadataConflict"
definition ErrSessionLimit :: error where "ErrSessionLimit = New ''nowhere: active session limit reached''"
definition ErrUpstreamNotConfigured :: error where "ErrUpstreamNotConfigured = New ''nowhere: upstream not configured''"
definition ErrDraining :: error where "ErrDraining = New ''nowhere: server draining''"
definition ErrManagerClosed :: error where "ErrManagerClosed = New ''nowhere: manager closed''"
definition ErrUnsupportedFlow :: error where "ErrUnsupportedFlow = New ''nowhere: unsupported flow''"
definition ErrPortalHopLimit :: error where "ErrPortalHopLimit = New ''nowhere: native Portal forwarding hop limit reached''"

text \<open>\<^verbatim>\<open>net.ErrClosed\<close> and \<^verbatim>\<open>context.Canceled\<close>.\<close>

definition net_ErrClosed :: error where "net_ErrClosed = New ''use of closed network connection''"
definition context_Canceled :: error where "context_Canceled = New ''context canceled''"

lemmas server_errors = ErrInvalidHandler_def ErrPairTimeout_def ErrPairLimit_def ErrCarrierMismatch_def ErrMetadataConflict_def
  ErrDuplicateHalf_def ErrSessionLimit_def ErrUpstreamNotConfigured_def ErrDraining_def ErrManagerClosed_def ErrUnsupportedFlow_def
  ErrPortalHopLimit_def net_ErrClosed_def context_Canceled_def

definition SetupResultReady :: byte where "SetupResultReady = 0"
definition SetupResultInvalidRequest :: byte where "SetupResultInvalidRequest = 1"
definition SetupResultMetadataConflict :: byte where "SetupResultMetadataConflict = 2"
definition SetupResultPairTimeout :: byte where "SetupResultPairTimeout = 3"
definition SetupResultFlowLimit :: byte where "SetupResultFlowLimit = 4"
definition SetupResultDialFailed :: byte where "SetupResultDialFailed = 5"
definition SetupResultSessionReplaced :: byte where "SetupResultSessionReplaced = 6"
definition SetupResultInternalError :: byte where "SetupResultInternalError = 7"

lemmas setup_codes = SetupResultReady_def SetupResultInvalidRequest_def SetupResultMetadataConflict_def SetupResultPairTimeout_def
  SetupResultFlowLimit_def SetupResultDialFailed_def SetupResultSessionReplaced_def SetupResultInternalError_def

text \<open>The error types \<^verbatim>\<open>*setupResultError\<close> and \<^verbatim>\<open>*forcedTermination\<close>, and \<^verbatim>\<open>errors.As\<close> for them.\<close>

definition setupResultError :: "byte \<Rightarrow> error" where
  "setupResultError code = Errorf ''nowhere: setup rejected: %s'' [uint code]"

fun as_setupResult :: "error \<Rightarrow> byte option" where
  "as_setupResult (Errorf s [c]) = (if s = ''nowhere: setup rejected: %s'' then Some (word_of_int c) else None)"
| "as_setupResult (Wrapped s e) = as_setupResult e"
| "as_setupResult e = None"

definition forcedTermination :: "error \<Rightarrow> error" where
  "forcedTermination cause = Wrapped ''nowhere: forced termination: '' cause"

fun isForcedTermination :: "error \<Rightarrow> bool" where
  "isForcedTermination (Wrapped s e) = (s = ''nowhere: forced termination: '' \<or> isForcedTermination e)"
| "isForcedTermination e = False"

definition markForcedTermination :: "error option \<Rightarrow> error" where
  "markForcedTermination cause =
     (let cause = (case cause of None \<Rightarrow> ErrManagerClosed | Some e \<Rightarrow> e)
      in if isForcedTermination cause then cause else forcedTermination cause)"

definition setupFailureCode :: "error \<Rightarrow> byte" where
  "setupFailureCode err =
     (case as_setupResult err of
        Some code \<Rightarrow> code
      | None \<Rightarrow>
          if errors_Is err ErrCarrierMismatch \<or> errors_Is err ErrInvalidFlowHeader \<or> errors_Is err ErrInvalidFrame
          then SetupResultInvalidRequest
          else if errors_Is err ErrMetadataConflict \<or> errors_Is err ErrDuplicateHalf then SetupResultMetadataConflict
          else if errors_Is err ErrPairTimeout then SetupResultPairTimeout
          else if errors_Is err ErrPairLimit \<or> errors_Is err ErrSessionLimit \<or> errors_Is err ErrDraining \<or> errors_Is err ErrPortalHopLimit
          then SetupResultFlowLimit
          else if errors_Is err ErrManagerClosed \<or> errors_Is err net_ErrClosed \<or> errors_Is err context_Canceled
          then SetupResultSessionReplaced
          else if errors_Is err ErrInvalidHandler \<or> errors_Is err ErrUpstreamNotConfigured then SetupResultInternalError
          else SetupResultDialFailed)"

subsection \<open>Claims and entries\<close>

type_synonym claimKey = "byte list \<times> u32"
type_synonym sessionGeneration = "byte list \<times> u64"

record claimMetadata =
  cm_Kind :: byte
  cm_Uplink :: byte
  cm_Downlink :: byte
  cm_Hops :: byte

text \<open>\<open>fc_UDP\<close> is the uplink and the downlink of a \<^verbatim>\<open>udpHalf\<close>, each possibly nil.\<close>

record flowClaim =
  fc_SessionID :: "byte list"
  fc_FlowID :: u32
  fc_Generation :: u64
  fc_BoundGeneration :: bool
  fc_Role :: byte
  fc_Carrier :: byte
  fc_Metadata :: claimMetadata
  fc_Target :: nw2_Target
  fc_Stream :: "nat option"
  fc_UDP :: "nat option \<times> nat option"

definition claim_selected :: "flowClaim \<Rightarrow> bool" where
  "claim_selected c \<longleftrightarrow> fc_Carrier c = cm_Downlink (fc_Metadata c)"

datatype claimEntryState = claimPending | claimActive | claimTerminal
datatype generationProvenance = generationProvisional | generationPhysical

record claimedFlow =
  cf_Metadata :: claimMetadata
  cf_Target :: "nw2_Target option"
  cf_Open :: "flowClaim option"
  cf_Attach :: "flowClaim option"
  cf_Duplex :: "flowClaim option"
  cf_Selected :: "flowClaim option"
  cf_Result :: "nat option"
  cf_Resolved :: bool
  cf_Released :: bool

text \<open>\<open>ce_target\<close> is \<open>None\<close> for the zero target of an entry whose OPEN half has not arrived.\<close>

record claimEntry =
  ce_key :: claimKey
  ce_generation :: u64
  ce_metadata :: claimMetadata
  ce_target :: "nw2_Target option"
  ce_open :: "flowClaim option"
  ce_attach :: "flowClaim option"
  ce_duplex :: "flowClaim option"
  ce_selected :: "nat option"
  ce_state :: claimEntryState
  ce_done :: bool
  ce_err :: "error option"
  ce_timer :: bool
  ce_permit :: "nat option"
  ce_pendingTCP :: bool
  ce_terminalConsumed :: bool
  ce_expiredAt :: "time option"
  ce_active :: "claimedFlow option"

record udpPermit =
  up_key :: sessionGeneration
  up_released :: bool

record setupResult =
  sr_writer :: nat
  sr_committed :: bool

record claimAbort =
  ab_flow :: "nat option"
  ab_claims :: "flowClaim list"
  ab_closed :: bool

record server_Limits =
  lm_PendingFlowsPerSession :: int
  lm_UDPFlowsPerSession :: int
  lm_AuthenticatedTCPIdleConnections :: int

definition DefaultFlowPairTimeout :: time where "DefaultFlowPairTimeout = 15 * 1000000000"
definition DefaultPendingFlowsPerSession :: int where "DefaultPendingFlowsPerSession = 4096"
definition DefaultUDPFlowsPerSession :: int where "DefaultUDPFlowsPerSession = 4096"
definition DefaultAuthenticatedTCPIdleConnections :: int where "DefaultAuthenticatedTCPIdleConnections = 4096"
definition DefaultPortalClaims :: int where "DefaultPortalClaims = 65536"

record claimRegistry =
  cr_pairTimeout :: time
  cr_limits :: server_Limits
  cr_terminalLimit :: int
  cr_entries :: "(claimKey \<times> nat) list"
  cr_closing :: "nat list"
  cr_terminalOrder :: "nat list"
  cr_generations :: "(byte list \<times> u64) list"
  cr_registered :: "(sessionGeneration \<times> int) list"
  cr_provenance :: "(sessionGeneration \<times> generationProvenance) list"
  cr_pending :: "(byte list \<times> int) list"
  cr_udpInUse :: "(sessionGeneration \<times> int) list"
  cr_nextGeneration :: u64
  cr_idleTCP :: int
  cr_accepting :: bool
  cr_closed :: bool
  cr_heap :: "nat \<Rightarrow> claimEntry"
  cr_fresh :: nat
  cr_permits :: "udpPermit list"
  cr_results :: "setupResult list"
  cr_aborts :: "claimAbort list"

definition default_limits :: "server_Limits \<Rightarrow> server_Limits" where
  "default_limits l =
     \<lparr>lm_PendingFlowsPerSession = (if lm_PendingFlowsPerSession l \<le> 0 then DefaultPendingFlowsPerSession else lm_PendingFlowsPerSession l),
      lm_UDPFlowsPerSession = (if lm_UDPFlowsPerSession l \<le> 0 then DefaultUDPFlowsPerSession else lm_UDPFlowsPerSession l),
      lm_AuthenticatedTCPIdleConnections =
        (if lm_AuthenticatedTCPIdleConnections l \<le> 0 then DefaultAuthenticatedTCPIdleConnections
         else lm_AuthenticatedTCPIdleConnections l)\<rparr>"

definition newClaimRegistry :: "time \<Rightarrow> server_Limits \<Rightarrow> (nat \<Rightarrow> claimEntry) \<Rightarrow> claimRegistry" where
  "newClaimRegistry pairTimeout limits heap =
     \<lparr>cr_pairTimeout = (if pairTimeout \<le> 0 then DefaultFlowPairTimeout else pairTimeout), cr_limits = default_limits limits,
      cr_terminalLimit = lm_PendingFlowsPerSession (default_limits limits), cr_entries = [], cr_closing = [], cr_terminalOrder = [],
      cr_generations = [], cr_registered = [], cr_provenance = [], cr_pending = [], cr_udpInUse = [], cr_nextGeneration = 0,
      cr_idleTCP = 0, cr_accepting = True, cr_closed = False, cr_heap = heap, cr_fresh = 0, cr_permits = [], cr_results = [],
      cr_aborts = []\<rparr>"

text \<open>The zero value of a missing key, and an update of one entry.\<close>

definition get0 :: "('k \<times> 'v::zero) list \<Rightarrow> 'k \<Rightarrow> 'v" where
  "get0 m k = (case map_of m k of None \<Rightarrow> 0 | Some v \<Rightarrow> v)"

definition set_entry :: "nat \<Rightarrow> (claimEntry \<Rightarrow> claimEntry) \<Rightarrow> claimRegistry \<Rightarrow> claimRegistry" where
  "set_entry p f r = r\<lparr>cr_heap := (cr_heap r)(p := f (cr_heap r p))\<rparr>"

definition decrement :: "'k \<Rightarrow> ('k \<times> int) list \<Rightarrow> ('k \<times> int) list" where
  "decrement k m = (if get0 m k \<le> 1 then AList.delete k m else AList.update k (get0 m k - 1) m)"

text \<open>What a caller does once it holds no lock.\<close>

datatype claim_action =
    CommitSetup nat byte
  | CloseHalf "nat option" error
  | CloseUDPHalf "nat option" "nat option" error
  | ReleasePermit nat
  | RejectReadiness nat error
  | CancelFlow nat error
  | FinishReject nat flowClaim error
  | AbortClose nat error
  | ForgetClosing

definition claim_close :: "flowClaim \<Rightarrow> error \<Rightarrow> claim_action list" where
  "claim_close c cause =
     (if fst (fc_UDP c) \<noteq> None \<or> snd (fc_UDP c) \<noteq> None then [CloseUDPHalf (fst (fc_UDP c)) (snd (fc_UDP c)) cause]
      else [CloseHalf (fc_Stream c) cause])"

definition close_all :: "flowClaim list \<Rightarrow> error \<Rightarrow> claim_action list" where
  "close_all claims cause = concat (map (\<lambda>c. claim_close c cause) claims)"

definition reject_setup :: "nat option \<Rightarrow> byte \<Rightarrow> claim_action list" where
  "reject_setup selected code = (case selected of None \<Rightarrow> [] | Some i \<Rightarrow> [CommitSetup i code])"

definition release_permit :: "nat option \<Rightarrow> claim_action list" where
  "release_permit permit = (case permit of None \<Rightarrow> [] | Some i \<Rightarrow> [ReleasePermit i])"

definition setupResultForClaim :: "flowClaim \<Rightarrow> claimRegistry \<Rightarrow> nat option \<times> claimRegistry" where
  "setupResultForClaim c r =
     (case fc_Stream c of
        None \<Rightarrow> (None, r)
      | Some s \<Rightarrow>
          if \<not> claim_selected c then (None, r)
          else (Some (length (cr_results r)), r\<lparr>cr_results := cr_results r @ [\<lparr>sr_writer = s, sr_committed = False\<rparr>]\<rparr>))"

definition validateClaim :: "flowClaim \<Rightarrow> error option" where
  "validateClaim c =
     (let m = fc_Metadata c in
      if fc_FlowID c = 0 then Some (Wrapped '': zero flow ID'' ErrCarrierMismatch)
      else if cm_Kind m \<noteq> FlowKindTCP \<and> cm_Kind m \<noteq> FlowKindUDP then Some (Wrapped '': invalid flow kind'' ErrCarrierMismatch)
      else if cm_Uplink m \<noteq> CarrierTLSTCP \<and> cm_Uplink m \<noteq> CarrierQUIC then Some (Wrapped '': invalid uplink'' ErrCarrierMismatch)
      else if cm_Downlink m \<noteq> CarrierTLSTCP \<and> cm_Downlink m \<noteq> CarrierQUIC
      then Some (Wrapped '': invalid downlink'' ErrCarrierMismatch)
      else if fc_Role c = FlowRoleOpen then
        if cm_Uplink m = cm_Downlink m \<or> fc_Carrier c \<noteq> cm_Uplink m then Some (Wrapped '': invalid open carrier'' ErrCarrierMismatch)
        else None
      else if fc_Role c = FlowRoleAttach then
        if cm_Uplink m = cm_Downlink m \<or> fc_Carrier c \<noteq> cm_Downlink m then Some (Wrapped '': invalid attach carrier'' ErrCarrierMismatch)
        else None
      else if fc_Role c = FlowRoleDuplex then
        if cm_Uplink m \<noteq> cm_Downlink m \<or> fc_Carrier c \<noteq> cm_Downlink m then Some (Wrapped '': invalid duplex carrier'' ErrCarrierMismatch)
        else None
      else Some (Wrapped '': invalid role'' ErrCarrierMismatch))"

definition opt_list :: "'a option \<Rightarrow> 'a list" where
  "opt_list x = (case x of None \<Rightarrow> [] | Some y \<Rightarrow> [y])"

definition entryClaims :: "claimEntry \<Rightarrow> flowClaim list" where
  "entryClaims e = opt_list (ce_duplex e) @ opt_list (ce_open e) @ opt_list (ce_attach e)"

definition selectedClaim :: "claimEntry \<Rightarrow> flowClaim option" where
  "selectedClaim e = find claim_selected (entryClaims e)"

definition flow_claims :: "claimedFlow \<Rightarrow> flowClaim list" where
  "flow_claims f = opt_list (cf_Duplex f) @ opt_list (cf_Open f) @ opt_list (cf_Attach f)"

definition closeClaimedFlow :: "claimedFlow option \<Rightarrow> error \<Rightarrow> claim_action list" where
  "closeClaimedFlow flow cause = (case flow of None \<Rightarrow> [] | Some f \<Rightarrow> close_all (flow_claims f) cause)"

subsection \<open>Generations\<close>

definition nextGenerationLocked :: "claimRegistry \<Rightarrow> (u64 \<times> claimRegistry) go" where
  "nextGenerationLocked r =
     (let g = cr_nextGeneration r + 1 in if g = 0 then Panic else Ret (g, r\<lparr>cr_nextGeneration := g\<rparr>))"

definition observeGenerationLocked :: "u64 \<Rightarrow> claimRegistry \<Rightarrow> claimRegistry" where
  "observeGenerationLocked g r = (if g > cr_nextGeneration r then r\<lparr>cr_nextGeneration := g\<rparr> else r)"

definition CurrentGeneration :: "byte list \<Rightarrow> claimRegistry \<Rightarrow> u64" where
  "CurrentGeneration sid r = get0 (cr_generations r) sid"

definition hasGenerationStateLocked :: "claimRegistry \<Rightarrow> sessionGeneration \<Rightarrow> bool" where
  "hasGenerationStateLocked r g \<longleftrightarrow>
     list_ex (\<lambda>(k, p). fst k = fst g \<and> ce_generation (cr_heap r p) = snd g) (cr_entries r) \<or>
     get0 (cr_registered r) g > 0 \<or> get0 (cr_udpInUse r) g > 0"

definition maybeCleanupGenerationLocked :: "byte list \<Rightarrow> claimRegistry \<Rightarrow> claimRegistry" where
  "maybeCleanupGenerationLocked sid r =
     (let r = r\<lparr>cr_provenance := filter (\<lambda>(g, v). \<not> (fst g = sid \<and> \<not> hasGenerationStateLocked r g)) (cr_provenance r)\<rparr>;
          current = (sid, get0 (cr_generations r) sid)
      in if snd current \<noteq> 0 \<and> \<not> hasGenerationStateLocked r current
         then r\<lparr>cr_generations := AList.delete sid (cr_generations r)\<rparr> else r)"

definition hasRegisteredSessionLocked :: "claimRegistry \<Rightarrow> byte list \<Rightarrow> bool" where
  "hasRegisteredSessionLocked r sid \<longleftrightarrow> list_ex (\<lambda>(g, n). fst g = sid \<and> n > 0) (cr_registered r)"

definition hasLiveProvisionalLocked :: "claimRegistry \<Rightarrow> byte list \<Rightarrow> u64 \<Rightarrow> bool" where
  "hasLiveProvisionalLocked r sid g \<longleftrightarrow>
     list_ex (\<lambda>(k, p). fst k = sid \<and> ce_generation (cr_heap r p) = g \<and> ce_state (cr_heap r p) \<noteq> claimTerminal) (cr_entries r) \<or>
     get0 (cr_udpInUse r) (sid, g) > 0"

definition udpPermit_Release :: "nat \<Rightarrow> claimRegistry \<Rightarrow> claimRegistry" where
  "udpPermit_Release i r =
     (let p = cr_permits r ! i in
      if up_released p then r
      else maybeCleanupGenerationLocked (fst (up_key p))
        (r\<lparr>cr_permits := (cr_permits r)[i := p\<lparr>up_released := True\<rparr>], cr_udpInUse := decrement (up_key p) (cr_udpInUse r)\<rparr>))"

definition unregisterSessionGeneration :: "byte list \<Rightarrow> u64 \<Rightarrow> claimRegistry \<Rightarrow> claimRegistry" where
  "unregisterSessionGeneration sid g r =
     (if g = 0 then r
      else maybeCleanupGenerationLocked sid (r\<lparr>cr_registered := decrement (sid, g) (cr_registered r)\<rparr>))"

subsection \<open>Terminal entries\<close>

definition is_current :: "claimRegistry \<Rightarrow> nat \<Rightarrow> bool" where
  "is_current r p \<longleftrightarrow> map_of (cr_entries r) (ce_key (cr_heap r p)) = Some p"

definition drop_entry :: "nat \<Rightarrow> claimRegistry \<Rightarrow> claimRegistry" where
  "drop_entry p r =
     (let k = ce_key (cr_heap r p)
      in maybeCleanupGenerationLocked (fst k) (r\<lparr>cr_entries := AList.delete k (cr_entries r)\<rparr>))"

fun evict_terminals :: "nat list \<Rightarrow> claimRegistry \<Rightarrow> claimRegistry" where
  "evict_terminals [] r = r\<lparr>cr_terminalOrder := []\<rparr>"
| "evict_terminals (p # ps) r =
     (if int (length (p # ps)) > (if cr_terminalLimit r \<le> 0 then 1 else cr_terminalLimit r)
      then evict_terminals ps
        (if is_current r p \<and> ce_state (cr_heap r p) = claimTerminal then drop_entry p r else r)
      else r\<lparr>cr_terminalOrder := p # ps\<rparr>)"

definition addTerminalLocked :: "nat \<Rightarrow> claimRegistry \<Rightarrow> claimRegistry" where
  "addTerminalLocked p r =
     (let compacted = filter (\<lambda>c. is_current r c \<and> ce_state (cr_heap r c) = claimTerminal) (cr_terminalOrder r)
      in evict_terminals (compacted @ [p]) (r\<lparr>cr_entries := AList.update (ce_key (cr_heap r p)) p (cr_entries r)\<rparr>))"

fun expire_loop :: "time \<Rightarrow> nat list \<Rightarrow> nat list \<Rightarrow> claimRegistry \<Rightarrow> claimRegistry" where
  "expire_loop now [] compacted r = r\<lparr>cr_terminalOrder := compacted\<rparr>"
| "expire_loop now (p # ps) compacted r =
     (if \<not> is_current r p \<or> ce_state (cr_heap r p) \<noteq> claimTerminal then expire_loop now ps compacted r
      else if (case ce_expiredAt (cr_heap r p) of None \<Rightarrow> False | Some t \<Rightarrow> \<not> t > now)
      then expire_loop now ps compacted (drop_entry p r)
      else expire_loop now ps (compacted @ [p]) r)"

definition expireTerminalsLocked :: "time \<Rightarrow> claimRegistry \<Rightarrow> claimRegistry" where
  "expireTerminalsLocked now r = expire_loop now (cr_terminalOrder r) [] r"

subsection \<open>The end of a pending entry\<close>

definition close_done :: "nat \<Rightarrow> claimRegistry \<Rightarrow> claimRegistry go" where
  "close_done p r = (if ce_done (cr_heap r p) then Panic else Ret (set_entry p (\<lambda>e. e\<lparr>ce_done := True\<rparr>) r))"

definition finishPendingLocked :: "nat \<Rightarrow> claimRegistry \<Rightarrow> claimRegistry" where
  "finishPendingLocked p r =
     (let e = cr_heap r p
      in set_entry p (\<lambda>e. e\<lparr>ce_timer := False, ce_pendingTCP := False\<rparr>)
        (r\<lparr>cr_pending := decrement (fst (ce_key e)) (cr_pending r),
           cr_idleTCP := (if ce_pendingTCP e \<and> cr_idleTCP r > 0 then cr_idleTCP r - 1 else cr_idleTCP r)\<rparr>))"

definition mark_failed :: "nat \<Rightarrow> error \<Rightarrow> claimRegistry \<Rightarrow> claimRegistry" where
  "mark_failed p cause r =
     set_entry p (\<lambda>e. e\<lparr>ce_state := claimTerminal, ce_err := Some cause,
       ce_terminalConsumed := (ce_terminalConsumed e \<or> ce_selected e \<noteq> None)\<rparr>) (finishPendingLocked p r)"

definition forget_halves :: "time \<Rightarrow> nat \<Rightarrow> claimRegistry \<Rightarrow> claimRegistry" where
  "forget_halves expiry p r =
     set_entry p (\<lambda>e. e\<lparr>ce_open := None, ce_attach := None, ce_duplex := None, ce_selected := None, ce_expiredAt := Some expiry\<rparr>) r"

definition failPendingLocked ::
  "time \<Rightarrow> nat \<Rightarrow> error \<Rightarrow> bool \<Rightarrow> claimRegistry \<Rightarrow> ((flowClaim list \<times> nat option \<times> nat option) \<times> claimRegistry) go" where
  "failPendingLocked now p cause keepTerminal r =
     (let selected = ce_selected (cr_heap r p);
          claims = entryClaims (cr_heap r p);
          r = mark_failed p cause r;
          r = (if keepTerminal then addTerminalLocked p (forget_halves (now + cr_pairTimeout r) p r) else drop_entry p r)
      in go_bind (close_done p r) (\<lambda>r.
           Ret ((claims, selected, ce_permit (cr_heap r p)), set_entry p (\<lambda>e. e\<lparr>ce_permit := None\<rparr>) r)))"

subsection \<open>Sessions\<close>

text \<open>The cleanup of replaced entries, in the order of \<^verbatim>\<open>sessionReplacementCleanup.run\<close>: pending ones, then active ones.\<close>

definition cleanup_pending :: "error \<Rightarrow> flowClaim list \<times> nat option \<times> nat option \<Rightarrow> claim_action list" where
  "cleanup_pending cause x =
     (case x of (claims, selected, permit) \<Rightarrow>
        reject_setup selected SetupResultSessionReplaced @ close_all claims cause @ release_permit permit)"

definition cleanup_active :: "error \<Rightarrow> nat \<times> claimedFlow option \<times> nat option \<Rightarrow> claim_action list" where
  "cleanup_active cause x =
     (case x of (p, flow, permit) \<Rightarrow>
        (case flow of None \<Rightarrow> [] | Some f \<Rightarrow> [RejectReadiness p cause, CancelFlow p cause] @ closeClaimedFlow flow cause) @
        release_permit permit)"

fun detach_loop ::
  "time \<Rightarrow> byte list \<Rightarrow> u64 \<Rightarrow> error \<Rightarrow> (claimKey \<times> nat) list \<Rightarrow> claimRegistry \<Rightarrow> (claim_action list \<times> claim_action list \<times> claimRegistry) go"
  where
  "detach_loop now sid g cause [] r = Ret ([], [], r)"
| "detach_loop now sid g cause ((k, p) # es) r =
     (if fst k \<noteq> sid \<or> ce_generation (cr_heap r p) = g then detach_loop now sid g cause es r
      else
        (case ce_state (cr_heap r p) of
           claimPending \<Rightarrow>
             go_bind (failPendingLocked now p cause False r) (\<lambda>(failure, r).
               go_bind (detach_loop now sid g cause es r) (\<lambda>(pend, act, r).
                 Ret (cleanup_pending cause failure @ pend, act, r)))
         | claimActive \<Rightarrow>
             (let e = cr_heap r p;
                  r = set_entry p (\<lambda>e. e\<lparr>ce_permit := None\<rparr>) (r\<lparr>cr_entries := AList.delete k (cr_entries r)\<rparr>)
              in go_bind (detach_loop now sid g cause es r) (\<lambda>(pend, act, r).
                   Ret (pend, cleanup_active cause (p, ce_active e, ce_permit e) @ act, r)))
         | claimTerminal \<Rightarrow>
             detach_loop now sid g cause es (r\<lparr>cr_entries := AList.delete k (cr_entries r)\<rparr>)))"

definition detachSessionLocked :: "time \<Rightarrow> byte list \<Rightarrow> u64 \<Rightarrow> error \<Rightarrow> claimRegistry \<Rightarrow> (claim_action list \<times> claimRegistry) go" where
  "detachSessionLocked now sid g cause r =
     go_bind (detach_loop now sid g cause (cr_entries r) r) (\<lambda>(pend, act, r).
       Ret (pend @ act, maybeCleanupGenerationLocked sid r))"

definition beginSessionRegistration ::
  "time \<Rightarrow> byte list \<Rightarrow> bool \<Rightarrow> error option \<Rightarrow> claimRegistry \<Rightarrow> (u64 \<times> claim_action list \<times> claimRegistry) go" where
  "beginSessionRegistration now sid replacing cause r =
     (let cause = markForcedTermination cause;
          current = get0 (cr_generations r) sid;
          adopt = (\<not> replacing \<and> current \<noteq> 0 \<and> map_of (cr_provenance r) (sid, current) = Some generationProvisional \<and>
            \<not> hasRegisteredSessionLocked r sid \<and> hasLiveProvisionalLocked r sid current)
      in go_bind (if adopt then Ret (current, r) else nextGenerationLocked r) (\<lambda>(g, r).
           let r = r\<lparr>cr_generations := AList.update sid g (cr_generations r),
                cr_provenance := AList.update (sid, g) generationPhysical (cr_provenance r),
                cr_registered := AList.update (sid, g) (get0 (cr_registered r) (sid, g) + 1) (cr_registered r)\<rparr>
           in go_bind (detachSessionLocked now sid g cause r) (\<lambda>(acts, r). Ret (g, acts, r))))"

definition ReplaceSession :: "time \<Rightarrow> byte list \<Rightarrow> u64 \<Rightarrow> error option \<Rightarrow> claimRegistry \<Rightarrow> (claim_action list \<times> claimRegistry) go" where
  "ReplaceSession now sid g cause r =
     (let cause = markForcedTermination cause
      in go_bind (if g = 0 then nextGenerationLocked r else Ret (g, observeGenerationLocked g r)) (\<lambda>(g, r).
           detachSessionLocked now sid g cause
             (r\<lparr>cr_generations := AList.update sid g (cr_generations r),
                cr_provenance := AList.update (sid, g) generationPhysical (cr_provenance r)\<rparr>)))"

subsection \<open>Submitting a claim\<close>

datatype submitted = Refused error | Activated nat | AwaitPeer nat

definition refuse_claim ::
  "flowClaim \<Rightarrow> byte \<Rightarrow> error \<Rightarrow> claim_action list \<Rightarrow> claimRegistry \<Rightarrow> submitted \<times> claim_action list \<times> claimRegistry" where
  "refuse_claim c code err acts r =
     (case setupResultForClaim c r of (result, r) \<Rightarrow> (Refused err, acts @ reject_setup result code @ claim_close c err, r))"

text \<open>The generation of a session, created on first use by a claim that is not bound to one.\<close>

definition claim_generation :: "byte list \<Rightarrow> u64 \<Rightarrow> bool \<Rightarrow> claimRegistry \<Rightarrow> (u64 \<times> claimRegistry) go" where
  "claim_generation sid g bound r =
     (let current = get0 (cr_generations r) sid
      in if current = 0 \<and> \<not> bound then
           go_bind (if g = 0 then nextGenerationLocked r else Ret (g, observeGenerationLocked g r)) (\<lambda>(g, r).
             Ret (g, r\<lparr>cr_generations := AList.update sid g (cr_generations r),
                       cr_provenance := AList.update (sid, g) generationProvisional (cr_provenance r)\<rparr>))
         else Ret (current, r))"

definition stale_generation :: "byte list \<Rightarrow> u64 \<Rightarrow> u64 \<Rightarrow> bool \<Rightarrow> claimRegistry \<Rightarrow> bool" where
  "stale_generation sid current g bound r \<longleftrightarrow>
     current = 0 \<or> g \<noteq> current \<or> (bound \<and> \<not> get0 (cr_registered r) (sid, g) > 0)"

definition acquireUDPPermitLocked :: "flowClaim \<Rightarrow> claimRegistry \<Rightarrow> error + nat option \<times> claimRegistry" where
  "acquireUDPPermitLocked c r =
     (if cm_Kind (fc_Metadata c) \<noteq> FlowKindUDP then Inr (None, r)
      else
        (let k = (fc_SessionID c, fc_Generation c)
         in if get0 (cr_udpInUse r) k \<ge> lm_UDPFlowsPerSession (cr_limits r) then Inl (Wrapped '': UDP flow limit'' ErrPairLimit)
            else Inr (Some (length (cr_permits r)),
              r\<lparr>cr_udpInUse := AList.update k (get0 (cr_udpInUse r) k + 1) (cr_udpInUse r),
                cr_permits := cr_permits r @ [\<lparr>up_key = k, up_released = False\<rparr>]\<rparr>)))"

definition activateLocked :: "nat \<Rightarrow> claimRegistry \<Rightarrow> claimRegistry" where
  "activateLocked p r =
     set_entry p (\<lambda>e. e\<lparr>ce_active := Some
       \<lparr>cf_Metadata = ce_metadata e, cf_Target = ce_target e, cf_Open = ce_open e, cf_Attach = ce_attach e,
        cf_Duplex = ce_duplex e, cf_Selected = selectedClaim e, cf_Result = ce_selected e, cf_Resolved = False, cf_Released = False\<rparr>\<rparr>) r"

definition new_entry :: "flowClaim \<Rightarrow> nat option \<Rightarrow> claimEntry" where
  "new_entry c permit =
     \<lparr>ce_key = (fc_SessionID c, fc_FlowID c), ce_generation = fc_Generation c, ce_metadata = fc_Metadata c, ce_target = None,
      ce_open = None, ce_attach = None, ce_duplex = None, ce_selected = None, ce_state = claimPending, ce_done = False, ce_err = None,
      ce_timer = False, ce_permit = permit, ce_pendingTCP = False, ce_terminalConsumed = False, ce_expiredAt = None, ce_active = None\<rparr>"

definition alloc_entry :: "claimEntry \<Rightarrow> claimRegistry \<Rightarrow> nat \<times> claimRegistry" where
  "alloc_entry e r = (cr_fresh r, r\<lparr>cr_heap := (cr_heap r)(cr_fresh r := e), cr_fresh := Suc (cr_fresh r)\<rparr>)"

definition add_half :: "flowClaim \<Rightarrow> claimEntry \<Rightarrow> claimEntry" where
  "add_half c e =
     (if fc_Role c = FlowRoleOpen then e\<lparr>ce_open := Some c, ce_target := Some (fc_Target c)\<rparr> else e\<lparr>ce_attach := Some c\<rparr>)"

definition submit_duplex :: "flowClaim \<Rightarrow> nat option \<Rightarrow> claimRegistry \<Rightarrow> submitted \<times> claim_action list \<times> claimRegistry" where
  "submit_duplex c permit r =
     (case setupResultForClaim c r of (result, r) \<Rightarrow>
        (case alloc_entry ((new_entry c permit)\<lparr>ce_duplex := Some c, ce_target := Some (fc_Target c), ce_selected := result,
                ce_state := claimActive\<rparr>) r of
           (p, r) \<Rightarrow>
             (Activated p, [], (activateLocked p r)\<lparr>cr_entries := AList.update (fc_SessionID c, fc_FlowID c) p (cr_entries r)\<rparr>)))"

definition submit_pending :: "flowClaim \<Rightarrow> nat option \<Rightarrow> claimRegistry \<Rightarrow> submitted \<times> claim_action list \<times> claimRegistry" where
  "submit_pending c permit r =
     (case setupResultForClaim c r of (result, r) \<Rightarrow>
        (let tcp = (fc_Carrier c = CarrierTLSTCP) in
         case alloc_entry (add_half c ((new_entry c permit)\<lparr>ce_selected := result, ce_pendingTCP := tcp, ce_timer := True\<rparr>)) r of
           (p, r) \<Rightarrow>
             (AwaitPeer p, [],
              r\<lparr>cr_pending := AList.update (fc_SessionID c) (get0 (cr_pending r) (fc_SessionID c) + 1) (cr_pending r),
                cr_idleTCP := (if tcp then cr_idleTCP r + 1 else cr_idleTCP r),
                cr_entries := AList.update (fc_SessionID c, fc_FlowID c) p (cr_entries r)\<rparr>)))"

definition submit_new :: "flowClaim \<Rightarrow> claimRegistry \<Rightarrow> submitted \<times> claim_action list \<times> claimRegistry" where
  "submit_new c r =
     (case acquireUDPPermitLocked c r of
        Inl err \<Rightarrow> refuse_claim c SetupResultFlowLimit err [] r
      | Inr (permit, r) \<Rightarrow>
          if fc_Role c = FlowRoleDuplex then submit_duplex c permit r
          else if get0 (cr_pending r) (fc_SessionID c) \<ge> lm_PendingFlowsPerSession (cr_limits r) \<or>
            (fc_Carrier c = CarrierTLSTCP \<and> cr_idleTCP r \<ge> lm_AuthenticatedTCPIdleConnections (cr_limits r))
          then refuse_claim c SetupResultFlowLimit (Wrapped '': pending flow budget'' ErrPairLimit) (release_permit permit)
            (maybeCleanupGenerationLocked (fc_SessionID c) r)
          else submit_pending c permit r)"

definition submit_conflict :: "time \<Rightarrow> nat \<Rightarrow> flowClaim \<Rightarrow> error \<Rightarrow> claimRegistry \<Rightarrow> (submitted \<times> claim_action list \<times> claimRegistry) go" where
  "submit_conflict now p c cause r =
     (let err = Wrapped '': conflicting flow claim'' cause
      in go_bind (failPendingLocked now p err True r) (\<lambda>((claims, selected, permit), r).
           case setupResultForClaim c r of (currentResult, r) \<Rightarrow>
             (let use = (currentResult \<noteq> None \<and> selected = None);
                  selected = (if use then currentResult else selected);
                  r = (if use then set_entry p (\<lambda>e. e\<lparr>ce_terminalConsumed := True\<rparr>) r else r)
              in Ret (Refused err,
                   reject_setup selected SetupResultMetadataConflict @ close_all claims err @ claim_close c err @ release_permit permit, r))))"

definition submit_pair :: "nat \<Rightarrow> flowClaim \<Rightarrow> claimRegistry \<Rightarrow> (submitted \<times> claim_action list \<times> claimRegistry) go" where
  "submit_pair p c r =
     (case setupResultForClaim c r of (result, r) \<Rightarrow>
        (let r = set_entry p (\<lambda>e. case result of None \<Rightarrow> add_half c e | Some i \<Rightarrow> (add_half c e)\<lparr>ce_selected := Some i\<rparr>) r;
             r = set_entry p (\<lambda>e. e\<lparr>ce_state := claimActive\<rparr>) (finishPendingLocked p r)
         in go_bind (close_done p (activateLocked p r)) (\<lambda>r. Ret (Activated p, [], r))))"

definition submitExistingLocked ::
  "time \<Rightarrow> nat \<Rightarrow> flowClaim \<Rightarrow> claimRegistry \<Rightarrow> (submitted \<times> claim_action list \<times> claimRegistry) go" where
  "submitExistingLocked now p c r =
     (let e = cr_heap r p in
      case ce_state e of
        claimTerminal \<Rightarrow>
          (let err = the (ce_err e) in
           case setupResultForClaim c r of (result, r) \<Rightarrow>
             (let write = (result \<noteq> None \<and> \<not> ce_terminalConsumed e);
                  r = (if write then set_entry p (\<lambda>e. e\<lparr>ce_terminalConsumed := True\<rparr>) r else r)
              in Ret (Refused err, (if write then reject_setup result (setupFailureCode err) else []) @ claim_close c err, r)))
      | claimActive \<Rightarrow>
          Ret (refuse_claim c SetupResultMetadataConflict (Wrapped '': conflicting active flow claim'' ErrMetadataConflict) [] r)
      | claimPending \<Rightarrow>
          (let metadataConflict = (ce_generation e \<noteq> fc_Generation c \<or> ce_metadata e \<noteq> fc_Metadata c);
               duplicateHalf = ((ce_open e \<noteq> None \<and> fc_Role c = FlowRoleOpen) \<or> (ce_attach e \<noteq> None \<and> fc_Role c = FlowRoleAttach) \<or>
                 fc_Role c = FlowRoleDuplex)
           in if metadataConflict \<or> duplicateHalf
              then submit_conflict now p c (if duplicateHalf \<and> \<not> metadataConflict then ErrDuplicateHalf else ErrMetadataConflict) r
              else submit_pair p c r))"

definition session_claims :: "byte list \<Rightarrow> claimRegistry \<Rightarrow> int" where
  "session_claims sid r =
     int (length (filter (\<lambda>(k, p). fst k = sid \<and> ce_state (cr_heap r p) \<noteq> claimTerminal) (cr_entries r)))"

text \<open>After the checks that need no lock, and with the registry accepting.\<close>

definition submit_admitted :: "time \<Rightarrow> flowClaim \<Rightarrow> claimRegistry \<Rightarrow> (submitted \<times> claim_action list \<times> claimRegistry) go" where
  "submit_admitted now c r =
     (let sid = fc_SessionID c; r = expireTerminalsLocked now r
      in if session_claims sid r \<ge> lm_PendingFlowsPerSession (cr_limits r) \<or> int (length (cr_entries r)) \<ge> DefaultPortalClaims
         then Ret (refuse_claim c SetupResultFlowLimit (Wrapped '': claim admission'' ErrPairLimit) [] r)
         else
           go_bind (claim_generation sid (fc_Generation c) (fc_BoundGeneration c) r) (\<lambda>(generation, r).
             let c = (if fc_Generation c = 0 then c\<lparr>fc_Generation := generation\<rparr> else c)
             in if stale_generation sid generation (fc_Generation c) (fc_BoundGeneration c) r
                then Ret (refuse_claim c SetupResultSessionReplaced (Wrapped '': stale generation'' ErrManagerClosed) [] r)
                else
                  (case map_of (cr_entries r) (sid, fc_FlowID c) of
                     Some p \<Rightarrow> submitExistingLocked now p c r
                   | None \<Rightarrow> Ret (submit_new c r))))"

definition Submit :: "time \<Rightarrow> flowClaim \<Rightarrow> claimRegistry \<Rightarrow> (submitted \<times> claim_action list \<times> claimRegistry) go" where
  "Submit now c r =
     (if fc_BoundGeneration c \<and> fc_Generation c = 0
      then Ret (refuse_claim c SetupResultInvalidRequest (Wrapped '': zero bound generation'' ErrCarrierMismatch) [] r)
      else
        (case validateClaim c of
           Some err \<Rightarrow> Ret (refuse_claim c (setupFailureCode err) err [] r)
         | None \<Rightarrow>
             if \<not> cr_accepting r then Ret (refuse_claim c SetupResultFlowLimit ErrDraining [] r)
             else submit_admitted now c r))"

subsection \<open>Waiting, timeouts, rejection, release\<close>

text \<open>\<^verbatim>\<open>waitPending\<close> once its entry is done (\<open>None\<close>: the other half owns the flow), and when its context
  ends first, with the cause and the error of the context.\<close>

definition wait_done :: "nat \<Rightarrow> claimRegistry \<Rightarrow> error option" where
  "wait_done p r = (if ce_state (cr_heap r p) = claimActive then None else ce_err (cr_heap r p))"

definition fail_entry :: "time \<Rightarrow> nat \<Rightarrow> byte \<Rightarrow> error \<Rightarrow> claimRegistry \<Rightarrow> (claim_action list \<times> claimRegistry) go" where
  "fail_entry now p code cause r =
     go_bind (failPendingLocked now p cause True r) (\<lambda>((claims, selected, permit), r).
       Ret (reject_setup selected code @ close_all claims cause @ release_permit permit, r))"

definition wait_cancelled :: "time \<Rightarrow> nat \<Rightarrow> error \<Rightarrow> error \<Rightarrow> claimRegistry \<Rightarrow> (error option \<times> claim_action list \<times> claimRegistry) go" where
  "wait_cancelled now p cause ctxErr r =
     (if is_current r p \<and> ce_state (cr_heap r p) = claimPending then
        go_bind (fail_entry now p (setupFailureCode cause) cause r) (\<lambda>(acts, r). Ret (Some cause, acts, r))
      else if ce_state (cr_heap r p) = claimActive then Ret (None, [], r)
      else Ret (case ce_err (cr_heap r p) of Some e \<Rightarrow> Some e | None \<Rightarrow> Some ctxErr, [], r))"

definition registry_timeout :: "time \<Rightarrow> nat \<Rightarrow> claimRegistry \<Rightarrow> (claim_action list \<times> claimRegistry) go" where
  "registry_timeout now p r =
     (if \<not> is_current r p \<or> ce_state (cr_heap r p) \<noteq> claimPending then Ret ([], r)
      else fail_entry now p SetupResultPairTimeout
        (Wrapped '': flow=%d'' ErrPairTimeout) r)"

text \<open>\<open>Some code\<close> is a refusal.\<close>

definition registry_reject ::
  "time \<Rightarrow> byte list \<Rightarrow> u32 \<Rightarrow> u64 \<Rightarrow> bool \<Rightarrow> error option \<Rightarrow> claimRegistry \<Rightarrow> (byte option \<times> claim_action list \<times> claimRegistry) go" where
  "registry_reject now sid fid g bound cause r =
     (if bound \<and> g = 0 then Ret (Some SetupResultMetadataConflict, [], r)
      else
        (let cause = (case cause of None \<Rightarrow> New ''nowhere: invalid request'' | Some e \<Rightarrow> e) in
         if cr_closed r then Ret (Some SetupResultSessionReplaced, [], r)
         else
           go_bind (claim_generation sid g bound r) (\<lambda>(current, r).
             let g = (if g = 0 then current else g)
             in if stale_generation sid current g bound r then Ret (Some SetupResultMetadataConflict, [], r)
                else
                  (case map_of (cr_entries r) (sid, fid) of
                     None \<Rightarrow>
                       (case alloc_entry \<lparr>ce_key = (sid, fid), ce_generation = g, ce_metadata = \<lparr>cm_Kind = 0, cm_Uplink = 0, cm_Downlink = 0,
                              cm_Hops = 0\<rparr>, ce_target = None, ce_open = None, ce_attach = None, ce_duplex = None, ce_selected = None,
                              ce_state = claimTerminal, ce_done = True, ce_err = Some cause, ce_timer = False, ce_permit = None,
                              ce_pendingTCP = False, ce_terminalConsumed = False, ce_expiredAt = None, ce_active = None\<rparr> r of
                          (p, r) \<Rightarrow> Ret (None, [], addTerminalLocked p r))
                   | Some p \<Rightarrow>
                       (let e = cr_heap r p in
                        if ce_generation e \<noteq> g then Ret (Some SetupResultMetadataConflict, [], r)
                        else
                          (case ce_state e of
                             claimTerminal \<Rightarrow> Ret (None, [], r)
                           | claimPending \<Rightarrow>
                               go_bind (fail_entry now p (setupFailureCode cause) cause r) (\<lambda>(acts, r). Ret (None, acts, r))
                           | claimActive \<Rightarrow>
                               Ret (None,
                                 (case ce_active e of None \<Rightarrow> [] | Some f \<Rightarrow> [RejectReadiness p cause, CancelFlow p cause] @ closeClaimedFlow (Some f) cause) @
                                 release_permit (ce_permit e),
                                 drop_entry p (set_entry p (\<lambda>e. e\<lparr>ce_permit := None\<rparr>) r))))))))"

definition RejectClaim :: "time \<Rightarrow> flowClaim \<Rightarrow> error \<Rightarrow> claimRegistry \<Rightarrow> (claim_action list \<times> claimRegistry) go" where
  "RejectClaim now c cause r =
     go_bind (registry_reject now (fc_SessionID c) (fc_FlowID c) (fc_Generation c) (fc_BoundGeneration c) (Some cause) r) (\<lambda>(refusal, acts, r).
       case setupResultForClaim c r of (result, r) \<Rightarrow>
         Ret (acts @
           (case refusal of
              Some code \<Rightarrow> reject_setup result code @ claim_close c cause
            | None \<Rightarrow> (case result of None \<Rightarrow> claim_close c cause | Some i \<Rightarrow> [FinishReject i c cause])), r))"

text \<open>The second section of \<^verbatim>\<open>RejectClaim\<close>.\<close>

definition finish_reject :: "nat \<Rightarrow> flowClaim \<Rightarrow> error \<Rightarrow> claimRegistry \<Rightarrow> claim_action list \<times> claimRegistry" where
  "finish_reject i c cause r =
     (let write = (case map_of (cr_entries r) (fc_SessionID c, fc_FlowID c) of
            None \<Rightarrow> None
          | Some p \<Rightarrow> if ce_state (cr_heap r p) = claimTerminal \<and> \<not> ce_terminalConsumed (cr_heap r p) then Some p else None)
      in case write of
           None \<Rightarrow> (claim_close c cause, r)
         | Some p \<Rightarrow> ([CommitSetup i (setupFailureCode cause)] @ claim_close c cause,
             set_entry p (\<lambda>e. e\<lparr>ce_terminalConsumed := True\<rparr>) r))"

definition releaseActive :: "nat \<Rightarrow> claimRegistry \<Rightarrow> claim_action list \<times> claimRegistry" where
  "releaseActive p r =
     (let e = cr_heap r p; k = ce_key e;
          r' = (if is_current r p then r\<lparr>cr_entries := AList.delete k (cr_entries r)\<rparr> else r)
      in ([CancelFlow p net_ErrClosed] @ release_permit (ce_permit e),
          maybeCleanupGenerationLocked (fst k) (set_entry p (\<lambda>e. e\<lparr>ce_permit := None\<rparr>) r')))"

definition claimedFlow_Release :: "nat \<Rightarrow> claimRegistry \<Rightarrow> claim_action list \<times> claimRegistry" where
  "claimedFlow_Release p r =
     (case ce_active (cr_heap r p) of
        None \<Rightarrow> ([], r)
      | Some f \<Rightarrow>
          if cf_Released f then ([], r)
          else releaseActive p (set_entry p (\<lambda>e. e\<lparr>ce_active := Some (f\<lparr>cf_Released := True\<rparr>)\<rparr>) r))"

subsection \<open>Draining and closing\<close>

fun drain_loop :: "time \<Rightarrow> (claimKey \<times> nat) list \<Rightarrow> claimRegistry \<Rightarrow> (claim_action list \<times> claimRegistry) go" where
  "drain_loop now [] r = Ret ([], r)"
| "drain_loop now ((k, p) # es) r =
     (case ce_state (cr_heap r p) of
        claimPending \<Rightarrow>
          go_bind (failPendingLocked now p ErrDraining False r) (\<lambda>((claims, selected, permit), r).
            go_bind (drain_loop now es r) (\<lambda>(acts, r).
              Ret (reject_setup selected SetupResultFlowLimit @ close_all claims ErrDraining @ release_permit permit @ acts, r)))
      | claimTerminal \<Rightarrow> drain_loop now es (r\<lparr>cr_entries := AList.delete k (cr_entries r)\<rparr>)
      | claimActive \<Rightarrow> drain_loop now es r)"

definition CloseAdmission :: "claimRegistry \<Rightarrow> claimRegistry" where
  "CloseAdmission r = r\<lparr>cr_accepting := False\<rparr>"

definition BeginDrainContext :: "time \<Rightarrow> claimRegistry \<Rightarrow> (claim_action list \<times> claimRegistry) go" where
  "BeginDrainContext now r =
     (if cr_closed r then Ret ([], r)
      else go_bind (drain_loop now (cr_entries r) (r\<lparr>cr_accepting := False\<rparr>)) (\<lambda>(acts, r). Ret (acts, r\<lparr>cr_terminalOrder := []\<rparr>)))"

definition newClaimAbort :: "nat \<Rightarrow> claimEntry \<Rightarrow> claimAbort" where
  "newClaimAbort p e = \<lparr>ab_flow = map_option (\<lambda>f. p) (ce_active e), ab_claims = entryClaims e, ab_closed = False\<rparr>"

fun close_loop :: "error \<Rightarrow> (claimKey \<times> nat) list \<Rightarrow> claimRegistry \<Rightarrow> (claim_action list \<times> claimRegistry) go" where
  "close_loop cause [] r = Ret ([], r)"
| "close_loop cause ((k, p) # es) r =
     (let e = cr_heap r p; a = length (cr_aborts r);
          r = set_entry p (\<lambda>e. e\<lparr>ce_permit := None\<rparr>)
            (r\<lparr>cr_aborts := cr_aborts r @ [newClaimAbort p e], cr_closing := cr_closing r @ [a], cr_entries := AList.delete k (cr_entries r)\<rparr>);
          acts = reject_setup (ce_selected e) SetupResultSessionReplaced @
            (case ce_active e of None \<Rightarrow> [] | Some f \<Rightarrow> [RejectReadiness p cause]) @ [AbortClose a cause] @ release_permit (ce_permit e)
      in go_bind
           (if ce_state e = claimPending
            then close_done p (set_entry p (\<lambda>e. e\<lparr>ce_state := claimTerminal, ce_err := Some cause\<rparr>) (finishPendingLocked p r))
            else Ret r)
           (\<lambda>r. go_bind (close_loop cause es r) (\<lambda>(more_acts, r). Ret (acts @ more_acts, r))))"

definition CloseContextCause :: "error option \<Rightarrow> claimRegistry \<Rightarrow> (claim_action list \<times> claimRegistry) go" where
  "CloseContextCause cause r =
     (if cr_closed r then Ret ([], r)
      else
        go_bind (close_loop (markForcedTermination cause) (cr_entries r) (r\<lparr>cr_accepting := False, cr_closed := True\<rparr>)) (\<lambda>(acts, r).
          Ret (acts @ [ForgetClosing],
            r\<lparr>cr_entries := [], cr_terminalOrder := [], cr_generations := [], cr_registered := [], cr_provenance := [],
              cr_pending := [], cr_udpInUse := [], cr_nextGeneration := 0, cr_idleTCP := 0\<rparr>)))"

definition abort_Close :: "nat \<Rightarrow> error \<Rightarrow> claimRegistry \<Rightarrow> claim_action list \<times> claimRegistry" where
  "abort_Close a cause r =
     (let ab = cr_aborts r ! a
      in if ab_closed ab then ([], r)
         else
           ((case ab_flow ab of
               Some p \<Rightarrow> CancelFlow p cause # closeClaimedFlow (ce_active (cr_heap r p)) cause
             | None \<Rightarrow> close_all (ab_claims ab) cause),
            r\<lparr>cr_aborts := (cr_aborts r)[a := ab\<lparr>ab_closed := True\<rparr>]\<rparr>))"

definition AbortClosing :: "error \<Rightarrow> claimRegistry \<Rightarrow> claim_action list" where
  "AbortClosing cause r = map (\<lambda>a. AbortClose a cause) (cr_closing r)"

subsection \<open>Setup results and readiness\<close>

text \<open>Committing a setup result: the connection and the code to be written, the first time; whether the write succeeds is left open.\<close>

definition setupResult_commit :: "nat \<Rightarrow> byte \<Rightarrow> claimRegistry \<Rightarrow> (nat \<times> byte) list \<times> claimRegistry" where
  "setupResult_commit i code r =
     (let s = cr_results r ! i
      in if sr_committed s then ([], r)
         else ([(sr_writer s, code)], r\<lparr>cr_results := (cr_results r)[i := s\<lparr>sr_committed := True\<rparr>]\<rparr>))"

text \<open>\<open>gate\<close>: whether the gate of the server lets the flow become ready.\<close>

definition flowReadiness_Ready :: "bool \<Rightarrow> nat \<Rightarrow> claimRegistry \<Rightarrow> claim_action list \<times> claimRegistry" where
  "flowReadiness_Ready gate p r =
     (case ce_active (cr_heap r p) of
        None \<Rightarrow> ([], r)
      | Some f \<Rightarrow>
          if cf_Resolved f then ([], r)
          else (reject_setup (cf_Result f) (if gate then SetupResultReady else SetupResultFlowLimit),
            set_entry p (\<lambda>e. e\<lparr>ce_active := Some (f\<lparr>cf_Resolved := True\<rparr>)\<rparr>) r))"

definition flowReadiness_Reject :: "error \<Rightarrow> nat \<Rightarrow> claimRegistry \<Rightarrow> claim_action list \<times> claimRegistry" where
  "flowReadiness_Reject cause p r =
     (case ce_active (cr_heap r p) of
        None \<Rightarrow> ([], r)
      | Some f \<Rightarrow>
          if cf_Resolved f then ([], r)
          else (reject_setup (cf_Result f) (setupFailureCode cause),
            set_entry p (\<lambda>e. e\<lparr>ce_active := Some (f\<lparr>cf_Resolved := True\<rparr>)\<rparr>) r))"

subsection \<open>Runs\<close>

text \<open>
  A server: the registry, the actions that its threads have still to carry out, the connections that claims
  have brought, and the setup results written. Threads interleave freely: the pending actions run in any
  order, and a timer or a cancelled context may strike at any time. A claim brings a connection of its own.
\<close>

record claim_world =
  cw_reg :: claimRegistry
  cw_todo :: "claim_action list"
  cw_streams :: "nat list"
  cw_written :: "(nat \<times> byte) list"

datatype claim_event =
    RegisterSession "byte list" bool "error option"
  | UnregisterSession "byte list" u64
  | SubmitClaim flowClaim
  | WaitCancelled nat error error
  | PairTimeout nat
  | RejectFlow "byte list" u32 u64 bool "error option"
  | RejectHalf flowClaim error
  | ReplaceGeneration "byte list" u64 "error option"
  | StopAdmission
  | BeginDrain
  | CloseRegistry "error option"
  | Abort error
  | ReleaseFlow nat
  | FlowReady nat bool
  | FlowRejected nat error
  | RunAction nat

definition run_action :: "claim_action \<Rightarrow> claimRegistry \<Rightarrow> (nat \<times> byte) list \<times> claim_action list \<times> claimRegistry" where
  "run_action a r =
     (case a of
        CommitSetup i code \<Rightarrow> (case setupResult_commit i code r of (w, r) \<Rightarrow> (w, [], r))
      | ReleasePermit i \<Rightarrow> ([], [], udpPermit_Release i r)
      | RejectReadiness p cause \<Rightarrow> ([], flowReadiness_Reject cause p r)
      | FinishReject i c cause \<Rightarrow> ([], finish_reject i c cause r)
      | AbortClose i cause \<Rightarrow> ([], abort_Close i cause r)
      | ForgetClosing \<Rightarrow> ([], [], r\<lparr>cr_closing := []\<rparr>)
      | CloseHalf s e \<Rightarrow> ([], [], r)
      | CloseUDPHalf u d e \<Rightarrow> ([], [], r)
      | CancelFlow p e \<Rightarrow> ([], [], r))"

definition world_add :: "claim_world \<Rightarrow> (claim_action list \<times> claimRegistry) \<Rightarrow> claim_world" where
  "world_add w x = w\<lparr>cw_reg := snd x, cw_todo := cw_todo w @ fst x\<rparr>"

definition fresh_stream :: "flowClaim \<Rightarrow> claim_world \<Rightarrow> bool" where
  "fresh_stream c w = (case fc_Stream c of None \<Rightarrow> True | Some s \<Rightarrow> s \<notin> set (cw_streams w))"

definition use_stream :: "flowClaim \<Rightarrow> claim_world \<Rightarrow> claim_world" where
  "use_stream c w = w\<lparr>cw_streams := opt_list (fc_Stream c) @ cw_streams w\<rparr>"

text \<open>An event that cannot happen in a state leaves it as it is.\<close>

definition claim_exec :: "time \<Rightarrow> claim_event \<Rightarrow> claim_world \<Rightarrow> claim_world go" where
  "claim_exec now ev w =
     (let r = cw_reg w in
      case ev of
        RegisterSession sid replacing cause \<Rightarrow> go_bind (beginSessionRegistration now sid replacing cause r) (\<lambda>(g, x). Ret (world_add w x))
      | UnregisterSession sid g \<Rightarrow> Ret (w\<lparr>cw_reg := unregisterSessionGeneration sid g r\<rparr>)
      | SubmitClaim c \<Rightarrow>
          if fresh_stream c w then go_bind (Submit now c r) (\<lambda>(res, x). Ret (world_add (use_stream c w) x)) else Ret w
      | WaitCancelled p cause ctxErr \<Rightarrow>
          if p < cr_fresh r then go_bind (wait_cancelled now p cause ctxErr r) (\<lambda>(res, x). Ret (world_add w x)) else Ret w
      | PairTimeout p \<Rightarrow> if p < cr_fresh r then go_bind (registry_timeout now p r) (\<lambda>x. Ret (world_add w x)) else Ret w
      | RejectFlow sid fid g bound cause \<Rightarrow>
          go_bind (registry_reject now sid fid g bound cause r) (\<lambda>(res, x). Ret (world_add w x))
      | RejectHalf c cause \<Rightarrow>
          if fresh_stream c w then go_bind (RejectClaim now c cause r) (\<lambda>x. Ret (world_add (use_stream c w) x)) else Ret w
      | ReplaceGeneration sid g cause \<Rightarrow> go_bind (ReplaceSession now sid g cause r) (\<lambda>x. Ret (world_add w x))
      | StopAdmission \<Rightarrow> Ret (w\<lparr>cw_reg := CloseAdmission r\<rparr>)
      | BeginDrain \<Rightarrow> go_bind (BeginDrainContext now r) (\<lambda>x. Ret (world_add w x))
      | CloseRegistry cause \<Rightarrow> go_bind (CloseContextCause cause r) (\<lambda>x. Ret (world_add w x))
      | Abort cause \<Rightarrow> Ret (world_add w (AbortClosing cause r, r))
      | ReleaseFlow p \<Rightarrow> if p < cr_fresh r then Ret (world_add w (claimedFlow_Release p r)) else Ret w
      | FlowReady p gate \<Rightarrow> if p < cr_fresh r then Ret (world_add w (flowReadiness_Ready gate p r)) else Ret w
      | FlowRejected p cause \<Rightarrow> if p < cr_fresh r then Ret (world_add w (flowReadiness_Reject cause p r)) else Ret w
      | RunAction n \<Rightarrow>
          if n < length (cw_todo w) then
            (case run_action (cw_todo w ! n) r of (written, x) \<Rightarrow>
               Ret (world_add (w\<lparr>cw_todo := take n (cw_todo w) @ drop (Suc n) (cw_todo w), cw_written := cw_written w @ written\<rparr>) x))
          else Ret w)"

text \<open>A run through a list of events that stops at the first panic.\<close>

fun go_run :: "('e \<Rightarrow> 's \<Rightarrow> 's go) \<Rightarrow> 'e list \<Rightarrow> 's \<Rightarrow> 's go" where
  "go_run step [] s = Ret s"
| "go_run step (e # es) s = go_bind (step e s) (go_run step es)"

definition claim_step :: "time \<times> claim_event \<Rightarrow> claim_world \<Rightarrow> claim_world go" where
  "claim_step e w = claim_exec (fst e) (snd e) w"

definition claim_run :: "(time \<times> claim_event) list \<Rightarrow> claim_world \<Rightarrow> claim_world go" where
  "claim_run evs w = go_run claim_step evs w"

definition new_world :: "time \<Rightarrow> server_Limits \<Rightarrow> (nat \<Rightarrow> claimEntry) \<Rightarrow> claim_world" where
  "new_world pairTimeout limits heap =
     \<lparr>cw_reg = newClaimRegistry pairTimeout limits heap, cw_todo = [], cw_streams = [], cw_written = []\<rparr>"

end
