(* ===== verification/Claim_Table.thy ===== *)
theory Claim_Table
  imports Claim_Registry
begin

section \<open>nw2 server: the invariant of the claim registry and its small steps\<close>

text \<open>
  The table of entries, the counters over it, the generations and the shape of every entry ever made. The
  invariant has three parameters: the sessions whose entries may for a moment belong to an older generation,
  the generations that may for a moment have no holder, and the entries that are just being changed. Each small step of the registry's operations keeps it.
\<close>

named_theorems cr_frame \<open>what an operation leaves unchanged\<close>

subsection \<open>Tables\<close>

lemma get0_update: "get0 (AList.update k v m) k' = (if k' = k then v else get0 m k')"
  by (simp add: get0_def al_lookup)

lemma get0_delete: "get0 (AList.delete k m) k' = (if k' = k then 0 else get0 m k')"
  by (simp add: get0_def al_lookup)

lemma get0_Nil [simp]: "get0 [] k = 0"
  by (simp add: get0_def)

lemmas get0_simps = get0_update get0_delete

lemma get0_decrement: "get0 (decrement k m) k' = (if k' = k then max 0 (get0 m k - 1) else get0 m k')"
  by (auto simp: decrement_def get0_simps)

lemma al_sum_cong: "(\<And>v. v \<in> snd ` set xs \<Longrightarrow> w v = w' v) \<Longrightarrow> al_sum w xs = al_sum w' xs"
  by (induction xs) auto

lemma go_bind_Ret: "go_bind m f = Ret y \<longleftrightarrow> (\<exists>x. m = Ret x \<and> f x = Ret y)"
  by (cases m) auto

text \<open>What a call that may panic returns, and when it may panic.\<close>

definition yields :: "bool \<Rightarrow> ('a \<Rightarrow> bool) \<Rightarrow> 'a go \<Rightarrow> bool" where
  "yields G Q m = (case m of Panic \<Rightarrow> G | Ret x \<Rightarrow> Q x)"

lemma yields_simps [simp]:
  "yields G Q (Ret x) = Q x" "yields G Q Panic = G" "yields G Q (go_bind m f) = yields G (\<lambda>x. yields G Q (f x)) m"
  by (auto simp: yields_def go_bind_def split: go.split)

lemma yields_mono: "yields G Q m \<Longrightarrow> (G \<Longrightarrow> G') \<Longrightarrow> (\<And>x. Q x \<Longrightarrow> Q' x) \<Longrightarrow> yields G' Q' m"
  by (cases m) auto

text \<open>A property of every row of a table, whatever the type of its keys.\<close>

definition all_rows :: "('k \<Rightarrow> nat \<Rightarrow> bool) \<Rightarrow> ('k \<times> nat) list \<Rightarrow> bool" where
  "all_rows Q es \<longleftrightarrow> (\<forall>k p. map_of es k = Some p \<longrightarrow> Q k p)"

lemma all_rowsD: "all_rows Q es \<Longrightarrow> map_of es k = Some p \<Longrightarrow> Q k p"
  by (simp add: all_rows_def)

lemma all_rowsI: "(\<And>k p. map_of es k = Some p \<Longrightarrow> Q k p) \<Longrightarrow> all_rows Q es"
  by (simp add: all_rows_def)

lemma all_rows_mono: "all_rows Q es \<Longrightarrow> (\<And>k p. map_of es k = Some p \<Longrightarrow> Q k p \<Longrightarrow> Q' k p) \<Longrightarrow> all_rows Q' es"
  by (simp add: all_rows_def)

lemma all_rows_delete: "all_rows Q es \<Longrightarrow> all_rows Q (AList.delete k es)"
  by (auto simp: all_rows_def al_lookup split: if_splits)

lemma all_rows_update: "all_rows Q es \<Longrightarrow> Q k p \<Longrightarrow> all_rows Q (AList.update k p es)"
  by (auto simp: all_rows_def al_lookup)

lemma all_rows_Nil [simp]: "all_rows Q []"
  by (simp add: all_rows_def)

text \<open>Every entry of the table is stored under its own key, so that a pointer occurs once.\<close>

definition keyed :: "(nat \<Rightarrow> 'k) \<Rightarrow> nat \<Rightarrow> ('k \<times> nat) list \<Rightarrow> bool" where
  "keyed key n es \<longleftrightarrow> distinct (map fst es) \<and> all_rows (\<lambda>k p. p < n \<and> key p = k) es"

lemma keyedD: "keyed key n es \<Longrightarrow> map_of es k = Some p \<Longrightarrow> p < n \<and> key p = k"
  using all_rowsD unfolding keyed_def by fastforce

lemma keyed_distinct: "keyed key n es \<Longrightarrow> distinct (map fst es)"
  by (simp add: keyed_def)

lemma keyed_delete: "keyed key n es \<Longrightarrow> keyed key n (AList.delete k es)"
  by (simp add: keyed_def al_distinct all_rows_delete)

lemma keyed_insert: "keyed key n es \<Longrightarrow> p < n \<Longrightarrow> key p = k \<Longrightarrow> keyed key n (AList.update k p es)"
  by (simp add: keyed_def al_distinct all_rows_update)

lemma keyed_cong: "keyed key n es \<Longrightarrow> (\<And>p. p < n \<Longrightarrow> key' p = key p) \<Longrightarrow> n \<le> n' \<Longrightarrow> keyed key' n' es"
  unfolding keyed_def by (blast intro: all_rows_mono dest: less_le_trans)

lemma keyed_Nil [simp]: "keyed key n []"
  by (simp add: keyed_def)

lemma keyed_sum_delete: "keyed key n es \<Longrightarrow> map_of es k = Some p \<Longrightarrow> al_sum w (AList.delete k es) = al_sum w es - w p"
  by (simp add: al_sum_delete keyed_def)

lemma keyed_sum_other:
  fixes w :: "nat \<Rightarrow> int"
  assumes "keyed key n es" "map_of es (key p) \<noteq> Some p" "\<And>q. q \<noteq> p \<Longrightarrow> w' q = w q"
  shows "al_sum w' es = al_sum w es"
proof (rule al_sum_cong)
  fix v assume "v \<in> snd ` set es"
  then obtain k where "(k, v) \<in> set es" by auto
  then have "map_of es k = Some v" using keyed_distinct [OF assms(1)] by simp
  then have "v \<noteq> p" using assms(1,2) keyedD by fastforce
  then show "w' v = w v" by (rule assms(3))
qed

lemma keyed_sum_set:
  fixes w :: "nat \<Rightarrow> int"
  assumes "keyed key n es" "map_of es k = Some p" "\<And>q. q \<noteq> p \<Longrightarrow> w' q = w q"
  shows "al_sum w' es = al_sum w es - w p + w' p"
proof -
  have k: "key p = k" using keyedD [OF assms(1,2)] by simp
  have "al_sum w' (AList.delete k es) = al_sum w (AList.delete k es)"
    by (rule keyed_sum_other [OF keyed_delete [OF assms(1)], where p = p]) (simp_all add: al_lookup k assms(3))
  then show ?thesis using keyed_sum_delete [OF assms(1,2), of w] keyed_sum_delete [OF assms(1,2), of w'] by simp
qed

lemma keyed_sum_insert:
  assumes "keyed key n es" "map_of es k = None" "\<And>q. q \<noteq> n \<Longrightarrow> w' q = w q"
  shows "al_sum w' (AList.update k n es) = al_sum w es + w' n"
proof -
  have "map_of es (key n) \<noteq> Some n" using keyedD [OF assms(1), of "key n" n] by auto
  then have "al_sum w' es = al_sum w es" by (rule keyed_sum_other [OF assms(1) _ assms(3)])
  then show ?thesis using assms keyed_distinct [OF assms(1)] by (simp add: al_sum_update)
qed

abbreviation table_ok :: "(nat \<Rightarrow> claimEntry) \<Rightarrow> nat \<Rightarrow> (claimKey \<times> nat) list \<Rightarrow> bool" where
  "table_ok h n es \<equiv> keyed (\<lambda>p. ce_key (h p)) n es"

abbreviation sum_over :: "(claimEntry \<Rightarrow> int) \<Rightarrow> (nat \<Rightarrow> claimEntry) \<Rightarrow> (claimKey \<times> nat) list \<Rightarrow> int" where
  "sum_over f h es \<equiv> al_sum (\<lambda>p. f (h p)) es"

lemma sum_over_nonneg: "(\<And>e. 0 \<le> f e) \<Longrightarrow> 0 \<le> sum_over f h es"
  by (rule al_sum_nonneg) simp

lemma sum_over_member: "(\<And>e. 0 \<le> f e) \<Longrightarrow> map_of es k = Some p \<Longrightarrow> f (h p) \<le> sum_over f h es"
  by (rule al_sum_member) auto

subsection \<open>What the counters count\<close>

definition n_claims :: "byte list \<Rightarrow> claimEntry \<Rightarrow> int" where
  "n_claims sid e = (if fst (ce_key e) = sid \<and> ce_state e \<noteq> claimTerminal then 1 else 0)"

definition n_pending :: "byte list \<Rightarrow> claimEntry \<Rightarrow> int" where
  "n_pending sid e = (if fst (ce_key e) = sid \<and> ce_state e = claimPending then 1 else 0)"

definition n_idle :: "claimEntry \<Rightarrow> int" where
  "n_idle e = (if ce_state e = claimPending \<and> ce_pendingTCP e then 1 else 0)"

lemmas n_defs = n_claims_def n_pending_def n_idle_def

lemma n_nonneg: "0 \<le> n_claims sid e" "0 \<le> n_pending sid e" "0 \<le> n_idle e"
  by (simp_all add: n_defs)

lemma session_claims_over:
  assumes "table_ok (cr_heap r) n (cr_entries r)"
  shows "session_claims sid r = sum_over (n_claims sid) (cr_heap r) (cr_entries r)"
proof -
  have "(\<forall>x \<in> set es. ce_key (h (snd x)) = fst x) \<Longrightarrow>
      int (length (filter (\<lambda>(k, p). fst k = sid \<and> ce_state (h p) \<noteq> claimTerminal) es)) = sum_over (n_claims sid) h es" for h es
    by (induction es) (auto simp: n_claims_def)
  moreover have "\<forall>x \<in> set (cr_entries r). ce_key (cr_heap r (snd x)) = fst x"
  proof
    fix x assume "x \<in> set (cr_entries r)"
    then have "map_of (cr_entries r) (fst x) = Some (snd x)" using keyed_distinct [OF assms] by simp
    then show "ce_key (cr_heap r (snd x)) = fst x" using keyedD [OF assms] by blast
  qed
  ultimately show ?thesis by (simp add: session_claims_def)
qed

subsection \<open>The shape of an entry\<close>

definition half_ok :: "claimEntry \<Rightarrow> byte \<Rightarrow> flowClaim \<Rightarrow> bool" where
  "half_ok e role c \<longleftrightarrow>
     fc_Role c = role \<and> validateClaim c = None \<and> (fc_SessionID c, fc_FlowID c) = ce_key e \<and> fc_Generation c = ce_generation e \<and>
     fc_Metadata c = ce_metadata e"

definition pending_shape :: "claimEntry \<Rightarrow> bool" where
  "pending_shape e \<longleftrightarrow>
     \<not> ce_done e \<and> ce_timer e \<and> ce_duplex e = None \<and> ce_active e = None \<and>
     (case (ce_open e, ce_attach e) of
        (Some c, None) \<Rightarrow> half_ok e FlowRoleOpen c \<and> ce_target e = Some (fc_Target c)
      | (None, Some c) \<Rightarrow> half_ok e FlowRoleAttach c \<and> ce_target e = None
      | _ \<Rightarrow> False)"

definition flow_shape :: "claimEntry \<Rightarrow> claimedFlow \<Rightarrow> bool" where
  "flow_shape e f \<longleftrightarrow>
     cf_Metadata f = ce_metadata e \<and>
     (case (cf_Duplex f, cf_Open f, cf_Attach f) of
        (Some d, None, None) \<Rightarrow> half_ok e FlowRoleDuplex d \<and> cf_Target f = Some (fc_Target d) \<and> cf_Selected f = Some d
      | (None, Some u, Some d) \<Rightarrow>
          half_ok e FlowRoleOpen u \<and> half_ok e FlowRoleAttach d \<and> cf_Target f = Some (fc_Target u) \<and> cf_Selected f = Some d
      | _ \<Rightarrow> False)"

definition entry_shape :: "claimEntry \<Rightarrow> bool" where
  "entry_shape e \<longleftrightarrow>
     (case ce_state e of
        claimPending \<Rightarrow> pending_shape e
      | claimActive \<Rightarrow> (case ce_active e of None \<Rightarrow> False | Some f \<Rightarrow> flow_shape e f \<and> (ce_done e \<or> cf_Duplex f \<noteq> None))
      | claimTerminal \<Rightarrow> ce_done e \<and> ce_err e \<noteq> None \<and> ce_permit e = None)"

text \<open>A pending entry is in the table: its timer will find it there.\<close>

definition claim_entry_ok :: "claimRegistry \<Rightarrow> nat \<Rightarrow> bool" where
  "claim_entry_ok r p \<longleftrightarrow> entry_shape (cr_heap r p) \<and> (ce_state (cr_heap r p) \<noteq> claimPending \<or> is_current r p)"

subsection \<open>The invariant\<close>

definition row_gen :: "byte list set \<Rightarrow> claimRegistry \<Rightarrow> claimKey \<Rightarrow> nat \<Rightarrow> bool" where
  "row_gen X r k p \<longleftrightarrow>
     fst k \<in> X \<or> (ce_generation (cr_heap r p) = get0 (cr_generations r) (fst k) \<and> ce_generation (cr_heap r p) \<noteq> 0)"

definition gens_ok :: "byte list set \<Rightarrow> claimRegistry \<Rightarrow> bool" where
  "gens_ok X r \<longleftrightarrow> all_rows (row_gen X r) (cr_entries r) \<and> (\<forall>sid. get0 (cr_generations r) sid \<le> cr_nextGeneration r)"

definition counts_ok :: "claimRegistry \<Rightarrow> bool" where
  "counts_ok r \<longleftrightarrow>
     (\<forall>sid. get0 (cr_pending r) sid = sum_over (n_pending sid) (cr_heap r) (cr_entries r)) \<and>
     cr_idleTCP r = sum_over n_idle (cr_heap r) (cr_entries r) \<and>
     (\<forall>sid. sum_over (n_claims sid) (cr_heap r) (cr_entries r) \<le> lm_PendingFlowsPerSession (cr_limits r)) \<and>
     cr_idleTCP r \<le> lm_AuthenticatedTCPIdleConnections (cr_limits r)"

definition no_leak :: "sessionGeneration set \<Rightarrow> claimRegistry \<Rightarrow> bool" where
  "no_leak S r \<longleftrightarrow>
     (\<forall>sid. (sid, get0 (cr_generations r) sid) \<notin> S \<longrightarrow> get0 (cr_generations r) sid \<noteq> 0 \<longrightarrow>
        hasGenerationStateLocked r (sid, get0 (cr_generations r) sid)) \<and>
     (\<forall>g \<in> fst ` set (cr_provenance r) - S. hasGenerationStateLocked r g)"

definition reg_ok :: "byte list set \<Rightarrow> sessionGeneration set \<Rightarrow> nat set \<Rightarrow> claimRegistry \<Rightarrow> bool" where
  "reg_ok X S P r \<longleftrightarrow>
     table_ok (cr_heap r) (cr_fresh r) (cr_entries r) \<and> gens_ok X r \<and> counts_ok r \<and> (cr_accepting r \<longrightarrow> no_leak S r) \<and>
     (\<forall>p. p < cr_fresh r \<longrightarrow> p \<notin> P \<longrightarrow> claim_entry_ok r p)"

text \<open>The terminal entries of the table are among those in the queue.\<close>

definition row_term :: "nat list \<Rightarrow> claimRegistry \<Rightarrow> claimKey \<Rightarrow> nat \<Rightarrow> bool" where
  "row_term ps r k p \<longleftrightarrow> ce_state (cr_heap r p) \<noteq> claimTerminal \<or> p \<in> set ps"

definition term_ok :: "nat list \<Rightarrow> claimRegistry \<Rightarrow> bool" where
  "term_ok ps r \<longleftrightarrow> all_rows (row_term ps r) (cr_entries r)"

lemma is_current_table:
  "table_ok (cr_heap r) n (cr_entries r) \<Longrightarrow> map_of (cr_entries r) k = Some p \<Longrightarrow> is_current r p \<and> ce_key (cr_heap r p) = k \<and> p < n"
  using keyedD [of "\<lambda>p. ce_key (cr_heap r p)" n "cr_entries r" k p] by (simp add: is_current_def)

definition row_not :: "sessionGeneration \<Rightarrow> claimRegistry \<Rightarrow> claimKey \<Rightarrow> nat \<Rightarrow> bool" where
  "row_not g r k p \<longleftrightarrow> \<not> (fst k = fst g \<and> ce_generation (cr_heap r p) = snd g)"

definition holds_generation :: "claimRegistry \<Rightarrow> sessionGeneration \<Rightarrow> bool" where
  "holds_generation r g \<longleftrightarrow> \<not> all_rows (row_not g r) (cr_entries r)"

lemma hasGeneration_iff:
  assumes "table_ok (cr_heap r) n (cr_entries r)"
  shows "hasGenerationStateLocked r g \<longleftrightarrow>
     holds_generation r g \<or> get0 (cr_registered r) g > 0 \<or> get0 (cr_udpInUse r) g > 0"
proof -
  have "distinct (map fst es) \<Longrightarrow> list_ex (\<lambda>(k, p). Q k p) es \<longleftrightarrow> \<not> all_rows (\<lambda>k p. \<not> Q k p) es" for Q and es :: "('k \<times> nat) list"
    by (auto simp: list_ex_iff all_rows_def)
  from this [OF keyed_distinct [OF assms], of "\<lambda>k p. fst k = fst g \<and> ce_generation (cr_heap r p) = snd g"]
  show ?thesis unfolding hasGenerationStateLocked_def holds_generation_def row_not_def by blast
qed

lemma hasGeneration_cong:
  "cr_entries r' = cr_entries r \<Longrightarrow> (\<And>p. ce_generation (cr_heap r' p) = ce_generation (cr_heap r p)) \<Longrightarrow>
   cr_registered r' = cr_registered r \<Longrightarrow> cr_udpInUse r' = cr_udpInUse r \<Longrightarrow>
   hasGenerationStateLocked r' g = hasGenerationStateLocked r g"
  by (simp add: hasGenerationStateLocked_def)

end
