(* ===== verification/Claim_Steps.thy ===== *)
theory Claim_Steps
  imports Claim_Table
begin

section \<open>nw2 server: what the small steps of the claim registry keep\<close>

text \<open>Cleaning up a generation, removing, changing and adding an entry, and the queue of terminal entries.\<close>

subsection \<open>Frames\<close>

lemma cleanup_frame [simp]:
  "cr_entries (maybeCleanupGenerationLocked sid r) = cr_entries r"
  "cr_heap (maybeCleanupGenerationLocked sid r) = cr_heap r"
  "cr_fresh (maybeCleanupGenerationLocked sid r) = cr_fresh r"
  "cr_registered (maybeCleanupGenerationLocked sid r) = cr_registered r"
  "cr_udpInUse (maybeCleanupGenerationLocked sid r) = cr_udpInUse r"
  "cr_pending (maybeCleanupGenerationLocked sid r) = cr_pending r"
  "cr_idleTCP (maybeCleanupGenerationLocked sid r) = cr_idleTCP r"
  "cr_nextGeneration (maybeCleanupGenerationLocked sid r) = cr_nextGeneration r"
  "cr_limits (maybeCleanupGenerationLocked sid r) = cr_limits r"
  "cr_terminalLimit (maybeCleanupGenerationLocked sid r) = cr_terminalLimit r"
  "cr_terminalOrder (maybeCleanupGenerationLocked sid r) = cr_terminalOrder r"
  "cr_pairTimeout (maybeCleanupGenerationLocked sid r) = cr_pairTimeout r"
  "cr_accepting (maybeCleanupGenerationLocked sid r) = cr_accepting r"
  "cr_closed (maybeCleanupGenerationLocked sid r) = cr_closed r"
  "cr_permits (maybeCleanupGenerationLocked sid r) = cr_permits r"
  "cr_results (maybeCleanupGenerationLocked sid r) = cr_results r"
  "cr_aborts (maybeCleanupGenerationLocked sid r) = cr_aborts r"
  "cr_closing (maybeCleanupGenerationLocked sid r) = cr_closing r"
  by (simp_all add: maybeCleanupGenerationLocked_def Let_def)

lemma hasGeneration_cleanup [simp]: "hasGenerationStateLocked (maybeCleanupGenerationLocked sid r) = hasGenerationStateLocked r"
  by (rule ext) (simp add: hasGenerationStateLocked_def)

lemma hasGeneration_prov [simp]: "hasGenerationStateLocked (r\<lparr>cr_provenance := v\<rparr>) = hasGenerationStateLocked r"
  by (rule ext) (simp add: hasGenerationStateLocked_def)

lemma get0_cleanup:
  "get0 (cr_generations (maybeCleanupGenerationLocked sid r)) sid' =
     (if sid' = sid \<and> \<not> hasGenerationStateLocked r (sid, get0 (cr_generations r) sid) then 0 else get0 (cr_generations r) sid')"
  by (auto simp: maybeCleanupGenerationLocked_def Let_def get0_simps)

lemma prov_cleanup:
  "fst ` set (cr_provenance (maybeCleanupGenerationLocked sid r)) =
     {g \<in> fst ` set (cr_provenance r). fst g = sid \<longrightarrow> hasGenerationStateLocked r g}"
  by (auto simp: maybeCleanupGenerationLocked_def Let_def)

lemma set_entry_frame [simp]:
  "cr_entries (set_entry p f r) = cr_entries r" "cr_heap (set_entry p f r) = (cr_heap r)(p := f (cr_heap r p))"
  "cr_fresh (set_entry p f r) = cr_fresh r" "cr_registered (set_entry p f r) = cr_registered r"
  "cr_udpInUse (set_entry p f r) = cr_udpInUse r" "cr_pending (set_entry p f r) = cr_pending r"
  "cr_idleTCP (set_entry p f r) = cr_idleTCP r" "cr_nextGeneration (set_entry p f r) = cr_nextGeneration r"
  "cr_limits (set_entry p f r) = cr_limits r" "cr_terminalLimit (set_entry p f r) = cr_terminalLimit r"
  "cr_terminalOrder (set_entry p f r) = cr_terminalOrder r" "cr_pairTimeout (set_entry p f r) = cr_pairTimeout r"
  "cr_accepting (set_entry p f r) = cr_accepting r" "cr_closed (set_entry p f r) = cr_closed r"
  "cr_permits (set_entry p f r) = cr_permits r" "cr_results (set_entry p f r) = cr_results r"
  "cr_aborts (set_entry p f r) = cr_aborts r" "cr_closing (set_entry p f r) = cr_closing r"
  "cr_generations (set_entry p f r) = cr_generations r" "cr_provenance (set_entry p f r) = cr_provenance r"
  by (simp_all add: set_entry_def)

lemmas reg_defs = reg_ok_def gens_ok_def row_gen_def [abs_def] counts_ok_def no_leak_def claim_entry_ok_def is_current_def hasGenerationStateLocked_def

lemma reg_ok_irrelevant [simp]:
  "reg_ok X S P (r\<lparr>cr_results := v1\<rparr>) = reg_ok X S P r"
  "reg_ok X S P (r\<lparr>cr_terminalOrder := v2\<rparr>) = reg_ok X S P r"
  "reg_ok X S P (r\<lparr>cr_permits := v3\<rparr>) = reg_ok X S P r"
  "reg_ok X S P (r\<lparr>cr_aborts := v4\<rparr>) = reg_ok X S P r"
  "reg_ok X S P (r\<lparr>cr_closing := v5\<rparr>) = reg_ok X S P r"
  "reg_ok X S P (r\<lparr>cr_closed := v6\<rparr>) = reg_ok X S P r"
  by (simp_all add: reg_defs)

lemma reg_okD:
  assumes "reg_ok X S P r"
  shows "table_ok (cr_heap r) (cr_fresh r) (cr_entries r)" "gens_ok X r" "counts_ok r" "cr_accepting r \<Longrightarrow> no_leak S r"
    "\<And>p. p < cr_fresh r \<Longrightarrow> p \<notin> P \<Longrightarrow> claim_entry_ok r p"
  using assms by (simp_all add: reg_ok_def)

lemma gens_ok_mono: "gens_ok X r \<Longrightarrow> X \<subseteq> X' \<Longrightarrow> gens_ok X' r"
  unfolding gens_ok_def by (metis (mono_tags) all_rows_mono row_gen_def subsetD)

lemma no_leak_mono: "no_leak S r \<Longrightarrow> S \<subseteq> S' \<Longrightarrow> no_leak S' r"
  unfolding no_leak_def by blast

lemma reg_ok_mono: "reg_ok X S P r \<Longrightarrow> X \<subseteq> X' \<Longrightarrow> S \<subseteq> S' \<Longrightarrow> P \<subseteq> P' \<Longrightarrow> reg_ok X' S' P' r"
  unfolding reg_ok_def using gens_ok_mono no_leak_mono by blast

lemma counts_cong:
  "cr_heap r' = cr_heap r \<Longrightarrow> cr_entries r' = cr_entries r \<Longrightarrow> cr_pending r' = cr_pending r \<Longrightarrow> cr_idleTCP r' = cr_idleTCP r \<Longrightarrow>
   cr_limits r' = cr_limits r \<Longrightarrow> counts_ok r' = counts_ok r"
  by (simp add: counts_ok_def)

lemma claim_entry_ok_cong:
  "cr_heap r' p = cr_heap r p \<Longrightarrow> map_of (cr_entries r') (ce_key (cr_heap r p)) = map_of (cr_entries r) (ce_key (cr_heap r p)) \<Longrightarrow>
   claim_entry_ok r' p = claim_entry_ok r p"
  by (simp add: claim_entry_ok_def is_current_def)

lemma row_gen_cong:
  "cr_generations r' = cr_generations r \<Longrightarrow> ce_generation (cr_heap r' p) = ce_generation (cr_heap r p) \<Longrightarrow> row_gen X r' k p = row_gen X r k p"
  by (simp add: row_gen_def)

subsection \<open>Cleaning up a generation\<close>

lemma reg_ok_cleanup:
  assumes "reg_ok X S P r"
  shows "reg_ok X {g \<in> S. fst g \<noteq> sid} P (maybeCleanupGenerationLocked sid r)"
proof -
  let ?r = "maybeCleanupGenerationLocked sid r" and ?g = "(sid, get0 (cr_generations r) sid)"
  note d = reg_okD [OF assms]
  have rows: "all_rows (row_gen X ?r) (cr_entries r)"
  proof (rule all_rowsI)
    fix k p assume p: "map_of (cr_entries r) k = Some p"
    then have g: "row_gen X r k p" using d(2) unfolding gens_ok_def by (blast dest: all_rowsD)
    show "row_gen X ?r k p"
    proof (cases "fst k = sid \<and> \<not> hasGenerationStateLocked r ?g")
      case True
      then have "\<not> holds_generation r ?g" using hasGeneration_iff [OF d(1)] by blast
      then have "row_not ?g r k p" using p unfolding holds_generation_def by (blast dest: all_rowsD)
      then show ?thesis using g True by (auto simp: row_gen_def row_not_def)
    next
      case False
      then have "get0 (cr_generations ?r) (fst k) = get0 (cr_generations r) (fst k)" unfolding get0_cleanup by auto
      then show ?thesis using g by (simp add: row_gen_def)
    qed
  qed
  have gens: "gens_ok X ?r" using rows d(2) by (simp add: gens_ok_def get0_cleanup)
  have "no_leak {g \<in> S. fst g \<noteq> sid} ?r" if n: "no_leak S r"
    unfolding no_leak_def hasGeneration_cleanup
  proof (intro conjI allI impI ballI)
    fix s assume "(s, get0 (cr_generations ?r) s) \<notin> {g \<in> S. fst g \<noteq> sid}" "get0 (cr_generations ?r) s \<noteq> 0"
    then show "hasGenerationStateLocked r (s, get0 (cr_generations ?r) s)"
      using n unfolding no_leak_def get0_cleanup by (cases "s = sid") (auto split: if_splits)
  next
    fix g assume "g \<in> fst ` set (cr_provenance ?r) - {g \<in> S. fst g \<noteq> sid}"
    then show "hasGenerationStateLocked r g" using n unfolding no_leak_def prov_cleanup by (cases "fst g = sid") blast+
  qed
  then show ?thesis using d gens unfolding reg_ok_def
    by (simp add: counts_cong [of ?r r] claim_entry_ok_cong [of ?r _ r])
qed

subsection \<open>Removing, changing and adding an entry\<close>

lemma holds_delete:
  assumes "fst k \<noteq> fst g \<or> ce_generation (cr_heap r p) \<noteq> snd g" "map_of (cr_entries r) k = Some p" "holds_generation r g"
  shows "holds_generation (r\<lparr>cr_entries := AList.delete k (cr_entries r)\<rparr>) g"
proof (rule ccontr)
  assume "\<not> ?thesis"
  then have n: "all_rows (row_not g r) (AList.delete k (cr_entries r))" by (simp add: holds_generation_def row_not_def [abs_def])
  have "all_rows (row_not g r) (cr_entries r)"
  proof (rule all_rowsI)
    fix k' p' assume "map_of (cr_entries r) k' = Some p'"
    then show "row_not g r k' p'"
      using all_rowsD [OF n, of k' p'] assms(1,2) by (cases "k' = k") (auto simp: al_lookup row_not_def)
  qed
  then show False using assms(3) by (simp add: holds_generation_def)
qed

lemma reg_ok_delete:
  assumes "reg_ok X S P r" "map_of (cr_entries r) k = Some p" "ce_state (cr_heap r p) \<noteq> claimPending"
  shows "reg_ok X (insert (fst k, ce_generation (cr_heap r p)) S) P (r\<lparr>cr_entries := AList.delete k (cr_entries r)\<rparr>)"
    (is "reg_ok X ?S P ?r")
proof -
  note d = reg_okD [OF assms(1)]
  have key: "ce_key (cr_heap r p) = k" using is_current_table [OF d(1) assms(2)] by simp
  have t: "table_ok (cr_heap ?r) (cr_fresh ?r) (cr_entries ?r)" using keyed_delete [OF d(1)] by simp
  have g: "gens_ok X ?r" using d(2) all_rows_delete unfolding gens_ok_def by (auto simp: row_gen_def [abs_def])
  have o: "sum_over f (cr_heap r) (AList.delete k (cr_entries r)) = sum_over f (cr_heap r) (cr_entries r) - f (cr_heap r p)" for f
    by (rule keyed_sum_delete [OF d(1) assms(2)])
  have z: "n_pending sid (cr_heap r p) = 0" "n_idle (cr_heap r p) = 0" for sid using assms(3) by (simp_all add: n_defs)
  have "sum_over (n_claims sid) (cr_heap r) (AList.delete k (cr_entries r)) \<le> lm_PendingFlowsPerSession (cr_limits r)" for sid
  proof -
    have "sum_over (n_claims sid) (cr_heap r) (cr_entries r) \<le> lm_PendingFlowsPerSession (cr_limits r)" using d(3) by (simp add: counts_ok_def)
    then show ?thesis unfolding o using n_nonneg(1) [of sid "cr_heap r p"] by linarith
  qed
  then have c: "counts_ok ?r" using d(3) unfolding counts_ok_def by (simp add: o z)
  have h: "hasGenerationStateLocked ?r g'" if "hasGenerationStateLocked r g'" "g' \<notin> ?S" for g'
  proof -
    have "g' \<noteq> (fst k, ce_generation (cr_heap r p))" using that by simp
    then have "fst k \<noteq> fst g' \<or> ce_generation (cr_heap r p) \<noteq> snd g'" by (metis prod.collapse)
    then show ?thesis
      using that(1) holds_delete [OF _ assms(2), of g'] hasGeneration_iff [OF d(1), of g'] hasGeneration_iff [OF t, of g'] by auto
  qed
  have l: "no_leak ?S ?r" if n: "no_leak S r"
  proof -
    have "hasGenerationStateLocked r (sid, get0 (cr_generations r) sid)"
      if "(sid, get0 (cr_generations r) sid) \<notin> ?S" "get0 (cr_generations r) sid \<noteq> 0" for sid
      using n that unfolding no_leak_def by blast
    moreover have "hasGenerationStateLocked r g" if "g \<in> fst ` set (cr_provenance r) - ?S" for g
      using n that unfolding no_leak_def by blast
    ultimately show ?thesis using h unfolding no_leak_def by simp
  qed
  have e: "claim_entry_ok ?r q" if "claim_entry_ok r q" for q
  proof (cases "ce_key (cr_heap r q) = k")
    case True
    then have "ce_state (cr_heap r q) \<noteq> claimPending"
      using that assms(2,3) by (auto simp: claim_entry_ok_def is_current_def)
    then show ?thesis using that by (simp add: claim_entry_ok_def)
  next
    case False
    then show ?thesis using that claim_entry_ok_cong [of ?r q r] by (simp add: al_lookup)
  qed
  show ?thesis using t g c l e d unfolding reg_ok_def by simp
qed

lemma reg_ok_set:
  assumes "reg_ok X S (insert p P) r" "p < cr_fresh r"
    "ce_key (f (cr_heap r p)) = ce_key (cr_heap r p)" "ce_generation (f (cr_heap r p)) = ce_generation (cr_heap r p)"
    "ce_state (f (cr_heap r p)) = ce_state (cr_heap r p)" "ce_pendingTCP (f (cr_heap r p)) = ce_pendingTCP (cr_heap r p)"
    "p \<in> P \<or> entry_shape (f (cr_heap r p)) \<and> (ce_state (cr_heap r p) \<noteq> claimPending \<or> is_current r p)"
  shows "reg_ok X S P (set_entry p f r)"
proof -
  let ?r = "set_entry p f r"
  note d = reg_okD [OF assms(1)]
  have t: "table_ok (cr_heap ?r) (cr_fresh ?r) (cr_entries ?r)"
    using assms(3) by (auto intro: keyed_cong [OF d(1)])
  have "row_gen X ?r = row_gen X r" using assms(4) by (simp add: fun_eq_iff row_gen_def)
  then have g: "gens_ok X ?r" using d(2) by (simp add: gens_ok_def)
  have "n_claims sid (f (cr_heap r p)) = n_claims sid (cr_heap r p)" "n_pending sid (f (cr_heap r p)) = n_pending sid (cr_heap r p)"
    "n_idle (f (cr_heap r p)) = n_idle (cr_heap r p)" for sid
    using assms(3-6) by (simp_all add: n_defs)
  then have "(\<lambda>q. n_claims sid (cr_heap ?r q)) = (\<lambda>q. n_claims sid (cr_heap r q))"
    "(\<lambda>q. n_pending sid (cr_heap ?r q)) = (\<lambda>q. n_pending sid (cr_heap r q))"
    "(\<lambda>q. n_idle (cr_heap ?r q)) = (\<lambda>q. n_idle (cr_heap r q))" for sid
    by (simp_all add: fun_eq_iff)
  then have c: "counts_ok ?r" using d(3) unfolding counts_ok_def by (metis set_entry_frame(1,6,7,9))
  have "hasGenerationStateLocked ?r = hasGenerationStateLocked r"
    by (rule ext, rule hasGeneration_cong) (simp_all add: assms(4))
  then have l: "no_leak S ?r" if "no_leak S r" using that by (simp add: no_leak_def)
  have e: "claim_entry_ok ?r q" if "q < cr_fresh r" "q \<notin> P" for q
  proof (cases "q = p")
    case True
    then show ?thesis using assms(3,5,7) that by (auto simp: claim_entry_ok_def is_current_def)
  next
    case False
    then show ?thesis using d(5) that claim_entry_ok_cong [of ?r q r] by simp
  qed
  show ?thesis using t g c l e d unfolding reg_ok_def by simp
qed

text \<open>The end of a pending entry: its count and its idle connection go, whatever it becomes.\<close>

lemma finish_frame [simp]:
  "cr_entries (finishPendingLocked p r) = cr_entries r" "cr_fresh (finishPendingLocked p r) = cr_fresh r"
  "cr_heap (finishPendingLocked p r) = (cr_heap r)(p := (cr_heap r p)\<lparr>ce_timer := False, ce_pendingTCP := False\<rparr>)"
  "cr_registered (finishPendingLocked p r) = cr_registered r" "cr_udpInUse (finishPendingLocked p r) = cr_udpInUse r"
  "cr_nextGeneration (finishPendingLocked p r) = cr_nextGeneration r" "cr_limits (finishPendingLocked p r) = cr_limits r"
  "cr_terminalLimit (finishPendingLocked p r) = cr_terminalLimit r" "cr_terminalOrder (finishPendingLocked p r) = cr_terminalOrder r"
  "cr_pairTimeout (finishPendingLocked p r) = cr_pairTimeout r" "cr_accepting (finishPendingLocked p r) = cr_accepting r"
  "cr_closed (finishPendingLocked p r) = cr_closed r" "cr_permits (finishPendingLocked p r) = cr_permits r"
  "cr_results (finishPendingLocked p r) = cr_results r" "cr_aborts (finishPendingLocked p r) = cr_aborts r"
  "cr_closing (finishPendingLocked p r) = cr_closing r" "cr_generations (finishPendingLocked p r) = cr_generations r"
  "cr_provenance (finishPendingLocked p r) = cr_provenance r"
  "cr_pending (finishPendingLocked p r) = decrement (fst (ce_key (cr_heap r p))) (cr_pending r)"
  "cr_idleTCP (finishPendingLocked p r) =
     (if ce_pendingTCP (cr_heap r p) \<and> cr_idleTCP r > 0 then cr_idleTCP r - 1 else cr_idleTCP r)"
  by (simp_all add: finishPendingLocked_def Let_def)

lemma reg_ok_finish:
  assumes "reg_ok X S P r" "map_of (cr_entries r) k = Some p" "ce_state (cr_heap r p) = claimPending"
    and f: "\<And>e. ce_key (f e) = ce_key e" "\<And>e. ce_generation (f e) = ce_generation e" "\<And>e. ce_state (f e) \<noteq> claimPending"
  shows "reg_ok X S (insert p P) (set_entry p f (finishPendingLocked p r))" (is "reg_ok X S _ ?r")
proof -
  note d = reg_okD [OF assms(1)]
  have key: "ce_key (cr_heap r p) = k" "p < cr_fresh r" using is_current_table [OF d(1) assms(2)] by simp_all
  let ?h = "cr_heap ?r"
  have hp: "ce_key (?h p) = k" "ce_generation (?h p) = ce_generation (cr_heap r p)" "ce_state (?h p) \<noteq> claimPending"
    by (simp_all add: f key)
  have o: "sum_over g ?h (cr_entries r) = sum_over g (cr_heap r) (cr_entries r) - g (cr_heap r p) + g (?h p)" for g
    by (rule keyed_sum_set [OF d(1) assms(2)]) simp
  have t: "table_ok ?h (cr_fresh ?r) (cr_entries ?r)" using hp(1) key by (auto intro: keyed_cong [OF d(1)])
  have "row_gen X ?r = row_gen X r" using hp(2) by (simp add: fun_eq_iff row_gen_def)
  then have g: "gens_ok X ?r" using d(2) by (simp add: gens_ok_def)
  have 1: "get0 (cr_pending ?r) sid = sum_over (n_pending sid) ?h (cr_entries r)" for sid
  proof -
    have "get0 (cr_pending r) sid = sum_over (n_pending sid) (cr_heap r) (cr_entries r)" using d(3) by (simp add: counts_ok_def)
    moreover have "n_pending sid (cr_heap r p) \<le> sum_over (n_pending sid) (cr_heap r) (cr_entries r)"
      by (rule sum_over_member [OF _ assms(2)]) (simp add: n_nonneg)
    moreover have "n_pending sid (?h p) = 0" using hp(3) by (simp add: n_pending_def)
    ultimately show ?thesis unfolding o using assms(3) key by (auto simp: get0_decrement n_pending_def)
  qed
  have 2: "cr_idleTCP ?r = sum_over n_idle ?h (cr_entries r)"
  proof -
    have "cr_idleTCP r = sum_over n_idle (cr_heap r) (cr_entries r)" using d(3) by (simp add: counts_ok_def)
    moreover have "n_idle (cr_heap r p) \<le> sum_over n_idle (cr_heap r) (cr_entries r)"
      by (rule sum_over_member [OF _ assms(2)]) (simp add: n_nonneg)
    moreover have "n_idle (?h p) = 0" using hp(3) by (simp add: n_idle_def)
    ultimately show ?thesis unfolding o using assms(3) by (auto simp: n_idle_def)
  qed
  have 3: "sum_over (n_claims sid) ?h (cr_entries r) \<le> lm_PendingFlowsPerSession (cr_limits r)" for sid
  proof -
    have "n_claims sid (?h p) \<le> n_claims sid (cr_heap r p)" using hp(1) key assms(3) by (simp add: n_claims_def)
    moreover have "sum_over (n_claims sid) (cr_heap r) (cr_entries r) \<le> lm_PendingFlowsPerSession (cr_limits r)"
      using d(3) by (simp add: counts_ok_def)
    ultimately show ?thesis unfolding o by linarith
  qed
  have "cr_idleTCP ?r \<le> lm_AuthenticatedTCPIdleConnections (cr_limits r)" using d(3) by (simp add: counts_ok_def)
  then have c: "counts_ok ?r" using 1 2 3 unfolding counts_ok_def by simp
  have "hasGenerationStateLocked ?r = hasGenerationStateLocked r"
    by (rule ext, rule hasGeneration_cong) (simp_all add: f)
  then have l: "no_leak S ?r" if "no_leak S r" using that by (simp add: no_leak_def)
  have e: "claim_entry_ok ?r q" if "q < cr_fresh r" "q \<notin> insert p P" for q
    using d(5) [of q] that claim_entry_ok_cong [of ?r q r] by simp
  show ?thesis using t g c l e d unfolding reg_ok_def by simp
qed

text \<open>A new entry under a key that is not in use.\<close>

lemma hasGeneration_insert:
  assumes "table_ok (cr_heap r) (cr_fresh r) (cr_entries r)" "map_of (cr_entries r) (ce_key e) = None"
    "table_ok (cr_heap r') n (cr_entries r')"
    "cr_heap r' = (cr_heap r)(cr_fresh r := e)" "cr_entries r' = AList.update (ce_key e) (cr_fresh r) (cr_entries r)"
    "cr_registered r' = cr_registered r" "cr_udpInUse r' = cr_udpInUse r"
  shows "hasGenerationStateLocked r g \<or> g = (fst (ce_key e), ce_generation e) \<Longrightarrow> hasGenerationStateLocked r' g"
proof (rule ccontr)
  assume g: "hasGenerationStateLocked r g \<or> g = (fst (ce_key e), ce_generation e)" and n: "\<not> hasGenerationStateLocked r' g"
  then have a: "all_rows (row_not g r') (cr_entries r')" using hasGeneration_iff [OF assms(3)] by (simp add: holds_generation_def)
  have "row_not g r' (ce_key e) (cr_fresh r)" by (rule all_rowsD [OF a]) (simp add: assms(5) al_lookup)
  then have 1: "g \<noteq> (fst (ce_key e), ce_generation e)" by (auto simp: row_not_def assms(4))
  have "all_rows (row_not g r) (cr_entries r)"
  proof (rule all_rowsI)
    fix k p assume p: "map_of (cr_entries r) k = Some p"
    then have "map_of (cr_entries r') k = Some p" "p < cr_fresh r" using assms(2) keyedD [OF assms(1) p] by (auto simp: assms(5) al_lookup)
    then show "row_not g r k p" using all_rowsD [OF a] by (fastforce simp: row_not_def assms(4))
  qed
  then show False
    using g 1 n hasGeneration_iff [OF assms(3), of g] hasGeneration_iff [OF assms(1), of g] by (simp add: holds_generation_def assms(6,7))
qed

lemma reg_ok_insert:
  assumes "reg_ok X S P r" "map_of (cr_entries r) (ce_key e) = None"
    and "ce_generation e = get0 (cr_generations r) (fst (ce_key e))" "ce_generation e \<noteq> 0" "entry_shape e"
    and r': "cr_heap r' = (cr_heap r)(cr_fresh r := e)" "cr_fresh r' = Suc (cr_fresh r)"
      "cr_entries r' = AList.update (ce_key e) (cr_fresh r) (cr_entries r)"
      "cr_generations r' = cr_generations r" "cr_nextGeneration r' = cr_nextGeneration r" "cr_provenance r' = cr_provenance r"
      "cr_limits r' = cr_limits r" "cr_registered r' = cr_registered r" "cr_udpInUse r' = cr_udpInUse r" "cr_accepting r' = cr_accepting r"
    and n: "\<And>sid. get0 (cr_pending r') sid = get0 (cr_pending r) sid + n_pending sid e" "cr_idleTCP r' = cr_idleTCP r + n_idle e"
      "\<And>sid. sum_over (n_claims sid) (cr_heap r) (cr_entries r) + n_claims sid e \<le> lm_PendingFlowsPerSession (cr_limits r)"
      "cr_idleTCP r' \<le> lm_AuthenticatedTCPIdleConnections (cr_limits r)"
  shows "reg_ok X (S - {(fst (ce_key e), ce_generation e)}) P r'"
proof -
  note d = reg_okD [OF assms(1)]
  have t: "table_ok (cr_heap r') (cr_fresh r') (cr_entries r')"
    unfolding r' by (rule keyed_insert [OF keyed_cong [OF d(1)]]) auto
  have o: "sum_over f (cr_heap r') (cr_entries r') = sum_over f (cr_heap r) (cr_entries r) + f e" for f
    using keyed_sum_insert [OF d(1) assms(2), of "\<lambda>p. f (cr_heap r' p)" "\<lambda>p. f (cr_heap r p)"] by (simp add: r')
  have c: "counts_ok r'" using d(3) n unfolding counts_ok_def o by (simp add: r')
  have rows: "all_rows (row_gen X r') (cr_entries r')"
  proof (rule all_rowsI)
    fix k p assume a: "map_of (cr_entries r') k = Some p"
    show "row_gen X r' k p"
    proof (cases "k = ce_key e")
      case True
      then show ?thesis using a assms(3,4) by (simp add: r' al_lookup row_gen_def)
    next
      case False
      then have p: "map_of (cr_entries r) k = Some p" using a by (simp add: r' al_lookup)
      then have "p < cr_fresh r" "row_gen X r k p"
        using keyedD [OF d(1)] d(2) unfolding gens_ok_def by (blast dest: all_rowsD)+
      then show ?thesis by (simp add: row_gen_def r')
    qed
  qed
  then have g: "gens_ok X r'" using d(2) by (simp add: gens_ok_def r')
  note h = hasGeneration_insert [OF d(1) assms(2) t r'(1,3,8,9)]
  have l: "no_leak (S - {(fst (ce_key e), ce_generation e)}) r'" if nl: "no_leak S r"
    unfolding no_leak_def
  proof (intro conjI allI impI ballI)
    fix s assume "(s, get0 (cr_generations r') s) \<notin> S - {(fst (ce_key e), ce_generation e)}" "get0 (cr_generations r') s \<noteq> 0"
    then show "hasGenerationStateLocked r' (s, get0 (cr_generations r') s)" using nl h unfolding no_leak_def r' by auto
  next
    fix g assume "g \<in> fst ` set (cr_provenance r') - (S - {(fst (ce_key e), ce_generation e)})"
    then show "hasGenerationStateLocked r' g" using nl h unfolding no_leak_def r' by blast
  qed
  have e: "claim_entry_ok r' q" if "q < cr_fresh r'" "q \<notin> P" for q
  proof (cases "q = cr_fresh r")
    case True
    then show ?thesis using assms(5) by (simp add: claim_entry_ok_def is_current_def r' al_lookup)
  next
    case False
    then have q: "claim_entry_ok r q" using d(5) that by (simp add: r')
    then show ?thesis using assms(2) False by (auto simp: claim_entry_ok_def is_current_def r' al_lookup)
  qed
  show ?thesis using t g c l e d(4) unfolding reg_ok_def by (simp add: r'(10))
qed

end
