(* ===== verification/Claim_Ops.thy ===== *)
theory Claim_Ops
  imports Claim_Steps
begin

section \<open>nw2 server: terminal entries, permits and the end of a pending claim\<close>

text \<open>The queue of terminal entries, the UDP permits, and \<^verbatim>\<open>failPendingLocked\<close>.\<close>

lemma al_update_same: "map_of xs k = Some v \<Longrightarrow> AList.update k v xs = xs"
  by (induction xs) (auto split: if_splits)

subsection \<open>Dropping an entry\<close>

lemma drop_frame [simp]:
  "cr_heap (drop_entry p r) = cr_heap r" "cr_fresh (drop_entry p r) = cr_fresh r"
  "cr_entries (drop_entry p r) = AList.delete (ce_key (cr_heap r p)) (cr_entries r)"
  "cr_registered (drop_entry p r) = cr_registered r" "cr_udpInUse (drop_entry p r) = cr_udpInUse r"
  "cr_pending (drop_entry p r) = cr_pending r" "cr_idleTCP (drop_entry p r) = cr_idleTCP r"
  "cr_nextGeneration (drop_entry p r) = cr_nextGeneration r" "cr_limits (drop_entry p r) = cr_limits r"
  "cr_terminalLimit (drop_entry p r) = cr_terminalLimit r" "cr_terminalOrder (drop_entry p r) = cr_terminalOrder r"
  "cr_pairTimeout (drop_entry p r) = cr_pairTimeout r" "cr_accepting (drop_entry p r) = cr_accepting r"
  "cr_closed (drop_entry p r) = cr_closed r" "cr_permits (drop_entry p r) = cr_permits r"
  "cr_results (drop_entry p r) = cr_results r" "cr_aborts (drop_entry p r) = cr_aborts r"
  "cr_closing (drop_entry p r) = cr_closing r"
  by (simp_all add: drop_entry_def Let_def)

lemma reg_ok_drop:
  assumes "reg_ok X S P r" "is_current r p" "ce_state (cr_heap r p) \<noteq> claimPending"
  shows "reg_ok X S P (drop_entry p r)"
proof -
  let ?k = "ce_key (cr_heap r p)"
  have "map_of (cr_entries r) ?k = Some p" using assms(2) by (simp add: is_current_def)
  from reg_ok_cleanup [OF reg_ok_delete [OF assms(1) this assms(3)], of "fst ?k"]
  show ?thesis unfolding drop_entry_def Let_def by (rule reg_ok_mono) auto
qed

lemma term_ok_delete: "term_ok ps r \<Longrightarrow> cr_heap r' = cr_heap r \<Longrightarrow> cr_entries r' = AList.delete k (cr_entries r) \<Longrightarrow> term_ok ps r'"
  by (simp add: term_ok_def row_term_def [abs_def] all_rows_delete)

text \<open>Taking an entry off the queue when it is no longer a terminal entry of the table.\<close>

lemma term_ok_skip:
  assumes "term_ok ps r" "table_ok (cr_heap r) n (cr_entries r)" "set ps \<subseteq> insert p (set qs)"
    "\<not> (is_current r p \<and> ce_state (cr_heap r p) = claimTerminal)"
  shows "term_ok qs r"
  unfolding term_ok_def
proof (rule all_rowsI)
  fix k q assume q: "map_of (cr_entries r) k = Some q"
  then have "row_term ps r k q" using assms(1) unfolding term_ok_def by (blast dest: all_rowsD)
  moreover have "is_current r q" using is_current_table [OF assms(2) q] by simp
  ultimately show "row_term qs r k q" using assms(3,4) by (auto simp: row_term_def)
qed

lemma not_current_drop: "\<not> is_current (drop_entry p r) p"
  by (simp add: is_current_def al_lookup)

subsection \<open>The queue of terminal entries\<close>

definition terminal_cap :: "claimRegistry \<Rightarrow> int" where
  "terminal_cap r = (if cr_terminalLimit r \<le> 0 then 1 else cr_terminalLimit r)"

lemma terminal_cap_cong: "cr_terminalLimit r' = cr_terminalLimit r \<Longrightarrow> terminal_cap r' = terminal_cap r"
  by (simp add: terminal_cap_def)

definition queue_ok :: "claimRegistry \<Rightarrow> bool" where
  "queue_ok r \<longleftrightarrow> term_ok (cr_terminalOrder r) r \<and> int (length (cr_terminalOrder r)) \<le> terminal_cap r"

text \<open>What the two loops over the queue change: the queue, terminal entries and what is cleaned up with them.\<close>

definition same_core :: "claimRegistry \<Rightarrow> claimRegistry \<Rightarrow> bool" where
  "same_core r r' \<longleftrightarrow>
     cr_heap r' = cr_heap r \<and> cr_fresh r' = cr_fresh r \<and> cr_registered r' = cr_registered r \<and> cr_udpInUse r' = cr_udpInUse r \<and>
     cr_pending r' = cr_pending r \<and> cr_idleTCP r' = cr_idleTCP r \<and> cr_nextGeneration r' = cr_nextGeneration r \<and>
     cr_limits r' = cr_limits r \<and> cr_terminalLimit r' = cr_terminalLimit r \<and> cr_pairTimeout r' = cr_pairTimeout r \<and>
     cr_accepting r' = cr_accepting r \<and> cr_closed r' = cr_closed r \<and> cr_permits r' = cr_permits r \<and> cr_results r' = cr_results r \<and>
     cr_aborts r' = cr_aborts r \<and> cr_closing r' = cr_closing r"

definition pruned :: "claimRegistry \<Rightarrow> claimRegistry \<Rightarrow> bool" where
  "pruned r r' \<longleftrightarrow>
     same_core r r' \<and> all_rows (\<lambda>k p. map_of (cr_entries r) k = Some p) (cr_entries r') \<and>
     all_rows (\<lambda>k p. map_of (cr_entries r') k = Some p \<or> ce_state (cr_heap r p) = claimTerminal) (cr_entries r) \<and>
     length (cr_entries r') \<le> length (cr_entries r)"

lemma prunedD:
  assumes "pruned r r'"
  shows "same_core r r'" "map_of (cr_entries r') k = Some p \<Longrightarrow> map_of (cr_entries r) k = Some p"
    "map_of (cr_entries r) k = Some p \<Longrightarrow> map_of (cr_entries r') k = Some p \<or> ce_state (cr_heap r p) = claimTerminal"
    "length (cr_entries r') \<le> length (cr_entries r)"
  using assms all_rowsD [of _ "cr_entries r'" k p] all_rowsD [of _ "cr_entries r" k p] unfolding pruned_def by auto

lemma pruned_refl: "pruned r (r\<lparr>cr_terminalOrder := ps\<rparr>)"
  by (auto simp: pruned_def same_core_def intro: all_rowsI)

lemma pruned_drop:
  assumes "pruned (drop_entry p r) r'" "is_current r p" "ce_state (cr_heap r p) = claimTerminal"
  shows "pruned r r'"
proof -
  let ?k = "ce_key (cr_heap r p)"
  have a: "all_rows (\<lambda>k q. map_of (AList.delete ?k (cr_entries r)) k = Some q) (cr_entries r')"
    "all_rows (\<lambda>k q. map_of (cr_entries r') k = Some q \<or> ce_state (cr_heap r q) = claimTerminal) (AList.delete ?k (cr_entries r))"
    "length (cr_entries r') \<le> length (AList.delete ?k (cr_entries r))" "same_core r r'"
    using assms(1) by (simp_all add: pruned_def same_core_def)
  have 1: "all_rows (\<lambda>k q. map_of (cr_entries r) k = Some q) (cr_entries r')"
    using a(1) by (rule all_rows_mono) (auto simp: al_lookup split: if_splits)
  have 2: "all_rows (\<lambda>k q. map_of (cr_entries r') k = Some q \<or> ce_state (cr_heap r q) = claimTerminal) (cr_entries r)"
  proof (rule all_rowsI)
    fix k q assume "map_of (cr_entries r) k = Some q"
    then show "map_of (cr_entries r') k = Some q \<or> ce_state (cr_heap r q) = claimTerminal"
      using all_rowsD [OF a(2), of k q] assms(2,3) by (cases "k = ?k") (auto simp: al_lookup is_current_def)
  qed
  have 3: "length (cr_entries r') \<le> length (cr_entries r)"
    by (rule order_trans [OF a(3) AList.length_delete_le])
  show ?thesis unfolding pruned_def by (intro conjI a(4) 1 2 3)
qed

lemma evict_ok:
  assumes "reg_ok X S P r" "term_ok ps r"
  shows "reg_ok X S P (evict_terminals ps r) \<and> queue_ok (evict_terminals ps r) \<and> pruned r (evict_terminals ps r)"
  using assms
proof (induction ps r rule: evict_terminals.induct)
  case (1 r)
  then show ?case using pruned_refl [of r "[]"] by (simp add: queue_ok_def term_ok_def row_term_def [abs_def] terminal_cap_def)
next
  case (2 p ps r)
  show ?case
  proof (cases "int (length (p # ps)) > terminal_cap r")
    case small: False
    then show ?thesis using 2(2,3) pruned_refl [of r "p # ps"]
      by (auto simp: queue_ok_def term_ok_def row_term_def [abs_def] terminal_cap_def split: if_splits)
  next
    case big: True
    note t = reg_okD(1) [OF 2(2)]
    let ?live = "is_current r p \<and> ce_state (cr_heap r p) = claimTerminal"
    let ?r = "if ?live then drop_entry p r else r"
    have r: "reg_ok X S P ?r" using 2(2) reg_ok_drop [OF 2(2), of p] by simp
    have "term_ok (p # ps) ?r" using 2(3) term_ok_delete [OF 2(3), of "drop_entry p r"] by simp
    then have "term_ok ps ?r"
      by (rule term_ok_skip [where p = p, OF _ reg_okD(1) [OF r]]) (auto simp: not_current_drop)
    with 2(1) r big have ih: "reg_ok X S P (evict_terminals ps ?r) \<and> queue_ok (evict_terminals ps ?r) \<and> pruned ?r (evict_terminals ps ?r)"
      by (simp add: terminal_cap_def)
    moreover have "pruned r (evict_terminals ps ?r)" using ih pruned_drop [of p r] by (cases ?live) auto
    moreover have "evict_terminals (p # ps) r = evict_terminals ps ?r" using big by (simp add: terminal_cap_def)
    ultimately show ?thesis by simp
  qed
qed

lemma addTerminal_ok:
  assumes "reg_ok X S P (r\<lparr>cr_entries := AList.update (ce_key (cr_heap r p)) p (cr_entries r)\<rparr>)" (is "reg_ok X S P ?r")
    and "term_ok (cr_terminalOrder r @ [p]) (r\<lparr>cr_entries := AList.update (ce_key (cr_heap r p)) p (cr_entries r)\<rparr>)"
  shows "reg_ok X S P (addTerminalLocked p r) \<and> queue_ok (addTerminalLocked p r) \<and> pruned ?r (addTerminalLocked p r)"
proof -
  let ?c = "filter (\<lambda>c. is_current r c \<and> ce_state (cr_heap r c) = claimTerminal) (cr_terminalOrder r)"
  note t = reg_okD(1) [OF assms(1)]
  have "term_ok (?c @ [p]) ?r"
    unfolding term_ok_def
  proof (rule all_rowsI)
    fix k q assume q: "map_of (cr_entries ?r) k = Some q"
    then have w: "row_term (cr_terminalOrder r @ [p]) ?r k q" using assms(2) unfolding term_ok_def by (blast dest: all_rowsD)
    have "ce_key (cr_heap r q) = k" using is_current_table [OF t q] by simp
    then have "q = p \<or> is_current r q" using q by (auto simp: is_current_def al_lookup split: if_splits)
    then show "row_term (?c @ [p]) ?r k q" using w by (auto simp: row_term_def)
  qed
  from evict_ok [OF assms(1) this] show ?thesis by (simp add: addTerminalLocked_def)
qed

lemma expire_loop_ok:
  assumes "reg_ok X S P r" "term_ok (ps @ acc) r" "int (length ps + length acc) \<le> terminal_cap r"
  shows "reg_ok X S P (expire_loop now ps acc r) \<and> queue_ok (expire_loop now ps acc r) \<and> pruned r (expire_loop now ps acc r)"
  using assms
proof (induction now ps acc r rule: expire_loop.induct)
  case (1 now acc r)
  then show ?case using pruned_refl [of r acc]
    by (auto simp: queue_ok_def term_ok_def row_term_def [abs_def] terminal_cap_def split: if_splits)
next
  case (2 now p ps acc r)
  note t = reg_okD(1) [OF 2(4)]
  let ?due = "case ce_expiredAt (cr_heap r p) of None \<Rightarrow> False | Some t \<Rightarrow> \<not> t > now"
  consider (gone) "\<not> is_current r p \<or> ce_state (cr_heap r p) \<noteq> claimTerminal"
    | (due) "is_current r p" "ce_state (cr_heap r p) = claimTerminal" ?due
    | (stay) "is_current r p" "ce_state (cr_heap r p) = claimTerminal" "\<not> ?due" by blast
  then show ?case
  proof cases
    case gone
    then have "term_ok (ps @ acc) r" by (intro term_ok_skip [OF 2(5) t, of p]) auto
    then show ?thesis using 2(1) [OF gone 2(4)] 2(6) gone by simp
  next
    case due
    let ?r = "drop_entry p r"
    have r: "reg_ok X S P ?r" using reg_ok_drop [OF 2(4) due(1)] due(2) by simp
    have "term_ok ((p # ps) @ acc) ?r" by (rule term_ok_delete [OF 2(5)]) simp_all
    then have "term_ok (ps @ acc) ?r" by (rule term_ok_skip [OF _ reg_okD(1) [OF r], of _ p]) (auto simp: not_current_drop)
    moreover have "int (length ps + length acc) \<le> terminal_cap ?r" using 2(6) terminal_cap_cong [of ?r r] by simp
    ultimately have "reg_ok X S P (expire_loop now ps acc ?r) \<and> queue_ok (expire_loop now ps acc ?r) \<and>
        pruned ?r (expire_loop now ps acc ?r)" using 2(2) due r by simp
    then show ?thesis using due pruned_drop [OF _ due(1,2)] by simp
  next
    case stay
    have "term_ok (ps @ acc @ [p]) r"
      using 2(5) unfolding term_ok_def by (rule all_rows_mono) (auto simp: row_term_def)
    then show ?thesis using 2(3) 2(4,6) stay by simp
  qed
qed

lemma expireTerminals_ok:
  assumes "reg_ok X S P r" "queue_ok r"
  shows "reg_ok X S P (expireTerminalsLocked now r)" "queue_ok (expireTerminalsLocked now r)" "pruned r (expireTerminalsLocked now r)"
  using expire_loop_ok [OF assms(1), of "cr_terminalOrder r" "[]" now] assms(2)
  by (simp_all add: expireTerminalsLocked_def queue_ok_def)

subsection \<open>Permits\<close>

text \<open>
  A permit that is not released is held by an entry of the table or by a thread that is about to release
  it; and the number in use is the number not released.
\<close>

definition row_unowned :: "nat \<Rightarrow> claimRegistry \<Rightarrow> claimKey \<Rightarrow> nat \<Rightarrow> bool" where
  "row_unowned i r k p \<longleftrightarrow> ce_permit (cr_heap r p) \<noteq> Some i"

definition owned :: "claimRegistry \<Rightarrow> nat \<Rightarrow> bool" where
  "owned r i \<longleftrightarrow> \<not> all_rows (row_unowned i r) (cr_entries r)"

definition n_permits :: "sessionGeneration \<Rightarrow> udpPermit list \<Rightarrow> int" where
  "n_permits g ps = (\<Sum>p\<leftarrow>ps. if \<not> up_released p \<and> up_key p = g then 1 else 0)"

definition use_ok :: "claimRegistry \<Rightarrow> bool" where
  "use_ok r \<longleftrightarrow>
     (\<forall>g. get0 (cr_udpInUse r) g = (if cr_closed r then 0 else n_permits g (cr_permits r)) \<and>
        get0 (cr_udpInUse r) g \<le> lm_UDPFlowsPerSession (cr_limits r))"

lemma use_okD:
  "use_ok r \<Longrightarrow> get0 (cr_udpInUse r) g = (if cr_closed r then 0 else n_permits g (cr_permits r))"
  "use_ok r \<Longrightarrow> get0 (cr_udpInUse r) g \<le> lm_UDPFlowsPerSession (cr_limits r)"
  unfolding use_ok_def by blast+

lemma use_okI:
  "(\<And>g. get0 (cr_udpInUse r) g = (if cr_closed r then 0 else n_permits g (cr_permits r))) \<Longrightarrow>
   (\<And>g. get0 (cr_udpInUse r) g \<le> lm_UDPFlowsPerSession (cr_limits r)) \<Longrightarrow> use_ok r"
  unfolding use_ok_def by blast

lemma use_ok_cong:
  "cr_udpInUse r' = cr_udpInUse r \<Longrightarrow> cr_closed r' = cr_closed r \<Longrightarrow> cr_permits r' = cr_permits r \<Longrightarrow> cr_limits r' = cr_limits r \<Longrightarrow>
   use_ok r' = use_ok r"
  by (simp only: use_ok_def)

definition permit_ok :: "nat set \<Rightarrow> claimRegistry \<Rightarrow> bool" where
  "permit_ok H r \<longleftrightarrow>
     (\<forall>i < length (cr_permits r). up_released (cr_permits r ! i) \<or> owned r i \<or> i \<in> H) \<and>
     (\<forall>p < cr_fresh r. \<forall>i. ce_permit (cr_heap r p) = Some i \<longrightarrow> i < length (cr_permits r)) \<and> use_ok r"

lemma ownedI: "map_of (cr_entries r) k = Some p \<Longrightarrow> ce_permit (cr_heap r p) = Some i \<Longrightarrow> owned r i"
  unfolding owned_def by (auto dest: all_rowsD simp: row_unowned_def)

lemma ownedE:
  assumes "owned r i"
  obtains k p where "map_of (cr_entries r) k = Some p" "ce_permit (cr_heap r p) = Some i"
proof -
  have "\<not> all_rows (row_unowned i r) (cr_entries r) \<Longrightarrow> \<exists>k p. map_of (cr_entries r) k = Some p \<and> ce_permit (cr_heap r p) = Some i"
    by (rule ccontr) (auto intro!: all_rowsI simp: row_unowned_def)
  then show ?thesis using assms that unfolding owned_def by blast
qed

lemma permit_ok_step:
  assumes "permit_ok H r" "cr_permits r' = cr_permits r" "cr_udpInUse r' = cr_udpInUse r" "cr_closed r' = cr_closed r"
    "cr_limits r' = cr_limits r" "H \<subseteq> H'"
    and "\<And>p i. p < cr_fresh r' \<Longrightarrow> ce_permit (cr_heap r' p) = Some i \<Longrightarrow> p < cr_fresh r \<and> ce_permit (cr_heap r p) = Some i"
    and "\<And>k p i. map_of (cr_entries r) k = Some p \<Longrightarrow> ce_permit (cr_heap r p) = Some i \<Longrightarrow> owned r' i \<or> i \<in> H'"
  shows "permit_ok H' r'"
proof -
  have "owned r i \<Longrightarrow> owned r' i \<or> i \<in> H'" for i using assms(8) by (blast elim: ownedE)
  moreover have "use_ok r' = use_ok r" by (rule use_ok_cong [OF assms(3,4,2,5)])
  ultimately show ?thesis using assms(1,6,7) unfolding permit_ok_def assms(2) by blast
qed

lemma permit_ok_pruned:
  assumes "permit_ok H r" "pruned r r'"
    and "\<And>k p. map_of (cr_entries r) k = Some p \<Longrightarrow> ce_state (cr_heap r p) = claimTerminal \<Longrightarrow> set_option (ce_permit (cr_heap r p)) \<subseteq> H"
  shows "permit_ok H r'"
proof (rule permit_ok_step [OF assms(1)])
  fix k p i assume p: "map_of (cr_entries r) k = Some p" "ce_permit (cr_heap r p) = Some i"
  have "map_of (cr_entries r') k = Some p \<or> ce_state (cr_heap r p) = claimTerminal" by (rule prunedD(3) [OF assms(2) p(1)])
  moreover have "cr_heap r' = cr_heap r" using assms(2) by (simp add: pruned_def same_core_def)
  ultimately show "owned r' i \<or> i \<in> H"
    using assms(3) [OF p(1)] p(2) ownedI [of r' k p i] by auto
qed (use assms(2) in \<open>auto simp: pruned_def same_core_def\<close>)

lemma terminal_no_permit:
  assumes "reg_ok X S P r" "map_of (cr_entries r) k = Some p" "ce_state (cr_heap r p) = claimTerminal" "p \<notin> P"
  shows "ce_permit (cr_heap r p) = None"
proof -
  have "p < cr_fresh r" using is_current_table [OF reg_okD(1) [OF assms(1)] assms(2)] by simp
  then have "entry_shape (cr_heap r p)" using reg_okD(5) [OF assms(1)] assms(4) by (simp add: claim_entry_ok_def)
  then show ?thesis using assms(3) by (simp add: entry_shape_def)
qed

subsection \<open>Failing a pending entry\<close>

text \<open>What a step that changes one entry, \<open>p\<close>, and prunes the table may change.\<close>

definition same_but :: "nat \<Rightarrow> claimRegistry \<Rightarrow> claimRegistry \<Rightarrow> bool" where
  "same_but p r r' \<longleftrightarrow>
     (\<forall>q. q \<noteq> p \<longrightarrow> cr_heap r' q = cr_heap r q) \<and> cr_fresh r' = cr_fresh r \<and> cr_registered r' = cr_registered r \<and>
     cr_udpInUse r' = cr_udpInUse r \<and> cr_nextGeneration r' = cr_nextGeneration r \<and> cr_limits r' = cr_limits r \<and>
     cr_terminalLimit r' = cr_terminalLimit r \<and> cr_accepting r' = cr_accepting r \<and> cr_closed r' = cr_closed r \<and>
     cr_permits r' = cr_permits r \<and> cr_results r' = cr_results r \<and> cr_aborts r' = cr_aborts r \<and> cr_closing r' = cr_closing r \<and>
     all_rows (\<lambda>k q. map_of (cr_entries r) k = Some q) (cr_entries r') \<and> length (cr_entries r') \<le> length (cr_entries r)"

definition failed_entry :: "error \<Rightarrow> claimEntry \<Rightarrow> claimEntry" where
  "failed_entry cause e =
     (e\<lparr>ce_timer := False, ce_pendingTCP := False, ce_state := claimTerminal, ce_err := Some cause,
        ce_terminalConsumed := (ce_terminalConsumed e \<or> ce_selected e \<noteq> None)\<rparr>)"

lemma mark_failed_frame [simp]:
  "cr_entries (mark_failed p cause r) = cr_entries r" "cr_fresh (mark_failed p cause r) = cr_fresh r"
  "cr_heap (mark_failed p cause r) = (cr_heap r)(p := failed_entry cause (cr_heap r p))"
  "cr_terminalOrder (mark_failed p cause r) = cr_terminalOrder r" "cr_pairTimeout (mark_failed p cause r) = cr_pairTimeout r"
  "cr_permits (mark_failed p cause r) = cr_permits r" "cr_closed (mark_failed p cause r) = cr_closed r"
  "cr_udpInUse (mark_failed p cause r) = cr_udpInUse r" "cr_limits (mark_failed p cause r) = cr_limits r"
  "cr_generations (mark_failed p cause r) = cr_generations r" "cr_registered (mark_failed p cause r) = cr_registered r"
  "cr_nextGeneration (mark_failed p cause r) = cr_nextGeneration r" "cr_terminalLimit (mark_failed p cause r) = cr_terminalLimit r"
  "cr_accepting (mark_failed p cause r) = cr_accepting r" "cr_results (mark_failed p cause r) = cr_results r"
  "cr_aborts (mark_failed p cause r) = cr_aborts r" "cr_closing (mark_failed p cause r) = cr_closing r"
  by (simp_all add: mark_failed_def failed_entry_def)

lemma reg_ok_mark_failed:
  "reg_ok X S P r \<Longrightarrow> map_of (cr_entries r) k = Some p \<Longrightarrow> ce_state (cr_heap r p) = claimPending \<Longrightarrow>
   reg_ok X S (insert p P) (mark_failed p cause r)"
  unfolding mark_failed_def by (rule reg_ok_finish) simp_all

lemma pending_not_done: "reg_ok X S {} r \<Longrightarrow> p < cr_fresh r \<Longrightarrow> ce_state (cr_heap r p) = claimPending \<Longrightarrow> \<not> ce_done (cr_heap r p)"
  using reg_okD(5) [of X S "{}" r p] by (simp add: claim_entry_ok_def entry_shape_def pending_shape_def)

lemma reg_ok_close:
  assumes "reg_ok X S (insert p P) r" "p < cr_fresh r" "ce_state (cr_heap r p) = claimTerminal" "ce_err (cr_heap r p) \<noteq> None"
  shows "reg_ok X S P (set_entry p (\<lambda>e. e\<lparr>ce_permit := None\<rparr>) (set_entry p (\<lambda>e. e\<lparr>ce_done := True\<rparr>) r))"
proof -
  have "reg_ok X S (insert p P) (set_entry p (\<lambda>e. e\<lparr>ce_done := True\<rparr>) r)"
    by (rule reg_ok_set) (use assms in auto)
  then show ?thesis by (rule reg_ok_set) (use assms in \<open>auto simp: entry_shape_def\<close>)
qed

lemma permit_ok_drop_hold:
  assumes "permit_ok H r" "table_ok (cr_heap r) (cr_fresh r) (cr_entries r)"
    and r': "cr_permits r' = cr_permits r" "cr_udpInUse r' = cr_udpInUse r" "cr_closed r' = cr_closed r" "cr_limits r' = cr_limits r"
      "cr_fresh r' = cr_fresh r" "\<And>q. q \<noteq> p \<Longrightarrow> cr_heap r' q = cr_heap r q" "ce_permit (cr_heap r' p) = None"
    and "\<And>k q. map_of (cr_entries r) k = Some q \<Longrightarrow> q \<noteq> p \<Longrightarrow>
        map_of (cr_entries r') k = Some q \<or> ce_permit (cr_heap r q) = None"
  shows "permit_ok (H \<union> set_option (ce_permit (cr_heap r p))) r'"
proof (rule permit_ok_step [OF assms(1) r'(1-4)])
  fix q i assume "q < cr_fresh r'" "ce_permit (cr_heap r' q) = Some i"
  then show "q < cr_fresh r \<and> ce_permit (cr_heap r q) = Some i" using r'(5,6,7) by (cases "q = p") auto
next
  fix k q i assume q: "map_of (cr_entries r) k = Some q" "ce_permit (cr_heap r q) = Some i"
  show "owned r' i \<or> i \<in> H \<union> set_option (ce_permit (cr_heap r p))"
  proof (cases "q = p")
    case False
    then show ?thesis using assms(10) [OF q(1)] q(2) ownedI [of r' k q i] r'(6) by auto
  qed (use q in auto)
qed auto

definition closed_entry :: "nat \<Rightarrow> claimRegistry \<Rightarrow> claimRegistry" where
  "closed_entry p r = set_entry p (\<lambda>e. e\<lparr>ce_permit := None\<rparr>) (set_entry p (\<lambda>e. e\<lparr>ce_done := True\<rparr>) r)"

lemma queue_ok_closed: "queue_ok r \<Longrightarrow> queue_ok (closed_entry p r)"
proof -
  assume q: "queue_ok r"
  have "row_term ps (closed_entry p r) = row_term ps r" for ps by (simp add: fun_eq_iff row_term_def closed_entry_def)
  then show ?thesis using q terminal_cap_cong [of "closed_entry p r" r] by (simp add: queue_ok_def term_ok_def closed_entry_def)
qed

text \<open>The part of \<^verbatim>\<open>failPendingLocked\<close> after the entry has been filed or dropped.\<close>

lemma failPending_eq:
  assumes "\<not> ce_done (cr_heap r1 p)"
    "r1 = (if keep then addTerminalLocked p (forget_halves (now + cr_pairTimeout r) p (mark_failed p cause r)) else drop_entry p (mark_failed p cause r))"
  shows "failPendingLocked now p cause keep r =
     Ret ((entryClaims (cr_heap r p), ce_selected (cr_heap r p), ce_permit (cr_heap r1 p)), closed_entry p r1)"
proof -
  have "close_done p r1 = Ret (set_entry p (\<lambda>e. e\<lparr>ce_done := True\<rparr>) r1)" using assms(1) by (simp add: close_done_def)
  then show ?thesis
    unfolding failPendingLocked_def Let_def mark_failed_frame assms(2) [symmetric] by (simp add: closed_entry_def)
qed

lemma failed_finish:
  assumes "reg_ok X S {} r" "map_of (cr_entries r) k = Some p" "ce_state (cr_heap r p) = claimPending" "permit_ok H r"
    and "reg_ok X S {p} r1" "cr_heap r1 p = e" "same_but p r r1" "ce_state e = claimTerminal" "ce_err e \<noteq> None"
    and "\<And>k q. map_of (cr_entries r) k = Some q \<Longrightarrow> q \<noteq> p \<Longrightarrow> map_of (cr_entries r1) k = Some q \<or> ce_state (cr_heap r q) = claimTerminal"
  shows "reg_ok X S {} (closed_entry p r1) \<and> permit_ok (H \<union> set_option (ce_permit (cr_heap r p))) (closed_entry p r1) \<and>
    same_but p r (closed_entry p r1) \<and> cr_heap (closed_entry p r1) p = e\<lparr>ce_done := True, ce_permit := None\<rparr>"
proof (intro conjI)
  note d = reg_okD [OF assms(1)]
  have p: "p < cr_fresh r" using is_current_table [OF d(1) assms(2)] by simp
  have f: "cr_fresh r1 = cr_fresh r" using assms(7) by (simp add: same_but_def)
  show "reg_ok X S {} (closed_entry p r1)" unfolding closed_entry_def
    by (rule reg_ok_close [OF assms(5)]) (use p f assms(6,8,9) in simp_all)
  show "cr_heap (closed_entry p r1) p = e\<lparr>ce_done := True, ce_permit := None\<rparr>" by (simp add: closed_entry_def assms(6))
  show sb: "same_but p r (closed_entry p r1)" using assms(7) by (simp add: same_but_def closed_entry_def)
  show "permit_ok (H \<union> set_option (ce_permit (cr_heap r p))) (closed_entry p r1)"
  proof (rule permit_ok_drop_hold [OF assms(4) d(1)])
    fix k' q assume q: "map_of (cr_entries r) k' = Some q" "q \<noteq> p"
    then show "map_of (cr_entries (closed_entry p r1)) k' = Some q \<or> ce_permit (cr_heap r q) = None"
      using assms(10) [OF q] terminal_no_permit [OF assms(1) q(1)] by (auto simp: closed_entry_def)
  qed (use sb in \<open>simp_all add: same_but_def closed_entry_def\<close>)
qed

lemma failPending_keep:
  assumes "reg_ok X S {} r" "map_of (cr_entries r) k = Some p" "ce_state (cr_heap r p) = claimPending" "queue_ok r" "permit_ok H r"
  obtains r' where
    "failPendingLocked now p cause True r = Ret ((entryClaims (cr_heap r p), ce_selected (cr_heap r p), ce_permit (cr_heap r p)), r')"
    "reg_ok X S {} r'" "queue_ok r'" "permit_ok (H \<union> set_option (ce_permit (cr_heap r p))) r'" "same_but p r r'"
    "cr_heap r' p = (failed_entry cause (cr_heap r p))\<lparr>ce_open := None, ce_attach := None, ce_duplex := None, ce_selected := None,
        ce_expiredAt := Some (now + cr_pairTimeout r), ce_done := True, ce_permit := None\<rparr>"
proof -
  define r2 where "r2 = forget_halves (now + cr_pairTimeout r) p (mark_failed p cause r)"
  define r3 where "r3 = addTerminalLocked p r2"
  let ?e = "(failed_entry cause (cr_heap r p))\<lparr>ce_open := None, ce_attach := None, ce_duplex := None, ce_selected := None,
      ce_expiredAt := Some (now + cr_pairTimeout r)\<rparr>"
  note t = is_current_table [OF reg_okD(1) [OF assms(1)] assms(2)]
  have h2: "cr_heap r2 = (cr_heap r)(p := ?e)" "cr_entries r2 = cr_entries r" "cr_fresh r2 = cr_fresh r"
    "cr_terminalOrder r2 = cr_terminalOrder r" by (simp_all add: r2_def forget_halves_def)
  have 2: "reg_ok X S {p} r2" unfolding r2_def forget_halves_def
    by (rule reg_ok_set) (use reg_ok_mark_failed [OF assms(1-3)] t in simp_all)
  have same: "r2\<lparr>cr_entries := AList.update (ce_key (cr_heap r2 p)) p (cr_entries r2)\<rparr> = r2"
    using assms(2) t by (simp add: h2 failed_entry_def al_update_same)
  have "term_ok (cr_terminalOrder r2 @ [p]) r2"
    unfolding term_ok_def h2
  proof (rule all_rowsI)
    fix k' q assume "map_of (cr_entries r) k' = Some q"
    then have "row_term (cr_terminalOrder r) r k' q" using assms(4) unfolding queue_ok_def term_ok_def by (blast dest: all_rowsD)
    then show "row_term (cr_terminalOrder r @ [p]) r2 k' q" by (auto simp: row_term_def h2)
  qed
  then have 3: "reg_ok X S {p} r3" "queue_ok r3" "pruned r2 r3" using addTerminal_ok [of X S "{p}" r2 p] 2 unfolding same r3_def by simp_all
  have h3: "cr_heap r3 = cr_heap r2" using 3(3) by (simp add: pruned_def same_core_def)
  have "same_but p r r3"
    using prunedD(1,4) [OF 3(3)] prunedD(2) [OF 3(3)] unfolding same_but_def
    by (auto simp: same_core_def h2 intro!: all_rowsI) (simp_all add: r2_def forget_halves_def)
  then have f: "reg_ok X S {} (closed_entry p r3) \<and> permit_ok (H \<union> set_option (ce_permit (cr_heap r p))) (closed_entry p r3) \<and>
      same_but p r (closed_entry p r3) \<and> cr_heap (closed_entry p r3) p = ?e\<lparr>ce_done := True, ce_permit := None\<rparr>"
  proof (intro failed_finish [OF assms(1-3,5) 3(1)])
    fix k' q assume "map_of (cr_entries r) k' = Some q" "q \<noteq> p"
    then show "map_of (cr_entries r3) k' = Some q \<or> ce_state (cr_heap r q) = claimTerminal"
      using prunedD(3) [OF 3(3), of k' q] by (simp add: h2)
  qed (simp_all add: h3 h2 failed_entry_def)
  have "\<not> ce_done (cr_heap r3 p)" using pending_not_done [OF assms(1) _ assms(3)] t by (simp add: h3 h2 failed_entry_def)
  from failPending_eq [OF this, of True now r cause]
  have "failPendingLocked now p cause True r =
      Ret ((entryClaims (cr_heap r p), ce_selected (cr_heap r p), ce_permit (cr_heap r p)), closed_entry p r3)"
    by (simp add: r3_def [symmetric] r2_def [symmetric] h3 h2 failed_entry_def)
  then show thesis using that f queue_ok_closed [OF 3(2)] by simp
qed

lemma failPending_drop:
  assumes "reg_ok X S {} r" "map_of (cr_entries r) k = Some p" "ce_state (cr_heap r p) = claimPending" "permit_ok H r"
  obtains r' where
    "failPendingLocked now p cause False r = Ret ((entryClaims (cr_heap r p), ce_selected (cr_heap r p), ce_permit (cr_heap r p)), r')"
    "reg_ok X S {} r'" "permit_ok (H \<union> set_option (ce_permit (cr_heap r p))) r'" "same_but p r r'"
    "cr_heap r' p = (failed_entry cause (cr_heap r p))\<lparr>ce_done := True, ce_permit := None\<rparr>"
    "cr_entries r' = AList.delete k (cr_entries r)" "cr_terminalOrder r' = cr_terminalOrder r"
    "\<And>sid. get0 (cr_generations r') sid =
       (if sid = fst k \<and> \<not> hasGenerationStateLocked r' (sid, get0 (cr_generations r) sid) then 0 else get0 (cr_generations r) sid)"
proof -
  let ?m = "mark_failed p cause r"
  define r1 where "r1 = drop_entry p ?m"
  note t = is_current_table [OF reg_okD(1) [OF assms(1)] assms(2)]
  have m: "reg_ok X S {p} ?m" by (rule reg_ok_mark_failed [OF assms(1-3)])
  have h: "cr_heap r1 = (cr_heap r)(p := failed_entry cause (cr_heap r p))" "cr_entries r1 = AList.delete k (cr_entries r)"
    "cr_terminalOrder r1 = cr_terminalOrder r" using t by (simp_all add: r1_def failed_entry_def)
  have 1: "reg_ok X S {p} r1" unfolding r1_def
    by (rule reg_ok_drop [OF m]) (use t in \<open>auto simp: is_current_def failed_entry_def\<close>)
  have sb: "same_but p r r1"
    by (auto simp: same_but_def h al_lookup AList.length_delete_le intro!: all_rowsI split: if_splits) (simp_all add: r1_def)
  have f: "reg_ok X S {} (closed_entry p r1) \<and> permit_ok (H \<union> set_option (ce_permit (cr_heap r p))) (closed_entry p r1) \<and>
      same_but p r (closed_entry p r1) \<and> cr_heap (closed_entry p r1) p = (failed_entry cause (cr_heap r p))\<lparr>ce_done := True, ce_permit := None\<rparr>"
    by (intro failed_finish [OF assms(1-4) 1 _ sb]) (use assms(2) in \<open>auto simp: h failed_entry_def al_lookup\<close>)
  have "\<not> ce_done (cr_heap r1 p)" using pending_not_done [OF assms(1) _ assms(3)] t by (simp add: h failed_entry_def)
  from failPending_eq [OF this, of False now r cause]
  have eq: "failPendingLocked now p cause False r =
      Ret ((entryClaims (cr_heap r p), ce_selected (cr_heap r p), ce_permit (cr_heap r p)), closed_entry p r1)"
    by (simp add: r1_def [symmetric] h failed_entry_def)
  let ?d = "?m\<lparr>cr_entries := AList.delete k (cr_entries r)\<rparr>" and ?r' = "closed_entry p r1"
  have "hasGenerationStateLocked ?r' g' = hasGenerationStateLocked ?d g'" for g'
    by (rule hasGeneration_cong) (use t in \<open>simp_all add: closed_entry_def h failed_entry_def\<close>, simp_all add: r1_def)
  moreover have "cr_generations ?r' = cr_generations (maybeCleanupGenerationLocked (fst k) ?d)"
    using t by (simp add: closed_entry_def r1_def drop_entry_def failed_entry_def)
  ultimately have g: "get0 (cr_generations ?r') sid =
      (if sid = fst k \<and> \<not> hasGenerationStateLocked ?r' (sid, get0 (cr_generations r) sid) then 0 else get0 (cr_generations r) sid)" for sid
    by (cases "sid = fst k") (auto simp: get0_cleanup)
  show thesis by (rule that [OF eq]) (use f h g in \<open>simp_all add: closed_entry_def\<close>)
qed

end
