(* ===== verification/Claim_Inv.thy ===== *)
theory Claim_Inv
  imports Claim_Ops
begin

section \<open>nw2 server: the operations of the claim registry keep its invariant\<close>

text \<open>
  The whole invariant, and what an operation may do: it leaves the registry well-formed, hands every permit
  that leaves the table to an action that releases it, names only objects that exist in its actions, and
  makes at most one new setup result, for the connection of the claim it was called with.
\<close>

subsection \<open>The invariant and the effect of an operation\<close>

text \<open>A result kept for a flow belongs to the connection of the half that carries the downlink.\<close>

definition result_of :: "setupResult list \<Rightarrow> nat \<Rightarrow> flowClaim option \<Rightarrow> bool" where
  "result_of rs i c \<longleftrightarrow> i < length rs \<and> c \<noteq> None \<and> fc_Stream (the c) = Some (sr_writer (rs ! i))"

definition sel_entry :: "setupResult list \<Rightarrow> claimEntry \<Rightarrow> bool" where
  "sel_entry rs e \<longleftrightarrow>
     (case ce_selected e of None \<Rightarrow> True | Some i \<Rightarrow> result_of rs i (ce_attach e) \<or> result_of rs i (ce_duplex e)) \<and>
     (case ce_active e of None \<Rightarrow> True
      | Some f \<Rightarrow> (case cf_Result f of None \<Rightarrow> True | Some i \<Rightarrow> result_of rs i (cf_Selected f)))"

definition sel_ok :: "claimRegistry \<Rightarrow> bool" where
  "sel_ok r \<longleftrightarrow> (\<forall>p < cr_fresh r. sel_entry (cr_results r) (cr_heap r p))"

definition limits_ok :: "claimRegistry \<Rightarrow> bool" where
  "limits_ok r \<longleftrightarrow>
     lm_PendingFlowsPerSession (cr_limits r) > 0 \<and> lm_UDPFlowsPerSession (cr_limits r) > 0 \<and>
     lm_AuthenticatedTCPIdleConnections (cr_limits r) > 0 \<and> \<not> (cr_accepting r \<and> cr_closed r)"

definition Inv :: "nat set \<Rightarrow> claimRegistry \<Rightarrow> bool" where
  "Inv H r \<longleftrightarrow> reg_ok {} {} {} r \<and> queue_ok r \<and> permit_ok H r \<and> sel_ok r \<and> limits_ok r"

definition held_by :: "claim_action list \<Rightarrow> nat set" where
  "held_by acts = {i. ReleasePermit i \<in> set acts}"

definition act_ok :: "claimRegistry \<Rightarrow> claim_action \<Rightarrow> bool" where
  "act_ok r a =
     (case a of
        CommitSetup i code \<Rightarrow> i < length (cr_results r)
      | ReleasePermit i \<Rightarrow> i < length (cr_permits r)
      | RejectReadiness p cause \<Rightarrow> p < cr_fresh r
      | FinishReject i c cause \<Rightarrow> i < length (cr_results r)
      | _ \<Rightarrow> True)"

definition new_result :: "nat \<Rightarrow> setupResult" where
  "new_result s = \<lparr>sr_writer = s, sr_committed = False\<rparr>"

definition op_ok :: "nat set \<Rightarrow> claimRegistry \<Rightarrow> nat list \<Rightarrow> claim_action list \<times> claimRegistry \<Rightarrow> bool" where
  "op_ok H r ss x =
     (case x of (acts, r') \<Rightarrow>
        Inv (H \<union> held_by acts) r' \<and> list_all (act_ok r') acts \<and> cr_results r' = cr_results r @ map new_result ss \<and>
        cr_fresh r \<le> cr_fresh r' \<and> length (cr_permits r) \<le> length (cr_permits r') \<and> length (cr_aborts r) \<le> length (cr_aborts r'))"

lemma held_by_simps [simp]:
  "held_by [] = {}" "held_by (a # acts) = (case a of ReleasePermit i \<Rightarrow> {i} | _ \<Rightarrow> {}) \<union> held_by acts"
  "held_by (acts @ acts') = held_by acts \<union> held_by acts'"
  by (auto simp: held_by_def split: claim_action.split)

lemma held_by_parts [simp]:
  "held_by (claim_close c e) = {}" "held_by (close_all cs e) = {}" "held_by (reject_setup s code) = {}"
  "held_by (closeClaimedFlow f e) = {}" "held_by (release_permit q) = set_option q"
proof -
  show c: "held_by (claim_close c e) = {}" for c by (simp add: claim_close_def)
  show a: "held_by (close_all cs e) = {}" for cs by (induction cs) (auto simp: close_all_def c)
  show "held_by (reject_setup s code) = {}" by (cases s) (simp_all add: reject_setup_def)
  show "held_by (closeClaimedFlow f e) = {}" by (cases f) (simp_all add: closeClaimedFlow_def a)
  show "held_by (release_permit q) = set_option q" by (cases q) (simp_all add: release_permit_def)
qed

lemma act_ok_parts [simp]:
  "list_all (act_ok r) (claim_close c e)" "list_all (act_ok r) (close_all cs e)" "list_all (act_ok r) (closeClaimedFlow f e)"
  "list_all (act_ok r) (reject_setup s code) \<longleftrightarrow> set_option s \<subseteq> {..<length (cr_results r)}"
  "list_all (act_ok r) (release_permit q) \<longleftrightarrow> set_option q \<subseteq> {..<length (cr_permits r)}"
proof -
  show c: "list_all (act_ok r) (claim_close c e)" for c by (simp add: claim_close_def act_ok_def)
  show a: "list_all (act_ok r) (close_all cs e)" for cs by (induction cs) (auto simp: close_all_def c)
  show "list_all (act_ok r) (closeClaimedFlow f e)" by (cases f) (simp_all add: closeClaimedFlow_def a)
  show "list_all (act_ok r) (reject_setup s code) \<longleftrightarrow> set_option s \<subseteq> {..<length (cr_results r)}"
    by (cases s) (simp_all add: reject_setup_def act_ok_def)
  show "list_all (act_ok r) (release_permit q) \<longleftrightarrow> set_option q \<subseteq> {..<length (cr_permits r)}"
    by (cases q) (simp_all add: release_permit_def act_ok_def)
qed

lemma result_of_append: "result_of rs i c \<Longrightarrow> result_of (rs @ ts) i c"
  by (simp add: result_of_def nth_append)

lemma sel_entry_append: "sel_entry rs e \<Longrightarrow> sel_entry (rs @ ts) e"
  by (auto simp: sel_entry_def result_of_append split: option.splits)

lemma permit_ok_mono: "permit_ok H r \<Longrightarrow> H \<subseteq> H' \<Longrightarrow> permit_ok H' r"
  unfolding permit_ok_def by blast

lemma Inv_mono: "Inv H r \<Longrightarrow> H \<subseteq> H' \<Longrightarrow> Inv H' r"
  using permit_ok_mono by (auto simp: Inv_def)

lemma permit_index: "permit_ok H r \<Longrightarrow> p < cr_fresh r \<Longrightarrow> ce_permit (cr_heap r p) = Some i \<Longrightarrow> i < length (cr_permits r)"
  unfolding permit_ok_def by blast

lemma selected_index: "sel_ok r \<Longrightarrow> p < cr_fresh r \<Longrightarrow> ce_selected (cr_heap r p) = Some i \<Longrightarrow> i < length (cr_results r)"
  by (fastforce simp: sel_ok_def sel_entry_def result_of_def)

lemma Inv_table: "Inv H r \<Longrightarrow> map_of (cr_entries r) k = Some p \<Longrightarrow> p < cr_fresh r \<and> ce_key (cr_heap r p) = k \<and> is_current r p"
  using is_current_table [OF reg_okD(1), of "{}" "{}" "{}" r k p] by (simp add: Inv_def)

lemma op_ok_refl: "Inv H r \<Longrightarrow> op_ok H r [] ([], r)"
  by (simp add: op_ok_def)

subsection \<open>Setup results\<close>

definition claim_streams :: "flowClaim \<Rightarrow> nat list" where
  "claim_streams c = (if claim_selected c then opt_list (fc_Stream c) else [])"

lemma setupResultForClaim_eq:
  "setupResultForClaim c r =
     (if claim_streams c = [] then None else Some (length (cr_results r)),
      r\<lparr>cr_results := cr_results r @ map new_result (claim_streams c)\<rparr>)"
  by (auto simp: setupResultForClaim_def claim_streams_def opt_list_def new_result_def split: option.splits)

lemma claim_streams_le: "claim_streams c = [] \<or> (\<exists>s. claim_streams c = [s] \<and> fc_Stream c = Some s \<and> claim_selected c)"
  by (auto simp: claim_streams_def opt_list_def split: option.splits)

lemma queue_ok_results [simp]: "queue_ok (r\<lparr>cr_results := v\<rparr>) = queue_ok r"
  by (simp add: queue_ok_def term_ok_def row_term_def [abs_def] terminal_cap_def)

lemma permit_ok_results [simp]: "permit_ok H (r\<lparr>cr_results := v\<rparr>) = permit_ok H r"
  using use_ok_cong [of "r\<lparr>cr_results := v\<rparr>" r] by (simp add: permit_ok_def owned_def row_unowned_def [abs_def])

lemma Inv_results:
  assumes "Inv H r"
  shows "Inv H (r\<lparr>cr_results := cr_results r @ ts\<rparr>)"
  using assms by (auto simp: Inv_def sel_ok_def limits_ok_def sel_entry_append)

lemma refuse_claim_ok:
  assumes "Inv (H \<union> held_by acts) r" "list_all (act_ok r) acts"
  shows "case refuse_claim c code err acts r of (res, x) \<Rightarrow> op_ok H r (claim_streams c) x"
proof -
  have "list_all (act_ok (r\<lparr>cr_results := cr_results r @ ts\<rparr>)) acts" for ts
    using assms(2) by (rule list.pred_mono_strong) (auto simp: act_ok_def split: claim_action.splits)
  then show ?thesis
    using Inv_results [OF assms(1)] claim_streams_le [of c]
    by (auto simp: refuse_claim_def setupResultForClaim_eq op_ok_def)
qed

subsection \<open>Failing an entry\<close>

lemma sel_ok_same_but:
  assumes "sel_ok r" "same_but p r r'" "sel_entry (cr_results r) (cr_heap r' p)"
  shows "sel_ok r'"
  using assms unfolding sel_ok_def same_but_def by metis

lemma failPending_Inv:
  assumes "Inv H r" "map_of (cr_entries r) k = Some p" "ce_state (cr_heap r p) = claimPending"
  obtains r' where
    "failPendingLocked now p cause True r = Ret ((entryClaims (cr_heap r p), ce_selected (cr_heap r p), ce_permit (cr_heap r p)), r')"
    "Inv (H \<union> set_option (ce_permit (cr_heap r p))) r'" "same_but p r r'" "ce_state (cr_heap r' p) = claimTerminal"
proof -
  have i: "reg_ok {} {} {} r" "queue_ok r" "permit_ok H r" "sel_ok r" "limits_ok r" using assms(1) by (simp_all add: Inv_def)
  obtain r' where r': "failPendingLocked now p cause True r = Ret ((entryClaims (cr_heap r p), ce_selected (cr_heap r p), ce_permit (cr_heap r p)), r')"
    "reg_ok {} {} {} r'" "queue_ok r'" "permit_ok (H \<union> set_option (ce_permit (cr_heap r p))) r'" "same_but p r r'"
    "cr_heap r' p = (failed_entry cause (cr_heap r p))\<lparr>ce_open := None, ce_attach := None, ce_duplex := None, ce_selected := None,
        ce_expiredAt := Some (now + cr_pairTimeout r), ce_done := True, ce_permit := None\<rparr>"
    using failPending_keep [OF i(1) assms(2,3) i(2,3)] by metis
  have p: "p < cr_fresh r" using Inv_table [OF assms(1,2)] by simp
  have "entry_shape (cr_heap r p)" using reg_okD(5) [OF i(1) p] by (simp add: claim_entry_ok_def)
  then have "ce_active (cr_heap r p) = None" using assms(3) by (simp add: entry_shape_def pending_shape_def)
  then have "sel_entry (cr_results r) (cr_heap r' p)" by (simp add: r'(6) sel_entry_def failed_entry_def)
  then have "sel_ok r'" by (rule sel_ok_same_but [OF i(4) r'(5)])
  moreover have "limits_ok r'" using i(5) r'(5) by (simp add: limits_ok_def same_but_def)
  ultimately show thesis using that [OF r'(1) _ r'(5)] r'(2,3,4,6) by (simp add: Inv_def failed_entry_def)
qed

text \<open>Every action that failing an entry leads to refers to something that exists.\<close>

lemma entry_refs:
  assumes "Inv H r" "p < cr_fresh r"
  shows "set_option (ce_selected (cr_heap r p)) \<subseteq> {..<length (cr_results r)}"
    "set_option (ce_permit (cr_heap r p)) \<subseteq> {..<length (cr_permits r)}"
  using selected_index [of r p] permit_index [of H r p] assms by (auto simp: Inv_def split: option.splits)

lemma fail_entry_ok:
  assumes "Inv H r" "map_of (cr_entries r) k = Some p" "ce_state (cr_heap r p) = claimPending"
  shows "yields G (op_ok H r []) (fail_entry now p code cause r)"
proof -
  obtain r' where r': "failPendingLocked now p cause True r = Ret ((entryClaims (cr_heap r p), ce_selected (cr_heap r p), ce_permit (cr_heap r p)), r')"
    "Inv (H \<union> set_option (ce_permit (cr_heap r p))) r'" "same_but p r r'"
    using failPending_Inv [OF assms] by metis
  have p: "p < cr_fresh r" using Inv_table [OF assms(1,2)] by simp
  have s: "cr_results r' = cr_results r" "cr_permits r' = cr_permits r" "cr_fresh r' = cr_fresh r" "cr_aborts r' = cr_aborts r"
    using r'(3) by (simp_all add: same_but_def)
  show ?thesis using r'(1,2) s entry_refs [OF assms(1) p] by (simp add: fail_entry_def op_ok_def)
qed

lemma wait_cancelled_ok:
  assumes "Inv H r"
  shows "yields G (\<lambda>(res, x). op_ok H r [] x) (wait_cancelled now p cause ctxErr r)"
proof (cases "is_current r p \<and> ce_state (cr_heap r p) = claimPending")
  case True
  then have "map_of (cr_entries r) (ce_key (cr_heap r p)) = Some p" "ce_state (cr_heap r p) = claimPending" by (simp_all add: is_current_def)
  from fail_entry_ok [OF assms this, of G now "setupFailureCode cause" cause] show ?thesis
    using True by (auto simp: wait_cancelled_def elim!: yields_mono)
next
  case False
  then show ?thesis using op_ok_refl [OF assms] by (auto simp: wait_cancelled_def)
qed

lemma registry_timeout_ok:
  assumes "Inv H r"
  shows "yields G (op_ok H r []) (registry_timeout now p r)"
proof (cases "is_current r p \<and> ce_state (cr_heap r p) = claimPending")
  case True
  then have "map_of (cr_entries r) (ce_key (cr_heap r p)) = Some p" "ce_state (cr_heap r p) = claimPending" by (simp_all add: is_current_def)
  from fail_entry_ok [OF assms this] show ?thesis using True by (simp add: registry_timeout_def)
next
  case False
  then show ?thesis using op_ok_refl [OF assms] by (auto simp: registry_timeout_def)
qed

end
