(* ===== verification/Claim_Submit.thy ===== *)
theory Claim_Submit
  imports Claim_Inv
begin

section \<open>nw2 server: submitting claims keeps the invariant\<close>

text \<open>\<^verbatim>\<open>Submit\<close> and \<^verbatim>\<open>submitExistingLocked\<close> of \<^verbatim>\<open>claim_registry.go\<close>, on every branch.\<close>

subsection \<open>Changing one entry\<close>

lemma permit_ok_heap:
  assumes "permit_ok H r" "cr_permits r' = cr_permits r" "cr_udpInUse r' = cr_udpInUse r" "cr_closed r' = cr_closed r"
    "cr_limits r' = cr_limits r" "cr_fresh r' = cr_fresh r" "cr_entries r' = cr_entries r"
    "\<And>q. ce_permit (cr_heap r' q) = ce_permit (cr_heap r q)"
  shows "permit_ok H r'"
proof (rule permit_ok_step [OF assms(1-5)])
  fix k p i assume "map_of (cr_entries r) k = Some p" "ce_permit (cr_heap r p) = Some i"
  then show "owned r' i \<or> i \<in> H" using ownedI [of r' k p i] by (simp add: assms(7,8))
qed (simp_all add: assms(6,8))

lemma queue_ok_heap:
  assumes "queue_ok r" "cr_entries r' = cr_entries r" "cr_terminalOrder r' = cr_terminalOrder r" "cr_terminalLimit r' = cr_terminalLimit r"
    "\<And>q. ce_state (cr_heap r' q) = claimTerminal \<Longrightarrow> ce_state (cr_heap r q) = claimTerminal"
  shows "queue_ok r'"
proof -
  have "all_rows (row_term (cr_terminalOrder r) r) (cr_entries r)" using assms(1) by (simp add: queue_ok_def term_ok_def)
  then have "all_rows (row_term (cr_terminalOrder r) r') (cr_entries r)"
    by (rule all_rows_mono) (use assms(5) in \<open>auto simp: row_term_def\<close>)
  then show ?thesis using assms(1) terminal_cap_cong [OF assms(4)] by (simp add: queue_ok_def term_ok_def assms(2,3))
qed

lemma Inv_set:
  assumes "Inv H r" "p < cr_fresh r"
    "ce_key (f (cr_heap r p)) = ce_key (cr_heap r p)" "ce_generation (f (cr_heap r p)) = ce_generation (cr_heap r p)"
    "ce_state (f (cr_heap r p)) = ce_state (cr_heap r p)" "ce_pendingTCP (f (cr_heap r p)) = ce_pendingTCP (cr_heap r p)"
    "ce_permit (f (cr_heap r p)) = ce_permit (cr_heap r p)"
    "entry_shape (cr_heap r p) \<Longrightarrow> entry_shape (f (cr_heap r p))"
    "sel_entry (cr_results r) (cr_heap r p) \<Longrightarrow> sel_entry (cr_results r) (f (cr_heap r p))"
  shows "Inv H (set_entry p f r)"
proof -
  have i: "reg_ok {} {} {} r" "queue_ok r" "permit_ok H r" "sel_ok r" "limits_ok r" using assms(1) by (simp_all add: Inv_def)
  have e: "claim_entry_ok r p" using reg_okD(5) [OF i(1) assms(2)] by simp
  have "reg_ok {} {} {} (set_entry p f r)"
    by (rule reg_ok_set) (use e assms(2-6,8) reg_ok_mono [OF i(1), of "{}" "{}" "{p}"] in \<open>auto simp: claim_entry_ok_def\<close>)
  moreover have "queue_ok (set_entry p f r)" by (rule queue_ok_heap [OF i(2)]) (auto simp: assms(5) split: if_splits)
  moreover have "permit_ok H (set_entry p f r)" by (rule permit_ok_heap [OF i(3)]) (auto simp: assms(7))
  moreover have "sel_ok (set_entry p f r)" using i(4) assms(9) by (auto simp: sel_ok_def)
  ultimately show ?thesis using i(5) by (simp add: Inv_def limits_ok_def)
qed

lemma Inv_consumed: "Inv H r \<Longrightarrow> p < cr_fresh r \<Longrightarrow> Inv H (set_entry p (\<lambda>e. e\<lparr>ce_terminalConsumed := b\<rparr>) r)"
  by (rule Inv_set) (simp_all add: entry_shape_def pending_shape_def flow_shape_def half_ok_def sel_entry_def
      cong: option.case_cong claimEntryState.case_cong)

subsection \<open>Claims that meet an entry\<close>

lemma submit_conflict_ok:
  assumes "Inv H r" "map_of (cr_entries r) k = Some p" "ce_state (cr_heap r p) = claimPending"
  shows "yields G (\<lambda>(res, x). op_ok H r (claim_streams c) x) (submit_conflict now p c cause r)"
proof -
  let ?err = "Wrapped '': conflicting flow claim'' cause"
  obtain r' where r': "failPendingLocked now p ?err True r = Ret ((entryClaims (cr_heap r p), ce_selected (cr_heap r p), ce_permit (cr_heap r p)), r')"
    "Inv (H \<union> set_option (ce_permit (cr_heap r p))) r'" "same_but p r r'"
    using failPending_Inv [OF assms] by metis
  have p: "p < cr_fresh r" using Inv_table [OF assms(1,2)] by simp
  have s: "cr_results r' = cr_results r" "cr_permits r' = cr_permits r" "cr_fresh r' = cr_fresh r" "cr_aborts r' = cr_aborts r"
    using r'(3) by (simp_all add: same_but_def)
  let ?r = "r'\<lparr>cr_results := cr_results r' @ map new_result (claim_streams c)\<rparr>"
  have 1: "Inv (H \<union> set_option (ce_permit (cr_heap r p))) ?r" by (rule Inv_results [OF r'(2)])
  have "Inv (H \<union> set_option (ce_permit (cr_heap r p))) (set_entry p (\<lambda>e. e\<lparr>ce_terminalConsumed := True\<rparr>) ?r)"
    by (rule Inv_consumed [OF 1]) (simp add: s p)
  then show ?thesis using 1 r'(1) s entry_refs [OF assms(1) p] claim_streams_le [of c]
    by (auto simp: submit_conflict_def setupResultForClaim_eq op_ok_def Let_def)
qed

lemma entry_pending:
  assumes "Inv H r" "p < cr_fresh r" "ce_state (cr_heap r p) = claimPending"
  shows "pending_shape (cr_heap r p)"
  using reg_okD(5) [of "{}" "{}" "{}" r p] assms by (simp add: Inv_def claim_entry_ok_def entry_shape_def)

text \<open>The entry that a pair of halves becomes.\<close>

definition paired_entry :: "flowClaim \<Rightarrow> nat option \<Rightarrow> claimEntry \<Rightarrow> claimEntry" where
  "paired_entry c result e =
     (let e = (case result of None \<Rightarrow> add_half c e | Some i \<Rightarrow> (add_half c e)\<lparr>ce_selected := Some i\<rparr>)
      in e\<lparr>ce_timer := False, ce_pendingTCP := False, ce_state := claimActive,
           ce_active := Some \<lparr>cf_Metadata = ce_metadata e, cf_Target = ce_target e, cf_Open = ce_open e, cf_Attach = ce_attach e,
             cf_Duplex = ce_duplex e, cf_Selected = selectedClaim e, cf_Result = ce_selected e, cf_Resolved = False, cf_Released = False\<rparr>,
           ce_done := True\<rparr>)"

lemma validate_open: "validateClaim c = None \<Longrightarrow> fc_Role c = FlowRoleOpen \<Longrightarrow> \<not> claim_selected c"
  by (auto simp: validateClaim_def claim_selected_def Let_def split: if_splits)

lemma validate_attach: "validateClaim c = None \<Longrightarrow> fc_Role c = FlowRoleAttach \<Longrightarrow> claim_selected c"
  by (auto simp: validateClaim_def claim_selected_def Let_def flow_consts split: if_splits)

lemma validate_duplex: "validateClaim c = None \<Longrightarrow> fc_Role c = FlowRoleDuplex \<Longrightarrow> claim_selected c"
  by (auto simp: validateClaim_def claim_selected_def Let_def flow_consts split: if_splits)

lemma validate_role: "validateClaim c = None \<Longrightarrow> fc_Role c = FlowRoleOpen \<or> fc_Role c = FlowRoleAttach \<or> fc_Role c = FlowRoleDuplex"
  by (auto simp: validateClaim_def Let_def split: if_splits)

lemma roles_distinct [simp]:
  "FlowRoleOpen \<noteq> FlowRoleAttach" "FlowRoleAttach \<noteq> FlowRoleOpen" "FlowRoleOpen \<noteq> FlowRoleDuplex"
  "FlowRoleDuplex \<noteq> FlowRoleOpen" "FlowRoleAttach \<noteq> FlowRoleDuplex" "FlowRoleDuplex \<noteq> FlowRoleAttach"
  by (simp_all add: flow_consts)

text \<open>The claim completes the pending entry.\<close>

definition completes :: "flowClaim \<Rightarrow> claimEntry \<Rightarrow> bool" where
  "completes c e \<longleftrightarrow>
     validateClaim c = None \<and> (fc_SessionID c, fc_FlowID c) = ce_key e \<and> fc_Generation c = ce_generation e \<and> fc_Metadata c = ce_metadata e \<and>
     \<not> (ce_open e \<noteq> None \<and> fc_Role c = FlowRoleOpen) \<and> \<not> (ce_attach e \<noteq> None \<and> fc_Role c = FlowRoleAttach) \<and> fc_Role c \<noteq> FlowRoleDuplex"

lemma paired_cases:
  assumes "pending_shape e" "completes c e"
  obtains (first_open) u where "ce_open e = Some u" "ce_attach e = None" "fc_Role c = FlowRoleAttach" "half_ok e FlowRoleOpen u"
      "ce_target e = Some (fc_Target u)" "half_ok e FlowRoleAttach c"
  | (first_attach) d where "ce_open e = None" "ce_attach e = Some d" "fc_Role c = FlowRoleOpen" "half_ok e FlowRoleAttach d"
      "half_ok e FlowRoleOpen c"
  using assms validate_role [of c] by (auto simp: pending_shape_def completes_def half_ok_def split: option.splits)

lemma paired_shape:
  assumes "pending_shape e" "completes c e"
  shows "entry_shape (paired_entry c result e)"
proof -
  have "ce_duplex e = None" using assms(1) by (simp add: pending_shape_def)
  with assms show ?thesis
  proof (cases rule: paired_cases)
    case (first_open u)
    then have "\<not> claim_selected u" "claim_selected c" using validate_open [of u] validate_attach [of c] by (auto simp: half_ok_def)
    then show ?thesis using first_open \<open>ce_duplex e = None\<close>
      by (cases result) (auto simp: paired_entry_def add_half_def entry_shape_def flow_shape_def half_ok_def selectedClaim_def entryClaims_def opt_list_def)
  next
    case (first_attach d)
    then have "\<not> claim_selected c" "claim_selected d" using validate_open [of c] validate_attach [of d] by (auto simp: half_ok_def)
    then show ?thesis using first_attach \<open>ce_duplex e = None\<close>
      by (cases result) (auto simp: paired_entry_def add_half_def entry_shape_def flow_shape_def half_ok_def selectedClaim_def entryClaims_def opt_list_def)
  qed
qed

lemma paired_sel:
  assumes "pending_shape e" "completes c e" "sel_entry rs e"
  shows "sel_entry (rs @ map new_result (claim_streams c)) (paired_entry c (if claim_streams c = [] then None else Some (length rs)) e)"
  using assms(1,2)
proof (cases rule: paired_cases)
  case (first_open u)
  have "ce_selected e = None" using assms(1,3) first_open by (auto simp: sel_entry_def pending_shape_def result_of_def split: option.splits)
  moreover have "ce_duplex e = None" using assms(1) by (simp add: pending_shape_def)
  moreover have "\<not> claim_selected u" "claim_selected c" using first_open validate_open [of u] validate_attach [of c] by (auto simp: half_ok_def)
  ultimately show ?thesis using first_open claim_streams_le [of c]
    by (auto simp: paired_entry_def add_half_def sel_entry_def result_of_def selectedClaim_def entryClaims_def opt_list_def new_result_def)
next
  case (first_attach d)
  have "\<not> claim_selected c" "claim_selected d" using first_attach validate_open [of c] validate_attach [of d] by (auto simp: half_ok_def)
  moreover have "ce_duplex e = None" "ce_active e = None" using assms(1) by (simp_all add: pending_shape_def)
  moreover have "sel_entry (rs @ map new_result (claim_streams c)) e" by (rule sel_entry_append [OF assms(3)])
  ultimately show ?thesis using first_attach claim_streams_le [of c]
    by (auto simp: paired_entry_def add_half_def sel_entry_def result_of_def selectedClaim_def entryClaims_def opt_list_def split: option.splits)
qed

lemma submit_pair_ok:
  assumes "Inv H r" "map_of (cr_entries r) k = Some p" "ce_state (cr_heap r p) = claimPending" "completes c (cr_heap r p)"
  shows "yields G (\<lambda>(res, x). op_ok H r (claim_streams c) x) (submit_pair p c r)"
proof -
  let ?ss = "claim_streams c" and ?e = "cr_heap r p"
  let ?res = "if ?ss = [] then None else Some (length (cr_results r))"
  let ?half = "\<lambda>e. case ?res of None \<Rightarrow> add_half c e | Some i \<Rightarrow> (add_half c e)\<lparr>ce_selected := Some i\<rparr>"
  define r0 where "r0 = r\<lparr>cr_results := cr_results r @ map new_result ?ss\<rparr>"
  define r1 where "r1 = set_entry p ?half r0"
  define r2 where "r2 = set_entry p (\<lambda>e. e\<lparr>ce_state := claimActive\<rparr>) (finishPendingLocked p r1)"
  define r3 where "r3 = activateLocked p r2"
  define r4 where "r4 = set_entry p (\<lambda>e. e\<lparr>ce_done := True\<rparr>) r3"
  have i: "reg_ok {} {} {} r" "queue_ok r" "permit_ok H r" "sel_ok r" "limits_ok r" using assms(1) by (simp_all add: Inv_def)
  have p: "p < cr_fresh r" using Inv_table [OF assms(1,2)] by simp
  have sh: "pending_shape ?e" by (rule entry_pending [OF assms(1) p assms(3)])
  have half: "ce_key (?half e) = ce_key e" "ce_generation (?half e) = ce_generation e" "ce_state (?half e) = ce_state e"
    "ce_pendingTCP (?half e) = ce_pendingTCP e" "ce_permit (?half e) = ce_permit e" "ce_done (?half e) = ce_done e" for e
    by (simp_all add: add_half_def)
  have 1: "reg_ok {} {} {p} r1" unfolding r1_def
    by (rule reg_ok_set) (use reg_ok_mono [OF i(1), of "{}" "{}" "{p}"] p half in \<open>simp_all add: r0_def\<close>)
  have h1: "cr_heap r1 p = ?half ?e" "cr_entries r1 = cr_entries r" "cr_fresh r1 = cr_fresh r" by (simp_all add: r1_def r0_def)
  have 2: "reg_ok {} {} {p} r2" unfolding r2_def
    using reg_ok_finish [OF 1, of k p "\<lambda>e. e\<lparr>ce_state := claimActive\<rparr>"] assms(2,3) half by (simp add: h1)
  have h3: "cr_heap r3 p = (paired_entry c ?res ?e)\<lparr>ce_done := False\<rparr>"
    using sh by (cases ?res) (simp_all add: r3_def activateLocked_def r2_def h1 paired_entry_def Let_def pending_shape_def add_half_def
        selectedClaim_def entryClaims_def)
  have 3: "reg_ok {} {} {p} r3" unfolding r3_def activateLocked_def
    by (rule reg_ok_set) (use 2 p in \<open>simp_all add: r2_def h1\<close>)
  have h4: "cr_heap r4 = (cr_heap r)(p := paired_entry c ?res ?e)"
    using h3 by (simp add: r4_def r3_def activateLocked_def r2_def r1_def r0_def paired_entry_def Let_def fun_eq_iff)
  have 4: "reg_ok {} {} {} r4" unfolding r4_def
    by (rule reg_ok_set [OF 3])
      (use p h3 paired_shape [OF sh assms(4), of ?res] in \<open>auto simp: r3_def activateLocked_def r2_def h1 paired_entry_def Let_def\<close>)
  have f4: "cr_entries r4 = cr_entries r" "cr_fresh r4 = cr_fresh r" "cr_terminalOrder r4 = cr_terminalOrder r" "cr_terminalLimit r4 = cr_terminalLimit r"
    "cr_permits r4 = cr_permits r" "cr_udpInUse r4 = cr_udpInUse r" "cr_closed r4 = cr_closed r" "cr_limits r4 = cr_limits r"
    "cr_results r4 = cr_results r @ map new_result ?ss" "cr_aborts r4 = cr_aborts r" "cr_accepting r4 = cr_accepting r"
    by (simp_all add: r4_def r3_def activateLocked_def r2_def r1_def r0_def)
  have pe: "ce_state (paired_entry c ?res ?e) = claimActive" "ce_permit (paired_entry c ?res ?e) = ce_permit ?e"
    by (simp_all add: paired_entry_def Let_def add_half_def)
  have "queue_ok r4" by (rule queue_ok_heap [OF i(2)]) (auto simp: f4 h4 pe split: if_splits)
  moreover have "permit_ok H r4" by (rule permit_ok_heap [OF i(3)]) (auto simp: f4 h4 pe)
  moreover have "sel_ok r4"
    using i(4) paired_sel [OF sh assms(4), of "cr_results r"] p by (auto simp: sel_ok_def f4 h4 sel_entry_append)
  ultimately have inv: "Inv H r4" using 4 i(5) by (simp add: Inv_def limits_ok_def f4)
  have "submit_pair p c r = Ret (Activated p, [], r4)"
    unfolding submit_pair_def setupResultForClaim_eq Let_def prod.case r0_def [symmetric] r1_def [symmetric] r2_def [symmetric] r3_def [symmetric]
    by (simp add: close_done_def h3 r4_def)
  then show ?thesis using inv by (simp add: op_ok_def f4)
qed

lemma submitExisting_ok:
  assumes "Inv H r" "map_of (cr_entries r) (fc_SessionID c, fc_FlowID c) = Some p" "validateClaim c = None"
  shows "yields G (\<lambda>(res, x). op_ok H r (claim_streams c) x) (submitExistingLocked now p c r)"
proof (cases "ce_state (cr_heap r p)")
  case claimPending
  have k: "ce_key (cr_heap r p) = (fc_SessionID c, fc_FlowID c)" using Inv_table [OF assms(1,2)] by simp
  show ?thesis
  proof (cases "completes c (cr_heap r p)")
    case True
    then show ?thesis using submit_pair_ok [OF assms(1,2) claimPending True] claimPending
      by (auto simp: submitExistingLocked_def Let_def completes_def)
  next
    case False
    then show ?thesis using submit_conflict_ok [OF assms(1,2) claimPending] claimPending assms(3) k
      by (auto simp: submitExistingLocked_def Let_def completes_def)
  qed
next
  case claimActive
  then show ?thesis using refuse_claim_ok [of H "[]" r] assms(1) by (simp add: submitExistingLocked_def Let_def)
next
  case claimTerminal
  have p: "p < cr_fresh r" using Inv_table [OF assms(1,2)] by simp
  let ?r = "r\<lparr>cr_results := cr_results r @ map new_result (claim_streams c)\<rparr>"
  have "Inv H ?r" by (rule Inv_results [OF assms(1)])
  moreover have "Inv H (set_entry p (\<lambda>e. e\<lparr>ce_terminalConsumed := True\<rparr>) ?r)" by (rule Inv_consumed) (use calculation p in simp_all)
  ultimately show ?thesis using claimTerminal claim_streams_le [of c]
    by (auto simp: submitExistingLocked_def Let_def setupResultForClaim_eq op_ok_def)
qed

end
