(* ===== verification/Claim_Admit.thy ===== *)
theory Claim_Admit
  imports Claim_Submit
begin

section \<open>nw2 server: admitting and rejecting claims keeps the invariant\<close>

text \<open>Generations, UDP permits, new entries, and the operations on existing ones.\<close>

definition exhausted :: "claimRegistry \<Rightarrow> bool" where
  "exhausted r \<longleftrightarrow> cr_nextGeneration r = -1"

subsection \<open>Generations\<close>

text \<open>The registry after a session got its first generation.\<close>

definition with_generation :: "byte list \<Rightarrow> u64 \<Rightarrow> u64 \<Rightarrow> generationProvenance \<Rightarrow> claimRegistry \<Rightarrow> claimRegistry" where
  "with_generation sid g n v r =
     r\<lparr>cr_nextGeneration := n, cr_generations := AList.update sid g (cr_generations r),
       cr_provenance := AList.update (sid, g) v (cr_provenance r)\<rparr>"

lemma with_generation_frame [simp]:
  "cr_entries (with_generation sid g n v r) = cr_entries r" "cr_heap (with_generation sid g n v r) = cr_heap r"
  "cr_fresh (with_generation sid g n v r) = cr_fresh r" "cr_registered (with_generation sid g n v r) = cr_registered r"
  "cr_udpInUse (with_generation sid g n v r) = cr_udpInUse r" "cr_pending (with_generation sid g n v r) = cr_pending r"
  "cr_idleTCP (with_generation sid g n v r) = cr_idleTCP r" "cr_nextGeneration (with_generation sid g n v r) = n"
  "cr_limits (with_generation sid g n v r) = cr_limits r" "cr_terminalLimit (with_generation sid g n v r) = cr_terminalLimit r"
  "cr_terminalOrder (with_generation sid g n v r) = cr_terminalOrder r" "cr_accepting (with_generation sid g n v r) = cr_accepting r"
  "cr_closed (with_generation sid g n v r) = cr_closed r" "cr_permits (with_generation sid g n v r) = cr_permits r"
  "cr_results (with_generation sid g n v r) = cr_results r" "cr_aborts (with_generation sid g n v r) = cr_aborts r"
  "cr_generations (with_generation sid g n v r) = AList.update sid g (cr_generations r)"
  "cr_provenance (with_generation sid g n v r) = AList.update (sid, g) v (cr_provenance r)"
  by (simp_all add: with_generation_def)

lemma next_less: "(n :: u64) + 1 \<noteq> 0 \<Longrightarrow> n < n + 1"
  using unatSuc [of n] by (simp add: word_less_nat_alt add.commute)

lemma nextGeneration_cases:
  "nextGenerationLocked r = (if exhausted r then Panic else Ret (cr_nextGeneration r + 1, r\<lparr>cr_nextGeneration := cr_nextGeneration r + 1\<rparr>))"
  by (auto simp: nextGenerationLocked_def exhausted_def Let_def eq_neg_iff_add_eq_0)

text \<open>A new generation: above all those in use, or the one the caller names.\<close>

lemma new_generation_cases:
  "(if g = 0 then nextGenerationLocked r else Ret (g, observeGenerationLocked g r)) =
     (if g = 0 \<and> exhausted r then Panic
      else (let h = (if g = 0 then cr_nextGeneration r + 1 else g) in Ret (h, r\<lparr>cr_nextGeneration := max h (cr_nextGeneration r)\<rparr>)))"
proof (cases "g = 0")
  case True
  have "\<not> exhausted r \<Longrightarrow> cr_nextGeneration r < cr_nextGeneration r + 1"
    using next_less [of "cr_nextGeneration r"] by (auto simp: exhausted_def eq_neg_iff_add_eq_0)
  then show ?thesis using True by (auto simp: nextGeneration_cases Let_def max_def)
next
  case False
  then show ?thesis by (auto simp: observeGenerationLocked_def Let_def max_def)
qed

lemma reg_ok_rows_gone:
  assumes "reg_ok {} S P r" "get0 (cr_generations r) sid = 0" "map_of (cr_entries r) k = Some p"
  shows "fst k \<noteq> sid"
proof
  assume "fst k = sid"
  moreover have "row_gen {} r k p" using reg_okD(2) [OF assms(1)] assms(3) unfolding gens_ok_def by (blast dest: all_rowsD)
  ultimately show False using assms(2) by (simp add: row_gen_def)
qed

lemma with_generation_ok:
  assumes "reg_ok X S P r" "g \<le> n" "cr_nextGeneration r \<le> n" "sid \<in> X' \<or> get0 (cr_generations r) sid = 0 \<and> X = {}" "X \<subseteq> X'"
  shows "reg_ok X' (insert (sid, g) S) P (with_generation sid g n v r)" (is "reg_ok _ ?S P ?r")
proof -
  note d = reg_okD [OF assms(1)]
  have h: "hasGenerationStateLocked ?r = hasGenerationStateLocked r" by (rule ext, rule hasGeneration_cong) simp_all
  have "all_rows (row_gen X' ?r) (cr_entries r)"
  proof (rule all_rowsI)
    fix k p assume p: "map_of (cr_entries r) k = Some p"
    then have g: "row_gen X r k p" using d(2) unfolding gens_ok_def by (blast dest: all_rowsD)
    moreover have "sid \<notin> X' \<Longrightarrow> fst k \<noteq> sid" using reg_ok_rows_gone [of S P r sid k p] assms(1,4) p by auto
    ultimately show "row_gen X' ?r k p" using assms(5) by (auto simp: row_gen_def get0_update)
  qed
  moreover have "get0 (cr_generations ?r) s \<le> n" for s
    using d(2) assms(2,3) by (auto simp: gens_ok_def get0_update intro: order_trans)
  ultimately have "gens_ok X' ?r" by (simp add: gens_ok_def)
  moreover have "no_leak ?S ?r" if "no_leak S r"
  proof -
    have "fst ` set (cr_provenance ?r) \<subseteq> insert (sid, g) (fst ` set (cr_provenance r))"
      using set_al_update [of "(sid, g)" v "cr_provenance r"] by auto
    then show ?thesis using that unfolding no_leak_def h by (auto simp: get0_update)
  qed
  ultimately show ?thesis
    using d counts_cong [of ?r r] claim_entry_ok_cong [of ?r _ r] unfolding reg_ok_def by simp
qed

lemma claim_generation_cases:
  "claim_generation sid g bound r =
     (if get0 (cr_generations r) sid = 0 \<and> \<not> bound then
        (if g = 0 \<and> exhausted r then Panic
         else (let h = (if g = 0 then cr_nextGeneration r + 1 else g)
               in Ret (h, with_generation sid h (max h (cr_nextGeneration r)) generationProvisional r)))
      else Ret (get0 (cr_generations r) sid, r))"
  by (simp add: claim_generation_def new_generation_cases Let_def with_generation_def)

text \<open>
  What \<open>claim_generation\<close> leaves: either nothing changed, or the session has no entry and its generation,
  still without a holder, is the one asked for.
\<close>

definition generation_ready :: "byte list \<Rightarrow> u64 \<Rightarrow> bool \<Rightarrow> nat set \<Rightarrow> claimRegistry \<Rightarrow> u64 \<times> claimRegistry \<Rightarrow> bool" where
  "generation_ready sid g bound H r x =
     (case x of (h, r') \<Rightarrow>
        (r' = r \<and> h = get0 (cr_generations r) sid \<or>
         h \<noteq> 0 \<and> \<not> bound \<and> (g = 0 \<or> g = h) \<and> (\<forall>fid. map_of (cr_entries r') (sid, fid) = None)) \<and>
        reg_ok {} {(sid, h)} {} r' \<and> queue_ok r' \<and> permit_ok H r' \<and> sel_ok r' \<and> limits_ok r' \<and>
        get0 (cr_generations r') sid = h \<and> cr_entries r' = cr_entries r \<and> cr_results r' = cr_results r \<and>
        cr_fresh r' = cr_fresh r \<and> cr_permits r' = cr_permits r \<and> cr_aborts r' = cr_aborts r \<and> cr_heap r' = cr_heap r \<and>
        cr_limits r' = cr_limits r \<and> cr_accepting r' = cr_accepting r)"

lemma claim_generation_ok:
  assumes "Inv H r"
  shows "yields (exhausted r) (generation_ready sid g bound H r) (claim_generation sid g bound r)"
proof (cases "get0 (cr_generations r) sid = 0 \<and> \<not> bound")
  case False
  have "reg_ok {} {(sid, get0 (cr_generations r) sid)} {} r"
    by (rule reg_ok_mono) (use assms in \<open>auto simp: Inv_def\<close>)
  then show ?thesis using assms unfolding claim_generation_cases if_not_P [OF False] by (simp add: generation_ready_def Inv_def)
next
  case True
  have i: "reg_ok {} {} {} r" "queue_ok r" "permit_ok H r" "sel_ok r" "limits_ok r" using assms by (simp_all add: Inv_def)
  define h where "h = (if g = 0 then cr_nextGeneration r + 1 else g)"
  let ?r = "with_generation sid h (max h (cr_nextGeneration r)) generationProvisional r"
  have "reg_ok {} {(sid, h)} {} ?r" using with_generation_ok [OF i(1), of h _ sid "{}"] True by simp
  moreover have "queue_ok ?r" by (rule queue_ok_heap [OF i(2)]) simp_all
  moreover have "permit_ok H ?r" by (rule permit_ok_heap [OF i(3)]) simp_all
  moreover have "map_of (cr_entries r) (sid, fid) = None" for fid
    using reg_ok_rows_gone [OF i(1), of sid "(sid, fid)"] True by (cases "map_of (cr_entries r) (sid, fid)") auto
  moreover have "h \<noteq> 0" if "\<not> (g = 0 \<and> exhausted r)" using that by (auto simp: h_def exhausted_def eq_neg_iff_add_eq_0)
  moreover have "g = 0 \<or> g = h" by (simp add: h_def)
  ultimately show ?thesis using True i(4,5)
    by (auto simp: claim_generation_cases Let_def h_def [symmetric] generation_ready_def get0_update sel_ok_def limits_ok_def)
qed

text \<open>A generation that somebody holds needs no exemption.\<close>

lemma reg_ok_holder: "reg_ok X (insert g S) P r \<Longrightarrow> hasGenerationStateLocked r g \<Longrightarrow> reg_ok X S P r"
  unfolding reg_ok_def no_leak_def by (metis DiffE DiffI insertE)

subsection \<open>Permits\<close>

lemma n_permits_append: "n_permits g (ps @ [q]) = n_permits g ps + (if \<not> up_released q \<and> up_key q = g then 1 else 0)"
  by (simp add: n_permits_def)

lemma acquire_ok:
  assumes "reg_ok X S P r" "permit_ok H r" "\<not> cr_closed r"
    "acquireUDPPermitLocked c r = Inr (permit, r')"
  shows "reg_ok X S P r'" "permit_ok (H \<union> set_option permit) r'" "set_option permit \<subseteq> {..<length (cr_permits r')}"
    "\<exists>u q. r' = r\<lparr>cr_udpInUse := u, cr_permits := cr_permits r @ q\<rparr>"
proof -
  let ?g = "(fc_SessionID c, fc_Generation c)"
  let ?r = "r\<lparr>cr_udpInUse := AList.update ?g (get0 (cr_udpInUse r) ?g + 1) (cr_udpInUse r),
      cr_permits := cr_permits r @ [\<lparr>up_key = ?g, up_released = False\<rparr>]\<rparr>"
  note d = reg_okD [OF assms(1)]
  have cases: "permit = None \<and> r' = r \<or>
      permit = Some (length (cr_permits r)) \<and> r' = ?r \<and> get0 (cr_udpInUse r) ?g < lm_UDPFlowsPerSession (cr_limits r)"
    using assms(4) by (auto simp: acquireUDPPermitLocked_def Let_def split: if_splits)
  have nonneg: "0 \<le> get0 (cr_udpInUse r) g" for g
  proof -
    have "0 \<le> n_permits g (cr_permits r)" unfolding n_permits_def by (rule sum_list_nonneg) auto
    then show ?thesis using assms(2) use_okD(1) [of r g] by (simp add: permit_ok_def)
  qed
  have "hasGenerationStateLocked ?r g" if "hasGenerationStateLocked r g" for g
    using that nonneg [of g] by (auto simp: hasGenerationStateLocked_def get0_update)
  then have "no_leak S ?r" if "no_leak S r" using that unfolding no_leak_def by simp
  then have "reg_ok X S P ?r"
    using d counts_cong [of ?r r] claim_entry_ok_cong [of ?r _ r] unfolding reg_ok_def gens_ok_def by (simp add: row_gen_def [abs_def])
  then show "reg_ok X S P r'" using cases assms(1) by auto
  have "permit_ok (insert (length (cr_permits r)) H) ?r" if "get0 (cr_udpInUse r) ?g < lm_UDPFlowsPerSession (cr_limits r)"
  proof -
    have u: "use_ok r" using assms(2) by (simp add: permit_ok_def)
    have "use_ok ?r"
    proof (rule use_okI)
      fix g show "get0 (cr_udpInUse ?r) g = (if cr_closed ?r then 0 else n_permits g (cr_permits ?r))"
        using use_okD(1) [OF u] assms(3) by (simp add: get0_update n_permits_append)
      show "get0 (cr_udpInUse ?r) g \<le> lm_UDPFlowsPerSession (cr_limits ?r)" using use_okD(2) [OF u] that by (simp add: get0_update)
    qed
    then show ?thesis using assms(2) unfolding permit_ok_def
      by (auto simp: owned_def row_unowned_def [abs_def] nth_append less_Suc_eq)
  qed
  then show "permit_ok (H \<union> set_option permit) r'" using cases assms(2) by auto
  show "set_option permit \<subseteq> {..<length (cr_permits r')}" using cases by auto
  show "\<exists>u q. r' = r\<lparr>cr_udpInUse := u, cr_permits := cr_permits r @ q\<rparr>"
  proof (cases "r' = r")
    case True
    then have "r' = r\<lparr>cr_udpInUse := cr_udpInUse r, cr_permits := cr_permits r @ []\<rparr>" by simp
    then show ?thesis by blast
  next
    case False
    then show ?thesis using cases by blast
  qed
qed

subsection \<open>New entries\<close>

lemma permit_ok_insert:
  assumes "permit_ok H r" "table_ok (cr_heap r) (cr_fresh r) (cr_entries r)" "map_of (cr_entries r) (ce_key e) = None"
    "set_option (ce_permit e) \<subseteq> {..<length (cr_permits r)}"
    "cr_heap r' = (cr_heap r)(cr_fresh r := e)" "cr_fresh r' = Suc (cr_fresh r)"
    "cr_entries r' = AList.update (ce_key e) (cr_fresh r) (cr_entries r)"
    "cr_permits r' = cr_permits r" "cr_udpInUse r' = cr_udpInUse r" "cr_closed r' = cr_closed r" "cr_limits r' = cr_limits r"
  shows "permit_ok (H - set_option (ce_permit e)) r'"
proof -
  have "owned r' i" if o: "owned r i \<or> ce_permit e = Some i" for i
    using o
  proof
    assume "owned r i"
    then obtain k p where p: "map_of (cr_entries r) k = Some p" "ce_permit (cr_heap r p) = Some i" by (rule ownedE)
    then have "p < cr_fresh r" using is_current_table [OF assms(2) p(1)] by simp
    moreover have "k \<noteq> ce_key e" using p(1) assms(3) by auto
    ultimately show ?thesis using ownedI [of r' k p i] p by (simp add: assms(5,7) al_lookup)
  next
    assume "ce_permit e = Some i"
    then show ?thesis using ownedI [of r' "ce_key e" "cr_fresh r" i] by (simp add: assms(5,7) al_lookup)
  qed
  then show ?thesis using assms(1,4) use_ok_cong [OF assms(9,10,8,11)] unfolding permit_ok_def
    by (auto simp: assms(5,6,8) less_Suc_eq)
qed

lemma Inv_insert:
  assumes "reg_ok {} {(fst (ce_key e), ce_generation e)} {} r" "queue_ok r" "permit_ok (H \<union> set_option (ce_permit e)) r" "sel_ok r" "limits_ok r"
    and "map_of (cr_entries r) (ce_key e) = None" "ce_generation e = get0 (cr_generations r) (fst (ce_key e))" "ce_generation e \<noteq> 0"
      "entry_shape e" "ce_state e \<noteq> claimTerminal" "sel_entry (cr_results r @ ts) e" "set_option (ce_permit e) \<subseteq> {..<length (cr_permits r)}"
    and r': "cr_heap r' = (cr_heap r)(cr_fresh r := e)" "cr_fresh r' = Suc (cr_fresh r)"
      "cr_entries r' = AList.update (ce_key e) (cr_fresh r) (cr_entries r)"
      "cr_generations r' = cr_generations r" "cr_nextGeneration r' = cr_nextGeneration r" "cr_provenance r' = cr_provenance r"
      "cr_limits r' = cr_limits r" "cr_registered r' = cr_registered r" "cr_udpInUse r' = cr_udpInUse r" "cr_accepting r' = cr_accepting r"
      "cr_permits r' = cr_permits r" "cr_closed r' = cr_closed r" "cr_terminalOrder r' = cr_terminalOrder r"
      "cr_terminalLimit r' = cr_terminalLimit r" "cr_results r' = cr_results r @ ts"
    and n: "\<And>sid. get0 (cr_pending r') sid = get0 (cr_pending r) sid + n_pending sid e" "cr_idleTCP r' = cr_idleTCP r + n_idle e"
      "\<And>sid. sum_over (n_claims sid) (cr_heap r) (cr_entries r) + n_claims sid e \<le> lm_PendingFlowsPerSession (cr_limits r)"
      "cr_idleTCP r' \<le> lm_AuthenticatedTCPIdleConnections (cr_limits r)"
  shows "Inv H r'"
proof -
  note t = reg_okD(1) [OF assms(1)]
  have "reg_ok {} {} {} r'" using reg_ok_insert [OF assms(1,6,7,8,9) r'(1-10) n] by simp
  moreover have "permit_ok H r'"
    by (rule permit_ok_mono [OF permit_ok_insert [OF assms(3) t assms(6,12) r'(1-3,11,9,12,7)]]) auto
  moreover have "queue_ok r'"
  proof -
    have "all_rows (row_term (cr_terminalOrder r) r') (cr_entries r')" unfolding r'(3)
    proof (rule all_rows_update)
      show "all_rows (row_term (cr_terminalOrder r) r') (cr_entries r)"
      proof (rule all_rowsI)
        fix k p assume p: "map_of (cr_entries r) k = Some p"
        then have "row_term (cr_terminalOrder r) r k p" using assms(2) unfolding queue_ok_def term_ok_def by (blast dest: all_rowsD)
        moreover have "p < cr_fresh r" using is_current_table [OF t p] by simp
        ultimately show "row_term (cr_terminalOrder r) r' k p" by (simp add: row_term_def r')
      qed
      show "row_term (cr_terminalOrder r) r' (ce_key e) (cr_fresh r)" using assms(10) by (simp add: row_term_def r')
    qed
    then show ?thesis using assms(2) terminal_cap_cong [OF r'(14)] by (simp add: queue_ok_def term_ok_def r'(13))
  qed
  moreover have "sel_ok r'" using assms(4,11) by (auto simp: sel_ok_def r' less_Suc_eq sel_entry_append)
  ultimately show ?thesis using assms(5) by (simp add: Inv_def limits_ok_def r')
qed

text \<open>The state in which a claim gets an entry of its own: its key is free and its generation current.\<close>

definition admits :: "nat set \<Rightarrow> flowClaim \<Rightarrow> claimRegistry \<Rightarrow> bool" where
  "admits H c r \<longleftrightarrow>
     reg_ok {} {(fc_SessionID c, fc_Generation c)} {} r \<and> queue_ok r \<and> permit_ok H r \<and> sel_ok r \<and> limits_ok r \<and>
     validateClaim c = None \<and> map_of (cr_entries r) (fc_SessionID c, fc_FlowID c) = None \<and>
     get0 (cr_generations r) (fc_SessionID c) = fc_Generation c \<and> fc_Generation c \<noteq> 0 \<and> cr_accepting r \<and>
     sum_over (n_claims (fc_SessionID c)) (cr_heap r) (cr_entries r) < lm_PendingFlowsPerSession (cr_limits r)"

lemma admits_claims:
  assumes "admits H c r" "ce_key e = (fc_SessionID c, fc_FlowID c)"
  shows "sum_over (n_claims sid) (cr_heap r) (cr_entries r) + n_claims sid e \<le> lm_PendingFlowsPerSession (cr_limits r)"
proof (cases "sid = fc_SessionID c")
  case True
  then show ?thesis using assms by (auto simp: admits_def n_claims_def)
next
  case False
  then have "n_claims sid e = 0" using assms(2) by (simp add: n_claims_def)
  moreover have "counts_ok r" using assms(1) reg_okD(3) by (auto simp: admits_def)
  ultimately show ?thesis by (simp add: counts_ok_def)
qed

lemma submit_duplex_ok:
  assumes "admits (H \<union> set_option permit) c r" "fc_Role c = FlowRoleDuplex" "set_option permit \<subseteq> {..<length (cr_permits r)}"
  shows "case submit_duplex c permit r of (res, x) \<Rightarrow> op_ok H r (claim_streams c) x"
proof -
  let ?ss = "claim_streams c"
  let ?res = "if ?ss = [] then None else Some (length (cr_results r))"
  define e where "e = (new_entry c permit)\<lparr>ce_duplex := Some c, ce_target := Some (fc_Target c), ce_selected := ?res, ce_state := claimActive,
      ce_active := Some \<lparr>cf_Metadata = fc_Metadata c, cf_Target = Some (fc_Target c), cf_Open = None, cf_Attach = None, cf_Duplex = Some c,
        cf_Selected = Some c, cf_Result = ?res, cf_Resolved = False, cf_Released = False\<rparr>\<rparr>"
  have sel: "claim_selected c" using assms(1,2) validate_duplex by (simp add: admits_def)
  obtain r' where r': "submit_duplex c permit r = (Activated (cr_fresh r), [], r')" "cr_heap r' = (cr_heap r)(cr_fresh r := e)"
    "r' = r\<lparr>cr_heap := (cr_heap r)(cr_fresh r := e), cr_fresh := Suc (cr_fresh r), cr_results := cr_results r @ map new_result ?ss,
        cr_entries := AList.update (fc_SessionID c, fc_FlowID c) (cr_fresh r) (cr_entries r)\<rparr>"
    using sel by (simp add: submit_duplex_def setupResultForClaim_eq alloc_entry_def activateLocked_def set_entry_def e_def new_entry_def
        selectedClaim_def entryClaims_def opt_list_def)
  have e: "ce_key e = (fc_SessionID c, fc_FlowID c)" "ce_generation e = fc_Generation c" "ce_permit e = permit" "ce_state e = claimActive"
    by (simp_all add: e_def new_entry_def)
  have sh: "entry_shape e" using assms(1,2) by (auto simp: admits_def e_def new_entry_def entry_shape_def flow_shape_def half_ok_def)
  have se: "sel_entry (cr_results r @ map new_result ?ss) e" using claim_streams_le [of c]
    by (auto simp: e_def new_entry_def sel_entry_def result_of_def new_result_def)
  have a: "reg_ok {} {(fst (ce_key e), ce_generation e)} {} r" "queue_ok r" "permit_ok (H \<union> set_option (ce_permit e)) r" "sel_ok r" "limits_ok r"
    "map_of (cr_entries r) (ce_key e) = None" "ce_generation e = get0 (cr_generations r) (fst (ce_key e))" "ce_generation e \<noteq> 0"
    using assms(1) by (simp_all add: admits_def e)
  have idle: "cr_idleTCP r \<le> lm_AuthenticatedTCPIdleConnections (cr_limits r)" using reg_okD(3) [OF a(1)] by (simp add: counts_ok_def)
  have "Inv H r'"
    by (rule Inv_insert [OF a sh _ se, where r' = r'])
      (use assms(3) idle admits_claims [OF assms(1) e(1)] in \<open>simp_all add: e r'(3) n_pending_def n_idle_def\<close>)
  then show ?thesis by (simp add: r'(1) op_ok_def) (simp add: r'(3))
qed

lemma submit_pending_ok:
  assumes "admits (H \<union> set_option permit) c r" "fc_Role c \<noteq> FlowRoleDuplex" "set_option permit \<subseteq> {..<length (cr_permits r)}"
    "\<not> (fc_Carrier c = CarrierTLSTCP \<and> cr_idleTCP r \<ge> lm_AuthenticatedTCPIdleConnections (cr_limits r))"
  shows "case submit_pending c permit r of (res, x) \<Rightarrow> op_ok H r (claim_streams c) x"
proof -
  let ?ss = "claim_streams c" and ?tcp = "fc_Carrier c = CarrierTLSTCP"
  let ?res = "if ?ss = [] then None else Some (length (cr_results r))"
  define e where "e = add_half c ((new_entry c permit)\<lparr>ce_selected := ?res, ce_pendingTCP := ?tcp, ce_timer := True\<rparr>)"
  have role: "fc_Role c = FlowRoleOpen \<or> fc_Role c = FlowRoleAttach" using assms(1,2) validate_role by (auto simp: admits_def)
  obtain r' where r': "submit_pending c permit r = (AwaitPeer (cr_fresh r), [], r')"
    "r' = r\<lparr>cr_heap := (cr_heap r)(cr_fresh r := e), cr_fresh := Suc (cr_fresh r), cr_results := cr_results r @ map new_result ?ss,
        cr_pending := AList.update (fc_SessionID c) (get0 (cr_pending r) (fc_SessionID c) + 1) (cr_pending r),
        cr_idleTCP := (if ?tcp then cr_idleTCP r + 1 else cr_idleTCP r),
        cr_entries := AList.update (fc_SessionID c, fc_FlowID c) (cr_fresh r) (cr_entries r)\<rparr>"
    by (simp add: submit_pending_def setupResultForClaim_eq alloc_entry_def e_def Let_def)
  have e: "ce_key e = (fc_SessionID c, fc_FlowID c)" "ce_generation e = fc_Generation c" "ce_permit e = permit" "ce_state e = claimPending"
    "ce_pendingTCP e = ?tcp" by (simp_all add: e_def new_entry_def add_half_def)
  have sh: "entry_shape e" using assms(1) role
    by (auto simp: admits_def e_def new_entry_def entry_shape_def pending_shape_def half_ok_def add_half_def)
  have "fc_Role c = FlowRoleOpen \<Longrightarrow> ?ss = []" using assms(1) validate_open [of c] by (simp add: admits_def claim_streams_def)
  then have se: "sel_entry (cr_results r @ map new_result ?ss) e" using claim_streams_le [of c] role
    by (auto simp: e_def new_entry_def sel_entry_def result_of_def new_result_def add_half_def)
  have a: "reg_ok {} {(fst (ce_key e), ce_generation e)} {} r" "queue_ok r" "permit_ok (H \<union> set_option (ce_permit e)) r" "sel_ok r" "limits_ok r"
    "map_of (cr_entries r) (ce_key e) = None" "ce_generation e = get0 (cr_generations r) (fst (ce_key e))" "ce_generation e \<noteq> 0"
    using assms(1) by (simp_all add: admits_def e)
  have idle: "cr_idleTCP r \<le> lm_AuthenticatedTCPIdleConnections (cr_limits r)" using reg_okD(3) [OF a(1)] by (simp add: counts_ok_def)
  have "Inv H r'"
    by (rule Inv_insert [OF a sh _ se, where r' = r'])
      (use assms(3,4) idle admits_claims [OF assms(1) e(1)] in \<open>auto simp: e r'(2) n_pending_def n_idle_def get0_update\<close>)
  then show ?thesis by (simp add: r'(1) op_ok_def) (simp add: r'(2))
qed

lemma submit_new_ok:
  assumes "admits H c r"
  shows "case submit_new c r of (res, x) \<Rightarrow> op_ok H r (claim_streams c) x"
proof (cases "acquireUDPPermitLocked c r")
  case (Inl err)
  have a: "reg_ok {} {(fc_SessionID c, fc_Generation c)} {} r" "queue_ok r" "permit_ok H r" "sel_ok r" "limits_ok r" using assms by (simp_all add: admits_def)
  have "get0 (cr_udpInUse r) (fc_SessionID c, fc_Generation c) \<ge> lm_UDPFlowsPerSession (cr_limits r)"
    using Inl by (auto simp: acquireUDPPermitLocked_def Let_def split: if_splits)
  then have "hasGenerationStateLocked r (fc_SessionID c, fc_Generation c)" using a(5) by (simp add: hasGenerationStateLocked_def limits_ok_def)
  then have "Inv H r" using a reg_ok_holder [of "{}" "(fc_SessionID c, fc_Generation c)" "{}" "{}" r] by (simp add: Inv_def)
  then show ?thesis using Inl refuse_claim_ok [of H "[]" r c] by (simp add: submit_new_def)
next
  case (Inr x)
  obtain permit r' where x: "x = (permit, r')" by fastforce
  have a: "reg_ok {} {(fc_SessionID c, fc_Generation c)} {} r" "permit_ok H r" "\<not> cr_closed r" using assms by (auto simp: admits_def limits_ok_def)
  note q = acquire_ok [OF a Inr [unfolded x]]
  obtain u ps where r': "r' = r\<lparr>cr_udpInUse := u, cr_permits := cr_permits r @ ps\<rparr>" using q(4) by blast
  have "queue_ok r'" by (rule queue_ok_heap) (use assms in \<open>simp_all add: r' admits_def\<close>)
  then have adm: "admits (H \<union> set_option permit) c r'" using assms q(1,2) by (simp add: admits_def r' sel_ok_def limits_ok_def)
  have lift: "op_ok H r' (claim_streams c) y \<Longrightarrow> op_ok H r (claim_streams c) y" for y
    by (cases y) (simp add: op_ok_def r')
  let ?full = "get0 (cr_pending r') (fc_SessionID c) \<ge> lm_PendingFlowsPerSession (cr_limits r') \<or>
      (fc_Carrier c = CarrierTLSTCP \<and> cr_idleTCP r' \<ge> lm_AuthenticatedTCPIdleConnections (cr_limits r'))"
  let ?c = "maybeCleanupGenerationLocked (fc_SessionID c) r'"
  have "reg_ok {} {} {} ?c"
    by (rule reg_ok_mono [OF reg_ok_cleanup [OF q(1)]]) auto
  moreover have "queue_ok ?c" by (rule queue_ok_heap [OF \<open>queue_ok r'\<close>]) simp_all
  moreover have "permit_ok (H \<union> set_option permit) ?c" by (rule permit_ok_heap [OF q(2)]) simp_all
  ultimately have cl: "Inv (H \<union> set_option permit) ?c" using adm by (simp add: Inv_def admits_def sel_ok_def limits_ok_def)
  have full: "case refuse_claim c SetupResultFlowLimit (Wrapped '': pending flow budget'' ErrPairLimit) (release_permit permit) ?c of
      (res, x) \<Rightarrow> op_ok H r' (claim_streams c) x"
    using refuse_claim_ok [of H "release_permit permit" ?c c] cl q(3) by (auto simp: op_ok_def split: prod.splits)
  have "case submit_new c r of (res, x) \<Rightarrow> op_ok H r' (claim_streams c) x"
    using full submit_duplex_ok [OF adm _ q(3)] submit_pending_ok [OF adm _ q(3)] Inr x
    by (auto simp: submit_new_def)
  then show ?thesis using lift by (auto split: prod.splits)
qed

subsection \<open>Submit\<close>

lemma pruned_Inv:
  assumes "Inv H r"
  shows "Inv H (expireTerminalsLocked now r)"
proof -
  have i: "reg_ok {} {} {} r" "queue_ok r" "permit_ok H r" "sel_ok r" "limits_ok r" using assms by (simp_all add: Inv_def)
  note e = expireTerminals_ok [OF i(1,2), of now]
  have "permit_ok H (expireTerminalsLocked now r)"
    by (rule permit_ok_pruned [OF i(3) e(3)]) (use terminal_no_permit [OF i(1)] in auto)
  then show ?thesis using e i(4,5) prunedD(1) [OF e(3)] by (simp add: Inv_def sel_ok_def limits_ok_def same_core_def)
qed

lemma validate_generation: "validateClaim (c\<lparr>fc_Generation := g\<rparr>) = validateClaim c"
  by (simp add: validateClaim_def Let_def)

lemma streams_generation: "claim_streams (c\<lparr>fc_Generation := g\<rparr>) = claim_streams c"
  by (simp add: claim_streams_def claim_selected_def)

lemma submit_ready_ok:
  assumes "Inv H r" "validateClaim c = None" "cr_accepting r" "session_claims (fc_SessionID c) r < lm_PendingFlowsPerSession (cr_limits r)"
    and "generation_ready (fc_SessionID c) (fc_Generation c) (fc_BoundGeneration c) H r (g, r')"
    and c': "c' = (if fc_Generation c = 0 then c\<lparr>fc_Generation := g\<rparr> else c)"
  shows "yields G (\<lambda>(res, x). op_ok H r (claim_streams c) x)
    (if stale_generation (fc_SessionID c) g (fc_Generation c') (fc_BoundGeneration c') r'
     then Ret (refuse_claim c' SetupResultSessionReplaced (Wrapped '': stale generation'' ErrManagerClosed) [] r')
     else case map_of (cr_entries r') (fc_SessionID c, fc_FlowID c') of
            Some p \<Rightarrow> submitExistingLocked now p c' r'
          | None \<Rightarrow> Ret (submit_new c' r'))"
proof -
  have f: "fc_SessionID c' = fc_SessionID c" "fc_FlowID c' = fc_FlowID c" "validateClaim c' = None" "claim_streams c' = claim_streams c"
    "fc_BoundGeneration c' = fc_BoundGeneration c" using assms(2) by (simp_all add: c' validate_generation streams_generation)
  have lift: "op_ok H r' ss x \<Longrightarrow> op_ok H r ss x" for ss x using assms(5) by (cases x) (simp add: op_ok_def generation_ready_def)
  consider (same) "r' = r" "g = get0 (cr_generations r) (fc_SessionID c)"
    | (fresh) "g \<noteq> 0" "\<not> fc_BoundGeneration c" "fc_Generation c' = g" "map_of (cr_entries r') (fc_SessionID c, fc_FlowID c) = None"
    using assms(5) by (auto simp: generation_ready_def c')
  then show ?thesis
  proof cases
    case same
    show ?thesis
    proof (cases "stale_generation (fc_SessionID c) g (fc_Generation c') (fc_BoundGeneration c') r'")
      case True
      then show ?thesis using refuse_claim_ok [of H "[]" r c'] assms(1) same f(4) by auto
    next
      case False
      then have g: "g \<noteq> 0" "fc_Generation c' = g" by (auto simp: stale_generation_def)
      show ?thesis
      proof (cases "map_of (cr_entries r) (fc_SessionID c, fc_FlowID c)")
        case (Some p)
        then show ?thesis using submitExisting_ok [OF assms(1), of c' p G now] False same f by simp
      next
        case None
        have "sum_over (n_claims (fc_SessionID c)) (cr_heap r) (cr_entries r) < lm_PendingFlowsPerSession (cr_limits r)"
          using assms(1,4) session_claims_over [OF reg_okD(1), of "{}" "{}" "{}" r] by (simp add: Inv_def)
        moreover have "reg_ok {} {(fc_SessionID c, g)} {} r" using assms(5) same(1) by (simp add: generation_ready_def)
        ultimately have "admits H c' r" using assms(1,3) same g f None by (simp add: admits_def Inv_def)
        then show ?thesis using submit_new_ok False same f None by fastforce
      qed
    qed
  next
    case fresh
    then have "\<not> stale_generation (fc_SessionID c) g (fc_Generation c') (fc_BoundGeneration c') r'" using f by (simp add: stale_generation_def)
    moreover have "sum_over (n_claims (fc_SessionID c)) (cr_heap r) (cr_entries r) < lm_PendingFlowsPerSession (cr_limits r)"
      using assms(1,4) session_claims_over [OF reg_okD(1), of "{}" "{}" "{}" r] by (simp add: Inv_def)
    then have "admits H c' r'" using assms(3,5) fresh f by (simp add: admits_def generation_ready_def)
    then have "case submit_new c' r' of (res, x) \<Rightarrow> op_ok H r (claim_streams c) x" using submit_new_ok [of H c' r'] lift f(4) by auto
    ultimately show ?thesis using fresh(4) f(2) by simp
  qed
qed

lemma Submit_ok:
  assumes "Inv H r"
  shows "yields (exhausted r) (\<lambda>(res, x). op_ok H r (claim_streams c) x) (Submit now c r)"
proof -
  have refuse: "case refuse_claim c code err [] r of (res, x) \<Rightarrow> op_ok H r (claim_streams c) x" for code err
    using refuse_claim_ok [of H "[]" r c] assms by simp
  let ?r = "expireTerminalsLocked now r"
  have e: "Inv H ?r" by (rule pruned_Inv [OF assms])
  have "pruned r ?r" using expireTerminals_ok(3) assms unfolding Inv_def by blast
  note core = prunedD(1) [OF this]
  have lift: "op_ok H ?r ss x \<Longrightarrow> op_ok H r ss x" for ss x using core by (cases x) (simp add: op_ok_def same_core_def)
  have "yields (exhausted r) (\<lambda>(res, x). op_ok H r (claim_streams c) x) (submit_admitted now c r)" if v: "validateClaim c = None" "cr_accepting r"
  proof (cases "session_claims (fc_SessionID c) ?r \<ge> lm_PendingFlowsPerSession (cr_limits ?r) \<or> int (length (cr_entries ?r)) \<ge> DefaultPortalClaims")
    case True
    have "case refuse_claim c SetupResultFlowLimit (Wrapped '': claim admission'' ErrPairLimit) [] ?r of (res, x) \<Rightarrow> op_ok H ?r (claim_streams c) x"
      using refuse_claim_ok [of H "[]" ?r c] e by simp
    then have "case refuse_claim c SetupResultFlowLimit (Wrapped '': claim admission'' ErrPairLimit) [] ?r of (res, x) \<Rightarrow> op_ok H r (claim_streams c) x"
      using lift by (auto split: prod.splits)
    then show ?thesis using True by (auto simp: submit_admitted_def Let_def)
  next
    case False
    then have few: "session_claims (fc_SessionID c) ?r < lm_PendingFlowsPerSession (cr_limits ?r)" by simp
    have acc: "cr_accepting ?r" "exhausted ?r = exhausted r" using v(2) core by (simp_all add: same_core_def exhausted_def)
    have "yields (exhausted r) (\<lambda>(res, x). op_ok H ?r (claim_streams c) x) (submit_admitted now c r)"
      using claim_generation_ok [OF e, of "fc_SessionID c" "fc_Generation c" "fc_BoundGeneration c"]
        submit_ready_ok [OF e v(1) acc(1) few _ refl, of _ _ "exhausted r" now] False
      unfolding submit_admitted_def Let_def acc(2) by (auto elim!: yields_mono)
    then show ?thesis by (rule yields_mono) (auto intro: lift)
  qed
  then show ?thesis using refuse by (auto simp: Submit_def split: option.split)
qed

end
