(* ===== verification/Claim_Reject.thy ===== *)
theory Claim_Reject
  imports Claim_Admit
begin

section \<open>nw2 server: rejecting, releasing and resolving keep the invariant\<close>

text \<open>\<^verbatim>\<open>reject\<close>, \<^verbatim>\<open>RejectClaim\<close>, the release of flows and permits, the readiness of a flow, and unregistering.\<close>

subsection \<open>Releasing\<close>

text \<open>An active entry loses its permit and perhaps its row, and its generation is cleaned up.\<close>

lemma same_entries: "cr_entries r = es \<Longrightarrow> r\<lparr>cr_entries := es\<rparr> = r"
  by (cases r) auto

lemma sel_entry_permit: "sel_entry rs (e\<lparr>ce_permit := x\<rparr>) = sel_entry rs e"
  by (simp add: sel_entry_def cong: option.case_cong)

lemma Inv_release:
  assumes "Inv H r" "p < cr_fresh r" "ce_state (cr_heap r p) \<noteq> claimPending" "k = ce_key (cr_heap r p)"
    and "es = (if is_current r p then AList.delete k (cr_entries r) else cr_entries r)"
  shows "Inv (H \<union> set_option (ce_permit (cr_heap r p)))
    (maybeCleanupGenerationLocked (fst k) (set_entry p (\<lambda>e. e\<lparr>ce_permit := None\<rparr>) (r\<lparr>cr_entries := es\<rparr>)))" (is "Inv _ ?r'")
proof -
  have i: "reg_ok {} {} {} r" "queue_ok r" "permit_ok H r" "sel_ok r" "limits_ok r" using assms(1) by (simp_all add: Inv_def)
  let ?d = "r\<lparr>cr_entries := es\<rparr>" and ?S = "{(fst k, ce_generation (cr_heap r p))}"
  have sh: "entry_shape (cr_heap r p)" using reg_okD(5) [OF i(1) assms(2)] by (simp add: claim_entry_ok_def)
  have "reg_ok {} ?S {} ?d"
  proof (cases "is_current r p")
    case True
    then show ?thesis using reg_ok_delete [OF i(1) _ assms(3), of k] assms(4,5) by (simp add: is_current_def)
  next
    case False
    then show ?thesis using reg_ok_mono [OF i(1), of "{}" ?S "{}"] assms(5) by simp
  qed
  then have "reg_ok {} ?S {p} ?d" by (rule reg_ok_mono) auto
  then have "reg_ok {} ?S {} (set_entry p (\<lambda>e. e\<lparr>ce_permit := None\<rparr>) ?d)"
    by (rule reg_ok_set) (use assms(2,3) sh in \<open>auto simp: entry_shape_def flow_shape_def half_ok_def split: claimEntryState.splits option.splits\<close>)
  from reg_ok_cleanup [OF this, of "fst k"] have 1: "reg_ok {} {} {} ?r'" by (rule reg_ok_mono) auto
  have "all_rows (row_term (cr_terminalOrder r) r) es" using i(2) assms(5) by (simp add: queue_ok_def term_ok_def all_rows_delete)
  moreover have "row_term ps ?r' = row_term ps r" for ps by (simp add: fun_eq_iff row_term_def)
  ultimately have 2: "queue_ok ?r'" using i(2) terminal_cap_cong [of ?r' r] by (simp add: queue_ok_def term_ok_def)
  have 3: "permit_ok (H \<union> set_option (ce_permit (cr_heap r p))) ?r'"
  proof (rule permit_ok_drop_hold [OF i(3) reg_okD(1) [OF i(1)]])
    fix k' q assume q: "map_of (cr_entries r) k' = Some q" "q \<noteq> p"
    then have "is_current r p \<Longrightarrow> k' \<noteq> k" using assms(4) by (auto simp: is_current_def)
    then show "map_of (cr_entries ?r') k' = Some q \<or> ce_permit (cr_heap r q) = None" using q(1) assms(5) by (auto simp: al_lookup)
  qed simp_all
  have 4: "sel_ok ?r'" using i(4) by (simp add: sel_ok_def sel_entry_permit)
  show ?thesis using 1 2 3 4 i(5) by (simp add: Inv_def limits_ok_def)
qed

lemma flow_shape_frame:
  "flow_shape (e\<lparr>ce_active := x\<rparr>) f = flow_shape e f"
  "flow_shape e (f\<lparr>cf_Released := True\<rparr>) = flow_shape e f"
  "flow_shape e (f\<lparr>cf_Resolved := True\<rparr>) = flow_shape e f"
  by (auto simp: flow_shape_def half_ok_def split: option.splits prod.splits)

lemma Inv_active:
  assumes "Inv H r" "p < cr_fresh r" "ce_active (cr_heap r p) = Some f"
    "\<And>e. flow_shape e (g f) = flow_shape e f" "cf_Result (g f) = cf_Result f" "cf_Selected (g f) = cf_Selected f" "cf_Duplex (g f) = cf_Duplex f"
  shows "Inv H (set_entry p (\<lambda>e. e\<lparr>ce_active := Some (g f)\<rparr>) r)"
proof (rule Inv_set [OF assms(1,2)])
  show "entry_shape (cr_heap r p) \<Longrightarrow> entry_shape ((cr_heap r p)\<lparr>ce_active := Some (g f)\<rparr>)"
    using assms(3,4,7) by (auto simp: entry_shape_def pending_shape_def flow_shape_frame split: claimEntryState.splits)
  show "sel_entry (cr_results r) (cr_heap r p) \<Longrightarrow> sel_entry (cr_results r) ((cr_heap r p)\<lparr>ce_active := Some (g f)\<rparr>)"
    using assms(3,5,6) by (simp add: sel_entry_def cong: option.case_cong)
qed simp_all

lemma pending_no_active: "Inv H r \<Longrightarrow> p < cr_fresh r \<Longrightarrow> ce_active (cr_heap r p) \<noteq> None \<Longrightarrow> ce_state (cr_heap r p) \<noteq> claimPending"
  using entry_pending [of H r p] by (auto simp: pending_shape_def)

lemma claimedFlow_Release_ok:
  assumes "Inv H r" "p < cr_fresh r"
  shows "op_ok H r [] (claimedFlow_Release p r)"
proof (cases "ce_active (cr_heap r p)")
  case None
  then show ?thesis using op_ok_refl [OF assms(1)] by (simp add: claimedFlow_Release_def)
next
  case (Some f)
  let ?g = "\<lambda>f. f\<lparr>cf_Released := True\<rparr>"
  let ?r = "set_entry p (\<lambda>e. e\<lparr>ce_active := Some (?g f)\<rparr>) r"
  have i: "Inv H ?r" by (rule Inv_active [OF assms Some]) (simp_all add: flow_shape_frame)
  have "ce_state (cr_heap r p) \<noteq> claimPending" using pending_no_active [OF assms] Some by simp
  then have "Inv (H \<union> set_option (ce_permit (cr_heap r p))) (snd (releaseActive p ?r))"
    using Inv_release [OF i _ _ refl refl, of p] assms(2)
    by (simp add: releaseActive_def Let_def same_entries split: if_splits)
  moreover have "set_option (ce_permit (cr_heap r p)) \<subseteq> {..<length (cr_permits r)}" by (rule entry_refs [OF assms])
  ultimately show ?thesis using Some op_ok_refl [OF assms(1)]
    by (auto simp: claimedFlow_Release_def releaseActive_def Let_def op_ok_def act_ok_def)
qed

lemma flowReadiness_ok:
  assumes "Inv H r" "p < cr_fresh r"
  shows "op_ok H r [] (flowReadiness_Ready gate p r)" "op_ok H r [] (flowReadiness_Reject cause p r)"
proof -
  have "op_ok H r [] (reject_setup (cf_Result f) code, set_entry p (\<lambda>e. e\<lparr>ce_active := Some (f\<lparr>cf_Resolved := True\<rparr>)\<rparr>) r)"
    if "ce_active (cr_heap r p) = Some f" for f code
  proof -
    have "Inv H (set_entry p (\<lambda>e. e\<lparr>ce_active := Some (f\<lparr>cf_Resolved := True\<rparr>)\<rparr>) r)"
      by (rule Inv_active [OF assms that]) (simp_all add: flow_shape_frame)
    moreover have "set_option (cf_Result f) \<subseteq> {..<length (cr_results r)}"
      using assms that by (auto simp: Inv_def sel_ok_def sel_entry_def result_of_def)
    ultimately show ?thesis by (simp add: op_ok_def)
  qed
  then show "op_ok H r [] (flowReadiness_Ready gate p r)" "op_ok H r [] (flowReadiness_Reject cause p r)"
    using op_ok_refl [OF assms(1)] by (simp_all add: flowReadiness_Ready_def flowReadiness_Reject_def split: option.split)
qed

subsection \<open>Rejecting\<close>

lemma reject_new_ok:
  assumes "generation_ready sid g0 bound H r (g, r1)" "g \<noteq> 0" "map_of (cr_entries r1) (sid, fid) = None"
    and e: "ce_key e = (sid, fid)" "ce_generation e = g" "ce_state e = claimTerminal" "ce_permit e = None" "ce_selected e = None" "ce_active e = None"
      "ce_done e" "ce_err e \<noteq> None"
  shows "op_ok H r [] ([], addTerminalLocked (cr_fresh r1) (r1\<lparr>cr_heap := (cr_heap r1)(cr_fresh r1 := e), cr_fresh := Suc (cr_fresh r1)\<rparr>))"
    (is "op_ok H r [] ([], addTerminalLocked ?p ?a)")
proof -
  have i: "reg_ok {} {(sid, g)} {} r1" "queue_ok r1" "permit_ok H r1" "sel_ok r1" "limits_ok r1" "get0 (cr_generations r1) sid = g"
    using assms(1) by (simp_all add: generation_ready_def)
  let ?b = "?a\<lparr>cr_entries := AList.update (sid, fid) ?p (cr_entries r1)\<rparr>"
  note t = reg_okD(1) [OF i(1)]
  have c: "counts_ok r1" by (rule reg_okD(3) [OF i(1)])
  have "reg_ok {} ({(sid, g)} - {(fst (ce_key e), ce_generation e)}) {} ?b"
    by (rule reg_ok_insert [OF i(1)])
      (use assms(2,3) c i(6) in \<open>simp_all add: e entry_shape_def n_defs counts_ok_def\<close>)
  then have 1: "reg_ok {} {} {} ?b" by (simp add: e)
  have "term_ok (cr_terminalOrder r1 @ [?p]) ?b"
    unfolding term_ok_def
  proof (rule all_rowsI)
    fix k q assume q: "map_of (cr_entries ?b) k = Some q"
    show "row_term (cr_terminalOrder r1 @ [?p]) ?b k q"
    proof (cases "q = ?p")
      case False
      then have q1: "map_of (cr_entries r1) k = Some q" using q by (simp add: al_lookup split: if_splits)
      then have "row_term (cr_terminalOrder r1) r1 k q" using i(2) unfolding queue_ok_def term_ok_def by (blast dest: all_rowsD)
      then show ?thesis using False by (simp add: row_term_def)
    qed (simp add: row_term_def)
  qed
  with addTerminal_ok [of "{}" "{}" "{}" ?a ?p] 1 have a: "reg_ok {} {} {} (addTerminalLocked ?p ?a)" "queue_ok (addTerminalLocked ?p ?a)"
      "pruned ?b (addTerminalLocked ?p ?a)" by (simp_all add: e)
  have "permit_ok (H - set_option (ce_permit e)) ?b"
    by (rule permit_ok_insert [OF i(3) t]) (use assms(3) in \<open>simp_all add: e\<close>)
  then have "permit_ok H ?b" by (simp add: e)
  then have "permit_ok H (addTerminalLocked ?p ?a)"
    by (rule permit_ok_pruned [OF _ a(3)]) (use terminal_no_permit [OF 1] in auto)
  moreover have "sel_ok ?b" using i(4) by (auto simp: sel_ok_def less_Suc_eq sel_entry_def e)
  ultimately have "Inv H (addTerminalLocked ?p ?a)"
    using a i(5) prunedD(1) [OF a(3)] by (simp add: Inv_def sel_ok_def limits_ok_def same_core_def)
  then show ?thesis using prunedD(1) [OF a(3)] assms(1) by (simp add: op_ok_def same_core_def generation_ready_def)
qed

lemma drop_set_entry:
  "ce_key (f (cr_heap r p)) = ce_key (cr_heap r p) \<Longrightarrow>
   drop_entry p (set_entry p f r) = maybeCleanupGenerationLocked (fst (ce_key (cr_heap r p)))
     (set_entry p f (r\<lparr>cr_entries := AList.delete (ce_key (cr_heap r p)) (cr_entries r)\<rparr>))"
  by (cases r) (simp add: drop_entry_def set_entry_def Let_def)

lemma reject_active_ok:
  assumes "Inv H r" "map_of (cr_entries r) k = Some p" "ce_state (cr_heap r p) = claimActive"
  shows "op_ok H r [] ((case ce_active (cr_heap r p) of None \<Rightarrow> []
        | Some f \<Rightarrow> [RejectReadiness p cause, CancelFlow p cause] @ closeClaimedFlow (Some f) cause) @ release_permit (ce_permit (cr_heap r p)),
      drop_entry p (set_entry p (\<lambda>e. e\<lparr>ce_permit := None\<rparr>) r))"
proof -
  note t = Inv_table [OF assms(1,2)]
  then have "Inv (H \<union> set_option (ce_permit (cr_heap r p))) (drop_entry p (set_entry p (\<lambda>e. e\<lparr>ce_permit := None\<rparr>) r))"
    using Inv_release [OF assms(1) _ _ refl refl, of p] assms(3) by (simp add: drop_set_entry)
  then show ?thesis using t entry_refs(2) [OF assms(1), of p] by (auto simp: op_ok_def act_ok_def split: option.split)
qed

lemma reject_ready_ok:
  assumes "Inv H r" "generation_ready sid g bound H r (h, r1)" and g': "g' = (if g = 0 then h else g)"
  shows "yields G (\<lambda>(res, x). op_ok H r [] x)
    (if stale_generation sid h g' bound r1 then Ret (Some SetupResultMetadataConflict, [], r1)
     else
       (case map_of (cr_entries r1) (sid, fid) of
          None \<Rightarrow>
            (case alloc_entry \<lparr>ce_key = (sid, fid), ce_generation = g', ce_metadata = m, ce_target = None, ce_open = None, ce_attach = None,
                   ce_duplex = None, ce_selected = None, ce_state = claimTerminal, ce_done = True, ce_err = Some cause, ce_timer = False,
                   ce_permit = None, ce_pendingTCP = False, ce_terminalConsumed = False, ce_expiredAt = None, ce_active = None\<rparr> r1 of
               (p, r) \<Rightarrow> Ret (None, [], addTerminalLocked p r))
        | Some p \<Rightarrow>
            (let e = cr_heap r1 p in
             if ce_generation e \<noteq> g' then Ret (Some SetupResultMetadataConflict, [], r1)
             else
               (case ce_state e of
                  claimTerminal \<Rightarrow> Ret (None, [], r1)
                | claimPending \<Rightarrow> go_bind (fail_entry now p code cause r1) (\<lambda>(acts, r). Ret (None, acts, r))
                | claimActive \<Rightarrow>
                    Ret (None,
                      (case ce_active e of None \<Rightarrow> [] | Some f \<Rightarrow> [RejectReadiness p cause, CancelFlow p cause] @ closeClaimedFlow (Some f) cause) @
                      release_permit (ce_permit e),
                      drop_entry p (set_entry p (\<lambda>e. e\<lparr>ce_permit := None\<rparr>) r1))))))"
proof -
  consider (same) "r1 = r" | (fresh) "h \<noteq> 0" "\<not> bound" "g' = h" "map_of (cr_entries r1) (sid, fid) = None"
    using assms(2) by (auto simp: generation_ready_def g')
  then show ?thesis
  proof cases
    case fresh
    then show ?thesis using reject_new_ok [OF assms(2) fresh(1,4)] by (simp add: stale_generation_def alloc_entry_def)
  next
    case same
    note refl' = op_ok_refl [OF assms(1)]
    show ?thesis
    proof (cases "stale_generation sid h g' bound r")
      case True
      then show ?thesis using refl' same by simp
    next
      case False
      then have g: "h \<noteq> 0" "g' = h" by (auto simp: stale_generation_def)
      show ?thesis
      proof (cases "map_of (cr_entries r) (sid, fid)")
        case None
        then have n: "map_of (cr_entries r1) (sid, fid) = None" using same by simp
        show ?thesis using reject_new_ok [OF assms(2) g(1) n] False None same g(2) by (simp add: alloc_entry_def)
      next
        case (Some p)
        show ?thesis
        proof (cases "ce_state (cr_heap r p)")
          case claimPending
          then show ?thesis using fail_entry_ok [OF assms(1) Some claimPending, of G now code cause] False same Some refl'
            by (auto simp: Let_def elim!: yields_mono)
        next
          case claimActive
          then show ?thesis using reject_active_ok [OF assms(1) Some claimActive, of cause] False same Some refl' by (simp add: Let_def)
        qed (use False same Some refl' in \<open>simp add: Let_def\<close>)
      qed
    qed
  qed
qed

lemma registry_reject_ok:
  assumes "Inv H r"
  shows "yields (exhausted r) (\<lambda>(res, x). op_ok H r [] x) (registry_reject now sid fid g bound cause r)"
proof -
  have "yields (exhausted r) (\<lambda>(h, r1). generation_ready sid g bound H r (h, r1)) (claim_generation sid g bound r)"
    using claim_generation_ok [OF assms, of sid g bound] by simp
  then show ?thesis unfolding registry_reject_def Let_def [of "if g = 0 then _ else g"] 
    using op_ok_refl [OF assms] by (auto simp: Let_def [of "case cause of None \<Rightarrow> _ | Some e \<Rightarrow> e"] elim!: yields_mono intro!: reject_ready_ok [OF assms])
qed

lemma RejectClaim_ok:
  assumes "Inv H r"
  shows "yields (exhausted r) (op_ok H r (claim_streams c)) (RejectClaim now c cause r)"
proof -
  have "op_ok H r (claim_streams c)
      (case setupResultForClaim c r' of (result, r'') \<Rightarrow>
         (acts @
           (case refusal of
              Some code \<Rightarrow> reject_setup result code @ claim_close c cause
            | None \<Rightarrow> (case result of None \<Rightarrow> claim_close c cause | Some i \<Rightarrow> [FinishReject i c cause])), r''))"
    if "op_ok H r [] (acts, r')" for refusal acts r'
  proof -
    have i: "Inv (H \<union> held_by acts) r'" "list_all (act_ok r') acts" using that by (simp_all add: op_ok_def)
    have "list_all (act_ok (r'\<lparr>cr_results := cr_results r' @ ts\<rparr>)) acts" for ts
      using i(2) by (rule list.pred_mono_strong) (auto simp: act_ok_def split: claim_action.splits)
    then show ?thesis using that Inv_results [OF i(1)] Inv_results [OF i(1), of "[]"] claim_streams_le [of c]
      by (auto simp: setupResultForClaim_eq op_ok_def act_ok_def split: option.split)
  qed
  then show ?thesis
    using registry_reject_ok [OF assms, of now "fc_SessionID c" "fc_FlowID c" "fc_Generation c" "fc_BoundGeneration c" "Some cause"]
    by (auto simp: RejectClaim_def setupResultForClaim_eq elim!: yields_mono)
qed

lemma finish_reject_ok:
  assumes "Inv H r" "i < length (cr_results r)"
  shows "op_ok H r [] (finish_reject i c cause r)"
proof -
  have "Inv H (set_entry p (\<lambda>e. e\<lparr>ce_terminalConsumed := True\<rparr>) r)" if "map_of (cr_entries r) (fc_SessionID c, fc_FlowID c) = Some p" for p
    using Inv_consumed [OF assms(1)] Inv_table [OF assms(1) that] by simp
  then show ?thesis using assms by (auto simp: finish_reject_def Let_def op_ok_def act_ok_def split: option.split)
qed

subsection \<open>Permits, registrations, setup results and aborts\<close>

lemma reg_ok_holders:
  assumes "reg_ok X S P r" "\<And>g. g \<noteq> k \<Longrightarrow> get0 u g = get0 (cr_udpInUse r) g" "\<And>g. g \<noteq> k \<Longrightarrow> get0 v g = get0 (cr_registered r) g"
  shows "reg_ok X (insert k S) P (r\<lparr>cr_permits := ps, cr_udpInUse := u, cr_registered := v\<rparr>)" (is "reg_ok X ?S P ?r")
proof -
  note d = reg_okD [OF assms(1)]
  have "hasGenerationStateLocked ?r g = hasGenerationStateLocked r g" if "g \<noteq> k" for g
    using assms(2,3) [OF that] by (simp add: hasGenerationStateLocked_def)
  then have "no_leak ?S ?r" if "no_leak S r" using that unfolding no_leak_def by simp
  moreover have "gens_ok X ?r" using d(2) by (simp add: gens_ok_def row_gen_def [abs_def])
  ultimately show ?thesis using d unfolding reg_ok_def
    by (simp add: counts_cong [of ?r r] claim_entry_ok_cong [of ?r _ r])
qed

lemma n_permits_release:
  assumes "i < length ps" "\<not> up_released (ps ! i)"
  shows "n_permits g (ps[i := (ps ! i)\<lparr>up_released := True\<rparr>]) = n_permits g ps - (if up_key (ps ! i) = g then 1 else 0)"
  using assms by (induction ps arbitrary: i) (auto simp: n_permits_def less_Suc_eq_0_disj)

lemma n_permits_nonneg: "0 \<le> n_permits g ps"
  unfolding n_permits_def by (rule sum_list_nonneg) auto

lemma udpPermit_Release_ok:
  assumes "Inv H r" "i < length (cr_permits r)"
  shows "Inv (H - {i}) (udpPermit_Release i r)"
proof (cases "up_released (cr_permits r ! i)")
  case True
  then have "permit_ok (H - {i}) r" using assms by (auto simp: Inv_def permit_ok_def)
  then show ?thesis using True assms(1) by (simp add: udpPermit_Release_def Inv_def)
next
  case False
  have i: "reg_ok {} {} {} r" "queue_ok r" "permit_ok H r" "sel_ok r" "limits_ok r" using assms(1) by (simp_all add: Inv_def)
  let ?k = "up_key (cr_permits r ! i)" and ?ps = "(cr_permits r)[i := (cr_permits r ! i)\<lparr>up_released := True\<rparr>]"
  let ?m = "r\<lparr>cr_permits := ?ps, cr_udpInUse := decrement ?k (cr_udpInUse r)\<rparr>"
  let ?r = "maybeCleanupGenerationLocked (fst ?k) ?m"
  have "reg_ok {} {?k} {} (r\<lparr>cr_permits := ?ps, cr_udpInUse := decrement ?k (cr_udpInUse r), cr_registered := cr_registered r\<rparr>)"
    by (rule reg_ok_holders [OF i(1)]) (simp_all add: get0_decrement)
  moreover have "r\<lparr>cr_permits := ?ps, cr_udpInUse := decrement ?k (cr_udpInUse r), cr_registered := cr_registered r\<rparr> = ?m" by (cases r) simp
  ultimately have "reg_ok {} {?k} {} ?m" by simp
  from reg_ok_cleanup [OF this, of "fst ?k"] have 1: "reg_ok {} {} {} ?r" by (rule reg_ok_mono) auto
  have "use_ok ?r"
  proof (rule use_okI)
    fix g
    note u = use_okD [of r g] use_okD [of r ?k] and n = n_permits_nonneg [of g "cr_permits r"]
    have r: "use_ok r" using i(3) by (simp add: permit_ok_def)
    have "n_permits ?k ?ps \<ge> 0" by (rule n_permits_nonneg)
    then have "n_permits ?k (cr_permits r) \<ge> 1" using n_permits_release [OF assms(2) False, of ?k] by simp
    then show "get0 (cr_udpInUse ?r) g = (if cr_closed ?r then 0 else n_permits g (cr_permits ?r))"
      using u(1,3) r n_permits_release [OF assms(2) False, of g] by (auto simp: get0_decrement)
    show "get0 (cr_udpInUse ?r) g \<le> lm_UDPFlowsPerSession (cr_limits ?r)"
      using u r i(5) by (auto simp: get0_decrement limits_ok_def)
  qed
  moreover have "owned ?r j = owned r j" for j by (simp add: owned_def row_unowned_def [abs_def])
  ultimately have "permit_ok (H - {i}) ?r" using i(3) assms(2) by (auto simp: permit_ok_def nth_list_update)
  moreover have "queue_ok ?r" using i(2) terminal_cap_cong [of ?r r] by (simp add: queue_ok_def term_ok_def row_term_def [abs_def])
  moreover have "sel_ok ?r" "limits_ok ?r" using i(4,5) by (simp_all add: sel_ok_def limits_ok_def)
  ultimately show ?thesis using 1 False by (simp add: Inv_def udpPermit_Release_def Let_def)
qed

lemma unregister_ok:
  assumes "Inv H r"
  shows "Inv H (unregisterSessionGeneration sid g r)"
proof -
  have i: "reg_ok {} {} {} r" "queue_ok r" "permit_ok H r" "sel_ok r" "limits_ok r" using assms by (simp_all add: Inv_def)
  let ?m = "r\<lparr>cr_registered := decrement (sid, g) (cr_registered r)\<rparr>"
  let ?r = "maybeCleanupGenerationLocked sid ?m"
  have "reg_ok {} {(sid, g)} {} (r\<lparr>cr_permits := cr_permits r, cr_udpInUse := cr_udpInUse r, cr_registered := decrement (sid, g) (cr_registered r)\<rparr>)"
    by (rule reg_ok_holders [OF i(1)]) (simp_all add: get0_decrement)
  moreover have "r\<lparr>cr_permits := cr_permits r, cr_udpInUse := cr_udpInUse r, cr_registered := v\<rparr> = r\<lparr>cr_registered := v\<rparr>" for v by (cases r) simp
  ultimately have "reg_ok {} {(sid, g)} {} ?m" by simp
  from reg_ok_cleanup [OF this, of sid] have 1: "reg_ok {} {} {} ?r" by (rule reg_ok_mono) auto
  have "owned ?r j = owned r j" for j by (simp add: owned_def row_unowned_def [abs_def])
  then have "permit_ok H ?r" using i(3) use_ok_cong [of ?r r] by (auto simp: permit_ok_def)
  moreover have "queue_ok ?r" using i(2) terminal_cap_cong [of ?r r] by (simp add: queue_ok_def term_ok_def row_term_def [abs_def])
  moreover have "sel_ok ?r" "limits_ok ?r" using i(4,5) by (simp_all add: sel_ok_def limits_ok_def)
  ultimately show ?thesis using 1 assms by (simp add: Inv_def unregisterSessionGeneration_def)
qed

lemma sel_entry_writers:
  assumes "map sr_writer rs' = map sr_writer rs"
  shows "sel_entry rs' e = sel_entry rs e"
proof -
  have "length rs' = length rs" using assms map_eq_imp_length_eq by blast
  moreover have "i < length rs \<Longrightarrow> sr_writer (rs' ! i) = sr_writer (rs ! i)" for i using assms calculation by (metis nth_map)
  ultimately have "result_of rs' = result_of rs" by (auto simp: result_of_def fun_eq_iff)
  then show ?thesis by (simp add: sel_entry_def cong: option.case_cong)
qed

lemma commit_writers: "map sr_writer (rs[i := (rs ! i)\<lparr>sr_committed := True\<rparr>]) = map sr_writer rs"
  by (cases "i < length rs") (auto simp: list_eq_iff_nth_eq nth_list_update)

lemma setupResult_commit_ok:
  assumes "Inv H r"
  shows "Inv H (snd (setupResult_commit i code r))"
proof -
  have "Inv H (r\<lparr>cr_results := rs\<rparr>)" if "map sr_writer rs = map sr_writer (cr_results r)" for rs
    using assms sel_entry_writers [OF that] by (simp add: Inv_def sel_ok_def limits_ok_def)
  from this [OF commit_writers [of "cr_results r" i]] show ?thesis using assms by (simp add: setupResult_commit_def Let_def)
qed

lemma queue_ok_aborts [simp]: "queue_ok (r\<lparr>cr_aborts := v\<rparr>) = queue_ok r" "queue_ok (r\<lparr>cr_closing := v'\<rparr>) = queue_ok r"
  by (simp_all add: queue_ok_def term_ok_def row_term_def [abs_def] terminal_cap_def)

lemma permit_ok_aborts [simp]: "permit_ok H (r\<lparr>cr_aborts := v\<rparr>) = permit_ok H r" "permit_ok H (r\<lparr>cr_closing := v'\<rparr>) = permit_ok H r"
  using use_ok_cong [of "r\<lparr>cr_aborts := v\<rparr>" r] use_ok_cong [of "r\<lparr>cr_closing := v'\<rparr>" r]
  by (simp_all add: permit_ok_def owned_def row_unowned_def [abs_def])

lemma Inv_aborts: "Inv H (r\<lparr>cr_aborts := v\<rparr>) = Inv H r" "Inv H (r\<lparr>cr_closing := v'\<rparr>) = Inv H r"
  by (simp_all add: Inv_def sel_ok_def limits_ok_def)

lemma abort_Close_ok:
  assumes "Inv H r"
  shows "op_ok H r [] (abort_Close a cause r)"
proof -
  have "op_ok H r [] (case f of Some p \<Rightarrow> CancelFlow p cause # closeClaimedFlow (ce_active (cr_heap r p)) cause | None \<Rightarrow> close_all cs cause,
      r\<lparr>cr_aborts := (cr_aborts r)[a := ab]\<rparr>)" for f cs ab
    using assms by (auto simp: op_ok_def Inv_aborts act_ok_def split: option.split)
  then show ?thesis using op_ok_refl [OF assms] by (simp add: abort_Close_def Let_def)
qed

end
