(* ===== verification/Claim_Sessions.thy ===== *)
theory Claim_Sessions
  imports Claim_Reject
begin

section \<open>nw2 server: replacing sessions keeps the invariant\<close>

text \<open>
  \<^verbatim>\<open>BeginSessionRegistration\<close> and \<^verbatim>\<open>ReplaceSession\<close>: a session gets a new generation, and the entries
  of its older generations leave the table one by one.
\<close>

subsection \<open>Walking over the table\<close>

text \<open>What the rest of a loop over the entries still has to visit.\<close>

definition listed :: "(claimKey \<times> nat) list \<Rightarrow> claimRegistry \<Rightarrow> bool" where
  "listed es r \<longleftrightarrow> distinct (map fst es) \<and> (\<forall>x \<in> set es. map_of (cr_entries r) (fst x) = Some (snd x))"

lemma listedD: "listed ((k, p) # es) r \<Longrightarrow> map_of (cr_entries r) k = Some p"
  by (simp add: listed_def)

lemma listed_skip: "listed (x # es) r \<Longrightarrow> cr_entries r' = cr_entries r \<Longrightarrow> listed es r'"
  by (simp add: listed_def)

lemma listed_delete: "listed ((k, p) # es) r \<Longrightarrow> cr_entries r' = AList.delete k (cr_entries r) \<Longrightarrow> listed es r'"
  by (force simp: listed_def al_lookup)

lemma listed_all: "reg_ok X S P r \<Longrightarrow> listed (cr_entries r) r"
  using keyed_distinct [OF reg_okD(1), of X S P r] by (simp add: listed_def)

text \<open>The objects that actions refer to.\<close>

definition same_refs :: "claimRegistry \<Rightarrow> claimRegistry \<Rightarrow> bool" where
  "same_refs r r' \<longleftrightarrow>
     cr_results r' = cr_results r \<and> cr_permits r' = cr_permits r \<and> cr_fresh r' = cr_fresh r"

lemma act_ok_refs: "same_refs r r' \<Longrightarrow> act_ok r' = act_ok r"
  by (auto simp: fun_eq_iff act_ok_def same_refs_def split: claim_action.splits)

lemma same_refs_trans: "same_refs r r' \<Longrightarrow> same_refs r' r'' \<Longrightarrow> same_refs r r''"
  by (simp add: same_refs_def)

lemma same_refs_refl [simp]: "same_refs r r"
  by (simp add: same_refs_def)

text \<open>The invariant of such a loop, but for the queue.\<close>

definition core_ok :: "byte list set \<Rightarrow> sessionGeneration set \<Rightarrow> nat set \<Rightarrow> claimRegistry \<Rightarrow> bool" where
  "core_ok X S H r \<longleftrightarrow> reg_ok X S {} r \<and> permit_ok H r \<and> sel_ok r \<and> limits_ok r"

lemma core_ok_Inv: "Inv H r \<Longrightarrow> core_ok {} {} H r"
  by (simp add: Inv_def core_ok_def)

lemma core_refs:
  assumes "core_ok X S H r" "p < cr_fresh r"
  shows "set_option (ce_selected (cr_heap r p)) \<subseteq> {..<length (cr_results r)}"
    "set_option (ce_permit (cr_heap r p)) \<subseteq> {..<length (cr_permits r)}"
  using selected_index [of r p] permit_index [of H r p] assms by (auto simp: core_ok_def split: option.splits)

lemma core_table: "core_ok X S H r \<Longrightarrow> map_of (cr_entries r) k = Some p \<Longrightarrow> p < cr_fresh r \<and> ce_key (cr_heap r p) = k"
  using is_current_table [OF reg_okD(1), of X S "{}" r k p] by (simp add: core_ok_def)

lemma sel_entry_failed: "sel_entry rs ((failed_entry cause e)\<lparr>ce_done := b, ce_permit := q\<rparr>) = sel_entry rs e"
  by (simp add: sel_entry_def failed_entry_def cong: option.case_cong)

text \<open>The three ways an entry leaves the table in a loop.\<close>

definition removed :: "claimKey \<Rightarrow> nat \<Rightarrow> claimRegistry \<Rightarrow> claimRegistry \<Rightarrow> bool" where
  "removed k p r r' \<longleftrightarrow>
     cr_entries r' = AList.delete k (cr_entries r) \<and> (\<forall>q. q \<noteq> p \<longrightarrow> cr_heap r' q = cr_heap r q) \<and>
     cr_terminalOrder r' = cr_terminalOrder r \<and> cr_terminalLimit r' = cr_terminalLimit r \<and> cr_accepting r' = cr_accepting r \<and>
     cr_closed r' = cr_closed r \<and> cr_aborts r' = cr_aborts r \<and> same_refs r r'"

lemma fail_removed:
  assumes "core_ok X S H r" "map_of (cr_entries r) k = Some p" "ce_state (cr_heap r p) = claimPending"
  obtains r' where
    "failPendingLocked now p cause False r = Ret ((entryClaims (cr_heap r p), ce_selected (cr_heap r p), ce_permit (cr_heap r p)), r')"
    "core_ok X S (H \<union> set_option (ce_permit (cr_heap r p))) r'" "removed k p r r'"
    "\<And>sid. get0 (cr_generations r') sid =
       (if sid = fst k \<and> \<not> hasGenerationStateLocked r' (sid, get0 (cr_generations r) sid) then 0 else get0 (cr_generations r) sid)"
proof -
  have c: "reg_ok X S {} r" "permit_ok H r" "sel_ok r" "limits_ok r" using assms(1) by (simp_all add: core_ok_def)
  obtain r' where r': "failPendingLocked now p cause False r =
        Ret ((entryClaims (cr_heap r p), ce_selected (cr_heap r p), ce_permit (cr_heap r p)), r')"
      "reg_ok X S {} r'" "permit_ok (H \<union> set_option (ce_permit (cr_heap r p))) r'" "same_but p r r'"
      "cr_heap r' p = (failed_entry cause (cr_heap r p))\<lparr>ce_done := True, ce_permit := None\<rparr>"
      "cr_entries r' = AList.delete k (cr_entries r)" "cr_terminalOrder r' = cr_terminalOrder r"
      "\<And>sid. get0 (cr_generations r') sid =
         (if sid = fst k \<and> \<not> hasGenerationStateLocked r' (sid, get0 (cr_generations r) sid) then 0 else get0 (cr_generations r) sid)"
    by (rule failPending_drop [OF c(1) assms(2,3) c(2), where now = now and cause = cause]) blast
  have p: "p < cr_fresh r" using core_table [OF assms(1,2)] by simp
  have "sel_entry (cr_results r) (cr_heap r' p)" using c(3) p by (simp add: r'(5) sel_entry_failed sel_ok_def)
  then have "sel_ok r'" by (rule sel_ok_same_but [OF c(3) r'(4)])
  moreover have "limits_ok r'" using c(4) r'(4) by (simp add: limits_ok_def same_but_def)
  ultimately have "core_ok X S (H \<union> set_option (ce_permit (cr_heap r p))) r'" using r'(2,3) by (simp add: core_ok_def)
  moreover have "removed k p r r'" using r'(4,6,7) by (simp add: removed_def same_but_def same_refs_def)
  ultimately show thesis using that r'(1,8) by blast
qed

lemma detach_removed:
  assumes "core_ok X S H r" "map_of (cr_entries r) k = Some p" "ce_state (cr_heap r p) \<noteq> claimPending" "(fst k, ce_generation (cr_heap r p)) \<in> S"
  shows "core_ok X S (H \<union> set_option (ce_permit (cr_heap r p)))
      (set_entry p (\<lambda>e. e\<lparr>ce_permit := None\<rparr>) (r\<lparr>cr_entries := AList.delete k (cr_entries r)\<rparr>))"
    "removed k p r (set_entry p (\<lambda>e. e\<lparr>ce_permit := None\<rparr>) (r\<lparr>cr_entries := AList.delete k (cr_entries r)\<rparr>))"
proof -
  let ?r = "set_entry p (\<lambda>e. e\<lparr>ce_permit := None\<rparr>) (r\<lparr>cr_entries := AList.delete k (cr_entries r)\<rparr>)"
  have c: "reg_ok X S {} r" "permit_ok H r" "sel_ok r" "limits_ok r" using assms(1) by (simp_all add: core_ok_def)
  have p: "p < cr_fresh r" using core_table [OF assms(1,2)] by simp
  have sh: "entry_shape (cr_heap r p)" using reg_okD(5) [OF c(1) p] by (simp add: claim_entry_ok_def)
  have "reg_ok X S {} (r\<lparr>cr_entries := AList.delete k (cr_entries r)\<rparr>)"
    using reg_ok_delete [OF c(1) assms(2,3)] assms(4) by (simp add: insert_absorb)
  then have "reg_ok X S {p} (r\<lparr>cr_entries := AList.delete k (cr_entries r)\<rparr>)" by (rule reg_ok_mono) auto
  then have "reg_ok X S {} ?r"
    by (rule reg_ok_set) (use assms(3) p sh in \<open>auto simp: entry_shape_def flow_shape_def half_ok_def split: claimEntryState.splits option.splits\<close>)
  moreover have "permit_ok (H \<union> set_option (ce_permit (cr_heap r p))) ?r"
  proof (rule permit_ok_drop_hold [OF c(2) reg_okD(1) [OF c(1)]])
    fix k' q assume q: "map_of (cr_entries r) k' = Some q" "q \<noteq> p"
    then have "k' \<noteq> k" using assms(2) by auto
    then show "map_of (cr_entries ?r) k' = Some q \<or> ce_permit (cr_heap r q) = None" using q(1) by (simp add: al_lookup)
  qed simp_all
  moreover have "sel_ok ?r" "limits_ok ?r" using c(3,4) by (simp_all add: sel_ok_def sel_entry_permit limits_ok_def)
  ultimately show "core_ok X S (H \<union> set_option (ce_permit (cr_heap r p))) ?r" by (simp add: core_ok_def)
  show "removed k p r ?r" by (simp add: removed_def same_refs_def)
qed

lemma terminal_removed:
  assumes "core_ok X S H r" "map_of (cr_entries r) k = Some p" "ce_state (cr_heap r p) = claimTerminal" "(fst k, ce_generation (cr_heap r p)) \<in> S"
  shows "core_ok X S H (r\<lparr>cr_entries := AList.delete k (cr_entries r)\<rparr>)"
    "removed k p r (r\<lparr>cr_entries := AList.delete k (cr_entries r)\<rparr>)"
proof -
  let ?r = "r\<lparr>cr_entries := AList.delete k (cr_entries r)\<rparr>"
  have c: "reg_ok X S {} r" "permit_ok H r" "sel_ok r" "limits_ok r" using assms(1) by (simp_all add: core_ok_def)
  have none: "ce_permit (cr_heap r p) = None" using terminal_no_permit [OF c(1) assms(2,3)] by simp
  then have "set_entry p (\<lambda>e. e\<lparr>ce_permit := None\<rparr>) ?r = ?r" by (cases r) (auto simp: set_entry_def fun_eq_iff)
  then show "core_ok X S H ?r" using detach_removed(1) [OF assms(1,2) _ assms(4)] assms(3) none by simp
  show "removed k p r ?r" by (simp add: removed_def same_refs_def)
qed

lemma removed_row:
  assumes "removed k p r r'" "core_ok X S H r" "map_of (cr_entries r) k = Some p" "map_of (cr_entries r') k' = Some q"
  shows "map_of (cr_entries r) k' = Some q" "k' \<noteq> k" "q \<noteq> p" "cr_heap r' q = cr_heap r q"
proof -
  show 1: "map_of (cr_entries r) k' = Some q" "k' \<noteq> k" using assms(1,4) by (auto simp: removed_def al_lookup split: if_splits)
  then show 2: "q \<noteq> p" using core_table [OF assms(2,3)] core_table [OF assms(2) 1(1)] by auto
  then show "cr_heap r' q = cr_heap r q" using assms(1) by (simp add: removed_def)
qed

lemma removed_queue:
  assumes "removed k p r r'" "core_ok X S H r" "map_of (cr_entries r) k = Some p" "queue_ok r"
  shows "queue_ok r'"
proof -
  have "all_rows (row_term (cr_terminalOrder r) r') (cr_entries r')"
  proof (rule all_rowsI)
    fix k' q assume q: "map_of (cr_entries r') k' = Some q"
    have "row_term (cr_terminalOrder r) r k' q"
      using removed_row(1) [OF assms(1,2,3) q] assms(4) unfolding queue_ok_def term_ok_def by (blast dest: all_rowsD)
    then show "row_term (cr_terminalOrder r) r' k' q" using removed_row(4) [OF assms(1,2,3) q] by (simp add: row_term_def)
  qed
  moreover have "cr_terminalOrder r' = cr_terminalOrder r" "terminal_cap r' = terminal_cap r"
    using assms(1) by (simp_all add: removed_def terminal_cap_def)
  ultimately show ?thesis using assms(4) by (simp add: queue_ok_def term_ok_def)
qed

subsection \<open>Detaching the entries of older generations\<close>

definition row_todo :: "byte list \<Rightarrow> u64 \<Rightarrow> (claimKey \<times> nat) list \<Rightarrow> claimRegistry \<Rightarrow> claimKey \<Rightarrow> nat \<Rightarrow> bool" where
  "row_todo sid g es r k p \<longleftrightarrow> fst k \<noteq> sid \<or> k \<in> fst ` set es \<or> ce_generation (cr_heap r p) = g"

text \<open>
  Cleaning up may take away the new generation itself, when nothing holds it; but not if one of the entries
  that stay belongs to it.
\<close>

definition detaching :: "byte list \<Rightarrow> u64 \<Rightarrow> nat set \<Rightarrow> (claimKey \<times> nat) list \<Rightarrow> claimRegistry \<Rightarrow> bool" where
  "detaching sid g H es r \<longleftrightarrow>
     core_ok {sid} {h. fst h = sid} H r \<and> queue_ok r \<and> listed es r \<and> all_rows (row_todo sid g es r) (cr_entries r) \<and>
     (get0 (cr_generations r) sid = g \<or> \<not> holds_generation r (sid, g))"

lemma detaching_skip:
  assumes "detaching sid g H ((k, p) # es) r" "fst k \<noteq> sid \<or> ce_generation (cr_heap r p) = g"
  shows "detaching sid g H es r"
proof -
  have l: "listed ((k, p) # es) r" using assms(1) by (simp add: detaching_def)
  have "all_rows (row_todo sid g ((k, p) # es) r) (cr_entries r)" using assms(1) by (simp add: detaching_def)
  then have "all_rows (row_todo sid g es r) (cr_entries r)"
    by (rule all_rows_mono) (use assms(2) listedD [OF l] in \<open>auto simp: row_todo_def\<close>)
  then show ?thesis using assms(1) listed_skip [OF l] by (simp add: detaching_def)
qed

lemma detaching_step:
  assumes "detaching sid g H ((k, p) # es) r" "removed k p r r'" "core_ok {sid} {h. fst h = sid} H' r'"
    "get0 (cr_generations r') sid = get0 (cr_generations r) sid \<or> \<not> hasGenerationStateLocked r' (sid, get0 (cr_generations r) sid)"
  shows "detaching sid g H' es r'"
proof -
  have d: "core_ok {sid} {h. fst h = sid} H r" "queue_ok r" "listed ((k, p) # es) r"
      "all_rows (row_todo sid g ((k, p) # es) r) (cr_entries r)"
      "get0 (cr_generations r) sid = g \<or> \<not> holds_generation r (sid, g)"
    using assms(1) by (simp_all add: detaching_def)
  note row = removed_row [OF assms(2) d(1) listedD [OF d(3)]]
  have "all_rows (row_todo sid g es r') (cr_entries r')"
  proof (rule all_rowsI)
    fix k' q assume q: "map_of (cr_entries r') k' = Some q"
    show "row_todo sid g es r' k' q" using all_rowsD [OF d(4) row(1) [OF q]] row(2,4) [OF q] by (auto simp: row_todo_def)
  qed
  moreover have "\<not> holds_generation r (sid, g) \<Longrightarrow> \<not> holds_generation r' (sid, g)"
  proof -
    assume "\<not> holds_generation r (sid, g)"
    then have n: "all_rows (row_not (sid, g) r) (cr_entries r)" by (simp add: holds_generation_def)
    have "all_rows (row_not (sid, g) r') (cr_entries r')"
    proof (rule all_rowsI)
      fix k' q assume q: "map_of (cr_entries r') k' = Some q"
      show "row_not (sid, g) r' k' q" using all_rowsD [OF n row(1) [OF q]] row(4) [OF q] by (simp add: row_not_def)
    qed
    then show "\<not> holds_generation r' (sid, g)" by (simp add: holds_generation_def)
  qed
  moreover have "\<not> hasGenerationStateLocked r' h \<Longrightarrow> \<not> holds_generation r' h" for h
    using assms(3) hasGeneration_iff [OF reg_okD(1), of "{sid}" "{h. fst h = sid}" "{}" r' h] by (simp add: core_ok_def)
  ultimately show ?thesis
    using assms(3,4) d(5) removed_queue [OF assms(2) d(1) listedD [OF d(3)] d(2)] listed_delete [OF d(3)] assms(2)
    unfolding detaching_def by (auto simp: removed_def)
qed

lemma cleanup_acts:
  "held_by (cleanup_pending cause (claims, selected, permit)) = set_option permit"
  "list_all (act_ok r) (cleanup_pending cause (claims, selected, permit)) \<longleftrightarrow>
     set_option selected \<subseteq> {..<length (cr_results r)} \<and> set_option permit \<subseteq> {..<length (cr_permits r)}"
  "held_by (cleanup_active cause (p, flow, permit)) = set_option permit"
  "p < cr_fresh r \<Longrightarrow> list_all (act_ok r) (cleanup_active cause (p, flow, permit)) \<longleftrightarrow> set_option permit \<subseteq> {..<length (cr_permits r)}"
  by (auto simp: cleanup_pending_def cleanup_active_def act_ok_def split: option.splits)

definition detached :: "byte list \<Rightarrow> u64 \<Rightarrow> nat set \<Rightarrow> claimRegistry \<Rightarrow> claim_action list \<times> claim_action list \<times> claimRegistry \<Rightarrow> bool" where
  "detached sid g H r x =
     (case x of (pend, act, r') \<Rightarrow>
        detaching sid g (H \<union> held_by pend \<union> held_by act) [] r' \<and> list_all (act_ok r) pend \<and> list_all (act_ok r) act \<and>
        same_refs r r' \<and> cr_aborts r' = cr_aborts r)"

lemma detached_step:
  assumes "removed k p r r'" "detached sid g (H \<union> held_by a \<union> held_by b) r' (pend, act, r'')" "list_all (act_ok r) a" "list_all (act_ok r) b"
  shows "detached sid g H r (a @ pend, b @ act, r'')"
proof -
  have "same_refs r r'" "cr_aborts r' = cr_aborts r" using assms(1) by (simp_all add: removed_def)
  moreover have "H \<union> held_by (a @ pend) \<union> held_by (b @ act) = H \<union> held_by a \<union> held_by b \<union> held_by pend \<union> held_by act" by auto
  ultimately show ?thesis using assms(2-4) by (simp add: detached_def act_ok_refs same_refs_trans [of r r'])
qed

lemma detach_loop_ok:
  "detaching sid g H es r \<Longrightarrow> yields G (detached sid g H r) (detach_loop now sid g cause es r)"
proof (induction es arbitrary: H r)
  case Nil
  then show ?case by (simp add: detached_def)
next
  case (Cons x es)
  obtain k p where x: "x = (k, p)" by (cases x)
  have d: "detaching sid g H ((k, p) # es) r" using Cons.prems x by simp
  have c: "core_ok {sid} {h. fst h = sid} H r" "map_of (cr_entries r) k = Some p"
    using d listedD [of k p es r] by (simp_all add: detaching_def)
  have p: "p < cr_fresh r" using core_table [OF c] by simp
  note refs = core_refs [OF c(1) p]
  show ?case
  proof (cases "fst k \<noteq> sid \<or> ce_generation (cr_heap r p) = g")
    case True
    then show ?thesis using Cons.IH [OF detaching_skip [OF d True]] by (simp add: x)
  next
    case False
    then have s: "(fst k, ce_generation (cr_heap r p)) \<in> {h. fst h = sid}" by simp
    show ?thesis
    proof (cases "ce_state (cr_heap r p)")
      case claimPending
      obtain r' where r': "failPendingLocked now p cause False r =
            Ret ((entryClaims (cr_heap r p), ce_selected (cr_heap r p), ce_permit (cr_heap r p)), r')"
          "core_ok {sid} {h. fst h = sid} (H \<union> set_option (ce_permit (cr_heap r p))) r'" "removed k p r r'"
          "\<And>s. get0 (cr_generations r') s =
             (if s = fst k \<and> \<not> hasGenerationStateLocked r' (s, get0 (cr_generations r) s) then 0 else get0 (cr_generations r) s)"
        by (rule fail_removed [OF c claimPending, where now = now and cause = cause]) blast
      have "detaching sid g (H \<union> set_option (ce_permit (cr_heap r p))) es r'"
        by (rule detaching_step [OF d r'(3,2)]) (auto simp: r'(4))
      from Cons.IH [OF this] show ?thesis
        using False claimPending r'(1) refs detached_step [OF r'(3), of sid g H "cleanup_pending cause _" "[]"]
        by (auto simp: x cleanup_acts elim!: yields_mono)
    next
      case claimActive
      let ?r = "set_entry p (\<lambda>e. e\<lparr>ce_permit := None\<rparr>) (r\<lparr>cr_entries := AList.delete k (cr_entries r)\<rparr>)"
      have r': "core_ok {sid} {h. fst h = sid} (H \<union> set_option (ce_permit (cr_heap r p))) ?r" "removed k p r ?r"
        using detach_removed [OF c _ s] claimActive by simp_all
      have "detaching sid g (H \<union> set_option (ce_permit (cr_heap r p))) es ?r"
        by (rule detaching_step [OF d r'(2,1)]) simp
      from Cons.IH [OF this] show ?thesis
        using False claimActive refs p detached_step [OF r'(2), of sid g H "[]" "cleanup_active cause _"]
        by (auto simp: x cleanup_acts Let_def elim!: yields_mono)
    next
      case claimTerminal
      let ?r = "r\<lparr>cr_entries := AList.delete k (cr_entries r)\<rparr>"
      have r': "core_ok {sid} {h. fst h = sid} H ?r" "removed k p r ?r" using terminal_removed [OF c claimTerminal s] by simp_all
      have "detaching sid g H es ?r" by (rule detaching_step [OF d r'(2,1)]) simp
      from Cons.IH [OF this] show ?thesis
        using False claimTerminal detached_step [OF r'(2), of sid g H "[]" "[]"] by (auto simp: x elim!: yields_mono)
    qed
  qed
qed

lemma detaching_done:
  assumes "detaching sid g H [] r" "g \<noteq> 0"
  shows "Inv H (maybeCleanupGenerationLocked sid r)"
proof -
  have d: "reg_ok {sid} {h. fst h = sid} {} r" "permit_ok H r" "sel_ok r" "limits_ok r" "queue_ok r"
      "all_rows (row_todo sid g [] r) (cr_entries r)" "get0 (cr_generations r) sid = g \<or> \<not> holds_generation r (sid, g)"
    using assms(1) by (simp_all add: detaching_def core_ok_def)
  have "all_rows (row_gen {} r) (cr_entries r)"
  proof (rule all_rowsI)
    fix k p assume p: "map_of (cr_entries r) k = Some p"
    have "row_gen {sid} r k p" using reg_okD(2) [OF d(1)] p unfolding gens_ok_def by (blast dest: all_rowsD)
    moreover have "get0 (cr_generations r) sid = g" if "fst k = sid" "ce_generation (cr_heap r p) = g"
    proof -
      have "\<not> row_not (sid, g) r k p" using that by (simp add: row_not_def)
      then have "holds_generation r (sid, g)" using p unfolding holds_generation_def by (blast dest: all_rowsD)
      then show ?thesis using d(7) by blast
    qed
    ultimately show "row_gen {} r k p" using all_rowsD [OF d(6) p] assms(2) by (auto simp: row_gen_def row_todo_def)
  qed
  then have "reg_ok {} {h. fst h = sid} {} r" using d(1) by (simp add: reg_ok_def gens_ok_def)
  from reg_ok_cleanup [OF this, of sid] have "reg_ok {} {} {} (maybeCleanupGenerationLocked sid r)" by (rule reg_ok_mono) auto
  moreover have "queue_ok (maybeCleanupGenerationLocked sid r)" by (rule queue_ok_heap [OF d(5)]) simp_all
  moreover have "permit_ok H (maybeCleanupGenerationLocked sid r)" by (rule permit_ok_heap [OF d(2)]) simp_all
  ultimately show ?thesis using d(3,4) by (simp add: Inv_def sel_ok_def limits_ok_def)
qed

lemma detachSession_ok:
  assumes "detaching sid g H (cr_entries r) r" "g \<noteq> 0"
  shows "yields G (op_ok H r []) (detachSessionLocked now sid g cause r)"
proof -
  have "op_ok H r [] (pend @ act, maybeCleanupGenerationLocked sid r')" if "detached sid g H r (pend, act, r')" for pend act r'
  proof -
    have t: "detaching sid g (H \<union> held_by pend \<union> held_by act) [] r'" "list_all (act_ok r) pend" "list_all (act_ok r) act" "same_refs r r'"
        "cr_aborts r' = cr_aborts r"
      using that by (simp_all add: detached_def)
    have "same_refs r (maybeCleanupGenerationLocked sid r')" using t(4) by (simp add: same_refs_def)
    then have "act_ok (maybeCleanupGenerationLocked sid r') = act_ok r" by (rule act_ok_refs)
    then show ?thesis using detaching_done [OF t(1) assms(2)] t(2-5) by (simp add: op_ok_def same_refs_def Un_assoc)
  qed
  then show ?thesis using detach_loop_ok [OF assms(1), of G now cause] by (auto simp: detachSessionLocked_def elim!: yields_mono)
qed

text \<open>The registry in which a session has just got the generation \<open>g\<close> of a carrier.\<close>

lemma detaching_start:
  assumes "Inv H r" "g \<le> n" "cr_nextGeneration r \<le> n" "\<And>h. fst h \<noteq> sid \<Longrightarrow> get0 v h = get0 (cr_registered r) h"
  shows "detaching sid g H (cr_entries r) ((with_generation sid g n w r)\<lparr>cr_registered := v\<rparr>)" (is "detaching _ _ _ _ ?r")
proof -
  have i: "reg_ok {} {} {} r" "queue_ok r" "permit_ok H r" "sel_ok r" "limits_ok r" using assms(1) by (simp_all add: Inv_def)
  let ?m = "with_generation sid g n w r" and ?S = "{h. fst h = sid}"
  have m: "reg_ok {sid} {(sid, g)} {} ?m" by (rule with_generation_ok [OF i(1) assms(2,3)]) simp_all
  note d = reg_okD [OF m]
  have "hasGenerationStateLocked ?r h = hasGenerationStateLocked ?m h" if "fst h \<noteq> sid" for h
    using assms(4) [OF that] by (simp add: hasGenerationStateLocked_def)
  then have "no_leak ?S ?r" if "no_leak {(sid, g)} ?m" using that unfolding no_leak_def by auto
  moreover have "gens_ok {sid} ?r" using d(2) by (simp add: gens_ok_def row_gen_def [abs_def])
  ultimately have 1: "reg_ok {sid} ?S {} ?r" using d counts_cong [of ?r ?m] claim_entry_ok_cong [of ?r _ ?m] unfolding reg_ok_def by simp
  have 2: "permit_ok H ?r" by (rule permit_ok_heap [OF i(3)]) simp_all
  have 3: "queue_ok ?r" by (rule queue_ok_heap [OF i(2)]) simp_all
  have "row_todo sid g (cr_entries r) ?r k p" if "map_of (cr_entries r) k = Some p" for k p
    using map_of_SomeD [OF that] by (force simp: row_todo_def)
  then have "all_rows (row_todo sid g (cr_entries r) ?r) (cr_entries r)" by (rule all_rowsI)
  then show ?thesis using 1 2 3 i(4,5) listed_all [OF 1]
    by (simp add: detaching_def core_ok_def sel_ok_def limits_ok_def get0_update)
qed

lemma op_ok_refs: "op_ok H r' ss x \<Longrightarrow> same_refs r r' \<Longrightarrow> cr_aborts r' = cr_aborts r \<Longrightarrow> op_ok H r ss x"
  by (cases x) (simp add: op_ok_def same_refs_def)

lemma replace_ok:
  assumes "Inv H r" "g \<le> n" "cr_nextGeneration r \<le> n" "g \<noteq> 0" "\<And>h. fst h \<noteq> sid \<Longrightarrow> get0 v h = get0 (cr_registered r) h"
  shows "yields G (op_ok H r []) (detachSessionLocked now sid g cause ((with_generation sid g n w r)\<lparr>cr_registered := v\<rparr>))"
proof -
  let ?r = "(with_generation sid g n w r)\<lparr>cr_registered := v\<rparr>"
  have "detaching sid g H (cr_entries ?r) ?r" using detaching_start [OF assms(1-3,5)] by simp
  from detachSession_ok [OF this assms(4)] show ?thesis
    by (rule yields_mono) (auto elim!: op_ok_refs simp: same_refs_def)
qed

lemma new_generation_ne: "\<not> exhausted r \<Longrightarrow> cr_nextGeneration r + 1 \<noteq> 0"
  by (auto simp: exhausted_def eq_neg_iff_add_eq_0)

lemma beginSessionRegistration_ok:
  assumes "Inv H r"
  shows "yields (exhausted r) (\<lambda>(g, x). op_ok H r [] x) (beginSessionRegistration now sid replacing cause r)"
proof -
  let ?v = "\<lambda>g. AList.update (sid, g) (get0 (cr_registered r) (sid, g) + 1) (cr_registered r)"
  let ?c = "markForcedTermination cause" and ?g = "get0 (cr_generations r) sid" and ?n = "cr_nextGeneration r"
  have v: "get0 (?v g) h = get0 (cr_registered r) h" if "fst h \<noteq> sid" for g h using that by (auto simp: get0_update)
  have go: "yields G (op_ok H r []) (detachSessionLocked now sid g ?c
      (r\<lparr>cr_nextGeneration := n, cr_generations := AList.update sid g (cr_generations r),
         cr_provenance := AList.update (sid, g) generationPhysical (cr_provenance r), cr_registered := ?v g\<rparr>))"
    if "g \<le> n" "?n \<le> n" "g \<noteq> 0" for g n G
    using replace_ok [OF assms that v [where g = g], where G = G and now = now and cause = ?c and w = generationPhysical] by (simp add: with_generation_def)
  have "?g \<le> ?n" using assms by (simp add: Inv_def reg_ok_def gens_ok_def)
  moreover have "r\<lparr>cr_nextGeneration := ?n, cr_generations := a, cr_provenance := b, cr_registered := c\<rparr> =
      r\<lparr>cr_generations := a, cr_provenance := b, cr_registered := c\<rparr>" for a b c by (cases r) simp
  ultimately have adopt: "?g \<noteq> 0 \<Longrightarrow> yields (exhausted r) (op_ok H r []) (detachSessionLocked now sid ?g ?c
      (r\<lparr>cr_generations := AList.update sid ?g (cr_generations r),
         cr_provenance := AList.update (sid, ?g) generationPhysical (cr_provenance r), cr_registered := ?v ?g\<rparr>))"
    using go [of ?g ?n] by simp
  have new: "\<not> exhausted r \<Longrightarrow> yields (exhausted r) (op_ok H r []) (detachSessionLocked now sid (?n + 1) ?c
      (r\<lparr>cr_nextGeneration := ?n + 1, cr_generations := AList.update sid (?n + 1) (cr_generations r),
         cr_provenance := AList.update (sid, ?n + 1) generationPhysical (cr_provenance r), cr_registered := ?v (?n + 1)\<rparr>))"
    using go [of "?n + 1" "?n + 1"] new_generation_ne [of r] next_less [of ?n] by simp
  show ?thesis unfolding beginSessionRegistration_def Let_def nextGeneration_cases
    using adopt new by (auto elim!: yields_mono)
qed

lemma ReplaceSession_ok:
  assumes "Inv H r"
  shows "yields (exhausted r) (op_ok H r []) (ReplaceSession now sid g cause r)"
proof -
  let ?h = "if g = 0 then cr_nextGeneration r + 1 else g"
  have "yields (exhausted r) (op_ok H r []) (detachSessionLocked now sid ?h (markForcedTermination cause)
      ((with_generation sid ?h (max ?h (cr_nextGeneration r)) generationPhysical r)\<lparr>cr_registered := cr_registered r\<rparr>))"
    if "\<not> (g = 0 \<and> exhausted r)"
    by (rule replace_ok [OF assms]) (use that new_generation_ne [of r] in auto)
  moreover have "(with_generation sid h m w r)\<lparr>cr_registered := cr_registered r\<rparr> = with_generation sid h m w r" for h m w
    by (cases r) (simp add: with_generation_def)
  ultimately show ?thesis
    by (auto simp: ReplaceSession_def new_generation_cases Let_def with_generation_def)
qed

end
