(* ===== verification/Claim_Close.thy ===== *)
theory Claim_Close
  imports Claim_Sessions
begin

section \<open>nw2 server: draining and closing keep the invariant\<close>

text \<open>\<^verbatim>\<open>BeginDrainContext\<close> and \<^verbatim>\<open>CloseContextCause\<close> of \<^verbatim>\<open>claim_registry.go\<close>: once admission has ended, a generation may stay without a holder.\<close>

subsection \<open>Draining\<close>

lemma reg_ok_stopped: "\<not> cr_accepting r \<Longrightarrow> reg_ok X S P r = reg_ok X S' P r"
  by (simp add: reg_ok_def)

lemma core_ok_stopped: "\<not> cr_accepting r \<Longrightarrow> core_ok X S H r = core_ok X S' H r"
  by (simp add: core_ok_def reg_ok_def)

lemma core_ok_accepting: "core_ok X S H r \<Longrightarrow> core_ok X S H (r\<lparr>cr_accepting := False\<rparr>)"
proof -
  assume c: "core_ok X S H r"
  let ?r = "r\<lparr>cr_accepting := False\<rparr>"
  have "gens_ok X ?r = gens_ok X r" by (simp add: gens_ok_def row_gen_def [abs_def])
  then have "reg_ok X S {} ?r" using c counts_cong [of ?r r] claim_entry_ok_cong [of ?r _ r] by (simp add: core_ok_def reg_ok_def)
  moreover have "permit_ok H ?r" by (rule permit_ok_heap [of H r]) (use c in \<open>simp_all add: core_ok_def\<close>)
  ultimately show ?thesis using c by (simp add: core_ok_def sel_ok_def limits_ok_def)
qed

definition row_drain :: "(claimKey \<times> nat) list \<Rightarrow> claimRegistry \<Rightarrow> claimKey \<Rightarrow> nat \<Rightarrow> bool" where
  "row_drain es r k p \<longleftrightarrow> ce_state (cr_heap r p) \<noteq> claimTerminal \<or> k \<in> fst ` set es"

definition draining :: "nat set \<Rightarrow> (claimKey \<times> nat) list \<Rightarrow> claimRegistry \<Rightarrow> bool" where
  "draining H es r \<longleftrightarrow> core_ok {} UNIV H r \<and> \<not> cr_accepting r \<and> listed es r \<and> all_rows (row_drain es r) (cr_entries r)"

lemma draining_skip:
  assumes "draining H ((k, p) # es) r" "ce_state (cr_heap r p) \<noteq> claimTerminal"
  shows "draining H es r"
proof -
  have l: "listed ((k, p) # es) r" using assms(1) by (simp add: draining_def)
  have "all_rows (row_drain ((k, p) # es) r) (cr_entries r)" using assms(1) by (simp add: draining_def)
  then have "all_rows (row_drain es r) (cr_entries r)"
    by (rule all_rows_mono) (use assms(2) listedD [OF l] in \<open>auto simp: row_drain_def\<close>)
  then show ?thesis using assms(1) listed_skip [OF l] by (simp add: draining_def)
qed

lemma draining_step:
  assumes "draining H ((k, p) # es) r" "removed k p r r'" "core_ok {} UNIV H' r'"
  shows "draining H' es r'"
proof -
  have d: "core_ok {} UNIV H r" "\<not> cr_accepting r" "listed ((k, p) # es) r" "all_rows (row_drain ((k, p) # es) r) (cr_entries r)"
    using assms(1) by (simp_all add: draining_def)
  note row = removed_row [OF assms(2) d(1) listedD [OF d(3)]]
  have "all_rows (row_drain es r') (cr_entries r')"
  proof (rule all_rowsI)
    fix k' q assume q: "map_of (cr_entries r') k' = Some q"
    show "row_drain es r' k' q" using all_rowsD [OF d(4) row(1) [OF q]] row(2,4) [OF q] by (auto simp: row_drain_def)
  qed
  moreover have "listed es r'" by (rule listed_delete [OF d(3)]) (use assms(2) in \<open>simp add: removed_def\<close>)
  ultimately show ?thesis using assms(2,3) d(2) by (simp add: draining_def removed_def)
qed

definition drained :: "nat set \<Rightarrow> claimRegistry \<Rightarrow> claim_action list \<times> claimRegistry \<Rightarrow> bool" where
  "drained H r x =
     (case x of (acts, r') \<Rightarrow>
        draining (H \<union> held_by acts) [] r' \<and> list_all (act_ok r) acts \<and> same_refs r r' \<and> cr_aborts r' = cr_aborts r)"

lemma drained_step:
  assumes "removed k p r r'" "drained (H \<union> held_by a) r' (acts, r'')" "list_all (act_ok r) a"
  shows "drained H r (a @ acts, r'')"
proof -
  have "same_refs r r'" "cr_aborts r' = cr_aborts r" using assms(1) by (simp_all add: removed_def)
  then show ?thesis using assms(2,3) by (simp add: drained_def act_ok_refs same_refs_trans [of r r'] Un_assoc)
qed

lemma drain_loop_ok: "draining H es r \<Longrightarrow> yields G (drained H r) (drain_loop now es r)"
proof (induction es arbitrary: H r)
  case Nil
  then show ?case by (simp add: drained_def)
next
  case (Cons x es)
  obtain k p where x: "x = (k, p)" by (cases x)
  have d: "draining H ((k, p) # es) r" using Cons.prems x by simp
  have c: "core_ok {} UNIV H r" "map_of (cr_entries r) k = Some p" using d listedD [of k p es r] by (simp_all add: draining_def)
  have p: "p < cr_fresh r" using core_table [OF c] by simp
  show ?case
  proof (cases "ce_state (cr_heap r p)")
    case claimPending
    obtain r' where r': "failPendingLocked now p ErrDraining False r =
          Ret ((entryClaims (cr_heap r p), ce_selected (cr_heap r p), ce_permit (cr_heap r p)), r')"
        "core_ok {} UNIV (H \<union> set_option (ce_permit (cr_heap r p))) r'" "removed k p r r'"
      by (rule fail_removed [OF c claimPending, where now = now and cause = ErrDraining]) blast
    let ?a = "reject_setup (ce_selected (cr_heap r p)) SetupResultFlowLimit @ close_all (entryClaims (cr_heap r p)) ErrDraining @
        release_permit (ce_permit (cr_heap r p))"
    have a: "list_all (act_ok r) ?a" "held_by ?a = set_option (ce_permit (cr_heap r p))" using core_refs [OF c(1) p] by simp_all
    from Cons.IH [OF draining_step [OF d r'(3,2)]] show ?thesis
      using claimPending r'(1) drained_step [OF r'(3), of H ?a] a by (auto simp: x elim!: yields_mono)
  next
    case claimActive
    then show ?thesis using Cons.IH [OF draining_skip [OF d]] by (simp add: x)
  next
    case claimTerminal
    have r': "core_ok {} UNIV H (r\<lparr>cr_entries := AList.delete k (cr_entries r)\<rparr>)"
        "removed k p r (r\<lparr>cr_entries := AList.delete k (cr_entries r)\<rparr>)"
      using terminal_removed [OF c claimTerminal] by simp_all
    from Cons.IH [OF draining_step [OF d r'(2,1)]] show ?thesis
      using claimTerminal drained_step [OF r'(2), of H "[]"] by (auto simp: x elim!: yields_mono)
  qed
qed

lemma draining_done:
  assumes "draining H [] r"
  shows "Inv H (r\<lparr>cr_terminalOrder := []\<rparr>)"
proof -
  let ?r = "r\<lparr>cr_terminalOrder := []\<rparr>"
  have d: "core_ok {} {} H r" "all_rows (row_drain [] r) (cr_entries r)"
    using assms core_ok_stopped [of r "{}" UNIV H "{}"] by (simp_all add: draining_def)
  have "row_drain [] r = row_term [] ?r" by (simp add: fun_eq_iff row_drain_def row_term_def)
  then have "queue_ok ?r" using d(2) by (simp add: queue_ok_def term_ok_def terminal_cap_def)
  moreover have "permit_ok H ?r" by (rule permit_ok_heap [of H r]) (use d(1) in \<open>simp_all add: core_ok_def\<close>)
  ultimately show ?thesis using d(1) by (simp add: Inv_def core_ok_def sel_ok_def limits_ok_def)
qed

lemma BeginDrain_ok:
  assumes "Inv H r"
  shows "yields G (op_ok H r []) (BeginDrainContext now r)"
proof -
  let ?r = "r\<lparr>cr_accepting := False\<rparr>"
  have c: "core_ok {} UNIV H ?r"
    using core_ok_accepting [OF core_ok_Inv [OF assms]] core_ok_stopped [of ?r "{}" "{}" H UNIV] by simp
  have "row_drain (cr_entries r) ?r k p" if "map_of (cr_entries r) k = Some p" for k p
    using map_of_SomeD [OF that] by (force simp: row_drain_def)
  then have "all_rows (row_drain (cr_entries r) ?r) (cr_entries ?r)" by (auto intro: all_rowsI)
  then have "draining H (cr_entries r) ?r" using c listed_all [of "{}" UNIV "{}" ?r] by (simp add: draining_def core_ok_def)
  from drain_loop_ok [OF this, of G now]
  have "yields G (\<lambda>(acts, r'). op_ok H r [] (acts, r'\<lparr>cr_terminalOrder := []\<rparr>)) (drain_loop now (cr_entries r) ?r)"
  proof (rule yields_mono)
    fix x assume "drained H ?r x"
    moreover obtain acts r' where x: "x = (acts, r')" by (cases x)
    ultimately have t: "draining (H \<union> held_by acts) [] r'" "list_all (act_ok ?r) acts" "same_refs ?r r'" "cr_aborts r' = cr_aborts r"
      by (simp_all add: drained_def)
    have "same_refs ?r (r'\<lparr>cr_terminalOrder := []\<rparr>)" using t(3) by (simp add: same_refs_def)
    from act_ok_refs [OF this] show "case x of (acts, r') \<Rightarrow> op_ok H r [] (acts, r'\<lparr>cr_terminalOrder := []\<rparr>)"
      using draining_done [OF t(1)] t(2,3,4) by (simp add: x op_ok_def same_refs_def)
  qed
  then show ?thesis using op_ok_refl [OF assms] by (auto simp: BeginDrainContext_def elim!: yields_mono)
qed

subsection \<open>Closing\<close>

lemma core_ok_irrelevant [simp]:
  "core_ok X S H (r\<lparr>cr_aborts := a\<rparr>) = core_ok X S H r" "core_ok X S H (r\<lparr>cr_closing := b\<rparr>) = core_ok X S H r"
  by (simp_all add: core_ok_def sel_ok_def limits_ok_def)

text \<open>What one round of the loop makes of the registry, but for the list of aborts.\<close>

definition close_row :: "error \<Rightarrow> claimKey \<Rightarrow> nat \<Rightarrow> claimRegistry \<Rightarrow> claimRegistry" where
  "close_row cause k p r =
     (if ce_state (cr_heap r p) = claimPending
      then set_entry p (\<lambda>e. e\<lparr>ce_done := True, ce_permit := None\<rparr>)
        ((set_entry p (\<lambda>e. e\<lparr>ce_state := claimTerminal, ce_err := Some cause\<rparr>) (finishPendingLocked p r))\<lparr>cr_entries := AList.delete k (cr_entries r)\<rparr>)
      else set_entry p (\<lambda>e. e\<lparr>ce_permit := None\<rparr>) (r\<lparr>cr_entries := AList.delete k (cr_entries r)\<rparr>))"

definition close_acts :: "error \<Rightarrow> nat \<Rightarrow> nat \<Rightarrow> claimEntry \<Rightarrow> claim_action list" where
  "close_acts cause a p e =
     reject_setup (ce_selected e) SetupResultSessionReplaced @ (case ce_active e of None \<Rightarrow> [] | Some f \<Rightarrow> [RejectReadiness p cause]) @
     [AbortClose a cause] @ release_permit (ce_permit e)"

lemma close_entry:
  "e\<lparr>ce_permit := None, ce_timer := False, ce_pendingTCP := False, ce_state := st, ce_err := x, ce_done := True\<rparr> =
   e\<lparr>ce_timer := False, ce_pendingTCP := False, ce_state := st, ce_err := x, ce_done := True, ce_permit := None\<rparr>"
  by (cases e) simp

lemma close_loop_step:
  assumes "ce_state (cr_heap r p) = claimPending \<longrightarrow> \<not> ce_done (cr_heap r p)"
  shows "close_loop cause ((k, p) # es) r =
     go_bind (close_loop cause es ((close_row cause k p r)\<lparr>cr_aborts := cr_aborts r @ [newClaimAbort p (cr_heap r p)],
         cr_closing := cr_closing r @ [length (cr_aborts r)]\<rparr>))
       (\<lambda>(more_acts, r'). Ret (close_acts cause (length (cr_aborts r)) p (cr_heap r p) @ more_acts, r'))"
  using assms by (cases r) (auto simp: Let_def close_row_def close_acts_def close_done_def set_entry_def finishPendingLocked_def close_entry)

lemma close_row_ok:
  assumes "core_ok X UNIV H r" "map_of (cr_entries r) k = Some p"
  shows "core_ok X UNIV (H \<union> set_option (ce_permit (cr_heap r p))) (close_row cause k p r)" "removed k p r (close_row cause k p r)"
proof -
  have c: "reg_ok X UNIV {} r" "permit_ok H r" "sel_ok r" "limits_ok r" using assms(1) by (simp_all add: core_ok_def)
  have p: "p < cr_fresh r" "ce_key (cr_heap r p) = k" using core_table [OF assms] by simp_all
  let ?r = "close_row cause k p r"
  show rm: "removed k p r ?r" by (simp add: close_row_def removed_def same_refs_def)
  show "core_ok X UNIV (H \<union> set_option (ce_permit (cr_heap r p))) ?r"
  proof (cases "ce_state (cr_heap r p) = claimPending")
    case False
    then show ?thesis using detach_removed(1) [OF assms False] by (simp add: close_row_def)
  next
    case True
    let ?m = "set_entry p (\<lambda>e. e\<lparr>ce_state := claimTerminal, ce_err := Some cause\<rparr>) (finishPendingLocked p r)"
    have m: "reg_ok X UNIV {p} ?m" by (rule reg_ok_finish [OF c(1) assms(2) True]) simp_all
    have "reg_ok X UNIV {p} (?m\<lparr>cr_entries := AList.delete k (cr_entries r)\<rparr>)"
      using reg_ok_delete [OF m, of k p] assms(2) by simp
    then have "reg_ok X UNIV {} (set_entry p (\<lambda>e. e\<lparr>ce_done := True, ce_permit := None\<rparr>) (?m\<lparr>cr_entries := AList.delete k (cr_entries r)\<rparr>))"
      by (rule reg_ok_set) (use p in \<open>auto simp: entry_shape_def\<close>)
    then have "reg_ok X UNIV {} ?r" using True by (simp add: close_row_def)
    moreover have "permit_ok (H \<union> set_option (ce_permit (cr_heap r p))) ?r"
    proof (rule permit_ok_drop_hold [OF c(2) reg_okD(1) [OF c(1)]])
      fix k' q assume q: "map_of (cr_entries r) k' = Some q" "q \<noteq> p"
      then have "k' \<noteq> k" using assms(2) by auto
      then show "map_of (cr_entries ?r) k' = Some q \<or> ce_permit (cr_heap r q) = None" using q(1) True by (simp add: al_lookup close_row_def)
    qed (use True in \<open>simp_all add: close_row_def\<close>)
    moreover have "sel_ok ?r" "limits_ok ?r" using c(3,4) True
      by (simp_all add: close_row_def sel_ok_def limits_ok_def sel_entry_def cong: option.case_cong)
    ultimately show ?thesis by (simp add: core_ok_def)
  qed
qed

definition row_closing :: "(claimKey \<times> nat) list \<Rightarrow> claimKey \<Rightarrow> nat \<Rightarrow> bool" where
  "row_closing es k p \<longleftrightarrow> k \<in> fst ` set es"

definition closing :: "nat set \<Rightarrow> (claimKey \<times> nat) list \<Rightarrow> claimRegistry \<Rightarrow> bool" where
  "closing H es r \<longleftrightarrow>
     core_ok {} UNIV H (r\<lparr>cr_closed := False\<rparr>) \<and> \<not> cr_accepting r \<and> cr_closed r \<and> listed es r \<and> all_rows (row_closing es) (cr_entries r)"

definition wound_up :: "nat set \<Rightarrow> claimRegistry \<Rightarrow> claim_action list \<times> claimRegistry \<Rightarrow> bool" where
  "wound_up H r x =
     (case x of (acts, r') \<Rightarrow>
        closing (H \<union> held_by acts) [] r' \<and> list_all (act_ok r) acts \<and> same_refs r r' \<and> length (cr_aborts r) \<le> length (cr_aborts r'))"

lemma close_row_closed: "(close_row cause k p r)\<lparr>cr_closed := b\<rparr> = close_row cause k p (r\<lparr>cr_closed := b\<rparr>)"
  by (cases r) (simp add: close_row_def set_entry_def finishPendingLocked_def Let_def)

lemma closing_step:
  assumes "closing H ((k, p) # es) r"
  shows "closing (H \<union> set_option (ce_permit (cr_heap r p))) es ((close_row cause k p r)\<lparr>cr_aborts := a, cr_closing := b\<rparr>)"
    (is "closing _ _ ?r'")
proof -
  let ?r = "r\<lparr>cr_closed := False\<rparr>"
  have d: "core_ok {} UNIV H ?r" "\<not> cr_accepting r" "cr_closed r" "listed ((k, p) # es) r"
      "all_rows (row_closing ((k, p) # es)) (cr_entries r)"
    using assms by (simp_all add: closing_def)
  have k: "map_of (cr_entries ?r) k = Some p" using listedD [OF d(4)] by simp
  note ok = close_row_ok [OF d(1) k, of cause]
  have "?r'\<lparr>cr_closed := False\<rparr> = (close_row cause k p ?r)\<lparr>cr_aborts := a, cr_closing := b\<rparr>"
    by (simp add: close_row_closed [symmetric])
  then have 1: "core_ok {} UNIV (H \<union> set_option (ce_permit (cr_heap r p))) (?r'\<lparr>cr_closed := False\<rparr>)" using ok(1) by simp
  have e: "cr_entries ?r' = AList.delete k (cr_entries r)" "cr_accepting ?r' = cr_accepting r" "cr_closed ?r' = cr_closed r"
    by (simp_all add: close_row_def)
  have "all_rows (row_closing es) (cr_entries ?r')"
  proof (rule all_rowsI)
    fix k' q assume "map_of (cr_entries ?r') k' = Some q"
    then have q: "map_of (cr_entries r) k' = Some q" "k' \<noteq> k" by (auto simp: e al_lookup split: if_splits)
    show "row_closing es k' q" using all_rowsD [OF d(5) q(1)] q(2) by (auto simp: row_closing_def)
  qed
  then show ?thesis using 1 d(2,3) listed_delete [OF d(4) e(1)] by (simp add: closing_def e)
qed

lemma close_loop_ok: "closing H es r \<Longrightarrow> yields G (wound_up H r) (close_loop cause es r)"
proof (induction es arbitrary: H r)
  case Nil
  then show ?case by (simp add: wound_up_def)
next
  case (Cons x es)
  obtain k p where x: "x = (k, p)" by (cases x)
  have d: "closing H ((k, p) # es) r" using Cons.prems x by simp
  have c: "core_ok {} UNIV H (r\<lparr>cr_closed := False\<rparr>)" "map_of (cr_entries (r\<lparr>cr_closed := False\<rparr>)) k = Some p"
    using d listedD [of k p es r] by (simp_all add: closing_def)
  have p: "p < cr_fresh r" using core_table [OF c] by simp
  have nd: "ce_state (cr_heap r p) = claimPending \<longrightarrow> \<not> ce_done (cr_heap r p)"
    using pending_not_done [of "{}" UNIV "r\<lparr>cr_closed := False\<rparr>" p] c(1) p by (simp add: core_ok_def)
  let ?a = "close_acts cause (length (cr_aborts r)) p (cr_heap r p)"
  let ?r = "(close_row cause k p r)\<lparr>cr_aborts := cr_aborts r @ [newClaimAbort p (cr_heap r p)], cr_closing := cr_closing r @ [length (cr_aborts r)]\<rparr>"
  have a: "list_all (act_ok r) ?a" "held_by ?a = set_option (ce_permit (cr_heap r p))"
    using core_refs [OF c(1), of p] p by (auto simp: close_acts_def act_ok_def split: option.splits)
  have s: "same_refs r ?r" "length (cr_aborts r) \<le> length (cr_aborts ?r)" by (simp_all add: close_row_def same_refs_def)
  have "wound_up H r (?a @ acts, r')" if "wound_up (H \<union> set_option (ce_permit (cr_heap r p))) ?r (acts, r')" for acts r'
    using that a s act_ok_refs [OF s(1)] same_refs_trans [OF s(1), of r'] by (auto simp: wound_up_def Un_assoc)
  then show ?case using Cons.IH [OF closing_step [OF d, where cause = cause and a = "cr_aborts r @ [newClaimAbort p (cr_heap r p)]"
        and b = "cr_closing r @ [length (cr_aborts r)]"]]
    unfolding x close_loop_step [OF nd] by (auto elim!: yields_mono)
qed

lemma closing_done:
  assumes "closing H [] r"
  shows "Inv H (r\<lparr>cr_entries := [], cr_terminalOrder := [], cr_generations := [], cr_registered := [], cr_provenance := [],
      cr_pending := [], cr_udpInUse := [], cr_nextGeneration := 0, cr_idleTCP := 0\<rparr>)" (is "Inv H ?r")
proof -
  let ?c = "r\<lparr>cr_closed := False\<rparr>"
  have d: "reg_ok {} UNIV {} ?c" "permit_ok H ?c" "sel_ok r" "limits_ok ?c" "\<not> cr_accepting r" "cr_closed r" "all_rows (row_closing []) (cr_entries r)"
    using assms by (simp_all add: closing_def core_ok_def sel_ok_def)
  have none: "map_of (cr_entries r) k = None" for k
    using all_rowsD [OF d(7), of k] by (cases "map_of (cr_entries r) k") (auto simp: row_closing_def)
  have e: "claim_entry_ok ?r p" if "p < cr_fresh r" for p
    using reg_okD(5) [OF d(1), of p] that none by (auto simp: claim_entry_ok_def is_current_def)
  have l: "lm_PendingFlowsPerSession (cr_limits r) > 0" "lm_UDPFlowsPerSession (cr_limits r) > 0" "lm_AuthenticatedTCPIdleConnections (cr_limits r) > 0"
    using d(4) by (simp_all add: limits_ok_def)
  have 1: "reg_ok {} {} {} ?r" using e l d(5) by (simp add: reg_ok_def gens_ok_def counts_ok_def)
  have "\<not> owned ?c i" for i using none by (auto elim: ownedE)
  moreover have "use_ok ?r" using l d(6) by (simp add: use_ok_def)
  ultimately have "permit_ok H ?r" using d(2) by (auto simp: permit_ok_def)
  moreover have "queue_ok ?r" by (simp add: queue_ok_def term_ok_def terminal_cap_def)
  ultimately show ?thesis using 1 d(3,5) l by (simp add: Inv_def sel_ok_def limits_ok_def)
qed

lemma CloseContext_ok:
  assumes "Inv H r"
  shows "yields G (op_ok H r []) (CloseContextCause cause r)"
proof (cases "cr_closed r")
  case True
  then show ?thesis using op_ok_refl [OF assms] by (simp add: CloseContextCause_def)
next
  case False
  let ?r = "r\<lparr>cr_accepting := False, cr_closed := True\<rparr>"
  let ?z = "\<lambda>r. r\<lparr>cr_entries := [], cr_terminalOrder := [], cr_generations := [], cr_registered := [], cr_provenance := [],
      cr_pending := [], cr_udpInUse := [], cr_nextGeneration := 0, cr_idleTCP := 0\<rparr>"
  have "?r\<lparr>cr_closed := False\<rparr> = r\<lparr>cr_accepting := False\<rparr>" using False by (cases r) simp
  moreover have "core_ok {} UNIV H (r\<lparr>cr_accepting := False\<rparr>)"
    using core_ok_accepting [OF core_ok_Inv [OF assms]] core_ok_stopped [of "r\<lparr>cr_accepting := False\<rparr>" "{}" "{}" H UNIV] by simp
  moreover have "row_closing (cr_entries r) k p" if "map_of (cr_entries r) k = Some p" for k p
    using map_of_SomeD [OF that] by (force simp: row_closing_def)
  then have "all_rows (row_closing (cr_entries r)) (cr_entries r)" by (rule all_rowsI)
  moreover have "listed (cr_entries r) ?r" using listed_all [of "{}" "{}" "{}" r] assms by (simp add: Inv_def listed_def)
  ultimately have "closing H (cr_entries r) ?r" by (simp add: closing_def)
  from close_loop_ok [OF this, of G "markForcedTermination cause"]
  have "yields G (\<lambda>(acts, r'). op_ok H r [] (acts @ [ForgetClosing], ?z r')) (close_loop (markForcedTermination cause) (cr_entries r) ?r)"
  proof (rule yields_mono)
    fix x assume "wound_up H ?r x"
    moreover obtain acts r' where x: "x = (acts, r')" by (cases x)
    ultimately have t: "closing (H \<union> held_by acts) [] r'" "list_all (act_ok ?r) acts" "same_refs ?r r'" "length (cr_aborts r) \<le> length (cr_aborts r')"
      by (simp_all add: wound_up_def)
    have "same_refs ?r (?z r')" using t(3) by (simp add: same_refs_def)
    from act_ok_refs [OF this] show "case x of (acts, r') \<Rightarrow> op_ok H r [] (acts @ [ForgetClosing], ?z r')"
      using closing_done [OF t(1)] t(2,3,4) by (simp add: x op_ok_def same_refs_def act_ok_def [of _ ForgetClosing])
  qed
  then show ?thesis using False by (auto simp: CloseContextCause_def elim!: yields_mono)
qed

end
