(* ===== verification/Claim_World.thy ===== *)
theory Claim_World
  imports Claim_Close
begin

section \<open>nw2 server: every run of the claim registry keeps the invariant\<close>

text \<open>
  The registry together with the actions its callers have still to carry out, in any interleaving. A run stops
  with a panic only when the counter of generations is exhausted.
\<close>

subsection \<open>Setup results\<close>

text \<open>A connection gets one setup result, and the results that have been written are those that are committed.\<close>

definition setups_ok :: "setupResult list \<Rightarrow> nat list \<Rightarrow> (nat \<times> byte) list \<Rightarrow> bool" where
  "setups_ok rs ss ws \<longleftrightarrow>
     distinct (map sr_writer rs) \<and> sr_writer ` set rs \<subseteq> set ss \<and> distinct (map fst ws) \<and>
     fst ` set ws = sr_writer ` {x \<in> set rs. sr_committed x}"

lemma setups_ok_new:
  assumes "setups_ok rs ss ws" "distinct ts" "set ts \<inter> set ss = {}" "set ts \<subseteq> set us" "set ss \<subseteq> set us"
  shows "setups_ok (rs @ map new_result ts) us ws"
proof -
  have m: "map sr_writer (map new_result ts) = ts" by (induction ts) (simp_all add: new_result_def)
  have "sr_writer ` set (map new_result ts) = set ts" by (metis m list.set_map)
  moreover have "{x \<in> set (rs @ map new_result ts). sr_committed x} = {x \<in> set rs. sr_committed x}" by (auto simp: new_result_def)
  ultimately show ?thesis using assms m unfolding setups_ok_def by (auto simp del: map_map)
qed

lemma setups_ok_commit:
  assumes "setups_ok rs ss ws" "i < length rs" "\<not> sr_committed (rs ! i)"
  shows "setups_ok (rs[i := (rs ! i)\<lparr>sr_committed := True\<rparr>]) ss (ws @ [(sr_writer (rs ! i), code)])"
proof -
  let ?rs = "rs[i := (rs ! i)\<lparr>sr_committed := True\<rparr>]"
  have d: "distinct (map sr_writer rs)" using assms(1) by (simp add: setups_ok_def)
  have w: "sr_writer (?rs ! j) = sr_writer (rs ! j)" "sr_committed (?rs ! j) \<longleftrightarrow> j = i \<or> sr_committed (rs ! j)" if "j < length rs" for j
    using that assms(2) by (auto simp: nth_list_update)
  have img: "sr_writer ` {x \<in> set qs. sr_committed x} = (\<lambda>j. sr_writer (qs ! j)) ` {j. j < length qs \<and> sr_committed (qs ! j)}" for qs
    by (force simp: in_set_conv_nth)
  have "{j. j < length ?rs \<and> sr_committed (?rs ! j)} = insert i {j. j < length rs \<and> sr_committed (rs ! j)}" using w assms(2) by auto
  moreover have "(\<lambda>j. sr_writer (?rs ! j)) ` {j. j < length rs \<and> sr_committed (rs ! j)} =
      (\<lambda>j. sr_writer (rs ! j)) ` {j. j < length rs \<and> sr_committed (rs ! j)}" by (intro image_cong refl) (simp add: w)
  ultimately have c: "sr_writer ` {x \<in> set ?rs. sr_committed x} = insert (sr_writer (rs ! i)) (sr_writer ` {x \<in> set rs. sr_committed x})"
    unfolding img using w(1) [OF assms(2)] by simp
  have "sr_writer (rs ! i) \<notin> sr_writer ` {x \<in> set rs. sr_committed x}"
  proof
    assume "sr_writer (rs ! i) \<in> sr_writer ` {x \<in> set rs. sr_committed x}"
    then obtain j where "j < length rs" "sr_committed (rs ! j)" "sr_writer (rs ! j) = sr_writer (rs ! i)"
      unfolding img by auto
    then show False using d assms(2,3) by (metis distinct_conv_nth length_map nth_map)
  qed
  moreover have "sr_writer ` set ?rs = sr_writer ` set rs" using commit_writers [of rs i] by (metis list.set_map)
  ultimately show ?thesis using assms(1) c commit_writers [of rs i] by (simp add: setups_ok_def)
qed

subsection \<open>The invariant of a server\<close>

definition world_ok :: "claim_world \<Rightarrow> bool" where
  "world_ok w \<longleftrightarrow>
     Inv (held_by (cw_todo w)) (cw_reg w) \<and> list_all (act_ok (cw_reg w)) (cw_todo w) \<and>
     setups_ok (cr_results (cw_reg w)) (cw_streams w) (cw_written w)"

lemma act_ok_mono:
  "act_ok r a \<Longrightarrow> length (cr_results r) \<le> length (cr_results r') \<Longrightarrow> length (cr_permits r) \<le> length (cr_permits r') \<Longrightarrow>
   cr_fresh r \<le> cr_fresh r' \<Longrightarrow> act_ok r' a"
  by (auto simp: act_ok_def split: claim_action.splits)

lemma world_add_ok:
  assumes "list_all (act_ok (cw_reg w)) (cw_todo w)" "setups_ok (cr_results (cw_reg w)) ss (cw_written w)"
    and "op_ok (held_by (cw_todo w)) (cw_reg w) ts x" "distinct ts" "set ts \<inter> set ss = {}" "set ts \<subseteq> set (cw_streams w)" "set ss \<subseteq> set (cw_streams w)"
  shows "world_ok (world_add w x)"
proof -
  obtain acts r' where x: "x = (acts, r')" by (cases x)
  have o: "Inv (held_by (cw_todo w) \<union> held_by acts) r'" "list_all (act_ok r') acts" "cr_results r' = cr_results (cw_reg w) @ map new_result ts"
      "cr_fresh (cw_reg w) \<le> cr_fresh r'" "length (cr_permits (cw_reg w)) \<le> length (cr_permits r')"
    using assms(3) by (simp_all add: x op_ok_def)
  have "list_all (act_ok r') (cw_todo w)" using assms(1) by (rule list.pred_mono_strong) (rule act_ok_mono, use o in auto)
  moreover have "setups_ok (cr_results r') (cw_streams w) (cw_written w)" using setups_ok_new [OF assms(2,4-7)] o(3) by simp
  ultimately show ?thesis using o(1,2) by (simp add: world_ok_def world_add_def x)
qed

lemma world_add_plain: "world_ok w \<Longrightarrow> op_ok (held_by (cw_todo w)) (cw_reg w) [] x \<Longrightarrow> world_ok (world_add w x)"
  by (rule world_add_ok [of w "cw_streams w" "[]"]) (simp_all add: world_ok_def)

lemma world_add_claim:
  assumes "world_ok w" "fresh_stream c w" "op_ok (held_by (cw_todo w)) (cw_reg w) (claim_streams c) x"
  shows "world_ok (world_add (use_stream c w) x)"
  by (rule world_add_ok [of "use_stream c w" "cw_streams w" "claim_streams c"])
    (use assms claim_streams_le [of c] in \<open>auto simp: world_ok_def use_stream_def fresh_stream_def opt_list_def\<close>)

text \<open>An action that is carried out leaves the list.\<close>

lemma run_action_ok:
  assumes "world_ok w" "n < length (cw_todo w)" "run_action (cw_todo w ! n) (cw_reg w) = (written, x)"
  shows "world_ok (world_add (w\<lparr>cw_todo := take n (cw_todo w) @ drop (Suc n) (cw_todo w), cw_written := cw_written w @ written\<rparr>) x)"
proof -
  let ?t = "take n (cw_todo w) @ drop (Suc n) (cw_todo w)" and ?a = "cw_todo w ! n" and ?r = "cw_reg w"
  have t: "cw_todo w = take n (cw_todo w) @ ?a # drop (Suc n) (cw_todo w)" using assms(2) by (simp add: id_take_nth_drop)
  have i: "Inv (held_by (cw_todo w)) ?r" "list_all (act_ok ?r) (cw_todo w)" "setups_ok (cr_results ?r) (cw_streams w) (cw_written w)"
    using assms(1) by (simp_all add: world_ok_def)
  have "list_all (act_ok ?r) (take n (cw_todo w) @ ?a # drop (Suc n) (cw_todo w))" using i(2) t by metis
  then have a: "act_ok ?r ?a" "list_all (act_ok ?r) ?t" by simp_all
  have "held_by (cw_todo w) = held_by (take n (cw_todo w) @ [?a] @ drop (Suc n) (cw_todo w))" using t by (metis append_Cons append_Nil)
  then have h: "held_by (cw_todo w) = held_by [?a] \<union> held_by ?t" unfolding held_by_simps(3) by blast
  have plain: ?thesis if "written = []" "op_ok (held_by ?t) ?r [] x"
    by (rule world_add_ok [of _ "cw_streams w" "[]"]) (use that a(2) i(3) in simp_all)
  have keep: "Inv (held_by ?t) ?r" if "held_by [?a] = {}" using i(1) that h by simp
  have skip: ?thesis if "held_by [?a] = {}" "run_action ?a ?r = ([], [], ?r)"
    using plain op_ok_refl [OF keep [OF that(1)]] that(2) assms(3) by auto
  show ?thesis
  proof (cases ?a)
    case (CommitSetup j code)
    have j: "j < length (cr_results ?r)" using a(1) CommitSetup by (simp add: act_ok_def)
    have "Inv (held_by ?t) ?r" using keep CommitSetup by simp
    from setupResult_commit_ok [OF this, of j code] show ?thesis
      using assms(3) CommitSetup a(2) i(3) setups_ok_commit [OF i(3) j, of code]
      by (auto simp: run_action_def setupResult_commit_def Let_def world_add_def world_ok_def act_ok_def [abs_def] split: if_splits)
  next
    case (ReleasePermit j)
    have j: "j < length (cr_permits ?r)" using a(1) ReleasePermit by (simp add: act_ok_def)
    have "Inv (held_by ?t) (udpPermit_Release j ?r)"
      by (rule Inv_mono [OF udpPermit_Release_ok [OF i(1) j]]) (use h ReleasePermit in auto)
    then have "op_ok (held_by ?t) ?r [] ([], udpPermit_Release j ?r)"
      by (simp add: op_ok_def udpPermit_Release_def Let_def)
    then show ?thesis using plain assms(3) ReleasePermit by (simp add: run_action_def)
  next
    case (RejectReadiness p cause)
    then have "op_ok (held_by ?t) ?r [] (flowReadiness_Reject cause p ?r)"
      using flowReadiness_ok(2) [OF keep] a(1) by (simp add: act_ok_def)
    then show ?thesis using plain assms(3) RejectReadiness by (simp add: run_action_def)
  next
    case (FinishReject j c cause)
    then have "op_ok (held_by ?t) ?r [] (finish_reject j c cause ?r)"
      using finish_reject_ok [OF keep] a(1) by (simp add: act_ok_def)
    then show ?thesis using plain assms(3) FinishReject by (simp add: run_action_def)
  next
    case (AbortClose j cause)
    then have "op_ok (held_by ?t) ?r [] (abort_Close j cause ?r)" using abort_Close_ok [OF keep] by simp
    then show ?thesis using plain assms(3) AbortClose by (simp add: run_action_def)
  next
    case ForgetClosing
    then have "op_ok (held_by ?t) ?r [] ([], ?r\<lparr>cr_closing := []\<rparr>)" using keep by (simp add: op_ok_def Inv_aborts)
    then show ?thesis using plain assms(3) ForgetClosing by (simp add: run_action_def)
  qed (use skip in \<open>simp_all add: run_action_def\<close>)
qed

subsection \<open>Runs\<close>

lemma Inv_accepting: "Inv H r \<Longrightarrow> Inv H (CloseAdmission r)"
proof -
  assume i: "Inv H r"
  have "queue_ok (CloseAdmission r)" by (rule queue_ok_heap [of r]) (use i in \<open>simp_all add: Inv_def CloseAdmission_def\<close>)
  then show ?thesis using core_ok_accepting [OF core_ok_Inv [OF i]] by (simp add: Inv_def core_ok_def CloseAdmission_def)
qed

lemma unregister_frame:
  "cr_results (unregisterSessionGeneration sid g r) = cr_results r" "cr_fresh (unregisterSessionGeneration sid g r) = cr_fresh r"
  "cr_permits (unregisterSessionGeneration sid g r) = cr_permits r" "cr_aborts (unregisterSessionGeneration sid g r) = cr_aborts r"
  by (simp_all add: unregisterSessionGeneration_def)

lemma op_ok_still:
  "Inv H r' \<Longrightarrow> same_refs r r' \<Longrightarrow> cr_aborts r' = cr_aborts r \<Longrightarrow> op_ok H r [] ([], r')"
  by (simp add: op_ok_def same_refs_def)

lemma world_add_nil: "w\<lparr>cw_reg := r\<rparr> = world_add w ([], r)"
  by (cases w) (simp add: world_add_def)

lemma claim_exec_ok:
  assumes "world_ok w"
  shows "yields (exhausted (cw_reg w)) world_ok (claim_exec now ev w)"
proof -
  let ?H = "held_by (cw_todo w)" and ?r = "cw_reg w"
  have i: "Inv ?H ?r" using assms by (simp add: world_ok_def)
  note add = world_add_plain [OF assms] and claim = world_add_claim [OF assms]
  have pair: "yields G world_ok (go_bind m (\<lambda>x. Ret (world_add w x)))" if "yields G (op_ok ?H ?r []) m" for G m
    using that add by (auto elim!: yields_mono)
  have triple: "yields G world_ok (go_bind m (\<lambda>(a, x). Ret (world_add w x)))" if "yields G (\<lambda>(a, x). op_ok ?H ?r [] x) m"
    for G and m :: "('z \<times> claim_action list \<times> claimRegistry) go"
    using that add by (auto elim!: yields_mono)
  show ?thesis
  proof (cases ev)
    case (RegisterSession sid replacing cause)
    then show ?thesis using triple [OF beginSessionRegistration_ok [OF i]] by (simp add: claim_exec_def Let_def del: yields_simps)
  next
    case (UnregisterSession sid g)
    have "world_ok (world_add w ([], unregisterSessionGeneration sid g ?r))"
      by (rule add, rule op_ok_still [OF unregister_ok [OF i]]) (simp_all add: same_refs_def unregister_frame)
    then show ?thesis using UnregisterSession by (simp add: claim_exec_def Let_def world_add_nil)
  next
    case (SubmitClaim c)
    have "yields (exhausted ?r) world_ok (go_bind (Submit now c ?r) (\<lambda>(res, x). Ret (world_add (use_stream c w) x)))" if "fresh_stream c w"
      using Submit_ok [OF i, of c now] claim [OF that] by (auto elim!: yields_mono)
    then show ?thesis using SubmitClaim assms by (simp add: claim_exec_def Let_def del: yields_simps(3))
  next
    case (WaitCancelled p cause ctxErr)
    then show ?thesis using triple [OF wait_cancelled_ok [OF i]] assms by (simp add: claim_exec_def Let_def del: yields_simps(3))
  next
    case (PairTimeout p)
    then show ?thesis using pair [OF registry_timeout_ok [OF i]] assms by (simp add: claim_exec_def Let_def del: yields_simps(3))
  next
    case (RejectFlow sid fid g bound cause)
    then show ?thesis using triple [OF registry_reject_ok [OF i]] by (simp add: claim_exec_def Let_def del: yields_simps(3))
  next
    case (RejectHalf c cause)
    have "yields (exhausted ?r) world_ok (go_bind (RejectClaim now c cause ?r) (\<lambda>x. Ret (world_add (use_stream c w) x)))" if "fresh_stream c w"
      using RejectClaim_ok [OF i, of c now cause] claim [OF that] by (auto elim!: yields_mono)
    then show ?thesis using RejectHalf assms by (simp add: claim_exec_def Let_def del: yields_simps(3))
  next
    case (ReplaceGeneration sid g cause)
    then show ?thesis using pair [OF ReplaceSession_ok [OF i]] by (simp add: claim_exec_def Let_def del: yields_simps(3))
  next
    case StopAdmission
    have "world_ok (world_add w ([], CloseAdmission ?r))"
      by (rule add, rule op_ok_still [OF Inv_accepting [OF i]]) (simp_all add: same_refs_def CloseAdmission_def)
    then show ?thesis using StopAdmission by (simp add: claim_exec_def Let_def world_add_nil)
  next
    case BeginDrain
    then show ?thesis using pair [OF BeginDrain_ok [OF i]] by (simp add: claim_exec_def Let_def del: yields_simps(3))
  next
    case (CloseRegistry cause)
    then show ?thesis using pair [OF CloseContext_ok [OF i]] by (simp add: claim_exec_def Let_def del: yields_simps(3))
  next
    case (Abort cause)
    have "held_by (AbortClosing cause ?r) = {}" "list_all (act_ok ?r) (AbortClosing cause ?r)"
      by (auto simp: AbortClosing_def held_by_def list_all_iff act_ok_def)
    then have "op_ok ?H ?r [] (AbortClosing cause ?r, ?r)" using i by (simp add: op_ok_def)
    then show ?thesis using add Abort by (simp add: claim_exec_def Let_def)
  next
    case (ReleaseFlow p)
    then show ?thesis using add [OF claimedFlow_Release_ok [OF i]] assms by (simp add: claim_exec_def Let_def)
  next
    case (FlowReady p gate)
    then show ?thesis using add [OF flowReadiness_ok(1) [OF i]] assms by (simp add: claim_exec_def Let_def)
  next
    case (FlowRejected p cause)
    then show ?thesis using add [OF flowReadiness_ok(2) [OF i]] assms by (simp add: claim_exec_def Let_def)
  next
    case (RunAction n)
    then show ?thesis using run_action_ok [OF assms, of n] assms
      by (auto simp: claim_exec_def Let_def split: prod.split)
  qed
qed

text \<open>
  A system whose steps may panic: an invariant that every step keeps, unless it starts in a state that
  allows the panic, holds after every run, and a run that panics has reached such a state.
\<close>

locale panic_system =
  fixes step :: "'e \<Rightarrow> 's \<Rightarrow> 's go" and inv :: "'s \<Rightarrow> bool" and stuck :: "'s \<Rightarrow> bool"
  assumes step_ok: "inv s \<Longrightarrow> yields (stuck s) inv (step e s)"
begin

lemma run_ok: "inv s \<Longrightarrow> yields (\<exists>n v. go_run step (take n es) s = Ret v \<and> inv v \<and> stuck v) inv (go_run step es s)"
proof (induction es arbitrary: s)
  case Nil
  then show ?case by simp
next
  case (Cons e es)
  show ?case
  proof (cases "step e s")
    case Panic
    then have "go_run step (take 0 (e # es)) s = Ret s \<and> inv s \<and> stuck s" using step_ok [OF Cons.prems, of e] Cons.prems by simp
    then show ?thesis using Panic by (auto intro: exI [of _ 0])
  next
    case (Ret v)
    then have v: "inv v" using step_ok [OF Cons.prems, of e] by simp
    have "go_run step (take (Suc n) (e # es)) s = go_run step (take n es) v" for n using Ret by simp
    then have "(\<exists>n u. go_run step (take n es) v = Ret u \<and> inv u \<and> stuck u) \<Longrightarrow>
        \<exists>n u. go_run step (take n (e # es)) s = Ret u \<and> inv u \<and> stuck u" by metis
    then show ?thesis using Cons.IH [OF v] Ret by (auto elim!: yields_mono)
  qed
qed

end

interpretation claims: panic_system claim_step world_ok "\<lambda>w. exhausted (cw_reg w)"
  by unfold_locales (simp add: claim_step_def claim_exec_ok)

lemma claim_run_ok:
  "world_ok w \<Longrightarrow> yields (\<exists>n v. claim_run (take n evs) w = Ret v \<and> world_ok v \<and> exhausted (cw_reg v)) world_ok (claim_run evs w)"
  unfolding claim_run_def by (rule claims.run_ok)

lemma new_world_ok: "world_ok (new_world t l h)"
proof -
  let ?r = "newClaimRegistry t l h"
  have l: "lm_PendingFlowsPerSession (default_limits l) > 0" "lm_UDPFlowsPerSession (default_limits l) > 0"
      "lm_AuthenticatedTCPIdleConnections (default_limits l) > 0"
    by (simp_all add: default_limits_def DefaultPendingFlowsPerSession_def DefaultUDPFlowsPerSession_def DefaultAuthenticatedTCPIdleConnections_def)
  then have "reg_ok {} {} {} ?r" by (simp add: reg_ok_def gens_ok_def counts_ok_def no_leak_def newClaimRegistry_def)
  moreover have "use_ok ?r" using l by (simp add: use_ok_def newClaimRegistry_def n_permits_def)
  then have "permit_ok {} ?r" by (simp add: permit_ok_def newClaimRegistry_def)
  moreover have "queue_ok ?r" by (simp add: queue_ok_def term_ok_def terminal_cap_def newClaimRegistry_def)
  ultimately have "Inv {} ?r" using l by (simp add: Inv_def sel_ok_def limits_ok_def newClaimRegistry_def)
  then show ?thesis by (simp add: world_ok_def new_world_def setups_ok_def newClaimRegistry_def)
qed

end
