(* ===== verification/Claim_Facts.thy ===== *)
theory Claim_Facts
  imports Claim_World
begin

section \<open>nw2 server: what the invariant of the claim registry says\<close>

text \<open>The limits never change, and the parts of the invariant are read off in terms of the table of entries.\<close>

subsection \<open>The limits\<close>

definition has_limits :: "server_Limits \<times> int \<Rightarrow> claimRegistry \<Rightarrow> bool" where
  "has_limits L r \<longleftrightarrow> cr_limits r = fst L \<and> cr_terminalLimit r = snd L"

lemma limits_frame [simp]:
  "has_limits L (set_entry p f r) = has_limits L r" "has_limits L (maybeCleanupGenerationLocked sid r) = has_limits L r"
  "has_limits L (drop_entry p r) = has_limits L r" "has_limits L (mark_failed p cause r) = has_limits L r"
  "has_limits L (finishPendingLocked p r) = has_limits L r" "has_limits L (forget_halves t p r) = has_limits L r"
  "has_limits L (udpPermit_Release i r) = has_limits L r" "has_limits L (unregisterSessionGeneration sid g r) = has_limits L r"
  "has_limits L (activateLocked p r) = has_limits L r" "has_limits L (observeGenerationLocked g r) = has_limits L r"
  "has_limits L (snd (setupResultForClaim c r)) = has_limits L r"
  by (simp_all add: has_limits_def forget_halves_def udpPermit_Release_def unregisterSessionGeneration_def activateLocked_def
      observeGenerationLocked_def Let_def setupResultForClaim_eq)

lemma limits_record [simp]:
  "has_limits L (r\<lparr>cr_entries := x1\<rparr>) = has_limits L r" "has_limits L (r\<lparr>cr_generations := x2\<rparr>) = has_limits L r"
  "has_limits L (r\<lparr>cr_provenance := x3\<rparr>) = has_limits L r" "has_limits L (r\<lparr>cr_registered := x4\<rparr>) = has_limits L r"
  "has_limits L (r\<lparr>cr_terminalOrder := x5\<rparr>) = has_limits L r" "has_limits L (r\<lparr>cr_pending := x6\<rparr>) = has_limits L r"
  "has_limits L (r\<lparr>cr_udpInUse := x7\<rparr>) = has_limits L r" "has_limits L (r\<lparr>cr_nextGeneration := x8\<rparr>) = has_limits L r"
  "has_limits L (r\<lparr>cr_idleTCP := x9\<rparr>) = has_limits L r" "has_limits L (r\<lparr>cr_accepting := y1\<rparr>) = has_limits L r"
  "has_limits L (r\<lparr>cr_closed := y2\<rparr>) = has_limits L r" "has_limits L (r\<lparr>cr_heap := y3\<rparr>) = has_limits L r"
  "has_limits L (r\<lparr>cr_fresh := y4\<rparr>) = has_limits L r" "has_limits L (r\<lparr>cr_permits := y5\<rparr>) = has_limits L r"
  "has_limits L (r\<lparr>cr_results := y6\<rparr>) = has_limits L r" "has_limits L (r\<lparr>cr_aborts := y7\<rparr>) = has_limits L r"
  "has_limits L (r\<lparr>cr_closing := y8\<rparr>) = has_limits L r"
  by (simp_all add: has_limits_def)

lemma limits_evict [simp]: "has_limits L (evict_terminals ps r) = has_limits L r"
  by (induction ps arbitrary: r) simp_all

lemma limits_expire [simp]: "has_limits L (expire_loop now ps c r) = has_limits L r"
  by (induction ps arbitrary: c r) simp_all

lemma limits_terminals [simp]:
  "has_limits L (addTerminalLocked p r) = has_limits L r" "has_limits L (expireTerminalsLocked now r) = has_limits L r"
  by (simp_all add: addTerminalLocked_def expireTerminalsLocked_def)

lemma fixed_fail: "has_limits L r \<Longrightarrow> yields True (\<lambda>(x, r'). has_limits L r') (failPendingLocked now p cause keep r)"
  by (auto simp: failPendingLocked_def Let_def close_done_def)

lemma fixed_fail_entry: "has_limits L r \<Longrightarrow> yields True (\<lambda>(a, r'). has_limits L r') (fail_entry now p code cause r)"
  using fixed_fail [of L r now p cause True] by (auto simp: fail_entry_def elim!: yields_mono)

lemma fixed_detach: "has_limits L r \<Longrightarrow> yields True (\<lambda>(a, b, r'). has_limits L r') (detach_loop now sid g cause es r)"
proof (induction es arbitrary: r)
  case Nil
  then show ?case by simp
next
  case (Cons x es)
  obtain k p where x: "x = (k, p)" by (cases x)
  note IH = Cons.IH [THEN yields_mono]
  show ?case
  proof (cases "fst k \<noteq> sid \<or> ce_generation (cr_heap r p) = g")
    case True
    then show ?thesis using Cons.IH [OF Cons.prems] by (simp add: x)
  next
    case False
    have "yields True (\<lambda>(a, b, r'). has_limits L r') (go_bind (failPendingLocked now p cause False r) (\<lambda>(failure, r).
        go_bind (detach_loop now sid g cause es r) (\<lambda>(pend, act, r). Ret (cleanup_pending cause failure @ pend, act, r))))"
      by (auto intro!: yields_mono [OF fixed_fail [OF Cons.prems]] IH)
    moreover have "yields True (\<lambda>(a, b, r'). has_limits L r')
        (go_bind (detach_loop now sid g cause es (set_entry p f (r\<lparr>cr_entries := v\<rparr>))) (\<lambda>(pend, act, r). Ret (pend, c @ act, r)))" for f v c
      by (auto simp: Cons.prems intro!: IH)
    ultimately show ?thesis using False Cons.IH [of "r\<lparr>cr_entries := _\<rparr>"] Cons.prems
      by (simp add: x Let_def del: yields_simps(3) split: claimEntryState.split)
  qed
qed

lemma fixed_detachSession: "has_limits L r \<Longrightarrow> yields True (\<lambda>(a, r'). has_limits L r') (detachSessionLocked now sid g cause r)"
  by (auto simp: detachSessionLocked_def intro!: yields_mono [OF fixed_detach])

lemma fixed_next: "has_limits L r \<Longrightarrow> yields True (\<lambda>(g, r'). has_limits L r') (nextGenerationLocked r)"
  by (simp add: nextGeneration_cases)

lemma fixed_generation: "has_limits L r \<Longrightarrow> yields True (\<lambda>(g, r'). has_limits L r') (claim_generation sid g bound r)"
  by (simp add: claim_generation_cases with_generation_def Let_def)

lemma fixed_register: "has_limits L r \<Longrightarrow> yields True (\<lambda>(g, a, r'). has_limits L r') (beginSessionRegistration now sid replacing cause r)"
  by (auto simp: beginSessionRegistration_def Let_def nextGeneration_cases intro!: yields_mono [OF fixed_detachSession])

lemma fixed_replace: "has_limits L r \<Longrightarrow> yields True (\<lambda>(a, r'). has_limits L r') (ReplaceSession now sid g cause r)"
  by (auto simp: ReplaceSession_def Let_def new_generation_cases intro!: fixed_detachSession)

lemma fixed_refuse: "has_limits L r \<Longrightarrow> refuse_claim c code err acts r = (res, a, r') \<Longrightarrow> has_limits L r'"
  by (auto simp: refuse_claim_def setupResultForClaim_eq)

lemma fixed_new: "has_limits L r \<Longrightarrow> submit_new c r = (res, a, r') \<Longrightarrow> has_limits L r'"
  by (auto simp: submit_new_def submit_duplex_def submit_pending_def refuse_claim_def acquireUDPPermitLocked_def alloc_entry_def Let_def
      setupResultForClaim_eq split: sum.splits prod.splits if_splits)

lemma fixed_existing: "has_limits L r \<Longrightarrow> yields True (\<lambda>(res, a, r'). has_limits L r') (submitExistingLocked now p c r)"
  by (auto simp: submitExistingLocked_def submit_conflict_def submit_pair_def Let_def setupResultForClaim_eq refuse_claim_def close_done_def
      intro!: yields_mono [OF fixed_fail] split: claimEntryState.split)

lemma fixed_cases:
  "has_limits L r \<Longrightarrow> case refuse_claim c code err acts r of (res, a, r') \<Rightarrow> has_limits L r'"
  "has_limits L r \<Longrightarrow> case submit_new c r of (res, a, r') \<Rightarrow> has_limits L r'"
  by (cases "refuse_claim c code err acts r" rule: prod_cases3; simp add: fixed_refuse)
    (cases "submit_new c r" rule: prod_cases3; simp add: fixed_new)

lemma fixed_Submit:
  assumes "has_limits L r"
  shows "yields True (\<lambda>(res, a, r'). has_limits L r') (Submit now c r)"
proof -
  have l: "has_limits L (expireTerminalsLocked now r)" using assms by simp
  have "yields True (\<lambda>(res, a, r'). has_limits L r')
      (if stale_generation sid g (fc_Generation c') b r' then Ret (refuse_claim c' code err [] r')
       else case map_of (cr_entries r') k of Some p \<Rightarrow> submitExistingLocked now p c' r' | None \<Rightarrow> Ret (submit_new c' r'))"
    if "has_limits L r'" for c' r' sid g b code err k
    using fixed_existing [OF that] by (simp add: fixed_cases [OF that] split: option.split)
  then have "yields True (\<lambda>(res, a, r'). has_limits L r') (submit_admitted now c r)"
    using fixed_cases(1) [OF l] unfolding submit_admitted_def Let_def by (auto intro!: yields_mono [OF fixed_generation [OF l]])
  then show ?thesis by (simp add: Submit_def fixed_cases [OF assms] split: option.split)
qed

lemma fixed_reject: "has_limits L r \<Longrightarrow> yields True (\<lambda>(res, a, r'). has_limits L r') (registry_reject now sid fid g bound cause r)"
  by (auto simp: registry_reject_def Let_def alloc_entry_def intro!: yields_mono [OF fixed_generation] yields_mono [OF fixed_fail_entry]
      split: option.split claimEntryState.split)

lemma fixed_drain: "has_limits L r \<Longrightarrow> yields True (\<lambda>(a, r'). has_limits L r') (drain_loop now es r)"
proof (induction es arbitrary: r)
  case Nil
  then show ?case by simp
next
  case (Cons x es)
  obtain k p where x: "x = (k, p)" by (cases x)
  note fail = yields_mono [OF fixed_fail [OF Cons.prems, of now p ErrDraining False]]
  show ?case by (auto simp: x Cons.prems intro!: fail yields_mono [OF Cons.IH] Cons.IH split: claimEntryState.split)
qed

lemma fixed_close: "has_limits L r \<Longrightarrow> yields True (\<lambda>(a, r'). has_limits L r') (close_loop cause es r)"
proof (induction es arbitrary: r)
  case Nil
  then show ?case by simp
next
  case (Cons x es)
  obtain k p where x: "x = (k, p)" by (cases x)
  show ?case by (auto simp: x Cons.prems Let_def close_done_def intro!: yields_mono [OF Cons.IH])
qed

lemma fixed_action: "has_limits L r \<Longrightarrow> has_limits L (snd (snd (run_action a r)))"
  by (cases a) (auto simp: run_action_def setupResult_commit_def flowReadiness_Reject_def finish_reject_def abort_Close_def Let_def split: option.split)

lemma fixed_exec:
  assumes "has_limits L (cw_reg w)"
  shows "yields True (\<lambda>w'. has_limits L (cw_reg w')) (claim_exec now ev w)"
proof (cases ev)
  case (RunAction n)
  then show ?thesis using assms fixed_action [OF assms, of "cw_todo w ! n"] by (auto simp: claim_exec_def Let_def world_add_def split: prod.split)
next
  case (RejectHalf c cause)
  have "yields True (\<lambda>(a, r'). has_limits L r') (RejectClaim now c cause (cw_reg w))"
    by (auto simp: RejectClaim_def setupResultForClaim_eq intro!: yields_mono [OF fixed_reject [OF assms]])
  then show ?thesis using assms RejectHalf by (auto simp: claim_exec_def Let_def world_add_def elim!: yields_mono)
qed (use assms in \<open>auto simp: claim_exec_def Let_def world_add_def use_stream_def wait_cancelled_def registry_timeout_def BeginDrainContext_def
    CloseContextCause_def CloseAdmission_def AbortClosing_def claimedFlow_Release_def releaseActive_def flowReadiness_Ready_def
    flowReadiness_Reject_def intro!: yields_mono [OF fixed_register] yields_mono [OF fixed_Submit] yields_mono [OF fixed_fail_entry]
    yields_mono [OF fixed_reject] yields_mono [OF fixed_replace] yields_mono [OF fixed_drain] yields_mono [OF fixed_close] split: option.split\<close>)

interpretation claim_limits: panic_system claim_step "\<lambda>w. has_limits L (cw_reg w)" "\<lambda>_. True" for L
  by unfold_locales (simp add: claim_step_def fixed_exec)

lemma fixed_run: "has_limits L (cw_reg w) \<Longrightarrow> yields True (\<lambda>w'. has_limits L (cw_reg w')) (claim_run evs w)"
  unfolding claim_run_def by (rule yields_mono [OF claim_limits.run_ok]) simp_all

lemma new_world_limits:
  assumes "claim_run evs (new_world t l h) = Ret w"
  shows "cr_limits (cw_reg w) = default_limits l" "cr_terminalLimit (cw_reg w) = lm_PendingFlowsPerSession (default_limits l)"
proof -
  let ?L = "(default_limits l, lm_PendingFlowsPerSession (default_limits l))"
  have "has_limits ?L (cw_reg (new_world t l h))" by (simp add: has_limits_def new_world_def newClaimRegistry_def)
  from fixed_run [OF this, of evs] have "has_limits ?L (cw_reg w)" by (simp add: assms)
  then show "cr_limits (cw_reg w) = default_limits l" "cr_terminalLimit (cw_reg w) = lm_PendingFlowsPerSession (default_limits l)"
    by (simp_all add: has_limits_def)
qed

subsection \<open>Counts over the table\<close>

definition table_count :: "(claimKey \<Rightarrow> claimEntry \<Rightarrow> bool) \<Rightarrow> claimRegistry \<Rightarrow> int" where
  "table_count Q r = int (length (filter (\<lambda>(k, p). Q k (cr_heap r p)) (cr_entries r)))"

lemma table_count_over:
  assumes "table_ok (cr_heap r) n (cr_entries r)"
  shows "sum_over (\<lambda>e. if Q (ce_key e) e then 1 else 0) (cr_heap r) (cr_entries r) = table_count Q r"
proof -
  have "(\<forall>x \<in> set es. ce_key (h (snd x)) = fst x) \<Longrightarrow>
      sum_over (\<lambda>e. if Q (ce_key e) e then 1 else 0) h es = int (length (filter (\<lambda>(k, p). Q k (h p)) es))" for h es
    by (induction es) auto
  moreover have "\<forall>x \<in> set (cr_entries r). ce_key (cr_heap r (snd x)) = fst x"
  proof
    fix x assume "x \<in> set (cr_entries r)"
    then have "map_of (cr_entries r) (fst x) = Some (snd x)" using keyed_distinct [OF assms] by simp
    then show "ce_key (cr_heap r (snd x)) = fst x" using keyedD [OF assms] by blast
  qed
  ultimately show ?thesis by (simp add: table_count_def)
qed

lemma counts_table:
  assumes "reg_ok X S P r"
  shows "get0 (cr_pending r) sid = table_count (\<lambda>k e. fst k = sid \<and> ce_state e = claimPending) r"
    "cr_idleTCP r = table_count (\<lambda>k e. ce_state e = claimPending \<and> ce_pendingTCP e) r"
    "session_claims sid r \<le> lm_PendingFlowsPerSession (cr_limits r)"
proof -
  note t = reg_okD(1) [OF assms] and c = reg_okD(3) [OF assms]
  show "get0 (cr_pending r) sid = table_count (\<lambda>k e. fst k = sid \<and> ce_state e = claimPending) r"
    using table_count_over [OF t, of "\<lambda>k e. fst k = sid \<and> ce_state e = claimPending"] c by (simp add: counts_ok_def n_pending_def [abs_def])
  show "cr_idleTCP r = table_count (\<lambda>k e. ce_state e = claimPending \<and> ce_pendingTCP e) r"
    using table_count_over [OF t, of "\<lambda>k e. ce_state e = claimPending \<and> ce_pendingTCP e"] c by (simp add: counts_ok_def n_idle_def [abs_def])
  show "session_claims sid r \<le> lm_PendingFlowsPerSession (cr_limits r)" using session_claims_over [OF t] c by (simp add: counts_ok_def)
qed

lemma n_permits_filter: "n_permits g ps = int (length (filter (\<lambda>u. \<not> up_released u \<and> up_key u = g) ps))"
  by (induction ps) (auto simp: n_permits_def)

lemma owned_row: "owned r i \<Longrightarrow> list_ex (\<lambda>(k, p). ce_permit (cr_heap r p) = Some i) (cr_entries r)"
  by (erule ownedE) (auto simp: list_ex_iff dest: map_of_SomeD)

lemma permits_accounted:
  assumes "permit_ok H r"
  shows "get0 (cr_udpInUse r) g =
      (if cr_closed r then 0 else int (length (filter (\<lambda>u. \<not> up_released u \<and> up_key u = g) (cr_permits r))))"
    "get0 (cr_udpInUse r) g \<le> lm_UDPFlowsPerSession (cr_limits r)"
    "list_all (\<lambda>i. up_released (cr_permits r ! i) \<or> list_ex (\<lambda>(k, p). ce_permit (cr_heap r p) = Some i) (cr_entries r) \<or> i \<in> H)
      [0..<length (cr_permits r)]"
  using assms use_okD [of r g] owned_row by (auto simp: permit_ok_def n_permits_filter list_all_iff)

lemma rows_generation:
  assumes "reg_ok {} S P r"
  shows "list_all (\<lambda>(k, p). p < cr_fresh r \<and> ce_key (cr_heap r p) = k \<and> ce_generation (cr_heap r p) = get0 (cr_generations r) (fst k) \<and>
      ce_generation (cr_heap r p) \<noteq> 0) (cr_entries r)"
proof -
  note d = reg_okD [OF assms]
  have "case x of (k, p) \<Rightarrow> p < cr_fresh r \<and> ce_key (cr_heap r p) = k \<and> ce_generation (cr_heap r p) = get0 (cr_generations r) (fst k) \<and>
      ce_generation (cr_heap r p) \<noteq> 0" if "x \<in> set (cr_entries r)" for x
  proof -
    have m: "map_of (cr_entries r) (fst x) = Some (snd x)" using keyed_distinct [OF d(1)] that by simp
    have "row_gen {} r (fst x) (snd x)" using d(2) m unfolding gens_ok_def by (blast dest: all_rowsD)
    then show ?thesis using keyedD [OF d(1) m] by (auto simp: row_gen_def case_prod_beta)
  qed
  then show ?thesis by (simp add: list_all_iff)
qed

end
