(* ===== verification/Spec2Isabelle.thy ===== *)
theory Spec2Isabelle
  imports Wire3_Reassembly Wire3_Target Wire3_Auth Morph_Stream Mux_Edges Nw2_Server_Udp Nw2_Auth Portal_Server Portal_Relay Dgram_Router Claim_Facts
begin

text \<open>
  \<^bold>\<open>The program.\<close> nowhere-go is a Go library for the two ends of the Nowhere proxy protocol, in two
  versions that do not speak to each other. In nw3 a Vector client reaches a Portal over TLS or QUIC,
  authenticates the connection with a tag bound to its TLS exporter, and asks for flows; the Portal
  dials the targets itself or hands flows to Egress peers that registered with it. In nw2 a client
  session reaches a server over TLS connections, mux carriers on them, or QUIC. Below TLS, \<^verbatim>\<open>morph\<close>
  masks the stream with a keyed cipher behind an authenticated prelude.

  \<^bold>\<open>What is modelled, by theory.\<close>
  \<^item> \<open>Nowhere_Prelude\<close>, \<open>Multiset_Prelude\<close>: machine integers as words, error values, \<^verbatim>\<open>io\<close> readers and
    writers (\<open>reader\<close>, \<open>writer\<close>), big-endian integers, a panic as a value (\<open>go\<close>), association lists for maps,
    multisets of holders; the locales of codecs that several components implement. \<open>Net_Addr\<close>: what is used of
    \<^verbatim>\<open>net/netip\<close>, and the reference grammar of domain names.
  \<^item> nw3 wire (\<^verbatim>\<open>wire/\<close>): \<open>Wire3_Flow\<close> (flow.go, result.go), \<open>Wire3_Target\<close> (target.go), \<open>Wire3_Datagram\<close> and
    \<open>Wire3_Reassembly\<close> (datagram.go), \<open>Wire3_Auth\<close> (auth.go) over \<open>Sha256\<close> and \<open>Hkdf\<close> (\<^verbatim>\<open>internal/hkdf\<close>). Readers accept
    exactly the encodings and leave the rest of the stream; a packet cut into fragments is delivered once
    and whole by its last missing fragment, in every order of arrival; the reassembler never panics and keeps its bounds.
  \<^item> morph (\<^verbatim>\<open>morph/\<close>): \<open>Morph_Packing\<close> and \<open>Morph_Prelude\<close> (prelude.go), \<open>Morph_Replay\<close> (replay.go), \<open>Morph_Hello\<close>
    (prehello.go), \<open>Morph_Conn\<close> and \<open>Morph_Stream\<close> (morph.go) over \<open>Chacha20\<close> (\<^verbatim>\<open>internal/chacha20\<close>). The masked
    stream is transparent, a counter is accepted once, the keystream is never reused.
  \<^item> nw2 wire (\<^verbatim>\<open>nw2/wire/\<close>): \<open>Nw2_Flow\<close> (flow.go, mux.go, io.go), \<open>Nw2_Target\<close>, \<open>Nw2_Datagram\<close>, \<open>Nw2_Reassembly\<close>,
    \<open>Nw2_Auth\<close> (auth.go, credentials.go, result.go, uot.go, handshake.go, tls_pin.go). \<open>Nw2_Reassembly_Sim\<close> shows that
    the reassembler of nw2 simulates that of nw3; \<open>Nw2_Udp_Budget\<close> and \<open>Nw2_Server_Udp\<close> run it under the byte
    budget of a server session (\<^verbatim>\<open>nw2/server/udp_reassembly.go\<close>, \<^verbatim>\<open>nw2/bundle/datagram_mux.go\<close>).
  \<^item> mux carrier (\<^verbatim>\<open>nw2/carrier/mux/\<close>): \<open>Mux_Core\<close> (credit.go, mux.go), \<open>Mux_Driver\<close> (driver.go), \<open>Mux_Stream\<close> (stream.go);
    \<open>Mux_System\<close> is a carrier with its goroutines and the step relation; \<open>Mux_Tables\<close>, \<open>Mux_Receive\<close>, \<open>Mux_Balance\<close>,
    \<open>Mux_Send\<close>, \<open>Mux_Order\<close> and \<open>Mux_Edges\<close> hold its invariants: tables, credit in both directions, order of the
    bytes, errors, and some situations in which the code does less than its comments say.
  \<^item> admission (\<open>Admission\<close>): the counters of \<^verbatim>\<open>portal/server.go\<close>, \<^verbatim>\<open>nw2/server/admission.go\<close> and
    \<^verbatim>\<open>nw2/server/handshake_gate.go\<close> against one locale.
  \<^item> portal (\<^verbatim>\<open>portal/\<close>): \<open>Portal_Registry\<close> (registry.go and the life of a slot in server.go: exact counts,
    a queue in the order of joining, one claim per TLS slot), \<open>Portal_Server\<close> (the
    connection and flow handlers), \<open>Portal_Relay\<close> (the UDP relays, and \<^verbatim>\<open>flowio.Copy\<close>).
  \<^item> datagram router (\<open>Dgram_Router\<close>: \<^verbatim>\<open>dgram/router.go\<close>), which joins the nw3 codec and reassembler: a fragmented
    packet is queued once whatever is duplicated, short of a whole second set; a DATA datagram once per arrival.
  \<^item> claim registry (\<open>Claim_Registry\<close>: \<^verbatim>\<open>nw2/server/claim_registry.go\<close>, with the setup result, readiness and failure codes of
    \<^verbatim>\<open>flow_result.go\<close> and \<^verbatim>\<open>termination.go\<close>): the table in which an nw2 server pairs the OPEN and ATTACH halves of a flow.
    A section under the lock is one function that returns the actions its caller carries out later. \<open>Claim_Table\<close>
    holds the invariant, \<open>Claim_Steps\<close> and \<open>Claim_Ops\<close> what the small steps keep of it, \<open>Claim_Inv\<close>, \<open>Claim_Submit\<close>,
    \<open>Claim_Admit\<close>, \<open>Claim_Reject\<close>, \<open>Claim_Sessions\<close> and \<open>Claim_Close\<close> go through the operations on every branch;
    \<open>Claim_World\<close> runs them with the deferred actions in every interleaving, \<open>Claim_Facts\<close> reads the results off:
    exact counts, bounded tables, matched pairs of one generation, and one setup result for a connection.

  \<^bold>\<open>Conventions.\<close> A struct is a record, a map an association list in the order of an iteration (the theorems
  hold for every such list), a method a function that returns the changed state, an error a value of a sum or
  option type, an index or slice out of range and an explicit \<^verbatim>\<open>panic\<close> the value \<open>Panic\<close>. Fixed-width integers are
  words where they can wrap; generations and lengths that cannot reach their width are natural numbers.
  Concurrent code is cut into its atomic sections (what runs under one lock, or between two waits); a step
  relation or a function on a list of events interleaves them in every order. Where the code releases a lock and takes it
  again in one call without waiting (\<^verbatim>\<open>closeWithReason\<close>, \<^verbatim>\<open>insertFlow\<close>, \<^verbatim>\<open>prepareReset\<close> of the mux carrier, \<^verbatim>\<open>Unregister\<close> of the router,
  the queue budget of an nw2 session, the exit of a QUIC slot), the whole call is one step. A wait on a condition
  or channel is one round of its loop. Handlers that talk to sockets are functions from the outcomes of
  their calls to the trace of calls they make. Loops are structural recursion or have a measure; where a
  loop reads a stream of unknown length the recursion is on the buffered bytes, so no fuel is needed.
  The streams of a mux carrier are read by one goroutine each, as the program does.

  \<^bold>\<open>Interfaces.\<close> Contracts that several components share or one relies on are locales, each interpreted on the model's
  definitions: codecs, the keystream cipher, the counters of holders (\<open>admission\<close>), the Egress registry, the
  router, systems whose steps may panic (\<open>panic_system\<close>).

  \<^bold>\<open>Not modelled.\<close> Sockets, TLS and QUIC stacks, clocks and goroutine scheduling are arguments. The host-facing
  orchestration of nw2 (sessions and handlers of \<^verbatim>\<open>nw2/server\<close> above the claim registry, \<^verbatim>\<open>nw2/bundle\<close>, the pools of \<^verbatim>\<open>nw2/carrier/tcptls\<close>),
  the client dial loops of \<^verbatim>\<open>vector\<close> and \<^verbatim>\<open>egress\<close>, and the command line are not modelled: what they add to the
  modelled codecs and state machines is calls into injected stacks. Log formatting, configuration parsing,
  conformance tooling and repository checks are left out.
\<close>

section \<open>Properties\<close>

subsection \<open>nw3 wire\<close>

text \<open>
  (C1) End to end: a packet that \<open>EncodePacket\<close> splits, whose frames arrive in any order and
  with any duplicates within the time to live of the first, at a reassembler that has room for
  it, is delivered exactly once and byte for byte, by the arrival of the last missing fragment;
  every earlier arrival returns no packet and no error.
\<close>

theorem packet_delivery:
  assumes "EncodePacket f pid p mx = Inr frames" "1 < length frames"
    and "re_inv r" "map_of (re_slots r) (f, pid) = None"
    and "re_reserved r + int (length p) \<le> re_maxBytes r"
    and "\<forall>(i, t) \<in> set (xs @ [y]). i < length frames \<and> t - snd (hd (xs @ [y])) \<le> re_ttl r"
    and "fst ` set xs \<noteq> {0..<length frames}" "fst ` set (xs @ [y]) = {0..<length frames}"
  shows "\<exists>r'. deliver_all r (map (\<lambda>(i, t). (frames ! i, t)) (xs @ [y])) =
    (r', replicate (length xs) (Ret (Inr None)) @ [Ret (Inr (Some p))])"
  using assms(1)
proof (cases rule: EncodePacket_cases)
  case (split cap)
  let ?n = "fragment_count (length p) cap"
  have n: "length frames = ?n" using split(8) by simp
  have m: "map (\<lambda>(i, t). (frames ! i, t)) (xs @ [y]) =
      map (\<lambda>(i, t). (fragment_frame f pid p cap ?n i, t)) (xs @ [y])"
    using assms(6) n split(8) by (intro map_cong) auto
  have "splittable p cap ?n" using split by (simp add: splittable_def)
  from deliver_all_fragments [OF this split(6,5) assms(3-5) assms(6-8) [unfolded n]]
  show ?thesis unfolding m .
qed (use assms(2) in simp)

theorem packet_delivery_witness:
  "\<exists>r'. deliver_all (NewReassembler 0 0 0)
      (map (\<lambda>(i, t). (map (fragment_frame 7 9 (map word_of_nat [0..<18]) 9 2) [0..<2] ! i, t))
        ([(1, 100), (1, 200)] @ [(0, 300)])) =
    (r', replicate 2 (Ret (Inr None)) @ [Ret (Inr (Some (map word_of_nat [0..<18])))])"
proof -
  let ?p = "map word_of_nat [0..<18] :: byte list"
  have "EncodePacket 7 9 ?p 21 = Inr (map (fragment_frame 7 9 ?p 9 2) [0..<2])"
    using EncodePacket_loop_all [of 9 ?p 7 9]
    by (simp add: EncodePacket_def validateFlow_def udp_consts MaxFlowID_def)
  from packet_delivery [OF this, of "NewReassembler 0 0 0" "[(1, 100), (1, 200)]" "(0, 300)"]
  show ?thesis
    using re_inv_NewReassembler [of 0 0 0]
    by (simp add: NewReassembler_def numeral_2_eq_2 atLeast0_lessThan_Suc insert_commute)
qed

text \<open>
  (C12) The reassembler is safe against every input: after any sequence of received datagrams
  and flow removals, receiving any further bytes never panics; the table stays within its slot
  bound, \<open>reserved\<close> is the sum of the declared totals and stays within the byte bound, which
  therefore bounds what is buffered; and a delivered packet fits a UDP datagram.
\<close>

theorem reassembler_safe:
  "case deliver (run re_step (NewReassembler slots maxBytes ttl) ops) bs now of
     (r, res) \<Rightarrow>
       res \<noteq> Panic \<and> int (length (re_slots r)) \<le> re_maxSlots r \<and>
       re_reserved r = (\<Sum>(k, s) \<leftarrow> re_slots r. int (rs_total s)) \<and>
       re_reserved r \<le> re_maxBytes r \<and>
       (\<Sum>(k, s) \<leftarrow> re_slots r. int (length (concat (rs_parts s)))) \<le> re_maxBytes r \<and>
       (case res of Ret (Inr (Some out)) \<Rightarrow> length out \<le> udpPacketMax | _ \<Rightarrow> True)"
proof -
  let ?q = "run re_step (NewReassembler slots maxBytes ttl) ops"
  obtain r res where d: "deliver ?q bs now = (r, res)" by (cases "deliver ?q bs now")
  have "re_inv ?q" by (rule reassembler.reachable_inv) blast
  note i = deliver_inv [OF this d]
  have "(\<Sum>(k, s) \<leftarrow> re_slots r. int (length (concat (rs_parts s)))) \<le> (\<Sum>(k, s) \<leftarrow> re_slots r. int (rs_total s))"
    using i by (intro sum_list_mono) (auto simp: re_inv_def slot_inv_def)
  with d i show ?thesis
    by (auto simp: re_inv_def al_sum_def case_prod_unfold split: go.splits sum.splits option.splits)
qed

text \<open>
  (C17) \<open>EncodePacket\<close> succeeds exactly on a valid flow and a payload a UDP datagram can carry
  that fits one frame, or, with a packet identifier, 2 to 255 fragments; and every frame it
  returns fits the datagram limit it was given.
\<close>

theorem EncodePacket_spec:
  "((\<exists>frames. EncodePacket f pid p mx = Inr frames) \<longleftrightarrow>
      validateFlow f = None \<and> length p \<le> udpPacketMax \<and> int udpHeaderLen \<le> mx \<and>
      (int (length p) \<le> mx - int udpHeaderLen \<or>
       pid \<noteq> 0 \<and> 0 < mx - int udpFragmentHeaderLen \<and>
       2 \<le> fragment_count (length p) (nat (mx - int udpFragmentHeaderLen)) \<and>
       fragment_count (length p) (nat (mx - int udpFragmentHeaderLen)) \<le> 255)) \<and>
   (case EncodePacket f pid p mx of
      Inl e \<Rightarrow> True
    | Inr frames \<Rightarrow> list_all (\<lambda>fr. int (length fr) \<le> mx) frames)"
  (is "(?ok \<longleftrightarrow> ?c) \<and> ?fit")
proof (rule conjI, rule iffI)
  assume o: ?ok
  obtain frames where e: "EncodePacket f pid p mx = Inr frames" using o by blast
  show ?c using e
  proof (cases rule: EncodePacket_cases)
    case (whole bs)
    then show ?thesis by (auto simp: EncodeData_Inr udp_consts)
  next
    case (split cap)
    then show ?thesis by (simp add: udp_consts)
  qed
next
  assume ?c
  then show ?ok using EncodePacket_complete by blast
next
  show ?fit using EncodePacket_frames_fit by (auto simp: list_all_iff split: sum.splits)
qed

text \<open>
  (C18) The target codec is canonical: \<open>ReadTarget\<close> accepts exactly the encodings of the valid targets
  without an IPv6 zone and leaves what follows on the stream; a target with a zone encodes as the
  same target without it; and \<open>AppendTarget\<close> fails exactly on what validation rejects.
\<close>

theorem target_codec:
  "(ReadTarget r = Inr (t, r')) =
     (strip_zone (Addr t) = Addr t \<and> (\<exists>bs. AppendTarget [] t = Inr bs \<and> r = prepend bs r')) \<and>
   (case Target_validate t of
      Some e \<Rightarrow> AppendTarget [] t = Inl e
    | None \<Rightarrow> \<exists>bs. AppendTarget [] t = Inr bs \<and> AppendTarget [] (t\<lparr>Addr := strip_zone (Addr t)\<rparr>) = Inr bs)"
  using ReadTarget_iff [of r t r'] AppendTarget_total [of t] by simp

text \<open>
  (C32) \<open>validateDomain\<close> accepts exactly the host names of 1 to 253 bytes whose dot-separated
  labels have 1 to 63 letters, digits and hyphens, with no hyphen at either end.
\<close>

theorem validateDomain_reference: "validateDomain host = None \<longleftrightarrow> domain_ok host"
  by (rule validateDomain_domain_ok)

text \<open>
  UDP over TCP: any sequence of payloads written to a stream is read back as the same
  sequence, empty payloads included, with the rest of the stream untouched.
\<close>

lemma uot_sequence:
  assumes "write_all EncodeUoT ps = Inr bs"
  shows "read_n ReadUoT (length ps) (prepend bs r) = Inr (ps, r)"
  using assms by (intro uot.read_n_write_all) auto

lemma uot_sequence_witness:
  "read_n ReadUoT 3 (prepend [0, 2, 5, 6, 0, 0, 0, 1, 9] (closed_stream [])) =
     Inr ([[5, 6], [], [9]], closed_stream [])"
proof -
  have "write_all EncodeUoT [[5, 6], [], [9]] = Inr [0, 2, 5, 6, 0, 0, 0, 1, 9]"
    by (simp add: EncodeUoT_def udp_consts PutUint16_def nat_be_eval)
  from uot_sequence [OF this] show ?thesis by (simp add: numeral_3_eq_3)
qed

text \<open>
  UDP flow identifiers: two different streams that both get an identifier in the same
  direction get different ones, and every identifier is a valid flow of the datagram codec.
\<close>

lemma UDPFlowID_unique:
  "(case (UDPFlowID s d, UDPFlowID s' d) of
      (Inr f, Inr f') \<Rightarrow> (f = f' \<longleftrightarrow> s = s') \<and> validateFlow f = None
    | _ \<Rightarrow> True)"
proof (cases "UDPFlowID s d"; cases "UDPFlowID s' d")
  fix f f' assume e: "UDPFlowID s d = Inr f" "UDPFlowID s' d = Inr f'"
  have "validateFlow f = None"
    using UDPFlowID_value(1,2) [OF e(1)] by (simp add: validateFlow_None)
  moreover have "f = f' \<longleftrightarrow> s = s'" using UDPFlowID_inj e by (metis sum.inject(2))
  ultimately show ?thesis using e by simp
qed auto

text \<open>
  (C33) Authentication: what \<open>WriteAuthFrame\<close> sends for a role is accepted by
  \<open>ReadAuthFrame\<close> with the same credentials, transport and exporter as exactly that role,
  except when the two role tags coincide, which is refused.
\<close>

theorem auth_roundtrip:
  assumes "t = AuthTLS \<or> t = AuthQUIC" "role = RoleVector \<or> role = RoleEgress" "wr_plan w = []"
  shows "\<exists>tag. WriteAuthFrame w (Some c) role t ex = (None, w\<lparr>wr_out := wr_out w @ tag\<rparr>) \<and>
    ReadAuthFrame (prepend tag r) (Some c) t ex =
      (if auth_tag (cr_vector c) t ex = auth_tag (cr_egress c) t ex
       then Inl (New ''nw3: invalid authentication tag or role'') else Inr (role, r))"
proof -
  obtain key where k: "RoleKey (Some c) role = Inr key"
    "key = (if role = RoleVector then cr_vector c else cr_egress c)"
    using assms(2) by (auto simp: RoleKey_def)
  let ?tag = "auth_tag key t ex"
  have "WriteAuthFrame w (Some c) role t ex = (None, w\<lparr>wr_out := wr_out w @ ?tag\<rparr>)"
    using WriteAuthFrame_eq [OF assms(3,1) k(1)] .
  moreover have "ReadAuthFrame (prepend ?tag r) (Some c) t ex =
      (if auth_tag (cr_vector c) t ex = auth_tag (cr_egress c) t ex
       then Inl (New ''nw3: invalid authentication tag or role'') else Inr (role, r))"
    using assms(1,2) k(2) by (auto simp: ReadAuthFrame_tag ValidateAuthFrame_tag RoleVector_def RoleEgress_def)
  ultimately show ?thesis by blast
qed

theorem auth_roundtrip_witness:
  "\<exists>tag. WriteAuthFrame \<lparr>wr_out = [], wr_plan = []\<rparr> (Some \<lparr>cr_vector = [1], cr_egress = [2]\<rparr>) 1 1 [3] =
      (None, \<lparr>wr_out = [] @ tag, wr_plan = []\<rparr>) \<and>
    ReadAuthFrame (prepend tag (closed_stream [])) (Some \<lparr>cr_vector = [1], cr_egress = [2]\<rparr>) 1 [3] =
      (if auth_tag [1] 1 [3] = auth_tag [2] 1 [3]
       then Inl (New ''nw3: invalid authentication tag or role'') else Inr (1, closed_stream []))"
  using auth_roundtrip [of 1 1 "\<lparr>wr_out = [], wr_plan = []\<rparr>" "\<lparr>cr_vector = [1], cr_egress = [2]\<rparr>" "[3]"
      "closed_stream []"]
  by (simp add: AuthTLS_def RoleVector_def)

text \<open>
  (C34) The role keys of nw3 and the authentication key of nw2 are HKDF-SHA256 (RFC 5869) of the
  shared key: \<open>deriveRole\<close> and \<open>DeriveAuthKey\<close> are the extract-then-expand of package hkdf, and \<open>ExpandSHA256\<close> is the block chain of the RFC for
  every length up to 255 blocks, the byte counter included, and panics above.
\<close>

theorem key_derivation_is_HKDF:
  "ExpandSHA256 prk info n = (if n \<le> 255 * HashLen then Ret (hkdf_expand prk info n) else Panic) \<and>
   deriveRole sharedKey label =
     hkdf_expand (ExtractSHA256 (Sum256 (bytes_of ''nowhere/nw3/auth-root'')) sharedKey)
       (bytes_of label) 32 \<and>
   DeriveAuthKey sharedKey =
     Ret (hkdf_expand (ExtractSHA256 (Sum256 (bytes_of ''nowhere/nw2/auth-root'')) sharedKey)
       (bytes_of ''authentication'') 32)"
  using deriveRole_HKDF [of sharedKey label]
  by (simp add: ExpandSHA256_hkdf_expand HashLen_def DeriveAuthKey_HKDF)

subsection \<open>morph\<close>

text \<open>
  (C14) A masked stream is transparent: whatever the sizes of the writes and the short writes of
  the client's socket, and whatever the sizes of the server's reads and the commits of other
  connections meanwhile, the bytes the server hands to TLS are a prefix of the plaintext the
  client's writes accepted, through prelude, nonce, buffered ClientHello and rejected
  connections alike.
\<close>

theorem morph_stream_faithful:
  assumes "WrapTCPClient i w keys env entropy = (Inr c, keys', entropy')" "wr_out w = []"
    and "run_honest c ps" "write_run c ps = (sent, c')"
    and "TCPC2S skeys = TCPC2S keys'" "list_all (\<lambda>(others, k). k < 2 ^ 63) rs"
  shows "prefix (concat (read_run (WrapTCPServer (closed_stream (wr_out (tc_out c'))) w' skeys) rs)) sent"
proof -
  let ?s = "WrapTCPServer (closed_stream (wr_out (tc_out c'))) w' skeys"
  have w0: "wrote (tc_writePref c) [] c" "tc_writeKey c = TCPC2S keys'" "length (tc_writePref c) = 76"
    "drop 64 (tc_writePref c) = tc_nonce c" "length (tc_nonce c) = 12"
    using WrapTCPClient_wrote [OF assms(1,2)] by auto
  have wr: "wrote (tc_writePref c) sent c'" "tc_nonce c' = tc_nonce c" "tc_writeKey c' = tc_writeKey c"
    using write_run_wrote [OF w0(1) assms(3,4)] by auto
  then obtain d where d: "tc_writePref c = d @ tc_writePref c'"
    "wr_out (tc_out c') = d @ xor_at (tc_writeKey c) (tc_nonce c) 0 sent"
    "sent \<noteq> [] \<longrightarrow> tc_writePref c' = []" by (auto simp: wrote_def)
  have "stream ?s = sent"
  proof (cases "tc_writePref c' = []")
    case True
    with d w0 show ?thesis
      by (simp add: stream_def WrapTCPServer_def plain_conn_def closed_stream_def assms(5)
          chacha.mask_involution)
  next
    case False
    have "length d + length (tc_writePref c') = 76" using d(1) w0(3) by (metis length_append)
    then have "length d < 76" using False by (cases "tc_writePref c'") auto
    moreover have "sent = []" using d(3) False by blast
    ultimately show ?thesis using d(2)
      by (simp add: stream_def WrapTCPServer_def plain_conn_def closed_stream_def)
  qed
  then show ?thesis
    using read_run_prefix [OF WrapTCPServer_inv, of rs] assms(6) by (auto simp: list_all_iff)
qed

theorem morph_stream_faithful_witness:
  "\<exists>c c'. fst (WrapTCPClient (closed_stream []) \<lparr>wr_out = [], wr_plan = []\<rparr>
        ((Derive [1])\<lparr>k_state := Some ((newPreludeState [2])\<lparr>ps_once := Some (Inr 5)\<rparr>)\<rparr>)
        (Some ''full8'') (closed_stream (replicate 76 9))) = Inr c \<and>
     write_run c [[1, 2], [3]] = ([1, 2, 3], c') \<and>
     prefix (concat (read_run (WrapTCPServer (closed_stream (wr_out (tc_out c')))
       \<lparr>wr_out = [], wr_plan = []\<rparr> (Derive [1])) [([], 4)])) [1, 2, 3]"
proof -
  let ?w = "\<lparr>wr_out = [], wr_plan = []\<rparr>"
  let ?st = "(newPreludeState [2])\<lparr>ps_once := Some (Inr 5)\<rparr>"
  let ?keys = "(Derive [1])\<lparr>k_state := Some ?st\<rparr>"
  have al: "allocate ?st e = (Inr (5, 1), ?st\<lparr>ps_ctr := 1\<rparr>, e)" for e
    by (simp add: allocate_def newPreludeState_def maxCounter_def)
  define ent e2 pr nonce where "ent = closed_stream (replicate 76 9)"
    and "e2 = closed_stream (replicate 12 9)"
    and "pr = (replicate 64 9 :: byte list)" and "nonce = (replicate 12 9 :: byte list)"
  then have rf: "ReadFull 64 ent = Inr (pr, e2)" "ReadFull 12 e2 = Inr (nonce, closed_stream [])"
    by (simp_all add: ReadFull_def closed_stream_def)
  define c where "c = (plain_conn (closed_stream []) ?w)\<lparr>tc_readKey := TCPS2C (Derive [1]),
    tc_writeKey := TCPC2S (Derive [1]), tc_nonce := nonce,
    tc_writePref := encodePrelude (?st\<lparr>ps_ctr := 1\<rparr>) pr nonce 5 1 @ nonce\<rparr>"
  have c: "WrapTCPClient (closed_stream []) ?w ?keys (Some ''full8'') ent =
      (Inr c, ?keys\<lparr>k_state := Some (?st\<lparr>ps_ctr := 1\<rparr>)\<rparr>, closed_stream [])"
    unfolding c_def by (simp add: WrapTCPClient_def al preludePolicyFromEnv_def generatePreludeWith_def
        preludeLen_def nonceLen_def rf preludeFull8_def preludeFade_def)
  have co: "tc_out c = ?w" "tc_writeOff c = 0" by (simp_all add: c_def plain_conn_def)
  have lim: "checkLimit 0 2 = None" "checkLimit 2 1 = None"
    by (simp_all add: checkLimit_def streamLimit_def)
  define c1 where "c1 = snd (write_pref c)"
  have c1: "write_pref c = (None, c1)" "wr_plan (tc_out c1) = []" "tc_writeOff c1 = 0"
    "tc_writePref c1 = []"
    using co by (simp_all add: c1_def write_pref_def Let_def)
  define c2 where "c2 = snd (snd (tcpConn_Write c [1, 2]))"
  have w1: "tcpConn_Write c [1, 2] = (2, None, c2)" "wr_plan (tc_out c2) = []" "tc_writeOff c2 = 2"
    "tc_writePref c2 = []"
    using c1 lim by (simp_all add: c2_def tcpConn_Write_def Let_def XORKeyStreamAt_in_place)
  define c' where "c' = snd (snd (tcpConn_Write c2 [3]))"
  have "tcpConn_Write c2 [3] = (1, None, c')"
    using w1 lim by (simp add: c'_def tcpConn_Write_def write_pref_def Let_def XORKeyStreamAt_in_place)
  then have c': "write_run c [[1, 2], [3]] = ([1, 2, 3], c')" using w1(1) by simp
  have "run_honest c [[1, 2], [3]]" using co by (intro write_run_honest_plain) auto
  then have "prefix (concat (read_run (WrapTCPServer (closed_stream (wr_out (tc_out c'))) ?w (Derive [1]))
      [([], 4)])) [1, 2, 3]"
    using morph_stream_faithful [OF c _ _ c', of "Derive [1]" "[([], 4)]" ?w] by simp
  with c c' show ?thesis unfolding ent_def [symmetric] by auto
qed

text \<open>
  (C21) A server lets a good client in: a prelude that a state with the same keys encoded for a
  counter the replay registry accepts, followed by a well-formed ClientHello in one record, ends
  the bootstrap without error, with exactly that record pending and the rest of the stream
  behind it.
\<close>

theorem morph_server_accepts:
  assumes "k_state keys = Some st" "length prelude = 64" "length nonce = 12"
    and "ps_authKey st' = ps_authKey st" "ps_maskKey st' = ps_maskKey st"
    and "registry_precheck (fst (ps_registry st)) k n"
    and "client_hello hello" "length hello \<le> tlsMaxCipher" "version < 0x1000"
  shows "\<exists>c'. bootstrap [] (WrapTCPServer
      (closed_stream (encodePrelude st' prelude nonce k n @ nonce @
         xor_at (TCPC2S keys) nonce 0 (hello_record_bytes version hello @ rest))) w keys) = (None, c') \<and>
    tc_pending c' = hello_record_bytes version hello \<and> incoming c' = rest"
  using assms
  by (intro bootstrap_accepts [where st = st and st' = st' and prelude = prelude and nonce = nonce])
    (auto simp: WrapTCPServer_def plain_conn_def closed_stream_def)

theorem morph_server_accepts_witness:
  "\<exists>c'. bootstrap [] (WrapTCPServer
      (closed_stream (encodePrelude (newPreludeState [2]) (replicate 64 7) (replicate 12 8) 5 1 @ replicate 12 8 @
         xor_at (TCPC2S (Derive [1])) (replicate 12 8) 0
           (hello_record_bytes 0x301 (1 # nat_be 3 41 @ replicate 34 0 @ [0, 0, 2, 19, 1, 1, 0]) @ [4])))
      \<lparr>wr_out = [], wr_plan = []\<rparr> ((Derive [1])\<lparr>k_state := Some (newPreludeState [2])\<rparr>)) = (None, c') \<and>
    tc_pending c' = hello_record_bytes 0x301 (1 # nat_be 3 41 @ replicate 34 0 @ [0, 0, 2, 19, 1, 1, 0]) \<and>
    incoming c' = [4]"
proof -
  have "registry_precheck (fst (ps_registry (newPreludeState [2]))) 5 1"
    by (simp add: ps_registry_def newPreludeState_def newReplayRegistry_def registry_precheck_def
        counterValid_def maxCounter_def)
  moreover have "client_hello (1 # nat_be 3 41 @ replicate 34 0 @ [0, 0, 2, 19, 1, 1, 0])"
  proof -
    have "tail_ok []" by (simp add: tail_ok_def)
    then have "compression_ok [1, 0]"
      unfolding compression_ok_def by (intro exI [of _ "[0]"] exI [of _ "[]"]) simp
    then have "suites_ok [0, 2, 19, 1, 1, 0]"
      unfolding suites_ok_def by (intro exI [of _ "[19, 1]"] exI [of _ "[1, 0]"]) (simp add: nat_be_eval)
    then have "session_ok (replicate 34 0 @ [0, 0, 2, 19, 1, 1, 0])"
      unfolding session_ok_def
      by (intro exI [of _ "replicate 34 0"] exI [of _ "[]"] exI [of _ "[0, 2, 19, 1, 1, 0]"]) simp
    then show ?thesis
      unfolding client_hello_def by (intro exI [of _ "replicate 34 0 @ [0, 0, 2, 19, 1, 1, 0]"]) simp
  qed
  ultimately show ?thesis
    using morph_server_accepts [where keys = "(Derive [1])\<lparr>k_state := Some (newPreludeState [2])\<rparr>"
        and st = "newPreludeState [2]" and st' = "newPreludeState [2]" and prelude = "replicate 64 7"
        and nonce = "replicate 12 8" and version = "0x301" and rest = "[4]"]
    by (simp add: tlsMaxCipher_def)
qed

text \<open>
  (C30) The prelude codec: every identity and every counter of 48 bits that \<open>EncodeTCPPrelude\<close> puts
  into a prelude is what \<open>DecodeTCPPrelude\<close> reports, the first half of the prelude and the high bit
  of every byte staying as generated; and nothing else is accepted: a prelude that decodes is bit for
  bit what the encoder makes for the reported identity and counter, which fits 48 bits.
\<close>

theorem prelude_codec:
  "(case EncodeTCPPrelude keys prelude nonce k c of
      Inl e \<Rightarrow> \<not> (k_state keys \<noteq> None \<and> length prelude = 64 \<and> length nonce = 12)
    | Inr p \<Rightarrow>
        (if c \<le> maxCounter then DecodeTCPPrelude keys p nonce = (k, c, True) else True) \<and>
        take 32 p = take 32 prelude \<and> map (\<lambda>b. b AND 0x80) p = map (\<lambda>b. b AND 0x80) prelude) \<and>
   (case DecodeTCPPrelude keys prelude nonce of
      (k, c, ok) \<Rightarrow>
        if ok then EncodeTCPPrelude keys prelude nonce k c = Inr prelude \<and> c \<le> maxCounter else True)"
  by (rule conjI [OF EncodeTCPPrelude_decodes DecodeTCPPrelude_canonical])

text \<open>
  (C16) No replay: from any history of commits, once a counter is committed for an identity, it
  is refused by every later check and commit, through any further commits of any connections,
  for as long as the identity stays in the registry.
\<close>

theorem no_replay:
  assumes "registry_commit (run registry_step newReplayRegistry history) k c = (r, True)"
    and "\<forall>n \<le> length later. map_of (rr_entries (run registry_step r (take n later))) k \<noteq> None"
  shows "registry_commit (run registry_step r later) k c = (run registry_step r later, False) \<and>
    \<not> registry_precheck (run registry_step r later) k c"
proof -
  have i: "registry_inv (run registry_step newReplayRegistry history)"
    by (rule replay.reachable_inv) simp
  have r: "registry_inv r" using registry_commit_inv [OF i, of k c] assms(1) by simp
  from commit_spends [OF i assms(1)] obtain e where "map_of (rr_entries r) k = Some e" "unat c \<in> spent e"
    by blast
  from run_keeps_spent [OF r this] assms(2) obtain e'
    where "map_of (rr_entries (run registry_step r later)) k = Some e'" "unat c \<in> spent e'" by blast
  then show ?thesis by (rule registry_refuses_spent)
qed

theorem no_replay_witness:
  "registry_commit (fst (registry_commit newReplayRegistry 5 7)) 5 7 =
     (fst (registry_commit newReplayRegistry 5 7), False)"
proof -
  have "counterValid 7" by (simp add: counterValid_def maxCounter_def)
  then obtain r where r: "registry_commit newReplayRegistry 5 7 = (r, True)"
    "map_of (rr_entries r) 5 = Some (fresh_entry 7)"
    by (simp add: registry_commit_def newReplayRegistry_def registry_evict_def replayCapacity_def
        fresh_entry_def)
  then show ?thesis using no_replay [of "[]" 5 7 r "[]"] by simp
qed

text \<open>
  (C22) The sliding bitmap of an entry is a window over sets: a counter is accepted exactly when
  it is not among the refused ones, and marking it refuses it, everything refused before, and
  every counter 1024 or more below it, and nothing else.
\<close>

theorem replay_window_refines:
  assumes "entry_inv e"
  shows "(entry_accepts e c \<longleftrightarrow> unat c \<notin> spent e) \<and>
    (entry_accepts e c \<longrightarrow> entry_inv (entry_mark e c) \<and>
       spent (entry_mark e c) = insert (unat c) (spent e) \<union> {k. k + 1024 \<le> unat c})"
  using assms entry_accepts_spent entry_mark_spent by blast

theorem replay_window_refines_witness:
  "spent (entry_mark (fresh_entry 5) 2000) = insert 2000 (spent (fresh_entry 5)) \<union> {k. k + 1024 \<le> 2000}"
proof -
  have "entry_accepts (fresh_entry 5) 2000" by (simp add: entry_accepts_def fresh_entry_def)
  then show ?thesis
    using replay_window_refines [OF fresh_entry(1), of 5 2000] by simp
qed

text \<open>
  (C29) The registry holds at most 16384 identities, each once, in strict insertion order: a
  commit for a known identity or an invalid counter leaves the order as it is, one for a new
  identity appends it and, when full, drops the oldest.
\<close>

theorem replay_registry_fifo:
  "let r = run registry_step newReplayRegistry ops in
   ring (fst (registry_commit r k c)) =
     (if counterValid c \<and> k \<notin> set (ring r)
      then (if length (ring r) = 16384 then tl (ring r) else ring r) @ [k] else ring r) \<and>
   length (ring r) \<le> 16384 \<and> distinct (ring r) \<and> dom (map_of (rr_entries r)) = set (ring r)"
proof -
  have i: "registry_inv (run registry_step newReplayRegistry ops)" by (rule replay.reachable_inv) simp
  then show ?thesis
    using registry_commit_ring [OF i, of k c]
    by (simp add: Let_def registry_inv_def replayCapacity_def dom_map_of_conv_image_fst)
qed

text \<open>
  (C31) The ClientHello check never reads out of range and accepts exactly the messages of the
  TLS grammar: lengths that match, at most 32 session bytes, a non-empty even list of suites,
  at least one compression method, and extensions of pairwise different types that fill the
  message.
\<close>

theorem clientHello_grammar: "clientHelloWellFormed message = Ret (client_hello message)"
  by (rule clientHelloWellFormed_grammar)

text \<open>
  (C35) \<open>XORKeyStreamAt\<close> masks byte \<open>i\<close> of a stream with byte \<open>i\<close> of one fixed keystream: at
  any offset, in place or into a longer buffer whose tail it leaves alone; the quarter round is
  the one of RFC 8439.
\<close>

theorem XORKeyStreamAt_reference:
  "XORKeyStreamAt dst (take (length dst) src) key nonce off =
     map (\<lambda>i. src ! i XOR keystream key nonce (unat off + i)) [0..<min (length src) (length dst)] @
     drop (length src) dst \<and>
   quarter a b c d = rfc8439_quarter a b c d"
proof -
  have "XORKeyStreamAt dst (take (length dst) src) key nonce off =
      map (\<lambda>i. take (length dst) src ! i XOR keystream key nonce (unat off + i))
        [0..<length (take (length dst) src)] @ drop (length (take (length dst) src)) dst"
    by (rule XORKeyStreamAt_keystream) simp
  then show ?thesis by (auto simp: quarter_rfc8439 min_def)
qed

text \<open>
  (C36) Keystream limit: when the limit check passes for a connection whose offset is within the
  limit, no two of the bytes up to the end of the operation share a block counter and a position
  in the block, so no part of the keystream is used twice.
\<close>

theorem keystream_no_reuse:
  assumes "checkLimit off (int n) = None" "off \<le> streamLimit" "n < 2 ^ 63"
    and "i < unat off + n" "j < unat off + n" "i \<noteq> j"
  shows "(word_of_nat (i div 64) :: u32, i mod 64) \<noteq> (word_of_nat (j div 64), j mod 64)"
proof -
  have "unat off + n \<le> 2 ^ 38 - 64" using checkLimit_None(1) [OF assms(1-3) order_refl] .
  then show ?thesis using keystream_position_inj [of i j] assms(4-6) by auto
qed

theorem keystream_no_reuse_witness:
  "(word_of_nat (0 div 64) :: u32, 0 mod 64 :: nat) \<noteq> (word_of_nat (64 div 64), 64 mod 64)"
  using keystream_no_reuse [of 64 64 0 64] by (simp add: checkLimit_def streamLimit_def)

text \<open>
  (C37) Masked datagrams: what \<open>maskDatagram\<close> produces, \<open>unmaskDatagram\<close> with the same key turns
  back into the payload, dropping it exactly when it is empty or a server gets a QUIC long header
  of an unsupported version.
\<close>

theorem datagram_roundtrip:
  assumes "maskDatagram p key rnd = Inr (wire, rnd')"
  shows "unmaskDatagram k wire key server =
    (if p = [] \<or> server \<and> \<not> supportedQUICPacket p then ([], False) else (take k p, True))"
  by (rule unmask_mask(2) [OF assms])

theorem datagram_roundtrip_witness:
  "\<exists>wire. maskDatagram [0x40, 9] [1] (closed_stream (replicate 12 3)) = Inr (wire, closed_stream []) \<and>
     unmaskDatagram 100 wire [1] True = ([0x40, 9], True)"
proof -
  define non where "non = (replicate 12 3 :: byte list)"
  have "ReadFull 12 (closed_stream non) = Inr (non, closed_stream [])"
    by (simp add: ReadFull_def closed_stream_def non_def)
  then obtain wire where w: "maskDatagram [0x40, 9] [1] (closed_stream non) = Inr (wire, closed_stream [])"
    by (simp add: maskDatagram_def nonceLen_def Let_def)
  from datagram_roundtrip [OF w, of 100 True] w show ?thesis
    by (auto simp: supportedQUICPacket_def non_def [symmetric])
qed

text \<open>
  Sampling: \<open>sampleBelow\<close> returns a value below its bound, and every value below the bound
  is the remainder of equally many of the bytes that are not rejected, so it is unbiased.
\<close>

lemma sampleBelow_uniform:
  "(case sampleBelow b upper r of Inl e \<Rightarrow> True | Inr (v, r') \<Rightarrow> v < upper) \<and>
   (if v < upper
    then card {x. x < 256 - 256 mod unat upper \<and> x mod unat upper = unat v} = 256 div unat upper
    else True)"
proof -
  have "256 - 256 mod unat upper = 256 div unat upper * unat upper"
    by (simp add: minus_mod_eq_div_mult)
  moreover have "v < upper \<Longrightarrow> 0 < unat upper \<and> unat v < unat upper" by (simp add: word_less_nat_alt)
  ultimately have "v < upper \<Longrightarrow>
      card {x. x < 256 - 256 mod unat upper \<and> x mod unat upper = unat v} = 256 div unat upper"
    using multiples_below by simp
  then show ?thesis using sampleBelow_range by (auto split: sum.splits)
qed

subsection \<open>nw2 wire and the stream multiplexer\<close>

text \<open>
  (C13) Tables: a carrier starts only with valid limits, and at every moment of every run, whatever
  the peer sends and however the goroutines interleave, the flow table has valid and distinct
  identifiers, none of them with a reset still to be written, distinct generations, receive credit
  within the stream window, and no more entries and resets together than \<open>MaxStreams\<close>. Once the carrier is
  closed the flow table is empty; identifiers reserved for a reset may remain.
\<close>

theorem mux_flow_tables:
  "case Start cfg of
     Inl e \<Rightarrow> e = errInvalidLimits
   | Inr s \<Rightarrow>
       (let t = cr_sh (run mux_step (carrier_start s r w) ops) in
          distinct (map fst (sh_flows t)) \<and> distinct (sh_pendingResets t) \<and>
          set (sh_pendingResets t) \<inter> fst ` set (sh_flows t) = {} \<and>
          distinct (map (\<lambda>p. fs_generation (snd p)) (sh_flows t)) \<and>
          int (length (sh_flows t)) + int (length (sh_pendingResets t)) \<le> MaxStreams cfg \<and>
          list_all (\<lambda>(f, fl). f \<noteq> 0 \<and> f \<le> nw2_MaxFlowID \<and> 0 \<le> fs_receiveCredit fl \<and>
            fs_receiveCredit fl \<le> creditUnits (StreamWindowBytes cfg) \<and> fs_localParts fl \<le> 2) (sh_flows t) \<and>
          list_all (\<lambda>f. f \<noteq> 0 \<and> f \<le> nw2_MaxFlowID) (sh_pendingResets t) \<and>
          (if sh_closed t then sh_flows t = [] else True))"
proof (cases "Start cfg")
  case (Inl e)
  then show ?thesis using Start_Inl by simp
next
  case (Inr s)
  define t where "t = cr_sh (run mux_step (carrier_start s r w) ops)"
  have "tab cfg (sh_flows t) (sh_pendingResets t) (sh_nextGeneration t) (sh_closed t)"
    using Start_tables [OF Inr, of r w ops] Start_run(2) [OF Inr, of r w ops] by (simp add: t_def)
  then show ?thesis unfolding Inr Let_def sum.case t_def [symmetric]
    by (auto simp: tab_def entry_ok_def flow_ok_def list_all_iff)
qed

text \<open>
  (C2) Receive flow control: in every run the connection window left is what was advertised to the
  peer, plus what is about to be, less what the peer has used, and while the carrier is open it is
  the whole window less what queues, streams and the reader still hold: credit is neither lost nor
  invented. A DATA frame is refused for exceeding the window exactly when it exceeds what is left,
  so never when the peer stays within what was advertised.
\<close>

theorem mux_receive_flow_control:
  "case Start cfg of
     Inl e \<Rightarrow> e = errInvalidLimits
   | Inr s \<Rightarrow>
       (let c = run mux_step (carrier_start s r w) ops; t = cr_sh c in
          sh_connRecv t = cr_adv c + sh_pendingConn t - cr_recvd c \<and> 0 \<le> sh_connRecv t \<and> 0 \<le> sh_pendingConn t \<and>
          (if sh_closed t then True else sh_connRecv t + held c = creditUnits (ConnectionWindowBytes cfg)) \<and>
          (fst (receiveData h p t) = Fatal errConnWindowExceeded) = (sh_connRecv t < frameCharge (int (length p))) \<and>
          (if cr_recvd c + frameCharge (int (length p)) \<le> cr_adv c
           then fst (receiveData h p t) \<noteq> Fatal errConnWindowExceeded else True))"
proof (cases "Start cfg")
  case (Inl e)
  then show ?thesis using Start_Inl by simp
next
  case (Inr s)
  define c where "c = run mux_step (carrier_start s r w) ops"
  have b: "sh_connRecv (cr_sh c) = cr_adv c + sh_pendingConn (cr_sh c) - cr_recvd c" "0 \<le> sh_connRecv (cr_sh c)"
      "0 \<le> sh_pendingConn (cr_sh c)"
      "sh_closed (cr_sh c) \<or> sh_connRecv (cr_sh c) + held c = creditUnits (ConnectionWindowBytes cfg)"
    using Start_balance [OF Inr, of r w ops] Start_run(2) [OF Inr, of r w ops]
    by (auto simp: c_def recv_balance_def balance_def)
  have e: "(fst (receiveData h p (cr_sh c)) = Fatal errConnWindowExceeded) = (sh_connRecv (cr_sh c) < frameCharge (int (length p)))"
  proof (cases "sh_connRecv (cr_sh c) < frameCharge (int (length p))")
    case True
    then show ?thesis by (simp add: receiveData_def admitReceive_def Let_def)
  next
    case False
    then show ?thesis using receiveData_errors [where h = h and p = p and s = "cr_sh c"]
      by (auto simp: errConnWindowExceeded_def errResetLimit_def split: after.splits)
  qed
  show ?thesis unfolding Inr Let_def sum.case c_def [symmetric] using b e by auto
qed

text \<open>
  (C3) Send flow control: in every run the connection credit the peer granted is at every moment
  exactly the free permits, what writes in progress hold, what is queued and what was sent; so the
  DATA sent never exceeds what was granted, on the connection or on any stream.
\<close>

theorem mux_send_flow_control:
  "case Start cfg of
     Inl e \<Rightarrow> e = errInvalidLimits
   | Inr s \<Rightarrow>
       (let c = run mux_step (carrier_start s r w) ops; t = cr_sh c in
          sem_available (sh_connSend t) + conn_held (cr_writes c) + queued (sh_dataTx t) + cr_sent c = cr_granted c \<and>
          0 \<le> sem_available (sh_connSend t) \<and> cr_sent c \<le> cr_granted c \<and>
          credits t g + fheld g (cr_writes c) + fqueued g (sh_dataTx t) + cr_fsent c g \<le> cr_fgranted c g \<and>
          0 \<le> credits t g \<and> cr_fsent c g \<le> cr_fgranted c g)"
proof (cases "Start cfg")
  case (Inl e)
  then show ?thesis using Start_Inl by simp
next
  case (Inr s)
  define c where "c = run mux_step (carrier_start s r w) ops"
  note D = send_invD [OF Start_send [OF Inr, of r w ops], folded c_def]
  note S = carrier_sent_bounds [OF Start_run(1) [OF Inr, of r w ops], folded c_def]
  show ?thesis unfolding Inr Let_def sum.case c_def [symmetric] using D(1-3,5) S by simp
qed

text \<open>
  (C4) Order: what a stream's reader gets is, byte for byte, a prefix of the DATA handed to the stream
  in the order the frames arrived, in every run; and as long as the stream is not reset or closed for
  reading nothing is lost: what was delivered is what was read and what is still to be read.
\<close>

theorem mux_stream_order:
  "case Start cfg of
     Inl e \<Rightarrow> e = errInvalidLimits
   | Inr s \<Rightarrow>
       (let c = run mux_step (carrier_start s r w) before in
          if cr_streams c g = None then True
          else prefix (read_log g c ops) (unread g c @ delivered_log g c ops) \<and>
            (ended g (run mux_step c ops) \<or>
             unread g c @ delivered_log g c ops = read_log g c ops @ unread g (run mux_step c ops)))"
proof (cases "Start cfg")
  case (Inl e)
  then show ?thesis using Start_Inl by simp
next
  case (Inr s)
  define c where "c = run mux_step (carrier_start s r w) before"
  have "recv_inv c" using Start_run(1) [OF Inr, of r w before] by (simp add: c_def carrier_inv_def)
  then show ?thesis unfolding Inr Let_def sum.case c_def [symmetric] using order_run [of c g ops] by auto
qed

text \<open>
  (C19) Isolation and errors of DATA: the only errors, which end the carrier, are a frame beyond the
  connection window and a frame of an unknown flow when there is no room for one more reset; a frame
  is handed to the stream that has its flow identifier now; no other flow is touched.
\<close>

theorem receiveData_isolated:
  "(case fst (receiveData h p s) of
      Fatal e \<Rightarrow>
        e = errConnWindowExceeded \<and> sh_connRecv s < frameCharge (int (length p)) \<or>
        e = errResetLimit \<and> flow_of s (mh_FlowID h) = None \<and>
          MaxStreams (sh_config s) \<le> int (length (sh_flows s)) + int (length (sh_pendingResets s))
    | Deliver g m \<Rightarrow> m = inboundData p (frameCharge (int (length p))) \<and> isCurrentFlow (mh_FlowID h) g s
    | Done \<Rightarrow> True) \<and>
   (if f = mh_FlowID h then True else flow_of (snd (receiveData h p s)) f = flow_of s f)"
  using receiveData_errors [where h = h and p = p and s = s] flow_of_receiveData [where g = f and h = h and p = p and s = s] by (auto split: after.splits)

text \<open>
  (C20) Frames on the wire: a queued frame whose flow is still the one it was queued for goes out as its
  header and its payload, whole unless the connection fails, and then as a prefix of them; a frame of a
  flow that is gone puts nothing on the connection and gives its connection credit back.
\<close>

theorem writeItem_frames:
  assumes "writeItem fl item wr s = Ret (e, wr', s')" "\<not> ob_flushed item" "EncodeMuxHeader (ob_header item) = Inr enc"
  shows "if isCurrentFlow (mh_FlowID (ob_header item)) (ob_generation item) s
    then prefix (wr_out wr) (wr_out wr') \<and> prefix (wr_out wr') (wr_out wr @ enc @ ob_payload item) \<and>
      (case e of None \<Rightarrow> wr_out wr' = wr_out wr @ enc @ ob_payload item | Some _ \<Rightarrow> True)
    else e = None \<and> wr' = wr \<and> sh_flows s' = sh_flows s \<and>
      sem_available (sh_connSend s') = sem_available (sh_connSend s) + frameCharge (int (length (ob_payload item)))"
proof (cases "isCurrentFlow (mh_FlowID (ob_header item)) (ob_generation item) s")
  case True
  note w = writeItem_current [OF assms(1,2) True assms(3)]
  then obtain k where "wr_out wr' = wr_out wr @ take k (enc @ ob_payload item)" by blast
  then show ?thesis using True w take_is_prefix [of k "enc @ ob_payload item"] by (simp split: option.splits)
next
  case False
  then show ?thesis using writeItem_stale [OF assms(2) False, of fl wr] assms(1) by (auto simp: item_charge_def)
qed

theorem writeItem_frames_witness:
  "\<exists>s' wr'. writeItem None
      \<lparr>ob_header = \<lparr>mh_Kind = MuxFrameData, mh_Value = 2, mh_FlowID = 7\<rparr>, ob_payload = [1, 2], ob_release = None,
        ob_flushed = False, ob_generation = 3\<rparr> \<lparr>wr_out = [], wr_plan = []\<rparr>
      (case Start DefaultConfig of Inr s \<Rightarrow> s) = Ret (None, wr', s') \<and> wr_out wr' = []"
proof -
  let ?item = "\<lparr>ob_header = \<lparr>mh_Kind = MuxFrameData, mh_Value = 2, mh_FlowID = 7\<rparr>, ob_payload = [1, 2], ob_release = None,
        ob_flushed = False, ob_generation = 3\<rparr> :: outbound"
  obtain s where s: "Start DefaultConfig = Inr s"
    by (simp add: Start_def DefaultConfig_def Config_validate_def mux_consts Let_def)
  have n: "\<not> isCurrentFlow (mh_FlowID (ob_header ?item)) (ob_generation ?item) s"
    using Start_Inr(3) [OF s] by (simp add: isCurrentFlow_def)
  obtain s' where w: "writeItem None ?item \<lparr>wr_out = [], wr_plan = []\<rparr> s = Ret (None, \<lparr>wr_out = [], wr_plan = []\<rparr>, s')"
    using writeItem_stale [of ?item s None "\<lparr>wr_out = [], wr_plan = []\<rparr>"] n by auto
  obtain enc where "EncodeMuxHeader (ob_header ?item) = Inr enc"
    using EncodeMuxHeader_ok [of "ob_header ?item"]
    by (auto simp: MuxHeader_Validate_def mux_kinds requireMuxFlowID_def nw2_MaxFlowID_def)
  from writeItem_frames [OF w _ this] w n s show ?thesis by auto
qed

text \<open>
  (C40) Window updates: any credit for a valid flow or the connection is advertised in full, in WINDOW
  frames of 1 to 65535 units each that the peer decodes; \<open>appendWindows\<close> always ends and never fails.
\<close>

theorem appendWindows_complete:
  "if f \<le> nw2_MaxFlowID
   then \<exists>hs bs. appendWindows enc f credit = Inr (enc @ bs) \<and> write_all EncodeMuxHeader hs = Inr bs \<and>
     (\<Sum>h\<leftarrow>hs. int (unat (mh_Value h))) = max 0 credit \<and>
     list_all (\<lambda>h. mh_Kind h = MuxFrameWindow \<and> mh_FlowID h = f \<and> 0 < unat (mh_Value h)) hs
   else True"
  using appendWindows_total [of f enc credit] by simp

text \<open>
  Credits: however a wait on a semaphore goes, a call that returns without an error has taken
  exactly the permits it asked for from a state that had them, and one that fails or waits has taken
  none; permits never go below zero.
\<close>

lemma acquireUntil_exact:
  "case acquireUntil n s env of
     (Acquired, s') \<Rightarrow> \<exists>t. (t = s \<or> t \<in> snd ` set env) \<and> \<not> sem_closed t \<and> 0 \<le> sem_available s' \<and>
       s' = t\<lparr>sem_available := sem_available t - max 0 n\<rparr>
   | (Failed e, s') \<Rightarrow> s' = s \<or> s' \<in> snd ` set env
   | (Waiting, s') \<Rightarrow> \<exists>t. (t = s \<or> t \<in> snd ` set env) \<and> sem_available t < max 0 n \<and>
       s' = t\<lparr>sem_waiters := Suc (sem_waiters t)\<rparr>"
proof -
  obtain x s' where a: "acquireUntil n s env = (x, s')" by (cases "acquireUntil n s env")
  show ?thesis using acquireUntil_cases [OF a] unfolding a by (auto simp: met_def split: acquired.splits)
qed

text \<open>
  (C38) Carrier headers: \<open>ReadFlowHeader\<close> and \<open>ReadMuxHeader\<close> accept exactly the encodings of valid
  headers and leave the rest of the stream; the first byte of a flow header is never the marker of a
  mux carrier, so the two can be told apart by one byte; and the constructor of mux headers accepts
  exactly the values that fit a field and make a valid header.
\<close>

theorem nw2_header_codec:
  "(ReadFlowHeader r = Inr (h, r')) = (\<exists>b. EncodeFlowHeader h = Inr b \<and> r = prepend b r') \<and>
   (case EncodeFlowHeader h of
      Inl e \<Rightarrow> FlowHeader_Validate h = Some e
    | Inr b \<Rightarrow> FlowHeader_Validate h = None \<and> length b = FlowHeaderLen \<and> b ! 0 \<noteq> MuxMarker) \<and>
   (ReadMuxHeader r = Inr (m, r')) = (\<exists>b. EncodeMuxHeader m = Inr b \<and> r = prepend b r') \<and>
   (newMuxHeader k v f = Inr m) =
     (0 \<le> v \<and> v \<le> 0xffff \<and> m = \<lparr>mh_Kind = k, mh_Value = word_of_int v, mh_FlowID = f\<rparr> \<and> MuxHeader_Validate m = None)"
proof -
  have "length (writeFlowHeaderUnchecked h) = FlowHeaderLen"
    by (simp add: writeFlowHeaderUnchecked_def FlowHeaderLen_def Let_def)
  moreover have "EncodeFlowHeader h = Inl e \<Longrightarrow> FlowHeader_Validate h = Some e" for e
    by (simp add: EncodeFlowHeader_def WriteFlowHeader_def split: option.splits)
  ultimately show ?thesis
    using ReadFlowHeader_canonical [of r h r'] flow_header_not_marker [of h] ReadMuxHeader_canonical [of r m r']
      newMuxHeader_Inr [of k v f m]
    by (auto simp: EncodeFlowHeader_iff split: sum.splits)
qed

text \<open>
  (C39) nw2 authentication and small frames: \<open>nw2_ReadAuthFrame\<close> accepts a session identifier exactly
  when the bytes on the stream are the frame that the holder of the same key writes for the same
  transport, exporter and identifier; setup results are read exactly as written; a UDP packet over TCP
  is written and read in exactly the form of nw3; and a certificate pin parses only as 64 lowercase
  digits or as none.
\<close>

theorem nw2_auth_codec:
  "(nw2_ReadAuthFrame r creds t ex = Inr (sid, r')) =
     (length sid = 16 \<and> (\<exists>frame. nw2_EncodeAuthFrame creds t ex sid = Inr frame \<and> r = prepend frame r')) \<and>
   (nw2_ReadSetupResult r = Inr (v, r')) = (\<exists>b. EncodeSetupResult v = Inr b \<and> r = prepend b r') \<and>
   (EncodeUDPPacket p = Inr b) = (EncodeUoT p = Inr b) \<and>
   (ReadUDPPacket r = Inr (Some p, r')) = (ReadUoT r = Inr (p, r')) \<and>
   (ParseCertificatePin pin = Inr q) =
     ((pin = [] \<or> pin = bytes_of ''none'') \<and> q = [] \<or> q = pin \<and> length pin = 64 \<and> list_all hex_digit pin)"
  by (simp only: nw2_ReadAuthFrame_iff nw2_ReadSetupResult_iff EncodeUDPPacket_nw3 ReadUDPPacket_nw3 ParseCertificatePin_Inr simp_thms)

subsection \<open>nw2 targets, datagrams and reassembly\<close>

text \<open>
  (C24) nw2 targets share the wire form of nw3: \<open>nw2_ReadTarget\<close> accepts exactly what \<open>ReadTarget\<close>
  accepts, with the type that belongs to the address; what it accepts is valid and the bytes it
  consumed are its encoding; and the encoder, which fills a buffer of the length it computes first,
  never panics and fails exactly on what \<open>Validate\<close> rejects.
\<close>

theorem nw2_target_codec:
  "(nw2_ReadTarget r = Inr (t, r')) = (\<exists>u. ReadTarget r = Inr (u, r') \<and> t = to_nw2 u) \<and>
   (case nw2_ReadTarget r of
      Inl e \<Rightarrow> True
    | Inr (t, r') \<Rightarrow> \<exists>bs. nw2_EncodeTarget t = Ret (Inr bs) \<and> r = prepend bs r' \<and> nw2_Target_Validate t = None) \<and>
   nw2_EncodeTarget t = Ret (case nw2_Target_Validate t of Some e \<Rightarrow> Inl e | None \<Rightarrow> AppendTarget [] (to_nw3 t))"
  using nw2_ReadTarget_nw3 nw2_ReadTarget_canonical nw2_EncodeTarget_eq by (auto split: sum.splits)

text \<open>
  (C25) nw2 UDP frames are those of nw3: splitting a packet gives the same frames, a close the same
  bytes, and \<open>DecodeUDPFrame\<close> accepts exactly what \<open>DecodeDatagram\<close> accepts, with the same fields.
\<close>

theorem nw2_datagram_equivalence:
  "(EncodeUDPDataFragments f pid p mx = Inr frames) = (EncodePacket f pid p mx = Inr frames) \<and>
   (EncodeUDPData f p = Inr bs) = (EncodeData f p = Inr bs) \<and>
   (EncodeUDPClose f = Inr bs) = (EncodeClose f = Inr bs) \<and>
   (DecodeUDPFrame buf = Inr fr) = (\<exists>d. DecodeDatagram buf = Inr d \<and> fr = datagram_frame d)"
  by (simp add: EncodeUDPDataFragments_nw3 EncodeUDPData_nw3 EncodeUDPClose_nw3 DecodeUDPFrame_nw3)

text \<open>
  (C23) The nw2 reassembler refines that of nw3: from a state within its invariant, a valid fragment
  leads to the same table and the same outcome, unless it is refused for its bytes because it
  declares more than the whole table may hold or because the budget refuses it; in every case it
  does not panic and the invariant holds again.
\<close>

theorem nw2_reassembly_refines:
  assumes "dr_inv r" "frag_valid f frag"
  shows "case pushOwned f frag now reserve release r b of
    (oc, r', b') \<Rightarrow>
      ((case Push (abs_re r) (frag_datagram f frag) now of (r3, res) \<Rightarrow> abs_re r' = r3 \<and> same_outcome oc res) \<or>
       (\<exists>e. oc = Ret (drop_outcome e ReassemblyDropByteLimit)) \<and>
       (int (unat (uf_TotalLen frag)) > rc_MaxBytes (dr_cfg r) \<or>
        (\<exists>g b0 v b1. reserve = Some g \<and> g (unat (uf_TotalLen frag)) b0 = ((v, False), b1)))) \<and>
      oc \<noteq> Panic \<and> dr_inv r'"
proof -
  obtain oc r' b' where p: "pushOwned f frag now reserve release r b = (oc, r', b')" by (metis surj_pair)
  show ?thesis unfolding p using pushOwned_sim [OF assms p] pushOwned_inv(1,2) [OF assms(1) p] by auto
qed

theorem nw2_reassembly_refines_witness:
  "case pushOwned 7 \<lparr>uf_PacketID = 9, uf_FragmentIndex = 1, uf_FragmentCount = 2, uf_TotalLen = 3, uf_Payload = [1]\<rparr> 5
      (Some reserveOwned) byteReservation_Release \<lparr>dr_cfg = DefaultReassemblyConfig, dr_slots = [], dr_bytes = 0\<rparr>
      \<lparr>bb_limit = 0, bb_used = 0, bb_open = [], bb_next = 0\<rparr> of
    (oc, r', b') \<Rightarrow> oc \<noteq> Panic \<and> dr_inv r' \<and> length (dr_slots r') = 1"
proof -
  let ?r = "\<lparr>dr_cfg = DefaultReassemblyConfig, dr_slots = [], dr_bytes = 0\<rparr> :: nat DatagramReassembler"
  let ?f = "\<lparr>uf_PacketID = 9, uf_FragmentIndex = 1, uf_FragmentCount = 2, uf_TotalLen = 3, uf_Payload = [1]\<rparr>"
  have i: "dr_inv ?r" by (simp add: re_inv_def abs_re_def abs_slots_def DefaultReassemblyConfig_def)
  have v: "frag_valid 7 ?f" by (simp add: frag_valid_def fragment_ok_def validateFragment_def frag_datagram_def udp_consts word_le_nat_alt)
  show ?thesis
    using nw2_reassembly_refines [OF i v, of 5 "Some reserveOwned" byteReservation_Release "\<lparr>bb_limit = 0, bb_used = 0, bb_open = [], bb_next = 0\<rparr>"] v
    by (simp add: pushOwned_valid pushOwned_new_def expireLocked_def drop_where_def DefaultReassemblyConfig_def reserveOwned_def
        budget_reserve_def split: prod.splits)
qed

text \<open>
  (C15) The byte budget of a session is exact. Whatever fragments arrive, flows are removed, packets
  are handed out, consumed (and released twice) or queued, and whenever the reassembler expires or
  closes: the session starts, no fragment makes it panic, the bytes the budget counts are those
  reserved for partial packets, those of packets handed out and not consumed, and those queued; the
  session's own counter is the latter, and a positive limit is never exceeded.
\<close>

theorem server_udp_budget:
  "case udp_session_start maxSlots ttl limit of
     Panic \<Rightarrow> False
   | Ret s0 \<Rightarrow>
       (let s = run udp_step s0 ops
        in bb_used (us_budget s) = dr_bytes (ur_inner (us_re s)) + int (\<Sum>p\<leftarrow>us_handed s. snd p) + sum_list (us_queue s) \<and>
           us_queuedBytes s = sum_list (us_queue s) \<and>
           (if limit > 0 then bb_used (us_budget s) \<le> limit else True) \<and>
           fst (udp_Push f frag now (us_re s) (us_budget s)) \<noteq> Panic)"
proof -
  obtain s0 where s: "udp_session_start maxSlots ttl limit = Ret s0" using udp_session_start_inv by blast
  have i: "udp_inv limit (run udp_step s0 ops)" by (rule udp_machine.reachable_inv [OF s])
  then show ?thesis using udp_inv_account [OF i] udp_inv_no_panic [OF i]
    by (simp add: s Let_def) (simp add: udp_inv_def)
qed

subsection \<open>nw3 portal\<close>


text \<open>
  (C11) Admission is exact. Whoever enters and leaves, in any order, the counters of the nw3 portal count the
  holders, in all and per source, within 256 and 32, and a source is let in exactly when there is room for it.
  The same holds of nw2 within its limits, whose table also has no entry for a source without holders.
\<close>

theorem admission_exact:
  "(case run (adm_step admit_take admit_release) (\<lparr>ad_n = 0, ad_per = []\<rparr>, []) ops of
     (a, hs) \<Rightarrow>
       ad_n a = int (length hs) \<and> ad_n a \<le> 256 \<and>
       count_at k (ad_per a) = int (count (mset hs) k) \<and> count_at k (ad_per a) \<le> 32 \<and>
       fst (admit_take k a) = (length hs < 256 \<and> count (mset hs) k < 32)) \<and>
   (case run (adm_step nw2_take nw2_release) (newUnauthenticatedAdmission maxTotal maxSource, []) ops2 of
     (a, hs) \<Rightarrow>
       ua_total a = int (length hs) \<and> ua_total a \<le> (if maxTotal \<le> 0 then 256 else maxTotal) \<and>
       count_at j (ua_perSource a) = int (count (mset hs) (Some j)) \<and>
       count_at j (ua_perSource a) \<le> (if maxSource \<le> 0 then 32 else maxSource) \<and>
       list_all (\<lambda>p. 0 < snd p) (ua_perSource a))"
  by (intro conjI admit_run_exact nw2_run_exact)

text \<open>
  (C10) Every flow is answered exactly once, with the result its setup calls for, and takes and returns its
  place in the flow gate. A refused flow is closed and never relayed; a relay starts only right after a READY
  that could be written, and there is at most one.
\<close>

theorem portal_flow_setup:
  "let tr = serveFlow kind target env
   in setups tr = [SendSetup (setup_of kind env)] \<and>
      flow_acts tr = (if fe_acquire env then [FlowTake, FlowRelease] else []) \<and>
      (CloseClient \<in> set tr) = (setup_of kind env \<noteq> SetupReady) \<and>
      (if list_ex (\<lambda>a. case a of Bridge b \<Rightarrow> True | _ \<Rightarrow> False) tr
       then setup_of kind env = SetupReady \<and> fe_ready env \<and>
         (\<exists>pre b post. tr = pre @ [SendSetup SetupReady, Bridge b] @ post \<and> (\<forall>b. Bridge b \<notin> set pre \<union> set post))
       else True)"
  using serveFlow_answers [of env kind target] serveFlow_gate [of kind target env]
  by (auto simp: answers_def Let_def list_ex_Bridge)

text \<open>
  (C7) Only authenticated peers are served: whatever a TLS or QUIC connection sends, an answer, a dial, a
  registration, a relay or a flow slot implies a finished handshake of the right protocol and, at the start of
  the stream, the tag of a role for this very connection. And a connection takes the admission slot at most
  once and gives it back exactly as often.
\<close>

theorem portal_authenticated:
  "(if list_ex service (serveTCP morphing egress (Some c) env) then tcp_peer_ok c env else True) \<and>
   (if list_ex service (serveQUIC egress (Some c) qenv) then quic_peer_ok c qenv else True) \<and>
   adm_acts (serveTCP morphing egress (Some c) env) =
     (if (morphing \<and> \<not> te_linger env) \<or> (\<not> te_take env \<and> \<not> (morphing \<and> te_wait env)) then [] else [AdmitTake, AdmitRelease]) \<and>
   adm_acts (serveQUIC egress (Some c) qenv) =
     (if qe_alpn qenv \<and> qe_tls13 qenv \<and> qe_take qenv then [AdmitTake, AdmitRelease] else [])"
  using served_peer_ok serveTCP_admission serveQUIC_admission by simp

text \<open>
  (C26) A Vector client is served what it asked for: when it writes its tag and a flow request and the
  handshake succeeds, the portal gives its admission slot back and then handles exactly that flow (an
  IPv6 zone is not transmitted); it closes the connection only in the case that the tags of the two
  roles coincide.
\<close>

theorem portal_vector_served:
  assumes "WriteAuthFrame w0 (Some c) RoleVector AuthTLS exp = (None, w1)" "WriteFlowRequest w1 kind target = (None, w2)"
    and "wr_plan w0 = []" "wr_out w0 = []" "te_stream env = closed_stream (wr_out w2)"
    and "te_take env" "te_handshake env" "te_exporter env = Inr exp" "te_alpn env" "te_tls13 env" "te_linger env" "te_released env"
  shows "serveTCP morphing egress (Some c) env =
    [AdmitTake, AdmitRelease] @
    (if auth_tag (cr_vector c) AuthTLS exp = auth_tag (cr_egress c) AuthTLS exp then [CloseConn]
     else serveFlow kind (target\<lparr>Addr := strip_zone (Addr target)\<rparr>) (te_flow env))"
  by (rule vector_served [OF assms])

theorem portal_vector_served_witness:
  "serveTCP True False (Some \<lparr>cr_vector = [1], cr_egress = [2]\<rparr>)
     \<lparr>te_linger = True, te_take = True, te_wait = False, te_handshake = True, te_exporter = Inr [7], te_alpn = True, te_tls13 = True,
      te_released = True, te_stream = closed_stream (auth_tag [1] AuthTLS [7] @ [0, 3, 2, 97, 98, 1, 187]),
      te_egress = \<lparr>ee_reserve = False, ee_written = False, ee_take = False\<rparr>,
      te_flow = \<lparr>fe_acquire = True, fe_router = None, fe_egress = False, fe_dial = True, fe_ready = True,
        fe_stream = 0, fe_clientInitiated = True, fe_claim = None, fe_open = False, fe_request = False, fe_result = Inr 0, fe_exitStream = 0\<rparr>\<rparr> =
    [AdmitTake, AdmitRelease] @
    (if auth_tag [1] AuthTLS [7] = auth_tag [2] AuthTLS [7] then [CloseConn]
     else [FlowTake, DialTarget 0 \<lparr>Addr = NoAddr, Host = [97, 98], Port = 443\<rparr>, SendSetup 0, Bridge RelayTCP, ClosePeer, FlowRelease])"
proof -
  let ?w = "\<lparr>wr_out = [], wr_plan = []\<rparr>" and ?c = "\<lparr>cr_vector = [1], cr_egress = [2]\<rparr>"
  let ?t = "\<lparr>Addr = NoAddr, Host = [97, 98], Port = 443\<rparr>"
  have a: "WriteAuthFrame ?w (Some ?c) RoleVector AuthTLS [7] = (None, \<lparr>wr_out = auth_tag [1] AuthTLS [7], wr_plan = []\<rparr>)"
    using WriteAuthFrame_eq [of ?w AuthTLS ?c RoleVector "[1]" "[7]"] by (simp add: RoleKey_def)
  have t: "AppendTarget [] ?t = Inr [3, 2, 97, 98, 1, 187]" by code_simp
  have r: "WriteFlowRequest \<lparr>wr_out = auth_tag [1] AuthTLS [7], wr_plan = []\<rparr> FlowTCP ?t =
      (None, \<lparr>wr_out = auth_tag [1] AuthTLS [7] @ [0, 3, 2, 97, 98, 1, 187], wr_plan = []\<rparr>)"
    by (simp add: WriteFlowRequest_def WriteFlowStart_def EncodeFlowStart_def setup_defs t)
  show ?thesis
    using portal_vector_served [OF a r, of "\<lparr>te_linger = True, te_take = True, te_wait = False, te_handshake = True, te_exporter = Inr [7], te_alpn = True, te_tls13 = True,
      te_released = True, te_stream = closed_stream (auth_tag [1] AuthTLS [7] @ [0, 3, 2, 97, 98, 1, 187]),
      te_egress = \<lparr>ee_reserve = False, ee_written = False, ee_take = False\<rparr>,
      te_flow = \<lparr>fe_acquire = True, fe_router = None, fe_egress = False, fe_dial = True, fe_ready = True,
        fe_stream = 0, fe_clientInitiated = True, fe_claim = None, fe_open = False, fe_request = False, fe_result = Inr 0, fe_exitStream = 0\<rparr>\<rparr>" True False]
    by (simp add: strip_zone_def serveFlow_def direct_flow_def setup_defs)
qed

text \<open>
  (C9) Datagrams end to end: a router sends a packet without error, and its frames reach an idle receive loop of
  another router that has the flow registered and room in the flow's queue. A packet cut into fragments is queued
  exactly once and whole, and no other flow changes, for every order of the fragments and with duplicates:
  \<open>xs\<close> and \<open>y\<close> are the arrivals up to the one that completes the packet, \<open>zs\<close> are late duplicates after it. The
  conditions are those of the code: no partial packet under the same key, bytes left for it in the reassembler, all of
  \<open>xs\<close> and \<open>y\<close> within the time to live of the first, and at least one fragment missing among the late duplicates (a
  whole second set would be a second packet). A packet that fits one DATA datagram is not protected against
  duplication: it is queued once for each time the datagram arrives.
\<close>

theorem router_delivery:
  assumes "Send i p mx err ra = ((frames, None), ra')"
    and "router_inv rb" "map_of (rt_tab rb) i = Some f" "rt_stage rb = Idle"
    and "length (fl_C (rt_flows rb f)) + (if length frames = 1 then length (xs @ y # zs) else 1) \<le> queueLen"
    and "\<forall>(k, now, pick) \<in> set (xs @ y # zs). k < length frames" "fst ` set (xs @ [y]) = {0..<length frames}"
    and "length frames = 1 \<or>
      map_of (re_slots (rt_re rb)) (i, rt_pkt ra') = None \<and> re_reserved (rt_re rb) + int (length p) \<le> re_maxBytes (rt_re rb) \<and>
      (\<forall>(k, now, pick) \<in> set (xs @ [y]). now - fst (snd (hd (xs @ [y]))) \<le> re_ttl (rt_re rb)) \<and>
      fst ` set xs \<noteq> {0..<length frames} \<and> \<not> {0..<length frames} \<subseteq> fst ` set zs"
  shows "case run_all rb (map (\<lambda>(k, now, pick). (frames ! k, now, pick)) (xs @ y # zs)) of
     Panic \<Rightarrow> False
   | Ret r \<Rightarrow> rt_tab r = rt_tab rb \<and>
       rt_flows r = (rt_flows rb)(f := (rt_flows rb f)\<lparr>fl_C := fl_C (rt_flows rb f) @
         replicate (if length frames = 1 then length (xs @ y # zs) else 1) p\<rparr>)"
  using router_delivery_lemma [OF assms] by auto

theorem router_delivery_witness:
  "(case run_all (snd (Register 7 (NewRouter 0)))
      (map (\<lambda>(k, now, pick). (map (fragment_frame 7 1 (map word_of_nat [0..<18]) 9 2) [0..<2] ! k, now, pick))
        ([(1, 100, False), (1, 200, True)] @ (0, 300, False) # [(1, 400, True)])) of
     Panic \<Rightarrow> False
   | Ret r \<Rightarrow> fl_C (rt_flows r 0) = [map word_of_nat [0..<18]]) \<and>
   (case run_all (snd (Register 7 (NewRouter 0)))
      (map (\<lambda>(k, now, pick). ([base_header frameData 7 @ [5, 6]] ! k, now, pick)) ([(0, 100, False)] @ (0, 200, False) # [])) of
     Panic \<Rightarrow> False
   | Ret r \<Rightarrow> fl_C (rt_flows r 0) = [[5, 6], [5, 6]])"
proof -
  let ?p = "map word_of_nat [0..<18] :: byte list" and ?rb = "snd (Register 7 (NewRouter 0))"
  have "EncodePacket 7 1 ?p 21 = Inr (map (fragment_frame 7 1 ?p 9 2) [0..<2])"
    using EncodePacket_loop_all [of 9 ?p 7 1]
    by (simp add: EncodePacket_def validateFlow_def udp_consts MaxFlowID_def)
  then have s: "Send 7 ?p 21 (\<lambda>_. None) (NewRouter 0) =
      ((map (fragment_frame 7 1 ?p 9 2) [0..<2], None), (NewRouter 0)\<lparr>rt_pkt := 1\<rparr>)"
    by (simp add: Send_def NewRouter_def next_packet_def numeral_2_eq_2)
  have w: "EncodePacket 7 1 [5, 6] 21 = Inr [base_header frameData 7 @ [5, 6]]" by (simp add: EncodePacket_def EncodeData_def validateFlow_def udp_consts MaxFlowID_def)
  have s2: "Send 7 [5, 6] 21 (\<lambda>_. None) (NewRouter 0) = (([base_header frameData 7 @ [5, 6]], None), (NewRouter 0)\<lparr>rt_pkt := 1\<rparr>)"
    using w by (simp add: Send_def NewRouter_def next_packet_def)
  have i: "router_inv ?rb" by (intro router_Register router_inv_New)
  have f: "map_of (rt_tab ?rb) 7 = Some 0" "fl_C (rt_flows ?rb 0) = []" "rt_stage ?rb = Idle" "rt_re ?rb = NewReassembler 64 (4 * 2 ^ 20) 0"
    by (simp_all add: Register_def NewRouter_def)
  have "case run_all ?rb (map (\<lambda>(k, now, pick). (map (fragment_frame 7 1 ?p 9 2) [0..<2] ! k, now, pick))
        ([(1, 100, False), (1, 200, True)] @ (0, 300, False) # [(1, 400, True)])) of
      Panic \<Rightarrow> False
    | Ret r \<Rightarrow> rt_tab r = rt_tab ?rb \<and> rt_flows r = (rt_flows ?rb)(0 := (rt_flows ?rb 0)\<lparr>fl_C := fl_C (rt_flows ?rb 0) @
        replicate (if length (map (fragment_frame 7 1 ?p 9 2) [0..<2]) = 1
          then length ([(1, 100, False), (1, 200, True)] @ (0, 300, False) # [(1 :: nat, 400 :: time, True)]) else 1) ?p\<rparr>)"
    using f by (intro router_delivery [OF s i f(1)])
      (auto simp: NewReassembler_def queueLen_def numeral_2_eq_2 atLeast0_lessThan_Suc)
  moreover have "case run_all ?rb (map (\<lambda>(k, now, pick). ([base_header frameData 7 @ [5, 6]] ! k, now, pick)) ([(0, 100, False)] @ (0, 200, False) # [])) of
      Panic \<Rightarrow> False
    | Ret r \<Rightarrow> rt_tab r = rt_tab ?rb \<and> rt_flows r = (rt_flows ?rb)(0 := (rt_flows ?rb 0)\<lparr>fl_C := fl_C (rt_flows ?rb 0) @
        replicate (if length [base_header frameData 7 @ [5, 6]] = 1
          then length ([(0, 100, False)] @ (0, 200, False) # ([] :: (nat \<times> time \<times> bool) list)) else 1) [5, 6]\<rparr>)"
    using f by (intro router_delivery [OF s2 i f(1)]) (simp_all add: queueLen_def)
  ultimately show ?thesis using f(2) by (auto simp del: run_all.simps list.map append.simps split: go.splits)
qed


text \<open>
  (C28) UDP over two TLS legs: the packets a client frames on its connection are copied by the portal to
  the exit's connection byte for byte, and the exit hands exactly these packets, in this order, to its
  socket; a stream copied with \<open>Copy\<close> arrives whole. The exit's loop is \<^verbatim>\<open>relayUoT\<close>, which \<^verbatim>\<open>portal/server.go\<close> and
  \<^verbatim>\<open>egress/client.go\<close> both have, with the same loop from the stream to the socket.
\<close>

theorem relay_chain:
  assumes "write_all EncodeUoT ps = Inr bs" "wr_plan w = []" "wr_out w = []"
  shows "wr_out (pair_copy (closed_stream bs) w) = bs \<and>
    relay_up (\<lambda>_. True) 0 (closed_stream (wr_out (pair_copy (closed_stream bs) w))) = ps \<and>
    wr_out (relay_down ps w) = bs \<and>
    Copy w (closed_stream bs) = ((int (length bs), None), w\<lparr>wr_out := bs\<rparr>)"
proof -
  have c: "closed_stream bs = prepend bs (closed_stream [])" by (simp add: closed_stream_def prepend_def)
  have p: "wr_out (pair_copy (closed_stream bs) w) = bs"
    unfolding c using pair_copy_all [OF assms(1,2) ReadUoT_end] assms(3) by simp
  moreover have "relay_up (\<lambda>_. True) 0 (closed_stream bs) = ps" unfolding c by (rule relay_up_all [OF assms(1) ReadUoT_end])
  moreover have "Copy w (closed_stream bs) = ((int (length bs), None), w\<lparr>wr_out := bs\<rparr>)"
    using Copy_all [OF assms(2), of "closed_stream bs"] assms(3) by (simp add: closed_stream_def read_end_def)
  ultimately show ?thesis using relay_down_all [OF assms(1,2)] assms(3) by simp
qed

theorem relay_chain_witness:
  "relay_up (\<lambda>_. True) 0 (closed_stream (wr_out (pair_copy (closed_stream [0, 2, 5, 6, 0, 0, 0, 1, 9]) \<lparr>wr_out = [], wr_plan = []\<rparr>))) =
     [[5, 6], [], [9]]"
proof -
  have "write_all EncodeUoT [[5, 6], [], [9]] = Inr [0, 2, 5, 6, 0, 0, 0, 1, 9]"
    by (simp add: EncodeUoT_def udp_consts PutUint16_def nat_be_eval)
  from relay_chain [OF this, of "\<lparr>wr_out = [], wr_plan = []\<rparr>", OF writer.select_convs(2) writer.select_convs(1)] show ?thesis by blast
qed

text \<open>
  (C5) The claim registry of the nw2 server keeps its accounts, however claims, timeouts, cancellations,
  rejections, replaced sessions, draining, closing and the deferred work of the callers interleave. It
  panics only when the 64-bit counter of generations is exhausted. Otherwise the number of pending halves of
  every session and of idle TLS connections are those of the table and within their limits, a session has
  no more live claims than allowed, the queue of terminal entries is bounded, and the UDP flows in use are
  the permits not yet released, within their limit: each of these permits is held by an entry of the table
  or about to be released by a caller.
\<close>

theorem claim_registry_accounts:
  "case claim_run evs (new_world t l h) of
     Panic \<Rightarrow> (\<exists>n w. claim_run (take n evs) (new_world t l h) = Ret w \<and> cr_nextGeneration (cw_reg w) = -1)
   | Ret w \<Rightarrow>
       (let r = cw_reg w; lm = default_limits l
        in (\<forall>sid. get0 (cr_pending r) sid = table_count (\<lambda>k e. fst k = sid \<and> ce_state e = claimPending) r) \<and>
           cr_idleTCP r = table_count (\<lambda>k e. ce_state e = claimPending \<and> ce_pendingTCP e) r \<and>
           cr_idleTCP r \<le> lm_AuthenticatedTCPIdleConnections lm \<and>
           (\<forall>sid. session_claims sid r \<le> lm_PendingFlowsPerSession lm) \<and>
           int (length (cr_terminalOrder r)) \<le> lm_PendingFlowsPerSession lm \<and>
           (\<forall>g. get0 (cr_udpInUse r) g =
              (if cr_closed r then 0 else int (length (filter (\<lambda>u. \<not> up_released u \<and> up_key u = g) (cr_permits r)))) \<and>
              get0 (cr_udpInUse r) g \<le> lm_UDPFlowsPerSession lm) \<and>
           list_all (\<lambda>i. up_released (cr_permits r ! i) \<or> list_ex (\<lambda>(k, p). ce_permit (cr_heap r p) = Some i) (cr_entries r) \<or>
             ReleasePermit i \<in> set (cw_todo w)) [0..<length (cr_permits r)])"
proof (cases "claim_run evs (new_world t l h)")
  case Panic
  then show ?thesis using claim_run_ok [OF new_world_ok, of evs t l h] by (auto simp: exhausted_def)
next
  case (Ret w)
  note lim = new_world_limits [OF Ret]
  have "world_ok w" using claim_run_ok [OF new_world_ok, of evs t l h] Ret by simp
  then have i: "reg_ok {} {} {} (cw_reg w)" "queue_ok (cw_reg w)" "permit_ok {i. ReleasePermit i \<in> set (cw_todo w)} (cw_reg w)" "limits_ok (cw_reg w)"
    by (simp_all add: world_ok_def Inv_def held_by_def)
  have "cr_idleTCP (cw_reg w) \<le> lm_AuthenticatedTCPIdleConnections (default_limits l)" using reg_okD(3) [OF i(1)] lim by (simp add: counts_ok_def)
  moreover have "int (length (cr_terminalOrder (cw_reg w))) \<le> lm_PendingFlowsPerSession (default_limits l)"
    using i(2,4) lim by (simp add: queue_ok_def terminal_cap_def limits_ok_def)
  ultimately show ?thesis using counts_table [OF i(1)] permits_accounted [OF i(3)] lim by (simp add: Ret Let_def)
qed

text \<open>
  (C6) The claim registry pairs halves safely. In every run, each entry of the table stands under its own
  session and flow and belongs to the current generation of that session; a pending entry is in the table
  with one validated half and its timer armed; an active one is a validated DUPLEX claim, or an OPEN and an
  ATTACH claim of the same session, flow, generation and metadata, with the target of the half that names
  one and the result on the half that carries the downlink; a terminal one holds no permit and its waiters
  have been told. While claims are accepted no generation outlives its last holder. A connection carries one
  claim, as the callers submit or reject each stream once: at most one setup result is written to it, and
  those written are those committed.
\<close>

theorem claim_registry_pairing:
  "case claim_run evs (new_world t l h) of
     Panic \<Rightarrow> True
   | Ret w \<Rightarrow>
       (let r = cw_reg w
        in distinct (map fst (cr_entries r)) \<and>
           list_all (\<lambda>(k, p). p < cr_fresh r \<and> ce_key (cr_heap r p) = k \<and>
             ce_generation (cr_heap r p) = get0 (cr_generations r) (fst k) \<and> ce_generation (cr_heap r p) \<noteq> 0) (cr_entries r) \<and>
           list_all (\<lambda>p. entry_shape (cr_heap r p) \<and> sel_entry (cr_results r) (cr_heap r p) \<and>
             (if ce_state (cr_heap r p) = claimPending then is_current r p else True)) [0..<cr_fresh r] \<and>
           (\<forall>sid. let g = get0 (cr_generations r) sid
             in if cr_accepting r \<and> g \<noteq> 0 then hasGenerationStateLocked r (sid, g) else True) \<and>
           distinct (map fst (cw_written w)) \<and> fst ` set (cw_written w) = sr_writer ` {s \<in> set (cr_results r). sr_committed s})"
proof (cases "claim_run evs (new_world t l h)")
  case (Ret w)
  have "world_ok w" using claim_run_ok [OF new_world_ok, of evs t l h] Ret by simp
  then have i: "reg_ok {} {} {} (cw_reg w)" "sel_ok (cw_reg w)" "setups_ok (cr_results (cw_reg w)) (cw_streams w) (cw_written w)"
    by (simp_all add: world_ok_def Inv_def)
  have "claim_entry_ok (cw_reg w) p" if "p < cr_fresh (cw_reg w)" for p using reg_okD(5) [OF i(1) that] by simp
  then have "list_all (\<lambda>p. entry_shape (cr_heap (cw_reg w) p) \<and> sel_entry (cr_results (cw_reg w)) (cr_heap (cw_reg w) p) \<and>
      (if ce_state (cr_heap (cw_reg w) p) = claimPending then is_current (cw_reg w) p else True)) [0..<cr_fresh (cw_reg w)]"
    using i(2) by (auto simp: list_all_iff claim_entry_ok_def sel_ok_def)
  moreover have "let g = get0 (cr_generations (cw_reg w)) sid
      in if cr_accepting (cw_reg w) \<and> g \<noteq> 0 then hasGenerationStateLocked (cw_reg w) (sid, g) else True" for sid
    using reg_okD(4) [OF i(1)] by (auto simp: no_leak_def Let_def)
  ultimately show ?thesis using rows_generation [OF i(1)] keyed_distinct [OF reg_okD(1) [OF i(1)]] i(3)
    by (simp add: Ret Let_def setups_ok_def)
qed simp

end
